(* ===== verification/Prelude.thy ===== *)
theory Prelude
  imports Main "HOL-Library.Word"
begin

unbundle bit_operations_syntax

section \<open>Shared vocabulary of the snippet models\<close>

text \<open>
  What every component of the development uses: the ways a C function can stop without
  returning (\<open>fault\<close>), sequencing of steps that may fault (\<open>rbind\<close>), byte buffers with
  bounds-checked reads and copies (\<open>rd\<close>, \<open>memcpy\<close>, \<open>memmove\<close>), the scanning loop
  \<^verbatim>\<open>while (cur < len && p(src[cur])) cur++\<close> (\<open>skip_while\<close>), and the facts about machine
  words that the bit tricks of the sources rest on (isolating the lowest set bit, smearing
  the highest set bit downwards).
\<close>

named_theorems buf_simps "rewriting of buffer slices, copies and scans"
named_theorems word_facts "facts about machine words used by the bit tricks"

type_synonym u8 = "8 word"
type_synonym u16 = "16 word"
type_synonym u32 = "32 word"
type_synonym u64 = "64 word"

subsection \<open>Faults\<close>

text \<open>
  A C function that fails an \<^verbatim>\<open>assert\<close>, calls \<^verbatim>\<open>abort\<close>, accesses memory outside an object,
  dereferences a null pointer, overflows a signed integer or blocks for ever on a mutex has
  no result. The models return such an outcome as a value.
\<close>

datatype fault =
    Assert_failed
  | Aborted
  | Out_of_bounds
  | Null_pointer
  | Int_overflow
  | Deadlock

type_synonym 'a res = "fault + 'a"

definition rbind :: "'a res \<Rightarrow> ('a \<Rightarrow> 'b res) \<Rightarrow> 'b res" where
  "rbind m f = (case m of Inl e \<Rightarrow> Inl e | Inr x \<Rightarrow> f x)"

definition c_assert :: "bool \<Rightarrow> unit res" where
  "c_assert b = (if b then Inr () else Inl Assert_failed)"

lemma rbind_Inl [simp]: "rbind (Inl e) f = Inl e"
  by (simp add: rbind_def)

lemma rbind_Inr [simp]: "rbind (Inr x) f = f x"
  by (simp add: rbind_def)

lemma rbind_eq_Inr: "rbind m f = Inr y \<longleftrightarrow> (\<exists>x. m = Inr x \<and> f x = Inr y)"
  by (cases m) (auto simp: rbind_def)

lemma rbind_cong: "m = m' \<Longrightarrow> (\<And>x. m' = Inr x \<Longrightarrow> f x = g x) \<Longrightarrow> rbind m f = rbind m' g"
  by (cases m') auto

lemma rbind_assoc: "rbind (rbind m f) g = rbind m (\<lambda>x. rbind (f x) g)"
  by (cases m) (auto simp: rbind_def)

lemma c_assert_True [simp]: "c_assert True = Inr ()"
  by (simp add: c_assert_def)

lemma c_assert_False [simp]: "c_assert False = Inl Assert_failed"
  by (simp add: c_assert_def)

lemma c_assert_eq_Inr [simp]: "c_assert b = Inr u \<longleftrightarrow> b"
  by (simp add: c_assert_def)

subsection \<open>Buffers\<close>

definition rd :: "'a list \<Rightarrow> nat \<Rightarrow> 'a res" where
  "rd xs i = (if i < length xs then Inr (xs ! i) else Inl Out_of_bounds)"

lemma rd_in [simp]: "i < length xs \<Longrightarrow> rd xs i = Inr (xs ! i)"
  by (simp add: rd_def)

lemma rd_out [simp]: "length xs \<le> i \<Longrightarrow> rd xs i = Inl Out_of_bounds"
  by (simp add: rd_def)

lemma rd_eq_Inr: "rd xs i = Inr x \<longleftrightarrow> i < length xs \<and> xs ! i = x"
  by (auto simp: rd_def)

definition wr :: "'a list \<Rightarrow> nat \<Rightarrow> 'a \<Rightarrow> 'a list res" where
  "wr xs i x = (if i < length xs then Inr (xs[i := x]) else Inl Out_of_bounds)"

lemma wr_in [simp]: "i < length xs \<Longrightarrow> wr xs i x = Inr (xs[i := x])"
  by (simp add: wr_def)

text \<open>\<open>blit dst off src\<close> is \<open>dst\<close> with \<open>src\<close> written over it from \<open>off\<close> on.\<close>

definition blit :: "'a list \<Rightarrow> nat \<Rightarrow> 'a list \<Rightarrow> 'a list" where
  "blit dst off src = take off dst @ src @ drop (off + length src) dst"

definition chunk :: "'a list \<Rightarrow> nat \<Rightarrow> nat \<Rightarrow> 'a list" where
  "chunk xs off n = take n (drop off xs)"

text \<open>
  \<open>memcpy dst off src\<close> copies the whole of \<open>src\<close> to \<open>dst + off\<close>; \<open>memmove xs to from n\<close>
  copies \<open>n\<close> elements inside one buffer, as if through a temporary. Both fault when a byte
  outside a buffer would be touched.
\<close>

definition memcpy :: "'a list \<Rightarrow> nat \<Rightarrow> 'a list \<Rightarrow> 'a list res" where
  "memcpy dst off src =
     (if off + length src \<le> length dst then Inr (blit dst off src) else Inl Out_of_bounds)"

definition memmove :: "'a list \<Rightarrow> nat \<Rightarrow> nat \<Rightarrow> nat \<Rightarrow> 'a list res" where
  "memmove xs to from n =
     (if from + n \<le> length xs \<and> to + n \<le> length xs
      then Inr (blit xs to (chunk xs from n)) else Inl Out_of_bounds)"

lemma length_chunk [simp]: "length (chunk xs off n) = min n (length xs - off)"
  by (simp add: chunk_def)

lemma chunk_0 [simp]: "chunk xs off 0 = []"
  by (simp add: chunk_def)

lemma length_blit [simp]: "off + length src \<le> length dst \<Longrightarrow> length (blit dst off src) = length dst"
  by (simp add: blit_def)

lemma blit_Nil [simp]: "blit dst off [] = dst"
  by (simp add: blit_def)

lemma take_blit [buf_simps]:
  "n \<le> off \<Longrightarrow> off \<le> length dst \<Longrightarrow> take n (blit dst off src) = take n dst"
  by (simp add: blit_def min_def)

lemma drop_blit [buf_simps]:
  "off \<le> length dst \<Longrightarrow> off + length src \<le> n \<Longrightarrow> drop n (blit dst off src) = drop n dst"
  by (simp add: blit_def add.commute)

lemma take_blit_end [buf_simps]:
  "off \<le> length dst \<Longrightarrow> take (off + length src) (blit dst off src) = take off dst @ src"
  by (simp add: blit_def)

lemma drop_blit_start [buf_simps]:
  "off \<le> length dst \<Longrightarrow> drop off (blit dst off src) = src @ drop (off + length src) dst"
  by (simp add: blit_def)

lemma nth_blit:
  "off + length src \<le> length dst \<Longrightarrow> i < length dst \<Longrightarrow>
     blit dst off src ! i = (if off \<le> i \<and> i < off + length src then src ! (i - off) else dst ! i)"
  by (auto simp: blit_def nth_append min_def)

lemma take_chunk_drop: "take off xs @ chunk xs off n @ drop (off + n) xs = xs"
  by (metis add.commute append_take_drop_id drop_drop chunk_def)

lemma memcpy_in [simp]:
  "off + length src \<le> length dst \<Longrightarrow> memcpy dst off src = Inr (blit dst off src)"
  by (simp add: memcpy_def)

lemma memmove_in [simp]:
  "from + n \<le> length xs \<Longrightarrow> to + n \<le> length xs \<Longrightarrow>
     memmove xs to from n = Inr (blit xs to (chunk xs from n))"
  by (simp add: memmove_def)

text \<open>The difference of two values of type \<^verbatim>\<open>size_t\<close>.\<close>

definition size_sub :: "nat \<Rightarrow> nat \<Rightarrow> nat" where
  "size_sub a b = (if b \<le> a then a - b else a + 2 ^ 64 - b)"

subsection \<open>The scanning loop\<close>

text \<open>\<^verbatim>\<open>while (cur < len && p(src[cur])) cur++\<close>\<close>

function skip_while :: "('a \<Rightarrow> bool) \<Rightarrow> 'a list \<Rightarrow> nat \<Rightarrow> nat" where
  "skip_while p src cur =
     (if cur < length src \<and> p (src ! cur) then skip_while p src (Suc cur) else cur)"
  by pat_completeness auto
termination
  by (relation "measure (\<lambda>(p, src, cur). length src - cur)") auto

declare skip_while.simps [simp del]

lemma skip_while_eq:
  "cur \<le> length src \<Longrightarrow> skip_while p src cur = cur + length (takeWhile p (drop cur src))"
proof (induction p src cur rule: skip_while.induct)
  case (1 p src cur)
  show ?case
  proof (cases "cur < length src \<and> p (src ! cur)")
    case True
    then have "drop cur src = src ! cur # drop (Suc cur) src"
      by (simp add: Cons_nth_drop_Suc)
    with True "1.IH" show ?thesis
      by (simp add: skip_while.simps [of p src cur])
  next
    case False
    show ?thesis
    proof (cases "cur < length src")
      case True
      then have "drop cur src = src ! cur # drop (Suc cur) src"
        by (simp add: Cons_nth_drop_Suc)
      with True False show ?thesis
        by (simp add: skip_while.simps [of p src cur])
    next
      case False
      then show ?thesis
        by (simp add: skip_while.simps [of p src cur])
    qed
  qed
qed

lemma skip_while_ge [simp]: "cur \<le> skip_while p src cur"
proof (induction p src cur rule: skip_while.induct)
  case (1 p src cur)
  then show ?case
    by (cases "cur < length src \<and> p (src ! cur)") (auto simp: skip_while.simps [of p src cur])
qed

lemma skip_while_le [simp]: "cur \<le> length src \<Longrightarrow> skip_while p src cur \<le> length src"
proof -
  assume "cur \<le> length src"
  moreover have "length (takeWhile p (drop cur src)) \<le> length (drop cur src)"
    by (rule length_takeWhile_le)
  ultimately show ?thesis by (simp add: skip_while_eq)
qed

lemma skip_while_stop:
  "skip_while p src cur < length src \<Longrightarrow> \<not> p (src ! skip_while p src cur)"
proof (induction p src cur rule: skip_while.induct)
  case (1 p src cur)
  then show ?case
    by (cases "cur < length src \<and> p (src ! cur)") (auto simp: skip_while.simps [of p src cur])
qed

lemma skip_while_all:
  "cur \<le> i \<Longrightarrow> i < skip_while p src cur \<Longrightarrow> i < length src \<and> p (src ! i)"
proof (induction p src cur rule: skip_while.induct)
  case (1 p src cur)
  show ?case
  proof (cases "cur < length src \<and> p (src ! cur)")
    case True
    with 1 show ?thesis
      by (cases "i = cur") (auto simp: skip_while.simps [of p src cur])
  next
    case False
    with "1.prems" show ?thesis by (auto simp: skip_while.simps [of p src cur])
  qed
qed

text \<open>Scanning over a run of accepted characters up to a rejected one, or to the end.\<close>

lemma skip_while_run:
  "\<forall>c \<in> set mid. p c \<Longrightarrow> post = [] \<or> \<not> p (hd post) \<Longrightarrow>
     skip_while p (pre @ mid @ post) (length pre) = length pre + length mid"
  by (cases post) (auto simp: skip_while_eq takeWhile_tail takeWhile_eq_all_conv [THEN iffD2])

text \<open>Two positions less than a capacity apart of a ring use different slots.\<close>

lemma mod_neq:
  assumes "i < (t :: nat)" "t - i < c"
  shows "i mod c \<noteq> t mod c"
proof
  assume "i mod c = t mod c"
  then have "c dvd t - i" using assms(1) by (metis less_imp_le_nat mod_eq_dvd_iff_nat)
  with assms show False by (auto dest: dvd_imp_le)
qed

text \<open>How many items have a property after one of them changed.\<close>

lemma length_filter_update:
  "i < length xs \<Longrightarrow> length (filter P (xs[i := y])) + (if P (xs ! i) then 1 else 0)
     = length (filter P xs) + (if P y then 1 else 0)"
proof (induction xs arbitrary: i)
  case (Cons x xs)
  then show ?case by (cases i) auto
qed simp

subsection \<open>Sequences of operations\<close>

text \<open>
  The interface between a component and its specification: every operation of the component,
  run in a state that satisfies the invariant, returns (it does not fault), gives the answer of the
  specification and lands in the state the specification says. What holds of one operation
  then holds of every sequence of them.
\<close>

fun run_ops :: "('c \<Rightarrow> 's \<Rightarrow> ('o \<times> 's) res) \<Rightarrow> 'c list \<Rightarrow> 's \<Rightarrow> ('o list \<times> 's) res" where
  "run_ops step [] s = Inr ([], s)"
| "run_ops step (c # cs) s = rbind (step c s) (\<lambda>(out, s). rbind (run_ops step cs s) (\<lambda>(outs, s). Inr (out # outs, s)))"

fun run_spec :: "('c \<Rightarrow> 'a \<Rightarrow> 'o \<times> 'a) \<Rightarrow> 'c list \<Rightarrow> 'a \<Rightarrow> 'o list \<times> 'a" where
  "run_spec spec [] a = ([], a)"
| "run_spec spec (c # cs) a = (let (out, a) = spec c a; (outs, a) = run_spec spec cs a in (out # outs, a))"

locale simulation =
  fixes step :: "'c \<Rightarrow> 's \<Rightarrow> ('o \<times> 's) res"
    and spec :: "'c \<Rightarrow> 'a \<Rightarrow> 'o \<times> 'a"
    and ok :: "'s \<Rightarrow> bool"
    and abs :: "'s \<Rightarrow> 'a"
    and pre :: "'c \<Rightarrow> bool"
  assumes step_sim:
    "ok s \<Longrightarrow> pre c \<Longrightarrow> \<exists>out s'. step c s = Inr (out, s') \<and> ok s' \<and> spec c (abs s) = (out, abs s')"
begin

lemma run_sim:
  "ok s \<Longrightarrow> \<forall>c \<in> set cs. pre c \<Longrightarrow>
     \<exists>outs s'. run_ops step cs s = Inr (outs, s') \<and> ok s' \<and> run_spec spec cs (abs s) = (outs, abs s')"
proof (induction cs arbitrary: s)
  case Nil
  then show ?case by simp
next
  case (Cons c cs)
  then obtain out s1 where 1: "step c s = Inr (out, s1)" "ok s1" "spec c (abs s) = (out, abs s1)"
    using step_sim [of s c] by auto
  with Cons obtain outs s2 where
    "run_ops step cs s1 = Inr (outs, s2)" "ok s2" "run_spec spec cs (abs s1) = (outs, abs s2)"
    by (metis list.set_intros(2))
  with 1 show ?case by simp
qed

end

subsection \<open>Transition systems\<close>

text \<open>States reached by interleaved steps, and invariants of them.\<close>

inductive reachable :: "('s \<Rightarrow> bool) \<Rightarrow> ('s \<Rightarrow> 's \<Rightarrow> bool) \<Rightarrow> 's \<Rightarrow> bool" for init step where
  start: "init s \<Longrightarrow> reachable init step s"
| more: "reachable init step s \<Longrightarrow> step s s' \<Longrightarrow> reachable init step s'"

locale invariant_system =
  fixes init :: "'s \<Rightarrow> bool"
    and step :: "'s \<Rightarrow> 's \<Rightarrow> bool"
    and I :: "'s \<Rightarrow> bool"
  assumes init_inv: "init s \<Longrightarrow> I s"
    and step_inv: "I s \<Longrightarrow> step s s' \<Longrightarrow> I s'"
begin

lemma reachable_inv: "reachable init step s \<Longrightarrow> I s"
  by (induction rule: reachable.induct) (auto intro: init_inv step_inv)

end

subsection \<open>Machine words\<close>

lemma unat_shift_right: "unat (drop_bit m (v :: 'a::len word)) = unat v div 2 ^ m"
  by (simp only: unat_drop_bit_eq drop_bit_nat_def)

lemma unat_and_mask: "unat (x AND mask k :: 'a::len word) = unat x mod 2 ^ k"
  by (simp only: take_bit_eq_mask [symmetric] unsigned_take_bit_eq take_bit_nat_def)

lemma unat_pow2: "n < LENGTH('a) \<Longrightarrow> unat (2 ^ n :: 'a::len word) = 2 ^ n"
proof -
  assume n: "n < LENGTH('a)"
  have "unat (of_nat (2 ^ n) :: 'a word) = 2 ^ n mod 2 ^ LENGTH('a)"
    by (rule unat_of_nat)
  with n show ?thesis by simp
qed

lemma pow2_word_neq_0: "n < LENGTH('a) \<Longrightarrow> (2 ^ n :: 'a::len word) \<noteq> 0"
  using unat_pow2 [where 'a = 'a, of n] by (metis power_not_zero unat_0 zero_neq_numeral)

lemma unat_of_nat_small: "n < 2 ^ LENGTH('a) \<Longrightarrow> unat (of_nat n :: 'a::len word) = n"
  by (simp add: unat_of_nat)

lemma unat_ucast_small:
  "unat (x :: 'a::len word) < 2 ^ LENGTH('b) \<Longrightarrow> unat (ucast x :: 'b::len word) = unat x"
  by (simp add: unsigned_ucast_eq take_bit_nat_eq_self)

lemma sint_small:
  assumes "unat (w :: u32) < 2 ^ 31"
  shows "sint w = int (unat w)"
proof -
  define n where "n = unat w"
  have u: "uint w = int n" unfolding n_def by (rule uint_nat)
  have "signed_take_bit (LENGTH(32) - Suc 0) (int n) = int n"
    by (rule signed_take_bit_int_eq_self) (use assms in \<open>auto simp flip: n_def\<close>)
  then show ?thesis by (simp only: sint_uint u n_def [symmetric])
qed

lemma unat_add_mod:
  assumes "k \<le> 64"
  shows "unat (x + y :: u64) mod 2 ^ k = (unat x + unat y) mod 2 ^ k"
proof -
  have "(2 :: nat) ^ k dvd 2 ^ 64" using assms by (rule le_imp_power_dvd)
  then show ?thesis by (simp only: unat_word_ariths(1) len_num1 len_bit0 len_bit1) (simp add: mod_mod_cancel)
qed

text \<open>\<^verbatim>\<open>p += -p & mask\<close> moves a pointer up to the next multiple of a power of two.\<close>

lemma pad_mask_aligns:
  assumes "k \<le> 64"
  shows "(p + (- p AND mask k) :: u64) AND mask k = 0"
proof -
  have "unat (p + (- p AND mask k)) mod 2 ^ k = (unat p + unat (- p) mod 2 ^ k) mod 2 ^ k"
    by (simp only: unat_add_mod [OF assms] unat_and_mask)
  also have "\<dots> = unat (p + - p) mod 2 ^ k"
    by (simp only: unat_add_mod [OF assms] mod_add_right_eq)
  finally show ?thesis by (simp flip: unat_eq_zero add: unat_and_mask)
qed

definition round_up :: "nat \<Rightarrow> nat \<Rightarrow> nat" where
  "round_up a n = (n + a - 1) div a * a"

lemma round_up_ge: "0 < a \<Longrightarrow> n \<le> round_up a n"
proof -
  assume "0 < a"
  then have "(n + a - 1) mod a < a" by simp
  then show ?thesis using div_mult_mod_eq [of "n + a - 1" a] unfolding round_up_def by linarith
qed

lemma round_up_less: "0 < a \<Longrightarrow> round_up a n < n + a"
  using div_times_less_eq_dividend [of "n + a - 1" a] unfolding round_up_def by linarith

lemma round_up_dvd: "a dvd round_up a n"
  by (simp add: round_up_def)

lemma round_up_unique:
  assumes "a dvd m" "n \<le> m" "m < n + a"
  shows "m = round_up a n"
proof -
  have "0 < a" using assms(2,3) by simp
  obtain q where q: "m = q * a" using assms(1) by (metis dvd_def mult.commute)
  have "(n + a - 1) div a = q"
    using assms(2,3) \<open>0 < a\<close> unfolding q by (intro div_nat_eqI) (auto simp: algebra_simps)
  then show ?thesis by (simp add: round_up_def q)
qed

lemma round_up_add: "0 < a \<Longrightarrow> a dvd m \<Longrightarrow> round_up a (m + n) = m + round_up a n"
  by (rule round_up_unique [symmetric]) (auto simp: round_up_dvd round_up_ge round_up_less)

lemma unat_pad_mask:
  assumes "k \<le> 64" "unat p + 2 ^ k \<le> 2 ^ 64"
  shows "unat (p + (- p AND mask k) :: u64) = round_up (2 ^ k) (unat p)"
proof (rule round_up_unique)
  define pad where "pad = - p AND mask k"
  have small: "unat pad < 2 ^ k" by (simp add: pad_def unat_and_mask)
  then have sum: "unat (p + pad) = unat p + unat pad" using assms(2) by (simp add: unat_word_ariths)
  show "2 ^ k dvd unat (p + (- p AND mask k))"
    using pad_mask_aligns [OF assms(1), of p] unat_and_mask [of "p + (- p AND mask k)" k] by (simp add: mod_eq_0_iff_dvd)
  show "unat p \<le> unat (p + (- p AND mask k))" "unat (p + (- p AND mask k)) < unat p + 2 ^ k"
    using small sum by (simp_all add: pad_def)
qed

lemma drop_bit_mask_iff:
  "drop_bit m (v :: 'a::len word) = 0 \<longleftrightarrow> unat v < 2 ^ m"
  by (simp only: unat_eq_zero [symmetric] unat_shift_right div_eq_0_iff) simp

text \<open>The lowest set bit of a word is \<open>x - (x AND (x - 1))\<close>.\<close>

lemma lowest_bit_decomp:
  fixes x :: "'a::len word"
  assumes "x \<noteq> 0"
  obtains n where "n < LENGTH('a)" "bit x n" "\<forall>m<n. \<not> bit x m" "x - (x AND (x - 1)) = 2 ^ n"
proof -
  define n where "n = (LEAST n. bit x n)"
  from assms have ex: "\<exists>n. bit x n"
    using bit_eq_iff [of x 0] by auto
  then have bn: "bit x n" unfolding n_def by (rule LeastI_ex)
  have low: "\<forall>m<n. \<not> bit x m" unfolding n_def using not_less_Least by blast
  from bn have len: "n < LENGTH('a)" by (rule bit_imp_le_length)
  define r where "r = x AND NOT (2 ^ n)"
  have r_low: "\<not> bit r m" if "m \<le> n" for m
    using that low bn by (cases "m = n") (auto simp: r_def bit_simps)
  have xr: "x = r + 2 ^ n"
  proof -
    have "r + 2 ^ n = r OR 2 ^ n"
      by (rule disjunctive_add) (auto simp: r_def bit_simps)
    also have "\<dots> = x"
      by (rule bit_word_eqI) (use bn in \<open>auto simp: r_def bit_simps\<close>)
    finally show ?thesis by simp
  qed
  have "x - 1 = r + (2 ^ n - 1)" by (simp add: xr)
  also have "\<dots> = r OR mask n"
    unfolding mask_eq_exp_minus_1 [symmetric]
    by (rule disjunctive_add) (use r_low in \<open>auto simp: bit_simps not_less\<close>)
  finally have x1: "x - 1 = r OR mask n" .
  have "x AND (x - 1) = r"
    unfolding x1 by (rule bit_word_eqI) (use low in \<open>auto simp: r_def bit_simps\<close>)
  then show thesis
    using that [OF len bn low] xr by (metis add_diff_cancel_left')
qed

text \<open>Smearing: \<open>covers k v w\<close> says that bit \<open>n\<close> of \<open>w\<close> is set iff one of the bits
  \<open>n, \<dots>, n + k - 1\<close> of \<open>v\<close> is.\<close>

definition covers :: "nat \<Rightarrow> 'a::len word \<Rightarrow> 'a word \<Rightarrow> bool" where
  "covers k v w \<longleftrightarrow> (\<forall>n. bit w n \<longleftrightarrow> (\<exists>j<k. bit v (n + j)))"

lemma covers_1: "covers 1 v v"
  by (simp add: covers_def)

lemma covers_step:
  assumes "covers k v w" and "m \<le> k"
  shows "covers (k + m) v (w OR drop_bit m w)"
proof -
  have "(\<exists>j<k. bit v (n + j)) \<or> (\<exists>j<k. bit v (m + n + j)) \<longleftrightarrow> (\<exists>j<k + m. bit v (n + j))" for n
  proof
    assume "(\<exists>j<k. bit v (n + j)) \<or> (\<exists>j<k. bit v (m + n + j))"
    then show "\<exists>j<k + m. bit v (n + j)"
    proof
      assume "\<exists>j<k. bit v (n + j)"
      then show ?thesis by (auto intro: trans_less_add1)
    next
      assume "\<exists>j<k. bit v (m + n + j)"
      then obtain j where "j < k" "bit v (n + (m + j))" by (auto simp: ac_simps)
      then show ?thesis by (intro exI [of _ "m + j"]) auto
    qed
  next
    assume "\<exists>j<k + m. bit v (n + j)"
    then obtain j where j: "j < k + m" "bit v (n + j)" by auto
    show "(\<exists>j<k. bit v (n + j)) \<or> (\<exists>j<k. bit v (m + n + j))"
    proof (cases "j < k")
      case True
      with j show ?thesis by auto
    next
      case False
      with j assms(2) have "j - m < k \<and> bit v (m + n + (j - m))" by (auto simp: ac_simps)
      then show ?thesis by blast
    qed
  qed
  with assms(1) show ?thesis
    by (simp add: covers_def bit_or_iff bit_drop_bit_eq)
qed

lemma covers_all_mask:
  fixes v :: "'a::len word"
  assumes "covers LENGTH('a) v w" and "v \<noteq> 0"
  obtains h where "h < LENGTH('a)" "bit v h" "2 ^ h \<le> unat v" "unat v < 2 ^ Suc h" "w = mask (Suc h)"
proof -
  define h where "h = Max {n. bit v n}"
  have fin: "finite {n. bit v n}"
    by (rule finite_subset [of _ "{..<LENGTH('a)}"]) (auto dest: bit_imp_le_length)
  from assms(2) have ne: "{n. bit v n} \<noteq> {}"
    using bit_eq_iff [of v 0] by auto
  have bh: "bit v h" using Max_in [OF fin ne] by (simp add: h_def)
  have hi: "n \<le> h" if "bit v n" for n
    using that fin by (simp add: h_def)
  have len: "h < LENGTH('a)" using bh by (rule bit_imp_le_length)
  have "w = mask (Suc h)"
  proof (rule bit_word_eqI)
    fix n assume n: "n < LENGTH('a)"
    have "bit w n \<longleftrightarrow> (\<exists>j<LENGTH('a). bit v (n + j))"
      using assms(1) by (simp add: covers_def)
    also have "\<dots> \<longleftrightarrow> n \<le> h"
    proof
      assume "\<exists>j<LENGTH('a). bit v (n + j)"
      then show "n \<le> h" using hi by (metis le_add1 order_trans)
    next
      assume "n \<le> h"
      then show "\<exists>j<LENGTH('a). bit v (n + j)"
        using bh len by (intro exI [of _ "h - n"]) auto
    qed
    finally show "bit w n = bit (mask (Suc h) :: 'a word) n"
      using n by (simp add: bit_simps less_Suc_eq_le)
  qed
  moreover have "take_bit (Suc h) v = v"
    by (rule bit_word_eqI) (use hi in \<open>auto simp: bit_simps less_Suc_eq_le\<close>)
  then have "unat v < 2 ^ Suc h"
    by (metis take_bit_nat_less_exp unsigned_take_bit_eq)
  moreover have "2 ^ h \<le> unat v"
  proof (rule ccontr)
    assume "\<not> 2 ^ h \<le> unat v"
    then have "drop_bit h v = 0" by (simp add: drop_bit_mask_iff)
    then have "\<not> bit (drop_bit h v) 0" by simp
    with bh show False by (simp add: bit_drop_bit_eq)
  qed
  ultimately show thesis using that len bh by blast
qed

end
