(* ===== verification/Utf8.thy ===== *)
theory Utf8
  imports Prelude
begin

section \<open>UTF-8 symbols (\<^verbatim>\<open>gap_buffer/gap_buffer.c\<close>)\<close>

text \<open>
  The UTF-8 routines of the gap buffer: classification of bytes, decoding of one symbol and
  validation of a string. A C \<^verbatim>\<open>char\<close> is a byte \<open>u8\<close>; the conversions \<^verbatim>\<open>(uint32_t) sym[i]\<close> of a
  signed \<^verbatim>\<open>char\<close> sign-extend (\<open>scast\<close>). The out-parameter \<^verbatim>\<open>rune\<close> of \<open>getSymbolRune\<close> is an
  option: the value written, if one was.
\<close>

subsection \<open>Definitions\<close>

definition isSymbolAuxiliaryByte :: "u8 \<Rightarrow> bool" where
  "isSymbolAuxiliaryByte byte \<longleftrightarrow> byte AND 0xC0 = 0x80"

text \<open>The runes assembled from two, three and four bytes.\<close>

definition rune2 :: "u8 \<Rightarrow> u8 \<Rightarrow> u32" where
  "rune2 b0 b1 = push_bit 6 (scast b0 AND 0x1f) OR (scast b1 AND 0x3f)"

definition rune3 :: "u8 \<Rightarrow> u8 \<Rightarrow> u8 \<Rightarrow> u32" where
  "rune3 b0 b1 b2 =
     push_bit 12 (scast b0 AND 0x0f) OR push_bit 6 (scast b1 AND 0x3f) OR (scast b2 AND 0x3f)"

definition rune4 :: "u8 \<Rightarrow> u8 \<Rightarrow> u8 \<Rightarrow> u8 \<Rightarrow> u32" where
  "rune4 b0 b1 b2 b3 =
     push_bit 18 (scast b0 AND 0x07) OR push_bit 12 (scast b1 AND 0x3f)
     OR push_bit 6 (scast b2 AND 0x3f) OR (scast b3 AND 0x3f)"

text \<open>
  The two-byte branch writes \<^verbatim>\<open>*rune\<close> before it checks the range; its \<^verbatim>\<open>assert\<close> repeats a
  weaker bound than the test before it and cannot fail.
\<close>

definition getSymbolRune :: "u8 list \<Rightarrow> int \<times> u32 option" where
  "getSymbolRune s =
     (if length s = 0 then (0, None)
      else if s ! 0 AND 0x80 \<noteq> 0 then
        (if 0xF0 \<le> s ! 0 then
           (if length s < 4 then (- 1, None)
            else if \<not> isSymbolAuxiliaryByte (s ! 1) \<or> \<not> isSymbolAuxiliaryByte (s ! 2)
                 \<or> \<not> isSymbolAuxiliaryByte (s ! 3) then (- 1, None)
            else let temp = rune4 (s ! 0) (s ! 1) (s ! 2) (s ! 3)
                 in if temp < 0x010000 \<or> temp > 0x10ffff then (- 1, None) else (4, Some temp))
         else if 0xE0 \<le> s ! 0 then
           (if length s < 3 then (- 1, None)
            else if \<not> isSymbolAuxiliaryByte (s ! 1) \<or> \<not> isSymbolAuxiliaryByte (s ! 2) then (- 1, None)
            else let temp = rune3 (s ! 0) (s ! 1) (s ! 2)
                 in if temp < 0x0800 \<or> temp > 0xffff then (- 1, None) else (3, Some temp))
         else if 0xC0 \<le> s ! 0 then
           (if length s < 2 then (- 1, None)
            else if \<not> isSymbolAuxiliaryByte (s ! 1) then (- 1, None)
            else let rune = rune2 (s ! 0) (s ! 1)
                 in if rune < 0x80 \<or> rune > 0x07ff then (- 1, Some rune) else (2, Some rune))
         else (- 1, None))
      else (1, Some (scast (s ! 0))))"

definition getSymbolLengthFromFirstByte :: "u8 \<Rightarrow> nat" where
  "getSymbolLengthFromFirstByte first =
     (if 0xf0 \<le> first then 4 else if 0xe0 \<le> first then 3 else if 0xc0 \<le> first then 2 else 1)"

text \<open>The result of decoding a non-empty string is never 0, so the loop of \<open>isValidUTF8\<close> advances.\<close>

lemma getSymbolRune_neq_0: "s \<noteq> [] \<Longrightarrow> fst (getSymbolRune s) \<noteq> 0"
  by (simp add: getSymbolRune_def Let_def)

function isValidUTF8_from :: "u8 list \<Rightarrow> nat \<Rightarrow> bool" where
  "isValidUTF8_from str i =
     (if i < length str
      then let n = fst (getSymbolRune (drop i str))
           in if n < 0 then False else isValidUTF8_from str (i + nat n)
      else True)"
  by pat_completeness auto
termination
proof (relation "measure (\<lambda>(str, i). length str - i)")
  fix str :: "u8 list" and i n
  assume "i < length str" and n: "n = fst (getSymbolRune (drop i str))" and "\<not> n < 0"
  then have "n \<noteq> 0" using getSymbolRune_neq_0 [of "drop i str"] by simp
  with \<open>\<not> n < 0\<close> \<open>i < length str\<close> show "((str, i + nat n), str, i) \<in> measure (\<lambda>(str, i). length str - i)"
    by simp
qed simp

declare isValidUTF8_from.simps [simp del]

definition isValidUTF8 :: "u8 list \<Rightarrow> bool" where
  "isValidUTF8 str = isValidUTF8_from str 0"

subsection \<open>Bytes as numbers\<close>

lemma aux_byte_iff: "isSymbolAuxiliaryByte b \<longleftrightarrow> 128 \<le> unat b \<and> unat b < 192"
proof -
  have "b AND 0xC0 = 0x80 \<longleftrightarrow> drop_bit 6 b = 2"
  proof -
    have "(0xC0 :: u8) = push_bit 6 (mask 2)" "(0x80 :: u8) = push_bit 6 2"
      by (simp_all add: mask_eq_exp_minus_1 push_bit_eq_mult)
    moreover have "b AND push_bit 6 (mask 2) = push_bit 6 (drop_bit 6 b)"
    proof (rule bit_word_eqI)
      fix n assume "n < LENGTH(8)"
      then show "bit (b AND push_bit 6 (mask 2)) n = bit (push_bit 6 (drop_bit 6 b)) n"
        by (auto simp: bit_simps)
    qed
    moreover have "push_bit 6 (drop_bit 6 b) = push_bit 6 2 \<longleftrightarrow> drop_bit 6 b = 2"
    proof
      assume "push_bit 6 (drop_bit 6 b) = push_bit 6 2"
      then have "drop_bit 6 (push_bit 6 (drop_bit 6 b)) = drop_bit 6 (push_bit 6 2 :: u8)" by simp
      moreover have "drop_bit 6 (push_bit 6 (drop_bit 6 b)) = drop_bit 6 b"
        by (rule bit_word_eqI) (auto simp: bit_simps dest: bit_imp_le_length)
      ultimately show "drop_bit 6 b = 2" by simp
    qed simp
    ultimately show ?thesis by simp
  qed
  also have "\<dots> \<longleftrightarrow> unat b div 64 = 2"
    by (simp only: word_unat_eq_iff unat_shift_right) simp
  also have "\<dots> \<longleftrightarrow> 128 \<le> unat b \<and> unat b < 192" by auto
  finally show ?thesis by (simp add: isSymbolAuxiliaryByte_def)
qed

lemma byte_high_iff: "(b :: u8) AND 0x80 \<noteq> 0 \<longleftrightarrow> 128 \<le> unat b"
proof -
  have "b AND 0x80 \<noteq> 0 \<longleftrightarrow> bit b 7"
  proof -
    have "(0x80 :: u8) = 2 ^ 7" by simp
    then show ?thesis by (simp only: and_exp_eq_0_iff_not_bit) simp
  qed
  also have "\<dots> \<longleftrightarrow> drop_bit 7 b \<noteq> 0"
  proof
    assume "bit b 7"
    then have "bit (drop_bit 7 b) 0" by (simp add: bit_simps)
    then show "drop_bit 7 b \<noteq> 0" by auto
  next
    assume "drop_bit 7 b \<noteq> 0"
    then obtain n where "bit (drop_bit 7 b) n" using bit_eq_iff [of "drop_bit 7 b" 0] by auto
    then have "bit b (7 + n)" "7 + n < 8"
      using bit_imp_le_length [of b "7 + n"] by (auto simp: bit_simps)
    then show "bit b 7" by simp
  qed
  also have "\<dots> \<longleftrightarrow> 128 \<le> unat b" by (simp add: drop_bit_mask_iff not_less)
  finally show ?thesis .
qed

lemma unat_scast_and:
  assumes "k \<le> 8"
  shows "unat (scast (b :: u8) AND mask k :: u32) = unat b mod 2 ^ k"
proof -
  have "(scast b AND mask k :: u32) = ucast (b AND mask k)"
  proof (rule bit_word_eqI)
    fix n assume "n < LENGTH(32)"
    then show "bit (scast b AND mask k :: u32) n = bit (ucast (b AND mask k) :: u32) n"
      using assms by (cases "n = 7") (auto simp: bit_simps min_def)
  qed
  then have "unat (scast b AND mask k :: u32) = unat (ucast (b AND mask k) :: u32)" by simp
  also have "\<dots> = unat (b AND mask k) mod 2 ^ 32" by (simp add: unsigned_ucast_eq take_bit_nat_def)
  also have "\<dots> = unat (b AND mask k)"
    using unsigned_less [of "b AND mask k", where 'a = nat] by simp
  finally show ?thesis by (simp add: unat_and_mask)
qed

lemma unat_push_or:
  fixes a b :: "'a::len word"
  assumes "unat b < 2 ^ k" and "unat a * 2 ^ k + unat b < 2 ^ LENGTH('a)"
  shows "unat (push_bit k a OR b) = unat a * 2 ^ k + unat b"
proof -
  have "\<not> bit b n" if "k \<le> n" for n
  proof
    assume "bit b n"
    then have "bit (drop_bit k b) (n - k)" using that by (simp add: bit_simps)
    moreover have "drop_bit k b = 0" using assms(1) by (simp add: drop_bit_mask_iff)
    ultimately show False by simp
  qed
  then have "push_bit k a OR b = push_bit k a + b"
    by (intro disjunctive_add [symmetric]) (auto simp: bit_simps not_le)
  also have "\<dots> = of_nat (unat a * 2 ^ k + unat b)"
    by (simp add: push_bit_eq_mult)
  finally have "unat (push_bit k a OR b) = (unat a * 2 ^ k + unat b) mod 2 ^ LENGTH('a)"
    by (simp only: unat_of_nat)
  with assms(2) show ?thesis by simp
qed

lemma rune_masks: "(0x07 :: u32) = mask 3" "(0x0f :: u32) = mask 4" "(0x1f :: u32) = mask 5"
  "(0x3f :: u32) = mask 6"
  by (simp_all add: mask_eq_exp_minus_1)

lemma rune2_unat: "unat (rune2 b0 b1) = (unat b0 mod 32) * 64 + unat b1 mod 64"
proof -
  have "unat b0 mod 32 < 32" "unat b1 mod 64 < 64" by simp_all
  then have "(unat b0 mod 32) * 64 + unat b1 mod 64 < 2 ^ 32" by simp
  then show ?thesis
    unfolding rune2_def rune_masks by (subst unat_push_or) (simp_all only: unat_scast_and, simp_all)
qed

lemma rune3_unat:
  "unat (rune3 b0 b1 b2) = (unat b0 mod 16) * 4096 + ((unat b1 mod 64) * 64 + unat b2 mod 64)"
proof -
  have lt: "unat b0 mod 16 < 16" "unat b1 mod 64 < 64" "unat b2 mod 64 < 64" by simp_all
  then have b: "(unat b1 mod 64) * 64 + unat b2 mod 64 < 4096"
    "(unat b0 mod 16) * 4096 + ((unat b1 mod 64) * 64 + unat b2 mod 64) < 2 ^ 32" by auto
  have 1: "unat (push_bit 6 (scast b1 AND mask 6) OR (scast b2 AND mask 6) :: u32)
      = (unat b1 mod 64) * 64 + unat b2 mod 64"
    using b by (subst unat_push_or) (simp_all only: unat_scast_and, simp_all)
  show ?thesis
    unfolding rune3_def rune_masks using b by (subst unat_push_or) (simp_all only: 1 unat_scast_and, simp_all)
qed

lemma rune4_unat:
  "unat (rune4 b0 b1 b2 b3) = (unat b0 mod 8) * 262144 + ((unat b1 mod 64) * 4096
     + ((unat b2 mod 64) * 64 + unat b3 mod 64))"
proof -
  have lt: "unat b0 mod 8 < 8" "unat b1 mod 64 < 64" "unat b2 mod 64 < 64" "unat b3 mod 64 < 64"
    by simp_all
  then have b: "(unat b2 mod 64) * 64 + unat b3 mod 64 < 4096"
    "(unat b1 mod 64) * 4096 + ((unat b2 mod 64) * 64 + unat b3 mod 64) < 262144"
    "(unat b0 mod 8) * 262144 + ((unat b1 mod 64) * 4096
     + ((unat b2 mod 64) * 64 + unat b3 mod 64)) < 2 ^ 32" by auto
  have 1: "unat (push_bit 6 (scast b2 AND mask 6) OR (scast b3 AND mask 6) :: u32)
      = (unat b2 mod 64) * 64 + unat b3 mod 64"
    using b by (subst unat_push_or) (simp_all only: unat_scast_and, simp_all)
  have 2: "unat (push_bit 12 (scast b1 AND mask 6) OR push_bit 6 (scast b2 AND mask 6)
        OR (scast b3 AND mask 6) :: u32)
      = (unat b1 mod 64) * 4096 + ((unat b2 mod 64) * 64 + unat b3 mod 64)"
    using b by (subst unat_push_or) (simp_all only: 1 unat_scast_and, simp_all)
  show ?thesis
    unfolding rune4_def rune_masks using b by (subst unat_push_or) (simp_all only: 2 unat_scast_and, simp_all)
qed

subsection \<open>The shape of a symbol\<close>

text \<open>
  What the cursor movements of the gap buffer rely on: a symbol starts with a byte that is not
  of the form \<open>10xxxxxx\<close>, all its other bytes are, and its length is the one the first byte
  announces.
\<close>

definition is_symbol :: "u8 list \<Rightarrow> bool" where
  "is_symbol s \<longleftrightarrow> s \<noteq> [] \<and> \<not> isSymbolAuxiliaryByte (hd s) \<and> (\<forall>b \<in> set (tl s). isSymbolAuxiliaryByte b)
     \<and> length s = getSymbolLengthFromFirstByte (hd s)"

lemmas byte_order_unat = word_le_nat_alt word_less_nat_alt

lemma symbol_length_unat:
  "getSymbolLengthFromFirstByte b =
     (if 240 \<le> unat b then 4 else if 224 \<le> unat b then 3 else if 192 \<le> unat b then 2 else 1)"
  by (simp add: getSymbolLengthFromFirstByte_def byte_order_unat)

lemma symbol_length_pos [simp]: "0 < getSymbolLengthFromFirstByte b"
  by (simp add: getSymbolLengthFromFirstByte_def)

text \<open>\<open>getSymbolRune\<close> on the bytes as numbers.\<close>

lemma getSymbolRune_1:
  "unat b0 < 128 \<Longrightarrow> getSymbolRune (b0 # s) = (1, Some (scast b0))"
  using byte_high_iff [of b0] by (simp add: getSymbolRune_def)

lemma getSymbolRune_bad: "128 \<le> unat b0 \<Longrightarrow> unat b0 < 192 \<Longrightarrow> getSymbolRune (b0 # s) = (- 1, None)"
  using byte_high_iff [of b0] by (simp add: getSymbolRune_def byte_order_unat)

lemma getSymbolRune_2:
  assumes "192 \<le> unat b0" "unat b0 < 224"
  shows "getSymbolRune (b0 # b1 # s) =
    (if isSymbolAuxiliaryByte b1
     then (if 128 \<le> unat (rune2 b0 b1) then 2 else - 1, Some (rune2 b0 b1)) else (- 1, None))"
    and "getSymbolRune [b0] = (- 1, None)"
proof -
  have "unat b0 mod 32 < 32" "unat b1 mod 64 < 64" by simp_all
  then have "unat (rune2 b0 b1) \<le> 2047" unfolding rune2_unat by linarith
  then show "getSymbolRune (b0 # b1 # s) =
    (if isSymbolAuxiliaryByte b1
     then (if 128 \<le> unat (rune2 b0 b1) then 2 else - 1, Some (rune2 b0 b1)) else (- 1, None))"
    using assms byte_high_iff [of b0]
    by (auto simp: getSymbolRune_def Let_def byte_order_unat)
  show "getSymbolRune [b0] = (- 1, None)"
    using assms byte_high_iff [of b0] by (auto simp: getSymbolRune_def byte_order_unat)
qed

lemma getSymbolRune_3:
  assumes "224 \<le> unat b0" "unat b0 < 240"
  shows "getSymbolRune (b0 # b1 # b2 # s) =
    (if isSymbolAuxiliaryByte b1 \<and> isSymbolAuxiliaryByte b2 \<and> 2048 \<le> unat (rune3 b0 b1 b2)
     then (3, Some (rune3 b0 b1 b2)) else (- 1, None))"
    and "length s < 2 \<Longrightarrow> getSymbolRune (b0 # s) = (- 1, None)"
proof -
  have "unat b0 mod 16 < 16" "unat b1 mod 64 < 64" "unat b2 mod 64 < 64" by simp_all
  then have "unat (rune3 b0 b1 b2) \<le> 65535" unfolding rune3_unat by linarith
  then show "getSymbolRune (b0 # b1 # b2 # s) =
    (if isSymbolAuxiliaryByte b1 \<and> isSymbolAuxiliaryByte b2 \<and> 2048 \<le> unat (rune3 b0 b1 b2)
     then (3, Some (rune3 b0 b1 b2)) else (- 1, None))"
    using assms byte_high_iff [of b0]
    by (auto simp: getSymbolRune_def Let_def byte_order_unat)
  assume "length s < 2"
  then show "getSymbolRune (b0 # s) = (- 1, None)"
    using assms byte_high_iff [of b0] by (auto simp: getSymbolRune_def byte_order_unat)
qed

lemma getSymbolRune_4:
  assumes "240 \<le> unat b0"
  shows "getSymbolRune (b0 # b1 # b2 # b3 # s) =
    (if isSymbolAuxiliaryByte b1 \<and> isSymbolAuxiliaryByte b2 \<and> isSymbolAuxiliaryByte b3
        \<and> 65536 \<le> unat (rune4 b0 b1 b2 b3) \<and> unat (rune4 b0 b1 b2 b3) \<le> 1114111
     then (4, Some (rune4 b0 b1 b2 b3)) else (- 1, None))"
    and "length s < 3 \<Longrightarrow> getSymbolRune (b0 # s) = (- 1, None)"
  using assms byte_high_iff [of b0]
  by (auto simp: getSymbolRune_def Let_def byte_order_unat)

text \<open>The four ways a symbol is accepted.\<close>

lemma getSymbolRune_cases:
  assumes "getSymbolRune s = (n, r)" and "0 < n"
  obtains b0 t where "s = b0 # t" "unat b0 < 128" "n = 1" "r = Some (scast b0)"
  | b0 b1 t where "s = b0 # b1 # t" "192 \<le> unat b0" "unat b0 < 224" "isSymbolAuxiliaryByte b1" "n = 2"
      "r = Some (rune2 b0 b1)" "128 \<le> unat (rune2 b0 b1)"
  | b0 b1 b2 t where "s = b0 # b1 # b2 # t" "224 \<le> unat b0" "unat b0 < 240" "isSymbolAuxiliaryByte b1"
      "isSymbolAuxiliaryByte b2" "n = 3" "r = Some (rune3 b0 b1 b2)" "2048 \<le> unat (rune3 b0 b1 b2)"
  | b0 b1 b2 b3 t where "s = b0 # b1 # b2 # b3 # t" "240 \<le> unat b0" "isSymbolAuxiliaryByte b1"
      "isSymbolAuxiliaryByte b2" "isSymbolAuxiliaryByte b3" "n = 4" "r = Some (rune4 b0 b1 b2 b3)"
      "65536 \<le> unat (rune4 b0 b1 b2 b3)" "unat (rune4 b0 b1 b2 b3) \<le> 1114111"
proof -
  from assms obtain b0 t where s: "s = b0 # t" by (cases s) (auto simp: getSymbolRune_def)
  consider "unat b0 < 128" | "128 \<le> unat b0" "unat b0 < 192" | "192 \<le> unat b0" "unat b0 < 224"
    | "224 \<le> unat b0" "unat b0 < 240" | "240 \<le> unat b0" by linarith
  then show thesis
  proof cases
    case 1
    with assms s that(1) show thesis by (auto simp: getSymbolRune_1)
  next
    case 2
    with assms s show thesis by (simp add: getSymbolRune_bad)
  next
    case 3
    with assms s obtain b1 u where t: "t = b1 # u" by (cases t) (auto simp: getSymbolRune_2)
    with 3 assms s show thesis by (intro that(2)) (auto simp: getSymbolRune_2 split: if_splits)
  next
    case 4
    with assms s have "2 \<le> length t" using getSymbolRune_3(2) [of b0 t] by (cases "length t < 2") auto
    then obtain b1 b2 u where t: "t = b1 # b2 # u" by (auto simp: Suc_le_length_iff numeral_2_eq_2)
    with 4 assms s show thesis by (intro that(3)) (auto simp: getSymbolRune_3 split: if_splits)
  next
    case 5
    with assms s have "3 \<le> length t" using getSymbolRune_4(2) [of b0 t] by (cases "length t < 3") auto
    then obtain b1 b2 b3 u where t: "t = b1 # b2 # b3 # u" by (auto simp: Suc_le_length_iff numeral_3_eq_3)
    with 5 assms s show thesis by (intro that(4)) (auto simp: getSymbolRune_4 split: if_splits)
  qed
qed

lemma getSymbolRune_symbol:
  assumes "getSymbolRune s = (n, r)" and "0 < n"
  shows "nat n \<le> length s \<and> is_symbol (take (nat n) s)"
  using assms
  by (cases rule: getSymbolRune_cases)
    (auto simp: is_symbol_def aux_byte_iff symbol_length_unat)

subsection \<open>Texts as sequences of symbols\<close>

function symbols :: "u8 list \<Rightarrow> u8 list list" where
  "symbols [] = []"
| "symbols (b # bs) =
     (let n = getSymbolLengthFromFirstByte b in take n (b # bs) # symbols (drop n (b # bs)))"
  by pat_completeness auto
termination
  by (relation "measure length") auto

declare symbols.simps(2) [simp del]

definition wf_text :: "u8 list \<Rightarrow> bool" where
  "wf_text bs \<longleftrightarrow> concat (symbols bs) = bs \<and> (\<forall>s \<in> set (symbols bs). is_symbol s)"

lemma symbols_Cons: "is_symbol s \<Longrightarrow> symbols (s @ bs) = s # symbols bs"
proof -
  assume s: "is_symbol s"
  then obtain b t where st: "s = b # t" by (cases s) (auto simp: is_symbol_def)
  with s have "getSymbolLengthFromFirstByte b = length s" by (simp add: is_symbol_def)
  moreover have "symbols (s @ bs) = (let n = getSymbolLengthFromFirstByte b
      in take n (s @ bs) # symbols (drop n (s @ bs)))"
    by (simp add: st symbols.simps(2))
  ultimately show ?thesis by simp
qed

lemma symbols_concat: "\<forall>s \<in> set ss. is_symbol s \<Longrightarrow> symbols (concat ss) = ss"
  by (induction ss) (auto simp: symbols_Cons)

lemma wf_text_concat: "\<forall>s \<in> set ss. is_symbol s \<Longrightarrow> wf_text (concat ss)"
  by (simp add: wf_text_def symbols_concat)

lemma wf_textE:
  assumes "wf_text bs"
  obtains ss where "bs = concat ss" "symbols bs = ss" "\<forall>s \<in> set ss. is_symbol s"
  using assms unfolding wf_text_def by metis

lemma wf_text_Nil [simp]: "wf_text []"
  by (simp add: wf_text_def)

lemma wf_text_append:
  assumes "wf_text a" and "wf_text b"
  shows "wf_text (a @ b)" and "symbols (a @ b) = symbols a @ symbols b"
proof -
  from assms have e: "a @ b = concat (symbols a @ symbols b)"
    and w: "\<forall>s \<in> set (symbols a @ symbols b). is_symbol s"
    by (auto simp: wf_text_def)
  show "symbols (a @ b) = symbols a @ symbols b" unfolding e by (rule symbols_concat [OF w])
  show "wf_text (a @ b)" unfolding e by (rule wf_text_concat [OF w])
qed

lemma isValidUTF8_from_wf: "i \<le> length str \<Longrightarrow> isValidUTF8_from str i \<Longrightarrow> wf_text (drop i str)"
proof (induction str i rule: isValidUTF8_from.induct)
  case (1 str i)
  show ?case
  proof (cases "i < length str")
    case True
    obtain n r where n: "getSymbolRune (drop i str) = (n, r)" by (cases "getSymbolRune (drop i str)")
    with True "1.prems" have "\<not> n < 0" "isValidUTF8_from str (i + nat n)"
      by (simp_all add: isValidUTF8_from.simps [of str i] split: if_splits)
    moreover have "n \<noteq> 0" using getSymbolRune_neq_0 [of "drop i str"] True n by auto
    ultimately have pos: "0 < n" by simp
    note sym = getSymbolRune_symbol [OF n pos]
    from sym True have "i + nat n \<le> length str" by auto
    then have "wf_text (drop (i + nat n) str)"
      using "1.IH" [OF True] n \<open>\<not> n < 0\<close> \<open>isValidUTF8_from str (i + nat n)\<close> sym True by simp
    moreover have "drop i str = take (nat n) (drop i str) @ drop (i + nat n) str"
      by (metis add.commute append_take_drop_id drop_drop)
    moreover have "wf_text (take (nat n) (drop i str))"
      using sym wf_text_concat [of "[take (nat n) (drop i str)]"] by simp
    ultimately show ?thesis using wf_text_append(1) by metis
  qed (use "1.prems" in simp)
qed

lemma isValidUTF8_wf: "isValidUTF8 str \<Longrightarrow> wf_text str"
  using isValidUTF8_from_wf [of 0 str] by (simp add: isValidUTF8_def)

subsection \<open>Decoding against the definition of UTF-8\<close>

text \<open>The encoding of a code point, with its bytes computed by division.\<close>

definition utf8_encode :: "nat \<Rightarrow> u8 list" where
  "utf8_encode r =
     map of_nat
       (if r < 0x80 then [r]
        else if r < 0x800 then [0xC0 + r div 64, 0x80 + r mod 64]
        else if r < 0x10000 then [0xE0 + r div 4096, 0x80 + r div 64 mod 64, 0x80 + r mod 64]
        else [0xF0 + r div 262144, 0x80 + r div 4096 mod 64, 0x80 + r div 64 mod 64, 0x80 + r mod 64])"

lemma unat_of_nat_u8: "n < 256 \<Longrightarrow> unat (of_nat n :: u8) = n"
  by (simp add: unat_of_nat)

lemma unat_scast_ascii: "unat b < 128 \<Longrightarrow> unat (scast (b :: u8) :: u32) = unat b"
proof -
  assume b: "unat b < 128"
  then have "\<not> bit b 7"
    using byte_high_iff [of b] and_exp_eq_0_iff_not_bit [of b 7] by simp
  have "(scast b :: u32) = scast b AND mask 8"
  proof (rule bit_word_eqI)
    fix n assume "n < LENGTH(32)"
    then show "bit (scast b :: u32) n = bit (scast b AND mask 8 :: u32) n"
      using \<open>\<not> bit b 7\<close> by (auto simp: bit_simps min_def)
  qed
  then have "unat (scast b :: u32) = unat b mod 256"
    using unat_scast_and [of 8 b] by simp
  with b show ?thesis by simp
qed

lemma unat_eq_of_nat: "unat (w :: 'a::len word) = n \<Longrightarrow> w = of_nat n"
  by (metis of_nat_unat ucast_id)

lemma lead_byte_mod:
  "q < 32 \<Longrightarrow> (192 + q) mod 32 = (q :: nat)" "q < 16 \<Longrightarrow> (224 + q) mod 16 = q"
  "q < 8 \<Longrightarrow> (240 + q) mod 8 = q" "q < 64 \<Longrightarrow> (128 + q) mod 64 = q"
  using mod_mult_self1 [of q 6 32] mod_mult_self1 [of q 14 16] mod_mult_self1 [of q 30 8]
    mod_mult_self1 [of q 2 64]
  by (simp_all add: add.commute)

lemma base64_digits:
  "r div 64 * 64 + r mod 64 = (r :: nat)"
  "r div 4096 * 4096 + (r div 64 mod 64 * 64 + r mod 64) = r"
  "r div 262144 * 262144 + (r div 4096 mod 64 * 4096 + (r div 64 mod 64 * 64 + r mod 64)) = r"
proof -
  have d: "r div 4096 = r div 64 div 64" "r div 262144 = r div 64 div 64 div 64"
    by (simp_all add: div_mult2_eq [symmetric])
  have s: "q div 64 * 64 + q mod 64 = q" for q :: nat by simp
  show "r div 64 * 64 + r mod 64 = r" by (rule s)
  show "r div 4096 * 4096 + (r div 64 mod 64 * 64 + r mod 64) = r"
    using s [of r] s [of "r div 64"] unfolding d by linarith
  show "r div 262144 * 262144 + (r div 4096 mod 64 * 4096 + (r div 64 mod 64 * 64 + r mod 64)) = r"
    using s [of r] s [of "r div 64"] s [of "r div 64 div 64"] unfolding d by linarith
qed

lemma getSymbolRune_encode:
  assumes "r \<le> 0x10FFFF"
  shows "getSymbolRune (utf8_encode r @ rest) = (int (length (utf8_encode r)), Some (of_nat r))"
proof -
  consider "r < 0x80" | "0x80 \<le> r" "r < 0x800" | "0x800 \<le> r" "r < 0x10000" | "0x10000 \<le> r" by linarith
  then show ?thesis
  proof cases
    case 1
    then have u: "unat (of_nat r :: u8) = r" by (simp add: unat_of_nat_u8)
    then have "(scast (of_nat r :: u8) :: u32) = of_nat r"
      using unat_scast_ascii [of "of_nat r"] 1 unat_eq_of_nat by metis
    with 1 u show ?thesis by (simp add: utf8_encode_def getSymbolRune_1)
  next
    case 2
    define b0 b1 where b: "b0 = (of_nat (0xC0 + r div 64) :: u8)" "b1 = (of_nat (0x80 + r mod 64) :: u8)"
    have "r div 64 < 32" "r mod 64 < 64" using 2 by auto
    then have u: "unat b0 = 0xC0 + r div 64" "unat b1 = 0x80 + r mod 64"
      unfolding b by (intro unat_of_nat_u8; linarith)+
    have "unat (rune2 b0 b1) = r"
      using \<open>r div 64 < 32\<close> \<open>r mod 64 < 64\<close> by (simp only: rune2_unat u lead_byte_mod base64_digits)
    then have "getSymbolRune (b0 # b1 # rest) = (2, Some (of_nat r))"
      using 2 unat_eq_of_nat [of "rune2 b0 b1" r] u \<open>r div 64 < 32\<close> \<open>r mod 64 < 64\<close>
      by (simp add: getSymbolRune_2 aux_byte_iff)
    with 2 show ?thesis by (simp add: utf8_encode_def b)
  next
    case 3
    define b0 b1 b2 where b: "b0 = (of_nat (0xE0 + r div 4096) :: u8)"
      "b1 = (of_nat (0x80 + r div 64 mod 64) :: u8)" "b2 = (of_nat (0x80 + r mod 64) :: u8)"
    have lt: "r div 4096 < 16" "r div 64 mod 64 < 64" "r mod 64 < 64" using 3 by auto
    then have u: "unat b0 = 0xE0 + r div 4096" "unat b1 = 0x80 + r div 64 mod 64" "unat b2 = 0x80 + r mod 64"
      unfolding b by (intro unat_of_nat_u8; linarith)+
    have "unat (rune3 b0 b1 b2) = r"
      using lt by (simp only: rune3_unat u lead_byte_mod base64_digits)
    then have "getSymbolRune (b0 # b1 # b2 # rest) = (3, Some (of_nat r))"
      using 3 unat_eq_of_nat [of "rune3 b0 b1 b2" r] u lt
      by (simp add: getSymbolRune_3 aux_byte_iff)
    with 3 show ?thesis by (simp add: utf8_encode_def b)
  next
    case 4
    define b0 b1 b2 b3 where b: "b0 = (of_nat (0xF0 + r div 262144) :: u8)"
      "b1 = (of_nat (0x80 + r div 4096 mod 64) :: u8)" "b2 = (of_nat (0x80 + r div 64 mod 64) :: u8)"
      "b3 = (of_nat (0x80 + r mod 64) :: u8)"
    have lt: "r div 262144 < 8" "r div 4096 mod 64 < 64" "r div 64 mod 64 < 64" "r mod 64 < 64"
      using assms by auto
    then have u: "unat b0 = 0xF0 + r div 262144" "unat b1 = 0x80 + r div 4096 mod 64"
      "unat b2 = 0x80 + r div 64 mod 64" "unat b3 = 0x80 + r mod 64"
      unfolding b by (intro unat_of_nat_u8; linarith)+
    have "unat (rune4 b0 b1 b2 b3) = r"
      using lt by (simp only: rune4_unat u lead_byte_mod base64_digits)
    then have "getSymbolRune (b0 # b1 # b2 # b3 # rest) = (4, Some (of_nat r))"
      using 4 assms unat_eq_of_nat [of "rune4 b0 b1 b2 b3" r] u lt
      by (simp add: getSymbolRune_4 aux_byte_iff)
    with 4 show ?thesis by (simp add: utf8_encode_def b)
  qed
qed

lemma aux_byte_obtain:
  assumes "isSymbolAuxiliaryByte b"
  obtains t where "t < 64" "unat b = 128 + t" "b = of_nat (128 + t)" "unat b mod 64 = t"
proof -
  from assms have b: "128 \<le> unat b" "unat b < 192" by (auto simp: aux_byte_iff)
  define t where "t = unat b - 128"
  have t: "t < 64" "unat b = 128 + t" using b by (auto simp: t_def)
  then show thesis
    using that [OF t unat_eq_of_nat [OF t(2)]] lead_byte_mod(4) [of t] by simp
qed

lemma lead_byte_obtain:
  assumes "m \<le> unat (b :: u8)" "unat b < m + k"
  obtains q where "q < k" "unat b = m + q" "b = of_nat (m + q)"
proof -
  define q where "q = unat b - m"
  have q: "q < k" "unat b = m + q" using assms by (auto simp: q_def)
  then show thesis using that [OF q unat_eq_of_nat [OF q(2)]] by simp
qed

lemma base64_undigits:
  fixes q t u v :: nat
  assumes "t < 64" "u < 64" "v < 64"
  shows "(q * 64 + t) div 64 = q" "(q * 64 + t) mod 64 = t"
    "(q * 4096 + (t * 64 + u)) div 4096 = q" "(q * 4096 + (t * 64 + u)) div 64 mod 64 = t"
    "(q * 4096 + (t * 64 + u)) mod 64 = u"
    "(q * 262144 + (t * 4096 + (u * 64 + v))) div 262144 = q"
    "(q * 262144 + (t * 4096 + (u * 64 + v))) div 4096 mod 64 = t"
    "(q * 262144 + (t * 4096 + (u * 64 + v))) div 64 mod 64 = u"
    "(q * 262144 + (t * 4096 + (u * 64 + v))) mod 64 = v"
proof -
  have d: "(a * 64 + b) div 64 = a" "(a * 64 + b) mod 64 = b" if "b < 64" for a b :: nat
    using that by auto
  have e: "q * 4096 + (t * 64 + u) = (q * 64 + t) * 64 + u"
    "q * 262144 + (t * 4096 + (u * 64 + v)) = ((q * 64 + t) * 64 + u) * 64 + v" by simp_all
  have dd: "n div 4096 = n div 64 div 64" "n div 262144 = n div 64 div 64 div 64" for n :: nat
    by (simp_all add: div_mult2_eq [symmetric])
  show "(q * 64 + t) div 64 = q" "(q * 64 + t) mod 64 = t"
    "(q * 4096 + (t * 64 + u)) div 4096 = q" "(q * 4096 + (t * 64 + u)) div 64 mod 64 = t"
    "(q * 4096 + (t * 64 + u)) mod 64 = u"
    "(q * 262144 + (t * 4096 + (u * 64 + v))) div 262144 = q"
    "(q * 262144 + (t * 4096 + (u * 64 + v))) div 4096 mod 64 = t"
    "(q * 262144 + (t * 4096 + (u * 64 + v))) div 64 mod 64 = u"
    "(q * 262144 + (t * 4096 + (u * 64 + v))) mod 64 = v"
    unfolding e dd using assms by (simp_all only: d)
qed

lemma getSymbolRune_exact:
  assumes "getSymbolRune s = (n, r)" and "0 < n" and "unat (hd s) < 248"
  shows "\<exists>c \<le> 0x10FFFF. take (nat n) s = utf8_encode c"
  using assms(1,2)
proof (cases rule: getSymbolRune_cases)
  case (1 b0 t)
  then have "take (nat n) s = utf8_encode (unat b0)"
    using unat_eq_of_nat [of b0] by (simp add: utf8_encode_def)
  with 1 show ?thesis by (intro exI [of _ "unat b0"]) auto
next
  case (2 b0 b1 t)
  obtain q where q: "q < 32" "unat b0 = 192 + q" "b0 = of_nat (192 + q)"
    using 2 by (auto intro: lead_byte_obtain [of 192 b0 32])
  obtain t1 where t1: "t1 < 64" "unat b1 = 128 + t1" "b1 = of_nat (128 + t1)" "unat b1 mod 64 = t1"
    using 2 by (auto intro: aux_byte_obtain)
  have r: "unat (rune2 b0 b1) = q * 64 + t1"
    unfolding rune2_unat t1(4) q(2) by (simp only: lead_byte_mod q(1))
  have "take (nat n) s = utf8_encode (q * 64 + t1)"
    using 2 r q t1 base64_undigits(1,2) [of t1] by (simp add: utf8_encode_def)
  with q t1 show ?thesis by (intro exI [of _ "q * 64 + t1"]) auto
next
  case (3 b0 b1 b2 t)
  obtain q where q: "q < 16" "unat b0 = 224 + q" "b0 = of_nat (224 + q)"
    using 3 by (auto intro: lead_byte_obtain [of 224 b0 16])
  obtain t1 where t1: "t1 < 64" "unat b1 = 128 + t1" "b1 = of_nat (128 + t1)" "unat b1 mod 64 = t1"
    using 3 by (auto intro: aux_byte_obtain)
  obtain t2 where t2: "t2 < 64" "unat b2 = 128 + t2" "b2 = of_nat (128 + t2)" "unat b2 mod 64 = t2"
    using 3 by (auto intro: aux_byte_obtain)
  define c where "c = q * 4096 + (t1 * 64 + t2)"
  have r: "unat (rune3 b0 b1 b2) = c"
    unfolding rune3_unat t1(4) t2(4) q(2) c_def by (simp only: lead_byte_mod q(1))
  have lt: "c < 65536" using q(1) t1(1) t2(1) by (simp add: c_def)
  have "c div 4096 = q" "c div 64 mod 64 = t1" "c mod 64 = t2"
    unfolding c_def using t1 t2 base64_undigits(3-5) [of t1 t2] by simp_all
  then have "take (nat n) s = utf8_encode c"
    using 3 r lt q(3) t1(3) t2(3) by (simp add: utf8_encode_def)
  with lt show ?thesis by (intro exI [of _ c]) auto
next
  case (4 b0 b1 b2 b3 t)
  obtain q where q: "q < 8" "unat b0 = 240 + q" "b0 = of_nat (240 + q)"
    using 4 assms(3) by (auto intro: lead_byte_obtain [of 240 b0 8])
  obtain t1 where t1: "t1 < 64" "unat b1 = 128 + t1" "b1 = of_nat (128 + t1)" "unat b1 mod 64 = t1"
    using 4 by (auto intro: aux_byte_obtain)
  obtain t2 where t2: "t2 < 64" "unat b2 = 128 + t2" "b2 = of_nat (128 + t2)" "unat b2 mod 64 = t2"
    using 4 by (auto intro: aux_byte_obtain)
  obtain t3 where t3: "t3 < 64" "unat b3 = 128 + t3" "b3 = of_nat (128 + t3)" "unat b3 mod 64 = t3"
    using 4 by (auto intro: aux_byte_obtain)
  define c where "c = q * 262144 + (t1 * 4096 + (t2 * 64 + t3))"
  have r: "unat (rune4 b0 b1 b2 b3) = c"
    unfolding rune4_unat t1(4) t2(4) t3(4) q(2) c_def by (simp only: lead_byte_mod q(1))
  have "c div 262144 = q" "c div 4096 mod 64 = t1" "c div 64 mod 64 = t2" "c mod 64 = t3"
    unfolding c_def using t1 t2 t3 base64_undigits(6-9) [of t1 t2 t3] by simp_all
  then have "take (nat n) s = utf8_encode c"
    using 4 r q(3) t1(3) t2(3) t3(3) by (simp add: utf8_encode_def)
  with 4 r show ?thesis by (intro exI [of _ c]) auto
qed

lemma utf8_encode_neq_Nil [simp]: "utf8_encode c \<noteq> []"
  by (simp add: utf8_encode_def)

lemma isValidUTF8_from_step:
  assumes "getSymbolRune (drop i str) = (n, r)" and "0 < n"
  shows "isValidUTF8_from str i = isValidUTF8_from str (i + nat n)"
proof -
  have "i < length str"
    using assms by (cases "i < length str") (auto simp: getSymbolRune_def)
  with assms show ?thesis by (simp add: isValidUTF8_from.simps [of str i])
qed

lemma isValidUTF8_from_encode:
  "\<forall>c \<in> set cs. c \<le> 0x10FFFF \<Longrightarrow> isValidUTF8_from (pre @ concat (map utf8_encode cs)) (length pre)"
proof (induction cs arbitrary: pre)
  case Nil
  then show ?case by (simp add: isValidUTF8_from.simps)
next
  case (Cons c cs)
  let ?str = "pre @ concat (map utf8_encode (c # cs))"
  have "getSymbolRune (drop (length pre) ?str) = (int (length (utf8_encode c)), Some (of_nat c))"
    using Cons.prems getSymbolRune_encode by simp
  then have "isValidUTF8_from ?str (length pre) = isValidUTF8_from ?str (length pre + length (utf8_encode c))"
    using isValidUTF8_from_step [of "length pre" ?str] by simp
  also have "\<dots>" using Cons.IH [of "pre @ utf8_encode c"] Cons.prems by simp
  finally show ?case .
qed

lemma isValidUTF8_from_decode:
  "i \<le> length str \<Longrightarrow> isValidUTF8_from str i \<Longrightarrow> \<forall>b \<in> set str. unat b < 248 \<Longrightarrow>
     \<exists>cs. (\<forall>c \<in> set cs. c \<le> 0x10FFFF) \<and> drop i str = concat (map utf8_encode cs)"
proof (induction str i rule: isValidUTF8_from.induct)
  case (1 str i)
  show ?case
  proof (cases "i < length str")
    case True
    obtain n r where n: "getSymbolRune (drop i str) = (n, r)" by (cases "getSymbolRune (drop i str)")
    with True "1.prems" have v: "\<not> n < 0" "isValidUTF8_from str (i + nat n)"
      by (simp_all add: isValidUTF8_from.simps [of str i] split: if_splits)
    moreover have "n \<noteq> 0" using getSymbolRune_neq_0 [of "drop i str"] True n by auto
    ultimately have pos: "0 < n" by simp
    from getSymbolRune_symbol [OF n pos] True have le: "i + nat n \<le> length str" by auto
    have "unat (hd (drop i str)) < 248" using True "1.prems"(3) by (simp add: hd_drop_conv_nth)
    then obtain c where c: "c \<le> 0x10FFFF" "take (nat n) (drop i str) = utf8_encode c"
      using getSymbolRune_exact [OF n pos] by auto
    obtain cs where cs: "\<forall>c \<in> set cs. c \<le> 0x10FFFF" "drop (i + nat n) str = concat (map utf8_encode cs)"
      using "1.IH" [OF True] n v le "1.prems"(3) by auto
    have "drop i str = take (nat n) (drop i str) @ drop (i + nat n) str"
      by (metis add.commute append_take_drop_id drop_drop)
    with c cs show ?thesis by (intro exI [of _ "c # cs"]) simp
  qed (use "1.prems" in \<open>auto intro: exI [of _ "[]"]\<close>)
qed

text \<open>The strings that are the encoding of a sequence of code points.\<close>

definition utf8_text :: "u8 list \<Rightarrow> bool" where
  "utf8_text str \<longleftrightarrow> (\<exists>cs. (\<forall>c \<in> set cs. c \<le> 0x10FFFF) \<and> str = concat (map utf8_encode cs))"

text \<open>C38: On strings without a byte of the form \<open>11111xxx\<close>, the validation of the gap buffer accepts
  exactly the strings that are the UTF-8 encoding of a sequence of code points up to U+10FFFF
  (surrogates included); in particular it rejects overlong forms, stray auxiliary bytes and
  truncated sequences.\<close>

theorem isValidUTF8_iff:
  assumes "\<forall>b \<in> set str. b < 0xF8"
  shows "isValidUTF8 str \<longleftrightarrow> utf8_text str"
  unfolding utf8_text_def
proof
  assume "isValidUTF8 str"
  moreover have "\<forall>b \<in> set str. unat b < 248"
    using assms by (simp add: word_less_nat_alt)
  ultimately show "\<exists>cs. (\<forall>c \<in> set cs. c \<le> 0x10FFFF) \<and> str = concat (map utf8_encode cs)"
    using isValidUTF8_from_decode [of 0 str] by (simp add: isValidUTF8_def)
next
  assume "\<exists>cs. (\<forall>c \<in> set cs. c \<le> 0x10FFFF) \<and> str = concat (map utf8_encode cs)"
  then show "isValidUTF8 str"
    using isValidUTF8_from_encode [where pre = "[]"] by (auto simp: isValidUTF8_def)
qed

theorem isValidUTF8_iff_witness:
  "isValidUTF8 [0x68, 0xC3, 0xA9] \<and> \<not> isValidUTF8 [0xC0, 0x80]
   \<and> utf8_text [0x68, 0xC3, 0xA9] \<and> \<not> utf8_text [0xC0, 0x80]"
proof -
  have 1: "isValidUTF8 [0x68, 0xC3, 0xA9]" by code_simp
  have 2: "\<not> isValidUTF8 [0xC0, 0x80]" by code_simp
  show ?thesis
    using 1 2 isValidUTF8_iff [of "[0x68, 0xC3, 0xA9]"] isValidUTF8_iff [of "[0xC0, 0x80]"]
    by (simp add: word_less_nat_alt)
qed

text \<open>A lead byte of the form \<open>11111xxx\<close>, which no encoding contains, is nevertheless taken for the
  lead byte \<open>11110xxx\<close> of a four-byte symbol: the string below is accepted and encodes nothing.\<close>

theorem isValidUTF8_lenient_lead:
  "isValidUTF8 [0xF9, 0x80, 0x80, 0x80]
   \<and> \<not> utf8_text [0xF9, 0x80, 0x80, 0x80]"
proof -
  have lead: "hd (concat (map utf8_encode cs)) < 0xF8" if "cs \<noteq> []" "\<forall>c \<in> set cs. c \<le> 0x10FFFF" for cs
  proof -
    from that obtain c ds where cs: "cs = c # ds" "c \<le> 0x10FFFF" by (cases cs) auto
    define k where "k = (if c < 0x80 then c else if c < 0x800 then 0xC0 + c div 64
        else if c < 0x10000 then 0xE0 + c div 4096 else 0xF0 + c div 262144)"
    have "hd (utf8_encode c) = of_nat k" by (simp add: utf8_encode_def k_def)
    moreover have "k < 248" using cs(2) by (auto simp: k_def)
    ultimately have "unat (hd (utf8_encode c)) < 248" by (simp add: unat_of_nat_u8)
    with cs show ?thesis by (simp add: hd_append word_less_nat_alt)
  qed
  have "isValidUTF8 [0xF9, 0x80, 0x80, 0x80]" by code_simp
  moreover have False if "\<forall>c \<in> set cs. c \<le> 0x10FFFF" "[0xF9, 0x80, 0x80, 0x80] = concat (map utf8_encode cs)" for cs
  proof -
    from that(2) have "cs \<noteq> []" by auto
    from lead [OF this that(1)] show False by (simp add: that(2) [symmetric])
  qed
  ultimately show ?thesis unfolding utf8_text_def by blast
qed

end
