(* ===== verification/GapBuffer.thy ===== *)
theory GapBuffer
  imports Utf8
begin

section \<open>The gap buffer (\<^verbatim>\<open>gap_buffer/gap_buffer.c\<close>)\<close>

text \<open>
  A text with a cursor, kept in one byte array with a gap at the cursor. The record
  \<open>gap_buffer\<close> is the struct; its flexible array member is \<open>data\<close>, and \<open>addr\<close> is the address
  of the struct, which is what the \<^verbatim>\<open>free\<close> callback is called with. Sizes are natural numbers:
  every \<^verbatim>\<open>size_t\<close> difference of the code is taken where the first operand is at least the
  second (shown by the invariant \<open>gb_inv\<close> and the facts about the scans), so nothing wraps.
  Calls of the \<^verbatim>\<open>free\<close> callback are returned as a list of pairs (callback, pointer).
  \<^verbatim>\<open>malloc\<close> is a parameter: it maps a size to the address and the contents of a fresh region,
  or to nothing.

  The operations are related to an abstract editor whose state is two lists of symbols, those
  before and those after the cursor.
\<close>

subsection \<open>State and construction\<close>

type_synonym free_fn = nat
type_synonym frees = "(free_fn \<times> u64) list"
type_synonym malloc_fn = "nat \<Rightarrow> (u64 \<times> u8 list) option"

record gap_buffer =
  addr :: u64
  free_cb :: "free_fn option"
  gap_offset :: nat
  gap_length :: nat
  total :: nat
  data :: "u8 list"

text \<open>The struct has four 8-byte members in front of the flexible array.\<close>

definition sizeof_GapBuffer :: nat where
  "sizeof_GapBuffer = 32"

definition alignof_GapBuffer :: u64 where
  "alignof_GapBuffer = 8"

definition padding :: "u64 \<Rightarrow> nat" where
  "padding mem = unat (- mem AND (alignof_GapBuffer - 1))"

definition call_free :: "free_fn option \<Rightarrow> u64 \<Rightarrow> frees" where
  "call_free f p = (case f of None \<Rightarrow> [] | Some g \<Rightarrow> [(g, p)])"

definition getByteCount :: "gap_buffer \<Rightarrow> nat" where
  "getByteCount buff = total buff - gap_length buff"

text \<open>\<open>region\<close> is the contents of the memory at \<open>mem\<close>, so \<^verbatim>\<open>len\<close> is its length; a null \<^verbatim>\<open>mem\<close> is 0.\<close>

definition GapBuffer_createUsingMemory ::
    "u64 \<Rightarrow> u8 list \<Rightarrow> free_fn option \<Rightarrow> gap_buffer option \<times> frees" where
  "GapBuffer_createUsingMemory mem region free =
     (if mem = 0 then (None, call_free free mem)
      else
        let pad = padding mem in
        if length region < pad then (None, call_free free mem)
        else
          let mem = mem + of_nat pad; region = drop pad region in
          if length region < sizeof_GapBuffer then (None, call_free free mem)
          else
            let capacity = length region - sizeof_GapBuffer in
            (Some \<lparr>addr = mem, free_cb = free, gap_offset = 0, gap_length = capacity,
                   total = capacity, data = drop sizeof_GapBuffer region\<rparr>, []))"

definition GapBuffer_destroy :: "gap_buffer \<Rightarrow> frees" where
  "GapBuffer_destroy buff = call_free (free_cb buff) (addr buff)"

definition getStringBeforeGap :: "gap_buffer \<Rightarrow> u8 list" where
  "getStringBeforeGap buff = chunk (data buff) 0 (gap_offset buff)"

definition getStringAfterGap :: "gap_buffer \<Rightarrow> u8 list" where
  "getStringAfterGap buff =
     (let first_byte_after_gap = gap_offset buff + gap_length buff
      in chunk (data buff) first_byte_after_gap (total buff - first_byte_after_gap))"

definition insertBytesBeforeCursor :: "gap_buffer \<Rightarrow> u8 list \<Rightarrow> (bool \<times> gap_buffer) res" where
  "insertBytesBeforeCursor buff str =
     (if gap_length buff < length str then Inr (False, buff)
      else rbind (memcpy (data buff) (gap_offset buff) str) (\<lambda>d.
        Inr (True, buff\<lparr>data := d, gap_offset := gap_offset buff + length str,
                        gap_length := gap_length buff - length str\<rparr>)))"

definition insertBytesAfterCursor :: "gap_buffer \<Rightarrow> u8 list \<Rightarrow> (bool \<times> gap_buffer) res" where
  "insertBytesAfterCursor buff str =
     (if gap_length buff < length str then Inr (False, buff)
      else rbind (memcpy (data buff) (gap_offset buff + gap_length buff - length str) str) (\<lambda>d.
        Inr (True, buff\<lparr>data := d, gap_length := gap_length buff - length str\<rparr>)))"

definition GapBuffer_cloneUsingMemory ::
    "u64 \<Rightarrow> u8 list \<Rightarrow> free_fn option \<Rightarrow> gap_buffer \<Rightarrow> (gap_buffer option \<times> frees) res" where
  "GapBuffer_cloneUsingMemory mem region free src =
     (case GapBuffer_createUsingMemory mem region free of
        (None, fs) \<Rightarrow> Inr (None, fs)
      | (Some clone, fs) \<Rightarrow>
          rbind (insertBytesBeforeCursor clone (getStringBeforeGap src)) (\<lambda>(ok, clone).
            if \<not> ok then Inr (None, fs @ GapBuffer_destroy clone)
            else rbind (insertBytesAfterCursor clone (getStringAfterGap src)) (\<lambda>(ok, clone).
              if \<not> ok then Inr (None, fs @ GapBuffer_destroy clone)
              else Inr (Some clone, fs))))"

definition GapBuffer_insertString :: "gap_buffer \<Rightarrow> u8 list \<Rightarrow> (bool \<times> gap_buffer) res" where
  "GapBuffer_insertString buff str =
     (if \<not> isValidUTF8 str then Inr (False, buff) else insertBytesBeforeCursor buff str)"

subsection \<open>Cursor movement and removal\<close>

text \<open>The inner \<^verbatim>\<open>do ... while\<close> of \<open>getPrecedingSymbol\<close>.\<close>

fun skip_auxiliary_back :: "u8 list \<Rightarrow> nat \<Rightarrow> nat res" where
  "skip_auxiliary_back d 0 = Inl Assert_failed"
| "skip_auxiliary_back d (Suc i) =
     rbind (rd d i) (\<lambda>b. if isSymbolAuxiliaryByte b then skip_auxiliary_back d i else Inr i)"

fun preceding_loop :: "u8 list \<Rightarrow> nat \<Rightarrow> nat \<Rightarrow> nat res" where
  "preceding_loop d i 0 = Inr i"
| "preceding_loop d i (Suc num) =
     (if i > 0 then rbind (skip_auxiliary_back d i) (\<lambda>i. preceding_loop d i num) else Inr i)"

definition getPrecedingSymbol :: "gap_buffer \<Rightarrow> nat \<Rightarrow> nat res" where
  "getPrecedingSymbol buff num = preceding_loop (data buff) (gap_offset buff) num"

fun following_loop :: "u8 list \<Rightarrow> nat \<Rightarrow> nat \<Rightarrow> nat \<Rightarrow> nat res" where
  "following_loop d tot i 0 = Inr i"
| "following_loop d tot i (Suc num) =
     (if i < tot
      then rbind (rd d i) (\<lambda>b. following_loop d tot (i + getSymbolLengthFromFirstByte b) num)
      else Inr i)"

definition getFollowingSymbol :: "gap_buffer \<Rightarrow> nat \<Rightarrow> nat res" where
  "getFollowingSymbol buff num =
     following_loop (data buff) (total buff) (gap_offset buff + gap_length buff) num"

definition GapBuffer_removeForwards :: "gap_buffer \<Rightarrow> nat \<Rightarrow> gap_buffer res" where
  "GapBuffer_removeForwards buff num =
     rbind (getFollowingSymbol buff num) (\<lambda>i. Inr (buff\<lparr>gap_length := i - gap_offset buff\<rparr>))"

definition GapBuffer_removeBackwards :: "gap_buffer \<Rightarrow> nat \<Rightarrow> gap_buffer res" where
  "GapBuffer_removeBackwards buff num =
     rbind (getPrecedingSymbol buff num) (\<lambda>i.
       Inr (buff\<lparr>gap_length := gap_length buff + (gap_offset buff - i), gap_offset := i\<rparr>))"

definition moveBytesAfterGap :: "gap_buffer \<Rightarrow> nat \<Rightarrow> gap_buffer res" where
  "moveBytesAfterGap buff num =
     rbind (c_assert (gap_offset buff \<ge> num)) (\<lambda>_.
     rbind (c_assert (gap_offset buff \<le> total buff)) (\<lambda>_.
     rbind (c_assert (gap_offset buff + gap_length buff \<le> total buff)) (\<lambda>_.
     rbind (memmove (data buff) (gap_offset buff + gap_length buff - num) (gap_offset buff - num) num) (\<lambda>d.
       Inr (buff\<lparr>data := d, gap_offset := gap_offset buff - num\<rparr>)))))"

definition moveBytesBeforeGap :: "gap_buffer \<Rightarrow> nat \<Rightarrow> gap_buffer res" where
  "moveBytesBeforeGap buff num =
     rbind (c_assert (total buff - gap_offset buff - gap_length buff \<ge> num)) (\<lambda>_.
     rbind (c_assert (gap_offset buff \<le> total buff)) (\<lambda>_.
     rbind (c_assert (gap_offset buff + gap_length buff \<le> total buff)) (\<lambda>_.
     rbind (memmove (data buff) (gap_offset buff) (gap_offset buff + gap_length buff) num) (\<lambda>d.
       Inr (buff\<lparr>data := d, gap_offset := gap_offset buff + num\<rparr>)))))"

text \<open>\<^verbatim>\<open>off\<close> is an \<^verbatim>\<open>int\<close>: negating its least value overflows.\<close>

definition GapBuffer_moveRelative :: "gap_buffer \<Rightarrow> int \<Rightarrow> gap_buffer res" where
  "GapBuffer_moveRelative buff off =
     (if off < 0 then
        (if off \<le> - (2 ^ 31) then Inl Int_overflow
         else rbind (getPrecedingSymbol buff (nat (- off))) (\<lambda>i.
           moveBytesAfterGap buff (gap_offset buff - i)))
      else rbind (getFollowingSymbol buff (nat off)) (\<lambda>i.
        moveBytesBeforeGap buff (i - gap_offset buff - gap_length buff)))"

fun absolute_loop :: "gap_buffer \<Rightarrow> nat \<Rightarrow> nat \<Rightarrow> nat res" where
  "absolute_loop buff i 0 = Inr i"
| "absolute_loop buff i (Suc num) =
     (if i < total buff
      then rbind (rd (data buff) i) (\<lambda>b.
        let i = i + getSymbolLengthFromFirstByte b;
            i = (if i = gap_offset buff then i + gap_length buff else i)
        in absolute_loop buff i num)
      else Inr i)"

definition GapBuffer_moveAbsolute :: "gap_buffer \<Rightarrow> nat \<Rightarrow> gap_buffer res" where
  "GapBuffer_moveAbsolute buff num =
     (let i = (if gap_offset buff > 0 then 0 else gap_length buff)
      in rbind (absolute_loop buff i num) (\<lambda>i.
        if i \<le> gap_offset buff then moveBytesAfterGap buff (gap_offset buff - i)
        else moveBytesBeforeGap buff (i - gap_offset buff - gap_length buff)))"

subsection \<open>Allocation\<close>

definition GapBuffer_create :: "malloc_fn \<Rightarrow> free_fn \<Rightarrow> nat \<Rightarrow> gap_buffer option \<times> frees" where
  "GapBuffer_create malloc libc_free capacity =
     (case malloc (sizeof_GapBuffer + capacity) of
        None \<Rightarrow> GapBuffer_createUsingMemory 0 [] (Some libc_free)
      | Some (mem, region) \<Rightarrow> GapBuffer_createUsingMemory mem region (Some libc_free))"

definition GapBuffer_insertStringMaybeRelocate ::
    "malloc_fn \<Rightarrow> free_fn \<Rightarrow> gap_buffer \<Rightarrow> u8 list \<Rightarrow> (bool \<times> gap_buffer \<times> frees) res" where
  "GapBuffer_insertStringMaybeRelocate malloc libc_free buff str =
     rbind (GapBuffer_insertString buff str) (\<lambda>(ok, buff).
       if ok then Inr (True, buff, [])
       else case GapBuffer_create malloc libc_free (getByteCount buff + length str) of
           (None, fs) \<Rightarrow> Inr (False, buff, fs)
         | (Some buff2, fs) \<Rightarrow>
             rbind (GapBuffer_insertString buff2 str) (\<lambda>(ok2, buff2).
               if \<not> ok2 then Inr (False, buff, fs @ GapBuffer_destroy buff2)
               else Inr (True, buff2, fs @ GapBuffer_destroy buff)))"

subsection \<open>Invariant and abstraction\<close>

definition gb_inv :: "gap_buffer \<Rightarrow> bool" where
  "gb_inv g \<longleftrightarrow> length (data g) = total g \<and> gap_offset g + gap_length g \<le> total g"

definition before_gap :: "gap_buffer \<Rightarrow> u8 list" where
  "before_gap g = take (gap_offset g) (data g)"

definition after_gap :: "gap_buffer \<Rightarrow> u8 list" where
  "after_gap g = drop (gap_offset g + gap_length g) (data g)"

definition gb_ok :: "gap_buffer \<Rightarrow> bool" where
  "gb_ok g \<longleftrightarrow> gb_inv g \<and> wf_text (before_gap g) \<and> wf_text (after_gap g)"

text \<open>The abstract editor: the symbols before and after the cursor, and the capacity in bytes.\<close>

record editor =
  left :: "u8 list list"
  right :: "u8 list list"
  capacity :: nat

definition gb_abs :: "gap_buffer \<Rightarrow> editor" where
  "gb_abs g = \<lparr>left = symbols (before_gap g), right = symbols (after_gap g), capacity = total g\<rparr>"

definition ed_bytes :: "editor \<Rightarrow> nat" where
  "ed_bytes e = length (concat (left e)) + length (concat (right e))"

datatype gb_op = Insert "u8 list" | Move_relative int | Move_absolute nat | Remove_forwards nat | Remove_backwards nat

definition ed_move_to :: "nat \<Rightarrow> editor \<Rightarrow> editor" where
  "ed_move_to n e = e\<lparr>left := take n (left e @ right e), right := drop n (left e @ right e)\<rparr>"

fun ed_step :: "gb_op \<Rightarrow> editor \<Rightarrow> bool \<times> editor" where
  "ed_step (Insert str) e =
     (if isValidUTF8 str \<and> ed_bytes e + length str \<le> capacity e
      then (True, e\<lparr>left := left e @ symbols str\<rparr>) else (False, e))"
| "ed_step (Move_relative k) e = (True, ed_move_to (nat (int (length (left e)) + k)) e)"
| "ed_step (Move_absolute n) e = (True, ed_move_to n e)"
| "ed_step (Remove_forwards n) e = (True, e\<lparr>right := drop n (right e)\<rparr>)"
| "ed_step (Remove_backwards n) e = (True, e\<lparr>left := take (length (left e) - n) (left e)\<rparr>)"

text \<open>The operations of the header as commands; those that return nothing answer \<open>True\<close>.\<close>

fun gb_step :: "gb_op \<Rightarrow> gap_buffer \<Rightarrow> (bool \<times> gap_buffer) res" where
  "gb_step (Insert str) g = GapBuffer_insertString g str"
| "gb_step (Move_relative k) g = rbind (GapBuffer_moveRelative g k) (\<lambda>g. Inr (True, g))"
| "gb_step (Move_absolute n) g = rbind (GapBuffer_moveAbsolute g n) (\<lambda>g. Inr (True, g))"
| "gb_step (Remove_forwards n) g = rbind (GapBuffer_removeForwards g n) (\<lambda>g. Inr (True, g))"
| "gb_step (Remove_backwards n) g = rbind (GapBuffer_removeBackwards g n) (\<lambda>g. Inr (True, g))"

text \<open>\<^verbatim>\<open>INT_MIN\<close> cannot be negated.\<close>

fun gb_pre :: "gb_op \<Rightarrow> bool" where
  "gb_pre (Move_relative k) \<longleftrightarrow> - (2 ^ 31) < k"
| "gb_pre _ \<longleftrightarrow> True"

lemma gb_invD:
  assumes "gb_inv g"
  shows "length (data g) = total g" "gap_offset g + gap_length g \<le> total g"
    "gap_offset g \<le> total g"
  using assms by (auto simp: gb_inv_def)

lemma before_gap_length: "gb_inv g \<Longrightarrow> length (before_gap g) = gap_offset g"
  by (simp add: before_gap_def gb_invD)

lemma after_gap_length: "gb_inv g \<Longrightarrow> length (after_gap g) = total g - (gap_offset g + gap_length g)"
  by (simp add: after_gap_def gb_invD)

lemma getStringBeforeGap_eq: "getStringBeforeGap g = before_gap g"
  by (simp add: getStringBeforeGap_def before_gap_def chunk_def)

lemma getStringAfterGap_eq: "gb_inv g \<Longrightarrow> getStringAfterGap g = after_gap g"
  by (simp add: getStringAfterGap_def after_gap_def chunk_def Let_def gb_invD)

lemma data_split:
  assumes "gb_inv g"
  obtains gap where "data g = before_gap g @ gap @ after_gap g" "length gap = gap_length g"
proof
  show "data g = before_gap g @ chunk (data g) (gap_offset g) (gap_length g) @ after_gap g"
    unfolding before_gap_def after_gap_def by (simp only: take_chunk_drop)
  show "length (chunk (data g) (gap_offset g) (gap_length g)) = gap_length g"
    using gb_invD [OF assms] by simp
qed

text \<open>A buffer given by its three parts.\<close>

definition parts :: "gap_buffer \<Rightarrow> u8 list \<Rightarrow> u8 list \<Rightarrow> u8 list \<Rightarrow> bool" where
  "parts g a gap b \<longleftrightarrow> data g = a @ gap @ b \<and> gap_offset g = length a \<and> gap_length g = length gap
     \<and> total g = length a + length gap + length b"

lemma parts_inv: "parts g a gap b \<Longrightarrow> gb_inv g \<and> before_gap g = a \<and> after_gap g = b"
  by (simp add: parts_def gb_inv_def before_gap_def after_gap_def)

lemma gb_inv_parts:
  assumes "gb_inv g"
  obtains gap where "parts g (before_gap g) gap (after_gap g)"
proof -
  have "length (chunk (data g) (gap_offset g) (gap_length g)) = gap_length g"
    using gb_invD [OF assms] by simp
  moreover have "data g = before_gap g @ chunk (data g) (gap_offset g) (gap_length g) @ after_gap g"
    unfolding before_gap_def after_gap_def by (simp only: take_chunk_drop)
  moreover have "total g = length (before_gap g) + gap_length g + length (after_gap g)"
    using gb_invD [OF assms] before_gap_length [OF assms] after_gap_length [OF assms] by simp
  ultimately have "parts g (before_gap g) (chunk (data g) (gap_offset g) (gap_length g)) (after_gap g)"
    using before_gap_length [OF assms] by (simp add: parts_def)
  then show thesis by (rule that)
qed

subsection \<open>Bytes: insertion and moves of the gap\<close>

lemma insertBytesBeforeCursor_parts:
  assumes "parts g a gap b" "length str \<le> length gap"
  shows "\<exists>g'. insertBytesBeforeCursor g str = Inr (True, g') \<and> parts g' (a @ str) (drop (length str) gap) b
    \<and> free_cb g' = free_cb g \<and> addr g' = addr g"
proof -
  have d: "blit (data g) (gap_offset g) str = a @ str @ drop (length str) gap @ b"
    using assms by (simp add: parts_def blit_def)
  have "insertBytesBeforeCursor g str = Inr (True, g\<lparr>data := a @ str @ drop (length str) gap @ b,
      gap_offset := length (a @ str), gap_length := length (drop (length str) gap)\<rparr>)"
    using assms unfolding insertBytesBeforeCursor_def d [symmetric] by (simp add: parts_def)
  then show ?thesis using assms by (simp add: parts_def)
qed

lemma insertBytesAfterCursor_parts:
  assumes "parts g a gap b" "length str \<le> length gap"
  shows "\<exists>g'. insertBytesAfterCursor g str = Inr (True, g')
    \<and> parts g' a (take (length gap - length str) gap) (str @ b)
    \<and> free_cb g' = free_cb g \<and> addr g' = addr g"
proof -
  let ?n = "length gap - length str"
  have d: "blit (data g) (gap_offset g + gap_length g - length str) str = a @ take ?n gap @ str @ b"
    using assms by (simp add: parts_def blit_def)
  have "insertBytesAfterCursor g str = Inr (True, g\<lparr>data := a @ take ?n gap @ str @ b,
      gap_length := length (take ?n gap)\<rparr>)"
    using assms unfolding insertBytesAfterCursor_def d [symmetric] by (simp add: parts_def)
  then show ?thesis using assms by (simp add: parts_def)
qed

lemma moveBytesAfterGap_parts:
  assumes "parts g (a @ c) gap b"
  shows "\<exists>g'. moveBytesAfterGap g (length c) = Inr g' \<and> parts g' a (take (length gap) (c @ gap)) (c @ b)"
proof -
  have d: "blit (data g) (length a + length gap) (chunk (data g) (length a) (length c))
      = a @ take (length gap) (c @ gap) @ c @ b"
    using assms by (simp add: parts_def blit_def chunk_def)
  have "moveBytesAfterGap g (length c) =
      Inr (g\<lparr>data := a @ take (length gap) (c @ gap) @ c @ b, gap_offset := length a\<rparr>)"
    using assms unfolding d [symmetric] by (simp add: moveBytesAfterGap_def parts_def)
  then show ?thesis using assms by (simp add: parts_def)
qed

lemma moveBytesBeforeGap_parts:
  assumes "parts g a gap (c @ b)"
  shows "\<exists>g'. moveBytesBeforeGap g (length c) = Inr g' \<and> parts g' (a @ c) (drop (length c) (gap @ c)) b"
proof -
  have d: "blit (data g) (length a) (chunk (data g) (length a + length gap) (length c))
      = a @ c @ drop (length c) (gap @ c) @ b"
    using assms by (simp add: parts_def blit_def chunk_def)
  have "moveBytesBeforeGap g (length c) =
      Inr (g\<lparr>data := a @ c @ drop (length c) (gap @ c) @ b, gap_offset := length a + length c\<rparr>)"
    using assms unfolding d [symmetric] by (simp add: moveBytesBeforeGap_def parts_def)
  moreover have "length (drop (length c) (gap @ c)) = length gap" by simp
  ultimately show ?thesis using assms by (auto simp: parts_def simp del: length_drop)
qed

subsection \<open>Scanning over symbols\<close>

text \<open>Skipping the auxiliary bytes back to the first byte of a symbol never reaches the assertion.\<close>

lemma skip_auxiliary_back_to:
  assumes "k + m < length d" "\<not> isSymbolAuxiliaryByte (d ! k)"
    "\<forall>j. k < j \<and> j \<le> k + m \<longrightarrow> isSymbolAuxiliaryByte (d ! j)"
  shows "skip_auxiliary_back d (Suc (k + m)) = Inr k"
  using assms by (induction m) auto

lemma skip_auxiliary_back_symbol:
  assumes "is_symbol s"
  shows "skip_auxiliary_back (pre @ s @ post) (length pre + length s) = Inr (length pre)"
proof -
  from assms obtain b t where s: "s = b # t" "\<not> isSymbolAuxiliaryByte b" "\<forall>x \<in> set t. isSymbolAuxiliaryByte x"
    by (cases s) (auto simp: is_symbol_def)
  have "skip_auxiliary_back (pre @ s @ post) (Suc (length pre + length t)) = Inr (length pre)"
  proof (rule skip_auxiliary_back_to)
    show "\<forall>j. length pre < j \<and> j \<le> length pre + length t \<longrightarrow>
      isSymbolAuxiliaryByte ((pre @ s @ post) ! j)"
      using s by (auto simp: nth_append nth_Cons')
  qed (use s in \<open>auto simp: nth_append\<close>)
  with s show ?thesis by simp
qed

lemma preceding_loop_symbols:
  "\<forall>s \<in> set ss. is_symbol s \<Longrightarrow>
     preceding_loop (concat ss @ post) (length (concat ss)) num
       = Inr (length (concat (take (length ss - num) ss)))"
proof (induction num arbitrary: ss post)
  case 0
  then show ?case by simp
next
  case (Suc num)
  show ?case
  proof (cases ss rule: rev_cases)
    case Nil
    then show ?thesis by simp
  next
    case (snoc ts s)
    with Suc.prems have s: "is_symbol s" "\<forall>s \<in> set ts. is_symbol s" by auto
    then have "s \<noteq> []" by (auto simp: is_symbol_def)
    moreover have "skip_auxiliary_back (concat ss @ post) (length (concat ss)) = Inr (length (concat ts))"
      using skip_auxiliary_back_symbol [OF s(1), of "concat ts" post] by (simp add: snoc)
    ultimately show ?thesis
      using Suc.IH [OF s(2), of "s @ post"] by (simp add: snoc)
  qed
qed

lemma following_loop_symbols:
  "\<forall>s \<in> set ss. is_symbol s \<Longrightarrow>
     following_loop (pre @ concat ss) (length pre + length (concat ss)) (length pre) num
       = Inr (length pre + length (concat (take num ss)))"
proof (induction num arbitrary: ss pre)
  case 0
  then show ?case by simp
next
  case (Suc num)
  show ?case
  proof (cases ss)
    case Nil
    then show ?thesis by simp
  next
    case (Cons s ts)
    with Suc.prems obtain b t where s: "s = b # t" "getSymbolLengthFromFirstByte b = length s"
      by (cases s) (auto simp: is_symbol_def)
    then show ?thesis
      using Suc.IH [of ts "pre @ s"] Suc.prems by (simp add: Cons add.assoc)
  qed
qed

lemma concat_take_drop: "concat (take n ss) @ concat (drop n ss) = concat ss"
  by (metis append_take_drop_id concat_append)

text \<open>Splitting a well-formed text after some of its symbols.\<close>

lemma wf_text_split:
  assumes "wf_text t"
  shows "t = concat (take n (symbols t)) @ concat (drop n (symbols t))"
    "wf_text (concat (take n (symbols t)))" "wf_text (concat (drop n (symbols t)))"
    "symbols (concat (take n (symbols t))) = take n (symbols t)"
    "symbols (concat (drop n (symbols t))) = drop n (symbols t)"
proof -
  from assms have "\<forall>s \<in> set (take n (symbols t)). is_symbol s" "\<forall>s \<in> set (drop n (symbols t)). is_symbol s"
    by (auto simp: wf_text_def dest: in_set_takeD in_set_dropD)
  then show "wf_text (concat (take n (symbols t)))" "wf_text (concat (drop n (symbols t)))"
    "symbols (concat (take n (symbols t))) = take n (symbols t)"
    "symbols (concat (drop n (symbols t))) = drop n (symbols t)"
    by (simp_all add: wf_text_concat symbols_concat)
  show "t = concat (take n (symbols t)) @ concat (drop n (symbols t))"
    using assms by (simp add: concat_take_drop wf_text_def)
qed

lemma getPrecedingSymbol_parts:
  assumes "parts g a gap b" "wf_text a"
  shows "getPrecedingSymbol g num = Inr (length (concat (take (length (symbols a) - num) (symbols a))))"
proof -
  from assms(2) have a: "concat (symbols a) = a" "\<forall>s \<in> set (symbols a). is_symbol s"
    by (auto simp: wf_text_def)
  show ?thesis
    using preceding_loop_symbols [OF a(2), of "gap @ b" num] assms(1)
    by (simp add: getPrecedingSymbol_def parts_def a(1))
qed

lemma getFollowingSymbol_parts:
  assumes "parts g a gap b" "wf_text b"
  shows "getFollowingSymbol g num = Inr (length a + length gap + length (concat (take num (symbols b))))"
proof -
  from assms(2) have b: "concat (symbols b) = b" "\<forall>s \<in> set (symbols b). is_symbol s"
    by (auto simp: wf_text_def)
  show ?thesis
    using following_loop_symbols [OF b(2), of "a @ gap" num] assms(1)
    by (simp add: getFollowingSymbol_def parts_def b(1) add.assoc)
qed

subsection \<open>The operations refine the editor\<close>

lemma gb_ok_parts:
  assumes "gb_ok g"
  obtains a gap b where "parts g a gap b" "wf_text a" "wf_text b"
proof -
  from assms have "gb_inv g" "wf_text (before_gap g)" "wf_text (after_gap g)" by (auto simp: gb_ok_def)
  then show thesis using that by (metis gb_inv_parts)
qed

lemma parts_abs:
  assumes "parts g a gap b" "wf_text a" "wf_text b"
  shows "gb_ok g \<and> gb_abs g = \<lparr>left = symbols a, right = symbols b, capacity = length a + length gap + length b\<rparr>"
  using parts_inv [OF assms(1)] assms by (simp add: gb_ok_def gb_abs_def parts_def)

lemma insertString_sim:
  assumes "parts g a gap b" "wf_text a" "wf_text b"
  shows "\<exists>out g'. GapBuffer_insertString g str = Inr (out, g') \<and> gb_ok g' \<and> ed_step (Insert str) (gb_abs g) = (out, gb_abs g')"
proof -
  have g: "gb_ok g" "gb_abs g = \<lparr>left = symbols a, right = symbols b, capacity = length a + length gap + length b\<rparr>"
    using parts_abs [OF assms] by auto
  have bytes: "ed_bytes (gb_abs g) = length a + length b"
    using assms by (simp add: g ed_bytes_def wf_text_def)
  show ?thesis
  proof (cases "isValidUTF8 str \<and> length str \<le> length gap")
    case True
    then have str: "wf_text str" by (simp add: isValidUTF8_wf)
    from True obtain g' where "insertBytesBeforeCursor g str = Inr (True, g')"
      "parts g' (a @ str) (drop (length str) gap) b"
      using insertBytesBeforeCursor_parts [OF assms(1)] by blast
    moreover have "wf_text (a @ str)" "symbols (a @ str) = symbols a @ symbols str"
      using wf_text_append [OF assms(2) str] by auto
    ultimately show ?thesis
      using True bytes parts_abs [of g' "a @ str" "drop (length str) gap" b] assms(3)
      by (auto simp: GapBuffer_insertString_def g)
  next
    case False
    then have "GapBuffer_insertString g str = Inr (False, g)"
      using assms(1) by (auto simp: GapBuffer_insertString_def insertBytesBeforeCursor_def parts_def)
    then show ?thesis using False bytes g by auto
  qed
qed

text \<open>Moving the first or last symbols across the gap.\<close>

lemma move_back_sim:
  assumes "parts g a gap b" "wf_text a" "wf_text b"
  shows "\<exists>g'. moveBytesAfterGap g (length a - length (concat (take n (symbols a)))) = Inr g' \<and> gb_ok g'
    \<and> gb_abs g' = (gb_abs g)\<lparr>left := take n (symbols a), right := drop n (symbols a) @ symbols b\<rparr>"
proof -
  let ?p = "concat (take n (symbols a))" and ?s = "concat (drop n (symbols a))"
  note sp = wf_text_split [OF assms(2), of n]
  have "parts g (?p @ ?s) gap b" using assms(1) sp(1) by simp
  then obtain g' where g': "moveBytesAfterGap g (length ?s) = Inr g'"
    "parts g' ?p (take (length gap) (?s @ gap)) (?s @ b)"
    using moveBytesAfterGap_parts by blast
  have "length a = length ?p + length ?s" using arg_cong [OF sp(1), of length] by simp
  then have "length a - length ?p = length ?s" "length a + length gap = length ?p + (length gap + length ?s)"
    by simp_all
  moreover have "wf_text (?s @ b)" "symbols (?s @ b) = drop n (symbols a) @ symbols b"
    using wf_text_append [OF sp(3) assms(3)] sp(5) by auto
  ultimately show ?thesis
    using g' parts_abs [OF g'(2) sp(2)] parts_abs [OF assms] sp(4) by simp
qed

lemma move_forward_sim:
  assumes "parts g a gap b" "wf_text a" "wf_text b"
  shows "\<exists>g'. moveBytesBeforeGap g (length (concat (take n (symbols b)))) = Inr g' \<and> gb_ok g'
    \<and> gb_abs g' = (gb_abs g)\<lparr>left := symbols a @ take n (symbols b), right := drop n (symbols b)\<rparr>"
proof -
  let ?p = "concat (take n (symbols b))" and ?s = "concat (drop n (symbols b))"
  note sp = wf_text_split [OF assms(3), of n]
  have "parts g a gap (?p @ ?s)" using assms(1) sp(1) by simp
  then obtain g' where g': "moveBytesBeforeGap g (length ?p) = Inr g'"
    "parts g' (a @ ?p) (drop (length ?p) (gap @ ?p)) ?s"
    using moveBytesBeforeGap_parts by blast
  have "length b = length ?p + length ?s" using arg_cong [OF sp(1), of length] by simp
  moreover have "wf_text (a @ ?p)" "symbols (a @ ?p) = symbols a @ take n (symbols b)"
    using wf_text_append [OF assms(2) sp(2)] sp(4) by auto
  ultimately show ?thesis
    using g' parts_abs [OF g'(2) _ sp(3)] parts_abs [OF assms] sp(5) by simp
qed

lemma moveRelative_sim:
  assumes "parts g a gap b" "wf_text a" "wf_text b" "- (2 ^ 31) < k"
  shows "\<exists>g'. GapBuffer_moveRelative g k = Inr g' \<and> gb_ok g' \<and> ed_step (Move_relative k) (gb_abs g) = (True, gb_abs g')"
proof (cases "k < 0")
  case True
  let ?n = "length (symbols a) - nat (- k)"
  have "GapBuffer_moveRelative g k = moveBytesAfterGap g (length a - length (concat (take ?n (symbols a))))"
    using True assms getPrecedingSymbol_parts [OF assms(1,2)]
    by (simp add: GapBuffer_moveRelative_def parts_def)
  moreover have "nat (int (length (symbols a)) + k) = ?n" using True by simp
  ultimately show ?thesis
    using move_back_sim [OF assms(1-3), of ?n] parts_abs [OF assms(1-3)] by (auto simp: ed_move_to_def)
next
  case False
  have "GapBuffer_moveRelative g k = moveBytesBeforeGap g (length (concat (take (nat k) (symbols b))))"
    using False assms getFollowingSymbol_parts [OF assms(1,3)]
    by (simp add: GapBuffer_moveRelative_def parts_def)
  moreover have "nat (int (length (symbols a)) + k) = length (symbols a) + nat k" using False by simp
  ultimately show ?thesis
    using move_forward_sim [OF assms(1-3), of "nat k"] parts_abs [OF assms(1-3)] by (auto simp: ed_move_to_def)
qed

lemma removeForwards_sim:
  assumes "parts g a gap b" "wf_text a" "wf_text b"
  shows "\<exists>g'. GapBuffer_removeForwards g n = Inr g' \<and> gb_ok g' \<and> ed_step (Remove_forwards n) (gb_abs g) = (True, gb_abs g')"
proof -
  let ?p = "concat (take n (symbols b))" and ?s = "concat (drop n (symbols b))"
  note sp = wf_text_split [OF assms(3), of n]
  let ?g = "g\<lparr>gap_length := length gap + length ?p\<rparr>"
  have "GapBuffer_removeForwards g n = Inr ?g"
    using getFollowingSymbol_parts [OF assms(1,3), of n] assms(1)
    by (simp add: GapBuffer_removeForwards_def parts_def)
  moreover have b: "b = ?p @ ?s" by (rule sp(1))
  have "length b = length ?p + length ?s" by (metis b length_append)
  then have "parts ?g a (gap @ ?p) ?s" using assms(1) b by (simp add: parts_def)
  ultimately show ?thesis
    using parts_abs [of ?g a "gap @ ?p" ?s] sp assms parts_abs [OF assms] \<open>length b = length ?p + length ?s\<close>
    by simp
qed

lemma removeBackwards_sim:
  assumes "parts g a gap b" "wf_text a" "wf_text b"
  shows "\<exists>g'. GapBuffer_removeBackwards g n = Inr g' \<and> gb_ok g' \<and> ed_step (Remove_backwards n) (gb_abs g) = (True, gb_abs g')"
proof -
  let ?n = "length (symbols a) - n"
  let ?p = "concat (take ?n (symbols a))" and ?s = "concat (drop ?n (symbols a))"
  note sp = wf_text_split [OF assms(2), of ?n]
  let ?g = "g\<lparr>gap_length := length gap + length ?s, gap_offset := length ?p\<rparr>"
  have a: "a = ?p @ ?s" by (rule sp(1))
  have la: "length a = length ?p + length ?s" by (metis a length_append)
  have "GapBuffer_removeBackwards g n = Inr ?g"
    using getPrecedingSymbol_parts [OF assms(1,2), of n] assms(1) la
    by (simp add: GapBuffer_removeBackwards_def parts_def)
  moreover have "parts ?g ?p (?s @ gap) b" using assms(1) a la by (simp add: parts_def)
  ultimately show ?thesis
    using parts_abs [of ?g ?p "?s @ gap" b] sp assms parts_abs [OF assms] la by simp
qed

text \<open>The byte offset of the \<open>n\<close>-th symbol of the text in the array, past the gap from the cursor on.\<close>

definition symbol_pos :: "u8 list \<Rightarrow> u8 list \<Rightarrow> u8 list \<Rightarrow> nat \<Rightarrow> nat" where
  "symbol_pos a gap b n =
     (if n < length (symbols a) then length (concat (take n (symbols a)))
      else length a + length gap + length (concat (take (n - length (symbols a)) (symbols b))))"

text \<open>A symbol somewhere in a sequence of symbols: its length and its first byte.\<close>

lemma nth_symbol_at:
  assumes "\<forall>s \<in> set ss. is_symbol s" "n < length ss"
  shows "length (concat (take (Suc n) ss)) = length (concat (take n ss)) + length (ss ! n)"
    "0 < length (ss ! n)"
    "length (concat (take n ss)) + length (ss ! n) \<le> length (concat ss)"
    "(concat ss @ rest) ! length (concat (take n ss)) = hd (ss ! n)"
    "getSymbolLengthFromFirstByte (hd (ss ! n)) = length (ss ! n)"
proof -
  have s: "is_symbol (ss ! n)" using assms by simp
  have sp: "ss = take n ss @ ss ! n # drop (Suc n) ss" by (rule id_take_nth_drop [OF assms(2)])
  have c: "concat ss = concat (take n ss) @ ss ! n @ concat (drop (Suc n) ss)"
    by (metis sp concat.simps(2) concat_append)
  show "length (concat (take (Suc n) ss)) = length (concat (take n ss)) + length (ss ! n)"
    using assms(2) by (simp add: take_Suc_conv_app_nth)
  show pos: "0 < length (ss ! n)" using s by (auto simp: is_symbol_def)
  show "length (concat (take n ss)) + length (ss ! n) \<le> length (concat ss)"
    using c by simp
  show "(concat ss @ rest) ! length (concat (take n ss)) = hd (ss ! n)"
    unfolding c using pos by (cases "ss ! n") (auto simp: nth_append)
  show "getSymbolLengthFromFirstByte (hd (ss ! n)) = length (ss ! n)"
    using s by (auto simp: is_symbol_def)
qed

lemma symbol_pos_end:
  assumes "wf_text b" "length (symbols a) + length (symbols b) \<le> n"
  shows "symbol_pos a gap b n = length a + length gap + length b"
  using assms by (simp add: symbol_pos_def wf_text_def)

lemma symbol_pos_step:
  assumes "parts g a gap b" "wf_text a" "wf_text b" "n < length (symbols a) + length (symbols b)"
  defines "i \<equiv> symbol_pos a gap b n"
  defines "j \<equiv> i + getSymbolLengthFromFirstByte (data g ! i)"
  shows "i < total g" "(if j = gap_offset g then j + gap_length g else j) = symbol_pos a gap b (Suc n)"
proof -
  let ?as = "symbols a" and ?bs = "symbols b"
  from assms have ca: "concat ?as = a" "\<forall>s \<in> set ?as. is_symbol s"
    and cb: "concat ?bs = b" "\<forall>s \<in> set ?bs. is_symbol s"
    by (auto simp: wf_text_def)
  have d: "data g = concat ?as @ gap @ b" "data g = (a @ gap) @ concat ?bs"
    using assms(1) ca cb by (auto simp: parts_def)
  have g: "gap_offset g = length a" "gap_length g = length gap" "total g = length a + length gap + length b"
    using assms(1) by (auto simp: parts_def)
  have "i < total g \<and> (if j = gap_offset g then j + gap_length g else j) = symbol_pos a gap b (Suc n)"
  proof (cases "n < length ?as")
    case True
    note s = nth_symbol_at [OF ca(2) True]
    have i: "i = length (concat (take n ?as))" using True by (simp add: i_def symbol_pos_def)
    have j: "j = length (concat (take (Suc n) ?as))" using s(4)[of "gap @ b"] by (simp add: j_def i d(1) s)
    show ?thesis
    proof (cases "Suc n < length ?as")
      case True
      then have "Suc n < length ?as" .
      note s' = nth_symbol_at [OF ca(2) this]
      from s'(2,3) have "length (concat (take (Suc n) ?as)) < length a" unfolding ca(1) by linarith
      with True show ?thesis using i j s by (simp add: g symbol_pos_def)
    next
      case False
      with True have "Suc n = length ?as" by simp
      with j have "j = length a" by (simp add: ca(1))
      then show ?thesis using i j s \<open>Suc n = length ?as\<close> ca(1) by (simp add: g symbol_pos_def)
    qed
  next
    case False
    then have lt: "n - length ?as < length ?bs" and le: "length ?as \<le> n" using assms(4) by auto
    note s = nth_symbol_at [OF cb(2) lt]
    have i: "i = length (a @ gap) + length (concat (take (n - length ?as) ?bs))"
      using False by (simp add: i_def symbol_pos_def)
    have "data g ! i = hd (?bs ! (n - length ?as))"
      using s(4) [of "[]"] unfolding d(2) i by (simp add: nth_append)
    then have j: "j = i + length (?bs ! (n - length ?as))" by (simp add: j_def s)
    then have "j = length (a @ gap) + length (concat (take (Suc n - length ?as) ?bs))"
      using s(1) le by (simp add: i Suc_diff_le)
    moreover have "i < j" "j \<le> total g" "length a < j" "symbol_pos a gap b (Suc n) =
      length (a @ gap) + length (concat (take (Suc n - length ?as) ?bs))"
      using s(2,3) i j le unfolding cb(1) by (simp_all add: g symbol_pos_def)
    ultimately show ?thesis by (simp add: g)
  qed
  then show "i < total g" "(if j = gap_offset g then j + gap_length g else j) = symbol_pos a gap b (Suc n)"
    by auto
qed

lemma absolute_loop_pos:
  assumes "parts g a gap b" "wf_text a" "wf_text b"
  shows "absolute_loop g (symbol_pos a gap b n) num = Inr (symbol_pos a gap b (n + num))"
proof (induction num arbitrary: n)
  case 0
  then show ?case by simp
next
  case (Suc num)
  show ?case
  proof (cases "n < length (symbols a) + length (symbols b)")
    case True
    note st = symbol_pos_step [OF assms True]
    have "length (data g) = total g" using assms(1) by (auto simp: parts_def)
    then show ?thesis
      using st Suc.IH [of "Suc n"] by (simp add: Let_def)
  next
    case False
    then have "symbol_pos a gap b n = total g" "symbol_pos a gap b (n + Suc num) = total g"
      using assms symbol_pos_end [OF assms(3)] by (auto simp: parts_def)
    then show ?thesis by simp
  qed
qed

lemma moveAbsolute_sim:
  assumes "parts g a gap b" "wf_text a" "wf_text b"
  shows "\<exists>g'. GapBuffer_moveAbsolute g n = Inr g' \<and> gb_ok g' \<and> ed_step (Move_absolute n) (gb_abs g) = (True, gb_abs g')"
proof -
  let ?as = "symbols a" and ?bs = "symbols b"
  have ca: "concat ?as = a" using assms by (simp add: wf_text_def)
  have g: "gap_offset g = length a" "gap_length g = length gap"
    using assms(1) by (auto simp: parts_def)
  have "(if gap_offset g > 0 then 0 else gap_length g) = symbol_pos a gap b 0"
    using ca by (cases a; cases ?as) (auto simp: g symbol_pos_def)
  then have loop: "absolute_loop g (if gap_offset g > 0 then 0 else gap_length g) n = Inr (symbol_pos a gap b n)"
    using absolute_loop_pos [OF assms, of 0 n] by simp
  show ?thesis
  proof (cases "n < length ?as")
    case True
    have "length (concat (take n ?as)) \<le> length a" by (metis ca concat_take_drop le_add1 length_append)
    then have "GapBuffer_moveAbsolute g n = moveBytesAfterGap g (length a - length (concat (take n ?as)))"
      using loop True by (simp add: GapBuffer_moveAbsolute_def Let_def g symbol_pos_def)
    then show ?thesis
      using True move_back_sim [OF assms, of n] parts_abs [OF assms] by (auto simp: ed_move_to_def)
  next
    case False
    let ?m = "n - length ?as"
    have i: "symbol_pos a gap b n = length a + length gap + length (concat (take ?m ?bs))"
      using False by (simp add: symbol_pos_def)
    define k where "k = length (concat (take ?m ?bs))"
    have "moveBytesAfterGap g 0 = moveBytesBeforeGap g 0"
      using assms(1) by (simp add: moveBytesAfterGap_def moveBytesBeforeGap_def parts_def)
    then have "GapBuffer_moveAbsolute g n = moveBytesBeforeGap g k"
      using loop unfolding GapBuffer_moveAbsolute_def Let_def i k_def [symmetric] g
      by (cases "length gap + k = 0") auto
    then have "GapBuffer_moveAbsolute g n = moveBytesBeforeGap g (length (concat (take ?m ?bs)))"
      by (simp only: k_def)
    then show ?thesis
      using False move_forward_sim [OF assms, of ?m] parts_abs [OF assms] by (auto simp: ed_move_to_def)
  qed
qed

lemma gb_step_sim:
  assumes "gb_ok g" "gb_pre c"
  shows "\<exists>out g'. gb_step c g = Inr (out, g') \<and> gb_ok g' \<and> ed_step c (gb_abs g) = (out, gb_abs g')"
proof -
  from assms(1) obtain a gap b where p: "parts g a gap b" "wf_text a" "wf_text b" by (rule gb_ok_parts)
  show ?thesis
  proof (cases c)
    case (Insert str)
    then show ?thesis using insertString_sim [OF p] by simp
  next
    case (Move_relative k)
    then show ?thesis using moveRelative_sim [OF p, of k] assms(2) by auto
  next
    case (Move_absolute n)
    then show ?thesis using moveAbsolute_sim [OF p, of n] by auto
  next
    case (Remove_forwards n)
    then show ?thesis using removeForwards_sim [OF p, of n] by auto
  next
    case (Remove_backwards n)
    then show ?thesis using removeBackwards_sim [OF p, of n] by auto
  qed
qed

interpretation gap: simulation gb_step ed_step gb_ok gb_abs gb_pre
  by unfold_locales (rule gb_step_sim)

lemma createUsingMemory_Some:
  assumes "mem \<noteq> 0" "padding mem + sizeof_GapBuffer \<le> length region"
  shows "\<exists>g. GapBuffer_createUsingMemory mem region free = (Some g, []) \<and> parts g [] (data g) []
    \<and> total g = length region - padding mem - sizeof_GapBuffer \<and> free_cb g = free"
proof -
  let ?pad = "padding mem"
  have "\<not> length region < ?pad" "\<not> length (drop ?pad region) < sizeof_GapBuffer"
    using assms by simp_all
  then show ?thesis
    using assms(1) by (simp add: GapBuffer_createUsingMemory_def Let_def parts_def add.commute)
qed

text \<open>C1: gap buffer refinement. A buffer made by \<open>GapBuffer_createUsingMemory\<close> from any region, aligned
  or not, that is large enough to hold the struct behaves like the editor under every sequence of the operations of the
  header: none of them faults (so neither of the two assertions marked
  \<^verbatim>\<open>FIXME: This triggers sometimes\<close> fails), they give the answers of the editor, and the text
  before and after the cursor is what the editor says.\<close>

theorem gap_buffer_refines_editor:
  assumes "mem \<noteq> 0" "padding mem + sizeof_GapBuffer \<le> length region"
    and "\<forall>c \<in> set ops. gb_pre c"
  shows "\<exists>g outs g'. GapBuffer_createUsingMemory mem region free = (Some g, [])
    \<and> run_ops gb_step ops g = Inr (outs, g') \<and> gb_ok g'
    \<and> run_spec ed_step ops \<lparr>left = [], right = [], capacity = length region
         - padding mem - sizeof_GapBuffer\<rparr> = (outs, gb_abs g')"
proof -
  obtain g where g: "GapBuffer_createUsingMemory mem region free = (Some g, [])" "parts g [] (data g) []"
    "total g = length region - padding mem - sizeof_GapBuffer"
    using createUsingMemory_Some [OF assms(1,2)] by blast
  have ok: "gb_ok g" "gb_abs g = \<lparr>left = [], right = [], capacity = total g\<rparr>"
    using parts_abs [OF g(2)] g(2) by (auto simp: parts_def)
  obtain outs g' where "run_ops gb_step ops g = Inr (outs, g')" "gb_ok g'"
    "run_spec ed_step ops (gb_abs g) = (outs, gb_abs g')"
    using gap.run_sim [OF ok(1) assms(3)] by blast
  with g(1) show ?thesis unfolding ok(2) g(3) by blast
qed

theorem gap_buffer_refines_editor_witness:
  "\<exists>g outs g'. GapBuffer_createUsingMemory 7 (replicate 43 0) None = (Some g, [])
    \<and> run_ops gb_step [Insert [0x61, 0xC3, 0xA8, 0x62], Move_relative (- 2), Remove_forwards 1, Insert [0xE2, 0x82, 0xAC], Move_absolute 9] g
        = Inr (outs, g') \<and> gb_ok g' \<and> outs = [True, True, True, True, True]
    \<and> left (gb_abs g') = [[0x61], [0xE2, 0x82, 0xAC], [0x62]] \<and> capacity (gb_abs g') = 10"
proof -
  let ?ops = "[Insert [0x61, 0xC3, 0xA8, 0x62], Move_relative (- 2), Remove_forwards 1, Insert [0xE2, 0x82, 0xAC], Move_absolute 9]"
  have spec: "run_spec ed_step ?ops \<lparr>left = [], right = [], capacity = 10\<rparr>
    = ([True, True, True, True, True], \<lparr>left = [[0x61], [0xE2, 0x82, 0xAC], [0x62]], right = [], capacity = 10\<rparr>)"
    by code_simp
  have cap: "length (replicate 43 (0 :: u8)) - padding 7 - sizeof_GapBuffer = 10"
    by code_simp
  have "\<exists>g outs g'. GapBuffer_createUsingMemory 7 (replicate 43 0) None = (Some g, [])
    \<and> run_ops gb_step ?ops g = Inr (outs, g') \<and> gb_ok g'
    \<and> run_spec ed_step ?ops \<lparr>left = [], right = [], capacity = length (replicate 43 (0 :: u8))
         - padding 7 - sizeof_GapBuffer\<rparr> = (outs, gb_abs g')"
    by (rule gap_buffer_refines_editor) (code_simp+)
  then obtain g outs g' where g: "GapBuffer_createUsingMemory 7 (replicate 43 0) None = (Some g, [])"
    "run_ops gb_step ?ops g = Inr (outs, g')" "gb_ok g'"
    "([True, True, True, True, True], \<lparr>left = [[0x61], [0xE2, 0x82, 0xAC], [0x62]], right = [], capacity = 10\<rparr>) = (outs, gb_abs g')"
    unfolding cap spec by blast
  from g(4) have "outs = [True, True, True, True, True]"
    "gb_abs g' = \<lparr>left = [[0x61], [0xE2, 0x82, 0xAC], [0x62]], right = [], capacity = 10\<rparr>"
    unfolding prod.inject by simp_all
  with g(1-3) show ?thesis by (intro exI conjI) (assumption | simp)+
qed

end
