(* ===== verification/GapIter.thy ===== *)
theory GapIter
  imports GapBuffer
begin

section \<open>Line iterator, cloning and relocation of the gap buffer\<close>

text \<open>
  The line iterator of \<^verbatim>\<open>gap_buffer/gap_buffer.c\<close>. A line that the iterator hands out is a
  pointer and a length; the pointer is into the array of the buffer (\<open>In_data\<close> with an offset)
  or into the 512-byte array \<^verbatim>\<open>maybe\<close> of the iterator (\<open>In_maybe\<close>), which holds the one line
  that crosses the gap. \<open>line_bytes\<close> is what a client reads through it. The theory also holds
  the theorems about cloning and about the relocation of a full buffer.
\<close>

subsection \<open>Definitions\<close>

record gb_iter =
  crossed_gap :: bool
  cur :: nat
  mem :: u64
  maybe :: "u8 list"

datatype line_str = In_data nat | In_maybe

type_synonym gb_line = "line_str \<times> nat"

definition sizeof_maybe :: nat where
  "sizeof_maybe = 512"

definition GapBufferIter_init :: "gb_iter \<Rightarrow> gb_iter" where
  "GapBufferIter_init iter = iter\<lparr>crossed_gap := False, cur := 0, mem := 0\<rparr>"

definition GapBufferIter_free :: "gb_iter \<Rightarrow> gb_iter" where
  "GapBufferIter_free iter = iter\<lparr>mem := 0\<rparr>"

text \<open>\<^verbatim>\<open>while (i < limit && data[i] != '\n') i++\<close>\<close>

definition scan_line :: "nat \<Rightarrow> u8 list \<Rightarrow> nat \<Rightarrow> nat" where
  "scan_line limit d i = skip_while (\<lambda>b. b \<noteq> 10) (take limit d) i"

text \<open>The copies of the two pieces of a line into \<^verbatim>\<open>maybe\<close>.\<close>

definition fill_maybe :: "u8 list \<Rightarrow> u8 list \<Rightarrow> nat \<Rightarrow> nat \<Rightarrow> nat \<Rightarrow> nat \<Rightarrow> u8 list res" where
  "fill_maybe mb d line_offset line_length line_offset_2 line_length_2 =
     (if line_length + line_length_2 > sizeof_maybe then
        (if line_length > sizeof_maybe then memcpy mb 0 (chunk d line_offset sizeof_maybe)
         else rbind (memcpy mb 0 (chunk d line_offset line_length)) (\<lambda>mb.
           memcpy mb line_offset (chunk d line_offset_2 (sizeof_maybe - line_length))))
      else rbind (memcpy mb 0 (chunk d line_offset line_length)) (\<lambda>mb.
        memcpy mb line_length (chunk d line_offset_2 line_length_2)))"

definition GapBufferIter_next :: "gap_buffer \<Rightarrow> gb_iter \<Rightarrow> (gb_line option \<times> gb_iter) res" where
  "GapBufferIter_next buff it =
     (let iter = it\<lparr>mem := 0\<rparr>; line_offset = cur iter; d = data buff in
      if crossed_gap iter then
        let i = scan_line (total buff) d line_offset; line_length = i - line_offset in
        if i < total buff then Inr (Some (In_data line_offset, line_length), iter\<lparr>cur := Suc i\<rparr>)
        else if line_length = 0 then Inr (None, iter)
        else Inr (Some (In_data line_offset, line_length), iter\<lparr>cur := i\<rparr>)
      else
        let i = scan_line (gap_offset buff) d line_offset; line_length = i - line_offset in
        if i = gap_offset buff then
          let line_offset_2 = i + gap_length buff;
              i = scan_line (total buff) d line_offset_2;
              line_length_2 = i - line_offset_2 in
          if \<not> i < total buff \<and> line_length + line_length_2 = 0 then Inr (None, iter)
          else
            let i = (if i < total buff then Suc i else i) in
            rbind (fill_maybe (maybe iter) d line_offset line_length line_offset_2 line_length_2) (\<lambda>mb.
              Inr (Some (In_maybe, line_length + line_length_2),
                   iter\<lparr>crossed_gap := True, maybe := mb, cur := i\<rparr>))
        else Inr (Some (In_data line_offset, line_length), iter\<lparr>cur := Suc i\<rparr>))"

text \<open>Reading a line that was handed out.\<close>

definition line_bytes :: "gap_buffer \<Rightarrow> gb_iter \<Rightarrow> gb_line \<Rightarrow> u8 list res" where
  "line_bytes buff iter line =
     (let (obj, off) = (case fst line of In_data off \<Rightarrow> (data buff, off) | In_maybe \<Rightarrow> (maybe iter, 0))
      in if off + snd line \<le> length obj then Inr (chunk obj off (snd line)) else Inl Out_of_bounds)"

text \<open>The client loop \<^verbatim>\<open>while (GapBufferIter_next(&iter, &line)) use(line)\<close> and the lines it sees.\<close>

inductive iter_yields :: "gap_buffer \<Rightarrow> gb_iter \<Rightarrow> u8 list list \<Rightarrow> bool" for buff where
  iter_end: "GapBufferIter_next buff iter = Inr (None, iter') \<Longrightarrow> iter_yields buff iter []"
| iter_line: "GapBufferIter_next buff iter = Inr (Some l, iter') \<Longrightarrow> line_bytes buff iter' l = Inr bs
    \<Longrightarrow> iter_yields buff iter' ls \<Longrightarrow> iter_yields buff iter (bs # ls)"

text \<open>The lines of a text: the pieces between line feeds; a final line feed ends the last line.\<close>

function text_lines :: "u8 list \<Rightarrow> u8 list list" where
  "text_lines t = (if t = [] then []
     else takeWhile (\<lambda>b. b \<noteq> 10) t # text_lines (tl (dropWhile (\<lambda>b. b \<noteq> 10) t)))"
  by pat_completeness auto
termination
proof (relation "measure length")
  fix t :: "u8 list"
  assume "t \<noteq> []"
  have "length (dropWhile (\<lambda>b. b \<noteq> 10) t) \<le> length t" by (rule length_dropWhile_le)
  with \<open>t \<noteq> []\<close> show "(tl (dropWhile (\<lambda>b. b \<noteq> 10) t), t) \<in> measure length"
    by (cases t; cases "dropWhile (\<lambda>b. b \<noteq> 10) t") auto
qed simp

declare text_lines.simps [simp del]

definition gb_text :: "gap_buffer \<Rightarrow> u8 list" where
  "gb_text g = before_gap g @ after_gap g"

subsection \<open>One step of the iterator\<close>

text \<open>What the iterator still has to hand out.\<close>

definition iter_rest :: "u8 list \<Rightarrow> u8 list \<Rightarrow> u8 list \<Rightarrow> gb_iter \<Rightarrow> u8 list" where
  "iter_rest a gap b it =
     (if crossed_gap it then drop (cur it - (length a + length gap)) b else drop (cur it) a @ b)"

definition iter_ok :: "u8 list \<Rightarrow> u8 list \<Rightarrow> u8 list \<Rightarrow> gb_iter \<Rightarrow> bool" where
  "iter_ok a gap b it \<longleftrightarrow> length (maybe it) = sizeof_maybe
     \<and> (if crossed_gap it then length a + length gap \<le> cur it \<and> cur it \<le> length a + length gap + length b
        else cur it \<le> length a)"

lemma scan_line_eq:
  "limit \<le> length d \<Longrightarrow> i \<le> limit \<Longrightarrow>
     scan_line limit d i = i + length (takeWhile (\<lambda>b. b \<noteq> 10) (drop i (take limit d)))"
  by (simp add: scan_line_def skip_while_eq)

lemma takeWhile_short:
  assumes "length (takeWhile p xs) < length xs"
  shows "dropWhile p xs = xs ! length (takeWhile p xs) # drop (Suc (length (takeWhile p xs))) xs"
    "takeWhile p (xs @ ys) = takeWhile p xs" "dropWhile p (xs @ ys) = dropWhile p xs @ ys"
proof -
  have "takeWhile p xs \<noteq> xs" using assms by (metis less_irrefl)
  then obtain x where x: "x \<in> set xs" "\<not> p x" by (auto simp: takeWhile_eq_all_conv)
  then show "takeWhile p (xs @ ys) = takeWhile p xs" "dropWhile p (xs @ ys) = dropWhile p xs @ ys"
    by (simp_all add: takeWhile_append1 dropWhile_append1)
  show "dropWhile p xs = xs ! length (takeWhile p xs) # drop (Suc (length (takeWhile p xs))) xs"
    using assms by (simp add: Cons_nth_drop_Suc dropWhile_eq_drop)
qed

lemma takeWhile_full: "\<not> length (takeWhile p xs) < length xs \<Longrightarrow> takeWhile p xs = xs"
  by (metis length_takeWhile_le nat_less_le takeWhile_eq_take take_all_iff)

lemma text_lines_step: "t \<noteq> [] \<Longrightarrow>
  text_lines t = takeWhile (\<lambda>b. b \<noteq> 10) t # text_lines (tl (dropWhile (\<lambda>b. b \<noteq> 10) t))"
  by (simp add: text_lines.simps [of t])

lemma fill_maybe_short:
  assumes "length mb = sizeof_maybe" "length u + length v \<le> sizeof_maybe"
    "chunk d off (length u) = u" "chunk d off2 (length v) = v"
  shows "\<exists>mb'. fill_maybe mb d off (length u) off2 (length v) = Inr mb' \<and> length mb' = sizeof_maybe
    \<and> take (length u + length v) mb' = u @ v"
proof -
  have "fill_maybe mb d off (length u) off2 (length v) = Inr (blit (blit mb 0 u) (length u) v)"
    using assms by (simp add: fill_maybe_def)
  moreover have "take (length u + length v) (blit (blit mb 0 u) (length u) v) = u @ v"
    using assms by (simp add: blit_def)
  ultimately show ?thesis using assms by simp
qed

text \<open>Both phases of the iterator, as scans of what is left.\<close>

lemma tw_le: "length (takeWhile p xs) \<le> length xs"
  by (rule length_takeWhile_le)

lemma next_crossed:
  assumes p: "parts g a gap b" and ok: "iter_ok a gap b it" and c: "crossed_gap it"
  defines "r \<equiv> iter_rest a gap b it"
  defines "n \<equiv> length (takeWhile (\<lambda>b. b \<noteq> 10) r)"
  shows "GapBufferIter_next g it =
    (if n < length r then Inr (Some (In_data (cur it), n), it\<lparr>mem := 0, cur := Suc (cur it + n)\<rparr>)
     else if n = 0 then Inr (None, it\<lparr>mem := 0\<rparr>)
     else Inr (Some (In_data (cur it), n), it\<lparr>mem := 0, cur := cur it + n\<rparr>))"
proof -
  have r: "r = drop (cur it) (data g)" "total g = cur it + length r" "length (data g) = total g" "cur it \<le> total g"
    using p ok c by (auto simp: r_def iter_rest_def iter_ok_def parts_def)
  have "scan_line (total g) (data g) (cur it) = cur it + n"
    using r by (simp add: scan_line_eq n_def)
  then show ?thesis
    using r(2) c by (simp add: GapBufferIter_next_def Let_def)
qed

lemma next_before:
  assumes p: "parts g a gap b" and ok: "iter_ok a gap b it" and c: "\<not> crossed_gap it"
  defines "u \<equiv> drop (cur it) a"
  defines "n \<equiv> length (takeWhile (\<lambda>b. b \<noteq> 10) u)" and "m \<equiv> length (takeWhile (\<lambda>b. b \<noteq> 10) b)"
  shows "GapBufferIter_next g it =
    (if n < length u then Inr (Some (In_data (cur it), n), it\<lparr>mem := 0, cur := Suc (cur it + n)\<rparr>)
     else if m = length b \<and> n + m = 0 then Inr (None, it\<lparr>mem := 0\<rparr>)
     else rbind (fill_maybe (maybe it) (data g) (cur it) n (length a + length gap) m) (\<lambda>mb.
       Inr (Some (In_maybe, n + m), it\<lparr>mem := 0, crossed_gap := True, maybe := mb,
         cur := length a + length gap + (if m < length b then Suc m else m)\<rparr>)))"
proof -
  have g: "gap_offset g = length a" "gap_length g = length gap" "total g = length a + length gap + length b"
    "length (data g) = total g" "take (length a) (data g) = a" "drop (length a + length gap) (data g) = b"
    using p by (auto simp: parts_def)
  have cur: "cur it \<le> length a" using ok c by (simp add: iter_ok_def)
  have s1: "scan_line (gap_offset g) (data g) (cur it) = cur it + n"
    using g cur by (simp add: scan_line_eq n_def u_def)
  have s2: "scan_line (total g) (data g) (length a + length gap) = length a + length gap + m"
    using g by (simp add: scan_line_eq m_def)
  have nm: "n \<le> length u" "m \<le> length b" using tw_le n_def m_def by auto
  have eq: "cur it + n = length a \<longleftrightarrow> \<not> n < length u" using nm cur by (auto simp: u_def)
  show ?thesis
  proof (cases "n < length u")
    case True
    then show ?thesis using s1 c eq by (simp add: GapBufferIter_next_def Let_def g)
  next
    case False
    then have la: "length a = cur it + n" using eq by simp
    have mb: "\<not> m < length b \<longleftrightarrow> m = length b" using nm(2) by auto
    have lt: "length a + length gap + m < total g \<longleftrightarrow> m < length b" by (simp add: g)
    show ?thesis using s1 s2 c False mb lt
      unfolding GapBufferIter_next_def Let_def g(1,2) la by simp
  qed
qed

text \<open>Nothing left: the iterator stops. Something left: it hands out the next line, if that line
  fits into \<^verbatim>\<open>maybe\<close>.\<close>

lemma next_end:
  assumes p: "parts g a gap b" and ok: "iter_ok a gap b it" and e: "iter_rest a gap b it = []"
  shows "\<exists>it'. GapBufferIter_next g it = Inr (None, it')"
proof (cases "crossed_gap it")
  case True
  then show ?thesis using next_crossed [OF p ok True] e by simp
next
  case False
  then have "drop (cur it) a = []" "b = []" using e by (auto simp: iter_rest_def)
  then show ?thesis using next_before [OF p ok False] by simp
qed

lemma next_line:
  assumes p: "parts g a gap b" and ok: "iter_ok a gap b it"
  defines "r \<equiv> iter_rest a gap b it"
  assumes ne: "r \<noteq> []" and short: "length (takeWhile (\<lambda>b. b \<noteq> 10) r) \<le> sizeof_maybe"
  shows "\<exists>l it'. GapBufferIter_next g it = Inr (Some l, it')
    \<and> line_bytes g it' l = Inr (takeWhile (\<lambda>b. b \<noteq> 10) r)
    \<and> iter_ok a gap b it' \<and> iter_rest a gap b it' = tl (dropWhile (\<lambda>b. b \<noteq> 10) r)"
proof (cases "crossed_gap it")
  case True
  let ?p = "\<lambda>b :: u8. b \<noteq> 10" let ?n = "length (takeWhile ?p r)"
  have r: "r = drop (cur it) (data g)" "total g = cur it + length r" "length (data g) = total g" "cur it \<le> total g"
    and rb: "r = drop (cur it - (length a + length gap)) b" "length a + length gap \<le> cur it"
      "length a + length gap + length b = total g"
    using p ok True by (auto simp: r_def iter_rest_def iter_ok_def parts_def)
  note nx = next_crossed [OF p ok True, folded r_def]
  have le: "?n \<le> length r" by (rule tw_le)
  have bytes: "line_bytes g it' (In_data (cur it), ?n) = Inr (takeWhile ?p r)" for it'
    using r le by (simp add: line_bytes_def chunk_def takeWhile_eq_take [symmetric])
  have rest: "drop (cur it + k - (length a + length gap)) b = drop k r" for k
    using rb by (simp add: add.commute)
  show ?thesis
  proof (cases "?n < length r")
    case True
    note d = takeWhile_short(1) [OF True]
    let ?it = "it\<lparr>mem := 0, cur := Suc (cur it + ?n)\<rparr>"
    have "GapBufferIter_next g it = Inr (Some (In_data (cur it), ?n), ?it)" using nx True by simp
    moreover have "iter_rest a gap b ?it = tl (dropWhile ?p r)"
      using rest [of "Suc ?n"] \<open>crossed_gap it\<close> by (simp add: iter_rest_def d)
    moreover have "iter_ok a gap b ?it"
      using ok \<open>crossed_gap it\<close> True r(2) rb by (simp add: iter_ok_def)
    ultimately show ?thesis using bytes by blast
  next
    case False
    then have n: "?n = length r" using le by simp
    then have "dropWhile ?p r = []" by (simp add: dropWhile_eq_drop)
    let ?it = "it\<lparr>mem := 0, cur := cur it + ?n\<rparr>"
    have "GapBufferIter_next g it = Inr (Some (In_data (cur it), ?n), ?it)" using nx n ne by simp
    moreover have "iter_rest a gap b ?it = tl (dropWhile ?p r)"
      unfolding \<open>dropWhile ?p r = []\<close> using rest [of ?n] \<open>crossed_gap it\<close> n by (simp add: iter_rest_def)
    moreover have "iter_ok a gap b ?it"
      using ok \<open>crossed_gap it\<close> n r(2) rb by (simp add: iter_ok_def)
    ultimately show ?thesis using bytes by blast
  qed
next
  case False
  let ?p = "\<lambda>b :: u8. b \<noteq> 10"
  define u where "u = drop (cur it) a"
  let ?n = "length (takeWhile ?p u)" and ?m = "length (takeWhile ?p b)"
  have r: "r = u @ b" using False by (simp add: r_def iter_rest_def u_def)
  have cur: "cur it \<le> length a" "length (maybe it) = sizeof_maybe" using ok False by (auto simp: iter_ok_def)
  have g: "data g = a @ gap @ b" using p by (simp add: parts_def)
  note nx = next_before [OF p ok False, folded u_def]
  show ?thesis
  proof (cases "?n < length u")
    case True
    note d = takeWhile_short [OF True]
    let ?it = "it\<lparr>mem := 0, cur := Suc (cur it + ?n)\<rparr>"
    have "GapBufferIter_next g it = Inr (Some (In_data (cur it), ?n), ?it)" using nx True by simp
    moreover have "line_bytes g ?it (In_data (cur it), ?n) = Inr (takeWhile ?p r)"
    proof -
      have "chunk (data g) (cur it) ?n = take ?n u"
        using cur True by (simp add: chunk_def g u_def)
      moreover have "cur it + ?n \<le> length (data g)" using True cur by (simp add: g u_def)
      ultimately show ?thesis
        using d(2) by (simp add: line_bytes_def r takeWhile_eq_take [symmetric])
    qed
    moreover have "iter_rest a gap b ?it = tl (dropWhile ?p r)"
      using False d by (simp add: iter_rest_def r u_def add.commute)
    moreover have "iter_ok a gap b ?it"
      using ok False True by (simp add: iter_ok_def u_def)
    ultimately show ?thesis by blast
  next
    case nl: False
    have uw: "takeWhile ?p u = u" by (rule takeWhile_full [OF nl])
    have n: "?n = length u" by (simp only: uw)
    have tr: "takeWhile ?p r = u @ takeWhile ?p b" and dr: "dropWhile ?p r = dropWhile ?p b"
      using uw by (auto simp: r takeWhile_eq_all_conv takeWhile_append dropWhile_append)
    have ch: "chunk (data g) (cur it) (length u) = u"
      "chunk (data g) (length a + length gap) ?m = takeWhile ?p b"
      using cur by (auto simp: chunk_def g u_def takeWhile_eq_take [of _ b, symmetric])
    have "length u + ?m \<le> sizeof_maybe" using short by (simp add: tr)
    then obtain mb where mb: "fill_maybe (maybe it) (data g) (cur it) (length u) (length a + length gap) ?m = Inr mb"
      "length mb = sizeof_maybe" "take (length u + ?m) mb = u @ takeWhile ?p b"
      using fill_maybe_short [OF cur(2), of u "takeWhile ?p b" "data g" "cur it" "length a + length gap"] ch by blast
    let ?it = "it\<lparr>mem := 0, crossed_gap := True, maybe := mb,
         cur := length a + length gap + (if ?m < length b then Suc ?m else ?m)\<rparr>"
    have "\<not> (?m = length b \<and> length u + ?m = 0)" using ne r by auto
    then have "GapBufferIter_next g it = Inr (Some (In_maybe, length u + ?m), ?it)"
      using nx mb(1) unfolding n by simp
    moreover have "line_bytes g ?it (In_maybe, length u + ?m) = Inr (takeWhile ?p r)"
      using mb short by (simp add: line_bytes_def chunk_def tr)
    moreover have "iter_rest a gap b ?it = tl (dropWhile ?p r)"
      using takeWhile_short(1) [of ?p b] tw_le [of ?p b] unfolding dr
      by (cases "?m < length b") (auto simp: iter_rest_def dropWhile_eq_drop)
    moreover have "iter_ok a gap b ?it"
      using mb(2) tw_le [of ?p b] by (auto simp: iter_ok_def)
    ultimately show ?thesis by blast
  qed
qed

lemma iter_yields_lines:
  assumes p: "parts g a gap b"
  shows "iter_ok a gap b it \<Longrightarrow> \<forall>l \<in> set (text_lines (iter_rest a gap b it)). length l \<le> sizeof_maybe
    \<Longrightarrow> iter_yields g it (text_lines (iter_rest a gap b it))"
proof (induction "iter_rest a gap b it" arbitrary: it rule: text_lines.induct)
  case 1
  show ?case
  proof (cases "iter_rest a gap b it = []")
    case True
    then obtain it' where "GapBufferIter_next g it = Inr (None, it')" using next_end [OF p] "1.prems" by blast
    then show ?thesis using True by (simp add: text_lines.simps [of "[]"] iter_yields.iter_end)
  next
    case False
    note ln = text_lines_step [OF False]
    from "1.prems"(2) have "length (takeWhile (\<lambda>b. b \<noteq> 10) (iter_rest a gap b it)) \<le> sizeof_maybe"
      by (simp add: ln)
    from next_line [OF p "1.prems"(1) False this] obtain l it' where it':
      "GapBufferIter_next g it = Inr (Some l, it')"
      "line_bytes g it' l = Inr (takeWhile (\<lambda>b. b \<noteq> 10) (iter_rest a gap b it))"
      "iter_ok a gap b it'" "iter_rest a gap b it' = tl (dropWhile (\<lambda>b. b \<noteq> 10) (iter_rest a gap b it))"
      by blast
    have "iter_yields g it' (text_lines (iter_rest a gap b it'))"
      using "1.hyps" [OF False it'(4)[symmetric] it'(3)] "1.prems"(2) by (simp add: ln it'(4))
    with it' show ?thesis unfolding ln by (auto intro: iter_yields.iter_line)
  qed
qed

text \<open>C23: The client loop over the line iterator ends, and the lines it reads are the lines of the
  text, in order, wherever the gap is, provided no line is longer than the 512 bytes of \<^verbatim>\<open>maybe\<close>.\<close>

theorem iterator_yields_text_lines:
  assumes "gb_inv g" "length (maybe it) = sizeof_maybe"
    "\<forall>l \<in> set (text_lines (gb_text g)). length l \<le> sizeof_maybe"
  shows "iter_yields g (GapBufferIter_init it) (text_lines (gb_text g))"
proof -
  from assms(1) obtain gap where p: "parts g (before_gap g) gap (after_gap g)" by (rule gb_inv_parts)
  let ?it = "GapBufferIter_init it"
  have "iter_ok (before_gap g) gap (after_gap g) ?it" "iter_rest (before_gap g) gap (after_gap g) ?it = gb_text g"
    using assms(2) by (simp_all add: iter_ok_def iter_rest_def GapBufferIter_init_def gb_text_def)
  with iter_yields_lines [OF p, of ?it] assms(3) show ?thesis by simp
qed

theorem iterator_yields_text_lines_witness:
  "\<exists>g. GapBuffer_createUsingMemory 8 (replicate 44 0) None = (Some g, [])
    \<and> (\<exists>g'. run_ops gb_step [Insert [97, 98, 10, 99, 10], Move_relative (- 4)] g = Inr ([True, True], g')
        \<and> iter_yields g' (GapBufferIter_init \<lparr>crossed_gap = True, cur = 3, mem = 1, maybe = replicate 512 0\<rparr>)
            [[97, 98], [99]])"
proof -
  let ?it = "\<lparr>crossed_gap = True, cur = 3, mem = 1, maybe = replicate 512 0\<rparr>"
  let ?g = "\<lparr>addr = 8, free_cb = None, gap_offset = 0, gap_length = 12, total = 12, data = replicate 12 0\<rparr>"
  let ?h = "\<lparr>addr = 8, free_cb = None, gap_offset = 1, gap_length = 7, total = 12,
    data = [97, 98, 10, 99, 10, 0, 0, 0, 98, 10, 99, 10]\<rparr>"
  have 1: "GapBuffer_createUsingMemory 8 (replicate 44 0) None = (Some ?g, [])" by code_simp
  have 2: "run_ops gb_step [Insert [97, 98, 10, 99, 10], Move_relative (- 4)] ?g = Inr ([True, True], ?h)" by code_simp
  have 3: "text_lines (gb_text ?h) = [[97, 98], [99]]" by code_simp
  have "iter_yields ?h (GapBufferIter_init ?it) (text_lines (gb_text ?h))"
    by (rule iterator_yields_text_lines) (unfold 3, simp_all add: gb_inv_def sizeof_maybe_def)
  with 1 2 3 show ?thesis by auto
qed

text \<open>The branch for a line longer than \<^verbatim>\<open>maybe\<close> is unsafe. When the line that crosses the gap is longer
  than 512 bytes, the step either writes outside \<^verbatim>\<open>maybe\<close> (the second copy starts at
  \<^verbatim>\<open>maybe + line_offset\<close> where \<^verbatim>\<open>maybe + line_length\<close> was meant) or hands out a line
  that extends past \<^verbatim>\<open>maybe\<close> (the length is not truncated), so that reading it is out of bounds.\<close>

theorem iterator_long_line_unsafe:
  assumes p: "gb_inv g" "\<not> crossed_gap it" "cur it \<le> gap_offset g" "length (maybe it) = sizeof_maybe"
    and nl: "\<forall>x \<in> set (drop (cur it) (before_gap g)). x \<noteq> 10"
    and long: "sizeof_maybe < length (drop (cur it) (before_gap g)) + length (takeWhile (\<lambda>b. b \<noteq> 10) (after_gap g))"
  shows "GapBufferIter_next g it = Inl Out_of_bounds
    \<or> (\<exists>l it'. GapBufferIter_next g it = Inr (Some l, it') \<and> line_bytes g it' l = Inl Out_of_bounds)"
proof -
  from p(1) obtain gap where pt: "parts g (before_gap g) gap (after_gap g)" by (rule gb_inv_parts)
  have ok: "iter_ok (before_gap g) gap (after_gap g) it"
    using p before_gap_length [OF p(1)] by (simp add: iter_ok_def)
  let ?u = "drop (cur it) (before_gap g)" and ?m = "length (takeWhile (\<lambda>b. b \<noteq> 10) (after_gap g))"
  have u: "takeWhile (\<lambda>b. b \<noteq> 10) ?u = ?u" using nl by (simp add: takeWhile_eq_all_conv)
  define f where "f = fill_maybe (maybe it) (data g) (cur it) (length ?u) (length (before_gap g) + length gap) ?m"
  have nz: "\<not> (?m = length (after_gap g) \<and> length ?u + ?m = 0)" using long by linarith
  have nx: "GapBufferIter_next g it = rbind f (\<lambda>mb.
      Inr (Some (In_maybe, length ?u + ?m), it\<lparr>mem := 0, crossed_gap := True, maybe := mb,
        cur := length (before_gap g) + length gap + (if ?m < length (after_gap g) then Suc ?m else ?m)\<rparr>))"
    using next_before [OF pt ok p(2)] unfolding u f_def by (simp only: if_not_P [OF nz] less_irrefl if_False)
  have "f = Inl Out_of_bounds \<or> (\<exists>mb. f = Inr mb \<and> length mb = sizeof_maybe)"
    using p(4) by (auto simp: f_def fill_maybe_def memcpy_def rbind_def)
  with nx long show ?thesis by (auto simp: line_bytes_def)
qed

theorem iterator_long_line_unsafe_witness:
  "let g = \<lparr>addr = 8, free_cb = None, gap_offset = 2, gap_length = 1, total = 603, data = [97, 10, 0] @ replicate 600 98\<rparr>;
       it = \<lparr>crossed_gap = False, cur = 2, mem = 0, maybe = replicate 512 0\<rparr>
   in gb_inv g \<and> (GapBufferIter_next g it = Inl Out_of_bounds
    \<or> (\<exists>l it'. GapBufferIter_next g it = Inr (Some l, it') \<and> line_bytes g it' l = Inl Out_of_bounds))"
proof -
  let ?g = "\<lparr>addr = 8, free_cb = None, gap_offset = 2, gap_length = 1, total = 603, data = [97, 10, 0] @ replicate 600 98\<rparr>"
  let ?it = "\<lparr>crossed_gap = False, cur = 2, mem = 0, maybe = replicate 512 0\<rparr>"
  have g: "gb_inv ?g" by (simp add: gb_inv_def)
  have "GapBufferIter_next ?g ?it = Inl Out_of_bounds
    \<or> (\<exists>l it'. GapBufferIter_next ?g ?it = Inr (Some l, it') \<and> line_bytes ?g it' l = Inl Out_of_bounds)"
    by (rule iterator_long_line_unsafe [OF g])
      (simp_all add: sizeof_maybe_def before_gap_def after_gap_def takeWhile_eq_all_conv [THEN iffD2])
  with g show ?thesis by (simp add: Let_def)
qed

subsection \<open>Cloning and relocation\<close>

lemma insertBytesBeforeCursor_full:
  "length str > gap_length g \<Longrightarrow> insertBytesBeforeCursor g str = Inr (False, g)"
  "length str > gap_length g \<Longrightarrow> insertBytesAfterCursor g str = Inr (False, g)"
  by (simp_all add: insertBytesBeforeCursor_def insertBytesAfterCursor_def)

text \<open>A clone into a region with room for the text has the same text before and after its cursor, whatever the sizes of the two
  gaps; into a region that is too small for the text no clone is returned and the region is handed to the callback once.\<close>

theorem clone_keeps_text:
  assumes "gb_inv src" "base \<noteq> 0" "padding base + sizeof_GapBuffer \<le> length region"
  defines "room \<equiv> length region - padding base - sizeof_GapBuffer"
  shows "if getByteCount src \<le> room
    then \<exists>g. GapBuffer_cloneUsingMemory base region free src = Inr (Some g, []) \<and> gb_inv g \<and> total g = room
      \<and> before_gap g = before_gap src \<and> after_gap g = after_gap src
    else \<exists>p. GapBuffer_cloneUsingMemory base region free src = Inr (None, call_free free p)"
proof -
  obtain c where c: "GapBuffer_createUsingMemory base region free = (Some c, [])" "parts c [] (data c) []"
    "total c = room" "free_cb c = free"
    using createUsingMemory_Some [OF assms(2,3)] unfolding room_def by blast
  let ?a = "before_gap src" and ?b = "after_gap src"
  have len: "length (data c) = room" "gap_length c = room" using c by (auto simp: parts_def)
  have cnt: "getByteCount src = length ?a + length ?b"
    using before_gap_length [OF assms(1)] after_gap_length [OF assms(1)] gb_invD [OF assms(1)]
    by (simp add: getByteCount_def)
  note str = getStringBeforeGap_eq getStringAfterGap_eq [OF assms(1)]
  show ?thesis
  proof (cases "length ?a \<le> room")
    case False
    then show ?thesis
      using c len cnt
      by (auto simp: GapBuffer_cloneUsingMemory_def str insertBytesBeforeCursor_full GapBuffer_destroy_def)
  next
    case True
    then obtain c1 where c1: "insertBytesBeforeCursor c ?a = Inr (True, c1)"
      "parts c1 ?a (drop (length ?a) (data c)) []" "free_cb c1 = free"
      using insertBytesBeforeCursor_parts [OF c(2), of ?a] len c(4) by auto
    have gl: "gap_length c1 = room - length ?a" using c1(2) len by (simp add: parts_def)
    show ?thesis
    proof (cases "length ?a + length ?b \<le> room")
      case True
      then have le: "length ?b \<le> length (drop (length ?a) (data c))" using len by simp
      from insertBytesAfterCursor_parts [OF c1(2) le] obtain c2 where
        c2: "insertBytesAfterCursor c1 ?b = Inr (True, c2)"
        "parts c2 ?a (take (length (drop (length ?a) (data c)) - length ?b) (drop (length ?a) (data c))) (?b @ [])"
        by blast
      then have "total c2 = room" using True len by (simp add: parts_def)
      with c c1 c2 True cnt parts_inv [OF c2(2)] show ?thesis
        by (simp add: GapBuffer_cloneUsingMemory_def str)
    next
      case False
      then have "insertBytesAfterCursor c1 ?b = Inr (False, c1)"
        using gl True by (intro insertBytesBeforeCursor_full(2)) simp
      then show ?thesis
        using c c1 cnt False by (auto simp: GapBuffer_cloneUsingMemory_def str GapBuffer_destroy_def)
    qed
  qed
qed

text \<open>\<^verbatim>\<open>GapBuffer_insertStringMaybeRelocate\<close> loses the text. When a valid string does not fit the
  gap and the allocation of the new buffer succeeds, the call reports success, the old
  buffer is destroyed, and the buffer the caller is left with contains the new string only.\<close>

theorem relocation_loses_text:
  assumes "gb_inv g" "isValidUTF8 str" "gap_length g < length str"
    and m: "malloc (sizeof_GapBuffer + (getByteCount g + length str)) = Some (base, region)"
    "length region = sizeof_GapBuffer + (getByteCount g + length str)" "base \<noteq> 0" "base AND 7 = 0"
  shows "\<exists>g'. GapBuffer_insertStringMaybeRelocate malloc libc_free g str = Inr (True, g', GapBuffer_destroy g)
    \<and> before_gap g' = str \<and> after_gap g' = []"
proof -
  have "padding base = 0"
  proof -
    have "take_bit 3 base = 0" using m(4) by (simp add: take_bit_eq_mask mask_eq_exp_minus_1)
    then have "take_bit 3 (- base) = 0" by (simp only: take_bit_eq_0_iff dvd_minus_iff)
    then show ?thesis by (simp add: padding_def alignof_GapBuffer_def take_bit_eq_mask mask_eq_exp_minus_1)
  qed
  then obtain c where c: "GapBuffer_createUsingMemory base region (Some libc_free) = (Some c, [])"
    "parts c [] (data c) []" "total c = getByteCount g + length str"
    using createUsingMemory_Some [OF m(3), of region "Some libc_free"] m(2) by auto
  then have "length str \<le> length (data c)" by (simp add: parts_def)
  then obtain g' where g': "insertBytesBeforeCursor c str = Inr (True, g')" "parts g' str (drop (length str) (data c)) []"
    using insertBytesBeforeCursor_parts [OF c(2), of str] by auto
  have "GapBuffer_insertString g str = Inr (False, g)"
    using assms(2,3) by (simp add: GapBuffer_insertString_def insertBytesBeforeCursor_full)
  then show ?thesis
    using c g' m(1) assms(2) parts_inv [OF g'(2)]
    by (simp add: GapBuffer_insertStringMaybeRelocate_def GapBuffer_create_def GapBuffer_insertString_def)
qed

theorem clone_keeps_text_witness:
  "let src = \<lparr>addr = 8, free_cb = None, gap_offset = 1, gap_length = 1, total = 3, data = [97, 0, 98]\<rparr>
   in (\<exists>g. GapBuffer_cloneUsingMemory 9 (replicate 43 0) (Some 1) src = Inr (Some g, []) \<and> gb_inv g \<and> total g = 4
      \<and> before_gap g = [97] \<and> after_gap g = [98])"
proof -
  let ?src = "\<lparr>addr = 8, free_cb = None, gap_offset = 1, gap_length = 1, total = 3, data = [97, 0, 98]\<rparr>"
  have u: "padding 9 = 7" by code_simp
  have "gb_inv ?src" "(9 :: u64) \<noteq> 0"
    "padding 9 + sizeof_GapBuffer \<le> length (replicate 43 (0 :: u8))"
    by (simp_all add: gb_inv_def u sizeof_GapBuffer_def)
  from clone_keeps_text [OF this, of "Some 1"] show ?thesis
    by (simp add: u sizeof_GapBuffer_def getByteCount_def before_gap_def after_gap_def)
qed

theorem relocation_loses_text_witness:
  "let g = \<lparr>addr = 8, free_cb = None, gap_offset = 1, gap_length = 0, total = 1, data = [97]\<rparr>
   in \<exists>g'. GapBuffer_insertStringMaybeRelocate (\<lambda>n. Some (16, replicate n 0)) 1 g [98] = Inr (True, g', GapBuffer_destroy g)
    \<and> before_gap g' = [98] \<and> after_gap g' = []"
proof -
  let ?g = "\<lparr>addr = 8, free_cb = None, gap_offset = 1, gap_length = 0, total = 1, data = [97]\<rparr>"
  have "isValidUTF8 [98]" by code_simp
  then have "\<exists>g'. GapBuffer_insertStringMaybeRelocate (\<lambda>n. Some (16, replicate n 0)) 1 ?g [98] = Inr (True, g', GapBuffer_destroy ?g)
    \<and> before_gap g' = [98] \<and> after_gap g' = []"
    by (intro relocation_loses_text [where base = 16 and region = "replicate (sizeof_GapBuffer + (getByteCount ?g + length [98 :: u8])) 0"])
      (simp_all add: gb_inv_def)
  then show ?thesis by (simp add: Let_def)
qed

end
