(* ===== verification/Bits.thy ===== *)
theory Bits
  imports Prelude
begin

section \<open>Bit utilities and byte order (\<^verbatim>\<open>bits/bits.c\<close>, \<^verbatim>\<open>bits/endian.c\<close>)\<close>

text \<open>
  \<open>find_first_set_bit\<close> and \<open>is_pow2\<close> on 64-bit words, and the conversions between network and
  CPU byte order. The byte order of the machine is the parameter \<open>le\<close> (true on a
  little-endian machine); \<open>store_u16\<close> and the like say how such a machine lays a word out in
  memory, which is what \<open>cpu_is_little_endian\<close> inspects. The scan for the lowest set bit is
  also the heart of the buddy allocator, which reuses the lemmas of this theory.
\<close>

subsection \<open>Definitions: \<^verbatim>\<open>bits.c\<close>\<close>

text \<open>The 256-entry table: the logarithm at every power of two, zero elsewhere.\<close>

definition log2_table :: "nat list" where
  "log2_table =
     [0, 0, 1, 0, 2, 0, 0, 0, 3] @ replicate 7 0 @ [4] @ replicate 15 0 @ [5] @ replicate 31 0
     @ [6] @ replicate 63 0 @ [7] @ replicate 127 0"

text \<open>One step of the binary search: \<^verbatim>\<open>temp = z >> m; if (temp) { index += m; z = temp; }\<close>.\<close>

definition halve :: "nat \<Rightarrow> int \<times> u64 \<Rightarrow> int \<times> u64" where
  "halve m s = (let temp = drop_bit m (snd s) in if temp \<noteq> 0 then (fst s + int m, temp) else s)"

definition find_first_set_bit :: "u64 \<Rightarrow> int res" where
  "find_first_set_bit bits =
     (if bits = 0 then Inr (- 1)
      else
        let bits_no_rightmost = bits AND (bits - 1);
            bits_only_rightmost = bits - bits_no_rightmost;
            (index, z) = halve 8 (halve 16 (halve 32 (0, bits_only_rightmost)))
        in rbind (rd log2_table (unat z)) (\<lambda>t. Inr (index + int t)))"

definition is_pow2 :: "u64 \<Rightarrow> bool" where
  "is_pow2 n \<longleftrightarrow> n AND (n - 1) = 0"

subsection \<open>Definitions: \<^verbatim>\<open>endian.c\<close>\<close>

definition store_u16 :: "bool \<Rightarrow> u16 \<Rightarrow> u8 list" where
  "store_u16 le x = (let b = [ucast x, ucast (drop_bit 8 x)] in if le then b else rev b)"

definition store_u32 :: "bool \<Rightarrow> u32 \<Rightarrow> u8 list" where
  "store_u32 le x =
     (let b = [ucast x, ucast (drop_bit 8 x), ucast (drop_bit 16 x), ucast (drop_bit 24 x)]
      in if le then b else rev b)"

definition cpu_is_little_endian :: "bool \<Rightarrow> bool" where
  "cpu_is_little_endian le \<longleftrightarrow> hd (store_u16 le 1) \<noteq> 0"

definition invert_byte_order_u16 :: "u16 \<Rightarrow> u16" where
  "invert_byte_order_u16 n = drop_bit 8 n OR push_bit 8 n"

definition invert_byte_order_u32 :: "u32 \<Rightarrow> u32" where
  "invert_byte_order_u32 n =
     (drop_bit 24 n AND 0x000000FF) OR (drop_bit 8 n AND 0x0000FF00)
     OR (push_bit 8 n AND 0x00FF0000) OR (push_bit 24 n AND 0xFF000000)"

definition net_to_cpu_u16 :: "bool \<Rightarrow> u16 \<Rightarrow> u16" where
  "net_to_cpu_u16 le n = (if cpu_is_little_endian le then invert_byte_order_u16 n else n)"

definition net_to_cpu_u32 :: "bool \<Rightarrow> u32 \<Rightarrow> u32" where
  "net_to_cpu_u32 le n = (if cpu_is_little_endian le then invert_byte_order_u32 n else n)"

definition cpu_to_net_u16 :: "bool \<Rightarrow> u16 \<Rightarrow> u16" where
  "cpu_to_net_u16 le n = (if cpu_is_little_endian le then invert_byte_order_u16 n else n)"

definition cpu_to_net_u32 :: "bool \<Rightarrow> u32 \<Rightarrow> u32" where
  "cpu_to_net_u32 le n = (if cpu_is_little_endian le then invert_byte_order_u32 n else n)"

subsection \<open>The lowest set bit\<close>

text \<open>The three halving steps and the table, on a word that is a power of two.\<close>

lemma drop_bit_pow2:
  "n < LENGTH('a) \<Longrightarrow> drop_bit m (2 ^ n :: 'a::len word) = (if m \<le> n then 2 ^ (n - m) else 0)"
  by (rule bit_word_eqI) (auto simp: bit_simps)

lemma log2_table_pow2: "k < 8 \<Longrightarrow> rd log2_table (2 ^ k) = Inr k"
proof -
  assume "k < 8"
  then have "k \<in> {0, 1, 2, 3, 4, 5, 6, 7}" by auto
  then show ?thesis
    by (auto simp: rd_def log2_table_def nth_append nth_Cons')
qed

lemma halve_pow2:
  assumes "n < 64"
  shows "halve m (i, 2 ^ n) = (if m \<le> n then (i + int m, 2 ^ (n - m)) else (i, 2 ^ n))"
proof -
  have "(2 ^ (n - m) :: u64) \<noteq> 0" using assms by (simp add: pow2_word_neq_0)
  with assms show ?thesis
    by (simp only: halve_def Let_def fst_conv snd_conv drop_bit_pow2 len_num1 len_bit0 len_bit1
        mult_Suc_right) (simp add: drop_bit_pow2)
qed

lemma find_first_set_bit_scan:
  assumes "n < 64"
  shows "(case halve 8 (halve 16 (halve 32 (0, 2 ^ n))) of
            (index, z) \<Rightarrow> rbind (rd log2_table (unat z)) (\<lambda>t. Inr (index + int t))) = Inr (int n)"
proof -
  have step: "\<exists>b j. halve m (i, 2 ^ a) = (j, 2 ^ b) \<and> b < m \<and> j + int b = i + int a"
    if "a < 2 * m" "a < 64" for i a m
    using that by (cases "m \<le> a") (auto simp: halve_pow2 intro!: exI [of _ "a - m"])
  from step [of n 32 0] assms obtain a i
    where a: "halve 32 (0, 2 ^ n) = (i, 2 ^ a)" "a < 32" "i + int a = int n" by auto
  from step [of a 16 i] a obtain b j
    where b: "halve 16 (i, 2 ^ a) = (j, 2 ^ b)" "b < 16" "j + int b = int n" by auto
  from step [of b 8 j] b obtain c k
    where c: "halve 8 (j, 2 ^ b) = (k, 2 ^ c)" "c < 8" "k + int c = int n" by auto
  from c(2) have "unat (2 ^ c :: u64) = 2 ^ c" by (simp add: unat_pow2)
  with a(1) b(1) c log2_table_pow2 [of c] show ?thesis by (simp only: prod.case rbind_Inr)
qed

text \<open>The contract of the scan: the index of the lowest set bit, and never a read outside the
  table.\<close>

definition lowest_set :: "u64 \<Rightarrow> nat \<Rightarrow> bool" where
  "lowest_set x n \<longleftrightarrow> bit x n \<and> (\<forall>m<n. \<not> bit x m)"

lemma lowest_set_unique: "lowest_set x n \<Longrightarrow> lowest_set x m \<Longrightarrow> n = m"
  unfolding lowest_set_def by (metis linorder_neqE_nat)

lemma find_first_set_bit_lowest:
  assumes "x \<noteq> 0"
  shows "\<exists>n. lowest_set x n \<and> find_first_set_bit x = Inr (int n)"
proof -
  obtain n where n: "n < 64" "bit x n" "\<forall>m<n. \<not> bit x m" "x - (x AND (x - 1)) = 2 ^ n"
    by (rule lowest_bit_decomp [OF assms]) simp
  then have "find_first_set_bit x = Inr (int n)"
    using assms find_first_set_bit_scan [OF n(1)] by (simp add: find_first_set_bit_def)
  with n show ?thesis by (auto simp: lowest_set_def)
qed

lemma find_first_set_bit_pow2:
  assumes "n < 64"
  shows "find_first_set_bit (2 ^ n) = Inr (int n)"
proof -
  have "lowest_set (2 ^ n) n" using assms by (auto simp: lowest_set_def bit_simps)
  moreover obtain k where "lowest_set (2 ^ n) k" "find_first_set_bit (2 ^ n) = Inr (int k)"
    using find_first_set_bit_lowest [OF pow2_word_neq_0, of n] assms by auto
  ultimately show ?thesis using lowest_set_unique by blast
qed

subsection \<open>Powers of two\<close>

lemma and_minus_1_eq_0_iff:
  "x AND (x - 1) = (0 :: 'a::len word) \<longleftrightarrow> x = 0 \<or> (\<exists>n<LENGTH('a). x = 2 ^ n)"
proof (cases "x = 0")
  case False
  then obtain n where n: "n < LENGTH('a)" "bit x n" "x - (x AND (x - 1)) = 2 ^ n"
    by (rule lowest_bit_decomp)
  show ?thesis
  proof
    assume "x AND (x - 1) = 0"
    with n show "x = 0 \<or> (\<exists>n<LENGTH('a). x = 2 ^ n)" by auto
  next
    assume "x = 0 \<or> (\<exists>n<LENGTH('a). x = 2 ^ n)"
    with False obtain m where m: "m < LENGTH('a)" "x = 2 ^ m" by auto
    with n(2) have "n = m" by (simp add: bit_simps)
    with n(3) m show "x AND (x - 1) = 0" by simp
  qed
qed simp

text \<open>The bit scan of bits.c returns, for every word, \<open>-1\<close> when no bit is set and otherwise
  the index of the lowest set bit; it never indexes its table out of range.\<close>

theorem find_first_set_bit_correct:
  "find_first_set_bit x = Inr r \<longleftrightarrow>
     (if x = 0 then r = - 1 else \<exists>n<64. r = int n \<and> lowest_set x n)"
proof (cases "x = 0")
  case True
  then show ?thesis by (auto simp: find_first_set_bit_def)
next
  case False
  then obtain n where n: "lowest_set x n" "find_first_set_bit x = Inr (int n)"
    using find_first_set_bit_lowest by blast
  then have "n < 64" using bit_imp_le_length [of x n] by (simp add: lowest_set_def)
  moreover have "m = n" if "lowest_set x m" for m
    using that n(1) by (rule lowest_set_unique)
  ultimately show ?thesis
    using n False by (metis sum.inject(2))
qed

text \<open>\<open>is_pow2\<close> accepts exactly zero and the powers of two.\<close>

theorem is_pow2_iff: "is_pow2 x \<longleftrightarrow> x = 0 \<or> (\<exists>n<64. x = 2 ^ n)"
  using and_minus_1_eq_0_iff [of x] by (simp add: is_pow2_def)

subsection \<open>Byte order\<close>

lemma cpu_is_little_endian_eq [simp]: "cpu_is_little_endian le = le"
  by (simp add: cpu_is_little_endian_def store_u16_def Let_def)

lemma invert_u16_bytes:
  "ucast (invert_byte_order_u16 x) = (ucast (drop_bit 8 x) :: u8)"
  "ucast (drop_bit 8 (invert_byte_order_u16 x)) = (ucast x :: u8)"
  by (rule bit_word_eqI; auto simp: invert_byte_order_u16_def bit_simps)+

lemma invert_u16_involution: "invert_byte_order_u16 (invert_byte_order_u16 x) = x"
proof (rule bit_word_eqI)
  fix n assume "n < LENGTH(16)"
  then show "bit (invert_byte_order_u16 (invert_byte_order_u16 x)) n = bit x n"
    by (cases "n < 8") (auto simp: invert_byte_order_u16_def bit_simps)
qed

text \<open>The masks of the 32-bit swap select one byte each.\<close>

lemma byte_masks:
  "(0x000000FF :: u32) = mask 8" "(0x0000FF00 :: u32) = push_bit 8 (mask 8)"
  "(0x00FF0000 :: u32) = push_bit 16 (mask 8)" "(0xFF000000 :: u32) = push_bit 24 (mask 8)"
  by (simp_all add: mask_eq_exp_minus_1 push_bit_eq_mult)

lemmas invert_u32_bits = invert_byte_order_u32_def byte_masks bit_simps

lemma invert_u32_bytes:
  "ucast (invert_byte_order_u32 x) = (ucast (drop_bit 24 x) :: u8)"
  "ucast (drop_bit 8 (invert_byte_order_u32 x)) = (ucast (drop_bit 16 x) :: u8)"
  "ucast (drop_bit 16 (invert_byte_order_u32 x)) = (ucast (drop_bit 8 x) :: u8)"
  "ucast (drop_bit 24 (invert_byte_order_u32 x)) = (ucast x :: u8)"
  subgoal by (rule bit_word_eqI) (auto simp: invert_u32_bits)
  subgoal by (rule bit_word_eqI) (auto simp: invert_u32_bits)
  subgoal by (rule bit_word_eqI) (auto simp: invert_u32_bits)
  subgoal by (rule bit_word_eqI) (auto simp: invert_u32_bits)
  done

lemma u32_bytes_eqI:
  fixes x y :: u32
  assumes "(ucast x :: u8) = ucast y" "(ucast (drop_bit 8 x) :: u8) = ucast (drop_bit 8 y)"
    "(ucast (drop_bit 16 x) :: u8) = ucast (drop_bit 16 y)"
    "(ucast (drop_bit 24 x) :: u8) = ucast (drop_bit 24 y)"
  shows "x = y"
proof (rule bit_word_eqI)
  fix n assume n: "n < LENGTH(32)"
  have byte: "bit x (m + k) = bit y (m + k)"
    if "(ucast (drop_bit m x) :: u8) = ucast (drop_bit m y)" "k < 8" for m k
    using that by (simp add: bit_eq_iff [of "ucast (drop_bit m x) :: u8"] bit_simps)
  consider "n < 8" | "8 \<le> n" "n < 16" | "16 \<le> n" "n < 24" | "24 \<le> n" by linarith
  then show "bit x n = bit y n"
    using byte [of 0 n] byte [of 8 "n - 8"] byte [of 16 "n - 16"] byte [of 24 "n - 24"] assms n
    by cases auto
qed

lemma invert_u32_involution: "invert_byte_order_u32 (invert_byte_order_u32 x) = x"
  by (rule u32_bytes_eqI) (simp_all add: invert_u32_bytes)

text \<open>On both kinds of machine, a word converted to network order is laid out in memory most
  significant byte first, and converting back from network order gives the word again, for 16
  and for 32 bits.\<close>

theorem network_order_roundtrip:
  "store_u16 le (cpu_to_net_u16 le x) = [ucast (drop_bit 8 x), ucast x]
   \<and> store_u32 le (cpu_to_net_u32 le y)
       = [ucast (drop_bit 24 y), ucast (drop_bit 16 y), ucast (drop_bit 8 y), ucast y]
   \<and> net_to_cpu_u16 le (cpu_to_net_u16 le x) = x
   \<and> net_to_cpu_u32 le (cpu_to_net_u32 le y) = y"
  by (simp add: cpu_to_net_u16_def cpu_to_net_u32_def net_to_cpu_u16_def net_to_cpu_u32_def
      store_u16_def store_u32_def Let_def invert_u16_bytes invert_u16_involution
      invert_u32_bytes invert_u32_involution)

end
