(* ===== verification/Fifo.thy ===== *)
theory Fifo
  imports Prelude
begin

section \<open>The queue interface\<close>

text \<open>
  What a client of a bounded first-in first-out queue relies on, shared by the byte queue of the TCP
  wrapper and the single-producer single-consumer queue. A queue state has a \<open>contents\<close>
  list and a capacity; \<open>fits s n\<close> says that \<open>n\<close> more elements can be counted before the position counters of the queue
  run out. Whatever is pushed comes out again in the same order, over any schedule of pushes
  and pops that never overfills or overdraws the queue.
\<close>

datatype 'a fifo_op = Push "'a list" | Pop nat

fun feasible :: "nat \<Rightarrow> nat \<Rightarrow> 'a fifo_op list \<Rightarrow> bool" where
  "feasible c k [] \<longleftrightarrow> True"
| "feasible c k (Push xs # ops) \<longleftrightarrow> k + length xs \<le> c \<and> feasible c (k + length xs) ops"
| "feasible c k (Pop n # ops) \<longleftrightarrow> n \<le> k \<and> feasible c (k - n) ops"

fun pushed :: "'a fifo_op list \<Rightarrow> 'a list" where
  "pushed [] = []"
| "pushed (Push xs # ops) = xs @ pushed ops"
| "pushed (Pop n # ops) = pushed ops"

text \<open>Running a schedule; a refused push or pop is a failure of the run (\<open>None\<close>). The result is
  everything that was popped.\<close>

fun fifo_run ::
    "('a list \<Rightarrow> 's \<Rightarrow> (bool \<times> 's) res) \<Rightarrow> (nat \<Rightarrow> 's \<Rightarrow> ('a list option \<times> 's) res)
     \<Rightarrow> 'a fifo_op list \<Rightarrow> 's \<Rightarrow> ('a list option \<times> 's) res" where
  "fifo_run push pop [] s = Inr (Some [], s)"
| "fifo_run push pop (Push xs # ops) s =
     rbind (push xs s) (\<lambda>(ok, s). if ok then fifo_run push pop ops s else Inr (None, s))"
| "fifo_run push pop (Pop n # ops) s =
     rbind (pop n s) (\<lambda>(r, s). case r of None \<Rightarrow> Inr (None, s)
       | Some xs \<Rightarrow> rbind (fifo_run push pop ops s) (\<lambda>(r, s). Inr (map_option (\<lambda>ys. xs @ ys) r, s)))"

locale bounded_fifo =
  fixes inv :: "'s \<Rightarrow> bool"
    and cap :: "'s \<Rightarrow> nat"
    and contents :: "'s \<Rightarrow> 'a list"
    and fits :: "'s \<Rightarrow> nat \<Rightarrow> bool"
    and push :: "'a list \<Rightarrow> 's \<Rightarrow> (bool \<times> 's) res"
    and pop :: "nat \<Rightarrow> 's \<Rightarrow> ('a list option \<times> 's) res"
    and good :: "'a \<Rightarrow> bool"
  assumes push_ok: "inv s \<Longrightarrow> \<forall>x \<in> set xs. good x \<Longrightarrow> length (contents s) + length xs \<le> cap s \<Longrightarrow>
      fits s (length xs + n) \<Longrightarrow>
      \<exists>s'. push xs s = Inr (True, s') \<and> inv s' \<and> cap s' = cap s \<and> contents s' = contents s @ xs \<and> fits s' n"
    and pop_ok: "inv s \<Longrightarrow> n \<le> length (contents s) \<Longrightarrow> fits s m \<Longrightarrow>
      \<exists>s'. pop n s = Inr (Some (take n (contents s)), s') \<and> inv s' \<and> cap s' = cap s
        \<and> contents s' = drop n (contents s) \<and> fits s' m"
begin

lemma fifo_order:
  assumes "inv s" "\<forall>x \<in> set (pushed ops). good x" "feasible (cap s) (length (contents s)) ops"
    and "fits s (length (pushed ops))"
  shows "\<exists>out s'. fifo_run push pop ops s = Inr (Some out, s') \<and> inv s' \<and> cap s' = cap s
    \<and> out @ contents s' = contents s @ pushed ops"
  using assms
proof (induction ops arbitrary: s rule: pushed.induct)
  case 1
  then show ?case by simp
next
  case (2 xs ops)
  have "\<exists>s'. push xs s = Inr (True, s') \<and> inv s' \<and> cap s' = cap s \<and> contents s' = contents s @ xs
    \<and> fits s' (length (pushed ops))"
    by (rule push_ok) (use "2.prems" in auto)
  then obtain s1 where "push xs s = Inr (True, s1)" "inv s1" "cap s1 = cap s" "contents s1 = contents s @ xs"
    "fits s1 (length (pushed ops))" by blast
  with "2.IH" [of s1] "2.prems" show ?case by auto
next
  case (3 n ops)
  have "\<exists>s'. pop n s = Inr (Some (take n (contents s)), s') \<and> inv s' \<and> cap s' = cap s
        \<and> contents s' = drop n (contents s) \<and> fits s' (length (pushed ops))"
    by (rule pop_ok) (use "3.prems" in auto)
  then obtain s1 where s1: "pop n s = Inr (Some (take n (contents s)), s1)" "inv s1" "cap s1 = cap s"
    "contents s1 = drop n (contents s)" "fits s1 (length (pushed ops))" by blast
  with "3.prems" have "feasible (cap s1) (length (contents s1)) ops" by simp
  with "3.IH" [of s1] "3.prems" s1 obtain out s2 where s2: "fifo_run push pop ops s1 = Inr (Some out, s2)"
    "inv s2" "cap s2 = cap s" "out @ contents s2 = contents s1 @ pushed ops" by auto
  have "take n (contents s) @ out @ contents s2 = contents s @ pushed ops"
    unfolding s2(4) s1(4) by (metis append.assoc append_take_drop_id)
  with s1(1) s2 show ?case by simp
qed

end

end
