(* ===== verification/ByteQueue.thy ===== *)
theory ByteQueue
  imports Fifo
begin

section \<open>The byte queue (\<^verbatim>\<open>tcp/byte_queue.c\<close>)\<close>

text \<open>
  A growing buffer with a read position. A client that wants to write calls
  \<open>byte_queue_ensure_min_free_space\<close>, writes at the pointer of \<open>byte_queue_start_write\<close>
  and reports what it wrote with \<open>byte_queue_end_write\<close>; reading is symmetrical. Pointers into
  the buffer are offsets, a null \<^verbatim>\<open>data\<close> is \<open>None\<close>, and the subtractions of \<^verbatim>\<open>size_t\<close> values wrap
  (\<open>size_sub\<close>). \<open>malloc\<close> maps a size to the contents of a fresh region, or to nothing.
\<close>

subsection \<open>Definitions\<close>

record byte_queue =
  data :: "u8 list option"
  head :: nat
  size :: nat
  capacity :: nat

definition byte_queue_init :: byte_queue where
  "byte_queue_init = \<lparr>data = None, head = 0, size = 0, capacity = 0\<rparr>"

text \<open>\<^verbatim>\<open>free(q->data)\<close>: the buffer is gone, the pointer and the counters stay as they are.\<close>

definition byte_queue_free :: "byte_queue \<Rightarrow> u8 list option" where
  "byte_queue_free q = data q"

definition byte_queue_used_space :: "byte_queue \<Rightarrow> nat" where
  "byte_queue_used_space q = size q"

definition byte_queue_free_space :: "byte_queue \<Rightarrow> nat" where
  "byte_queue_free_space q = size_sub (size_sub (capacity q) (size q)) (head q)"

definition byte_queue_ensure_min_free_space ::
    "(nat \<Rightarrow> u8 list option) \<Rightarrow> byte_queue \<Rightarrow> nat \<Rightarrow> (bool \<times> byte_queue) res" where
  "byte_queue_ensure_min_free_space malloc q num =
     (let total_free_space = size_sub (capacity q) (size q);
          free_space_after_data = size_sub (size_sub (capacity q) (size q)) (head q)
      in if free_space_after_data < num then
           (if total_free_space < num then
              let cap = 2 * capacity q mod 2 ^ 64;
                  cap = (if size_sub cap (size q) < num then (size q + num) mod 2 ^ 64 else cap)
              in case malloc cap of
                   None \<Rightarrow> Inr (False, q)
                 | Some new \<Rightarrow>
                     rbind (if size q > 0 then
                              (case data q of
                                 None \<Rightarrow> Inl Null_pointer
                               | Some d \<Rightarrow>
                                   if head q + size q \<le> length d then memcpy new 0 (chunk d (head q) (size q))
                                   else Inl Out_of_bounds)
                            else Inr new)
                       (\<lambda>new. Inr (True, q\<lparr>data := Some new, capacity := cap\<rparr>))
            else
              (case data q of
                 None \<Rightarrow> Inl Null_pointer
               | Some d \<Rightarrow> rbind (memmove d 0 (head q) (size q)) (\<lambda>d. Inr (True, q\<lparr>data := Some d, head := 0\<rparr>))))
         else Inr (True, q))"

definition byte_queue_start_write :: "byte_queue \<Rightarrow> nat" where
  "byte_queue_start_write q = head q + size q"

definition byte_queue_end_write :: "byte_queue \<Rightarrow> nat \<Rightarrow> byte_queue" where
  "byte_queue_end_write q num = q\<lparr>size := size q + num\<rparr>"

definition byte_queue_start_read :: "byte_queue \<Rightarrow> nat" where
  "byte_queue_start_read q = head q"

definition byte_queue_end_read :: "byte_queue \<Rightarrow> nat \<Rightarrow> byte_queue" where
  "byte_queue_end_read q num = q\<lparr>head := head q + num, size := size_sub (size q) num\<rparr>"

text \<open>A client that writes a string, and one that reads \<open>n\<close> bytes, following the protocol above.\<close>

definition bq_write :: "(nat \<Rightarrow> u8 list option) \<Rightarrow> u8 list \<Rightarrow> byte_queue \<Rightarrow> (bool \<times> byte_queue) res" where
  "bq_write malloc bs q =
     rbind (byte_queue_ensure_min_free_space malloc q (length bs)) (\<lambda>(ok, q).
       if \<not> ok then Inr (False, q)
       else case data q of
           None \<Rightarrow> if bs = [] then Inr (True, q) else Inl Null_pointer
         | Some d \<Rightarrow> rbind (memcpy d (byte_queue_start_write q) bs) (\<lambda>d.
             Inr (True, byte_queue_end_write (q\<lparr>data := Some d\<rparr>) (length bs))))"

definition bq_read :: "nat \<Rightarrow> byte_queue \<Rightarrow> (u8 list option \<times> byte_queue) res" where
  "bq_read n q =
     (if byte_queue_used_space q < n then Inr (None, q)
      else case data q of
          None \<Rightarrow> if n = 0 then Inr (Some [], q) else Inl Null_pointer
        | Some d \<Rightarrow>
            if byte_queue_start_read q + n \<le> length d
            then Inr (Some (chunk d (byte_queue_start_read q) n), byte_queue_end_read q n)
            else Inl Out_of_bounds)"

subsection \<open>Invariant and contents\<close>

definition bq_inv :: "byte_queue \<Rightarrow> bool" where
  "bq_inv q \<longleftrightarrow> (case data q of None \<Rightarrow> capacity q = 0 | Some d \<Rightarrow> length d = capacity q)
     \<and> head q + size q \<le> capacity q \<and> capacity q < 2 ^ 63"

definition bq_contents :: "byte_queue \<Rightarrow> u8 list" where
  "bq_contents q = (case data q of None \<Rightarrow> [] | Some d \<Rightarrow> chunk d (head q) (size q))"

lemma bq_contents_length [simp]: "bq_inv q \<Longrightarrow> length (bq_contents q) = size q"
  by (auto simp: bq_inv_def bq_contents_def split: option.splits)

lemma size_sub_le [simp]: "b \<le> a \<Longrightarrow> size_sub a b = a - b"
  by (simp add: size_sub_def)

lemma bq_free_space: "bq_inv q \<Longrightarrow> byte_queue_free_space q = capacity q - (head q + size q)"
  by (auto simp: bq_inv_def byte_queue_free_space_def size_sub_def)

text \<open>Making room by moving the data to the front, or having it already.\<close>

lemma ensure_in_place:
  assumes "bq_inv q" "size q + num \<le> capacity q"
  shows "\<exists>q'. byte_queue_ensure_min_free_space malloc q num = Inr (True, q') \<and> bq_inv q'
    \<and> capacity q' = capacity q \<and> size q' = size q \<and> bq_contents q' = bq_contents q \<and> head q' + size q' + num \<le> capacity q'"
proof (cases "capacity q - size q - head q < num")
  case False
  then show ?thesis using assms by (auto simp: byte_queue_ensure_min_free_space_def bq_inv_def Let_def)
next
  case True
  with assms obtain d where d: "data q = Some d" "length d = capacity q" "head q + size q \<le> capacity q"
    by (auto simp: bq_inv_def split: option.splits)
  have "byte_queue_ensure_min_free_space malloc q num
      = Inr (True, q\<lparr>data := Some (blit d 0 (chunk d (head q) (size q))), head := 0\<rparr>)"
    using True assms(2) d by (auto simp: byte_queue_ensure_min_free_space_def Let_def size_sub_def)
  then show ?thesis using assms d by (simp add: bq_inv_def bq_contents_def chunk_def blit_def)
qed

text \<open>Growing: the data goes to the front of the new buffer, the read position stays.\<close>

lemma ensure_resize:
  assumes "bq_inv q" "capacity q < size q + num" "size q + num < 2 ^ 63" "\<And>n. malloc n = Some (fresh n)" "\<And>n. length (fresh n) = n"
  defines "cap \<equiv> max (2 * capacity q) (size q + num)"
  shows "byte_queue_ensure_min_free_space malloc q num
    = Inr (True, q\<lparr>data := Some (bq_contents q @ drop (size q) (fresh cap)), capacity := cap\<rparr>)"
proof -
  have "size q \<le> capacity q" "head q \<le> capacity q - size q" "2 * capacity q < 2 ^ 64" "size q + num < 2 ^ 64"
    using assms by (auto simp: bq_inv_def)
  moreover have "(if size_sub (2 * capacity q) (size q) < num then size q + num else 2 * capacity q) = cap"
    using \<open>size q \<le> capacity q\<close> by (auto simp: cap_def max_def)
  moreover have "size q \<le> cap" by (simp add: cap_def)
  moreover have "size q > 0 \<Longrightarrow> \<exists>d. data q = Some d \<and> length d = capacity q \<and> head q + size q \<le> capacity q"
    using assms(1) by (auto simp: bq_inv_def split: option.splits)
  ultimately show ?thesis
    using assms(2,4,5)
    by (cases "size q = 0")
      (auto simp: byte_queue_ensure_min_free_space_def Let_def bq_contents_def blit_def split: option.splits)
qed

lemma bq_write_ok:
  assumes "bq_inv q" "size q + length bs \<le> capacity q"
  shows "\<exists>q'. bq_write malloc bs q = Inr (True, q') \<and> bq_inv q' \<and> capacity q' = capacity q
    \<and> bq_contents q' = bq_contents q @ bs"
proof -
  obtain q1 where q1: "byte_queue_ensure_min_free_space malloc q (length bs) = Inr (True, q1)" "bq_inv q1"
    "capacity q1 = capacity q" "size q1 = size q" "bq_contents q1 = bq_contents q"
    "head q1 + size q1 + length bs \<le> capacity q1"
    using ensure_in_place [OF assms] by blast
  show ?thesis
  proof (cases "data q1")
    case None
    with q1 have "bs = []" by (auto simp: bq_inv_def)
    with None q1 show ?thesis by (simp add: bq_write_def)
  next
    case (Some d)
    then have d: "length d = capacity q1" using q1(2) by (simp add: bq_inv_def)
    have "chunk (blit d (head q1 + size q1) bs) (head q1) (size q1 + length bs) = chunk d (head q1) (size q1) @ bs"
      using q1(6) d by (simp add: chunk_def blit_def drop_take)
    then show ?thesis
      using q1 Some d by (auto simp: bq_write_def bq_inv_def bq_contents_def byte_queue_start_write_def byte_queue_end_write_def)
  qed
qed

lemma bq_read_ok:
  assumes "bq_inv q" "n \<le> size q"
  shows "\<exists>q'. bq_read n q = Inr (Some (take n (bq_contents q)), q') \<and> bq_inv q' \<and> capacity q' = capacity q
    \<and> bq_contents q' = drop n (bq_contents q)"
proof (cases "data q")
  case None
  with assms show ?thesis
    by (auto simp: bq_read_def bq_inv_def bq_contents_def byte_queue_used_space_def)
next
  case (Some d)
  then have d: "length d = capacity q" "head q + size q \<le> capacity q" using assms by (auto simp: bq_inv_def)
  have "chunk d (head q + n) (size q - n) = drop n (chunk d (head q) (size q))"
    by (simp add: chunk_def drop_take add.commute)
  moreover have "chunk d (head q) n = take n (chunk d (head q) (size q))"
    using assms(2) by (simp add: chunk_def min_def)
  ultimately show ?thesis
    using Some d assms
    by (simp add: bq_read_def bq_inv_def bq_contents_def byte_queue_used_space_def byte_queue_start_read_def byte_queue_end_read_def)
qed

interpretation bq: bounded_fifo bq_inv capacity bq_contents "\<lambda>_ _. True" "bq_write malloc" bq_read "\<lambda>_. True"
  for malloc
  by unfold_locales (use bq_write_ok bq_read_ok in auto)

lemma ensure_init:
  assumes "0 < n" "n < 2 ^ 63" "\<And>n. malloc n = Some (fresh n)" "\<And>n. length (fresh n) = n"
  shows "\<exists>q. byte_queue_ensure_min_free_space malloc byte_queue_init n = Inr (True, q) \<and> bq_inv q
    \<and> capacity q = n \<and> bq_contents q = []"
proof -
  have "bq_inv byte_queue_init" by (simp add: bq_inv_def byte_queue_init_def)
  from ensure_resize [OF this, of n malloc fresh] assms show ?thesis
    by (simp add: byte_queue_init_def bq_inv_def bq_contents_def max_def)
qed

text \<open>C34: The byte queue is a queue as long as it does not have to grow. After room for \<open>n\<close> bytes has been made
  in a fresh queue, any sequence of writes and reads that keeps at most \<open>n\<close> bytes in the queue
  succeeds, and what is read, followed by what is left, is what was written; the moves of the data to the front of the
  buffer that happen on the way change nothing.\<close>

theorem byte_queue_fifo:
  assumes "0 < n" "n < 2 ^ 63" "\<And>n. malloc n = Some (fresh n)" "\<And>n. length (fresh n) = n"
    and "feasible n 0 ops"
  shows "\<exists>q out q'. byte_queue_ensure_min_free_space malloc byte_queue_init n = Inr (True, q)
    \<and> fifo_run (bq_write malloc) bq_read ops q = Inr (Some out, q') \<and> out @ bq_contents q' = pushed ops"
proof -
  obtain q where q: "byte_queue_ensure_min_free_space malloc byte_queue_init n = Inr (True, q)" "bq_inv q"
    "capacity q = n" "bq_contents q = []"
    using ensure_init [OF assms(1,2), of malloc fresh] assms(3,4) by blast
  then show ?thesis using bq.fifo_order [OF q(2), of ops malloc] assms(5) by auto
qed

theorem byte_queue_fifo_witness:
  "\<exists>q out q'. byte_queue_ensure_min_free_space (\<lambda>n. Some (replicate n 0)) byte_queue_init 4 = Inr (True, q)
    \<and> fifo_run (bq_write (\<lambda>n. Some (replicate n 0))) bq_read [Push [1, 2, 3], Pop 2, Push [4, 5, 6], Pop 3] q
        = Inr (Some out, q')
    \<and> out @ bq_contents q' = [1, 2, 3, 4, 5, 6]"
  using byte_queue_fifo [of 4 "\<lambda>n. Some (replicate n 0)" "\<lambda>n. replicate n 0" "[Push [1, 2, 3], Pop 2, Push [4, 5, 6], Pop 3]"]
  by simp

text \<open>Growing a queue that was read from loses data. If \<open>num\<close> more bytes do not fit even after moving the
  data to the front, the contents are copied to the start of a larger buffer but the read position keeps its old
  value: the first \<open>head\<close> bytes of the contents are skipped and as many bytes of fresh memory are
  read in their place at the end. Only when \<open>head\<close> is 0 is nothing lost.\<close>

theorem byte_queue_resize_skips_head:
  assumes "bq_inv q" "capacity q < size q + num" "size q + num < 2 ^ 63" "\<And>n. malloc n = Some (fresh n)" "\<And>n. length (fresh n) = n"
  shows "\<exists>q'. byte_queue_ensure_min_free_space malloc q num = Inr (True, q')
    \<and> bq_contents q' = drop (head q) (bq_contents q)
        @ take (min (head q) (size q)) (drop (max (head q) (size q)) (fresh (max (2 * capacity q) (size q + num))))
    \<and> (head q = 0 \<longrightarrow> bq_contents q' = bq_contents q \<and> num \<le> capacity q' - size q')"
proof -
  let ?cap = "max (2 * capacity q) (size q + num)"
  have r: "byte_queue_ensure_min_free_space malloc q num
    = Inr (True, q\<lparr>data := Some (bq_contents q @ drop (size q) (fresh ?cap)), capacity := ?cap\<rparr>)"
    using ensure_resize [OF assms(1-3), of malloc fresh] assms(4,5) by blast
  have len: "length (bq_contents q) = size q" "head q + size q \<le> ?cap" using assms(1) by (auto simp: bq_inv_def)
  let ?q = "q\<lparr>data := Some (bq_contents q @ drop (size q) (fresh ?cap)), capacity := ?cap\<rparr>"
  have "bq_contents ?q = chunk (bq_contents q @ drop (size q) (fresh ?cap)) (head q) (size q)"
    by (subst bq_contents_def) simp
  also have "\<dots> = drop (head q) (bq_contents q) @ take (min (head q) (size q)) (drop (max (head q) (size q)) (fresh ?cap))"
    using len by (cases "head q \<le> size q") (simp_all add: chunk_def min_def max_def add.commute)
  finally have c: "bq_contents ?q = drop (head q) (bq_contents q)
    @ take (min (head q) (size q)) (drop (max (head q) (size q)) (fresh ?cap))" .
  show ?thesis
    by (rule exI [of _ ?q], unfold r c) (auto simp: max_def)
qed

theorem byte_queue_resize_skips_head_witness:
  "let q = \<lparr>data = Some [1, 2, 3, 4], head = 1, size = 3, capacity = 4\<rparr>
   in bq_contents q = [2, 3, 4]
     \<and> (\<exists>q'. byte_queue_ensure_min_free_space (\<lambda>n. Some (replicate n 0)) q 2 = Inr (True, q') \<and> bq_contents q' = [3, 4, 0])"
proof -
  let ?q = "\<lparr>data = Some [1, 2, 3, 4], head = 1, size = 3, capacity = 4\<rparr>"
  have "bq_inv ?q" "capacity ?q < size ?q + 2" "size ?q + 2 < 2 ^ 63" by (simp_all add: bq_inv_def)
  from byte_queue_resize_skips_head [OF this, of "\<lambda>n. Some (replicate n 0)" "\<lambda>n. replicate n 0"]
  show ?thesis by (auto simp: bq_contents_def chunk_def)
qed

end
