(* ===== verification/Spsc.thy ===== *)
theory Spsc
  imports Fifo
begin

section \<open>The single-producer single-consumer queue (\<^verbatim>\<open>lockfree/spsc_queue.c\<close>)\<close>

text \<open>
  A ring of \<open>2 ^ cap_log2\<close> items of \<open>item_size\<close> bytes with two ever-growing 64-bit positions.
  The record is the struct, with the bytes behind the pointer \<^verbatim>\<open>items\<close>. All the width changes of the code are kept: the
  capacity and the number of used slots are 32-bit words, the positions are 64-bit words, an index
  is an \<^verbatim>\<open>int\<close>, and the byte offset of an item is computed in 32 bits. A null source or destination
  pointer is \<open>None\<close>; out-parameters are results. The \<^verbatim>\<open>PROFILE\<close> macros are left out.

  In this theory an operation runs without interference; the theory \<open>SpscConc\<close> interleaves
  the producer and the consumer.
\<close>

subsection \<open>Definitions\<close>

record spsc_queue =
  items :: "u8 list"
  item_size :: u32
  cap_log2 :: nat
  head :: u64
  tail :: u64

definition spsc_queue_init :: "u8 list \<Rightarrow> nat \<Rightarrow> u32 \<Rightarrow> spsc_queue" where
  "spsc_queue_init mem num_items_log2 isize =
     \<lparr>items = mem, item_size = isize, cap_log2 = num_items_log2, head = 0, tail = 0\<rparr>"

text \<open>\<^verbatim>\<open>1U << cap_log2\<close> and \<^verbatim>\<open>cap - 1\<close>\<close>

definition cap_word :: "spsc_queue \<Rightarrow> u32" where
  "cap_word q = push_bit (cap_log2 q) 1"

definition mask_word :: "spsc_queue \<Rightarrow> u64" where
  "mask_word q = ucast (cap_word q - 1)"

definition used_word :: "spsc_queue \<Rightarrow> u32" where
  "used_word q = ucast (tail q - head q)"

text \<open>Conversion of a 64-bit value to \<^verbatim>\<open>int\<close>.\<close>

definition to_int :: "u64 \<Rightarrow> int" where
  "to_int x = sint (ucast x :: u32)"

definition spsc_queue_capacity :: "spsc_queue \<Rightarrow> int" where
  "spsc_queue_capacity q = sint (cap_word q)"

definition spsc_queue_size :: "spsc_queue \<Rightarrow> int" where
  "spsc_queue_size q = to_int (tail q - head q)"

definition item_addr :: "spsc_queue \<Rightarrow> int \<Rightarrow> nat" where
  "item_addr q index = unat (word_of_int index * item_size q)"

definition check_index :: "spsc_queue \<Rightarrow> int \<Rightarrow> unit res" where
  "check_index q index = c_assert (index \<ge> 0 \<and> index < to_int (push_bit (cap_log2 q) 1))"

definition store_item :: "spsc_queue \<Rightarrow> int \<Rightarrow> u8 list \<Rightarrow> spsc_queue res" where
  "store_item q index src =
     rbind (check_index q index) (\<lambda>_.
     rbind (memcpy (items q) (item_addr q index) (take (unat (item_size q)) src)) (\<lambda>mem.
       Inr (q\<lparr>items := mem\<rparr>)))"

definition read_item :: "spsc_queue \<Rightarrow> int \<Rightarrow> u8 list res" where
  "read_item q index =
     rbind (check_index q index) (\<lambda>_.
       if item_addr q index + unat (item_size q) \<le> length (items q)
       then Inr (chunk (items q) (item_addr q index) (unat (item_size q))) else Inl Out_of_bounds)"

definition spsc_queue_push :: "spsc_queue \<Rightarrow> u8 list option \<Rightarrow> (bool \<times> spsc_queue) res" where
  "spsc_queue_push q src =
     (if used_word q = cap_word q then Inr (False, q)
      else
        rbind (case src of None \<Rightarrow> Inr q | Some s \<Rightarrow> store_item q (to_int (tail q AND mask_word q)) s) (\<lambda>q.
        rbind (c_assert (tail q < - 1)) (\<lambda>_.
          Inr (True, q\<lparr>tail := tail q + 1\<rparr>))))"

fun multi_push_loop :: "u64 \<Rightarrow> u8 list \<Rightarrow> nat \<Rightarrow> nat \<Rightarrow> spsc_queue \<Rightarrow> spsc_queue res" where
  "multi_push_loop tail0 arr i 0 q = Inr q"
| "multi_push_loop tail0 arr i (Suc n) q =
     (let src = unat (of_nat i * item_size q)
      in if src + unat (item_size q) \<le> length arr then
           rbind (store_item q (to_int ((tail0 + of_nat i) AND mask_word q)) (chunk arr src (unat (item_size q)))) (\<lambda>q.
             multi_push_loop tail0 arr (Suc i) n q)
         else Inl Out_of_bounds)"

definition spsc_queue_multi_push :: "spsc_queue \<Rightarrow> u8 list option \<Rightarrow> int \<Rightarrow> (bool \<times> spsc_queue) res" where
  "spsc_queue_multi_push q arr num =
     rbind (c_assert (num \<ge> 0)) (\<lambda>_.
       if used_word q + word_of_int num > cap_word q then Inr (False, q)
       else
         rbind (c_assert (tail q < - 1 - word_of_int num)) (\<lambda>_.
         rbind (case arr of None \<Rightarrow> Inr q | Some a \<Rightarrow> multi_push_loop (tail q) a 0 (nat num) q) (\<lambda>q.
           Inr (True, q\<lparr>tail := tail q + word_of_int num\<rparr>))))"

text \<open>The destination of a pop: what is written to it, if the pointer is not null.\<close>

definition spsc_queue_pop :: "spsc_queue \<Rightarrow> bool \<Rightarrow> (bool \<times> u8 list option \<times> spsc_queue) res" where
  "spsc_queue_pop q dst =
     (if used_word q = 0 then Inr (False, None, q)
      else
        rbind (if dst then rbind (read_item q (to_int (head q AND mask_word q))) (\<lambda>x. Inr (Some x)) else Inr None) (\<lambda>r.
        rbind (c_assert (head q < - 1)) (\<lambda>_.
          Inr (True, r, q\<lparr>head := head q + 1\<rparr>))))"

fun multi_pop_loop :: "spsc_queue \<Rightarrow> nat \<Rightarrow> nat \<Rightarrow> u8 list list res" where
  "multi_pop_loop q i 0 = Inr []"
| "multi_pop_loop q i (Suc n) =
     rbind (read_item q (to_int ((head q + of_nat i) AND mask_word q))) (\<lambda>x.
     rbind (multi_pop_loop q (Suc i) n) (\<lambda>xs. Inr (x # xs)))"

text \<open>The items are written to consecutive places of \<^verbatim>\<open>arr\<close>, so the result is their concatenation.\<close>

definition spsc_queue_multi_pop :: "spsc_queue \<Rightarrow> bool \<Rightarrow> int \<Rightarrow> (bool \<times> u8 list list option \<times> spsc_queue) res" where
  "spsc_queue_multi_pop q arr num =
     rbind (c_assert (num \<ge> 0)) (\<lambda>_.
       if used_word q < word_of_int num then Inr (False, None, q)
       else
         rbind (c_assert (head q \<le> - 1 - word_of_int num)) (\<lambda>_.
         rbind (if arr then rbind (multi_pop_loop q 0 (nat num)) (\<lambda>xs. Inr (Some xs)) else Inr None) (\<lambda>r.
           Inr (True, r, q\<lparr>head := head q + word_of_int num\<rparr>))))"

text \<open>The two peeks: the offset of the first item, if any, and the number of items.\<close>

definition spsc_queue_peek_0 :: "spsc_queue \<Rightarrow> nat option \<times> int" where
  "spsc_queue_peek_0 q =
     (if head q = tail q then (None, 0)
      else
        let masked_head = ucast (head q AND mask_word q) :: u32;
            masked_tail = ucast (tail q AND mask_word q) :: u32
        in if masked_head < masked_tail
           then (Some (item_addr q (sint masked_head)), sint (masked_tail - masked_head))
           else (Some (item_addr q (sint masked_head)), sint (cap_word q - masked_head)))"

definition spsc_queue_peek_1 :: "spsc_queue \<Rightarrow> nat option \<times> int" where
  "spsc_queue_peek_1 q =
     (if head q = tail q then (None, 0)
      else
        let masked_head = ucast (head q AND mask_word q) :: u32;
            masked_tail = ucast (tail q AND mask_word q) :: u32
        in if masked_head < masked_tail then (None, 0)
           else (Some (item_addr q 0), sint masked_tail))"

subsection \<open>Invariant and contents\<close>

text \<open>
  The capacity must be representable as a positive \<^verbatim>\<open>int\<close> and the whole ring must be
  addressable with 32-bit offsets.
\<close>

definition ring_cap :: "spsc_queue \<Rightarrow> nat" where
  "ring_cap q = 2 ^ cap_log2 q"

definition spsc_inv :: "spsc_queue \<Rightarrow> bool" where
  "spsc_inv q \<longleftrightarrow> cap_log2 q \<le> 30 \<and> length (items q) = ring_cap q * unat (item_size q)
     \<and> ring_cap q * unat (item_size q) \<le> 2 ^ 32
     \<and> unat (head q) \<le> unat (tail q) \<and> unat (tail q) - unat (head q) \<le> ring_cap q"

definition item_at :: "spsc_queue \<Rightarrow> nat \<Rightarrow> u8 list" where
  "item_at q m = chunk (items q) (m * unat (item_size q)) (unat (item_size q))"

definition span :: "spsc_queue \<Rightarrow> nat \<Rightarrow> nat \<Rightarrow> u8 list list" where
  "span q h t = map (\<lambda>j. item_at q (j mod ring_cap q)) [h..<t]"

definition spsc_contents :: "spsc_queue \<Rightarrow> u8 list list" where
  "spsc_contents q = span q (unat (head q)) (unat (tail q))"

lemma ring_cap_pos [simp]: "0 < ring_cap q"
  by (simp add: ring_cap_def)

lemma cap_bounds:
  assumes "cap_log2 q \<le> 30"
  shows "ring_cap q \<le> 2 ^ 30" "ring_cap q < 2 ^ 31"
proof -
  have "(2 :: nat) ^ cap_log2 q \<le> 2 ^ 30" using assms by (rule power_increasing) simp
  then show "ring_cap q \<le> 2 ^ 30" "ring_cap q < 2 ^ 31" by (simp_all add: ring_cap_def)
qed

lemma unat_cap_word:
  assumes "cap_log2 q \<le> 30"
  shows "unat (cap_word q) = ring_cap q"
proof -
  have "cap_word q = 2 ^ cap_log2 q" by (simp add: cap_word_def push_bit_eq_mult)
  moreover have "unat (2 ^ cap_log2 q :: u32) = 2 ^ cap_log2 q"
    using assms by (intro unat_pow2) simp
  ultimately show ?thesis by (simp add: ring_cap_def)
qed

lemma mask_word_eq:
  assumes "cap_log2 q \<le> 30"
  shows "mask_word q = mask (cap_log2 q)"
proof -
  have "cap_word q - 1 = mask (cap_log2 q)"
    by (simp add: cap_word_def push_bit_eq_mult mask_eq_exp_minus_1)
  moreover have "ucast (mask (cap_log2 q) :: u32) = (mask (cap_log2 q) :: u64)"
    using assms by (intro bit_word_eqI) (auto simp: bit_simps)
  ultimately show ?thesis by (simp add: mask_word_def)
qed

lemma unat_masked:
  assumes "cap_log2 q \<le> 30"
  shows "unat (p AND mask_word q) = unat p mod ring_cap q"
  by (simp add: mask_word_eq [OF assms] unat_and_mask ring_cap_def)

lemma to_int_small:
  assumes "unat x < 2 ^ 31"
  shows "to_int x = int (unat x)"
proof -
  have "unat (ucast x :: u32) = unat x"
    using assms by (intro unat_ucast_small) simp
  with assms show ?thesis by (simp add: to_int_def sint_small)
qed

lemma index_masked:
  assumes "cap_log2 q \<le> 30"
  shows "to_int (p AND mask_word q) = int (unat p mod ring_cap q)"
proof -
  have "unat p mod ring_cap q < ring_cap q" by simp
  then have "unat (p AND mask_word q) < 2 ^ 31"
    using cap_bounds [OF assms] unfolding unat_masked [OF assms] by linarith
  then show ?thesis by (simp only: to_int_small unat_masked [OF assms])
qed

lemma check_index_ok:
  assumes "cap_log2 q \<le> 30" "m < ring_cap q"
  shows "check_index q (int m) = Inr ()"
proof -
  have "unat (push_bit (cap_log2 q) 1 :: u64) = ring_cap q"
    using assms(1) unat_pow2 [where 'a = 64, of "cap_log2 q"] by (simp add: push_bit_eq_mult ring_cap_def)
  then have "to_int (push_bit (cap_log2 q) 1) = int (ring_cap q)"
    using cap_bounds(2) [OF assms(1)] by (simp only: to_int_small)
  then show ?thesis using assms(2) by (simp add: check_index_def)
qed

lemma item_addr_eq:
  assumes "spsc_inv q" "m < ring_cap q"
  shows "item_addr q (int m) = m * unat (item_size q)"
    "m * unat (item_size q) + unat (item_size q) \<le> length (items q)"
proof -
  from assms have q: "cap_log2 q \<le> 30" "length (items q) = ring_cap q * unat (item_size q)"
    "ring_cap q * unat (item_size q) \<le> 2 ^ 32" by (auto simp: spsc_inv_def)
  have "Suc m * unat (item_size q) \<le> ring_cap q * unat (item_size q)"
    using assms(2) by (intro mult_le_mono1) simp
  then show le: "m * unat (item_size q) + unat (item_size q) \<le> length (items q)"
    using q(2) by (simp add: add.commute)
  have "unat (of_nat m :: u32) = m"
    using assms(2) cap_bounds(2) [OF q(1)] by (intro unat_of_nat_small) simp
  moreover have "m * unat (item_size q) < 2 ^ 32"
    using le q by (cases "unat (item_size q) = 0") auto
  ultimately show "item_addr q (int m) = m * unat (item_size q)"
    by (simp add: item_addr_def unat_word_ariths(2))
qed

lemma unat_used_word:
  assumes "spsc_inv q"
  shows "unat (used_word q) = unat (tail q) - unat (head q)"
proof -
  have "unat (tail q - head q) = unat (tail q) - unat (head q)"
    using assms by (simp add: spsc_inv_def unat_sub word_le_nat_alt)
  moreover have "unat (tail q) - unat (head q) < 2 ^ 32"
    using assms cap_bounds(2) [of q] by (auto simp: spsc_inv_def)
  ultimately show ?thesis
    unfolding used_word_def by (subst unat_ucast_small) simp_all
qed

subsection \<open>Storing and reading one item\<close>

lemma length_item_at: "spsc_inv q \<Longrightarrow> m < ring_cap q \<Longrightarrow> length (item_at q m) = unat (item_size q)"
  using item_addr_eq(2) [of q m] by (simp add: item_at_def)

lemma read_item_ok:
  assumes "spsc_inv q"
  shows "read_item q (to_int (p AND mask_word q)) = Inr (item_at q (unat p mod ring_cap q))"
proof -
  have c: "cap_log2 q \<le> 30" using assms by (simp add: spsc_inv_def)
  have m: "unat p mod ring_cap q < ring_cap q" by simp
  show ?thesis
    unfolding read_item_def index_masked [OF c] check_index_ok [OF c m] item_addr_eq(1) [OF assms m] item_at_def
    using item_addr_eq(2) [OF assms m] by simp
qed

text \<open>Writing one block of a buffer of equal blocks changes that block only.\<close>

lemma blit_block:
  assumes "length x = k" "m * k + k \<le> length d"
  shows "chunk (blit d (m * k) x) (j * k) k = (if j = m then x else chunk d (j * k) k)"
proof (cases "j = m")
  case True
  then show ?thesis using assms by (simp add: chunk_def drop_blit_start)
next
  case False
  show ?thesis
  proof (cases "j < m")
    case True
    then have "Suc j * k \<le> m * k" by (intro mult_le_mono1) simp
    then show ?thesis using False assms by (simp add: chunk_def blit_def take_drop add.commute min_def)
  next
    case f: False
    with False have "Suc m * k \<le> j * k" by (intro mult_le_mono1) simp
    then show ?thesis using False assms by (simp add: chunk_def drop_blit)
  qed
qed

definition stored :: "spsc_queue \<Rightarrow> nat \<Rightarrow> u8 list \<Rightarrow> spsc_queue" where
  "stored q m x = q\<lparr>items := blit (items q) (m * unat (item_size q)) x\<rparr>"

lemma stored_simps [simp]:
  "head (stored q m x) = head q" "tail (stored q m x) = tail q" "item_size (stored q m x) = item_size q"
  "cap_log2 (stored q m x) = cap_log2 q" "ring_cap (stored q m x) = ring_cap q" "mask_word (stored q m x) = mask_word q"
  by (simp_all add: stored_def ring_cap_def mask_word_def cap_word_def)

lemma stored_inv:
  assumes "spsc_inv q" "m < ring_cap q" "length x = unat (item_size q)"
  shows "spsc_inv (stored q m x)"
proof -
  have "length (items (stored q m x)) = length (items q)"
    using item_addr_eq(2) [OF assms(1,2)] assms(3) by (simp add: stored_def)
  with assms show ?thesis by (simp add: spsc_inv_def)
qed

lemma item_at_stored:
  assumes "spsc_inv q" "m < ring_cap q" "length x = unat (item_size q)"
  shows "item_at (stored q m x) j = (if j = m then x else item_at q j)"
  using blit_block [OF assms(3) item_addr_eq(2) [OF assms(1,2)]] by (simp add: item_at_def stored_def)

lemma store_item_ok:
  assumes "spsc_inv q" "length x = unat (item_size q)"
  shows "store_item q (to_int (p AND mask_word q)) x = Inr (stored q (unat p mod ring_cap q) x)"
proof -
  have c: "cap_log2 q \<le> 30" using assms by (simp add: spsc_inv_def)
  have m: "unat p mod ring_cap q < ring_cap q" by simp
  show ?thesis
    unfolding store_item_def index_masked [OF c] check_index_ok [OF c m] item_addr_eq(1) [OF assms(1) m] stored_def
    using item_addr_eq(2) [OF assms(1) m] assms(2) by simp
qed

lemma span_stored:
  assumes "spsc_inv q" "length x = unat (item_size q)" "h \<le> t" "t - h < ring_cap q"
  shows "span (stored q (t mod ring_cap q) x) h (Suc t) = span q h t @ [x]"
proof -
  have m: "t mod ring_cap q < ring_cap q" by simp
  have "item_at (stored q (t mod ring_cap q) x) (j mod ring_cap q) = item_at q (j mod ring_cap q)"
    if "h \<le> j" "j < t" for j
    using mod_neq [of j t "ring_cap q"] that assms(4) by (simp add: item_at_stored [OF assms(1) m assms(2)])
  then show ?thesis
    using assms(3) by (simp add: span_def item_at_stored [OF assms(1) m assms(2)])
qed

lemma span_length [simp]: "length (span q h t) = t - h"
  by (simp add: span_def)

lemma span_tail [simp]: "span (q\<lparr>tail := x\<rparr>) h t = span q h t" "span (q\<lparr>head := x\<rparr>) h t = span q h t"
  by (simp_all add: span_def item_at_def ring_cap_def)

subsection \<open>The operations on the contents\<close>

lemma concat_nth_chunk:
  assumes "\<forall>x \<in> set xs. length x = k" "i < length xs"
  shows "chunk (concat xs) (i * k) k = xs ! i" "i * k + k \<le> length (concat xs)"
proof -
  have "chunk (concat xs) (i * k) k = xs ! i \<and> i * k + k \<le> length (concat xs)"
    using assms
  proof (induction xs arbitrary: i)
    case (Cons x xs)
    then show ?case by (cases i) (auto simp: chunk_def)
  qed simp
  then show "chunk (concat xs) (i * k) k = xs ! i" "i * k + k \<le> length (concat xs)" by auto
qed

lemma unat_plus_small: "unat (t :: u64) + i < 2 ^ 64 \<Longrightarrow> unat (t + of_nat i) = unat t + i"
  by (simp add: unat_word_ariths(1) unat_of_nat)

lemma unat_offset:
  assumes "spsc_inv q" "i < ring_cap q"
  shows "unat (of_nat i * item_size q) = i * unat (item_size q)"
  using item_addr_eq(1) [OF assms] by (simp add: item_addr_def)

lemma multi_push_loop_ok:
  assumes "\<forall>x \<in> set xs. length x = unat (item_size q)" "unat t0 + length xs < 2 ^ 64"
    "h \<le> unat t0" "unat t0 + length xs - h \<le> ring_cap q" "spsc_inv q" "i + n = length xs"
  shows "\<exists>q'. multi_push_loop t0 (concat xs) i n q = Inr q' \<and> spsc_inv q'
    \<and> head q' = head q \<and> tail q' = tail q \<and> item_size q' = item_size q \<and> cap_log2 q' = cap_log2 q
    \<and> span q' h (unat t0 + i + n) = span q h (unat t0 + i) @ drop i xs"
  using assms
proof (induction n arbitrary: i q)
  case 0
  then show ?case by simp
next
  case (Suc n)
  then have i: "i < length xs" "i < ring_cap q" by auto
  note ch = concat_nth_chunk [OF Suc.prems(1) i(1)]
  have x: "length (xs ! i) = unat (item_size q)" using Suc.prems(1) i(1) by simp
  let ?m = "(unat t0 + i) mod ring_cap q"
  let ?q = "stored q ?m (xs ! i)"
  have st: "store_item q (to_int ((t0 + of_nat i) AND mask_word q)) (xs ! i) = Inr ?q"
    using store_item_ok [OF Suc.prems(5) x, of "t0 + of_nat i"] unat_plus_small [of t0 i] Suc.prems(2) i(1) by simp
  have sp: "span ?q h (Suc (unat t0 + i)) = span q h (unat t0 + i) @ [xs ! i]"
    using span_stored [OF Suc.prems(5) x, of h "unat t0 + i"] Suc.prems(3,4) i(1) by simp
  have "spsc_inv ?q" using stored_inv [OF Suc.prems(5) _ x] by simp
  with Suc.IH [of ?q "Suc i"] Suc.prems obtain q' where q': "multi_push_loop t0 (concat xs) (Suc i) n ?q = Inr q'"
    "spsc_inv q'" "head q' = head q" "tail q' = tail q" "item_size q' = item_size q" "cap_log2 q' = cap_log2 q"
    "span q' h (unat t0 + Suc i + n) = span ?q h (unat t0 + Suc i) @ drop (Suc i) xs" by auto
  have "multi_push_loop t0 (concat xs) i (Suc n) q = Inr q'"
    using q'(1) st ch unat_offset [OF Suc.prems(5) i(2)] by (simp add: Let_def)
  with q' sp i(1) show ?case by (auto simp: Cons_nth_drop_Suc)
qed

lemma multi_pop_loop_ok:
  assumes "spsc_inv q" "unat (head q) + i + n < 2 ^ 64"
  shows "multi_pop_loop q i n = Inr (span q (unat (head q) + i) (unat (head q) + i + n))"
  using assms(2)
proof (induction n arbitrary: i)
  case 0
  then show ?case by (simp add: span_def)
next
  case (Suc n)
  have "unat (head q + of_nat i) = unat (head q) + i"
    using Suc.prems by (intro unat_plus_small) simp
  then have "read_item q (to_int ((head q + of_nat i) AND mask_word q))
      = Inr (item_at q ((unat (head q) + i) mod ring_cap q))"
    using read_item_ok [OF assms(1), of "head q + of_nat i"] by simp
  with Suc.IH [of "Suc i"] Suc.prems show ?case
    by (simp add: span_def upt_conv_Cons del: upt_Suc)
qed

text \<open>Tests on the 32-bit counts are tests on the numbers they stand for.\<close>

lemma word_of_int_count:
  assumes "n < 2 ^ 31"
  shows "unat (word_of_int (int n) :: u32) = n" "unat (word_of_int (int n) :: u64) = n"
    "(word_of_int (int n) :: u64) = of_nat n"
  using assms by (simp_all add: unat_of_nat)

lemma multi_push_ok:
  assumes q: "spsc_inv q" and xs: "\<forall>x \<in> set xs. length x = unat (item_size q)"
    and room: "length (spsc_contents q) + length xs \<le> ring_cap q" and big: "unat (tail q) + length xs < 2 ^ 64 - 1"
  shows "\<exists>q'. spsc_queue_multi_push q (Some (concat xs)) (int (length xs)) = Inr (True, q') \<and> spsc_inv q'
    \<and> item_size q' = item_size q \<and> ring_cap q' = ring_cap q \<and> spsc_contents q' = spsc_contents q @ xs
    \<and> unat (tail q') = unat (tail q) + length xs"
proof -
  let ?n = "length xs"
  from q have c: "cap_log2 q \<le> 30" "unat (head q) \<le> unat (tail q)" by (auto simp: spsc_inv_def)
  have len: "length (spsc_contents q) = unat (tail q) - unat (head q)" by (simp add: spsc_contents_def)
  have n: "?n < 2 ^ 31" using room cap_bounds(2) [OF c(1)] by linarith
  have "unat (used_word q + word_of_int (int ?n)) = unat (tail q) - unat (head q) + ?n"
    using room len cap_bounds(1) [OF c(1)] unat_used_word [OF q] word_of_int_count(1) [OF n]
    by (subst unat_word_ariths(1)) simp
  then have fit: "\<not> used_word q + word_of_int (int ?n) > cap_word q"
    using room len by (simp add: word_less_nat_alt unat_cap_word [OF c(1)])
  have "unat (- 1 - word_of_int (int ?n) :: u64) = 2 ^ 64 - 1 - ?n"
    using word_of_int_count(2) [OF n] n by (subst unat_sub) (simp_all add: word_le_nat_alt unsigned_minus_1_eq_mask mask_eq_exp_minus_1)
  then have as: "tail q < - 1 - word_of_int (int ?n)"
    using big by (simp add: word_less_nat_alt)
  obtain q1 where q1: "multi_push_loop (tail q) (concat xs) 0 ?n q = Inr q1" "spsc_inv q1" "head q1 = head q"
    "tail q1 = tail q" "item_size q1 = item_size q" "cap_log2 q1 = cap_log2 q"
    "span q1 (unat (head q)) (unat (tail q) + ?n) = spsc_contents q @ xs"
    using multi_push_loop_ok [OF xs, of "tail q" "unat (head q)" 0 ?n] big c room len q by (auto simp: spsc_contents_def)
  let ?q = "q1\<lparr>tail := tail q + of_nat ?n\<rparr>"
  have t: "unat (tail q + of_nat ?n) = unat (tail q) + ?n" using big by (intro unat_plus_small) simp
  have "spsc_queue_multi_push q (Some (concat xs)) (int ?n) = Inr (True, ?q)"
    using fit as q1 by (simp add: spsc_queue_multi_push_def word_of_int_count(3) [OF n])
  moreover have "ring_cap q1 = ring_cap q" using q1 by (simp add: ring_cap_def)
  moreover from this have "spsc_inv ?q"
    using q1 q room len t by (simp add: spsc_inv_def ring_cap_def)
  moreover have "spsc_contents ?q = spsc_contents q @ xs"
    using q1 t by (simp add: spsc_contents_def)
  ultimately show ?thesis using q1 t by (auto simp: ring_cap_def)
qed

lemma unat_max_minus:
  assumes "n < 2 ^ 31"
  shows "unat (- 1 - word_of_int (int n) :: u64) = 2 ^ 64 - 1 - n"
  using assms word_of_int_count(2) [OF assms]
  by (subst unat_sub) (simp_all add: word_le_nat_alt unsigned_minus_1_eq_mask mask_eq_exp_minus_1)

lemma span_split: "h \<le> m \<Longrightarrow> m \<le> t \<Longrightarrow> span q h t = span q h m @ span q m t"
  unfolding span_def by (metis le_add_diff_inverse map_append upt_add_eq_append)

lemma multi_pop_ok:
  assumes q: "spsc_inv q" and n: "n \<le> length (spsc_contents q)"
  shows "\<exists>q'. spsc_queue_multi_pop q True (int n) = Inr (True, Some (take n (spsc_contents q)), q') \<and> spsc_inv q'
    \<and> item_size q' = item_size q \<and> ring_cap q' = ring_cap q \<and> spsc_contents q' = drop n (spsc_contents q) \<and> tail q' = tail q"
proof -
  from q have c: "cap_log2 q \<le> 30" "unat (head q) \<le> unat (tail q)" "unat (tail q) - unat (head q) \<le> ring_cap q"
    by (auto simp: spsc_inv_def)
  have len: "length (spsc_contents q) = unat (tail q) - unat (head q)" by (simp add: spsc_contents_def)
  have n31: "n < 2 ^ 31" using n len c cap_bounds(2) [OF c(1)] by linarith
  have "unat (tail q) < 2 ^ LENGTH(64)" by (rule unsigned_less)
  then have tb: "unat (tail q) < 2 ^ 64" by simp
  have le: "unat (head q) + n \<le> unat (tail q)" using n len c(2) by simp
  have t: "unat (head q + of_nat n) = unat (head q) + n" using le tb by (intro unat_plus_small) simp
  have fit: "\<not> used_word q < word_of_int (int n)"
    using n len by (simp add: word_less_nat_alt unat_used_word [OF q] unat_of_nat)
  have as: "head q \<le> - 1 - word_of_int (int n)"
    using le tb unfolding word_le_nat_alt unat_max_minus [OF n31] by simp
  let ?q = "q\<lparr>head := head q + of_nat n\<rparr>"
  have sp: "spsc_contents q = span q (unat (head q)) (unat (head q) + n) @ span q (unat (head q) + n) (unat (tail q))"
    unfolding spsc_contents_def by (rule span_split) (use le in auto)
  have "spsc_queue_multi_pop q True (int n) = Inr (True, Some (span q (unat (head q)) (unat (head q) + n)), ?q)"
    using fit as multi_pop_loop_ok [OF q, of 0 n] le tb by (simp add: spsc_queue_multi_pop_def)
  moreover have "spsc_inv ?q" using q t le by (auto simp: spsc_inv_def ring_cap_def)
  moreover have "spsc_contents ?q = drop n (spsc_contents q)" "take n (spsc_contents q) = span q (unat (head q)) (unat (head q) + n)"
    unfolding sp by (simp_all add: spsc_contents_def t)
  ultimately show ?thesis by (simp add: ring_cap_def)
qed

text \<open>The single-item operations are the operations on one item.\<close>

lemma push_eq_multi:
  assumes "spsc_inv q" "length x = unat (item_size q)" "unat (tail q) < 2 ^ 64 - 2"
  shows "spsc_queue_push q (Some x) = spsc_queue_multi_push q (Some x) 1"
proof -
  from assms have c: "cap_log2 q \<le> 30" "unat (tail q) - unat (head q) \<le> ring_cap q" by (auto simp: spsc_inv_def)
  have "unat (used_word q + 1) = unat (tail q) - unat (head q) + 1"
    using c cap_bounds(1) [OF c(1)] by (subst unat_word_ariths(1)) (simp add: unat_used_word [OF assms(1)])
  then have "used_word q + 1 > cap_word q \<longleftrightarrow> used_word q = cap_word q"
    using c(2) by (simp add: word_less_nat_alt word_unat_eq_iff unat_cap_word [OF c(1)] unat_used_word [OF assms(1)]) linarith
  moreover have "tail q < - 1" "tail q < - 1 - 1"
    using assms(3) by (simp_all add: word_less_nat_alt unsigned_minus_1_eq_mask mask_eq_exp_minus_1)
  moreover have "store_item q (to_int (tail q AND mask_word q)) x = Inr (stored q (unat (tail q) mod ring_cap q) x)"
    by (rule store_item_ok [OF assms(1,2)])
  ultimately show ?thesis
    using assms(2) by (simp add: spsc_queue_push_def spsc_queue_multi_push_def Let_def chunk_def)
qed

lemma pop_eq_multi:
  assumes "spsc_inv q"
  shows "spsc_queue_pop q True = rbind (spsc_queue_multi_pop q True 1) (\<lambda>(ok, r, q). Inr (ok, map_option concat r, q))"
proof -
  have "used_word q < 1 \<longleftrightarrow> used_word q = 0" by (simp add: word_less_nat_alt word_unat_eq_iff)
  moreover have "head q \<le> - 1 - 1 \<longleftrightarrow> head q < - 1"
    by (simp add: word_le_nat_alt word_less_nat_alt unsigned_minus_1_eq_mask mask_eq_exp_minus_1) linarith
  ultimately show ?thesis
    using read_item_ok [OF assms, of "head q"]
    by (auto simp: spsc_queue_pop_def spsc_queue_multi_pop_def c_assert_def)
qed

subsection \<open>Theorems\<close>

text \<open>The bulk operations in the form of the queue interface.\<close>

definition spsc_push_items :: "u8 list list \<Rightarrow> spsc_queue \<Rightarrow> (bool \<times> spsc_queue) res" where
  "spsc_push_items xs q = spsc_queue_multi_push q (Some (concat xs)) (int (length xs))"

definition spsc_pop_items :: "nat \<Rightarrow> spsc_queue \<Rightarrow> (u8 list list option \<times> spsc_queue) res" where
  "spsc_pop_items n q = rbind (spsc_queue_multi_pop q True (int n)) (\<lambda>(ok, r, q). Inr (if ok then r else None, q))"

interpretation spsc: bounded_fifo "\<lambda>q. spsc_inv q \<and> item_size q = isize" ring_cap spsc_contents
  "\<lambda>q n. unat (tail q) + n < 2 ^ 64 - 1" spsc_push_items spsc_pop_items "\<lambda>x. length x = unat isize"
  for isize
proof
  fix q :: spsc_queue and xs :: "u8 list list" and n
  assume a: "spsc_inv q \<and> item_size q = isize" "\<forall>x \<in> set xs. length x = unat isize"
    "length (spsc_contents q) + length xs \<le> ring_cap q" "unat (tail q) + (length xs + n) < 2 ^ 64 - 1"
  then have "\<exists>q'. spsc_queue_multi_push q (Some (concat xs)) (int (length xs)) = Inr (True, q') \<and> spsc_inv q'
    \<and> item_size q' = item_size q \<and> ring_cap q' = ring_cap q \<and> spsc_contents q' = spsc_contents q @ xs
    \<and> unat (tail q') = unat (tail q) + length xs"
    by (intro multi_push_ok) auto
  with a show "\<exists>q'. spsc_push_items xs q = Inr (True, q') \<and> (spsc_inv q' \<and> item_size q' = isize) \<and> ring_cap q' = ring_cap q
    \<and> spsc_contents q' = spsc_contents q @ xs \<and> unat (tail q') + n < 2 ^ 64 - 1"
    unfolding spsc_push_items_def by (metis add.assoc)
next
  fix q :: spsc_queue and n m
  assume "spsc_inv q \<and> item_size q = isize" "n \<le> length (spsc_contents q)" "unat (tail q) + m < 2 ^ 64 - 1"
  then show "\<exists>q'. spsc_pop_items n q = Inr (Some (take n (spsc_contents q)), q') \<and> (spsc_inv q' \<and> item_size q' = isize)
    \<and> ring_cap q' = ring_cap q \<and> spsc_contents q' = drop n (spsc_contents q) \<and> unat (tail q') + m < 2 ^ 64 - 1"
    using multi_pop_ok [of q n] by (auto simp: spsc_pop_items_def)
qed

lemma spsc_init_inv:
  assumes "k \<le> 30" "length mem = 2 ^ k * unat isize" "2 ^ k * unat isize \<le> 2 ^ 32"
  shows "spsc_inv (spsc_queue_init mem k isize)" "spsc_contents (spsc_queue_init mem k isize) = []"
    "ring_cap (spsc_queue_init mem k isize) = 2 ^ k"
  using assms by (simp_all add: spsc_inv_def spsc_queue_init_def ring_cap_def spsc_contents_def span_def)

text \<open>C20: The SPSC queue is a bounded queue. Starting from an initialised queue, any sequence of bulk pushes and
  pops that never overfills or overdraws it succeeds, and the items popped,
  followed by those left, are the items pushed, byte for byte, through any number of
  wrap-arounds of the ring (up to the 64-bit bound on the positions that the code asserts).\<close>

theorem spsc_fifo:
  assumes "k \<le> 30" "length mem = 2 ^ k * unat isize" "2 ^ k * unat isize \<le> 2 ^ 32"
    and "feasible (2 ^ k) 0 ops" "\<forall>x \<in> set (pushed ops). length x = unat isize"
    and "length (pushed ops) < 2 ^ 64 - 1"
  shows "\<exists>out q'. fifo_run spsc_push_items spsc_pop_items ops (spsc_queue_init mem k isize) = Inr (Some out, q')
    \<and> out @ spsc_contents q' = pushed ops"
proof -
  let ?q = "spsc_queue_init mem k isize"
  have "unat (tail ?q) + length (pushed ops) < 2 ^ 64 - 1" "item_size ?q = isize"
    using assms(6) by (simp_all add: spsc_queue_init_def)
  with spsc.fifo_order [of ?q isize ops] spsc_init_inv [OF assms(1-3)] assms(4,5) show ?thesis by auto
qed

theorem spsc_fifo_witness:
  "\<exists>out q'. fifo_run spsc_push_items spsc_pop_items
      [Push [[1, 2], [3, 4]], Pop 1, Push [[5, 6]], Pop 1, Push [[7, 8]], Pop 2]
      (spsc_queue_init (replicate 4 0) 1 2) = Inr (Some out, q')
    \<and> out @ spsc_contents q' = [[1, 2], [3, 4], [5, 6], [7, 8]]"
  using spsc_fifo [of 1 "replicate 4 0" 2 "[Push [[1, 2], [3, 4]], Pop 1, Push [[5, 6]], Pop 1, Push [[7, 8]], Pop 2]"]
  by simp

text \<open>A single push fails exactly when the ring is full and otherwise appends its item; a single pop
  fails exactly when the ring is empty and otherwise returns the oldest item.\<close>

theorem spsc_push_pop:
  assumes "spsc_inv q" "length x = unat (item_size q)" "unat (tail q) < 2 ^ 64 - 2"
  shows "(if length (spsc_contents q) = ring_cap q then spsc_queue_push q (Some x) = Inr (False, q)
      else \<exists>q'. spsc_queue_push q (Some x) = Inr (True, q') \<and> spsc_inv q' \<and> spsc_contents q' = spsc_contents q @ [x])
    \<and> (case spsc_contents q of [] \<Rightarrow> spsc_queue_pop q True = Inr (False, None, q)
      | y # ys \<Rightarrow> \<exists>q'. spsc_queue_pop q True = Inr (True, Some y, q') \<and> spsc_inv q' \<and> spsc_contents q' = ys)"
proof
  from assms have c: "cap_log2 q \<le> 30" "unat (tail q) - unat (head q) \<le> ring_cap q" by (auto simp: spsc_inv_def)
  have len: "length (spsc_contents q) = unat (used_word q)"
    by (simp add: spsc_contents_def unat_used_word [OF assms(1)])
  show "if length (spsc_contents q) = ring_cap q then spsc_queue_push q (Some x) = Inr (False, q)
      else \<exists>q'. spsc_queue_push q (Some x) = Inr (True, q') \<and> spsc_inv q' \<and> spsc_contents q' = spsc_contents q @ [x]"
  proof (cases "length (spsc_contents q) = ring_cap q")
    case True
    then have "used_word q = cap_word q" using len by (simp add: word_unat_eq_iff unat_cap_word [OF c(1)])
    with True show ?thesis by (simp add: spsc_queue_push_def)
  next
    case False
    then have "length (spsc_contents q) + length [x] \<le> ring_cap q"
      using c(2) len unat_used_word [OF assms(1)] by simp
    with multi_push_ok [OF assms(1), of "[x]"] push_eq_multi [OF assms] assms(2,3) False show ?thesis by auto
  qed
  show "case spsc_contents q of [] \<Rightarrow> spsc_queue_pop q True = Inr (False, None, q)
      | y # ys \<Rightarrow> \<exists>q'. spsc_queue_pop q True = Inr (True, Some y, q') \<and> spsc_inv q' \<and> spsc_contents q' = ys"
  proof (cases "spsc_contents q")
    case Nil
    with len have "used_word q = 0" by (simp add: word_unat_eq_iff)
    with Nil show ?thesis by (simp add: spsc_queue_pop_def)
  next
    case (Cons y ys)
    with multi_pop_ok [OF assms(1), of 1] show ?thesis
      by (auto simp: pop_eq_multi [OF assms(1)])
  qed
qed

theorem spsc_push_pop_witness:
  "let q = \<lparr>items = [1, 2], item_size = 1, cap_log2 = 1, head = 5, tail = 6\<rparr>
   in (\<exists>q'. spsc_queue_push q (Some [7]) = Inr (True, q') \<and> spsc_contents q' = [[2], [7]])
    \<and> (\<exists>q'. spsc_queue_pop q True = Inr (True, Some [2], q') \<and> spsc_contents q' = [])"
proof -
  let ?q = "\<lparr>items = [1, 2], item_size = 1, cap_log2 = 1, head = 5, tail = 6\<rparr>"
  have c: "spsc_contents ?q = [[2]]" "ring_cap ?q = 2" by code_simp+
  have "spsc_inv ?q" "length [7 :: u8] = unat (item_size ?q)" "unat (tail ?q) < 2 ^ 64 - 2"
    by (simp_all add: spsc_inv_def ring_cap_def)
  from spsc_push_pop [OF this] show ?thesis unfolding c by auto
qed

subsection \<open>Peeking\<close>

text \<open>What a client reads through the result of a peek.\<close>

definition peeked :: "spsc_queue \<Rightarrow> nat option \<times> int \<Rightarrow> u8 list list" where
  "peeked q r = (case fst r of None \<Rightarrow> []
     | Some off \<Rightarrow> map (\<lambda>j. chunk (items q) (off + j * unat (item_size q)) (unat (item_size q))) [0..<nat (snd r)])"

lemma peeked_run:
  "peeked q (Some (m * unat (item_size q)), int n) = map (item_at q) [m..<m + n]"
  by (rule nth_equalityI) (simp_all add: peeked_def item_at_def add_mult_distrib)

lemma masked_u32:
  assumes "cap_log2 q \<le> 30"
  shows "unat (ucast (p AND mask_word q) :: u32) = unat p mod ring_cap q"
    "sint (ucast (p AND mask_word q) :: u32) = int (unat p mod ring_cap q)"
proof -
  have b: "unat p mod ring_cap q < 2 ^ 31"
    using cap_bounds(2) [OF assms] mod_less_divisor [OF ring_cap_pos, of "unat p" q] by linarith
  then show u: "unat (ucast (p AND mask_word q) :: u32) = unat p mod ring_cap q"
    by (subst unat_ucast_small) (simp_all add: unat_masked [OF assms])
  show "sint (ucast (p AND mask_word q) :: u32) = int (unat p mod ring_cap q)"
    using sint_small [of "ucast (p AND mask_word q)"] b unfolding u by simp
qed

text \<open>A range of positions of at most one capacity, as one or two runs of slots.\<close>

lemma span_runs:
  assumes "H < T" "T - H \<le> ring_cap q"
  defines "h \<equiv> H mod ring_cap q" and "t \<equiv> T mod ring_cap q"
  shows "span q H T = (if h < t then map (item_at q) [h..<t]
    else map (item_at q) [h..<ring_cap q] @ map (item_at q) [0..<t])"
proof -
  let ?c = "ring_cap q"
  have h: "h < ?c" "t < ?c" by (simp_all add: h_def t_def)
  define k where "k = T - H"
  have k: "0 < k" "k \<le> ?c" using assms by (auto simp: k_def)
  have idx: "(H + i) mod ?c = (if h + i < ?c then h + i else h + i - ?c)" if "i < ?c" for i
  proof -
    have "(H + i) mod ?c = (h + i) mod ?c" by (simp add: h_def mod_simps)
    also have "\<dots> = (if h + i < ?c then h + i else h + i - ?c)"
      using that h by (simp add: mod_if)
    finally show ?thesis .
  qed
  have sp: "span q H T = map (\<lambda>i. item_at q ((H + i) mod ?c)) [0..<k]"
    using assms(1) unfolding span_def k_def by (intro nth_equalityI) auto
  have tk: "t = (if h + k < ?c then h + k else h + k - ?c)"
  proof (cases "k < ?c")
    case True
    then show ?thesis using idx [of k] assms(1) by (simp add: t_def k_def)
  next
    case False
    then have "k = ?c" using k by simp
    then have "T = H + ?c" using assms(1) by (simp add: k_def)
    then show ?thesis using \<open>k = ?c\<close> by (simp add: t_def h_def)
  qed
  show ?thesis
  proof (cases "h + k < ?c")
    case True
    then show ?thesis using tk k(1) idx unfolding sp by (auto intro!: nth_equalityI)
  next
    case False
    then have "\<not> h < t" using tk k h by auto
    moreover have "map (\<lambda>i. item_at q ((H + i) mod ?c)) [0..<k]
        = map (item_at q) [h..<?c] @ map (item_at q) [0..<t]"
      using False tk k h idx by (intro nth_equalityI) (auto simp: nth_append add.commute)
    ultimately show ?thesis by (simp add: sp)
  qed
qed

text \<open>The two peeks together show the contents of the queue in order, without copying: the run up to
  the end of the ring, then the run from its start.\<close>

theorem spsc_peek_contents:
  assumes "spsc_inv q"
  shows "peeked q (spsc_queue_peek_0 q) @ peeked q (spsc_queue_peek_1 q) = spsc_contents q"
proof (cases "head q = tail q")
  case True
  then show ?thesis by (simp add: spsc_queue_peek_0_def spsc_queue_peek_1_def peeked_def spsc_contents_def span_def)
next
  case False
  from assms have c: "cap_log2 q \<le> 30" "unat (head q) \<le> unat (tail q)" "unat (tail q) - unat (head q) \<le> ring_cap q"
    by (auto simp: spsc_inv_def)
  with False have lt: "unat (head q) < unat (tail q)" by (metis le_neq_implies_less word_unat_eq_iff)
  define h where "h = unat (head q) mod ring_cap q"
  define t where "t = unat (tail q) mod ring_cap q"
  have ht: "h < ring_cap q" "t < ring_cap q" by (simp_all add: h_def t_def)
  note mh = masked_u32 [OF c(1), of "head q", folded h_def] and mt = masked_u32 [OF c(1), of "tail q", folded t_def]
  note run = span_runs [OF lt c(3), folded h_def t_def]
  let ?mh = "ucast (head q AND mask_word q) :: u32" and ?mt = "ucast (tail q AND mask_word q) :: u32"
  have less: "?mh < ?mt \<longleftrightarrow> h < t" by (simp add: word_less_nat_alt mh mt)
  have addr: "item_addr q (sint ?mh) = h * unat (item_size q)" "item_addr q 0 = 0 * unat (item_size q)"
    using item_addr_eq(1) [OF assms ht(1)] by (simp_all add: mh item_addr_def)
  show ?thesis
  proof (cases "h < t")
    case True
    have "unat (?mt - ?mh) = t - h" using True less by (simp add: unat_sub mh mt)
    then have "sint (?mt - ?mh) = int (t - h)"
      using ht cap_bounds(2) [OF c(1)] by (subst sint_small) auto
    then have "spsc_queue_peek_0 q = (Some (h * unat (item_size q)), int (t - h))" "spsc_queue_peek_1 q = (None, 0)"
      using False True less addr by (simp_all add: spsc_queue_peek_0_def spsc_queue_peek_1_def Let_def)
    moreover have "peeked q (None, 0) = []" by (simp add: peeked_def)
    ultimately show ?thesis
      unfolding spsc_contents_def run using True by (simp only: peeked_run if_True) simp
  next
    case nl: False
    have "?mh \<le> cap_word q" using ht by (simp add: word_le_nat_alt mh unat_cap_word [OF c(1)])
    then have "unat (cap_word q - ?mh) = ring_cap q - h" by (simp add: unat_sub mh unat_cap_word [OF c(1)])
    then have "sint (cap_word q - ?mh) = int (ring_cap q - h)"
      using cap_bounds(2) [OF c(1)] by (subst sint_small) auto
    then have "spsc_queue_peek_0 q = (Some (h * unat (item_size q)), int (ring_cap q - h))"
      "spsc_queue_peek_1 q = (Some (0 * unat (item_size q)), int t)"
      using False nl less addr mt by (simp_all add: spsc_queue_peek_0_def spsc_queue_peek_1_def Let_def)
    then show ?thesis
      unfolding spsc_contents_def run using nl ht by (simp only: peeked_run if_False) simp
  qed
qed

theorem spsc_peek_contents_witness:
  "let q = \<lparr>items = [1, 2, 3, 4], item_size = 1, cap_log2 = 2, head = 7, tail = 9\<rparr>
   in peeked q (spsc_queue_peek_0 q) @ peeked q (spsc_queue_peek_1 q) = [[4], [1]]"
proof -
  let ?q = "\<lparr>items = [1, 2, 3, 4], item_size = 1, cap_log2 = 2, head = 7, tail = 9\<rparr>"
  have c: "spsc_contents ?q = [[4], [1]]" by code_simp
  have "spsc_inv ?q" by (simp add: spsc_inv_def ring_cap_def)
  from spsc_peek_contents [OF this] show ?thesis unfolding c Let_def .
qed

end
