(* ===== verification/SpscConc.thy ===== *)
theory SpscConc
  imports Prelude
begin

section \<open>Producer and consumer of the SPSC queue, interleaved\<close>

text \<open>
  The functions \<^verbatim>\<open>spsc_queue_push\<close> and \<^verbatim>\<open>spsc_queue_pop\<close> of \<^verbatim>\<open>lockfree/spsc_queue.c\<close> as one producer and
  one consumer thread that interleave at every atomic load and store. The copy of an
  item is not atomic: while it lasts the slot holds arbitrary values, and a read lasts from
  its first to its last byte. The positions are natural numbers: the code assumes (and asserts) that its
  64-bit counters do not overflow. Two history variables record what was pushed and what was
  popped. The theory \<open>Spsc\<close> has the same operations at machine width, without interleaving.
\<close>

datatype 'a producer =
    P_idle
  | P_head 'a nat          \<comment> \<open>\<^verbatim>\<open>head\<close> loaded\<close>
  | P_tail 'a nat nat      \<comment> \<open>\<^verbatim>\<open>head\<close> and \<^verbatim>\<open>tail\<close> loaded\<close>
  | P_storing 'a nat       \<comment> \<open>inside \<^verbatim>\<open>store_item\<close>\<close>
  | P_stored 'a nat        \<comment> \<open>before \<^verbatim>\<open>atomic_store(&queue->tail, ..)\<close>\<close>

datatype 'a consumer =
    C_idle
  | C_head nat
  | C_tail nat nat
  | C_reading nat          \<comment> \<open>inside \<^verbatim>\<open>read_item\<close>\<close>
  | C_read nat 'a          \<comment> \<open>before \<^verbatim>\<open>atomic_store(&queue->head, ..)\<close>\<close>

record 'a spsc_state =
  slots :: "nat \<Rightarrow> 'a"
  hd_pos :: nat
  tl_pos :: nat
  producer :: "'a producer"
  consumer :: "'a consumer"
  sent :: "'a list"
  received :: "'a list"

definition spsc_start :: "'a spsc_state \<Rightarrow> bool" where
  "spsc_start s \<longleftrightarrow> hd_pos s = 0 \<and> tl_pos s = 0 \<and> producer s = P_idle \<and> consumer s = C_idle
     \<and> sent s = [] \<and> received s = []"

inductive spsc_push_step :: "nat \<Rightarrow> 'a spsc_state \<Rightarrow> 'a spsc_state \<Rightarrow> bool" for cap where
  push_load_head: "producer s = P_idle \<Longrightarrow>
    spsc_push_step cap s (s\<lparr>producer := P_head x (hd_pos s)\<rparr>)"
| push_load_tail: "producer s = P_head x h \<Longrightarrow>
    spsc_push_step cap s (s\<lparr>producer := P_tail x h (tl_pos s)\<rparr>)"
| push_full: "producer s = P_tail x h t \<Longrightarrow> t - h = cap \<Longrightarrow>
    spsc_push_step cap s (s\<lparr>producer := P_idle\<rparr>)"
| push_store: "producer s = P_tail x h t \<Longrightarrow> t - h \<noteq> cap \<Longrightarrow>
    spsc_push_step cap s (s\<lparr>producer := P_storing x t\<rparr>)"
| push_copying: "producer s = P_storing x t \<Longrightarrow>
    spsc_push_step cap s (s\<lparr>slots := (slots s)(t mod cap := y)\<rparr>)"
| push_copied: "producer s = P_storing x t \<Longrightarrow>
    spsc_push_step cap s (s\<lparr>slots := (slots s)(t mod cap := x), producer := P_stored x t\<rparr>)"
| push_publish: "producer s = P_stored x t \<Longrightarrow>
    spsc_push_step cap s (s\<lparr>tl_pos := tl_pos s + 1, producer := P_idle, sent := sent s @ [x]\<rparr>)"

inductive spsc_pop_step :: "nat \<Rightarrow> 'a spsc_state \<Rightarrow> 'a spsc_state \<Rightarrow> bool" for cap where
  pop_load_head: "consumer s = C_idle \<Longrightarrow>
    spsc_pop_step cap s (s\<lparr>consumer := C_head (hd_pos s)\<rparr>)"
| pop_load_tail: "consumer s = C_head h \<Longrightarrow>
    spsc_pop_step cap s (s\<lparr>consumer := C_tail h (tl_pos s)\<rparr>)"
| pop_empty: "consumer s = C_tail h t \<Longrightarrow> t - h = 0 \<Longrightarrow>
    spsc_pop_step cap s (s\<lparr>consumer := C_idle\<rparr>)"
| pop_read: "consumer s = C_tail h t \<Longrightarrow> t - h \<noteq> 0 \<Longrightarrow>
    spsc_pop_step cap s (s\<lparr>consumer := C_reading h\<rparr>)"
| pop_copied: "consumer s = C_reading h \<Longrightarrow>
    spsc_pop_step cap s (s\<lparr>consumer := C_read h (slots s (h mod cap))\<rparr>)"
| pop_release: "consumer s = C_read h v \<Longrightarrow>
    spsc_pop_step cap s (s\<lparr>hd_pos := h + 1, consumer := C_idle, received := received s @ [v]\<rparr>)"

text \<open>The producer or the consumer takes a step.\<close>

definition spsc_step :: "nat \<Rightarrow> 'a spsc_state \<Rightarrow> 'a spsc_state \<Rightarrow> bool" where
  "spsc_step cap s s' \<longleftrightarrow> spsc_push_step cap s s' \<or> spsc_pop_step cap s s'"

lemma spsc_stepI: "spsc_push_step cap s s' \<Longrightarrow> spsc_step cap s s'" "spsc_pop_step cap s s' \<Longrightarrow> spsc_step cap s s'"
  by (simp_all add: spsc_step_def)

subsection \<open>Invariant\<close>

definition producer_ok :: "nat \<Rightarrow> 'a spsc_state \<Rightarrow> bool" where
  "producer_ok cap s \<longleftrightarrow> (case producer s of
     P_idle \<Rightarrow> True
   | P_head x h \<Rightarrow> h \<le> hd_pos s \<and> tl_pos s \<le> h + cap
   | P_tail x h t \<Rightarrow> h \<le> hd_pos s \<and> tl_pos s \<le> h + cap \<and> t = tl_pos s
   | P_storing x t \<Rightarrow> t = tl_pos s \<and> tl_pos s < hd_pos s + cap
   | P_stored x t \<Rightarrow> t = tl_pos s \<and> tl_pos s < hd_pos s + cap \<and> slots s (t mod cap) = x)"

definition consumer_ok :: "nat \<Rightarrow> 'a spsc_state \<Rightarrow> bool" where
  "consumer_ok cap s \<longleftrightarrow> (case consumer s of
     C_idle \<Rightarrow> True
   | C_head h \<Rightarrow> h = hd_pos s
   | C_tail h t \<Rightarrow> h = hd_pos s \<and> t \<le> tl_pos s
   | C_reading h \<Rightarrow> h = hd_pos s \<and> hd_pos s < tl_pos s
   | C_read h v \<Rightarrow> h = hd_pos s \<and> hd_pos s < tl_pos s \<and> v = sent s ! h)"

definition queue_ok :: "nat \<Rightarrow> 'a spsc_state \<Rightarrow> bool" where
  "queue_ok cap s \<longleftrightarrow> hd_pos s \<le> tl_pos s \<and> tl_pos s \<le> hd_pos s + cap
     \<and> length (sent s) = tl_pos s \<and> received s = take (hd_pos s) (sent s)
     \<and> (\<forall>j. hd_pos s \<le> j \<and> j < tl_pos s \<longrightarrow> slots s (j mod cap) = sent s ! j)"

definition spsc_conc_inv :: "nat \<Rightarrow> 'a spsc_state \<Rightarrow> bool" where
  "spsc_conc_inv cap s \<longleftrightarrow> producer_ok cap s \<and> consumer_ok cap s \<and> queue_ok cap s"

lemmas spsc_inv_defs = spsc_conc_inv_def producer_ok_def consumer_ok_def queue_ok_def

lemma spsc_start_inv: "spsc_start s \<Longrightarrow> spsc_conc_inv cap s"
  by (simp add: spsc_start_def spsc_inv_defs)

text \<open>Copying into the slot behind the last element leaves the others alone.\<close>

lemma queue_ok_copy:
  assumes "queue_ok cap s" "tl_pos s < hd_pos s + cap"
  shows "queue_ok cap (s\<lparr>slots := (slots s)(tl_pos s mod cap := y), producer := p\<rparr>)"
    "queue_ok cap (s\<lparr>slots := (slots s)(tl_pos s mod cap := y)\<rparr>)"
proof -
  have "j mod cap \<noteq> tl_pos s mod cap" if "hd_pos s \<le> j" "j < tl_pos s" for j
    using that assms(2) mod_neq [of j "tl_pos s" cap] by simp
  with assms(1) show "queue_ok cap (s\<lparr>slots := (slots s)(tl_pos s mod cap := y), producer := p\<rparr>)"
    "queue_ok cap (s\<lparr>slots := (slots s)(tl_pos s mod cap := y)\<rparr>)"
    by (auto simp: queue_ok_def)
qed

lemma queue_ok_publish:
  assumes "queue_ok cap s" "tl_pos s < hd_pos s + cap" "slots s (tl_pos s mod cap) = x"
  shows "queue_ok cap (s\<lparr>tl_pos := tl_pos s + 1, producer := P_idle, sent := sent s @ [x]\<rparr>)"
  using assms by (auto simp: queue_ok_def nth_append less_Suc_eq)

lemma queue_ok_release:
  assumes "queue_ok cap s" "hd_pos s < tl_pos s" "v = sent s ! hd_pos s"
  shows "queue_ok cap (s\<lparr>hd_pos := hd_pos s + 1, consumer := C_idle, received := received s @ [v]\<rparr>)"
  using assms by (auto simp: queue_ok_def take_Suc_conv_app_nth)

lemma spsc_push_step_inv:
  assumes "spsc_conc_inv cap s" "spsc_push_step cap s s'"
  shows "spsc_conc_inv cap s'"
  using assms(2,1)
proof (induction rule: spsc_push_step.induct)
  case (push_copying s x t y)
  then have t: "t = tl_pos s" "tl_pos s < hd_pos s + cap" by (auto simp: spsc_conc_inv_def producer_ok_def)
  with push_copying queue_ok_copy(2) [of cap s y] show ?case
    by (auto simp: spsc_conc_inv_def producer_ok_def consumer_ok_def split: consumer.splits)
next
  case (push_copied s x t)
  then have t: "t = tl_pos s" "tl_pos s < hd_pos s + cap" by (auto simp: spsc_conc_inv_def producer_ok_def)
  with push_copied queue_ok_copy(1) [of cap s _ x] show ?case
    by (auto simp: spsc_conc_inv_def producer_ok_def consumer_ok_def split: consumer.splits)
next
  case (push_publish s x t)
  then have t: "t = tl_pos s" "tl_pos s < hd_pos s + cap" "slots s (tl_pos s mod cap) = x" "length (sent s) = tl_pos s"
    by (auto simp: spsc_inv_defs)
  with push_publish queue_ok_publish [of cap s x] show ?case
    by (auto simp: spsc_conc_inv_def producer_ok_def consumer_ok_def nth_append split: consumer.splits)
qed (auto simp: spsc_inv_defs split: producer.splits consumer.splits)

lemma spsc_pop_step_inv:
  assumes "spsc_conc_inv cap s" "spsc_pop_step cap s s'"
  shows "spsc_conc_inv cap s'"
  using assms(2,1)
proof (induction rule: spsc_pop_step.induct)
  case (pop_release s h v)
  then have h: "h = hd_pos s" "hd_pos s < tl_pos s" "v = sent s ! hd_pos s"
    by (auto simp: spsc_inv_defs)
  with pop_release queue_ok_release [of cap s v] show ?case
    by (auto simp: spsc_conc_inv_def producer_ok_def consumer_ok_def split: producer.splits)
qed (auto simp: spsc_inv_defs split: producer.splits consumer.splits)

interpretation spsc_conc: invariant_system spsc_start "spsc_step cap" "spsc_conc_inv cap" for cap
  by unfold_locales (auto simp: spsc_step_def intro: spsc_start_inv spsc_push_step_inv spsc_pop_step_inv)

subsection \<open>Theorems\<close>

text \<open>C7: Under every interleaving of one producer and one consumer, the items received are
  the first of the items sent, in order and intact, and at most \<open>cap\<close> items are in flight; the slots between the
  two positions hold exactly those.\<close>

theorem spsc_concurrent_fifo:
  assumes "reachable spsc_start (spsc_step cap) s"
  shows "received s = take (hd_pos s) (sent s) \<and> hd_pos s \<le> length (sent s) \<and> length (sent s) \<le> hd_pos s + cap
    \<and> drop (hd_pos s) (sent s) = map (\<lambda>j. slots s (j mod cap)) [hd_pos s..<length (sent s)]"
proof -
  have "queue_ok cap s" using spsc_conc.reachable_inv [OF assms] by (simp add: spsc_conc_inv_def)
  then show ?thesis by (auto simp: queue_ok_def intro!: nth_equalityI)
qed

text \<open>No item is copied in and out at the same time: when the producer is copying into a slot and the consumer
  is copying out of one, the two slots differ; and a slot the consumer
  is reading has been published.\<close>

theorem spsc_no_data_race:
  assumes "reachable spsc_start (spsc_step cap) s" "producer s = P_storing x t" "consumer s = C_reading h"
  shows "t mod cap \<noteq> h mod cap \<and> h < length (sent s)"
proof -
  have "spsc_conc_inv cap s" using spsc_conc.reachable_inv [OF assms(1)] .
  then have "t = tl_pos s" "h = hd_pos s" "tl_pos s < hd_pos s + cap" "hd_pos s < tl_pos s" "length (sent s) = tl_pos s"
    using assms(2,3) by (auto simp: spsc_inv_defs)
  then have "h mod cap \<noteq> t mod cap" by (intro mod_neq) simp_all
  with \<open>h = hd_pos s\<close> \<open>hd_pos s < tl_pos s\<close> \<open>length (sent s) = tl_pos s\<close> show ?thesis by simp
qed

text \<open>A run in which the producer copies its second item while the consumer reads the first.\<close>

definition spsc_busy :: "nat spsc_state" where
  "spsc_busy = \<lparr>slots = (\<lambda>_. 0)(0 := 5), hd_pos = 0, tl_pos = 1, producer = P_storing 6 1, consumer = C_reading 0,
     sent = [5], received = []\<rparr>"

lemma spsc_busy_reachable: "reachable spsc_start (spsc_step 2) spsc_busy"
proof -
  let ?s = "\<lparr>slots = (\<lambda>_. 0), hd_pos = 0, tl_pos = 0, producer = P_idle, consumer = C_idle,
     sent = [], received = []\<rparr> :: nat spsc_state"
  let ?R = "reachable spsc_start (spsc_step 2)"
  have "?R ?s" by (rule reachable.start) (simp add: spsc_start_def)
  from reachable.more [OF this spsc_stepI(1) [OF push_load_head [where x = 5]]]
  have "?R (?s\<lparr>producer := P_head 5 0\<rparr>)" by simp
  from reachable.more [OF this spsc_stepI(1) [OF push_load_tail [where x = 5 and h = 0]]]
  have "?R (?s\<lparr>producer := P_tail 5 0 0\<rparr>)" by simp
  from reachable.more [OF this spsc_stepI(1) [OF push_store [where x = 5 and h = 0 and t = 0]]]
  have "?R (?s\<lparr>producer := P_storing 5 0\<rparr>)" by simp
  from reachable.more [OF this spsc_stepI(1) [OF push_copied [where x = 5 and t = 0]]]
  have "?R (?s\<lparr>slots := (\<lambda>_. 0)(0 := 5), producer := P_stored 5 0\<rparr>)" by simp
  from reachable.more [OF this spsc_stepI(1) [OF push_publish [where x = 5 and t = 0]]]
  have "?R (?s\<lparr>slots := (\<lambda>_. 0)(0 := 5), tl_pos := 1, sent := [5]\<rparr>)" by simp
  from reachable.more [OF this spsc_stepI(2) [OF pop_load_head]]
  have "?R (?s\<lparr>slots := (\<lambda>_. 0)(0 := 5), tl_pos := 1, consumer := C_head 0, sent := [5]\<rparr>)" by simp
  from reachable.more [OF this spsc_stepI(2) [OF pop_load_tail [where h = 0]]]
  have "?R (?s\<lparr>slots := (\<lambda>_. 0)(0 := 5), tl_pos := 1, consumer := C_tail 0 1, sent := [5]\<rparr>)" by simp
  from reachable.more [OF this spsc_stepI(2) [OF pop_read [where h = 0 and t = 1]]]
  have "?R (?s\<lparr>slots := (\<lambda>_. 0)(0 := 5), tl_pos := 1, consumer := C_reading 0, sent := [5]\<rparr>)" by simp
  from reachable.more [OF this spsc_stepI(1) [OF push_load_head [where x = 6]]]
  have "?R (?s\<lparr>slots := (\<lambda>_. 0)(0 := 5), tl_pos := 1, producer := P_head 6 0, consumer := C_reading 0, sent := [5]\<rparr>)" by simp
  from reachable.more [OF this spsc_stepI(1) [OF push_load_tail [where x = 6 and h = 0]]]
  have "?R (?s\<lparr>slots := (\<lambda>_. 0)(0 := 5), tl_pos := 1, producer := P_tail 6 0 1, consumer := C_reading 0, sent := [5]\<rparr>)" by simp
  from reachable.more [OF this spsc_stepI(1) [OF push_store [where x = 6 and h = 0 and t = 1]]]
  show ?thesis by (simp add: spsc_busy_def)
qed

theorem spsc_concurrent_fifo_witness:
  "received spsc_busy = take (hd_pos spsc_busy) (sent spsc_busy) \<and> hd_pos spsc_busy \<le> length (sent spsc_busy)
    \<and> length (sent spsc_busy) \<le> hd_pos spsc_busy + 2
    \<and> drop (hd_pos spsc_busy) (sent spsc_busy)
        = map (\<lambda>j. slots spsc_busy (j mod 2)) [hd_pos spsc_busy..<length (sent spsc_busy)]"
  by (rule spsc_concurrent_fifo [OF spsc_busy_reachable])

theorem spsc_no_data_race_witness:
  "(1 :: nat) mod 2 \<noteq> 0 mod 2 \<and> 0 < length (sent spsc_busy)"
  by (rule spsc_no_data_race [OF spsc_busy_reachable]) (simp_all add: spsc_busy_def)

end
