(* ===== verification/Mpmc.thy ===== *)
theory Mpmc
  imports Prelude
begin

section \<open>The multi-producer multi-consumer queue (\<^verbatim>\<open>lockfree/mpmc_queue.c\<close>)\<close>

text \<open>
  Any number of threads push and pop through four positions
  \<open>temp_head \<le> head \<le> tail \<le> temp_tail\<close>. A push claims a position by a compare-and-exchange
  of \<^verbatim>\<open>temp_tail\<close>, copies its item, waits for its turn and advances \<^verbatim>\<open>tail\<close>; a pop claims a position by a
  compare-and-exchange of \<^verbatim>\<open>head\<close>, copies, waits and advances \<^verbatim>\<open>temp_head\<close>. The threads interleave at every access
  to a shared variable; a compare-and-exchange may fail spuriously; while an item is
  copied its slot holds arbitrary values. A failed assertion is the state \<open>T_failed\<close>.
  The counters are natural numbers, the slot of a position is
  computed as the code does it, through an \<^verbatim>\<open>int\<close>. History variables: \<open>claimed\<close> is the
  list of items in the order of their positions, \<open>popped\<close> lists the positions popped with the values read.
\<close>

subsection \<open>Definitions\<close>

text \<open>\<^verbatim>\<open>index % q->size\<close> for the \<^verbatim>\<open>int\<close> parameter \<^verbatim>\<open>index\<close> of \<open>item_addr\<close>: the 64-bit position is truncated to 32 bits and
  sign-extended again.\<close>

definition item_slot :: "nat \<Rightarrow> nat \<Rightarrow> nat" where
  "item_slot qsize index =
     unat ((scast (ucast (of_nat index :: u64) :: u32) :: u64) mod of_nat qsize)"

datatype 'a mpmc_thread =
    T_idle
  | Push_start 'a            \<comment> \<open>at the head of the loop of \<open>acquire_push_location\<close>\<close>
  | Push_tail 'a nat         \<comment> \<open>\<^verbatim>\<open>temp_tail\<close> loaded\<close>
  | Push_head 'a nat nat     \<comment> \<open>\<^verbatim>\<open>temp_tail\<close> and \<^verbatim>\<open>temp_head\<close> loaded\<close>
  | Pushing 'a nat           \<comment> \<open>inside \<^verbatim>\<open>memcpy\<close>\<close>
  | Push_wait 'a nat         \<comment> \<open>\<^verbatim>\<open>while (q->tail != index)\<close>\<close>
  | Push_turn 'a nat         \<comment> \<open>before \<^verbatim>\<open>q->tail++\<close>\<close>
  | Pop_start
  | Pop_head nat
  | Pop_tail nat nat
  | Popping nat
  | Pop_wait nat 'a
  | Pop_turn nat 'a
  | T_failed                 \<comment> \<open>a failed assertion\<close>

record 'a mpmc_state =
  slots :: "nat \<Rightarrow> 'a"
  temp_head :: nat
  head :: nat
  tail :: nat
  temp_tail :: nat
  thread :: "nat \<Rightarrow> 'a mpmc_thread"
  claimed :: "'a list"
  popped :: "(nat \<times> 'a) list"

definition mpmc_queue_init :: "'a mpmc_state \<Rightarrow> bool" where
  "mpmc_queue_init s \<longleftrightarrow> temp_head s = 0 \<and> head s = 0 \<and> tail s = 0 \<and> temp_tail s = 0
     \<and> thread s = (\<lambda>_. T_idle) \<and> claimed s = [] \<and> popped s = []"

definition goto :: "nat \<Rightarrow> 'a mpmc_thread \<Rightarrow> 'a mpmc_state \<Rightarrow> 'a mpmc_state" where
  "goto k pc s = s\<lparr>thread := (thread s)(k := pc)\<rparr>"

text \<open>\<^verbatim>\<open>acquire_push_location\<close> and \<^verbatim>\<open>release_push_location\<close>, with the copy of \<^verbatim>\<open>mpmc_queue_try_push\<close> between them.\<close>

inductive push_step :: "nat \<Rightarrow> nat \<Rightarrow> 'a mpmc_state \<Rightarrow> 'a mpmc_state \<Rightarrow> bool" for qsize k where
  push_call: "thread s k = T_idle \<Longrightarrow> push_step qsize k s (goto k (Push_start x) s)"
| push_load_tail: "thread s k = Push_start x \<Longrightarrow> push_step qsize k s (goto k (Push_tail x (temp_tail s)) s)"
| push_load_head: "thread s k = Push_tail x t \<Longrightarrow> push_step qsize k s (goto k (Push_head x t (temp_head s)) s)"
| push_full: "thread s k = Push_head x t h \<Longrightarrow> h + qsize = t \<Longrightarrow> push_step qsize k s (goto k T_idle s)"
| push_assert: "thread s k = Push_head x t h \<Longrightarrow> h + qsize < t \<Longrightarrow> push_step qsize k s (goto k T_failed s)"
| push_cas: "thread s k = Push_head x t h \<Longrightarrow> h + qsize > t \<Longrightarrow> temp_tail s = t \<Longrightarrow>
    push_step qsize k s (goto k (Pushing x t) (s\<lparr>temp_tail := t + 1, claimed := claimed s @ [x]\<rparr>))"
| push_retry: "thread s k = Push_head x t h \<Longrightarrow> h + qsize > t \<Longrightarrow> push_step qsize k s (goto k (Push_start x) s)"
| push_copying: "thread s k = Pushing x i \<Longrightarrow> push_step qsize k s (s\<lparr>slots := (slots s)(item_slot qsize i := y)\<rparr>)"
| push_copied: "thread s k = Pushing x i \<Longrightarrow>
    push_step qsize k s (goto k (Push_wait x i) (s\<lparr>slots := (slots s)(item_slot qsize i := x)\<rparr>))"
| push_turn: "thread s k = Push_wait x i \<Longrightarrow> tail s = i \<Longrightarrow> push_step qsize k s (goto k (Push_turn x i) s)"
| push_release: "thread s k = Push_turn x i \<Longrightarrow> push_step qsize k s (goto k T_idle (s\<lparr>tail := tail s + 1\<rparr>))"

inductive pop_step :: "nat \<Rightarrow> nat \<Rightarrow> 'a mpmc_state \<Rightarrow> 'a mpmc_state \<Rightarrow> bool" for qsize k where
  pop_call: "thread s k = T_idle \<Longrightarrow> pop_step qsize k s (goto k Pop_start s)"
| pop_load_head: "thread s k = Pop_start \<Longrightarrow> pop_step qsize k s (goto k (Pop_head (head s)) s)"
| pop_load_tail: "thread s k = Pop_head h \<Longrightarrow> pop_step qsize k s (goto k (Pop_tail h (tail s)) s)"
| pop_empty: "thread s k = Pop_tail h t \<Longrightarrow> h = t \<Longrightarrow> pop_step qsize k s (goto k T_idle s)"
| pop_assert: "thread s k = Pop_tail h t \<Longrightarrow> t < h \<Longrightarrow> pop_step qsize k s (goto k T_failed s)"
| pop_cas: "thread s k = Pop_tail h t \<Longrightarrow> h < t \<Longrightarrow> head s = h \<Longrightarrow>
    pop_step qsize k s (goto k (Popping h) (s\<lparr>head := h + 1\<rparr>))"
| pop_retry: "thread s k = Pop_tail h t \<Longrightarrow> h < t \<Longrightarrow> pop_step qsize k s (goto k Pop_start s)"
| pop_copied: "thread s k = Popping i \<Longrightarrow>
    pop_step qsize k s (goto k (Pop_wait i (slots s (item_slot qsize i)))
      (s\<lparr>popped := popped s @ [(i, slots s (item_slot qsize i))]\<rparr>))"
| pop_turn: "thread s k = Pop_wait i v \<Longrightarrow> temp_head s = i \<Longrightarrow> pop_step qsize k s (goto k (Pop_turn i v) s)"
| pop_release: "thread s k = Pop_turn i v \<Longrightarrow> pop_step qsize k s (goto k T_idle (s\<lparr>temp_head := temp_head s + 1\<rparr>))"

definition mpmc_step :: "nat \<Rightarrow> 'a mpmc_state \<Rightarrow> 'a mpmc_state \<Rightarrow> bool" where
  "mpmc_step qsize s s' \<longleftrightarrow> (\<exists>k. push_step qsize k s s' \<or> pop_step qsize k s s')"

subsection \<open>Slots\<close>

lemma item_slot_small:
  assumes "i < 2 ^ 31" "0 < qsize" "qsize < 2 ^ 31"
  shows "item_slot qsize i = i mod qsize"
proof -
  have u: "unat (ucast (of_nat i :: u64) :: u32) = i"
    using assms(1) by (subst unat_ucast_small) (simp_all add: unat_of_nat)
  have "sint (ucast (of_nat i :: u64) :: u32) = int i"
    using sint_small [of "ucast (of_nat i :: u64)"] assms(1) unfolding u by simp
  then have "(scast (ucast (of_nat i :: u64) :: u32) :: u64) = of_nat i"
    by (metis of_int_of_nat_eq of_int_sint)
  then show ?thesis
    using assms by (simp add: item_slot_def unat_mod_distrib unat_of_nat)
qed

subsection \<open>Invariant\<close>

fun push_index :: "'a mpmc_thread \<Rightarrow> nat option" where
  "push_index (Pushing x i) = Some i"
| "push_index (Push_wait x i) = Some i"
| "push_index (Push_turn x i) = Some i"
| "push_index _ = None"

fun pop_index :: "'a mpmc_thread \<Rightarrow> nat option" where
  "pop_index (Popping i) = Some i"
| "pop_index (Pop_wait i v) = Some i"
| "pop_index (Pop_turn i v) = Some i"
| "pop_index _ = None"

fun thread_ok :: "nat \<Rightarrow> 'a mpmc_state \<Rightarrow> 'a mpmc_thread \<Rightarrow> bool" where
  "thread_ok qsize s (Push_tail x t) \<longleftrightarrow> t \<le> temp_tail s"
| "thread_ok qsize s (Push_head x t h) \<longleftrightarrow> t \<le> h + qsize \<and> h \<le> temp_head s"
| "thread_ok qsize s (Pushing x i) \<longleftrightarrow> tail s \<le> i \<and> i < temp_tail s \<and> claimed s ! i = x"
| "thread_ok qsize s (Push_wait x i) \<longleftrightarrow> tail s \<le> i \<and> i < temp_tail s \<and> claimed s ! i = x \<and> slots s (item_slot qsize i) = x"
| "thread_ok qsize s (Push_turn x i) \<longleftrightarrow> tail s = i \<and> i < temp_tail s \<and> claimed s ! i = x \<and> slots s (item_slot qsize i) = x"
| "thread_ok qsize s (Pop_head h) \<longleftrightarrow> h \<le> head s"
| "thread_ok qsize s (Pop_tail h t) \<longleftrightarrow> h \<le> t \<and> t \<le> tail s"
| "thread_ok qsize s (Popping i) \<longleftrightarrow> temp_head s \<le> i \<and> i < head s \<and> i \<notin> fst ` set (popped s)"
| "thread_ok qsize s (Pop_wait i v) \<longleftrightarrow> temp_head s \<le> i \<and> i < head s"
| "thread_ok qsize s (Pop_turn i v) \<longleftrightarrow> temp_head s = i \<and> i < head s"
| "thread_ok qsize s T_failed \<longleftrightarrow> False"
| "thread_ok qsize s _ \<longleftrightarrow> True"

definition positions_ok :: "nat \<Rightarrow> 'a mpmc_state \<Rightarrow> bool" where
  "positions_ok qsize s \<longleftrightarrow> temp_head s \<le> head s \<and> head s \<le> tail s \<and> tail s \<le> temp_tail s
     \<and> temp_tail s \<le> temp_head s + qsize \<and> length (claimed s) = temp_tail s"

definition data_ok :: "nat \<Rightarrow> 'a mpmc_state \<Rightarrow> bool" where
  "data_ok qsize s \<longleftrightarrow> (\<forall>j. temp_head s \<le> j \<and> j < tail s \<longrightarrow> slots s (item_slot qsize j) = claimed s ! j)"

definition popped_ok :: "'a mpmc_state \<Rightarrow> bool" where
  "popped_ok s \<longleftrightarrow> distinct (map fst (popped s))
     \<and> (\<forall>(i, v) \<in> set (popped s). i < head s \<and> i < length (claimed s) \<and> v = claimed s ! i)"

text \<open>No two threads hold the same position.\<close>

definition unique_index :: "('t \<Rightarrow> nat option) \<Rightarrow> (nat \<Rightarrow> 't) \<Rightarrow> bool" where
  "unique_index f th \<longleftrightarrow> (\<forall>k l i. f (th k) = Some i \<longrightarrow> f (th l) = Some i \<longrightarrow> k = l)"

definition owners_ok :: "'a mpmc_state \<Rightarrow> bool" where
  "owners_ok s \<longleftrightarrow> unique_index push_index (thread s) \<and> unique_index pop_index (thread s)"

definition mpmc_inv :: "nat \<Rightarrow> 'a mpmc_state \<Rightarrow> bool" where
  "mpmc_inv qsize s \<longleftrightarrow> positions_ok qsize s \<and> data_ok qsize s \<and> popped_ok s \<and> owners_ok s
     \<and> (\<forall>k. thread_ok qsize s (thread s k))"

subsection \<open>Preservation\<close>

lemma goto_simps [simp]:
  "slots (goto k pc s) = slots s" "temp_head (goto k pc s) = temp_head s" "head (goto k pc s) = head s"
  "tail (goto k pc s) = tail s" "temp_tail (goto k pc s) = temp_tail s" "claimed (goto k pc s) = claimed s"
  "popped (goto k pc s) = popped s" "thread (goto k pc s) = (thread s)(k := pc)"
  by (simp_all add: goto_def)

lemma thread_ok_goto [simp]: "thread_ok n (goto k pc s) p = thread_ok n s p"
  by (cases p) (simp_all add: goto_def)

lemma unique_index_upd:
  assumes "unique_index f th" "\<And>l i. l \<noteq> k \<Longrightarrow> f pc = Some i \<Longrightarrow> f (th l) \<noteq> Some i"
  shows "unique_index f (th(k := pc))"
  unfolding unique_index_def
proof (intro allI impI)
  fix a b i
  assume "f ((th(k := pc)) a) = Some i" "f ((th(k := pc)) b) = Some i"
  then show "a = b"
    using assms by (cases "a = k"; cases "b = k") (auto simp: unique_index_def)
qed

text \<open>A thread moves on in a state in which all the others are well.\<close>

lemma goto_inv:
  assumes "positions_ok n s" "data_ok n s" "popped_ok s" "owners_ok s"
    and "\<And>l. l \<noteq> k \<Longrightarrow> thread_ok n s (thread s l)" "thread_ok n s pc"
    and "\<And>l i. l \<noteq> k \<Longrightarrow> push_index pc = Some i \<Longrightarrow> push_index (thread s l) \<noteq> Some i"
    and "\<And>l i. l \<noteq> k \<Longrightarrow> pop_index pc = Some i \<Longrightarrow> pop_index (thread s l) \<noteq> Some i"
  shows "mpmc_inv n (goto k pc s)"
proof -
  have "positions_ok n (goto k pc s)" "data_ok n (goto k pc s)" "popped_ok (goto k pc s)"
    using assms(1-3) by (simp_all add: positions_ok_def data_ok_def popped_ok_def)
  moreover have "owners_ok (goto k pc s)"
    using assms(4,7,8) unfolding owners_ok_def goto_simps by (intro conjI unique_index_upd) auto
  moreover have "\<forall>l. thread_ok n (goto k pc s) (thread (goto k pc s) l)"
    using assms(5,6) by simp
  ultimately show ?thesis by (simp add: mpmc_inv_def)
qed

text \<open>The owner of a position is unique.\<close>

lemma owner_unique:
  assumes "mpmc_inv n s" "l \<noteq> k"
  shows "push_index (thread s k) = Some i \<Longrightarrow> push_index (thread s l) \<noteq> Some i"
    "pop_index (thread s k) = Some i \<Longrightarrow> pop_index (thread s l) \<noteq> Some i"
  using assms by (auto simp: mpmc_inv_def owners_ok_def unique_index_def)

lemma inv_parts:
  assumes "mpmc_inv n s"
  shows "positions_ok n s" "data_ok n s" "popped_ok s" "owners_ok s" "thread_ok n s (thread s l)"
  using assms by (auto simp: mpmc_inv_def)

lemma move_inv:
  assumes "mpmc_inv n s" "thread_ok n s pc"
    and "push_index pc = None \<or> push_index pc = push_index (thread s k)"
    and "pop_index pc = None \<or> pop_index pc = pop_index (thread s k)"
  shows "mpmc_inv n (goto k pc s)"
proof (rule goto_inv)
  show "push_index (thread s l) \<noteq> Some i" if "l \<noteq> k" "push_index pc = Some i" for l i
    using that assms(3) owner_unique(1) [OF assms(1) that(1), of i] by auto
  show "pop_index (thread s l) \<noteq> Some i" if "l \<noteq> k" "pop_index pc = Some i" for l i
    using that assms(4) owner_unique(2) [OF assms(1) that(1), of i] by auto
qed (use inv_parts [OF assms(1)] assms(2) in auto)

lemma index_ranges:
  assumes "mpmc_inv n s"
  shows "push_index (thread s l) = Some i \<Longrightarrow> tail s \<le> i \<and> i < temp_tail s"
    "pop_index (thread s l) = Some i \<Longrightarrow> temp_head s \<le> i \<and> i < head s"
  using inv_parts(5) [OF assms, of l] by (cases "thread s l"; auto)+

lemma slot_neq:
  assumes "positions_ok n s" "0 < n" "n < 2 ^ 31" "temp_tail s \<le> 2 ^ 31"
    and "temp_head s \<le> i" "i < temp_tail s" "temp_head s \<le> j" "j < temp_tail s" "i \<noteq> j"
  shows "item_slot n i \<noteq> item_slot n j"
proof -
  have "item_slot n i = i mod n" "item_slot n j = j mod n"
    using assms by (auto intro!: item_slot_small)
  moreover have "i mod n \<noteq> j mod n"
  proof (cases "i < j")
    case True
    then show ?thesis using assms by (intro mod_neq) (auto simp: positions_ok_def)
  next
    case False
    then have "j mod n \<noteq> i mod n" using assms by (intro mod_neq) (auto simp: positions_ok_def)
    then show ?thesis by simp
  qed
  ultimately show ?thesis by simp
qed

text \<open>Writing to a slot that is owned by a pushing thread.\<close>

lemma copy_frame:
  fixes y :: 'a
  assumes inv: "mpmc_inv n s" and n: "0 < n" "n < 2 ^ 31" "temp_tail s \<le> 2 ^ 31"
    and k: "push_index (thread s k) = Some i"
  defines "s1 \<equiv> s\<lparr>slots := (slots s)(item_slot n i := y)\<rparr>"
  shows "positions_ok n s1" "data_ok n s1" "popped_ok s1" "owners_ok s1"
    "\<And>l. l \<noteq> k \<Longrightarrow> thread_ok n s1 (thread s1 l)"
proof -
  note P = inv_parts(1) [OF inv]
  note ri = index_ranges(1) [OF inv k]
  have th: "temp_head s \<le> tail s" "tail s \<le> temp_tail s" using P by (auto simp: positions_ok_def)
  show "positions_ok n s1" "popped_ok s1" "owners_ok s1"
    using inv_parts(1,3,4) [OF inv] by (simp_all add: s1_def positions_ok_def popped_ok_def owners_ok_def)
  have ne: "item_slot n j \<noteq> item_slot n i" if "temp_head s \<le> j" "j < temp_tail s" "j \<noteq> i" for j
    using slot_neq [OF P n(1,2,3) that(1,2)] ri th that(3) by auto
  show "data_ok n s1"
    using inv_parts(2) [OF inv] ne ri th by (auto simp: s1_def data_ok_def)
  show "thread_ok n s1 (thread s1 l)" if l: "l \<noteq> k" for l
  proof -
    have "j \<noteq> i" "temp_head s \<le> j" "j < temp_tail s" if "push_index (thread s l) = Some j" for j
      using that owner_unique(1) [OF inv l k] index_ranges(1) [OF inv that] th by auto
    then show ?thesis
      using inv_parts(5) [OF inv, of l] ne by (cases "thread s l") (auto simp: s1_def)
  qed
qed

lemma push_step_inv:
  assumes "push_step n k s s'" "mpmc_inv n s" "0 < n" "n < 2 ^ 31" "temp_tail s' \<le> 2 ^ 31"
  shows "mpmc_inv n s'"
  using assms
proof (induction rule: push_step.induct)
  case (push_call s x)
  then show ?case by (intro move_inv) simp_all
next
  case (push_load_tail s x)
  then show ?case by (intro move_inv) simp_all
next
  case (push_load_head s x t)
  then have "t \<le> temp_tail s" "temp_tail s \<le> temp_head s + n"
    using inv_parts(5) [of n s k] inv_parts(1) [of n s] by (auto simp: positions_ok_def)
  with push_load_head show ?case by (intro move_inv) simp_all
next
  case (push_full s x t h)
  then show ?case by (intro move_inv) simp_all
next
  case (push_assert s x t h)
  then show ?case using inv_parts(5) [of n s k] by simp
next
  case (push_cas s x t h)
  then have P: "positions_ok n s" "t < temp_head s + n"
    using inv_parts(1) [of n s] inv_parts(5) [of n s k] by auto
  let ?s = "s\<lparr>temp_tail := t + 1, claimed := claimed s @ [x]\<rparr>"
  have len: "length (claimed s) = t" "tail s \<le> t" using P push_cas.hyps by (auto simp: positions_ok_def)
  show ?case
  proof (rule goto_inv)
    show "positions_ok n ?s" using P push_cas.hyps by (auto simp: positions_ok_def)
    show "data_ok n ?s" "popped_ok ?s" "owners_ok ?s"
      using inv_parts(2,3,4) [OF push_cas.prems(1)] len
      by (auto simp: data_ok_def popped_ok_def owners_ok_def nth_append)
    show "thread_ok n ?s (thread ?s l)" if "l \<noteq> k" for l
      using inv_parts(5) [OF push_cas.prems(1), of l] len push_cas.hyps
      by (cases "thread s l") (auto simp: nth_append)
    show "thread_ok n ?s (Pushing x t)" using len by (simp add: nth_append)
    show "push_index (thread ?s l) \<noteq> Some i" if "l \<noteq> k" "push_index (Pushing x t) = Some i" for l i
      using that index_ranges(1) [OF push_cas.prems(1), of l] push_cas.hyps by auto
  qed simp
next
  case (push_retry s x t h)
  then show ?case by (intro move_inv) simp_all
next
  case (push_copying s x i y)
  then have k: "push_index (thread s k) = Some i" by simp
  let ?s = "s\<lparr>slots := (slots s)(item_slot n i := y)\<rparr>"
  have "temp_tail s \<le> 2 ^ 31" using push_copying.prems(4) by simp
  note f = copy_frame [OF push_copying.prems(1-3) this k, where y = y]
  have "thread_ok n ?s (thread s k)"
    using inv_parts(5) [OF push_copying.prems(1), of k] push_copying.hyps by simp
  then have "thread_ok n ?s (thread ?s l)" for l
    using f(5) [of l] by (cases "l = k") simp_all
  with f(1-4) show ?case by (simp add: mpmc_inv_def)
next
  case (push_copied s x i)
  then have k: "push_index (thread s k) = Some i" by simp
  note f = copy_frame [OF push_copied.prems(1-3) _ k, where y = x]
  show ?case
  proof (rule goto_inv)
    show "thread_ok n (s\<lparr>slots := (slots s)(item_slot n i := x)\<rparr>) (Push_wait x i)"
      using inv_parts(5) [OF push_copied.prems(1), of k] push_copied.hyps by simp
    show "push_index (thread (s\<lparr>slots := (slots s)(item_slot n i := x)\<rparr>) l) \<noteq> Some j"
      if "l \<noteq> k" "push_index (Push_wait x i) = Some j" for l j
      using that owner_unique(1) [OF push_copied.prems(1) that(1) k] by simp
  qed (use f push_copied.prems(4) in simp_all)
next
  case (push_turn s x i)
  then show ?case using inv_parts(5) [of n s k] by (intro move_inv) simp_all
next
  case (push_release s x i)
  then have k: "push_index (thread s k) = Some i" by simp
  from push_release have i: "tail s = i" "i < temp_tail s" "claimed s ! i = x" "slots s (item_slot n i) = x"
    using inv_parts(5) [of n s k] by auto
  let ?s = "s\<lparr>tail := tail s + 1\<rparr>"
  note I = push_release.prems(1)
  show ?case
  proof (rule goto_inv)
    show "positions_ok n ?s" "popped_ok ?s" "owners_ok ?s"
      using inv_parts(1,3,4) [OF I] i by (auto simp: positions_ok_def popped_ok_def owners_ok_def)
    show "data_ok n ?s" using inv_parts(2) [OF I] i by (auto simp: data_ok_def less_Suc_eq)
    show "thread_ok n ?s (thread ?s l)" if l: "l \<noteq> k" for l
      using inv_parts(5) [OF I, of l] owner_unique(1) [OF I l k] i
      by (cases "thread s l") (auto simp: Suc_le_eq order.order_iff_strict)
  qed simp_all
qed

lemma pop_step_inv:
  assumes "pop_step n k s s'" "mpmc_inv n s"
  shows "mpmc_inv n s'"
  using assms
proof (induction rule: pop_step.induct)
  case (pop_call s)
  then show ?case by (intro move_inv) simp_all
next
  case (pop_load_head s)
  then show ?case by (intro move_inv) simp_all
next
  case (pop_load_tail s h)
  then have "h \<le> head s" "head s \<le> tail s"
    using inv_parts(5) [of n s k] inv_parts(1) [of n s] by (auto simp: positions_ok_def)
  with pop_load_tail show ?case by (intro move_inv) simp_all
next
  case (pop_empty s h t)
  then show ?case by (intro move_inv) simp_all
next
  case (pop_assert s h t)
  then show ?case using inv_parts(5) [of n s k] by simp
next
  case (pop_cas s h t)
  note I = pop_cas.prems(1)
  from pop_cas have t: "h < tail s" "head s = h" using inv_parts(5) [of n s k] by auto
  let ?s = "s\<lparr>head := h + 1\<rparr>"
  show ?case
  proof (rule goto_inv)
    show "positions_ok n ?s" "data_ok n ?s" "owners_ok ?s"
      using inv_parts(1,2,4) [OF I] t by (auto simp: positions_ok_def data_ok_def owners_ok_def)
    show "popped_ok ?s" using inv_parts(3) [OF I] t by (fastforce simp: popped_ok_def)
    show "thread_ok n ?s (thread ?s l)" if "l \<noteq> k" for l
      using inv_parts(5) [OF I, of l] t by (cases "thread s l") auto
    show "thread_ok n ?s (Popping h)"
      using inv_parts(1,3) [OF I] t by (fastforce simp: positions_ok_def popped_ok_def)
    show "pop_index (thread ?s l) \<noteq> Some i" if "l \<noteq> k" "pop_index (Popping h) = Some i" for l i
      using that index_ranges(2) [OF I, of l] t by auto
  qed simp
next
  case (pop_retry s h t)
  then show ?case by (intro move_inv) simp_all
next
  case (pop_copied s i)
  note I = pop_copied.prems(1)
  from pop_copied have k: "pop_index (thread s k) = Some i" by simp
  from pop_copied have i: "temp_head s \<le> i" "i < head s" "i \<notin> fst ` set (popped s)"
    using inv_parts(5) [of n s k] by auto
  have lt: "i < tail s" "i < length (claimed s)" using i inv_parts(1) [OF I] by (auto simp: positions_ok_def)
  have v: "slots s (item_slot n i) = claimed s ! i" using inv_parts(2) [OF I] i lt by (simp add: data_ok_def)
  let ?s = "s\<lparr>popped := popped s @ [(i, slots s (item_slot n i))]\<rparr>"
  show ?case
  proof (rule goto_inv)
    show "positions_ok n ?s" "data_ok n ?s" "owners_ok ?s"
      using inv_parts(1,2,4) [OF I] by (simp_all add: positions_ok_def data_ok_def owners_ok_def)
    show "popped_ok ?s" using inv_parts(3) [OF I] i lt v by (auto simp: popped_ok_def)
    show "thread_ok n ?s (thread ?s l)" if l: "l \<noteq> k" for l
      using inv_parts(5) [OF I, of l] owner_unique(2) [OF I l k] by (cases "thread s l") auto
    show "thread_ok n ?s (Pop_wait i (slots s (item_slot n i)))" using i by simp
    show "pop_index (thread ?s l) \<noteq> Some j" if "l \<noteq> k" "pop_index (Pop_wait i (slots s (item_slot n i))) = Some j" for l j
      using that owner_unique(2) [OF I that(1) k] by simp
  qed simp
next
  case (pop_turn s i v)
  then show ?case using inv_parts(5) [of n s k] by (intro move_inv) simp_all
next
  case (pop_release s i v)
  note I = pop_release.prems(1)
  from pop_release have k: "pop_index (thread s k) = Some i" by simp
  from pop_release have i: "temp_head s = i" "i < head s" using inv_parts(5) [of n s k] by auto
  let ?s = "s\<lparr>temp_head := temp_head s + 1\<rparr>"
  show ?case
  proof (rule goto_inv)
    show "positions_ok n ?s" "data_ok n ?s" "popped_ok ?s" "owners_ok ?s"
      using inv_parts(1,2,3,4) [OF I] i by (auto simp: positions_ok_def data_ok_def popped_ok_def owners_ok_def)
    show "thread_ok n ?s (thread ?s l)" if l: "l \<noteq> k" for l
      using inv_parts(5) [OF I, of l] owner_unique(2) [OF I l k] i
      by (cases "thread s l") (auto simp: Suc_le_eq order.order_iff_strict)
  qed simp_all
qed

text \<open>The slots are computed correctly as long as the positions fit an \<^verbatim>\<open>int\<close>; \<open>temp_tail\<close> only grows.\<close>

lemma temp_tail_mono: "mpmc_step n s s' \<Longrightarrow> temp_tail s \<le> temp_tail s'"
  by (auto simp: mpmc_step_def elim: push_step.cases pop_step.cases)

definition mpmc_inv_small :: "nat \<Rightarrow> 'a mpmc_state \<Rightarrow> bool" where
  "mpmc_inv_small n s \<longleftrightarrow> (temp_tail s \<le> 2 ^ 31 \<longrightarrow> mpmc_inv n s)"

lemma mpmc_init_inv: "mpmc_queue_init s \<Longrightarrow> mpmc_inv n s"
  by (simp add: mpmc_queue_init_def mpmc_inv_def positions_ok_def data_ok_def popped_ok_def owners_ok_def unique_index_def)

lemma mpmc_step_inv:
  assumes "0 < n" "n < 2 ^ 31" "mpmc_inv_small n s" "mpmc_step n s s'"
  shows "mpmc_inv_small n s'"
  unfolding mpmc_inv_small_def
proof
  assume small: "temp_tail s' \<le> 2 ^ 31"
  then have "mpmc_inv n s" using assms(3) temp_tail_mono [OF assms(4)] by (simp add: mpmc_inv_small_def)
  then show "mpmc_inv n s'"
    using assms(1,2,4) small by (auto simp: mpmc_step_def intro: push_step_inv pop_step_inv)
qed

text \<open>A ring of at least one and at most \<^verbatim>\<open>INT_MAX\<close> cells.\<close>

definition ring_step :: "nat \<Rightarrow> 'a mpmc_state \<Rightarrow> 'a mpmc_state \<Rightarrow> bool" where
  "ring_step n s s' \<longleftrightarrow> 0 < n \<and> n < 2 ^ 31 \<and> mpmc_step n s s'"

interpretation mpmc: invariant_system mpmc_queue_init "ring_step n" "mpmc_inv_small n" for n
proof
  show "mpmc_inv_small n s" if "mpmc_queue_init s" for s :: "'a mpmc_state"
    using mpmc_init_inv [OF that] by (simp add: mpmc_inv_small_def)
  show "mpmc_inv_small n s'" if "mpmc_inv_small n s" "ring_step n s s'" for s s' :: "'a mpmc_state"
    using that by (auto simp: ring_step_def intro: mpmc_step_inv)
qed

subsection \<open>Theorems\<close>

lemma mpmc_reachable_inv:
  "reachable mpmc_queue_init (ring_step n) s \<Longrightarrow> temp_tail s \<le> 2 ^ 31 \<Longrightarrow> mpmc_inv n s"
  using mpmc.reachable_inv by (auto simp: mpmc_inv_small_def)

text \<open>C4: Exactly-once delivery. Under every interleaving of any number of pushing and popping threads, no position is popped twice
  and the value popped at a position is the item that the push that claimed that position brought; the four
  positions stay in order and at most one capacity apart. This holds as long as fewer than \<open>2 ^ 31\<close> items have been pushed.\<close>

theorem mpmc_exactly_once:
  assumes "reachable mpmc_queue_init (ring_step n) s" "temp_tail s \<le> 2 ^ 31"
  shows "distinct (map fst (popped s)) \<and> (\<forall>(i, v) \<in> set (popped s). i < length (claimed s) \<and> v = claimed s ! i)
    \<and> temp_head s \<le> head s \<and> head s \<le> tail s \<and> tail s \<le> temp_tail s \<and> temp_tail s \<le> temp_head s + n"
  using inv_parts(1,3) [OF mpmc_reachable_inv [OF assms]] by (auto simp: positions_ok_def popped_ok_def)

text \<open>C19: In every state that any interleaving reaches, as long as fewer than \<open>2 ^ 31\<close> items have been pushed, no thread has failed an assertion of the queue, whatever the other threads are doing, and no
  two threads copy to or from the same slot at the same time (at least one of them pushing).\<close>

theorem mpmc_no_race:
  assumes "reachable mpmc_queue_init (ring_step n) s" "temp_tail s \<le> 2 ^ 31" "0 < n" "n < 2 ^ 31"
  shows "(\<forall>m. thread s m \<noteq> T_failed)
    \<and> (\<forall>k l x y i j. k \<noteq> l \<longrightarrow> thread s k = Pushing x i \<longrightarrow> thread s l = Pushing y j \<or> thread s l = Popping j \<longrightarrow> item_slot n i \<noteq> item_slot n j)"
proof (intro conjI allI impI)
  note I = mpmc_reachable_inv [OF assms(1,2)]
  note P = inv_parts(1) [OF I]
  show "thread s m \<noteq> T_failed" for m using inv_parts(5) [OF I, of m] by auto
  fix k l x y i j
  assume k: "k \<noteq> l" "thread s k = Pushing x i" and l: "thread s l = Pushing y j \<or> thread s l = Popping j"
  have i: "push_index (thread s k) = Some i" using k(2) by simp
  have ne: "i \<noteq> j" "temp_head s \<le> j" "j < temp_tail s"
    using k(1) l owner_unique(1) [OF I, of l k i] i index_ranges [OF I, of l j] index_ranges(1) [OF I i] P
    by (auto simp: positions_ok_def)
  show "item_slot n i \<noteq> item_slot n j"
    using slot_neq [OF P assms(3,4,2)] index_ranges(1) [OF I i] ne P by (auto simp: positions_ok_def)
qed

lemma push_more:
  "reachable mpmc_queue_init (ring_step 4) s \<Longrightarrow> push_step 4 k s s' \<Longrightarrow> reachable mpmc_queue_init (ring_step 4) s'"
  by (rule reachable.more) (auto simp: ring_step_def mpmc_step_def)

text \<open>A state in which two threads are copying their items into a ring of four.\<close>

definition mpmc_busy :: "nat mpmc_state" where
  "mpmc_busy = \<lparr>slots = (\<lambda>_. 0), temp_head = 0, head = 0, tail = 0, temp_tail = 2,
     thread = (\<lambda>_. T_idle)(0 := Pushing 5 0, 1 := Pushing 6 1), claimed = [5, 6], popped = []\<rparr>"

lemma mpmc_busy_reachable: "reachable mpmc_queue_init (ring_step 4) mpmc_busy"
proof -
  let ?s = "\<lparr>slots = (\<lambda>_. 0), temp_head = 0, head = 0, tail = 0, temp_tail = 0,
     thread = (\<lambda>_. T_idle), claimed = [], popped = []\<rparr> :: nat mpmc_state"
  let ?t = "?s\<lparr>temp_tail := 1, thread := (\<lambda>_. T_idle)(0 := Pushing 5 0), claimed := [5]\<rparr>"
  let ?R = "reachable mpmc_queue_init (ring_step 4)"
  have "?R ?s" by (rule reachable.start) (simp add: mpmc_queue_init_def)
  from push_more [OF this push_call [where k = 0 and x = 5]]
  have "?R (goto 0 (Push_start 5) ?s)" by simp
  from push_more [OF this push_load_tail [where k = 0 and x = 5]]
  have "?R (goto 0 (Push_tail 5 0) ?s)" by (simp add: goto_def)
  from push_more [OF this push_load_head [where k = 0 and x = 5 and t = 0]]
  have "?R (goto 0 (Push_head 5 0 0) ?s)" by (simp add: goto_def)
  from push_more [OF this push_cas [where k = 0 and x = 5 and t = 0 and h = 0]]
  have "?R ?t" by (simp add: goto_def)
  from push_more [OF this push_call [where k = 1 and x = 6]]
  have "?R (goto 1 (Push_start 6) ?t)" by simp
  from push_more [OF this push_load_tail [where k = 1 and x = 6]]
  have "?R (goto 1 (Push_tail 6 1) ?t)" by (simp add: goto_def)
  from push_more [OF this push_load_head [where k = 1 and x = 6 and t = 1]]
  have "?R (goto 1 (Push_head 6 1 0) ?t)" by (simp add: goto_def)
  from push_more [OF this push_cas [where k = 1 and x = 6 and t = 1 and h = 0]]
  show ?thesis by (simp add: goto_def mpmc_busy_def numeral_2_eq_2)
qed

theorem mpmc_exactly_once_witness:
  "claimed mpmc_busy = [5, 6] \<and> distinct (map fst (popped mpmc_busy)) \<and> temp_tail mpmc_busy \<le> temp_head mpmc_busy + 4"
  using mpmc_exactly_once [OF mpmc_busy_reachable] by (simp add: mpmc_busy_def)

theorem mpmc_no_race_witness:
  "item_slot 4 0 \<noteq> item_slot 4 1 \<and> thread mpmc_busy 7 \<noteq> T_failed"
proof -
  have "thread mpmc_busy 0 = Pushing 5 0" "thread mpmc_busy 1 = Pushing 6 1" "temp_tail mpmc_busy \<le> 2 ^ 31" by (simp_all add: mpmc_busy_def)
  moreover from this have "(\<forall>m. thread mpmc_busy m \<noteq> T_failed) \<and> (\<forall>k l x y i j. k \<noteq> l \<longrightarrow> thread mpmc_busy k = Pushing x i \<longrightarrow>
      thread mpmc_busy l = Pushing y j \<or> thread mpmc_busy l = Popping j \<longrightarrow> item_slot 4 i \<noteq> item_slot 4 j)"
    by (intro mpmc_no_race [OF mpmc_busy_reachable]) simp_all
  ultimately show ?thesis by (metis zero_neq_one)
qed

text \<open>The bound on the positions is needed. \<open>item_addr\<close> takes the 64-bit position as an \<^verbatim>\<open>int\<close>; from position \<open>2 ^ 31\<close> on
  the remainder is taken of a sign-extended value, and in a ring of seven cells two positions that are two apart fall
  into the same slot, so that one of two items in flight overwrites the other.\<close>

theorem mpmc_slot_collision:
  "item_slot 7 (2 ^ 31 - 1) = item_slot 7 (2 ^ 31 + 1)"
  by (simp add: item_slot_def)

end
