(* ===== verification/Spmc.thy ===== *)
theory Spmc
  imports Prelude
begin

section \<open>The single-producer multi-consumer queue (\<^verbatim>\<open>lockfree/spmc_queue.c\<close>)\<close>

text \<open>
  The file is marked as not tested. The operations are modelled at machine width, one at a time: with no
  interference the compare-and-exchange of \<open>spmc_queue_pop\<close> succeeds (a spurious failure
  repeats the same reads). The size of an item and the capacity exponent are natural numbers.
\<close>

record spmc_queue =
  data :: "u8 list"
  item_size :: nat
  capacity_log2 :: nat
  head :: u64
  tail :: u64

definition spmc_queue_create :: "u8 list \<Rightarrow> nat \<Rightarrow> nat \<Rightarrow> spmc_queue" where
  "spmc_queue_create mem isize cap_log2 =
     \<lparr>data = mem, item_size = isize, capacity_log2 = cap_log2, head = 0, tail = 0\<rparr>"

definition capacity :: "spmc_queue \<Rightarrow> u32" where
  "capacity q = push_bit (capacity_log2 q) 1"

definition slot_offset :: "spmc_queue \<Rightarrow> u64 \<Rightarrow> nat" where
  "slot_offset q pos = unat (ucast (pos AND ucast (capacity q - 1)) :: u32) * item_size q"

definition spmc_queue_push :: "spmc_queue \<Rightarrow> u8 list \<Rightarrow> (bool \<times> spmc_queue) res" where
  "spmc_queue_push q item =
     rbind (c_assert (tail q - head q \<le> ucast (capacity q))) (\<lambda>_.
       if tail q - head q = ucast (capacity q) then Inr (False, q)
       else
         rbind (memcpy (data q) (slot_offset q (tail q)) (take (item_size q) item)) (\<lambda>d.
         rbind (c_assert (tail q < - 1)) (\<lambda>_.
           let tail' = tail q + 1
           in Inr (True, q\<lparr>data := d, tail := tail q + tail'\<rparr>))))"

definition spmc_queue_pop :: "spmc_queue \<Rightarrow> (u8 list option \<times> spmc_queue) res" where
  "spmc_queue_pop q =
     (if head q \<ge> tail q then Inr (None, q)
      else if slot_offset q (head q) + item_size q \<le> length (data q)
      then Inr (Some (chunk (data q) (slot_offset q (head q)) (item_size q)), q\<lparr>head := head q + 1\<rparr>)
      else Inl Out_of_bounds)"

text \<open>A push adds the new tail to the old one (\<^verbatim>\<open>atomic_fetch_add\<close> with the incremented tail) instead of advancing it by
  one. A push that is accepted therefore moves \<open>tail\<close> to \<open>2 tail + 1\<close>.\<close>

theorem spmc_push_tail:
  assumes "spmc_queue_push q item = Inr (True, q')"
  shows "tail q' = 2 * tail q + 1 \<and> head q' = head q"
  using assms by (auto simp: spmc_queue_push_def rbind_eq_Inr Let_def split: if_splits)

theorem spmc_push_tail_witness:
  "\<exists>q'. spmc_queue_push \<lparr>data = [0, 0], item_size = 1, capacity_log2 = 1, head = 0, tail = 1\<rparr> [9] = Inr (True, q')
    \<and> tail q' = 2 * tail \<lparr>data = [0, 0], item_size = 1, capacity_log2 = 1, head = 0, tail = 1\<rparr> + 1"
proof -
  let ?q = "\<lparr>data = [0, 0], item_size = 1, capacity_log2 = 1, head = 0, tail = 1\<rparr>"
  have "\<exists>q'. spmc_queue_push ?q [9] = Inr (True, q')"
    by (intro exI [of _ "\<lparr>data = [0, 9], item_size = 1, capacity_log2 = 1, head = 0, tail = 3\<rparr>"]) code_simp
  then show ?thesis using spmc_push_tail [of ?q "[9]"] by blast
qed

text \<open>A queue of capacity two after two pushes: a third push fails the assertion of the
  code instead of reporting a full queue, and three items can be popped, the third a repetition of the first.\<close>

theorem spmc_capacity_two:
  "let q0 = spmc_queue_create [0, 0] 1 1 in
   \<exists>q1 q2 q3 q4 q5. spmc_queue_push q0 [7] = Inr (True, q1) \<and> spmc_queue_push q1 [8] = Inr (True, q2)
     \<and> spmc_queue_push q2 [9] = Inl Assert_failed
     \<and> spmc_queue_pop q2 = Inr (Some [7], q3) \<and> spmc_queue_pop q3 = Inr (Some [8], q4) \<and> spmc_queue_pop q4 = Inr (Some [7], q5)"
proof -
  define q where "q h t = \<lparr>data = [7, 8], item_size = 1, capacity_log2 = 1, head = h, tail = t\<rparr>" for h t
  let ?q1 = "\<lparr>data = [7, 0], item_size = 1, capacity_log2 = 1, head = 0, tail = 1\<rparr>"
  have "spmc_queue_push (spmc_queue_create [0, 0] 1 1) [7] = Inr (True, ?q1)" by code_simp
  moreover have "spmc_queue_push ?q1 [8] = Inr (True, q 0 3)" unfolding q_def by code_simp
  moreover have "spmc_queue_push (q 0 3) [9] = Inl Assert_failed" unfolding q_def by code_simp
  moreover have "spmc_queue_pop (q 0 3) = Inr (Some [7], q 1 3)" "spmc_queue_pop (q 1 3) = Inr (Some [8], q 2 3)"
    "spmc_queue_pop (q 2 3) = Inr (Some [7], q 3 3)" unfolding q_def by code_simp+
  ultimately show ?thesis unfolding Let_def by blast
qed

end
