(* ===== verification/HashProbe.thy ===== *)
theory HashProbe
  imports Prelude
begin

section \<open>The probe sequence of the hash map\<close>

text \<open>
  \<^verbatim>\<open>hashmap/hash_map.c\<close> visits the slots of its pool in the order given by
  \<^verbatim>\<open>i = (i*5 + pert + 1) & mask\<close> with \<^verbatim>\<open>pert\<close> starting as the hash and shifted right by five
  bits each time. This theory defines the sequence and shows that it visits every slot: once \<open>pert\<close> is
  exhausted, after thirteen steps, the recurrence \<open>5 i + 1\<close> modulo a power of two has full period.
\<close>

subsection \<open>Definitions\<close>

text \<open>SplitMix64\<close>

definition hashfunc :: "u64 \<Rightarrow> u64" where
  "hashfunc x =
     (let h = x + 0x9e3779b97f4a7c15; h = h XOR drop_bit 30 h;
          h = h * 0xbf58476d1ce4e5b9; h = h XOR drop_bit 27 h;
          h = h * 0x94d049bb133111eb; h = h XOR drop_bit 31 h
      in h)"

text \<open>\<^verbatim>\<open>i = (i*5 + pert + 1) & mask\<close>: the product is computed in \<^verbatim>\<open>int\<close>, the sum in 64 bits.\<close>

definition next_index :: "nat \<Rightarrow> u64 \<Rightarrow> u64 \<Rightarrow> nat res" where
  "next_index i pert mask_w =
     (if i * 5 < 2 ^ 31 then Inr (unat ((of_nat (i * 5) + pert + 1) AND mask_w)) else Inl Int_overflow)"

text \<open>The slot of the \<open>n\<close>-th probe for the hash \<open>h\<close> in a pool of \<open>2 ^ k\<close> slots, and the value of \<^verbatim>\<open>pert\<close> then.\<close>

definition pert_at :: "u64 \<Rightarrow> nat \<Rightarrow> u64" where
  "pert_at h n = drop_bit (5 * n) h"

fun probe :: "nat \<Rightarrow> u64 \<Rightarrow> nat \<Rightarrow> nat" where
  "probe k h 0 = unat h mod 2 ^ k"
| "probe k h (Suc n) = (probe k h n * 5 + unat (pert_at h (Suc n)) + 1) mod 2 ^ k"

lemma probe_less: "probe k h n < 2 ^ k"
  by (cases n) simp_all

lemma pert_at_Suc: "drop_bit 5 (pert_at h n) = pert_at h (Suc n)"
  by (simp add: pert_at_def add.commute)

lemma pert_at_0: "pert_at h 0 = h"
  by (simp add: pert_at_def)

lemma pert_exhausted:
  assumes "13 \<le> n"
  shows "pert_at h n = 0"
proof -
  have "unat h < 2 ^ LENGTH(64)" by (rule unsigned_less)
  also have "\<dots> \<le> 2 ^ (5 * n)" using assms by (intro power_increasing) simp_all
  finally show ?thesis by (simp add: pert_at_def drop_bit_mask_iff)
qed

lemma next_index_probe:
  assumes "k \<le> 28"
  shows "next_index (probe k h n) (pert_at h (Suc n)) (mask k) = Inr (probe k h (Suc n))"
proof -
  let ?i = "probe k h n" and ?p = "pert_at h (Suc n)"
  have "(2 :: nat) ^ k \<le> 2 ^ 28" using assms by (intro power_increasing) simp_all
  then have i: "?i * 5 < 2 ^ 31" using probe_less [of k h n] by simp
  have dv: "(2 :: nat) ^ k dvd 2 ^ 64" using assms by (intro le_imp_power_dvd) simp
  define m where "m = ?i * 5"
  have "unat (of_nat m :: u64) = m" using i by (intro unat_of_nat_small) (simp add: m_def)
  then have "unat ((of_nat m + ?p + 1) AND mask k) = (m + unat ?p + 1) mod 2 ^ 64 mod 2 ^ k"
    by (simp add: unat_and_mask unat_word_ariths(1) mod_simps)
  also have "\<dots> = (m + unat ?p + 1) mod 2 ^ k" using dv by (rule mod_mod_cancel)
  finally show ?thesis using i unfolding next_index_def m_def [symmetric] by (simp add: m_def)
qed

subsection \<open>Full period\<close>

lemma coprime_pow2: "odd c \<Longrightarrow> coprime (2 ^ n) (c :: nat)"
  by simp

lemma mult_minus_one: "p * q * y - p * y = p * y * (q - 1 :: nat)"
  by (simp add: diff_mult_distrib2 algebra_simps)

lemma five_pow_mod_8: "(5 :: nat) ^ d mod 8 = (if even d then 1 else 5)"
proof (induction d)
  case (Suc d)
  have "(5 :: nat) ^ Suc d mod 8 = 5 * (5 ^ d mod 8) mod 8" by (simp add: mod_simps)
  with Suc show ?case by auto
qed simp

text \<open>The order of 5: a power of 5 is 1 modulo \<open>2 ^ (k + 2)\<close> only for exponents divisible by \<open>2 ^ k\<close>.\<close>

lemma five_pow_order: "2 ^ (k + 2) dvd (5 :: nat) ^ d - 1 \<Longrightarrow> 2 ^ k dvd d"
proof (induction k arbitrary: d)
  case 0
  then show ?case by simp
next
  case (Suc k)
  have "(8 :: nat) dvd 2 ^ (Suc k + 2)" using le_imp_power_dvd [of 3 "Suc k + 2" "2 :: nat"] by simp
  with Suc.prems have "8 dvd (5 :: nat) ^ d - 1" by (rule dvd_trans [rotated])
  then have "(5 :: nat) ^ d mod 8 = 1 mod 8" by (subst mod_eq_dvd_iff_nat) simp_all
  then have "even d" by (auto simp: five_pow_mod_8 split: if_splits)
  then obtain e where d: "d = 2 * e" by auto
  let ?x = "(5 :: nat) ^ e"
  have "(5 :: nat) ^ d - 1 = (?x - 1) * (?x + 1)"
    by (simp add: d power_mult power2_eq_square power_mult_distrib algebra_simps flip: power_add)
  moreover have "?x + 1 = 2 * ((?x + 1) div 2)" "odd ((?x + 1) div 2)"
  proof -
    have "?x mod 8 = 1 \<or> ?x mod 8 = 5" by (simp add: five_pow_mod_8)
    then show "?x + 1 = 2 * ((?x + 1) div 2)" "odd ((?x + 1) div 2)" by presburger+
  qed
  ultimately have "2 * 2 ^ (k + 2) dvd 2 * ((?x - 1) * ((?x + 1) div 2))"
    using Suc.prems by (metis add_Suc mult.left_commute power_Suc)
  then have "2 ^ (k + 2) dvd (?x - 1) * ((?x + 1) div 2)" by simp
  moreover have "coprime (2 ^ (k + 2)) ((?x + 1) div 2)"
    by (rule coprime_pow2) (rule \<open>odd ((?x + 1) div 2)\<close>)
  ultimately have "2 ^ (k + 2) dvd ?x - 1" by (metis coprime_dvd_mult_left_iff)
  then show ?case using Suc.IH d by simp
qed

text \<open>With \<open>y = 4 i + 1\<close> the recurrence \<open>5 i + 1\<close> modulo \<open>2 ^ k\<close> is multiplication by 5 modulo \<open>2 ^ (k + 2)\<close>.\<close>

definition lcg :: "nat \<Rightarrow> nat \<Rightarrow> nat" where
  "lcg k i = (i * 5 + 1) mod 2 ^ k"

lemma lcg_pow: "(4 * (lcg k ^^ n) i + 1) mod 2 ^ (k + 2) = (5 ^ n * (4 * i + 1)) mod 2 ^ (k + 2)"
proof (induction n)
  case 0
  then show ?case by simp
next
  case (Suc n)
  let ?j = "(lcg k ^^ n) i" and ?m = "(2 :: nat) ^ (k + 2)"
  have m: "?m = 4 * 2 ^ k" by (simp add: power_add)
  have "4 * lcg k ?j = (4 * (?j * 5 + 1)) mod ?m" by (simp only: lcg_def m mult_mod_right)
  then have "(4 * lcg k ?j + 1) mod ?m = (4 * (?j * 5 + 1) + 1) mod ?m" by (simp only: mod_add_left_eq)
  also have "4 * (?j * 5 + 1) + 1 = 5 * (4 * ?j + 1)" by simp
  also have "5 * (4 * ?j + 1) mod ?m = 5 * ((4 * ?j + 1) mod ?m) mod ?m" by (simp only: mod_mult_right_eq)
  also have "\<dots> = 5 * (5 ^ n * (4 * i + 1)) mod ?m" unfolding Suc.IH by (simp only: mod_mult_right_eq)
  finally show ?case by (simp add: mult.assoc)
qed

lemma lcg_injective:
  assumes "i < 2 ^ k" "a < b" "b < 2 ^ k" "(lcg k ^^ a) i = (lcg k ^^ b) i"
  shows False
proof -
  let ?m = "(2 :: nat) ^ (k + 2)" and ?y = "4 * i + 1"
  have "5 ^ b * ?y mod ?m = 5 ^ a * ?y mod ?m"
    using lcg_pow [where k = k and n = a and i = i] lcg_pow [where k = k and n = b and i = i] assms(4) by simp
  moreover have "5 ^ a * ?y \<le> 5 ^ b * ?y" using assms(2) by (intro mult_le_mono1 power_increasing) simp_all
  ultimately have "?m dvd 5 ^ b * ?y - 5 ^ a * ?y" by (simp add: mod_eq_dvd_iff_nat)
  also have "5 ^ b * ?y - 5 ^ a * ?y = 5 ^ a * ?y * (5 ^ (b - a) - 1)"
  proof -
    have "(5 :: nat) ^ b = 5 ^ a * 5 ^ (b - a)" using assms(2) by (simp flip: power_add)
    then show ?thesis by (simp only: mult_minus_one)
  qed
  finally have "?m dvd 5 ^ a * ?y * (5 ^ (b - a) - 1)" .
  moreover have "coprime ?m (5 ^ a * ?y)" by (rule coprime_pow2) simp
  ultimately have "?m dvd 5 ^ (b - a) - 1" by (metis coprime_dvd_mult_right_iff)
  then have "2 ^ k dvd b - a" by (rule five_pow_order)
  then have "2 ^ k \<le> b - a" using assms(2) by (intro dvd_imp_le) auto
  then show False using assms(3) by simp
qed

lemma lcg_less: "i < 2 ^ k \<Longrightarrow> (lcg k ^^ n) i < 2 ^ k"
  by (cases n) (simp_all add: lcg_def)

lemma lcg_surjective:
  assumes "i < 2 ^ k" "j < 2 ^ k"
  shows "\<exists>n < 2 ^ k. (lcg k ^^ n) i = j"
proof -
  let ?f = "\<lambda>n. (lcg k ^^ n) i" and ?S = "{..<(2 :: nat) ^ k}"
  have "inj_on ?f ?S"
    using lcg_injective [OF assms(1)] by (intro inj_onI) (metis lessThan_iff linorder_neqE_nat)
  moreover have "?f ` ?S \<subseteq> ?S" using lcg_less [OF assms(1)] by auto
  ultimately have "?f ` ?S = ?S" by (simp add: endo_inj_surj)
  then have "j \<in> ?f ` ?S" using assms(2) by simp
  then show ?thesis by auto
qed

lemma probe_tail: "probe k h (13 + n) = (lcg k ^^ n) (probe k h 13)"
proof (induction n)
  case (Suc n)
  have "probe k h (13 + Suc n) = probe k h (Suc (13 + n))" by simp
  also have "\<dots> = lcg k (probe k h (13 + n))"
    using pert_exhausted [of "Suc (13 + n)" h] by (simp only: probe.simps lcg_def unat_0) simp
  finally show ?case by (simp only: Suc.IH funpow.simps comp_apply)
qed simp

lemma probe_covers:
  assumes "j < 2 ^ k"
  shows "\<exists>n < 13 + 2 ^ k. probe k h n = j"
proof -
  obtain n where "n < 2 ^ k" "(lcg k ^^ n) (probe k h 13) = j"
    using lcg_surjective [OF probe_less assms] by blast
  then have "13 + n < 13 + 2 ^ k" "probe k h (13 + n) = j" by (simp_all only: probe_tail)
  then show ?thesis by blast
qed

text \<open>C37: The probe sequence of the code visits every slot: for every hash and every pool of \<open>2 ^ k\<close> slots, the slots that
  the code computes one from the other reach each slot within \<open>13 + 2 ^ k\<close> probes.\<close>

theorem probe_visits_all:
  assumes "j < 2 ^ k" "k \<le> 28"
  shows "(\<exists>n < 13 + 2 ^ k. probe k h n = j)
    \<and> next_index (probe k h m) (drop_bit 5 (pert_at h m)) (mask k) = Inr (probe k h (Suc m))"
  using probe_covers [OF assms(1)] next_index_probe [OF assms(2)] by (simp add: pert_at_Suc)

theorem probe_visits_all_witness:
  "(\<exists>n < 13 + 2 ^ 3. probe 3 (hashfunc 42) n = 5)
    \<and> next_index (probe 3 (hashfunc 42) 0) (drop_bit 5 (pert_at (hashfunc 42) 0)) (mask 3) = Inr (probe 3 (hashfunc 42) (Suc 0))"
  by (rule probe_visits_all) simp_all

declare probe.simps [simp del]

end
