(* ===== verification/WordMap.thy ===== *)
theory WordMap
  imports Prelude
begin

section \<open>The map interface\<close>

text \<open>
  What the hash map and its reference implementation promise: keys and values are 64-bit words,
  0 stands for an absent value. \<open>ok r n s\<close> says that the state \<open>s\<close> can take \<open>r\<close> more removals and
  \<open>n\<close> more insertions. An operation may not return (\<open>None\<close>) or fault; the laws say that it does not. Any two implementations
  give the same answers to the same calls.
\<close>

datatype map_op = M_insert u64 u64 | M_remove u64 | M_select u64

fun spec_step :: "map_op \<Rightarrow> (u64 \<Rightarrow> u64 option) \<Rightarrow> u64 \<times> (u64 \<Rightarrow> u64 option)" where
  "spec_step (M_insert x v) a = (0, a(x \<mapsto> v))"
| "spec_step (M_remove x) a = (if a x = None then 0 else 1, a(x := None))"
| "spec_step (M_select x) a = (case a x of None \<Rightarrow> 0 | Some v \<Rightarrow> v, a)"

fun map_run :: "(map_op \<Rightarrow> 's \<Rightarrow> (u64 \<times> 's) res option) \<Rightarrow> map_op list \<Rightarrow> 's \<Rightarrow> (u64 list \<times> 's) res option" where
  "map_run step [] s = Some (Inr ([], s))"
| "map_run step (c # cs) s =
     (case step c s of
        None \<Rightarrow> None
      | Some (Inl e) \<Rightarrow> Some (Inl e)
      | Some (Inr (out, s)) \<Rightarrow>
          (case map_run step cs s of
             None \<Rightarrow> None
           | Some (Inl e) \<Rightarrow> Some (Inl e)
           | Some (Inr (outs, s)) \<Rightarrow> Some (Inr (out # outs, s))))"

text \<open>A sequence of calls inserts no 0, and how often it removes and inserts.\<close>

fun legal :: "map_op \<Rightarrow> bool" where
  "legal (M_insert x v) \<longleftrightarrow> v \<noteq> 0"
| "legal _ \<longleftrightarrow> True"

fun removals :: "map_op list \<Rightarrow> nat" where
  "removals [] = 0"
| "removals (M_remove x # cs) = Suc (removals cs)"
| "removals (c # cs) = removals cs"

fun insertions :: "map_op list \<Rightarrow> nat" where
  "insertions [] = 0"
| "insertions (M_insert x v # cs) = Suc (insertions cs)"
| "insertions (c # cs) = insertions cs"

locale word_map =
  fixes ok :: "nat \<Rightarrow> nat \<Rightarrow> 's \<Rightarrow> bool"
    and abs :: "'s \<Rightarrow> u64 \<Rightarrow> u64 option"
    and step :: "map_op \<Rightarrow> 's \<Rightarrow> (u64 \<times> 's) res option"
  assumes insert_law: "ok r (Suc n) s \<Longrightarrow> v \<noteq> 0 \<Longrightarrow>
      \<exists>s'. step (M_insert x v) s = Some (Inr (0, s')) \<and> ok r n s' \<and> abs s' = (abs s)(x \<mapsto> v)"
    and remove_law: "ok (Suc r) n s \<Longrightarrow>
      \<exists>s'. step (M_remove x) s = Some (Inr (if abs s x = None then 0 else 1, s')) \<and> ok r n s' \<and> abs s' = (abs s)(x := None)"
    and select_law: "ok r n s \<Longrightarrow> step (M_select x) s = Some (Inr (case abs s x of None \<Rightarrow> 0 | Some v \<Rightarrow> v, s))"
begin

lemma map_run_sim:
  "ok r n s \<Longrightarrow> \<forall>c \<in> set cs. legal c \<Longrightarrow> removals cs \<le> r \<Longrightarrow> insertions cs \<le> n \<Longrightarrow>
     \<exists>outs s'. map_run step cs s = Some (Inr (outs, s')) \<and> run_spec spec_step cs (abs s) = (outs, abs s')"
proof (induction cs arbitrary: r n s)
  case Nil
  then show ?case by simp
next
  case (Cons c cs)
  have "\<exists>r' n' out s1. step c s = Some (Inr (out, s1)) \<and> ok r' n' s1 \<and> spec_step c (abs s) = (out, abs s1)
      \<and> removals cs \<le> r' \<and> insertions cs \<le> n'"
  proof (cases c)
    case (M_insert x v)
    then obtain n' where "n = Suc n'" "insertions cs \<le> n'" using Cons.prems(4) by (cases n) auto
    then show ?thesis using insert_law [of r n' s v x] M_insert Cons.prems by fastforce
  next
    case (M_remove x)
    then obtain r' where "r = Suc r'" "removals cs \<le> r'" using Cons.prems(3) by (cases r) auto
    then show ?thesis using remove_law [of r' n s x] M_remove Cons.prems by fastforce
  next
    case (M_select x)
    then show ?thesis using select_law [of r n s x] Cons.prems by auto
  qed
  then obtain r' n' out s1 where 1: "step c s = Some (Inr (out, s1))" "ok r' n' s1" "spec_step c (abs s) = (out, abs s1)"
    "removals cs \<le> r'" "insertions cs \<le> n'" by blast
  with Cons.IH [OF 1(2) _ 1(4,5)] Cons.prems(2) obtain outs s2 where
    "map_run step cs s1 = Some (Inr (outs, s2))" "run_spec spec_step cs (abs s1) = (outs, abs s2)" by auto
  with 1 show ?case by simp
qed

end

text \<open>Two implementations, side by side.\<close>

locale two_maps = a: word_map ok1 abs1 step1 + b: word_map ok2 abs2 step2
  for ok1 :: "nat \<Rightarrow> nat \<Rightarrow> 's \<Rightarrow> bool" and abs1 step1
    and ok2 :: "nat \<Rightarrow> nat \<Rightarrow> 't \<Rightarrow> bool" and abs2 step2
begin

lemma same_answers:
  assumes "ok1 r n s" "ok2 r n t" "abs1 s = abs2 t" "\<forall>c \<in> set cs. legal c" "removals cs \<le> r" "insertions cs \<le> n"
  shows "\<exists>outs s' t'. map_run step1 cs s = Some (Inr (outs, s')) \<and> map_run step2 cs t = Some (Inr (outs, t')) \<and> abs1 s' = abs2 t'"
  using a.map_run_sim [OF assms(1,4,5,6)] b.map_run_sim [OF assms(2,4,5,6)] assms(3) by auto

end

end
