(* ===== verification/HashMap.thy ===== *)
theory HashMap
  imports HashProbe WordMap
begin

section \<open>The hash map (\<^verbatim>\<open>hashmap/hash_map.c\<close>)\<close>

text \<open>
  Open addressing with tombstones, guarded by a mutex. The record \<open>hashmap\<close> is the struct, with the pool behind its
  pointer and \<open>held\<close>, how many times the calling thread holds the mutex. The platform is a parameter: whether the mutex of
  \<^verbatim>\<open>thread/sync.c\<close> is recursive (a Windows critical section is, the default POSIX mutex is not and blocks for ever when its owner locks it again), and
  which sizes \<^verbatim>\<open>os_alloc\<close> can provide (it aborts otherwise).

  The search loops have no bound in the code; here they take a number of iterations and return
  \<open>None\<close> when it is used up. \<open>hashmap_insert\<close> and \<open>resize\<close> call each other; the first argument of \<open>hashmap_insert\<close> bounds the depth. What the
  theorems show to return returns for every larger bound as well; what they show not to return does so for every bound.
  The values of \<^verbatim>\<open>state\<close> are a datatype, so the assertions on it are implicit.
\<close>

subsection \<open>Definitions\<close>

datatype slot_state = UNUSED | USED | DELETED

record item =
  state :: slot_state
  val :: u64
  key :: u64

record hashmap =
  pool :: "item list"
  msize :: int
  used :: int
  held :: nat

record platform =
  recursive_mutex :: bool
  can_alloc :: "int \<Rightarrow> bool"

text \<open>Sequencing: a step that may fault, and a loop that may fault or not return.\<close>

definition lbind :: "'a res \<Rightarrow> ('a \<Rightarrow> 'b res option) \<Rightarrow> 'b res option" where
  "lbind m f = (case m of Inl e \<Rightarrow> Some (Inl e) | Inr x \<Rightarrow> f x)"

definition obind :: "'a res option \<Rightarrow> ('a \<Rightarrow> 'b res option) \<Rightarrow> 'b res option" where
  "obind m f = (case m of None \<Rightarrow> None | Some r \<Rightarrow> lbind r f)"

text \<open>The smearing of \<open>next_pow2\<close>; its argument is positive at every call, where the arithmetic shifts of \<^verbatim>\<open>int\<close> are
  the logical ones.\<close>

definition smear :: "u32 \<Rightarrow> u32" where
  "smear v =
     (let v = v OR drop_bit 1 v; v = v OR drop_bit 2 v; v = v OR drop_bit 4 v;
          v = v OR drop_bit 8 v; v = v OR drop_bit 16 v in v)"

definition next_pow2 :: "int \<Rightarrow> int res" where
  "next_pow2 v =
     (let w = smear (word_of_int (v - 1))
      in if w = 0x7FFFFFFF then Inl Int_overflow else Inr (sint (w + 1)))"

definition is_pow2 :: "int \<Rightarrow> bool" where
  "is_pow2 n \<longleftrightarrow> (word_of_int n AND (word_of_int n - 1) :: u32) = 0"

definition os_alloc_pool :: "platform \<Rightarrow> int \<Rightarrow> item list res" where
  "os_alloc_pool pf n =
     (if can_alloc pf n then Inr (replicate (nat n) \<lparr>state = UNUSED, val = 0, key = 0\<rparr>) else Inl Aborted)"

definition hashmap_create :: "platform \<Rightarrow> int \<Rightarrow> hashmap res" where
  "hashmap_create pf init_size =
     (let init_size = (if init_size < 8 then 8 else init_size)
      in rbind (next_pow2 init_size) (\<lambda>init_size.
         rbind (os_alloc_pool pf init_size) (\<lambda>p.
           Inr \<lparr>pool = p, msize = init_size, used = 0, held = 0\<rparr>)))"

definition os_mutex_lock :: "platform \<Rightarrow> hashmap \<Rightarrow> hashmap res" where
  "os_mutex_lock pf m =
     (if held m > 0 \<and> \<not> recursive_mutex pf then Inl Deadlock else Inr (m\<lparr>held := held m + 1\<rparr>))"

definition os_mutex_unlock :: "hashmap \<Rightarrow> hashmap" where
  "os_mutex_unlock m = m\<lparr>held := held m - 1\<rparr>"

definition hashmap_count :: "platform \<Rightarrow> hashmap \<Rightarrow> (int \<times> hashmap) res" where
  "hashmap_count pf m = rbind (os_mutex_lock pf m) (\<lambda>m. Inr (used m, os_mutex_unlock m))"

definition should_resize :: "hashmap \<Rightarrow> bool" where
  "should_resize m \<longleftrightarrow> used m * 10 \<ge> msize m * 7"

definition mask_of :: "hashmap \<Rightarrow> u64" where
  "mask_of m = word_of_int (msize m - 1)"

text \<open>The loop of \<open>hashmap_insert\<close>: its result is the pool (with the value replaced when the key was found) and
  \<^verbatim>\<open>insert_index\<close>, negative values being \<open>None\<close>.\<close>

fun insert_loop :: "nat \<Rightarrow> u64 \<Rightarrow> u64 \<Rightarrow> u64 \<Rightarrow> item list \<Rightarrow> nat option \<Rightarrow> nat \<Rightarrow> u64
    \<Rightarrow> (item list \<times> nat option) res option" where
  "insert_loop 0 k v mask_w p idx i pert = None"
| "insert_loop (Suc fuel) k v mask_w p idx i pert =
     lbind (rd p i) (\<lambda>it.
       let next = (\<lambda>idx. let pert = drop_bit 5 pert in
                     lbind (next_index i pert mask_w) (\<lambda>i. insert_loop fuel k v mask_w p idx i pert))
       in case state it of
            UNUSED \<Rightarrow> Some (Inr (p, case idx of None \<Rightarrow> Some i | Some j \<Rightarrow> Some j))
          | DELETED \<Rightarrow> next (case idx of None \<Rightarrow> Some i | Some j \<Rightarrow> Some j)
          | USED \<Rightarrow> (if key it = k then Some (Inr (p[i := it\<lparr>val := v\<rparr>], None)) else next idx))"

text \<open>\<open>hashmap_insert\<close> from the assertions on, the mutex being held.\<close>

definition insert_locked :: "nat \<Rightarrow> hashmap \<Rightarrow> u64 \<Rightarrow> u64 \<Rightarrow> hashmap res option" where
  "insert_locked fuel m k v =
     lbind (c_assert (used m < msize m)) (\<lambda>_.
     lbind (c_assert (is_pow2 (msize m))) (\<lambda>_.
     let hash = hashfunc k in
     obind (insert_loop fuel k v (mask_of m) (pool m) None (unat (hash AND mask_of m)) hash) (\<lambda>(p, idx).
       let m = m\<lparr>pool := p\<rparr>;
           m = (case idx of
                  None \<Rightarrow> m
                | Some j \<Rightarrow> m\<lparr>pool := (pool m)[j := \<lparr>state = USED, val = v, key = k\<rparr>], used := used m + 1\<rparr>)
       in Some (Inr (os_mutex_unlock m)))))"

text \<open>The loop of \<open>resize\<close> over the old pool.\<close>

fun reinsert :: "(hashmap \<Rightarrow> u64 \<Rightarrow> u64 \<Rightarrow> hashmap res option) \<Rightarrow> item list \<Rightarrow> hashmap \<Rightarrow> hashmap res option" where
  "reinsert ins [] m = Some (Inr m)"
| "reinsert ins (it # its) m =
     (if state it = USED then obind (ins m (key it) (val it)) (\<lambda>m. reinsert ins its m) else reinsert ins its m)"

definition resize :: "(hashmap \<Rightarrow> u64 \<Rightarrow> u64 \<Rightarrow> hashmap res option) \<Rightarrow> platform \<Rightarrow> hashmap \<Rightarrow> int \<Rightarrow> hashmap res option" where
  "resize ins pf m new_size =
     (let new_size = (if new_size < used m then used m else new_size);
          new_size = (if new_size < 8 then 8 else new_size)
      in lbind (next_pow2 new_size) (\<lambda>new_size.
         lbind (os_alloc_pool pf new_size) (\<lambda>new_pool.
           reinsert ins (pool m) (m\<lparr>pool := new_pool, msize := new_size, used := 0\<rparr>))))"

primrec hashmap_insert :: "nat \<Rightarrow> nat \<Rightarrow> platform \<Rightarrow> hashmap \<Rightarrow> u64 \<Rightarrow> u64 \<Rightarrow> hashmap res option" where
  "hashmap_insert 0 fuel pf m k v = None"
| "hashmap_insert (Suc depth) fuel pf m k v =
     lbind (os_mutex_lock pf m) (\<lambda>m.
     lbind (c_assert (v \<noteq> 0)) (\<lambda>_.
     obind (if should_resize m then resize (hashmap_insert depth fuel pf) pf m (2 * msize m) else Some (Inr m)) (\<lambda>m.
       insert_locked fuel m k v)))"

declare hashmap_insert.simps [simp del]

fun remove_loop :: "nat \<Rightarrow> u64 \<Rightarrow> u64 \<Rightarrow> item list \<Rightarrow> nat \<Rightarrow> u64 \<Rightarrow> nat option res option" where
  "remove_loop 0 k mask_w p i pert = None"
| "remove_loop (Suc fuel) k mask_w p i pert =
     lbind (rd p i) (\<lambda>it.
       if state it = UNUSED then Some (Inr None)
       else if state it = USED \<and> key it = k then Some (Inr (Some i))
       else let pert = drop_bit 5 pert in
         lbind (next_index i pert mask_w) (\<lambda>i. remove_loop fuel k mask_w p i pert))"

definition hashmap_remove :: "nat \<Rightarrow> platform \<Rightarrow> hashmap \<Rightarrow> u64 \<Rightarrow> (bool \<times> hashmap) res option" where
  "hashmap_remove fuel pf m k =
     lbind (os_mutex_lock pf m) (\<lambda>m.
       if msize m = 0 then Some (Inr (False, os_mutex_unlock m))
       else lbind (c_assert (is_pow2 (msize m))) (\<lambda>_.
         let hash = hashfunc k in
         obind (remove_loop fuel k (mask_of m) (pool m) (unat (hash AND mask_of m)) hash) (\<lambda>r.
           case r of
             None \<Rightarrow> Some (Inr (False, os_mutex_unlock m))
           | Some i \<Rightarrow> Some (Inr (True, os_mutex_unlock
               (m\<lparr>pool := (pool m)[i := \<lparr>state = DELETED, val = 0, key = - 1\<rparr>], used := used m - 1\<rparr>))))))"

text \<open>The loop of \<open>hashmap_select\<close> has the same steps as that of \<open>hashmap_remove\<close>.\<close>

fun select_loop :: "nat \<Rightarrow> u64 \<Rightarrow> u64 \<Rightarrow> item list \<Rightarrow> nat \<Rightarrow> u64 \<Rightarrow> u64 res option" where
  "select_loop 0 k mask_w p i pert = None"
| "select_loop (Suc fuel) k mask_w p i pert =
     lbind (rd p i) (\<lambda>it.
       if state it = UNUSED then Some (Inr 0)
       else if state it = USED \<and> key it = k then Some (Inr (val it))
       else let pert = drop_bit 5 pert in
         lbind (next_index i pert mask_w) (\<lambda>i. select_loop fuel k mask_w p i pert))"

definition hashmap_select :: "nat \<Rightarrow> platform \<Rightarrow> hashmap \<Rightarrow> u64 \<Rightarrow> (u64 \<times> hashmap) res option" where
  "hashmap_select fuel pf m k =
     lbind (os_mutex_lock pf m) (\<lambda>m.
       if msize m = 0 then Some (Inr (0, os_mutex_unlock m))
       else lbind (c_assert (is_pow2 (msize m))) (\<lambda>_.
         let hash = hashfunc k in
         obind (select_loop fuel k (mask_of m) (pool m) (unat (hash AND mask_of m)) hash) (\<lambda>v.
           Some (Inr (v, os_mutex_unlock m)))))"

definition hashmap_exists :: "nat \<Rightarrow> platform \<Rightarrow> hashmap \<Rightarrow> u64 \<Rightarrow> (bool \<times> hashmap) res option" where
  "hashmap_exists fuel pf m k = obind (hashmap_select fuel pf m k) (\<lambda>(v, m). Some (Inr (v \<noteq> 0, m)))"

lemma lbind_simps [simp]: "lbind (Inl e) f = Some (Inl e)" "lbind (Inr x) f = f x"
  by (simp_all add: lbind_def)

lemma obind_simps [simp]: "obind None g = None" "obind (Some r) g = lbind r g"
  by (simp_all add: obind_def)

subsection \<open>Searching\<close>

text \<open>The \<open>n\<close>-th probe for the key \<open>x\<close> ends the search of \<open>hashmap_select\<close>.\<close>

definition probed :: "nat \<Rightarrow> item list \<Rightarrow> u64 \<Rightarrow> nat \<Rightarrow> item" where
  "probed k p x n = p ! probe k (hashfunc x) n"

definition stops :: "nat \<Rightarrow> item list \<Rightarrow> u64 \<Rightarrow> nat \<Rightarrow> bool" where
  "stops k p x n \<longleftrightarrow> state (probed k p x n) = UNUSED \<or> (state (probed k p x n) = USED \<and> key (probed k p x n) = x)"

definition first_stop :: "nat \<Rightarrow> item list \<Rightarrow> u64 \<Rightarrow> nat \<Rightarrow> bool" where
  "first_stop k p x N \<longleftrightarrow> stops k p x N \<and> (\<forall>n<N. \<not> stops k p x n)"

lemma first_stop_exists:
  assumes "j < 2 ^ k" "state (p ! j) = UNUSED"
  obtains N where "first_stop k p x N" "N < 13 + 2 ^ k"
proof -
  obtain n where n: "n < 13 + 2 ^ k" "probe k (hashfunc x) n = j" using probe_covers [OF assms(1)] by blast
  then have s: "stops k p x n" using assms(2) by (simp add: stops_def probed_def)
  define N where "N = (LEAST n. stops k p x n)"
  have "stops k p x N" unfolding N_def by (rule LeastI [of "stops k p x", OF s])
  moreover have "N \<le> n" unfolding N_def by (rule Least_le [of "stops k p x", OF s])
  moreover have "\<not> stops k p x i" if "i < N" for i
    using that unfolding N_def by (rule not_less_Least)
  ultimately show thesis using that [of N] n(1) by (simp add: first_stop_def)
qed

lemma remove_loop_first:
  assumes "first_stop k p x N" "k \<le> 28" "length p = 2 ^ k" "n \<le> N" "N - n < fuel"
  shows "remove_loop fuel x (mask k) p (probe k (hashfunc x) n) (pert_at (hashfunc x) n)
    = Some (Inr (if state (probed k p x N) = UNUSED then None else Some (probe k (hashfunc x) N)))"
  using assms(4,5)
proof (induction fuel arbitrary: n)
  case (Suc fuel)
  have r: "rd p (probe k (hashfunc x) n) = Inr (probed k p x n)"
    using assms(3) probe_less by (simp add: probed_def)
  show ?case
  proof (cases "n = N")
    case True
    with assms(1) r show ?thesis by (auto simp: first_stop_def stops_def)
  next
    case False
    with Suc.prems assms(1) have "\<not> stops k p x n" by (simp add: first_stop_def)
    then have "remove_loop (Suc fuel) x (mask k) p (probe k (hashfunc x) n) (pert_at (hashfunc x) n)
      = remove_loop fuel x (mask k) p (probe k (hashfunc x) (Suc n)) (pert_at (hashfunc x) (Suc n))"
      using r next_index_probe [OF assms(2), of "hashfunc x" n] by (auto simp: stops_def pert_at_Suc Let_def)
    with Suc False show ?thesis by simp
  qed
qed simp

lemma select_loop_remove:
  "select_loop fuel x w p i pert = obind (remove_loop fuel x w p i pert) (\<lambda>r.
     case r of None \<Rightarrow> Some (Inr 0) | Some j \<Rightarrow> Some (Inr (val (p ! j))))"
proof (induction fuel arbitrary: i pert)
  case (Suc fuel)
  show ?case
  proof (cases "rd p i")
    case (Inr it)
    moreover from Inr have "it = p ! i" by (simp add: rd_eq_Inr)
    moreover have "lbind r (\<lambda>i. obind (remove_loop fuel x w p i pert') g)
        = obind (lbind r (\<lambda>i. remove_loop fuel x w p i pert')) g" for r pert' and g :: "nat option \<Rightarrow> u64 res option"
      by (cases r) simp_all
    ultimately show ?thesis using Suc by (simp add: Let_def)
  qed simp
qed simp

text \<open>The first tombstone on the way to the \<open>N\<close>-th probe.\<close>

definition first_tomb :: "nat \<Rightarrow> item list \<Rightarrow> u64 \<Rightarrow> nat \<Rightarrow> nat \<Rightarrow> nat option" where
  "first_tomb k p x n N = (case filter (\<lambda>m. state (probed k p x m) = DELETED) [n..<N] of
     [] \<Rightarrow> None | m # ms \<Rightarrow> Some (probe k (hashfunc x) m))"

lemma first_tomb_step:
  assumes "n < N"
  shows "first_tomb k p x n N = (if state (probed k p x n) = DELETED then Some (probe k (hashfunc x) n)
    else first_tomb k p x (Suc n) N)"
  using assms by (simp add: first_tomb_def upt_conv_Cons)

definition or_else :: "'b option \<Rightarrow> 'b option \<Rightarrow> 'b option" where
  "or_else a b = (case a of None \<Rightarrow> b | Some x \<Rightarrow> Some x)"

lemma insert_loop_first:
  assumes "first_stop k p x N" "k \<le> 28" "length p = 2 ^ k" "n \<le> N" "N - n < fuel"
  shows "insert_loop fuel x v (mask k) p idx (probe k (hashfunc x) n) (pert_at (hashfunc x) n)
    = Some (Inr (if state (probed k p x N) = UNUSED
        then (p, or_else (or_else idx (first_tomb k p x n N)) (Some (probe k (hashfunc x) N)))
        else (p[probe k (hashfunc x) N := (probed k p x N)\<lparr>val := v\<rparr>], None)))"
  using assms(4,5)
proof (induction fuel arbitrary: n idx)
  case (Suc fuel)
  have r: "rd p (probe k (hashfunc x) n) = Inr (probed k p x n)"
    using assms(3) probe_less by (simp add: probed_def)
  show ?case
  proof (cases "n = N")
    case True
    have t: "first_tomb k p x N N = None" by (simp add: first_tomb_def)
    from True assms(1) r t show ?thesis
      by (auto simp: first_stop_def stops_def or_else_def split: option.splits)
  next
    case False
    with Suc.prems assms(1) have ns: "\<not> stops k p x n" "n < N" by (simp_all add: first_stop_def)
    let ?idx = "if state (probed k p x n) = DELETED then or_else idx (Some (probe k (hashfunc x) n)) else idx"
    have "insert_loop (Suc fuel) x v (mask k) p idx (probe k (hashfunc x) n) (pert_at (hashfunc x) n)
      = insert_loop fuel x v (mask k) p ?idx (probe k (hashfunc x) (Suc n)) (pert_at (hashfunc x) (Suc n))"
      using r next_index_probe [OF assms(2), of "hashfunc x" n] ns(1)
      by (auto simp: stops_def pert_at_Suc Let_def or_else_def split: slot_state.splits)
    moreover have "or_else ?idx (first_tomb k p x (Suc n) N) = or_else idx (first_tomb k p x n N)"
      by (auto simp: first_tomb_step [OF ns(2)] or_else_def split: option.splits)
    ultimately show ?thesis using Suc.IH [of "Suc n" ?idx] Suc.prems ns(2) by simp
  qed
qed simp

subsection \<open>Pools\<close>

definition count_of :: "slot_state \<Rightarrow> item list \<Rightarrow> nat" where
  "count_of st p = length (filter (\<lambda>it. state it = st) p)"

definition used_at :: "item list \<Rightarrow> nat \<Rightarrow> u64 \<Rightarrow> bool" where
  "used_at p j x \<longleftrightarrow> j < length p \<and> state (p ! j) = USED \<and> key (p ! j) = x"

text \<open>No free slot lies on the way from the hash of \<open>x\<close> to slot \<open>j\<close>.\<close>

definition on_path :: "nat \<Rightarrow> item list \<Rightarrow> u64 \<Rightarrow> nat \<Rightarrow> bool" where
  "on_path k p x j \<longleftrightarrow> (\<exists>n. probe k (hashfunc x) n = j \<and> (\<forall>m<n. state (probed k p x m) \<noteq> UNUSED))"

definition pool_inv :: "nat \<Rightarrow> item list \<Rightarrow> bool" where
  "pool_inv k p \<longleftrightarrow> length p = 2 ^ k
     \<and> (\<forall>i j x. used_at p i x \<longrightarrow> used_at p j x \<longrightarrow> i = j)
     \<and> (\<forall>j x. used_at p j x \<longrightarrow> val (p ! j) \<noteq> 0 \<and> on_path k p x j)"

definition pool_map :: "item list \<Rightarrow> u64 \<Rightarrow> u64 option" where
  "pool_map p x = map_option val (find (\<lambda>it. state it = USED \<and> key it = x) p)"

lemma pool_map_Some:
  assumes "pool_inv k p" "used_at p j x"
  shows "pool_map p x = Some (val (p ! j))"
proof (cases "find (\<lambda>it. state it = USED \<and> key it = x) p")
  case None
  with assms(2) show ?thesis by (auto simp: find_None_iff used_at_def)
next
  case (Some it)
  then obtain i where "used_at p i x" "it = p ! i" by (auto simp: find_Some_iff used_at_def)
  with assms Some show ?thesis by (auto simp: pool_inv_def pool_map_def)
qed

lemma pool_map_None: "pool_map p x = None \<longleftrightarrow> (\<forall>j. \<not> used_at p j x)"
  by (auto simp: pool_map_def find_None_iff used_at_def in_set_conv_nth)

lemma count_of_update:
  "i < length p \<Longrightarrow> count_of st (p[i := it]) + (if state (p ! i) = st then 1 else 0)
     = count_of st p + (if state it = st then 1 else 0)"
  unfolding count_of_def by (rule length_filter_update)

lemma count_of_total: "count_of UNUSED p + count_of USED p + count_of DELETED p = length p"
proof (induction p)
  case (Cons it p)
  then show ?case by (cases "state it") (auto simp: count_of_def)
qed (simp add: count_of_def)

lemma unused_exists: "0 < count_of UNUSED p \<Longrightarrow> \<exists>j < length p. state (p ! j) = UNUSED"
  by (auto simp: count_of_def length_greater_0_conv filter_empty_conv in_set_conv_nth)

text \<open>What the end of a search says about the key.\<close>

lemma first_stop_unused:
  assumes "pool_inv k p" "first_stop k p x N" "state (probed k p x N) = UNUSED"
  shows "pool_map p x = None"
  unfolding pool_map_None
proof (intro allI notI)
  fix j
  assume j: "used_at p j x"
  then obtain n where n: "probe k (hashfunc x) n = j" "\<forall>m<n. state (probed k p x m) \<noteq> UNUSED"
    using assms(1) unfolding pool_inv_def on_path_def by metis
  have "stops k p x n" using j n(1) by (auto simp: stops_def probed_def used_at_def)
  then have "N \<le> n" using assms(2) by (auto simp: first_stop_def not_less [symmetric])
  moreover have "\<not> N < n" using n(2) assms(3) by auto
  moreover have "N \<noteq> n" using j n(1) assms(3) by (auto simp: probed_def used_at_def)
  ultimately show False by simp
qed

lemma first_stop_used:
  assumes "pool_inv k p" "first_stop k p x N" "state (probed k p x N) \<noteq> UNUSED"
  shows "used_at p (probe k (hashfunc x) N) x"
  using assms probe_less [of k "hashfunc x" N] by (auto simp: first_stop_def stops_def probed_def used_at_def pool_inv_def)

text \<open>Replacing an item that is in use, without changing its key, and removing one.\<close>

lemma probed_update:
  "j < length p \<Longrightarrow> probed k (p[j := it]) x n = (if probe k (hashfunc x) n = j then it else probed k p x n)"
  by (auto simp: probed_def nth_list_update)

lemma on_path_update:
  assumes "on_path k p x i" "state it = UNUSED \<Longrightarrow> state (p ! j) = UNUSED" "j < length p"
  shows "on_path k (p[j := it]) x i"
proof -
  obtain n where n: "probe k (hashfunc x) n = i" "\<forall>m<n. state (probed k p x m) \<noteq> UNUSED"
    using assms(1) by (auto simp: on_path_def)
  have "state (probed k (p[j := it]) x m) \<noteq> UNUSED" if "m < n" for m
    using that n(2) assms(2) unfolding probed_update [OF assms(3)] by (auto simp: probed_def)
  with n(1) show ?thesis by (auto simp: on_path_def)
qed

lemma used_at_update:
  assumes "j < length p"
  shows "used_at (p[j := it]) i x \<longleftrightarrow> (if i = j then state it = USED \<and> key it = x else used_at p i x)"
  using assms by (auto simp: used_at_def nth_list_update)

lemma pool_inv_replace:
  assumes "pool_inv k p" "used_at p j x" "v \<noteq> 0"
  defines "p' \<equiv> p[j := (p ! j)\<lparr>val := v\<rparr>]"
  shows "pool_inv k p'" "pool_map p' = (pool_map p)(x \<mapsto> v)"
proof -
  have j: "j < length p" "state (p ! j) = USED" "key (p ! j) = x" using assms(2) by (auto simp: used_at_def)
  have u: "used_at p' i y \<longleftrightarrow> used_at p i y" for i y
    unfolding p'_def used_at_update [OF j(1)] using j by (auto simp: used_at_def)
  have v: "val (p' ! i) = (if i = j then v else val (p ! i))" for i
    using j(1) by (simp add: p'_def nth_list_update)
  have pa: "on_path k p y i \<Longrightarrow> on_path k p' y i" for y i
    unfolding p'_def by (rule on_path_update) (use j in auto)
  show inv: "pool_inv k p'"
    unfolding pool_inv_def u v using assms(1,3) pa by (auto simp: pool_inv_def p'_def)
  show "pool_map p' = (pool_map p)(x \<mapsto> v)"
  proof
    fix y
    show "pool_map p' y = ((pool_map p)(x \<mapsto> v)) y"
    proof (cases "\<exists>i. used_at p i y")
      case True
      then obtain i where i: "used_at p i y" by blast
      then have "i = j \<longleftrightarrow> y = x" using assms(1,2) by (auto simp: pool_inv_def used_at_def)
      then show ?thesis using pool_map_Some [OF inv, of i y] pool_map_Some [OF assms(1) i] i u v by auto
    next
      case False
      then show ?thesis using assms(2) pool_map_None [of p y] pool_map_None [of p' y] u by auto
    qed
  qed
qed

lemma pool_inv_remove:
  assumes "pool_inv k p" "used_at p j x"
  defines "p' \<equiv> p[j := \<lparr>state = DELETED, val = 0, key = - 1\<rparr>]"
  shows "pool_inv k p'" "pool_map p' = (pool_map p)(x := None)"
proof -
  have j: "j < length p" "state (p ! j) = USED" "key (p ! j) = x" using assms(2) by (auto simp: used_at_def)
  have u: "used_at p' i y \<longleftrightarrow> i \<noteq> j \<and> used_at p i y" for i y
    unfolding p'_def used_at_update [OF j(1)] by simp
  have v: "i \<noteq> j \<Longrightarrow> val (p' ! i) = val (p ! i)" for i
    by (simp add: p'_def)
  have pa: "on_path k p y i \<Longrightarrow> on_path k p' y i" for y i
    unfolding p'_def by (rule on_path_update) (use j in auto)
  show inv: "pool_inv k p'"
    unfolding pool_inv_def u using assms(1) pa v by (auto simp: pool_inv_def p'_def)
  show "pool_map p' = (pool_map p)(x := None)"
  proof
    fix y
    show "pool_map p' y = ((pool_map p)(x := None)) y"
    proof (cases "\<exists>i. i \<noteq> j \<and> used_at p i y")
      case True
      then obtain i where i: "i \<noteq> j" "used_at p i y" by blast
      then have "y \<noteq> x" using assms(1,2) by (auto simp: pool_inv_def)
      then show ?thesis using pool_map_Some [OF inv, of i y] pool_map_Some [OF assms(1) i(2)] i u v by auto
    next
      case False
      then have "pool_map p' y = None" using u by (simp add: pool_map_None)
      moreover have "y \<noteq> x \<Longrightarrow> pool_map p y = None"
        using False j by (auto simp: pool_map_None used_at_def)
      ultimately show ?thesis by auto
    qed
  qed
qed

text \<open>Putting a new key into a slot on its path that is not in use.\<close>

lemma pool_inv_insert:
  assumes "pool_inv k p" "pool_map p x = None" "on_path k p x j" "j < length p" "state (p ! j) \<noteq> USED" "v \<noteq> 0"
  defines "p' \<equiv> p[j := \<lparr>state = USED, val = v, key = x\<rparr>]"
  shows "pool_inv k p'" "pool_map p' = (pool_map p)(x \<mapsto> v)"
proof -
  have u: "used_at p' i y \<longleftrightarrow> (if i = j then y = x else used_at p i y)" for i y
    unfolding p'_def used_at_update [OF assms(4)] by auto
  have nj: "\<not> used_at p j y" for y using assms(5) by (simp add: used_at_def)
  have nx: "\<not> used_at p i x" for i using assms(2) by (simp add: pool_map_None)
  have v: "val (p' ! i) = (if i = j then v else val (p ! i))" for i
    using assms(4) by (simp add: p'_def nth_list_update)
  have pa: "on_path k p y i \<Longrightarrow> on_path k p' y i" for y i
    unfolding p'_def by (rule on_path_update) (use assms(4) in auto)
  show inv: "pool_inv k p'"
    unfolding pool_inv_def u v using assms(1,3,6) pa nx by (auto simp: pool_inv_def p'_def)
  show "pool_map p' = (pool_map p)(x \<mapsto> v)"
  proof
    fix y
    show "pool_map p' y = ((pool_map p)(x \<mapsto> v)) y"
    proof (cases "\<exists>i. used_at p i y")
      case True
      then obtain i where i: "used_at p i y" by blast
      then have "i \<noteq> j" "y \<noteq> x" using nj nx by auto
      then show ?thesis using pool_map_Some [OF inv, of i y] pool_map_Some [OF assms(1) i] i u v by auto
    next
      case False
      then have "pool_map p y = None" by (simp add: pool_map_None)
      then show ?thesis
      proof (cases "y = x")
        case True
        then show ?thesis using pool_map_Some [OF inv, of j x] u v by auto
      next
        case ne: False
        then have "pool_map p' y = None" using False u by (auto simp: pool_map_None)
        with \<open>pool_map p y = None\<close> ne show ?thesis by simp
      qed
    qed
  qed
qed

subsection \<open>Sizes\<close>

lemma word_of_int_pow2: "(word_of_int (2 ^ k) :: 'a::len word) = 2 ^ k"
  by (metis of_int_numeral of_int_power)

lemma mask_of_pow2: "msize m = 2 ^ k \<Longrightarrow> mask_of m = mask k"
  unfolding mask_of_def mask_eq_exp_minus_1
  by (metis of_int_1 of_int_diff of_int_numeral of_int_power)

lemma is_pow2_pow2: "is_pow2 (2 ^ k)"
proof -
  have "(2 ^ k :: u32) AND mask k = 0"
    by (rule bit_word_eqI) (auto simp: bit_simps)
  then show ?thesis by (simp only: is_pow2_def word_of_int_pow2 mask_eq_exp_minus_1)
qed

lemma smear_covers: "covers 32 v (smear v)"
proof -
  define v1 where "v1 = v OR drop_bit 1 v"
  define v2 where "v2 = v1 OR drop_bit 2 v1"
  define v4 where "v4 = v2 OR drop_bit 4 v2"
  define v8 where "v8 = v4 OR drop_bit 8 v4"
  have "covers 2 v v1" using covers_step [OF covers_1, of 1 v] by (simp add: v1_def numeral_2_eq_2)
  then have "covers (2 + 2) v v2" unfolding v2_def by (intro covers_step) simp_all
  then have "covers (4 + 4) v v4" unfolding v4_def by (intro covers_step) simp_all
  then have "covers (8 + 8) v v8" unfolding v8_def by (intro covers_step) simp_all
  then have "covers (16 + 16) v (v8 OR drop_bit 16 v8)" by (intro covers_step) simp_all
  then show ?thesis by (simp add: smear_def Let_def v1_def v2_def v4_def v8_def)
qed

lemma next_pow2_bounds:
  assumes "2 \<le> v" "v \<le> 2 ^ 30"
  obtains k where "next_pow2 v = Inr (2 ^ k)" "1 \<le> k" "k \<le> 30" "2 ^ (k - 1) < v" "v \<le> 2 ^ k"
proof -
  define n where "n = nat (v - 1)"
  have v: "v = int n + 1" "1 \<le> n" "n < 2 ^ 30" using assms by (auto simp: n_def)
  define w where "w = (word_of_int (v - 1) :: u32)"
  have w: "w = of_nat n" using v by (simp add: w_def)
  have un: "unat w = n" unfolding w using v by (intro unat_of_nat_small) simp
  have ne: "w \<noteq> 0" using un v by (metis not_one_le_zero unat_0)
  have cov: "covers LENGTH(32) w (smear w)" using smear_covers [of w] by simp
  obtain h where h: "h < 32" "2 ^ h \<le> n" "n < 2 ^ Suc h" "smear w = mask (Suc h)"
    by (rule covers_all_mask [OF cov ne]) (simp add: un)
  have "(2 :: nat) ^ h < 2 ^ 30" using h(2) v(3) by linarith
  then have h30: "h < 30" by (rule power_less_imp_less_exp [rotated]) simp
  have sm: "smear w + 1 = 2 ^ Suc h" using h(4) by (simp add: inc_mask_eq_exp)
  have "unat (2 ^ Suc h :: u32) = 2 ^ Suc h" using h30 by (intro unat_pow2) simp
  moreover have "(2 :: nat) ^ Suc h \<le> 2 ^ 30" using h30 by (intro power_increasing) simp_all
  ultimately have "sint (2 ^ Suc h :: u32) = 2 ^ Suc h"
    by (subst sint_small) (simp_all del: power_Suc)
  moreover have "smear w \<noteq> 0x7FFFFFFF"
  proof
    assume a: "smear w = 0x7FFFFFFF"
    have "unat (smear w + 1) = 2 ^ Suc h" unfolding sm by fact
    moreover have "unat (0x7FFFFFFF + 1 :: u32) = 2 ^ 31" by simp
    ultimately have "(2 :: nat) ^ 31 \<le> 2 ^ 30"
      using a \<open>(2 :: nat) ^ Suc h \<le> 2 ^ 30\<close> by simp
    then show False by simp
  qed
  ultimately have np: "next_pow2 v = Inr (2 ^ Suc h)" using sm by (simp add: next_pow2_def Let_def w_def)
  have "2 ^ h \<le> int n" "int n < 2 ^ Suc h"
    using h(2,3) by (metis of_nat_le_iff of_nat_numeral of_nat_power, metis of_nat_less_iff of_nat_numeral of_nat_power)
  then have b: "2 ^ h < v" "v \<le> 2 ^ Suc h" unfolding v(1) by linarith+
  show thesis
    by (rule that [of "Suc h"]) (use np b h30 in \<open>simp_all del: power_Suc\<close>)
qed

lemma next_pow2_pow2:
  assumes "1 \<le> k" "k \<le> 30"
  shows "next_pow2 (2 ^ k) = Inr (2 ^ k)"
proof -
  have "(2 :: int) ^ 1 \<le> 2 ^ k" "(2 :: int) ^ k \<le> 2 ^ 30"
    using assms by (intro power_increasing; simp)+
  then obtain j where j: "next_pow2 (2 ^ k) = Inr (2 ^ j)" "1 \<le> j" "(2 :: int) ^ (j - 1) < 2 ^ k" "(2 :: int) ^ k \<le> 2 ^ j"
    using next_pow2_bounds [of "2 ^ k"] by auto
  then have "j - 1 < k" "k \<le> j" by simp_all
  then have "j = k" using j(2) by simp
  with j show ?thesis by simp
qed

subsection \<open>Invariant of the map\<close>

definition hm_inv :: "nat \<Rightarrow> hashmap \<Rightarrow> bool" where
  "hm_inv k m \<longleftrightarrow> 3 \<le> k \<and> k \<le> 28 \<and> msize m = 2 ^ k \<and> pool_inv k (pool m) \<and> used m = int (count_of USED (pool m))"

definition hm_map :: "hashmap \<Rightarrow> u64 \<Rightarrow> u64 option" where
  "hm_map m = pool_map (pool m)"

lemma start_index: "unat (h AND mask k) = probe k h 0"
  by (simp add: unat_and_mask probe.simps)

lemma hm_invD:
  assumes "hm_inv k m"
  shows "k \<le> 28" "msize m = 2 ^ k" "mask_of m = mask k" "is_pow2 (msize m)" "pool_inv k (pool m)"
    "length (pool m) = 2 ^ k" "used m = int (count_of USED (pool m))"
  using assms mask_of_pow2 [of m k] is_pow2_pow2 [of k] by (auto simp: hm_inv_def pool_inv_def)

lemma first_tomb_Some:
  assumes "first_tomb k p x 0 N = Some j"
  shows "\<exists>n<N. probe k (hashfunc x) n = j \<and> state (probed k p x n) = DELETED"
proof -
  let ?f = "filter (\<lambda>m. state (probed k p x m) = DELETED) [0..<N]"
  from assms obtain m ms where f: "?f = m # ms" "j = probe k (hashfunc x) m"
    by (auto simp: first_tomb_def split: list.splits)
  then have "m \<in> set ?f" by simp
  with f(2) show ?thesis by auto
qed

text \<open>Insertion into a pool that has a free slot.\<close>

lemma insert_locked_ok:
  assumes inv: "hm_inv k m" and free: "0 < count_of UNUSED (pool m)" and v: "v \<noteq> 0" and fuel: "13 + 2 ^ k \<le> fuel"
  shows "\<exists>m'. insert_locked fuel m x v = Some (Inr m') \<and> hm_inv k m' \<and> hm_map m' = (hm_map m)(x \<mapsto> v)
    \<and> held m' = held m - 1 \<and> used m \<le> used m' \<and> used m' \<le> used m + 1 \<and> count_of DELETED (pool m') \<le> count_of DELETED (pool m)"
proof -
  let ?p = "pool m"
  note D = hm_invD [OF inv]
  from unused_exists [OF free] obtain j0 where "j0 < 2 ^ k" "state (?p ! j0) = UNUSED" using D(6) by auto
  then obtain N where N: "first_stop k ?p x N" "N < 13 + 2 ^ k" by (rule first_stop_exists)
  let ?i = "probe k (hashfunc x) N"
  have i: "?i < length ?p" using probe_less D(6) by simp
  have loop: "insert_loop fuel x v (mask_of m) ?p None (unat (hashfunc x AND mask_of m)) (hashfunc x)
    = Some (Inr (if state (probed k ?p x N) = UNUSED then (?p, or_else (first_tomb k ?p x 0 N) (Some ?i))
        else (?p[?i := (probed k ?p x N)\<lparr>val := v\<rparr>], None)))"
    using insert_loop_first [OF N(1) D(1,6), of 0 fuel v None] N(2) fuel
    by (simp add: D(3) start_index pert_at_0 or_else_def)
  have lt: "used m < msize m"
    using count_of_total [of ?p] free D(2,6,7) by simp
  show ?thesis
  proof (cases "state (probed k ?p x N) = UNUSED")
    case True
    let ?j = "case first_tomb k ?p x 0 N of None \<Rightarrow> ?i | Some j \<Rightarrow> j"
    have noU: "state (probed k ?p x n) \<noteq> UNUSED" if "n < N" for n
      using N(1) that by (auto simp: first_stop_def stops_def)
    have j: "\<exists>n\<le>N. probe k (hashfunc x) n = ?j \<and> state (probed k ?p x n) \<noteq> USED"
      using first_tomb_Some [of k ?p x N] True by (cases "first_tomb k ?p x 0 N") (auto intro: less_imp_le)
    then obtain n0 where n0: "n0 \<le> N" "probe k (hashfunc x) n0 = ?j" "state (probed k ?p x n0) \<noteq> USED" by blast
    have path: "on_path k ?p x ?j" unfolding on_path_def using n0(1,2) noU by (meson less_le_trans)
    have jl: "?j < length ?p" unfolding n0(2) [symmetric] D(6) by (rule probe_less)
    have js: "state (?p ! ?j) \<noteq> USED" using n0(2,3) by (simp add: probed_def)
    let ?m = "m\<lparr>pool := ?p[?j := \<lparr>state = USED, val = v, key = x\<rparr>], used := used m + 1\<rparr>"
    have "insert_locked fuel m x v = Some (Inr (os_mutex_unlock ?m))"
      using loop True lt D(4)
      by (cases "first_tomb k ?p x 0 N") (simp_all add: insert_locked_def Let_def or_else_def)
    moreover have "hm_inv k (os_mutex_unlock ?m)" "hm_map (os_mutex_unlock ?m) = (hm_map m)(x \<mapsto> v)"
      using pool_inv_insert [OF D(5) first_stop_unused [OF D(5) N(1) True] path jl js v]
        count_of_update [OF jl, of USED "\<lparr>state = USED, val = v, key = x\<rparr>"] js inv
      by (simp_all add: hm_inv_def hm_map_def os_mutex_unlock_def)
    moreover have "count_of DELETED (pool ?m) \<le> count_of DELETED ?p"
      using count_of_update [OF jl, of DELETED "\<lparr>state = USED, val = v, key = x\<rparr>"] by simp
    ultimately show ?thesis by (auto simp: os_mutex_unlock_def)
  next
    case False
    note u = first_stop_used [OF D(5) N(1) False]
    let ?it = "(?p ! ?i)\<lparr>val := v\<rparr>"
    let ?m = "m\<lparr>pool := ?p[?i := ?it]\<rparr>"
    have "insert_locked fuel m x v = Some (Inr (os_mutex_unlock ?m))"
      using loop False lt D(4) by (simp add: insert_locked_def Let_def probed_def)
    moreover have c: "count_of st (?p[?i := ?it]) = count_of st ?p" for st
      using count_of_update [OF i, of st ?it] by auto
    moreover have "hm_inv k (os_mutex_unlock ?m)" "hm_map (os_mutex_unlock ?m) = (hm_map m)(x \<mapsto> v)"
      using pool_inv_replace [OF D(5) u v] c inv by (simp_all add: hm_inv_def hm_map_def os_mutex_unlock_def)
    ultimately show ?thesis by (auto simp: os_mutex_unlock_def)
  qed
qed

text \<open>Removal and selection.\<close>

lemma lock_ok: "recursive_mutex pf \<or> held m = 0 \<Longrightarrow> os_mutex_lock pf m = Inr (m\<lparr>held := held m + 1\<rparr>)"
  by (auto simp: os_mutex_lock_def)

lemma search_ok:
  assumes inv: "hm_inv k m" and free: "0 < count_of UNUSED (pool m)" and fuel: "13 + 2 ^ k \<le> fuel"
  shows "\<exists>r. remove_loop fuel x (mask_of m) (pool m) (unat (hashfunc x AND mask_of m)) (hashfunc x) = Some (Inr r)
    \<and> (case r of None \<Rightarrow> hm_map m x = None | Some i \<Rightarrow> used_at (pool m) i x)"
proof -
  let ?p = "pool m"
  note D = hm_invD [OF inv]
  from unused_exists [OF free] obtain j0 where "j0 < 2 ^ k" "state (?p ! j0) = UNUSED" using D(6) by auto
  then obtain N where N: "first_stop k ?p x N" "N < 13 + 2 ^ k" by (rule first_stop_exists)
  have "remove_loop fuel x (mask_of m) ?p (unat (hashfunc x AND mask_of m)) (hashfunc x)
    = Some (Inr (if state (probed k ?p x N) = UNUSED then None else Some (probe k (hashfunc x) N)))"
    using remove_loop_first [OF N(1) D(1,6), of 0 fuel] N(2) fuel by (simp add: D(3) start_index pert_at_0)
  then show ?thesis
    using first_stop_unused [OF D(5) N(1)] first_stop_used [OF D(5) N(1)] by (auto simp: hm_map_def)
qed

lemma hashmap_select_ok:
  assumes inv: "hm_inv k m" and free: "0 < count_of UNUSED (pool m)" and fuel: "13 + 2 ^ k \<le> fuel" and h: "held m = 0"
  shows "hashmap_select fuel pf m x = Some (Inr (case hm_map m x of None \<Rightarrow> 0 | Some v \<Rightarrow> v, m))"
proof -
  let ?m = "m\<lparr>held := 1\<rparr>"
  note D = hm_invD [OF inv]
  obtain r where r: "remove_loop fuel x (mask_of m) (pool m) (unat (hashfunc x AND mask_of m)) (hashfunc x) = Some (Inr r)"
    "case r of None \<Rightarrow> hm_map m x = None | Some i \<Rightarrow> used_at (pool m) i x"
    using search_ok [OF inv free fuel] by blast
  have "mask_of ?m = mask_of m" by (simp add: mask_of_def)
  moreover have "msize m \<noteq> 0" using D(2) by simp
  ultimately show ?thesis
    using r pool_map_Some [OF D(5)] D(4) h
    by (auto simp: hashmap_select_def lock_ok Let_def select_loop_remove os_mutex_unlock_def hm_map_def split: option.splits)
qed

lemma hashmap_remove_ok:
  assumes inv: "hm_inv k m" and free: "0 < count_of UNUSED (pool m)" and fuel: "13 + 2 ^ k \<le> fuel" and h: "held m = 0"
  shows "\<exists>m'. hashmap_remove fuel pf m x = Some (Inr (hm_map m x \<noteq> None, m')) \<and> hm_inv k m'
    \<and> hm_map m' = (hm_map m)(x := None) \<and> held m' = 0 \<and> used m' \<le> used m
    \<and> count_of DELETED (pool m') \<le> count_of DELETED (pool m) + 1"
proof -
  let ?m = "m\<lparr>held := 1\<rparr>"
  note D = hm_invD [OF inv]
  obtain r where r: "remove_loop fuel x (mask_of m) (pool m) (unat (hashfunc x AND mask_of m)) (hashfunc x) = Some (Inr r)"
    "case r of None \<Rightarrow> hm_map m x = None | Some i \<Rightarrow> used_at (pool m) i x"
    using search_ok [OF inv free fuel] by blast
  have mk: "mask_of ?m = mask_of m" "msize m \<noteq> 0" using D(2) by (simp_all add: mask_of_def)
  show ?thesis
  proof (cases r)
    case None
    then have "hashmap_remove fuel pf m x = Some (Inr (False, m))"
      using r D(4) h mk by (simp add: hashmap_remove_def lock_ok Let_def os_mutex_unlock_def)
    moreover have "(hm_map m)(x := None) = hm_map m" using r(2) None by auto
    ultimately show ?thesis using None r(2) inv h by auto
  next
    case (Some i)
    then have u: "used_at (pool m) i x" using r(2) by simp
    then have i: "i < length (pool m)" "state (pool m ! i) = USED" by (auto simp: used_at_def)
    let ?it = "\<lparr>state = DELETED, val = 0, key = - 1\<rparr>"
    let ?n = "m\<lparr>pool := (pool m)[i := ?it], used := used m - 1\<rparr>"
    have "hashmap_remove fuel pf m x = Some (Inr (True, ?n))"
      using r Some D(4) h mk by (simp add: hashmap_remove_def lock_ok Let_def os_mutex_unlock_def)
    moreover have "hm_map m x \<noteq> None" using pool_map_Some [OF D(5) u] by (simp add: hm_map_def)
    moreover have "hm_inv k ?n" "hm_map ?n = (hm_map m)(x := None)"
      using pool_inv_remove [OF D(5) u] inv count_of_update [OF i(1), of USED ?it] i(2)
      by (simp_all add: hm_inv_def hm_map_def)
    moreover have "count_of DELETED (pool ?n) = count_of DELETED (pool m) + 1"
      using count_of_update [OF i(1), of DELETED ?it] i(2) by simp
    ultimately show ?thesis using h by auto
  qed
qed

subsection \<open>Growing\<close>

lemma insert_no_resize:
  assumes "recursive_mutex pf \<or> held m = 0" "\<not> should_resize m" "hm_inv k m" "0 < count_of UNUSED (pool m)" "v \<noteq> 0"
    "13 + 2 ^ k \<le> fuel"
  shows "\<exists>m'. hashmap_insert (Suc d) fuel pf m x v = Some (Inr m') \<and> hm_inv k m' \<and> hm_map m' = (hm_map m)(x \<mapsto> v)
    \<and> held m' = held m \<and> used m \<le> used m' \<and> used m' \<le> used m + 1 \<and> count_of DELETED (pool m') \<le> count_of DELETED (pool m)"
proof -
  let ?m = "m\<lparr>held := held m + 1\<rparr>"
  have "hm_inv k ?m" "hm_map ?m = hm_map m" using assms(3) by (simp_all add: hm_inv_def hm_map_def)
  moreover have "hashmap_insert (Suc d) fuel pf m x v = insert_locked fuel ?m x v"
    using assms(2,5) by (simp add: hashmap_insert.simps lock_ok [OF assms(1)] should_resize_def)
  ultimately show ?thesis using insert_locked_ok [of k ?m v fuel x] assms by auto
qed

lemma pool_map_Cons:
  "pool_map (it # its) x = (if state it = USED \<and> key it = x then Some (val it) else pool_map its x)"
  by (simp add: pool_map_def)

lemma count_of_Cons: "count_of st (it # its) = (if state it = st then 1 else 0) + count_of st its"
  by (simp add: count_of_def)

definition keys_distinct :: "item list \<Rightarrow> bool" where
  "keys_distinct p \<longleftrightarrow> (\<forall>i j x. used_at p i x \<longrightarrow> used_at p j x \<longrightarrow> i = j)"

lemma keys_distinct_Cons:
  assumes "keys_distinct (it # its)"
  shows "keys_distinct its" "state it = USED \<Longrightarrow> pool_map its (key it) = None"
proof -
  have s: "used_at its i x \<longleftrightarrow> used_at (it # its) (Suc i) x" for i x by (simp add: used_at_def)
  show "keys_distinct its" using assms unfolding keys_distinct_def s by blast
  show "pool_map its (key it) = None" if "state it = USED"
  proof -
    have "used_at (it # its) 0 (key it)" using that by (simp add: used_at_def)
    then have "\<not> used_at (it # its) (Suc j) (key it)" for j
      using assms unfolding keys_distinct_def by (metis nat.distinct(1))
    then show ?thesis by (simp add: pool_map_None s)
  qed
qed

lemma reinsert_ok:
  assumes "recursive_mutex pf" "13 + 2 ^ k \<le> fuel"
  shows "hm_inv k m \<Longrightarrow> count_of DELETED (pool m) = 0 \<Longrightarrow> keys_distinct its \<Longrightarrow>
    \<forall>it \<in> set its. state it = USED \<longrightarrow> val it \<noteq> 0 \<Longrightarrow> 10 * used m + 10 * int (count_of USED its) \<le> 7 * 2 ^ k \<Longrightarrow>
    \<exists>m'. reinsert (hashmap_insert (Suc d) fuel pf) its m = Some (Inr m') \<and> hm_inv k m'
      \<and> count_of DELETED (pool m') = 0 \<and> held m' = held m \<and> used m' \<le> used m + int (count_of USED its)
      \<and> hm_map m' = hm_map m ++ pool_map its"
proof (induction its arbitrary: m)
  case Nil
  have "pool_map [] = Map.empty" by (auto simp: pool_map_def)
  with Nil show ?case by simp
next
  case (Cons it its)
  note kd = keys_distinct_Cons [OF Cons.prems(3)]
  show ?case
  proof (cases "state it = USED")
    case True
    note D = hm_invD [OF Cons.prems(1)]
    have load: "10 * used m + 10 + 10 * int (count_of USED its) \<le> 7 * 2 ^ k"
      using Cons.prems(5) True by (simp add: count_of_Cons algebra_simps)
    have ns: "\<not> should_resize m" using load D(2) by (simp add: should_resize_def)
    have "int (count_of UNUSED (pool m)) = 2 ^ k - used m"
      using count_of_total [of "pool m"] Cons.prems(2) D(6,7) by (simp add: of_nat_diff flip: of_nat_add)
        (metis add.commute add_diff_cancel_right' of_nat_add of_nat_numeral of_nat_power)
    moreover have "(0 :: int) < 2 ^ k" "0 \<le> int (count_of USED its)" by simp_all
    ultimately have "0 < int (count_of UNUSED (pool m))" using load by linarith
    then have free: "0 < count_of UNUSED (pool m)" by simp
    obtain m1 where m1: "hashmap_insert (Suc d) fuel pf m (key it) (val it) = Some (Inr m1)" "hm_inv k m1"
      "hm_map m1 = (hm_map m)(key it \<mapsto> val it)" "held m1 = held m" "used m1 \<le> used m + 1" "count_of DELETED (pool m1) = 0"
      using insert_no_resize [OF _ ns Cons.prems(1) free _ assms(2), of pf "val it" d "key it"] assms(1) Cons.prems(2,4) True by auto
    have "10 * used m1 + 10 * int (count_of USED its) \<le> 7 * 2 ^ k" using m1(5) load by linarith
    then obtain m' where m': "reinsert (hashmap_insert (Suc d) fuel pf) its m1 = Some (Inr m')" "hm_inv k m'"
      "count_of DELETED (pool m') = 0" "held m' = held m1" "used m' \<le> used m1 + int (count_of USED its)"
      "hm_map m' = hm_map m1 ++ pool_map its"
      using Cons.IH [OF m1(2,6) kd(1)] Cons.prems(4) by auto
    have "hm_map m' = hm_map m ++ pool_map (it # its)"
      unfolding m'(6) m1(3) using kd(2) True by (auto simp: pool_map_Cons map_add_def fun_eq_iff split: option.splits)
    then show ?thesis using m1 m' True by (auto simp: count_of_Cons)
  next
    case False
    then have "pool_map (it # its) = pool_map its" "count_of USED (it # its) = count_of USED its"
      by (auto simp: pool_map_Cons count_of_Cons)
    then show ?thesis using Cons.IH [OF Cons.prems(1,2) kd(1)] Cons.prems(4,5) False by simp
  qed
qed

lemma fresh_pool:
  fixes k :: nat
  defines "p \<equiv> replicate (2 ^ k) \<lparr>state = UNUSED, val = 0, key = 0\<rparr>"
  shows "pool_inv k p" "count_of USED p = 0" "count_of DELETED p = 0" "count_of UNUSED p = 2 ^ k" "pool_map p = Map.empty"
  by (auto simp: p_def pool_inv_def used_at_def count_of_def pool_map_None fun_eq_iff)

lemma resize_ok:
  assumes "recursive_mutex pf" "13 + 2 ^ Suc k \<le> fuel" "hm_inv k m" "k \<le> 27" "can_alloc pf (2 ^ Suc k)"
  shows "\<exists>m'. resize (hashmap_insert (Suc d) fuel pf) pf m (2 * msize m) = Some (Inr m') \<and> hm_inv (Suc k) m'
    \<and> count_of DELETED (pool m') = 0 \<and> held m' = held m \<and> used m' \<le> used m \<and> hm_map m' = hm_map m"
proof -
  note D = hm_invD [OF assms(3)]
  let ?p = "replicate (2 ^ Suc k) \<lparr>state = UNUSED, val = 0, key = 0\<rparr>"
  let ?m = "m\<lparr>pool := ?p, msize := 2 ^ Suc k, used := 0\<rparr>"
  have le: "count_of USED (pool m) \<le> 2 ^ k" using count_of_total [of "pool m"] D(6) by simp
  then have uk: "used m \<le> 2 ^ k" unfolding D(7) by (metis of_nat_le_iff of_nat_numeral of_nat_power)
  have k3: "3 \<le> k" using assms(3) by (simp add: hm_inv_def)
  then have "(2 :: int) ^ 3 \<le> 2 ^ k" by (intro power_increasing) simp_all
  then have sz: "(if 2 * msize m < used m then used m else 2 * msize m) = 2 ^ Suc k" "\<not> (2 :: int) ^ Suc k < 8"
    using uk D(2) by (auto simp: not_less)
  have np: "next_pow2 (2 ^ Suc k) = Inr (2 ^ Suc k)" using assms(4) by (intro next_pow2_pow2) simp_all
  have nat2: "nat (2 ^ Suc k) = 2 ^ Suc k" by (simp add: nat_power_eq del: power_Suc)
  have step: "resize (hashmap_insert (Suc d) fuel pf) pf m (2 * msize m) = reinsert (hashmap_insert (Suc d) fuel pf) (pool m) ?m"
    unfolding resize_def Let_def sz(1) using sz(2) np assms(5) by (simp add: os_alloc_pool_def nat2 del: power_Suc)
  have "hm_inv (Suc k) ?m" using fresh_pool [of "Suc k"] k3 assms(4) by (simp add: hm_inv_def del: power_Suc)
  moreover have "keys_distinct (pool m)" using D(5) by (simp add: pool_inv_def keys_distinct_def)
  moreover have "\<forall>it \<in> set (pool m). state it = USED \<longrightarrow> val it \<noteq> 0"
    using D(5) by (auto simp: pool_inv_def used_at_def in_set_conv_nth)
  moreover have "10 * used ?m + 10 * int (count_of USED (pool m)) \<le> 7 * 2 ^ Suc k"
  proof -
    have "(0 :: int) < 2 ^ k" by simp
    then have "10 * used m \<le> 7 * (2 * 2 ^ k)" using uk by linarith
    then show ?thesis by (simp add: D(7))
  qed
  ultimately obtain m' where m': "reinsert (hashmap_insert (Suc d) fuel pf) (pool m) ?m = Some (Inr m')" "hm_inv (Suc k) m'"
    "count_of DELETED (pool m') = 0" "held m' = held m" "used m' \<le> used ?m + int (count_of USED (pool m))"
    "hm_map m' = hm_map ?m ++ pool_map (pool m)"
    using reinsert_ok [OF assms(1,2), of ?m "pool m" d] fresh_pool(3) [of "Suc k"] by (auto simp del: power_Suc)
  have "hm_map ?m = Map.empty" using fresh_pool(5) [of "Suc k"] by (simp add: hm_map_def del: power_Suc)
  then have "hm_map m' = hm_map m" using m'(6) by (simp add: hm_map_def)
  with step m' D(7) show ?thesis by simp
qed

subsection \<open>The map interface\<close>

text \<open>
  \<open>hm_ok r n m\<close>: the map is in good order and stays so for \<open>r\<close> more removals and \<open>n\<close> more
  insertions. A removal leaves a tombstone behind, so the removals are limited by the free part of the
  pool: a search needs a slot that was never used.
\<close>

definition hm_ok :: "nat \<Rightarrow> nat \<Rightarrow> hashmap \<Rightarrow> bool" where
  "hm_ok r n m \<longleftrightarrow> (\<exists>k. hm_inv k m \<and> k \<le> 27 \<and> held m = 0 \<and> 10 * used m < 7 * 2 ^ k + 10
     \<and> 10 * int (count_of DELETED (pool m)) + 10 * int r + 10 \<le> 3 * 2 ^ k \<and> used m + int n \<le> 2 ^ 26)"

lemma hm_ok_free:
  assumes "hm_inv k m" "10 * used m < 7 * 2 ^ k + 10" "10 * int (count_of DELETED (pool m)) + 10 * int r + 10 \<le> 3 * 2 ^ k"
  shows "0 < count_of UNUSED (pool m)"
proof -
  note D = hm_invD [OF assms(1)]
  have "int (count_of UNUSED (pool m)) + int (count_of USED (pool m)) + int (count_of DELETED (pool m)) = 2 ^ k"
    using count_of_total [of "pool m"] D(6) by (metis of_nat_add of_nat_numeral of_nat_power)
  moreover have "0 \<le> int r" by simp
  ultimately have "0 < int (count_of UNUSED (pool m))" using assms(2,3) D(7) by linarith
  then show ?thesis by simp
qed

lemma pow_fuel: "k \<le> 27 \<Longrightarrow> 13 + 2 ^ 27 \<le> fuel \<Longrightarrow> 13 + 2 ^ k \<le> (fuel :: nat)"
  using power_increasing [of k 27 "2 :: nat"] by linarith

lemma hm_insert_ok:
  assumes "recursive_mutex pf" "\<And>s. can_alloc pf s" "13 + 2 ^ 27 \<le> fuel" "hm_ok r (Suc n) m" "v \<noteq> 0"
  shows "\<exists>m'. hashmap_insert (Suc (Suc d)) fuel pf m x v = Some (Inr m') \<and> hm_ok r n m' \<and> hm_map m' = (hm_map m)(x \<mapsto> v)"
proof -
  from assms(4) obtain k where k: "hm_inv k m" "k \<le> 27" "held m = 0" "10 * used m < 7 * 2 ^ k + 10"
    "10 * int (count_of DELETED (pool m)) + 10 * int r + 10 \<le> 3 * 2 ^ k" "used m + int (Suc n) \<le> 2 ^ 26"
    by (auto simp: hm_ok_def)
  note D = hm_invD [OF k(1)]
  show ?thesis
  proof (cases "should_resize m")
    case False
    obtain m' where m': "hashmap_insert (Suc (Suc d)) fuel pf m x v = Some (Inr m')" "hm_inv k m'"
      "hm_map m' = (hm_map m)(x \<mapsto> v)" "held m' = held m" "used m' \<le> used m + 1"
      "count_of DELETED (pool m') \<le> count_of DELETED (pool m)"
      using insert_no_resize [OF _ False k(1) hm_ok_free [OF k(1,4,5)] assms(5) pow_fuel [OF k(2) assms(3)], of pf "Suc d" x] k(3)
      by auto
    have "hm_ok r n m'"
      unfolding hm_ok_def
    proof (intro exI conjI)
      show "hm_inv k m'" "k \<le> 27" "held m' = 0" using m' k by simp_all
      show "10 * used m' < 7 * 2 ^ k + 10" using m'(5) False D(2) by (simp add: should_resize_def)
      show "10 * int (count_of DELETED (pool m')) + 10 * int r + 10 \<le> 3 * 2 ^ k"
        using k(5) m'(6) [folded of_nat_le_iff [where 'a = int]] by linarith
      show "used m' + int n \<le> 2 ^ 26" using m'(5) k(6) by simp
    qed
    with m' show ?thesis by auto
  next
    case True
    have "7 * 2 ^ k \<le> 10 * used m" using True D(2) by (simp add: should_resize_def)
    then have "(2 :: int) ^ k < 2 ^ 27" using k(6) by simp
    then have "k < 27" by (rule power_less_imp_less_exp [rotated]) simp
    then have k26: "Suc k \<le> 27" by simp
    let ?m = "m\<lparr>held := 1\<rparr>"
    have inv: "hm_inv k ?m" using k(1) by (simp add: hm_inv_def)
    obtain m1 where m1: "resize (hashmap_insert (Suc d) fuel pf) pf ?m (2 * msize ?m) = Some (Inr m1)" "hm_inv (Suc k) m1"
      "count_of DELETED (pool m1) = 0" "held m1 = 1" "used m1 \<le> used m" "hm_map m1 = hm_map m"
      using resize_ok [OF assms(1) pow_fuel [OF k26 assms(3)] inv k(2) assms(2), of d] by (auto simp: hm_map_def)
    have "(2 :: int) ^ 3 \<le> 2 ^ k" using k(1) by (intro power_increasing) (simp_all add: hm_inv_def)
    then have load: "10 * used m1 < 7 * 2 ^ Suc k" using m1(5) k(4) by simp
    have r: "10 * int r + 10 \<le> 3 * 2 ^ Suc k" using k(5) by simp
    have "0 < count_of UNUSED (pool m1)" using hm_ok_free [OF m1(2), of r] load r m1(3) by simp
    then obtain m' where m': "insert_locked fuel m1 x v = Some (Inr m')" "hm_inv (Suc k) m'" "hm_map m' = (hm_map m)(x \<mapsto> v)"
      "held m' = 0" "used m' \<le> used m1 + 1" "count_of DELETED (pool m') = 0"
      using insert_locked_ok [OF m1(2) _ assms(5) pow_fuel [OF k26 assms(3)], of x] m1 by auto
    have "hashmap_insert (Suc (Suc d)) fuel pf m x v = Some (Inr m')"
      using m1(1) m'(1) True assms(1,5) k(3) by (simp add: hashmap_insert.simps(2) lock_ok should_resize_def)
    moreover have "hm_ok r n m'"
      unfolding hm_ok_def
      by (intro exI [of _ "Suc k"] conjI) (use m' m1(5) k26 load r k(6) in \<open>simp_all del: power_Suc\<close>)
    ultimately show ?thesis using m'(3) by auto
  qed
qed

text \<open>The operations as calls of the interface; a depth of two is enough for \<open>hashmap_insert\<close>.\<close>

fun hm_step :: "nat \<Rightarrow> platform \<Rightarrow> map_op \<Rightarrow> hashmap \<Rightarrow> (u64 \<times> hashmap) res option" where
  "hm_step fuel pf (M_insert x v) m = obind (hashmap_insert 2 fuel pf m x v) (\<lambda>m. Some (Inr (0, m)))"
| "hm_step fuel pf (M_remove x) m = obind (hashmap_remove fuel pf m x) (\<lambda>(b, m). Some (Inr (if b then 1 else 0, m)))"
| "hm_step fuel pf (M_select x) m = hashmap_select fuel pf m x"

definition good_platform :: "nat \<Rightarrow> platform \<Rightarrow> bool" where
  "good_platform fuel pf \<longleftrightarrow> recursive_mutex pf \<and> (\<forall>n. can_alloc pf n) \<and> 13 + 2 ^ 27 \<le> fuel"

definition hm_ready :: "nat \<Rightarrow> platform \<Rightarrow> nat \<Rightarrow> nat \<Rightarrow> hashmap \<Rightarrow> bool" where
  "hm_ready fuel pf r n m \<longleftrightarrow> good_platform fuel pf \<and> hm_ok r n m"

interpretation hm: word_map "hm_ready fuel pf" hm_map "hm_step fuel pf" for fuel pf
proof
  fix r n m v x
  assume a: "hm_ready fuel pf r (Suc n) m" "v \<noteq> (0 :: u64)"
  then have "\<exists>m'. hashmap_insert (Suc (Suc 0)) fuel pf m x v = Some (Inr m') \<and> hm_ok r n m' \<and> hm_map m' = (hm_map m)(x \<mapsto> v)"
    by (intro hm_insert_ok) (auto simp: hm_ready_def good_platform_def)
  with a show "\<exists>m'. hm_step fuel pf (M_insert x v) m = Some (Inr (0, m')) \<and> hm_ready fuel pf r n m' \<and> hm_map m' = (hm_map m)(x \<mapsto> v)"
    by (auto simp: hm_ready_def numeral_2_eq_2)
next
  fix r n m x
  assume a: "hm_ready fuel pf (Suc r) n m"
  then obtain k where k: "hm_inv k m" "k \<le> 27" "held m = 0" "10 * used m < 7 * 2 ^ k + 10"
    "10 * int (count_of DELETED (pool m)) + 10 * int (Suc r) + 10 \<le> 3 * 2 ^ k" "used m + int n \<le> 2 ^ 26"
    by (auto simp: hm_ok_def hm_ready_def)
  have f: "13 + 2 ^ k \<le> fuel" using pow_fuel [OF k(2)] a by (simp add: hm_ready_def good_platform_def)
  obtain m' where m': "hashmap_remove fuel pf m x = Some (Inr (hm_map m x \<noteq> None, m'))" "hm_inv k m'"
    "hm_map m' = (hm_map m)(x := None)" "held m' = 0" "used m' \<le> used m"
    "count_of DELETED (pool m') \<le> count_of DELETED (pool m) + 1"
    using hashmap_remove_ok [OF k(1) hm_ok_free [OF k(1,4,5)] f k(3)] by blast
  have "10 * int (count_of DELETED (pool m')) + 10 * int r + 10 \<le> 3 * 2 ^ k" using m'(6) k(5) by simp
  then have "hm_ok r n m'" unfolding hm_ok_def using m' k by (intro exI [of _ k]) simp
  with m' a show "\<exists>m'. hm_step fuel pf (M_remove x) m = Some (Inr (if hm_map m x = None then 0 else 1, m'))
    \<and> hm_ready fuel pf r n m' \<and> hm_map m' = (hm_map m)(x := None)"
    by (auto simp: hm_ready_def)
next
  fix r n m x
  assume a: "hm_ready fuel pf r n m"
  then obtain k where k: "hm_inv k m" "k \<le> 27" "held m = 0" "10 * used m < 7 * 2 ^ k + 10"
    "10 * int (count_of DELETED (pool m)) + 10 * int r + 10 \<le> 3 * 2 ^ k"
    by (auto simp: hm_ok_def hm_ready_def)
  have f: "13 + 2 ^ k \<le> fuel" using pow_fuel [OF k(2)] a by (simp add: hm_ready_def good_platform_def)
  show "hm_step fuel pf (M_select x) m = Some (Inr (case hm_map m x of None \<Rightarrow> 0 | Some v \<Rightarrow> v, m))"
    using hashmap_select_ok [OF k(1) hm_ok_free [OF k(1,4,5)] f k(3)] by simp
qed

lemma create_ready:
  assumes "good_platform fuel pf" "8 \<le> init" "init \<le> 2 ^ 26" "10 * int r + 10 \<le> 3 * init" "n \<le> 2 ^ 26"
  shows "\<exists>m. hashmap_create pf init = Inr m \<and> hm_ready fuel pf r n m \<and> hm_map m = Map.empty"
proof -
  obtain k where k: "next_pow2 init = Inr (2 ^ k)" "2 ^ (k - 1) < init" "init \<le> 2 ^ k" "1 \<le> k"
    using next_pow2_bounds [of init] assms(2,3) by auto
  let ?m = "\<lparr>pool = replicate (2 ^ k) \<lparr>state = UNUSED, val = 0, key = 0\<rparr>, msize = 2 ^ k, used = 0, held = 0\<rparr>"
  have "nat (2 ^ k) = 2 ^ k" by (simp add: nat_power_eq)
  then have c: "hashmap_create pf init = Inr ?m"
    using k(1) assms(1,2) by (simp add: hashmap_create_def os_alloc_pool_def good_platform_def)
  have "(2 :: int) ^ (k - 1) < 2 ^ 26" using k(2) assms(3) by linarith
  then have "k - 1 < 26" by (rule power_less_imp_less_exp [rotated]) simp
  moreover have "(2 :: int) ^ 2 < 2 ^ k" using k(3) assms(2) by simp
  then have "2 < k" by (rule power_less_imp_less_exp [rotated]) simp
  ultimately have "hm_inv k ?m" using fresh_pool [of k] by (simp add: hm_inv_def)
  moreover have "k \<le> 27" using \<open>k - 1 < 26\<close> by simp
  moreover have "10 * int (count_of DELETED (pool ?m)) + 10 * int r + 10 \<le> 3 * 2 ^ k"
    using fresh_pool(3) [of k] assms(4) k(3) by simp
  ultimately have "hm_ok r n ?m" using assms(5) by (auto simp: hm_ok_def intro!: exI [of _ k])
  moreover have "hm_map ?m = Map.empty" using fresh_pool(5) [of k] by (simp add: hm_map_def)
  ultimately show ?thesis using c assms(1) by (simp add: hm_ready_def)
qed

subsection \<open>Theorems\<close>

text \<open>C3: The hash map is a map. On a platform whose mutex is recursive, and as long as the memory lasts, a map created for \<open>init\<close> items answers every
  sequence of insertions, removals and selections as a finite map does, through any number of
  collisions and resizes, provided that the removals are fewer than 30 percent of \<open>init\<close> (the next theorem but one shows why) and the insertions at most \<open>2 ^ 26\<close>.
  In particular every search returns: \<open>13 + 2 ^ 27\<close> probes, the length of the longest search in the largest pool, are enough.\<close>

theorem hashmap_refines_map:
  assumes "good_platform fuel pf" "8 \<le> init" "init \<le> 2 ^ 26" "\<forall>c \<in> set ops. legal c"
    and "10 * int (removals ops) + 10 \<le> 3 * init" "insertions ops \<le> 2 ^ 26"
  shows "\<exists>m outs m'. hashmap_create pf init = Inr m \<and> map_run (hm_step fuel pf) ops m = Some (Inr (outs, m'))
    \<and> run_spec spec_step ops Map.empty = (outs, hm_map m')"
proof -
  obtain m where m: "hashmap_create pf init = Inr m" "hm_ready fuel pf (removals ops) (insertions ops) m" "hm_map m = Map.empty"
    using create_ready [OF assms(1-3,5,6)] by blast
  from hm.map_run_sim [OF m(2) assms(4)] m(1,3) show ?thesis by auto
qed

theorem hashmap_refines_map_witness:
  "\<exists>m outs m'. hashmap_create \<lparr>recursive_mutex = True, can_alloc = (\<lambda>_. True)\<rparr> 8 = Inr m
    \<and> map_run (hm_step (13 + 2 ^ 27) \<lparr>recursive_mutex = True, can_alloc = (\<lambda>_. True)\<rparr>)
        [M_insert 1 10, M_insert 2 20, M_insert 1 30, M_remove 2, M_select 1, M_select 2] m = Some (Inr (outs, m'))
    \<and> outs = [0, 0, 0, 1, 30, 0]"
proof -
  let ?pf = "\<lparr>recursive_mutex = True, can_alloc = (\<lambda>_. True)\<rparr>"
  let ?ops = "[M_insert 1 10, M_insert 2 20, M_insert 1 30, M_remove 2, M_select 1, M_select 2]"
  have "good_platform (13 + 2 ^ 27) ?pf" by (simp add: good_platform_def)
  from hashmap_refines_map [OF this, of 8 ?ops] show ?thesis by (simp add: Let_def) blast
qed

text \<open>\<open>next_pow2\<close> rounds up to the next power of two, for all sizes for which that is an \<^verbatim>\<open>int\<close>.\<close>

theorem next_pow2_correct:
  assumes "2 \<le> v" "v \<le> 2 ^ 30"
  shows "\<exists>k. next_pow2 v = Inr (2 ^ k) \<and> 2 ^ (k - 1) < v \<and> v \<le> 2 ^ k"
  using next_pow2_bounds [OF assms] by metis

theorem next_pow2_correct_witness:
  "\<exists>k. next_pow2 100 = Inr (2 ^ k) \<and> 2 ^ (k - 1) < (100 :: int) \<and> 100 \<le> (2 :: int) ^ k"
  by (rule next_pow2_correct) simp_all

lemma reinsert_deadlock:
  assumes "\<not> recursive_mutex pf" "held m > 0" "0 < count_of USED its"
  shows "reinsert (hashmap_insert (Suc d) fuel pf) its m = Some (Inl Deadlock)"
  using assms
  by (induction its) (auto simp: hashmap_insert.simps(2) os_mutex_lock_def count_of_def)

text \<open>With the default POSIX mutex the map can never grow: an insertion that resizes calls \<open>hashmap_insert\<close> again for the
  items of the old pool while it holds the mutex, and blocks for ever.\<close>

theorem hashmap_resize_deadlock:
  assumes "\<not> recursive_mutex pf" "held m = 0" "v \<noteq> 0" "should_resize m" "can_alloc pf (2 ^ Suc k)"
    and "msize m = 2 ^ k" "3 \<le> k" "k \<le> 27" "used m = int (count_of USED (pool m))" "used m \<le> msize m"
  shows "hashmap_insert (Suc (Suc d)) fuel pf m x v = Some (Inl Deadlock)"
proof -
  have pos: "(8 :: int) \<le> 2 ^ k" using assms(7) power_increasing [of 3 k "2 :: int"] by simp
  then have "0 < count_of USED (pool m)" using assms(4,6,9) by (simp add: should_resize_def)
  then have "reinsert (hashmap_insert (Suc d) fuel pf) (pool m) (m\<lparr>held := 1, pool := q, msize := s, used := u\<rparr>)
      = Some (Inl Deadlock)" for q s u
    by (intro reinsert_deadlock [OF assms(1)]) simp_all
  moreover have "next_pow2 (2 ^ Suc k) = Inr (2 ^ Suc k)" using assms(8) by (intro next_pow2_pow2) simp_all
  moreover have "(if 2 * 2 ^ k < used m then used m else 2 * 2 ^ k) = (2 :: int) ^ Suc k" "\<not> (2 :: int) ^ Suc k < 8"
    using assms(6,10) pos by auto
  ultimately have "resize (hashmap_insert (Suc d) fuel pf) pf (m\<lparr>held := 1\<rparr>) (2 * msize m) = Some (Inl Deadlock)"
    using assms(5,6,10) pos by (simp add: resize_def Let_def os_alloc_pool_def)
  then show ?thesis
    using assms(2,3,4) by (simp add: hashmap_insert.simps(2) [of "Suc d"] lock_ok should_resize_def)
qed

theorem hashmap_resize_deadlock_witness:
  "let m = \<lparr>pool = map (\<lambda>i. \<lparr>state = USED, val = 1, key = i\<rparr>) [1, 2, 3, 4, 5, 6] @ replicate 2 \<lparr>state = UNUSED, val = 0, key = 0\<rparr>,
            msize = 8, used = 6, held = 0\<rparr>
   in hashmap_insert 2 21 \<lparr>recursive_mutex = False, can_alloc = (\<lambda>_. True)\<rparr> m 7 1 = Some (Inl Deadlock)"
  unfolding Let_def numeral_2_eq_2
  by (rule hashmap_resize_deadlock [where k = 3]) (simp_all add: should_resize_def count_of_def numeral_2_eq_2)

text \<open>Without a slot that was never used, the search for an absent key does not end.\<close>

lemma remove_loop_diverges:
  assumes "k \<le> 28" "length p = 2 ^ k" "count_of UNUSED p = 0" "pool_map p x = None"
  shows "remove_loop fuel x (mask k) p (probe k (hashfunc x) n) (pert_at (hashfunc x) n) = None"
proof (induction fuel arbitrary: n)
  case (Suc fuel)
  let ?i = "probe k (hashfunc x) n"
  have i: "?i < length p" using probe_less assms(2) by simp
  then have "state (p ! ?i) \<noteq> UNUSED" using assms(3) by (auto simp: count_of_def filter_empty_conv)
  moreover have "\<not> (state (p ! ?i) = USED \<and> key (p ! ?i) = x)"
    using assms(4) i by (auto simp: pool_map_None used_at_def)
  ultimately show ?case
    using i Suc [of "Suc n"] next_index_probe [OF assms(1), of "hashfunc x" n] by (simp add: pert_at_Suc Let_def)
qed simp

text \<open>When every slot of the pool is in use or a tombstone, searching for a key that is not in the map does not return, whatever number of
  probes is allowed.\<close>

theorem hashmap_select_hangs:
  assumes "msize m = 2 ^ k" "k \<le> 28" "length (pool m) = 2 ^ k" "count_of UNUSED (pool m) = 0" "hm_map m x = None" "held m = 0"
  shows "hashmap_select fuel pf m x = None"
proof -
  have "mask_of (m\<lparr>held := 1\<rparr>) = mask k" using mask_of_pow2 [of "m\<lparr>held := 1\<rparr>" k] assms(1) by simp
  then show ?thesis
    using remove_loop_diverges [OF assms(2-4), of x fuel 0] assms is_pow2_pow2 [of k]
    by (simp add: hashmap_select_def lock_ok Let_def start_index pert_at_0 select_loop_remove hm_map_def)
qed

text \<open>Tombstones are not counted by \<open>should_resize\<close>: eight insertions, each removed again, fill a pool of eight with them.\<close>

definition tombstone_calls :: "map_op list" where
  "tombstone_calls = concat (map (\<lambda>x. [M_insert x 1, M_remove x]) [6, 1, 4, 12, 9, 3, 2, 7])"

definition tombstone_map :: hashmap where
  "tombstone_map = \<lparr>pool = replicate 8 \<lparr>state = DELETED, val = 0, key = - 1\<rparr>, msize = 8, used = 0, held = 0\<rparr>"

definition posix :: platform where
  "posix = \<lparr>recursive_mutex = False, can_alloc = (\<lambda>_. True)\<rparr>"

lemma tombstone_pair:
  assumes m: "msize m = 8" "used m = 0" "held m = 0" "length (pool m) = 8"
    and i: "unat (hashfunc x AND 7) = i" "i < 8" "state (pool m ! i) = UNUSED"
  shows "map_run (hm_step 2 posix) (M_insert x 1 # M_remove x # cs) m
    = (case map_run (hm_step 2 posix) cs (m\<lparr>pool := (pool m)[i := \<lparr>state = DELETED, val = 0, key = - 1\<rparr>]\<rparr>) of
        None \<Rightarrow> None | Some (Inl e) \<Rightarrow> Some (Inl e) | Some (Inr (outs, s)) \<Rightarrow> Some (Inr (0 # 1 # outs, s)))"
proof -
  have w: "is_pow2 8" using is_pow2_pow2 [of 3] by simp
  let ?n = "m\<lparr>pool := (pool m)[i := \<lparr>state = USED, val = 1, key = x\<rparr>], used := 1\<rparr>"
  have "hashmap_insert 2 2 posix m x 1 = Some (Inr ?n)"
    using m i w by (simp add: numeral_2_eq_2 hashmap_insert.simps(2) lock_ok should_resize_def insert_locked_def mask_of_def Let_def os_mutex_unlock_def)
  moreover have "hashmap_remove 2 posix ?n x = Some (Inr (True, m\<lparr>pool := (pool m)[i := \<lparr>state = DELETED, val = 0, key = - 1\<rparr>]\<rparr>))"
    using m i w by (simp add: numeral_2_eq_2 hashmap_remove_def lock_ok mask_of_def Let_def os_mutex_unlock_def)
  ultimately show ?thesis by (simp split: option.splits sum.splits)
qed

lemma tombstone_run:
  assumes "msize m = 8" "used m = 0" "held m = 0" "length (pool m) = 8" "distinct (map snd xs)"
    and "\<forall>(x, i) \<in> set xs. unat (hashfunc x AND 7) = i \<and> i < 8 \<and> state (pool m ! i) = UNUSED"
  shows "\<exists>outs. map_run (hm_step 2 posix) (concat (map (\<lambda>x. [M_insert x 1, M_remove x]) (map fst xs))) m
    = Some (Inr (outs, m\<lparr>pool := fold (\<lambda>(x, i) p. p[i := \<lparr>state = DELETED, val = 0, key = - 1\<rparr>]) xs (pool m)\<rparr>))"
  using assms
proof (induction xs arbitrary: m)
  case Nil
  then show ?case by simp
next
  case (Cons xi xs)
  obtain x i where xi: "xi = (x, i)" by fastforce
  let ?m = "m\<lparr>pool := (pool m)[i := \<lparr>state = DELETED, val = 0, key = - 1\<rparr>]\<rparr>"
  have "unat (hashfunc y AND 7) = j \<and> j < 8 \<and> state (pool ?m ! j) = UNUSED" if yj: "(y, j) \<in> set xs" for y j
  proof -
    have "j \<noteq> i" using Cons.prems(5) yj by (force simp: xi)
    then show ?thesis using Cons.prems(6) yj by auto
  qed
  then have "\<forall>(y, j) \<in> set xs. unat (hashfunc y AND 7) = j \<and> j < 8 \<and> state (pool ?m ! j) = UNUSED"
    by auto
  with Cons.IH [of ?m] Cons.prems(1-5) obtain outs where "map_run (hm_step 2 posix) (concat (map (\<lambda>x. [M_insert x 1, M_remove x]) (map fst xs))) ?m
    = Some (Inr (outs, ?m\<lparr>pool := fold (\<lambda>(x, i) p. p[i := \<lparr>state = DELETED, val = 0, key = - 1\<rparr>]) xs (pool ?m)\<rparr>))"
    by auto
  moreover have "unat (hashfunc x AND 7) = i" "i < 8" "state (pool m ! i) = UNUSED" using Cons.prems(6) by (auto simp: xi)
  ultimately show ?case
    using tombstone_pair [OF Cons.prems(1-4), of x i "concat (map (\<lambda>x. [M_insert x 1, M_remove x]) (map fst xs))"]
    by (auto simp: xi simp del: map_run.simps)
qed

lemma tombstones_reached:
  "\<exists>m outs. hashmap_create posix 8 = Inr m \<and> map_run (hm_step 2 posix) tombstone_calls m = Some (Inr (outs, tombstone_map))"
proof -
  let ?m = "\<lparr>pool = replicate 8 \<lparr>state = UNUSED, val = 0, key = 0\<rparr>, msize = 8, used = 0, held = 0\<rparr>"
  let ?xs = "[(6, 0), (1, 1), (4, 2), (12, 3), (9, 4), (3, 5), (2, 6), (7, 7)] :: (u64 \<times> nat) list"
  have "unat (hashfunc 6 AND 7) = 0" "unat (hashfunc 1 AND 7) = 1" "unat (hashfunc 4 AND 7) = 2" "unat (hashfunc 12 AND 7) = 3"
    "unat (hashfunc 9 AND 7) = 4" "unat (hashfunc 3 AND 7) = 5" "unat (hashfunc 2 AND 7) = 6" "unat (hashfunc 7 AND 7) = 7"
    by code_simp+
  then obtain outs where "map_run (hm_step 2 posix) (concat (map (\<lambda>x. [M_insert x 1, M_remove x]) (map fst ?xs))) ?m
    = Some (Inr (outs, ?m\<lparr>pool := fold (\<lambda>(x, i) p. p[i := \<lparr>state = DELETED, val = 0, key = - 1\<rparr>]) ?xs (pool ?m)\<rparr>))"
    using tombstone_run [of ?m ?xs] by auto
  moreover have "?m\<lparr>pool := fold (\<lambda>(x, i) p. p[i := \<lparr>state = DELETED, val = 0, key = - 1\<rparr>]) ?xs (pool ?m)\<rparr> = tombstone_map"
    by (simp add: tombstone_map_def numeral_eq_Suc)
  moreover have "tombstone_calls = concat (map (\<lambda>x. [M_insert x 1, M_remove x]) (map fst ?xs))"
    by (simp add: tombstone_calls_def)
  moreover have "hashmap_create posix 8 = Inr ?m" by code_simp
  ultimately show ?thesis by (simp only: sum.inject ex_simps simp_thms) blast
qed

theorem hashmap_select_hangs_witness:
  "\<exists>m outs. hashmap_create posix 8 = Inr m \<and> map_run (hm_step 2 posix) tombstone_calls m = Some (Inr (outs, tombstone_map))
    \<and> hashmap_select 1000 posix tombstone_map 5 = None"
proof -
  have "hashmap_select 1000 posix tombstone_map 5 = None"
    by (rule hashmap_select_hangs [where k = 3])
      (simp_all add: tombstone_map_def count_of_def hm_map_def pool_map_def find_None_iff)
  with tombstones_reached show ?thesis by blast
qed

end
