(* ===== verification/HashMapRef.thy ===== *)
theory HashMapRef
  imports HashMap "HOL-Library.Multiset"
begin

section \<open>The reference map (\<^verbatim>\<open>hashmap/hash_map_ref.c\<close>)\<close>

text \<open>
  An unordered array of entries with linear search, used by the test program to check the hash map. \<open>entries\<close> is the
  array behind the pointer (\<open>None\<close> when it is null), of length \<open>ecapacity\<close>; the first \<open>ecount\<close> entries are in use. What \<^verbatim>\<open>os_alloc\<close>
  returns is zeroed; sizes are natural numbers.
\<close>

subsection \<open>Definitions\<close>

type_synonym entry = "u64 \<times> u64"

record hashmapref =
  entries :: "entry list option"
  ecount :: nat
  ecapacity :: nat

definition hashmapref_create :: hashmapref where
  "hashmapref_create = \<lparr>entries = None, ecount = 0, ecapacity = 0\<rparr>"

definition hashmapref_count :: "hashmapref \<Rightarrow> nat" where
  "hashmapref_count ref = ecount ref"

text \<open>\<^verbatim>\<open>while (i < ref->count && ref->entries[i].key != key) i++\<close>; with no entries the array is not touched.\<close>

definition find_entry :: "hashmapref \<Rightarrow> u64 \<Rightarrow> nat" where
  "find_entry ref k =
     (case entries ref of None \<Rightarrow> 0 | Some es \<Rightarrow> skip_while (\<lambda>e. fst e \<noteq> k) (take (ecount ref) es) 0)"

definition alloc_entries :: "platform \<Rightarrow> nat \<Rightarrow> entry list res" where
  "alloc_entries pf n = (if can_alloc pf (int n) then Inr (replicate n (0, 0)) else Inl Aborted)"

definition hashmapref_insert :: "platform \<Rightarrow> hashmapref \<Rightarrow> u64 \<Rightarrow> u64 \<Rightarrow> hashmapref res" where
  "hashmapref_insert pf ref k v =
     (let i = find_entry ref k in
      if i < ecount ref then
        (case entries ref of
           None \<Rightarrow> Inl Null_pointer
         | Some es \<Rightarrow> rbind (wr es i (k, v)) (\<lambda>es. Inr (ref\<lparr>entries := Some es\<rparr>)))
      else
        rbind
          (case entries ref of
             None \<Rightarrow> rbind (alloc_entries pf 8) (\<lambda>es. Inr \<lparr>entries = Some es, ecount = 0, ecapacity = 8\<rparr>)
           | Some es \<Rightarrow>
               if ecount ref = ecapacity ref then
                 rbind (alloc_entries pf (2 * ecapacity ref)) (\<lambda>new.
                 rbind (memcpy new 0 (take (ecount ref) es)) (\<lambda>new.
                   Inr (ref\<lparr>entries := Some new, ecapacity := 2 * ecapacity ref\<rparr>)))
               else Inr ref)
          (\<lambda>ref. case entries ref of
             None \<Rightarrow> Inl Null_pointer
           | Some es \<Rightarrow> rbind (wr es (ecount ref) (k, v)) (\<lambda>es.
               Inr (ref\<lparr>entries := Some es, ecount := ecount ref + 1\<rparr>))))"

definition hashmapref_remove :: "hashmapref \<Rightarrow> u64 \<Rightarrow> (bool \<times> hashmapref) res" where
  "hashmapref_remove ref k =
     (let i = find_entry ref k in
      if i = ecount ref then Inr (False, ref)
      else case entries ref of
          None \<Rightarrow> Inl Null_pointer
        | Some es \<Rightarrow>
            rbind (rd es (ecount ref - 1)) (\<lambda>e.
            rbind (wr es i e) (\<lambda>es. Inr (True, ref\<lparr>entries := Some es, ecount := ecount ref - 1\<rparr>))))"

definition hashmapref_select :: "hashmapref \<Rightarrow> u64 \<Rightarrow> u64 res" where
  "hashmapref_select ref k =
     (let i = find_entry ref k in
      if i = ecount ref then Inr 0
      else case entries ref of
          None \<Rightarrow> Inl Null_pointer
        | Some es \<Rightarrow> rbind (rd es i) (\<lambda>e. Inr (snd e)))"

definition hashmapref_exists :: "hashmapref \<Rightarrow> u64 \<Rightarrow> bool res" where
  "hashmapref_exists ref k = rbind (hashmapref_select ref k) (\<lambda>v. Inr (v \<noteq> 0))"

subsection \<open>Invariant and abstraction\<close>

definition live :: "hashmapref \<Rightarrow> entry list" where
  "live ref = (case entries ref of None \<Rightarrow> [] | Some es \<Rightarrow> take (ecount ref) es)"

definition ref_inv :: "hashmapref \<Rightarrow> bool" where
  "ref_inv ref \<longleftrightarrow> (case entries ref of None \<Rightarrow> ecount ref = 0
       | Some es \<Rightarrow> length es = ecapacity ref \<and> ecount ref \<le> ecapacity ref \<and> 0 < ecapacity ref)
     \<and> distinct (map fst (live ref))"

definition ref_map :: "hashmapref \<Rightarrow> u64 \<Rightarrow> u64 option" where
  "ref_map ref = map_of (live ref)"

lemma live_length: "ref_inv ref \<Longrightarrow> length (live ref) = ecount ref"
  by (auto simp: ref_inv_def live_def split: option.splits)

lemma find_entry_eq: "ref_inv ref \<Longrightarrow> find_entry ref k = length (takeWhile (\<lambda>e. fst e \<noteq> k) (live ref))"
  by (auto simp: find_entry_def live_def skip_while_eq split: option.splits)

lemma find_entry_found:
  assumes "ref_inv ref" "find_entry ref k < ecount ref"
  shows "fst (live ref ! find_entry ref k) = k" "ref_map ref k = Some (snd (live ref ! find_entry ref k))"
proof -
  let ?i = "find_entry ref k"
  have i: "?i < length (live ref)" using assms by (simp add: live_length)
  show f: "fst (live ref ! ?i) = k"
    using i nth_length_takeWhile [of "\<lambda>e. fst e \<noteq> k" "live ref"] by (simp add: find_entry_eq [OF assms(1)])
  have "(k, snd (live ref ! ?i)) \<in> set (live ref)" using f i by (metis nth_mem prod.collapse)
  moreover have "distinct (map fst (live ref))" using assms(1) by (simp add: ref_inv_def)
  ultimately show "ref_map ref k = Some (snd (live ref ! ?i))" by (simp add: ref_map_def)
qed

lemma find_entry_missing:
  assumes "ref_inv ref" "\<not> find_entry ref k < ecount ref"
  shows "find_entry ref k = ecount ref" "k \<notin> fst ` set (live ref)" "ref_map ref k = None"
proof -
  have "length (takeWhile (\<lambda>e. fst e \<noteq> k) (live ref)) \<le> length (live ref)" by (rule length_takeWhile_le)
  then show e: "find_entry ref k = ecount ref" using assms by (simp add: find_entry_eq live_length)
  then have "takeWhile (\<lambda>e. fst e \<noteq> k) (live ref) = live ref"
    using assms(1) by (metis find_entry_eq live_length takeWhile_eq_take take_all_iff order_refl)
  then show n: "k \<notin> fst ` set (live ref)" by (auto simp: takeWhile_eq_all_conv)
  then show "ref_map ref k = None" by (simp add: ref_map_def map_of_eq_None_iff)
qed

lemma map_of_update:
  assumes "distinct (map fst xs)" "i < length xs" "fst (xs ! i) = k"
  shows "map_of (xs[i := (k, v)]) = (map_of xs)(k \<mapsto> v)" "map fst (xs[i := (k, v)]) = map fst xs"
proof -
  show m: "map fst (xs[i := (k, v)]) = map fst xs"
    using assms(2,3) by (simp add: map_update) (metis list_update_id nth_map)
  show "map_of (xs[i := (k, v)]) = (map_of xs)(k \<mapsto> v)"
  proof
    fix x
    have d: "distinct (map fst (xs[i := (k, v)]))" using assms(1) m by simp
    show "map_of (xs[i := (k, v)]) x = ((map_of xs)(k \<mapsto> v)) x"
    proof (cases "x = k")
      case True
      have "(k, v) \<in> set (xs[i := (k, v)])" using assms(2) by (rule set_update_memI)
      with d True show ?thesis by simp
    next
      case False
      have "(x, w) \<in> set (xs[i := (k, v)]) \<longleftrightarrow> (x, w) \<in> set xs" for w
      proof
        assume "(x, w) \<in> set (xs[i := (k, v)])"
        then show "(x, w) \<in> set xs" using set_update_subset_insert [of xs i "(k, v)"] False by auto
      next
        assume "(x, w) \<in> set xs"
        then obtain j where j: "j < length xs" "xs ! j = (x, w)" by (auto simp: in_set_conv_nth)
        then have "j \<noteq> i" using False assms(3) by auto
        then have "xs[i := (k, v)] ! j = (x, w)" using j by simp
        then show "(x, w) \<in> set (xs[i := (k, v)])" using j(1) by (metis length_list_update nth_mem)
      qed
      then have "map_of (xs[i := (k, v)]) x = Some w \<longleftrightarrow> map_of xs x = Some w" for w
        using d assms(1) by simp
      then show ?thesis using False by (cases "map_of xs x") (auto simp: option.expand)
    qed
  qed
qed

text \<open>Moving the last element over a removed one.\<close>

lemma mset_swap_last:
  assumes "i < length xs"
  shows "mset (take (length xs - 1) (xs[i := xs ! (length xs - 1)])) = mset xs - {#xs ! i#}"
proof -
  obtain ys z where xs: "xs = ys @ [z]" using assms by (cases xs rule: rev_cases) auto
  show ?thesis
  proof (cases "i < length ys")
    case True
    then show ?thesis by (simp add: xs nth_append list_update_append mset_update)
  next
    case False
    then have "i = length ys" using assms by (simp add: xs)
    then show ?thesis by (simp add: xs nth_append)
  qed
qed

lemma map_of_remove:
  assumes "distinct (map fst xs)" "i < length xs" "fst (xs ! i) = k" "mset ys = mset xs - {#xs ! i#}"
  shows "distinct (map fst ys)" "map_of ys = (map_of xs)(k := None)"
proof -
  define e where "e = xs ! i"
  obtain as bs where xs: "xs = as @ e # bs" unfolding e_def using id_take_nth_drop [OF assms(2)] by blast
  have e: "fst e = k" "mset ys = mset xs - {#e#}" using assms(3,4) by (simp_all only: e_def)
  have "mset ys = mset (as @ bs)" using e(2) unfolding xs by simp
  then have m: "mset (map fst ys) = mset (map fst (as @ bs))" "set ys = set (as @ bs)"
    by (simp_all only: mset_map) (rule mset_eq_setD)
  have d: "distinct (map fst as @ k # map fst bs)" using assms(1) e(1) unfolding xs by simp
  then have dab: "distinct (map fst (as @ bs))" by auto
  then show dy: "distinct (map fst ys)" using m(1) by (metis mset_eq_imp_distinct_iff)
  have kk: "k \<notin> fst ` set (as @ bs)" using d by auto
  show "map_of ys = (map_of xs)(k := None)"
  proof
    fix x
    have "map_of ys x = map_of (as @ bs) x"
      using map_of_inject_set [THEN iffD2, OF dy dab m(2)] by (rule fun_cong)
    moreover have "map_of (as @ bs) k = None" using kk by (subst map_of_eq_None_iff)
    moreover have "x \<noteq> k \<Longrightarrow> map_of xs x = map_of (as @ bs) x"
      using e(1) unfolding xs by (cases e) (auto simp: map_add_def split: option.splits)
    ultimately show "map_of ys x = ((map_of xs)(k := None)) x" by auto
  qed
qed

lemma ref_select_ok:
  assumes "ref_inv ref"
  shows "hashmapref_select ref k = Inr (case ref_map ref k of None \<Rightarrow> 0 | Some v \<Rightarrow> v)"
proof (cases "find_entry ref k < ecount ref")
  case True
  then obtain es where es: "entries ref = Some es" "length es = ecapacity ref" "ecount ref \<le> ecapacity ref"
    using assms by (auto simp: ref_inv_def split: option.splits)
  then have "live ref ! find_entry ref k = es ! find_entry ref k" using True by (simp add: live_def)
  then show ?thesis using find_entry_found [OF assms True] True es by (simp add: hashmapref_select_def Let_def)
next
  case False
  then show ?thesis using find_entry_missing [OF assms False] by (simp add: hashmapref_select_def Let_def)
qed

lemma ref_remove_ok:
  assumes "ref_inv ref"
  shows "\<exists>ref'. hashmapref_remove ref k = Inr (ref_map ref k \<noteq> None, ref') \<and> ref_inv ref' \<and> ref_map ref' = (ref_map ref)(k := None)"
proof (cases "find_entry ref k < ecount ref")
  case True
  let ?i = "find_entry ref k" and ?c = "ecount ref"
  obtain es where es: "entries ref = Some es" "length es = ecapacity ref" "?c \<le> ecapacity ref" "0 < ecapacity ref"
    using assms True by (auto simp: ref_inv_def split: option.splits)
  let ?ref = "ref\<lparr>entries := Some (es[?i := es ! (?c - 1)]), ecount := ?c - 1\<rparr>"
  have "hashmapref_remove ref k = Inr (True, ?ref)"
    using True es by (simp add: hashmapref_remove_def Let_def)
  moreover have len: "length (live ref) = ?c" by (rule live_length [OF assms])
  have "live ?ref = take (length (live ref) - 1) ((live ref)[?i := live ref ! (length (live ref) - 1)])"
    using True es unfolding len by (simp add: live_def take_update_swap min_def)
  then have "mset (live ?ref) = mset (live ref) - {#live ref ! ?i#}"
    using mset_swap_last [of ?i "live ref"] True len by simp
  note r = map_of_remove [OF _ _ find_entry_found(1) [OF assms True] this]
  have "distinct (map fst (live ref))" "?i < length (live ref)" using assms True len by (auto simp: ref_inv_def)
  from r [OF this] have "ref_map ?ref = (ref_map ref)(k := None)" "ref_inv ?ref"
    using es by (simp_all add: ref_map_def ref_inv_def)
  ultimately show ?thesis using find_entry_found(2) [OF assms True] by auto
next
  case False
  then have "hashmapref_remove ref k = Inr (False, ref)" "ref_map ref k = None"
    using find_entry_missing [OF assms False] by (simp_all add: hashmapref_remove_def Let_def)
  moreover from this have "(ref_map ref)(k := None) = ref_map ref" by auto
  ultimately show ?thesis using assms by auto
qed

text \<open>Appending an entry to an array with room.\<close>

lemma append_entry:
  assumes "entries ref = Some es" "length es = ecapacity ref" "ecount ref < ecapacity ref"
    and "distinct (map fst (live ref))" "k \<notin> fst ` set (live ref)"
  shows "let ref' = ref\<lparr>entries := Some (es[ecount ref := (k, v)]), ecount := ecount ref + 1\<rparr>
    in ref_inv ref' \<and> ref_map ref' = (ref_map ref)(k \<mapsto> v)"
proof -
  let ?ref = "ref\<lparr>entries := Some (es[ecount ref := (k, v)]), ecount := ecount ref + 1\<rparr>"
  have l: "live ?ref = live ref @ [(k, v)]"
    using assms(1-3) by (simp add: live_def take_Suc_conv_app_nth)
  moreover have "map_of (live ref @ [(k, v)]) = (map_of (live ref))(k \<mapsto> v)"
  proof -
    have "map_of (live ref) k = None" using assms(5) by (simp add: map_of_eq_None_iff)
    then show ?thesis by (intro ext) (simp add: map_add_def split: option.splits)
  qed
  ultimately show ?thesis using assms by (auto simp: ref_inv_def ref_map_def)
qed

lemma ref_insert_ok:
  assumes "ref_inv ref" "\<And>n. can_alloc pf n"
  shows "\<exists>ref'. hashmapref_insert pf ref k v = Inr ref' \<and> ref_inv ref' \<and> ref_map ref' = (ref_map ref)(k \<mapsto> v)"
proof (cases "find_entry ref k < ecount ref")
  case True
  let ?i = "find_entry ref k"
  obtain es where es: "entries ref = Some es" "length es = ecapacity ref" "ecount ref \<le> ecapacity ref" "0 < ecapacity ref"
    using assms(1) True by (auto simp: ref_inv_def split: option.splits)
  let ?ref = "ref\<lparr>entries := Some (es[?i := (k, v)])\<rparr>"
  have "hashmapref_insert pf ref k v = Inr ?ref"
    using True es by (simp add: hashmapref_insert_def Let_def)
  moreover have "live ?ref = (live ref)[?i := (k, v)]" using es by (simp add: live_def take_update_swap)
  moreover have "distinct (map fst (live ref))" "?i < length (live ref)"
    using assms(1) True live_length [OF assms(1)] by (auto simp: ref_inv_def)
  ultimately show ?thesis
    using map_of_update [of "live ref" ?i k v] find_entry_found(1) [OF assms(1) True] es by (simp add: ref_inv_def ref_map_def)
next
  case False
  note mi = find_entry_missing [OF assms(1) False]
  have d: "distinct (map fst (live ref))" using assms(1) by (simp add: ref_inv_def)
  define grown where "grown = (case entries ref of
       None \<Rightarrow> \<lparr>entries = Some (replicate 8 (0, 0)), ecount = 0, ecapacity = 8\<rparr>
     | Some es \<Rightarrow> if ecount ref = ecapacity ref
         then ref\<lparr>entries := Some (take (ecount ref) es @ replicate (ecapacity ref) (0, 0)), ecapacity := 2 * ecapacity ref\<rparr> else ref)"
  have g: "\<exists>es. entries grown = Some es \<and> length es = ecapacity grown \<and> ecount grown < ecapacity grown"
    and lg: "live grown = live ref" and cg: "ecount grown = ecount ref"
    using assms(1) by (auto simp: grown_def ref_inv_def live_def split: option.splits)
  then obtain es where es: "entries grown = Some es" "length es = ecapacity grown" "ecount grown < ecapacity grown" by blast
  have "hashmapref_insert pf ref k v
      = rbind (Inr grown) (\<lambda>ref. case entries ref of
             None \<Rightarrow> Inl Null_pointer
           | Some es \<Rightarrow> rbind (wr es (ecount ref) (k, v)) (\<lambda>es. Inr (ref\<lparr>entries := Some es, ecount := ecount ref + 1\<rparr>)))"
  proof (cases "entries ref")
    case None
    then show ?thesis
      using False assms(2) by (simp add: hashmapref_insert_def Let_def grown_def alloc_entries_def)
  next
    case (Some fs)
    then have fs: "length fs = ecapacity ref" "ecount ref \<le> ecapacity ref" using assms(1) by (auto simp: ref_inv_def)
    show ?thesis
    proof (cases "ecount ref = ecapacity ref")
      case True
      have "memcpy (replicate (2 * ecapacity ref) (0, 0)) 0 (take (ecount ref) fs)
          = Inr (take (ecount ref) fs @ replicate (ecapacity ref) (0, 0))"
        using True fs by (simp add: blit_def)
      then show ?thesis
        using Some True False assms(2) by (simp add: hashmapref_insert_def Let_def grown_def alloc_entries_def)
    next
      case f: False
      then show ?thesis using Some False by (simp add: hashmapref_insert_def Let_def grown_def)
    qed
  qed
  then have "hashmapref_insert pf ref k v = Inr (grown\<lparr>entries := Some (es[ecount grown := (k, v)]), ecount := ecount grown + 1\<rparr>)"
    using es by simp
  with append_entry [OF es, of k v] d mi(2) lg show ?thesis by (auto simp: Let_def ref_map_def)
qed

fun ref_step :: "platform \<Rightarrow> map_op \<Rightarrow> hashmapref \<Rightarrow> (u64 \<times> hashmapref) res option" where
  "ref_step pf (M_insert x v) s = Some (rbind (hashmapref_insert pf s x v) (\<lambda>s. Inr (0, s)))"
| "ref_step pf (M_remove x) s = Some (rbind (hashmapref_remove s x) (\<lambda>(b, s). Inr (if b then 1 else 0, s)))"
| "ref_step pf (M_select x) s = Some (rbind (hashmapref_select s x) (\<lambda>v. Inr (v, s)))"

definition ref_ready :: "platform \<Rightarrow> nat \<Rightarrow> nat \<Rightarrow> hashmapref \<Rightarrow> bool" where
  "ref_ready pf r n s \<longleftrightarrow> (\<forall>n. can_alloc pf n) \<and> ref_inv s"

interpretation refm: word_map "ref_ready pf" ref_map "ref_step pf" for pf
proof
  show "\<exists>s'. ref_step pf (M_insert x v) s = Some (Inr (0, s')) \<and> ref_ready pf r n s' \<and> ref_map s' = (ref_map s)(x \<mapsto> v)"
    if "ref_ready pf r (Suc n) s" for r n s v x
    using that ref_insert_ok [of s pf x v] by (auto simp: ref_ready_def)
  show "\<exists>s'. ref_step pf (M_remove x) s = Some (Inr (if ref_map s x = None then 0 else 1, s')) \<and> ref_ready pf r n s' \<and> ref_map s' = (ref_map s)(x := None)"
    if "ref_ready pf (Suc r) n s" for r n s x
    using that ref_remove_ok [of s x] by (auto simp: ref_ready_def)
  show "ref_step pf (M_select x) s = Some (Inr (case ref_map s x of None \<Rightarrow> 0 | Some v \<Rightarrow> v, s))"
    if "ref_ready pf r n s" for r n s x
    using that ref_select_ok [of s x] by (auto simp: ref_ready_def)
qed

interpretation both: two_maps "hm_ready fuel pf" hm_map "hm_step fuel pf" "ref_ready pf" ref_map "ref_step pf" for fuel pf
  by unfold_locales

text \<open>C6: The hash map and the reference map agree: created empty and given the same calls, both return, give the same answers and hold the same map at the end. This is so on a platform with
  recursive mutexes and enough memory, for a hash map created with 8 to \<open>2 ^ 26\<close> slots and calls with at most \<open>2 ^ 26\<close> insertions and with removals of at most (about) three
  tenths of the slots it was created with: with a plain POSIX mutex the first resize deadlocks, and removed entries are never reclaimed before a resize, so that more removals can make a search
  run for ever.\<close>

theorem hashmap_agrees_with_reference:
  assumes "good_platform fuel pf" "8 \<le> init" "init \<le> 2 ^ 26" "\<forall>c \<in> set ops. legal c"
    and "10 * int (removals ops) + 10 \<le> 3 * init" "insertions ops \<le> 2 ^ 26"
  shows "\<exists>m outs m' ref'. hashmap_create pf init = Inr m \<and> map_run (hm_step fuel pf) ops m = Some (Inr (outs, m'))
    \<and> map_run (ref_step pf) ops hashmapref_create = Some (Inr (outs, ref')) \<and> hm_map m' = ref_map ref'"
proof -
  obtain m where m: "hashmap_create pf init = Inr m" "hm_ready fuel pf (removals ops) (insertions ops) m" "hm_map m = Map.empty"
    using create_ready [OF assms(1-3,5,6)] by blast
  have "ref_ready pf (removals ops) (insertions ops) hashmapref_create" "ref_map hashmapref_create = Map.empty"
    using assms(1) by (simp_all add: ref_ready_def ref_inv_def ref_map_def live_def hashmapref_create_def good_platform_def)
  with both.same_answers [OF m(2), of hashmapref_create ops] m(1,3) assms(4) show ?thesis by auto
qed

theorem hashmap_agrees_with_reference_witness:
  "\<exists>m outs m' ref'. hashmap_create \<lparr>recursive_mutex = True, can_alloc = (\<lambda>_. True)\<rparr> 20 = Inr m
    \<and> map_run (hm_step (13 + 2 ^ 27) \<lparr>recursive_mutex = True, can_alloc = (\<lambda>_. True)\<rparr>) [M_insert 3 4, M_remove 3, M_select 3] m = Some (Inr (outs, m'))
    \<and> map_run (ref_step \<lparr>recursive_mutex = True, can_alloc = (\<lambda>_. True)\<rparr>) [M_insert 3 4, M_remove 3, M_select 3] hashmapref_create = Some (Inr (outs, ref'))
    \<and> hm_map m' = ref_map ref'"
  by (rule hashmap_agrees_with_reference) (simp_all add: good_platform_def)

end
