(* ===== verification/BuddyTree.thy ===== *)
theory BuddyTree
  imports Prelude
begin

section \<open>Tilings of a pool by buddy blocks\<close>

text \<open>
  The combinatorial heart of the buddy allocator (\<^verbatim>\<open>alloc/buddy.c\<close>), free of memory and of
  machine words. A block is a pair \<open>(k, a)\<close>: its size is \<open>2^k\<close> units of 16 bytes and it is the
  \<open>a\<close>-th block of that size of the pool, so that it holds the units \<open>u\<close> with \<open>u div 2^k = a\<close>.
  A pool of \<open>n\<close> pages has \<open>256 n\<close> units and blocks of the levels 0 to 8. The allocator keeps the
  pool tiled by allocated and free blocks (and, inside a call, the one block it holds), and
  never leaves both halves of a block free: what this implies about free space is shown here.
\<close>

type_synonym block = "nat \<times> nat"

definition valid :: "nat \<Rightarrow> block \<Rightarrow> bool" where
  "valid n x \<longleftrightarrow> fst x \<le> 8 \<and> snd x < n * 2 ^ (8 - fst x)"

definition units :: "block \<Rightarrow> nat set" where
  "units x = {u. u div 2 ^ fst x = snd x}"

definition buddy_of :: "block \<Rightarrow> block" where
  "buddy_of x = (fst x, if even (snd x) then snd x + 1 else snd x - 1)"

definition parent :: "block \<Rightarrow> block" where
  "parent x = (Suc (fst x), snd x div 2)"

definition tiles :: "nat \<Rightarrow> block set \<Rightarrow> bool" where
  "tiles n T \<longleftrightarrow> (\<forall>x\<in>T. valid n x) \<and> (\<forall>u<n * 256. \<exists>!x. x \<in> T \<and> u \<in> units x)"

definition no_free_pair :: "block set \<Rightarrow> bool" where
  "no_free_pair F \<longleftrightarrow> (\<forall>x\<in>F. fst x < 8 \<longrightarrow> buddy_of x \<notin> F)"

subsection \<open>Blocks as sets of units\<close>

lemma mem_units: "u \<in> units (k, a) \<longleftrightarrow> u div 2 ^ k = a"
  by (simp add: units_def)

lemma units_interval: "units (k, a) = {a * 2 ^ k ..< (a + 1) * 2 ^ k}"
proof -
  have "u div 2 ^ k = a \<longleftrightarrow> a * 2 ^ k \<le> u \<and> u < (a + 1) * 2 ^ k" for u :: nat
  proof -
    have "(u div 2 ^ k = a) = (a \<le> u div 2 ^ k \<and> u div 2 ^ k < a + 1)" by auto
    then show ?thesis
      by (simp only: less_eq_div_iff_mult_less_eq div_less_iff_less_mult zero_less_power zero_less_numeral)
  qed
  then show ?thesis
    unfolding units_def fst_conv snd_conv set_eq_iff atLeastLessThan_iff mem_Collect_eq by blast
qed

lemma first_unit: "snd x * 2 ^ fst x \<in> units x"
  by (simp add: units_def)

lemma valid_first_unit: "valid n x \<Longrightarrow> snd x * 2 ^ fst x < n * 256"
proof -
  assume v: "valid n x"
  then have "snd x * 2 ^ fst x < n * 2 ^ (8 - fst x) * 2 ^ fst x"
    by (simp add: valid_def)
  also have "\<dots> = n * 2 ^ 8"
    using v by (simp add: valid_def mult.assoc flip: power_add)
  finally show ?thesis by simp
qed

lemma div_pow_mono: "j \<le> k \<Longrightarrow> u div 2 ^ j div 2 ^ (k - j) = u div 2 ^ (k :: nat)" for u :: nat
  by (simp add: div_mult2_eq [symmetric] flip: power_add)

text \<open>Two blocks that share a unit are nested: the higher one contains the lower one.\<close>

lemma units_nested:
  assumes "u \<in> units x" "u \<in> units y" "fst x \<le> fst y"
  shows "units x \<subseteq> units y"
proof
  fix v assume v: "v \<in> units x"
  have "v div 2 ^ fst y = v div 2 ^ fst x div 2 ^ (fst y - fst x)"
    using assms(3) by (simp add: div_pow_mono)
  also have "\<dots> = u div 2 ^ fst y"
    using v assms by (simp add: units_def div_pow_mono [symmetric, of "fst x" "fst y" u])
  finally show "v \<in> units y" using assms by (simp add: units_def)
qed

lemma units_valid: "valid n x \<Longrightarrow> u \<in> units x \<Longrightarrow> u < n * 256"
proof -
  assume v: "valid n x" and u: "u \<in> units x"
  have "units x \<subseteq> units (8, snd x div 2 ^ (8 - fst x))"
    by (rule units_nested [OF first_unit])
       (use v div_pow_mono [of "fst x" 8 "snd x * 2 ^ fst x"] in \<open>auto simp: units_def valid_def\<close>)
  with u have "u div 256 = snd x div 2 ^ (8 - fst x)" by (auto simp: units_def)
  also have "\<dots> < n" using v by (simp add: valid_def less_mult_imp_div_less)
  finally show ?thesis by (simp add: div_less_iff_less_mult)
qed

lemma units_parent: "units (parent x) = units x \<union> units (buddy_of x)"
  by (cases x) (auto simp: units_interval parent_def buddy_of_def algebra_simps elim!: oddE evenE)

lemma units_buddy_disjoint: "units x \<inter> units (buddy_of x) = {}"
  by (cases x) (auto simp: units_def buddy_of_def dest: odd_pos)

lemma buddy_of_buddy [simp]: "buddy_of (buddy_of x) = x"
  by (cases x) (auto simp: buddy_of_def)

lemma fst_buddy_of [simp]: "fst (buddy_of x) = fst x"
  by (simp add: buddy_of_def)

lemma buddy_of_neq [simp]: "buddy_of x \<noteq> x" "x \<noteq> buddy_of x"
  using units_buddy_disjoint [of x] first_unit [of x] by force+

lemma valid_buddy: "valid n x \<Longrightarrow> fst x < 8 \<Longrightarrow> valid n (buddy_of x)"
proof -
  assume v: "valid n x" and k: "fst x < 8"
  then obtain m where m: "8 - fst x = Suc m" by (metis Suc_diff_Suc)
  have "Suc (2 * a) < n * (2 * 2 ^ m)" if "2 * a < n * (2 * 2 ^ m)" for a
    using that by (metis Suc_lessI even_Suc even_mult_iff even_numeral mult.left_commute dvd_triv_left)
  with m v show ?thesis by (auto simp: valid_def buddy_of_def elim!: evenE)
qed

lemma valid_parent: "valid n x \<Longrightarrow> fst x < 8 \<Longrightarrow> valid n (parent x)"
proof -
  assume v: "valid n x" and k: "fst x < 8"
  then have "8 - fst x = Suc (8 - Suc (fst x))" by simp
  with v k show ?thesis by (auto simp: valid_def parent_def)
qed

subsection \<open>Tilings\<close>

lemma tiles_unique:
  assumes "tiles n T" "x \<in> T" "y \<in> T" "u \<in> units x" "u \<in> units y"
  shows "x = y"
  using assms units_valid [of n x u] unfolding tiles_def by blast

lemma tiles_valid: "tiles n T \<Longrightarrow> x \<in> T \<Longrightarrow> valid n x"
  by (simp add: tiles_def)

lemma tiles_disjoint: "tiles n T \<Longrightarrow> x \<in> T \<Longrightarrow> y \<in> T \<Longrightarrow> x \<noteq> y \<Longrightarrow> units x \<inter> units y = {}"
  using tiles_unique by blast

lemma tiles_cover:
  assumes "tiles n T" "u < n * 256"
  obtains x where "x \<in> T" "u \<in> units x"
  using assms unfolding tiles_def by blast

text \<open>A block may be exchanged for its two halves, and back.\<close>

lemma tiles_exchange:
  assumes T: "tiles n (insert (parent x) R)" "parent x \<notin> R"
    and v: "valid n x" "fst x < 8"
  shows "tiles n (insert x (insert (buddy_of x) R)) \<and> x \<notin> R \<and> buddy_of x \<notin> R"
proof -
  have sub: "y \<notin> R" if "units y \<subseteq> units (parent x)" for y
  proof
    assume "y \<in> R"
    with that T tiles_unique [OF T(1), of y "parent x"] first_unit [of y] show False by blast
  qed
  then have out: "x \<notin> R" "buddy_of x \<notin> R" by (auto simp: units_parent)
  have "\<exists>!y. y \<in> insert x (insert (buddy_of x) R) \<and> u \<in> units y" if u: "u < n * 256" for u
  proof -
    obtain y where y: "y \<in> insert (parent x) R" "u \<in> units y"
      using T(1) u by (rule tiles_cover)
    have uniq: "z = y" if "z \<in> insert (parent x) R" "u \<in> units z" for z
      using tiles_unique [OF T(1) that(1) y(1) that(2) y(2)] .
    show ?thesis
    proof (cases "y = parent x")
      case True
      then have "z \<notin> R" if "u \<in> units z" for z using that uniq T(2) by blast
      moreover have "u \<in> units x \<or> u \<in> units (buddy_of x)"
        using True y(2) by (simp add: units_parent)
      ultimately show ?thesis using units_buddy_disjoint [of x] by blast
    next
      case False
      then have "u \<notin> units (parent x)" using uniq by blast
      with y False uniq show ?thesis by (auto simp: units_parent)
    qed
  qed
  with T(1) v valid_buddy out show ?thesis by (auto simp: tiles_def)
qed

lemma tiles_merge:
  assumes T: "tiles n (insert x (insert (buddy_of x) R))" "x \<notin> R" "buddy_of x \<notin> R"
    and v: "fst x < 8"
  shows "tiles n (insert (parent x) R) \<and> parent x \<notin> R"
proof -
  have x: "valid n x" using T by (simp add: tiles_def)
  have R: "units y \<inter> units (parent x) = {}" if "y \<in> R" for y
    using that T tiles_disjoint [OF T(1), of y x] tiles_disjoint [OF T(1), of y "buddy_of x"]
    by (auto simp: units_parent)
  then have out: "parent x \<notin> R" using first_unit [of "parent x"] by blast
  have "\<exists>!y. y \<in> insert (parent x) R \<and> u \<in> units y" if u: "u < n * 256" for u
  proof -
    obtain y where y: "y \<in> insert x (insert (buddy_of x) R)" "u \<in> units y"
      using T(1) u by (rule tiles_cover)
    have uniq: "z = y" if "z \<in> R" "u \<in> units z" for z
      using tiles_unique [OF T(1) _ y(1) that(2) y(2)] that by blast
    show ?thesis
    proof (cases "y \<in> R")
      case True
      with y R uniq show ?thesis by blast
    next
      case False
      with y have "u \<in> units (parent x)" by (auto simp: units_parent)
      with False uniq show ?thesis by blast
    qed
  qed
  with T(1) valid_parent [OF x v] out show ?thesis by (auto simp: tiles_def)
qed

subsection \<open>Coalesced free space\<close>

text \<open>Where no two halves of a block are free, a region covered by free blocks no larger than
  itself is itself one free block.\<close>

lemma coalesced:
  assumes F: "no_free_pair F"
    and cov: "\<And>u. u \<in> units (k, s) \<Longrightarrow> \<exists>y\<in>F. u \<in> units y \<and> fst y \<le> k"
    and k: "k \<le> 8"
  shows "(k, s) \<in> F"
  using cov k
proof (induction k arbitrary: s)
  case 0
  obtain y where "y \<in> F" "s \<in> units y" "fst y \<le> 0" using "0.prems"(1) [of s] by (auto simp: units_def)
  then show ?case by (cases y) (auto simp: units_def)
next
  case (Suc k)
  show ?case
  proof (rule ccontr)
    assume no: "(Suc k, s) \<notin> F"
    have half: "(k, c) \<in> F" if c: "c div 2 = s" for c
    proof (rule Suc.IH)
      fix u assume "u \<in> units (k, c)"
      then have u: "u \<in> units (Suc k, s)"
        using c by (auto simp: units_def div_mult2_eq power_Suc2 simp del: power_Suc)
      with Suc.prems(1) obtain y where y: "y \<in> F" "u \<in> units y" "fst y \<le> Suc k" by blast
      moreover have "y = (Suc k, s)" if "fst y = Suc k"
        using that u y(2) by (cases y) (auto simp: units_def)
      ultimately show "\<exists>y\<in>F. u \<in> units y \<and> fst y \<le> k" using no by (metis le_SucE)
    qed (use Suc.prems in simp)
    then have "(k, 2 * s) \<in> F" "(k, 2 * s + 1) \<in> F" by auto
    with F Suc.prems(2) show False by (force simp: no_free_pair_def buddy_of_def)
  qed
qed

text \<open>A region of the pool that meets no allocated block lies inside one free block.\<close>

lemma free_region:
  assumes T: "tiles n (A \<union> F)" and F: "no_free_pair F"
    and v: "valid n x" and A: "\<And>y. y \<in> A \<Longrightarrow> units y \<inter> units x = {}"
  shows "\<exists>y\<in>F. units x \<subseteq> units y \<and> fst x \<le> fst y"
proof (cases "\<exists>y\<in>F. units x \<inter> units y \<noteq> {} \<and> fst x \<le> fst y")
  case True
  then show ?thesis using units_nested by blast
next
  case False
  have "(fst x, snd x) \<in> F"
  proof (rule coalesced [OF F])
    fix u assume u: "u \<in> units (fst x, snd x)"
    then obtain y where "y \<in> A \<union> F" "u \<in> units y"
      using tiles_cover [OF T units_valid [OF v]] by auto
    with u A False show "\<exists>y\<in>F. u \<in> units y \<and> fst y \<le> fst x"
      by (metis IntI UnE empty_iff nle_le prod.collapse)
  qed (use v in \<open>simp add: valid_def\<close>)
  then show ?thesis by force
qed

text \<open>The decision of \<^verbatim>\<open>buddy_free\<close>: when the buddy of the held block holds no allocated block,
  it is one free block.\<close>

lemma buddy_is_free:
  assumes T: "tiles n (insert h (A \<union> F))" "h \<notin> A \<union> F" and F: "no_free_pair F"
    and h: "fst h < 8" and A: "\<And>y. y \<in> A \<Longrightarrow> \<not> units y \<subseteq> units (buddy_of h)"
  shows "buddy_of h \<in> F"
proof -
  have "(fst h, snd (buddy_of h)) \<in> F"
  proof (rule coalesced [OF F])
    fix u assume "u \<in> units (fst h, snd (buddy_of h))"
    then have u: "u \<in> units (buddy_of h)" by (metis fst_buddy_of prod.collapse)
    have hv: "valid n h" using T by (simp add: tiles_def)
    then obtain y where y: "y \<in> insert h (A \<union> F)" "u \<in> units y"
      using tiles_cover [OF T(1) units_valid [OF valid_buddy [OF hv h] u]] by blast
    have "y \<noteq> h" using y u units_buddy_disjoint [of h] by blast
    have low: "fst y \<le> fst h"
    proof (rule ccontr)
      assume "\<not> fst y \<le> fst h"
      moreover have "u \<in> units (parent h)" using u by (simp add: units_parent)
      ultimately have "units (parent h) \<subseteq> units y"
        using y(2) by (intro units_nested) (auto simp: parent_def)
      then have "units h \<subseteq> units y" by (simp add: units_parent)
      with first_unit [of h] tiles_unique [OF T(1) y(1), of h] \<open>y \<noteq> h\<close> show False by blast
    qed
    then have "units y \<subseteq> units (buddy_of h)" using y(2) u by (intro units_nested) auto
    with A [of y] y(1) \<open>y \<noteq> h\<close> low y(2) show "\<exists>y\<in>F. u \<in> units y \<and> fst y \<le> fst h" by blast
  qed (use h in simp)
  then show ?thesis by (simp add: buddy_of_def)
qed

lemma buddy_not_free:
  assumes T: "tiles n (insert h (A \<union> F))" "A \<inter> F = {}"
    and y: "y \<in> A" "units y \<subseteq> units (buddy_of h)"
  shows "buddy_of h \<notin> F"
proof
  assume "buddy_of h \<in> F"
  with y first_unit [of y] tiles_unique [OF T(1), of y "buddy_of h"] have "y = buddy_of h" by blast
  with y T(2) \<open>buddy_of h \<in> F\<close> show False by blast
qed

subsection \<open>The steps of the allocator on tilings\<close>

text \<open>\<open>holds n A F h\<close>: the pool is tiled by allocated blocks, free blocks and the held block.\<close>

definition holds :: "nat \<Rightarrow> block set \<Rightarrow> block set \<Rightarrow> block \<Rightarrow> bool" where
  "holds n A F h \<longleftrightarrow> tiles n (insert h (A \<union> F)) \<and> h \<notin> A \<union> F \<and> A \<inter> F = {} \<and> no_free_pair F"

definition settled :: "nat \<Rightarrow> block set \<Rightarrow> block set \<Rightarrow> bool" where
  "settled n A F \<longleftrightarrow> tiles n (A \<union> F) \<and> A \<inter> F = {} \<and> no_free_pair F"

lemma no_free_pair_mono: "no_free_pair F \<Longrightarrow> G \<subseteq> F \<Longrightarrow> no_free_pair G"
  by (auto simp: no_free_pair_def)

lemma take_free: "settled n A F \<Longrightarrow> h \<in> F \<Longrightarrow> holds n A (F - {h}) h"
proof -
  assume s: "settled n A F" and h: "h \<in> F"
  then have "insert h (A \<union> (F - {h})) = A \<union> F" "h \<notin> A" by (auto simp: settled_def)
  with s show ?thesis by (auto simp: settled_def holds_def intro: no_free_pair_mono)
qed

lemma release: "settled n A F \<Longrightarrow> h \<in> A \<Longrightarrow> holds n (A - {h}) F h"
proof -
  assume s: "settled n A F" and h: "h \<in> A"
  then have "insert h (A - {h} \<union> F) = A \<union> F" "h \<notin> F" by (auto simp: settled_def)
  with s show ?thesis by (auto simp: settled_def holds_def)
qed

lemma mark_allocated: "holds n A F h \<Longrightarrow> settled n (insert h A) F"
  by (auto simp: settled_def holds_def)

lemma put_free: "holds n A F h \<Longrightarrow> fst h < 8 \<Longrightarrow> buddy_of h \<notin> F \<Longrightarrow> settled n A (insert h F)"
proof -
  assume s: "holds n A F h" and h: "fst h < 8" "buddy_of h \<notin> F"
  then have "no_free_pair (insert h F)"
    unfolding no_free_pair_def holds_def by (metis buddy_of_buddy buddy_of_neq(1) insert_iff)
  with s show ?thesis by (auto simp: settled_def holds_def)
qed

lemma put_free_page: "holds n A F h \<Longrightarrow> fst h = 8 \<Longrightarrow> settled n A (insert h F)"
  by (auto simp: settled_def holds_def no_free_pair_def buddy_of_def)

lemma split_held:
  assumes "holds n A F (parent x)" "valid n x" "fst x < 8"
  shows "holds n A (insert (buddy_of x) F) x \<and> buddy_of x \<notin> F"
proof -
  have ex: "tiles n (insert x (insert (buddy_of x) (A \<union> F))) \<and> x \<notin> A \<union> F \<and> buddy_of x \<notin> A \<union> F"
    using assms by (intro tiles_exchange) (auto simp: holds_def)
  moreover have "no_free_pair (insert (buddy_of x) F)"
    using ex assms(1) unfolding no_free_pair_def holds_def
    by (metis Un_iff buddy_of_buddy buddy_of_neq(1) insert_iff)
  ultimately show ?thesis using assms(1) by (auto simp: holds_def insert_commute)
qed

lemma merge_held:
  assumes H: "holds n A F x" and b: "buddy_of x \<in> F" and k: "fst x < 8"
  shows "holds n A (F - {buddy_of x}) (parent x)"
proof -
  have eq: "insert (buddy_of x) (A \<union> (F - {buddy_of x})) = A \<union> F" using b by blast
  have "tiles n (insert (parent x) (A \<union> (F - {buddy_of x}))) \<and> parent x \<notin> A \<union> (F - {buddy_of x})"
    by (rule tiles_merge) (use H b k eq in \<open>auto simp: holds_def\<close>)
  with H show ?thesis by (auto simp: holds_def intro: no_free_pair_mono)
qed

lemma held_valid: "holds n A F h \<Longrightarrow> valid n h"
  by (simp add: holds_def tiles_def)

end
