(* ===== verification/Buddy.thy ===== *)
theory Buddy
  imports Bits BuddyTree
begin

section \<open>The buddy allocator (\<^verbatim>\<open>alloc/buddy.c\<close>): definitions\<close>

text \<open>
  The allocator on 64-bit addresses. \<open>nodes\<close> is the memory of the pool seen as the two pointers
  \<^verbatim>\<open>prev\<close> and \<^verbatim>\<open>next\<close> that a free block stores at its address; \<open>trees\<close> are the bit trees, one
  list of sixteen 32-bit words per page. Every function returns a fault where the C code fails an
  assertion, dereferences the null pointer, reads outside an array, or shifts by a negative or
  overflowing amount. The handle \<^verbatim>\<open>struct buddy *\<close> is an option, \<open>None\<close> being NULL. Sizes are
  those of an LP64 machine: \<^verbatim>\<open>struct buddy\<close> has 104 bytes and alignment 8, \<^verbatim>\<open>struct bit_tree\<close>
  64 bytes and alignment 4.
\<close>

record buddy =
  base :: u64
  pool_size :: u64
  lists :: "u64 list"
  trees :: "u32 list list"
  num_trees :: nat
  nodes :: "u64 \<Rightarrow> u64 \<times> u64"

definition NUM_LISTS :: nat where "NUM_LISTS = 9"

abbreviation MAX_BLOCK_SIZE :: u64 where "MAX_BLOCK_SIZE \<equiv> 4096"
abbreviation MIN_BLOCK_SIZE :: u64 where "MIN_BLOCK_SIZE \<equiv> 16"
abbreviation MAX_BLOCK_ALIGN_MASK :: u64 where "MAX_BLOCK_ALIGN_MASK \<equiv> 4095"

declare rbind_cong [fundef_cong]

subsection \<open>Powers of two\<close>

definition is_pow2 :: "u64 \<Rightarrow> bool" where
  "is_pow2 n \<longleftrightarrow> n AND (n - 1) = 0"

definition round_pow2 :: "u64 \<Rightarrow> u64" where
  "round_pow2 v =
     (let v = v - 1;
          v = v OR drop_bit 1 v;
          v = v OR drop_bit 2 v;
          v = v OR drop_bit 4 v;
          v = v OR drop_bit 8 v;
          v = v OR drop_bit 16 v;
          v = v OR drop_bit 32 v
      in v + 1)"

definition first_set :: "u64 \<Rightarrow> int res" where
  "first_set x =
     (if x = 0 then Inr (- 1)
      else
        let y = x AND (x - 1);
            z = x - y;
            (i, z) = halve 8 (halve 16 (halve 32 (0, z)))
        in rbind (rd log2_table (unat z)) (\<lambda>t. Inr (i + int t)))"

definition normalize_len :: "u64 \<Rightarrow> u64" where
  "normalize_len len = (if len = 0 then 0 else if len < MIN_BLOCK_SIZE then MIN_BLOCK_SIZE else round_pow2 len)"

definition list_index_for_size :: "u64 \<Rightarrow> int res" where
  "list_index_for_size len = rbind (first_set len) (\<lambda>i. Inr (i - 4))"

subsection \<open>The bit trees\<close>

definition page_index :: "buddy \<Rightarrow> u64 \<Rightarrow> u64 res" where
  "page_index b ptr = rbind (c_assert (base b \<le> ptr)) (\<lambda>_. Inr (drop_bit 12 (ptr - base b)))"

definition block_info_index :: "u64 \<Rightarrow> u64 \<Rightarrow> u64 res" where
  "block_info_index ptr len =
     rbind (first_set len) (\<lambda>len_log2.
       if len_log2 < 0 \<or> 12 < len_log2 then Inl Int_overflow
       else let reloff = ptr AND MAX_BLOCK_ALIGN_MASK
            in Inr (ucast (push_bit (nat (12 - len_log2)) (1 :: u32)) + drop_bit (nat len_log2) reloff))"

definition is_allocated :: "buddy \<Rightarrow> u64 \<Rightarrow> u64 \<Rightarrow> bool res" where
  "is_allocated b ptr len =
     rbind (c_assert (is_pow2 len)) (\<lambda>_.
     rbind (page_index b ptr) (\<lambda>i.
     rbind (block_info_index ptr len) (\<lambda>j.
       let u = drop_bit 5 j;
           v = j AND 31;
           msk = push_bit (unat v) (1 :: u32)
       in rbind (rd (trees b) (unat i)) (\<lambda>tree.
          rbind (rd tree (unat u)) (\<lambda>w. Inr (w AND msk = msk))))))"

definition set_allocated :: "buddy \<Rightarrow> u64 \<Rightarrow> u64 \<Rightarrow> bool \<Rightarrow> buddy res" where
  "set_allocated b ptr len val =
     rbind (c_assert (is_pow2 len)) (\<lambda>_.
     rbind (page_index b ptr) (\<lambda>i.
     rbind (block_info_index ptr len) (\<lambda>j.
       let u = drop_bit 5 j;
           v = j AND 31
       in rbind (c_assert (i < of_nat (num_trees b))) (\<lambda>_.
          rbind (c_assert (u < 16)) (\<lambda>_.
            let msk = push_bit (unat v) (1 :: u32)
            in rbind (rd (trees b) (unat i)) (\<lambda>tree.
               rbind (rd tree (unat u)) (\<lambda>w.
               rbind (wr tree (unat u) (if val then w OR msk else w AND NOT msk)) (\<lambda>tree.
               rbind (wr (trees b) (unat i) tree) (\<lambda>ts. Inr (b\<lparr>trees := ts\<rparr>))))))))))"

lemma is_allocated_0: "is_allocated b ptr 0 \<noteq> Inr x"
  by (auto simp: is_allocated_def page_index_def block_info_index_def first_set_def rbind_eq_Inr)

lemma is_allocated_halves: "is_allocated b ptr len = Inr x \<Longrightarrow> unat (drop_bit (Suc 0) len) < unat len"
proof -
  assume "is_allocated b ptr len = Inr x"
  then have "len \<noteq> 0" using is_allocated_0 by blast
  then have "0 < unat len" by (simp add: unat_gt_0)
  then show ?thesis by (simp add: unat_shift_right)
qed

function is_allocated_considering_splits :: "buddy \<Rightarrow> u64 \<Rightarrow> u64 \<Rightarrow> bool res" where
  "is_allocated_considering_splits b ptr len =
     (if len = MIN_BLOCK_SIZE then is_allocated b ptr len
      else
        rbind (is_allocated b ptr len) (\<lambda>whole.
          if whole then Inr True
          else rbind (is_allocated_considering_splits b ptr (drop_bit 1 len)) (\<lambda>low.
            if low then Inr True
            else is_allocated_considering_splits b (ptr + drop_bit 1 len) (drop_bit 1 len))))"
  by pat_completeness auto
termination
  by (relation "measure (\<lambda>(b, ptr, len). unat len)") (auto dest: is_allocated_halves)

declare is_allocated_considering_splits.simps [simp del]

subsection \<open>Siblings\<close>

definition sibling_of :: "u64 \<Rightarrow> u64 \<Rightarrow> u64 res" where
  "sibling_of ptr len =
     rbind (c_assert (is_pow2 len)) (\<lambda>_.
     rbind (c_assert (len < MAX_BLOCK_SIZE)) (\<lambda>_.
       Inr (if ptr AND (push_bit 1 len - 1) = 0 then ptr + len else ptr - len)))"

definition parent_of :: "u64 \<Rightarrow> u64 \<Rightarrow> u64 res" where
  "parent_of ptr len = rbind (sibling_of ptr len) (\<lambda>sib. Inr (if sib < ptr then sib else ptr))"

definition sibling_allocated_considering_splits :: "buddy \<Rightarrow> u64 \<Rightarrow> u64 \<Rightarrow> bool res" where
  "sibling_allocated_considering_splits b ptr len =
     rbind (sibling_of ptr len) (\<lambda>sib. is_allocated_considering_splits b sib len)"

subsection \<open>The free lists\<close>

definition node_at :: "buddy \<Rightarrow> u64 \<Rightarrow> (u64 \<times> u64) res" where
  "node_at b p = (if p = 0 then Inl Null_pointer else Inr (nodes b p))"

definition put_prev :: "u64 \<Rightarrow> u64 \<Rightarrow> buddy \<Rightarrow> buddy res" where
  "put_prev p v b =
     (if p = 0 then Inl Null_pointer
      else Inr (b\<lparr>nodes := (nodes b)(p := (v, snd (nodes b p)))\<rparr>))"

definition put_next :: "u64 \<Rightarrow> u64 \<Rightarrow> buddy \<Rightarrow> buddy res" where
  "put_next p v b =
     (if p = 0 then Inl Null_pointer
      else Inr (b\<lparr>nodes := (nodes b)(p := (fst (nodes b p), v))\<rparr>))"

definition list_at :: "buddy \<Rightarrow> int \<Rightarrow> u64 res" where
  "list_at b i = (if i < 0 then Inl Out_of_bounds else rd (lists b) (nat i))"

definition put_list :: "int \<Rightarrow> u64 \<Rightarrow> buddy \<Rightarrow> buddy res" where
  "put_list i p b =
     (if i < 0 then Inl Out_of_bounds
      else rbind (wr (lists b) (nat i) p) (\<lambda>ls. Inr (b\<lparr>lists := ls\<rparr>)))"

definition remove_sibling_from_list :: "buddy \<Rightarrow> int \<Rightarrow> u64 \<Rightarrow> buddy res" where
  "remove_sibling_from_list b i ptr =
     (let len = ucast (push_bit (nat (i + 4)) (1 :: u32)) in
      rbind (sibling_of ptr len) (\<lambda>sibling.
      rbind (node_at b sibling) (\<lambda>(prev, nxt).
      rbind (if prev \<noteq> 0 then put_next prev nxt b else put_list i nxt b) (\<lambda>b.
        if nxt \<noteq> 0 then put_prev nxt prev b else Inr b))))"

definition append :: "buddy \<Rightarrow> int \<Rightarrow> u64 \<Rightarrow> buddy res" where
  "append b i ptr =
     rbind (c_assert (0 \<le> i \<and> i < int NUM_LISTS)) (\<lambda>_.
     rbind (list_at b i) (\<lambda>head.
     rbind (if head \<noteq> 0 then put_prev head ptr b else Inr b) (\<lambda>b.
     rbind (put_prev ptr 0 b) (\<lambda>b.
     rbind (put_next ptr head b) (\<lambda>b. put_list i ptr b)))))"

definition pop :: "buddy \<Rightarrow> int \<Rightarrow> (u64 \<times> buddy) res" where
  "pop b i =
     rbind (c_assert (0 \<le> i \<and> i < int NUM_LISTS)) (\<lambda>_.
     rbind (list_at b i) (\<lambda>page.
     rbind (c_assert (page \<noteq> 0)) (\<lambda>_.
     rbind (node_at b page) (\<lambda>(_, nxt).
     rbind (put_list i nxt b) (\<lambda>b.
     rbind (if nxt \<noteq> 0 then put_prev nxt 0 b else Inr b) (\<lambda>b. Inr (page, b)))))))"

subsection \<open>Allocation and release\<close>

text \<open>The loop that halves a block until it has the requested size, giving each upper half back to
  the free list of its size.\<close>

fun split_loop :: "nat \<Rightarrow> nat \<Rightarrow> u64 \<Rightarrow> buddy \<Rightarrow> buddy res" where
  "split_loop i j ptr b =
     (if i < j then
        rbind (sibling_of ptr (ucast (push_bit (j - 1 + 4) (1 :: u32)))) (\<lambda>sibling.
        rbind (append b (int (j - 1)) sibling) (\<lambda>b. split_loop i (j - 1) ptr b))
      else Inr b)"

declare split_loop.simps [simp del]

definition malloc_block :: "buddy \<Rightarrow> u64 \<Rightarrow> (u64 \<times> buddy) res" where
  "malloc_block b len =
     (if len = 0 \<or> MAX_BLOCK_SIZE < len then Inr (0, b)
      else
        let len = normalize_len len in
        rbind (c_assert (MIN_BLOCK_SIZE \<le> len)) (\<lambda>_.
        rbind (list_index_for_size len) (\<lambda>i.
        rbind (c_assert (0 \<le> i \<and> i < int NUM_LISTS)) (\<lambda>_.
          let j = skip_while (\<lambda>p. p = 0) (lists b) (nat i) in
          if j = NUM_LISTS then Inr (0, b)
          else
            rbind (pop b (int j)) (\<lambda>(ptr, b).
            rbind (split_loop (nat i) j ptr b) (\<lambda>b.
            rbind (set_allocated b ptr len True) (\<lambda>b. Inr (ptr, b))))))))"

definition buddy_malloc :: "buddy option \<Rightarrow> u64 \<Rightarrow> (u64 \<times> buddy option) res" where
  "buddy_malloc alloc len =
     (case alloc of None \<Rightarrow> Inr (0, None)
      | Some b \<Rightarrow> rbind (malloc_block b len) (\<lambda>(ptr, b). Inr (ptr, Some b)))"

lemma sibling_allocated_doubles:
  assumes "sibling_allocated_considering_splits b ptr len = Inr x"
  shows "4096 - unat (push_bit (Suc 0) len) < 4096 - unat len"
proof -
  from assms have len: "len < 4096"
    by (auto simp: sibling_allocated_considering_splits_def sibling_of_def rbind_eq_Inr)
  have "len \<noteq> 0"
  proof
    assume "len = 0"
    with assms obtain sib where "is_allocated_considering_splits b sib 0 = Inr x"
      by (auto simp: sibling_allocated_considering_splits_def rbind_eq_Inr)
    then show False
      using is_allocated_0 by (auto simp: is_allocated_considering_splits.simps rbind_eq_Inr)
  qed
  then have pos: "0 < unat len" by (simp add: unat_gt_0)
  have small: "unat len < 4096" using len by (simp add: word_less_nat_alt)
  have "unat (push_bit (Suc 0) len) = 2 * unat len"
    using small by (simp add: push_bit_eq_mult unat_word_ariths)
  with pos small show ?thesis by simp
qed

function free_loop :: "buddy \<Rightarrow> u64 \<Rightarrow> u64 \<Rightarrow> buddy res" where
  "free_loop b ptr len =
     rbind (list_index_for_size len) (\<lambda>i.
     rbind (if len = MAX_BLOCK_SIZE then Inr True else sibling_allocated_considering_splits b ptr len) (\<lambda>last.
       if last then append b i ptr
       else
         rbind (list_at b i) (\<lambda>head.
         rbind (c_assert (head \<noteq> 0)) (\<lambda>_.
         rbind (remove_sibling_from_list b i ptr) (\<lambda>b.
         rbind (parent_of ptr len) (\<lambda>ptr. free_loop b ptr (push_bit 1 len)))))))"
  by pat_completeness auto
termination
  by (relation "measure (\<lambda>(b, ptr, len). 4096 - unat len)")
     (auto split: if_splits dest: sibling_allocated_doubles)

declare free_loop.simps [simp del]

definition free_block :: "buddy \<Rightarrow> u64 \<Rightarrow> u64 \<Rightarrow> buddy res" where
  "free_block b len ptr =
     (if ptr = 0 \<or> len = 0 then Inr b
      else if MAX_BLOCK_SIZE < len then Inr b
      else
        let len = normalize_len len in
        rbind (is_allocated b ptr len) (\<lambda>was.
          if \<not> was then Inr b
          else rbind (set_allocated b ptr len False) (\<lambda>b. free_loop b ptr len)))"

definition buddy_free :: "buddy option \<Rightarrow> u64 \<Rightarrow> u64 \<Rightarrow> buddy option res" where
  "buddy_free alloc len ptr =
     (case alloc of None \<Rightarrow> Inr None
      | Some b \<Rightarrow> rbind (free_block b len ptr) (\<lambda>b. Inr (Some b)))"

definition buddy_get_base :: "buddy \<Rightarrow> u64" where
  "buddy_get_base b = base b"

definition buddy_owned :: "buddy option \<Rightarrow> u64 \<Rightarrow> bool" where
  "buddy_owned alloc ptr =
     (case alloc of None \<Rightarrow> False
      | Some b \<Rightarrow> base b \<le> ptr \<and> ptr < base b + pool_size b)"

definition buddy_allocated :: "buddy option \<Rightarrow> u64 \<Rightarrow> u64 \<Rightarrow> bool res" where
  "buddy_allocated alloc ptr len =
     (case alloc of None \<Rightarrow> Inr False
      | Some b \<Rightarrow> if buddy_owned alloc ptr then is_allocated b ptr len else Inr False)"

subsection \<open>Start-up\<close>

text \<open>\<open>shl_int\<close> is \<^verbatim>\<open>i << k\<close> at type int.\<close>

definition shl_int :: "nat \<Rightarrow> nat \<Rightarrow> nat res" where
  "shl_int i k = (if i * 2 ^ k < 2 ^ 31 then Inr (i * 2 ^ k) else Inl Int_overflow)"

definition pad_of :: "u64 \<Rightarrow> u64 \<Rightarrow> u64" where
  "pad_of p msk = (- p) AND msk"

definition page_index_to_ptr :: "u64 \<Rightarrow> nat \<Rightarrow> u64 res" where
  "page_index_to_ptr bs i = rbind (shl_int i 12) (\<lambda>off. Inr (bs + of_nat off))"

text \<open>Whether \<open>n\<close> trees and as many pages fit: the body of the sizing loop.\<close>

definition trees_fit :: "u64 \<Rightarrow> u64 \<Rightarrow> nat \<Rightarrow> bool" where
  "trees_fit bs sz n =
     (let tree_region = of_nat n * 64 in
      if sz < tree_region then False
      else
        let p = bs + tree_region;
            l = sz - tree_region;
            pad = pad_of p MAX_BLOCK_ALIGN_MASK
        in if l < pad then False
           else int n \<le> sint (ucast (drop_bit 12 (l - pad)) :: u32))"

function count_trees :: "u64 \<Rightarrow> u64 \<Rightarrow> nat \<Rightarrow> nat res" where
  "count_trees bs sz n =
     (if 2 ^ 31 \<le> n + 1 then Inl Int_overflow
      else if \<not> trees_fit bs sz (n + 1) then Inr n
      else count_trees bs sz (n + 1))"
  by pat_completeness auto
termination
  by (relation "measure (\<lambda>(bs, sz, n). 2 ^ 31 - n)") auto

declare count_trees.simps [simp del]

text \<open>The loop that links the pages, from page \<open>i\<close> on.\<close>

function link_pages :: "u64 \<Rightarrow> nat \<Rightarrow> nat \<Rightarrow> u64 \<Rightarrow> u64 \<Rightarrow> (u64 \<Rightarrow> u64 \<times> u64) \<Rightarrow> (u64 \<times> (u64 \<Rightarrow> u64 \<times> u64)) res" where
  "link_pages bs n i head tail mem =
     (if i < n then
        rbind (page_index_to_ptr bs i) (\<lambda>p.
          let mem = (if head \<noteq> 0 then mem(tail := (fst (mem tail), p)) else mem);
              mem = mem(p := (if head \<noteq> 0 then tail else 0, 0))
          in link_pages bs n (i + 1) (if head \<noteq> 0 then head else p) p mem)
      else Inr (head, mem))"
  by pat_completeness auto
termination
  by (relation "measure (\<lambda>(bs, n, i, head, tail, mem). n - i)") auto

declare link_pages.simps [simp del]

text \<open>The second half of the start-up, which places trees and pages in what is left of the region
  after the handle, and the whole function.\<close>

definition place_pages :: "(u64 \<Rightarrow> u64 \<times> u64) \<Rightarrow> u64 \<Rightarrow> u64 \<Rightarrow> buddy option res" where
  "place_pages mem bs sz =
     rbind (count_trees bs sz 0) (\<lambda>n.
       let ts = replicate n (replicate 16 0);
           bs = bs + of_nat (n * 64);
           sz = sz - of_nat (n * 64);
           pad = pad_of bs MAX_BLOCK_ALIGN_MASK
       in if sz < pad then Inr None else
       let bs = bs + pad in
       rbind (shl_int n 12) (\<lambda>sz.
       rbind (link_pages bs n 0 0 0 mem) (\<lambda>(head, mem).
         Inr (Some \<lparr>base = bs, pool_size = of_nat sz, lists = replicate 8 0 @ [head],
                    trees = ts, num_trees = n, nodes = mem\<rparr>))))"

definition buddy_startup :: "(u64 \<Rightarrow> u64 \<times> u64) \<Rightarrow> u64 \<Rightarrow> u64 \<Rightarrow> buddy option res" where
  "buddy_startup mem bs sz =
     rbind (c_assert ((bs \<noteq> 0 \<and> sz \<noteq> 0) \<or> (bs = 0 \<and> sz = 0))) (\<lambda>_.
       let pad = pad_of bs 7 in
       if sz < pad then Inr None else
       let bs = bs + pad; sz = sz - pad in
       if sz < 104 then Inr None else
       let bs = bs + 104; sz = sz - 104; pad = pad_of bs 3 in
       if sz < pad then Inr None else place_pages mem (bs + pad) (sz - pad))"

end
