(* ===== verification/BuddyBits.thy ===== *)
theory BuddyBits
  imports Buddy
begin

section \<open>The buddy allocator: addresses, sizes and bit trees\<close>

text \<open>
  How the machine-level computations of \<^verbatim>\<open>alloc/buddy.c\<close> act on the blocks of the theory of
  tilings: rounding of sizes, the address of a block, its sibling and parent, and the bit of the
  tree that records whether it is allocated.
\<close>

subsection \<open>Sizes\<close>

lemma first_set_eq: "first_set x = find_first_set_bit x"
  by (simp add: first_set_def find_first_set_bit_def)

lemma first_set_pow2 [simp]: "k < 64 \<Longrightarrow> first_set (2 ^ k) = Inr (int k)"
  by (simp add: first_set_eq find_first_set_bit_pow2)

lemma pow2_is_pow2: "k < 64 \<Longrightarrow> is_pow2 (2 ^ k)"
  using and_minus_1_eq_0_iff [of "2 ^ k :: u64"] by (auto simp: is_pow2_def)

lemma round_pow2_covers: "covers 64 (v - 1) (round_pow2 v - 1)"
proof -
  define v1 where "v1 = (v - 1) OR drop_bit 1 (v - 1)"
  define v2 where "v2 = v1 OR drop_bit 2 v1"
  define v4 where "v4 = v2 OR drop_bit 4 v2"
  define v8 where "v8 = v4 OR drop_bit 8 v4"
  define v16 where "v16 = v8 OR drop_bit 16 v8"
  have "covers 2 (v - 1) v1"
    using covers_step [OF covers_1, of 1 "v - 1"] by (simp add: v1_def numeral_2_eq_2)
  then have "covers (2 + 2) (v - 1) v2" unfolding v2_def by (intro covers_step) simp_all
  then have "covers (4 + 4) (v - 1) v4" unfolding v4_def by (intro covers_step) simp_all
  then have "covers (8 + 8) (v - 1) v8" unfolding v8_def by (intro covers_step) simp_all
  then have "covers (16 + 16) (v - 1) v16" unfolding v16_def by (intro covers_step) simp_all
  then have "covers (32 + 32) (v - 1) (v16 OR drop_bit 32 v16)" by (intro covers_step) simp_all
  then show ?thesis by (simp add: round_pow2_def Let_def v1_def v2_def v4_def v8_def v16_def)
qed

lemma round_pow2_least:
  assumes "1 < unat v" "unat v \<le> 2 ^ 63"
  obtains h where "h < 63" "round_pow2 v = 2 ^ Suc h" "2 ^ h < unat v" "unat v \<le> 2 ^ Suc h"
proof -
  have "1 \<le> v" using assms(1) by (simp add: word_le_nat_alt)
  then have un: "unat (v - 1) = unat v - 1" by (simp add: unat_sub)
  with assms(1) have ne: "v - 1 \<noteq> 0" by (metis unat_0 zero_less_diff less_numeral_extra(3))
  have cov: "covers LENGTH(64) (v - 1) (round_pow2 v - 1)" using round_pow2_covers [of v] by simp
  obtain h where h: "h < 64" "2 ^ h \<le> unat v - 1" "unat v - 1 < 2 ^ Suc h" "round_pow2 v - 1 = mask (Suc h)"
    by (rule covers_all_mask [OF cov ne]) (simp add: un)
  have "(2 :: nat) ^ h < 2 ^ 63" using h(2) assms by linarith
  then have "h < 63" by (rule power_less_imp_less_exp [rotated]) simp
  moreover have "round_pow2 v = 2 ^ Suc h"
    using h(4) by (metis diff_add_cancel inc_mask_eq_exp)
  ultimately show thesis using that h(2,3) assms(1) by (auto simp del: power_Suc)
qed

lemma normalize_len_pow2:
  assumes "0 < unat len" "unat len \<le> 2 ^ 63"
  shows "\<exists>k. normalize_len len = 2 ^ k \<and> 4 \<le> k \<and> k \<le> 63 \<and> unat len \<le> 2 ^ k
           \<and> (\<forall>j. 4 \<le> j \<longrightarrow> unat len \<le> 2 ^ j \<longrightarrow> k \<le> j)"
proof (cases "unat len < 16")
  case True
  then have "len < 16" by (simp add: word_less_nat_alt)
  moreover have "len \<noteq> 0" using assms(1) by (metis less_numeral_extra(3) unat_0)
  ultimately have "normalize_len len = 2 ^ 4" by (simp add: normalize_len_def)
  with True show ?thesis by (intro exI [of _ 4]) auto
next
  case False
  then have "\<not> len < 16" "len \<noteq> 0" by (auto simp: word_less_nat_alt)
  then have n: "normalize_len len = round_pow2 len" by (simp add: normalize_len_def)
  from False have gt: "1 < unat len" by simp
  obtain h where h: "h < 63" "round_pow2 len = 2 ^ Suc h" "2 ^ h < unat len" "unat len \<le> 2 ^ Suc h"
    by (rule round_pow2_least [OF gt assms(2)])
  have least: "Suc h \<le> j" if "unat len \<le> 2 ^ j" for j
  proof -
    have "(2 :: nat) ^ h < 2 ^ j" using h(3) that by linarith
    then show ?thesis by (metis Suc_leI one_less_numeral_iff power_less_imp_less_exp semiring_norm(76))
  qed
  have "(2 :: nat) ^ 3 < 2 ^ Suc h" using h(4) False by simp
  then have "4 \<le> Suc h" by (metis Suc_leI numeral_eq_Suc pred_numeral_simps(2) one_less_numeral_iff
      power_less_imp_less_exp semiring_norm(76) semiring_norm(26,27) eval_nat_numeral(3))
  with n h least show ?thesis by (intro exI [of _ "Suc h"]) auto
qed

text \<open>The size a request is rounded to: for every request up to \<open>2^63\<close> bytes,
  \<open>normalize_len\<close> gives the least power of two that is at least 16 and at least the request.\<close>

theorem normalize_len_least:
  assumes "0 < unat len" "unat len \<le> 2 ^ 63"
  shows "\<exists>k. normalize_len len = 2 ^ k \<and> 4 \<le> k \<and> k \<le> 63 \<and> unat len \<le> 2 ^ k
           \<and> (\<forall>j. 4 \<le> j \<longrightarrow> unat len \<le> 2 ^ j \<longrightarrow> k \<le> j)"
  using assms by (rule normalize_len_pow2)

theorem normalize_len_least_witness:
  "\<exists>k. normalize_len 100 = 2 ^ k \<and> 4 \<le> k \<and> k \<le> 63 \<and> unat (100 :: u64) \<le> 2 ^ k
     \<and> (\<forall>j. 4 \<le> j \<longrightarrow> unat (100 :: u64) \<le> 2 ^ j \<longrightarrow> k \<le> j)"
  using normalize_len_least [of 100] by simp

text \<open>\<open>level len\<close> is the level of the block that serves a request of \<open>len\<close> bytes.\<close>

definition level :: "u64 \<Rightarrow> nat" where
  "level len = (LEAST k. unat len \<le> 2 ^ (k + 4))"

lemma normalize_len_level:
  assumes "len \<noteq> 0" "len \<le> 4096"
  shows "normalize_len len = 2 ^ (level len + 4)" "level len \<le> 8" "unat len \<le> 2 ^ (level len + 4)"
proof -
  have le: "unat len \<le> 2 ^ 12" using assms(2) by (simp add: word_le_nat_alt)
  then obtain k where k: "normalize_len len = 2 ^ k" "4 \<le> k" "unat len \<le> 2 ^ k"
      "\<And>j. 4 \<le> j \<Longrightarrow> unat len \<le> 2 ^ j \<Longrightarrow> k \<le> j"
    using normalize_len_pow2 [of len] assms(1) by (auto simp: unat_gt_0)
  have "level len = k - 4" unfolding level_def
  proof (rule Least_equality)
    show "unat len \<le> 2 ^ (k - 4 + 4)" using k by simp
    show "k - 4 \<le> j" if "unat len \<le> 2 ^ (j + 4)" for j using k(4) [OF _ that] by simp
  qed
  moreover have "k \<le> 12" using k(4) [OF _ le] by simp
  ultimately show "normalize_len len = 2 ^ (level len + 4)" "level len \<le> 8" "unat len \<le> 2 ^ (level len + 4)"
    using k by auto
qed

lemma list_index_pow2: "k \<le> 8 \<Longrightarrow> list_index_for_size (2 ^ (k + 4)) = Inr (int k)"
  by (simp only: list_index_for_size_def first_set_pow2) simp

lemma block_len_cast: "k \<le> 8 \<Longrightarrow> (ucast (push_bit (k + 4) (1 :: u32)) :: u64) = 2 ^ (k + 4)"
  by (rule bit_word_eqI) (auto simp: bit_simps)

subsection \<open>Addresses of blocks\<close>

definition start :: "block \<Rightarrow> nat" where
  "start x = snd x * 2 ^ fst x"

definition addr :: "buddy \<Rightarrow> block \<Rightarrow> u64" where
  "addr b x = base b + of_nat (16 * start x)"

definition pool_ok :: "buddy \<Rightarrow> bool" where
  "pool_ok b \<longleftrightarrow>
     unat (base b) mod 4096 = 0 \<and> 0 < unat (base b)
     \<and> unat (base b) + num_trees b * 4096 < 2 ^ 64 \<and> num_trees b * 4096 < 2 ^ 31
     \<and> pool_size b = of_nat (num_trees b * 4096)
     \<and> length (trees b) = num_trees b \<and> (\<forall>t\<in>set (trees b). length t = 16)
     \<and> length (lists b) = 9"

lemma start_bound: "valid n x \<Longrightarrow> start x + 2 ^ fst x \<le> n * 256"
proof -
  assume v: "valid n x"
  then have "(snd x + 1) * 2 ^ fst x \<le> n * 2 ^ (8 - fst x) * 2 ^ fst x"
    by (intro mult_right_mono) (auto simp: valid_def)
  also have "\<dots> = n * 2 ^ 8"
    using v by (simp add: valid_def mult.assoc flip: power_add)
  finally show ?thesis by (simp add: start_def algebra_simps)
qed

lemma unat_addr:
  assumes "pool_ok b" "valid (num_trees b) x"
  shows "unat (addr b x) = unat (base b) + 16 * start x"
proof -
  have "16 * start x < num_trees b * 4096"
    using start_bound [OF assms(2)] zero_less_power [of "2 :: nat" "fst x"] by linarith
  with assms(1) have "unat (base b) + 16 * start x < 2 ^ 64" "16 * start x < 2 ^ 64"
    by (auto simp: pool_ok_def)
  moreover from this(2) have "unat (of_nat (16 * start x) :: u64) = 16 * start x"
    by (intro unat_of_nat_small) simp
  ultimately show ?thesis by (simp add: addr_def unat_word_ariths del: of_nat_mult)
qed

lemma addr_nonzero: "pool_ok b \<Longrightarrow> valid (num_trees b) x \<Longrightarrow> addr b x \<noteq> 0"
  using unat_addr [of b x] by (metis add_is_0 less_numeral_extra(3) pool_ok_def unat_0)

lemma addr_inject:
  assumes "pool_ok b" "tiles (num_trees b) T" "x \<in> T" "y \<in> T"
  shows "addr b x = addr b y \<longleftrightarrow> x = y"
proof
  assume "addr b x = addr b y"
  then have "start x = start y"
    using assms unat_addr [of b x] unat_addr [of b y] tiles_valid [of _ T] by (metis
        add_left_cancel mult_cancel1 zero_neq_numeral)
  then show "x = y"
    using tiles_unique [OF assms(2-4)] first_unit [of x] first_unit [of y] by (simp add: start_def)
qed simp

subsection \<open>The bit of a block\<close>

definition page :: "block \<Rightarrow> nat" where
  "page x = snd x div 2 ^ (8 - fst x)"

definition info :: "block \<Rightarrow> nat" where
  "info x = 2 ^ (8 - fst x) + snd x mod 2 ^ (8 - fst x)"

definition tree_bit :: "buddy \<Rightarrow> block \<Rightarrow> bool" where
  "tree_bit b x = bit (trees b ! page x ! (info x div 32)) (info x mod 32)"

lemma page_less: "valid n x \<Longrightarrow> page x < n"
  by (simp add: valid_def page_def less_mult_imp_div_less)

lemma info_less: "fst x \<le> 8 \<Longrightarrow> info x < 512"
proof -
  assume "fst x \<le> 8"
  have "snd x mod 2 ^ (8 - fst x) < 2 ^ (8 - fst x)" by (rule mod_less_divisor) simp
  moreover have "(2 :: nat) ^ (8 - fst x) \<le> 256"
    using power_increasing [of "8 - fst x" 8 "2 :: nat"] by simp
  ultimately show ?thesis unfolding info_def by linarith
qed

text \<open>Within a page every block has a bit of its own.\<close>

lemma info_inject:
  assumes v: "fst x \<le> 8" "fst y \<le> 8" and eq: "page x = page y" "info x = info y"
  shows "x = y"
proof -
  have range: "2 ^ (8 - fst z) \<le> info z \<and> info z < 2 ^ Suc (8 - fst z)" for z :: block
    by (simp add: info_def)
  have le: "8 - fst u \<le> 8 - fst w" if "info u = info w" for u w :: block
  proof -
    have "(2 :: nat) ^ (8 - fst u) < 2 ^ Suc (8 - fst w)"
      using range [of u] range [of w] that by linarith
    then have "8 - fst u < Suc (8 - fst w)" by (rule power_less_imp_less_exp [rotated]) simp
    then show ?thesis by simp
  qed
  have k: "fst x = fst y" using le [OF eq(2)] le [OF eq(2) [symmetric]] v by simp
  with eq have "snd x div 2 ^ (8 - fst x) = snd y div 2 ^ (8 - fst x)"
    "snd x mod 2 ^ (8 - fst x) = snd y mod 2 ^ (8 - fst x)"
    by (auto simp: page_def info_def)
  then have "snd x = snd y" by (metis div_mult_mod_eq)
  with k show ?thesis by (simp add: prod_eq_iff)
qed

lemma page_start: "fst x \<le> 8 \<Longrightarrow> 16 * start x div 4096 = page x"
proof -
  assume k: "fst x \<le> 8"
  have "16 * start x div 4096 = start x div 256" by simp
  also have "\<dots> = snd x * 2 ^ fst x div 2 ^ fst x div 2 ^ (8 - fst x)"
    using div_pow_mono [OF k, of "start x"] by (simp add: start_def)
  finally show ?thesis by (simp add: page_def)
qed

lemma page_index_addr:
  assumes "pool_ok b" "valid (num_trees b) x"
  shows "\<exists>i. page_index b (addr b x) = Inr i \<and> unat i = page x"
proof -
  have le: "base b \<le> addr b x" using unat_addr [OF assms] by (simp add: word_le_nat_alt)
  then have "unat (addr b x - base b) = 16 * start x"
    using unat_addr [OF assms] by (simp add: unat_sub)
  with le page_start [of x] assms(2) show ?thesis
    by (simp add: page_index_def unat_shift_right valid_def)
qed

lemma block_info_addr:
  assumes b: "pool_ok b" and v: "valid (num_trees b) x"
  shows "\<exists>j. block_info_index (addr b x) (2 ^ (fst x + 4)) = Inr j \<and> unat j = info x"
proof -
  define k where "k = fst x"
  have k: "k \<le> 8" using v by (simp add: valid_def k_def)
  have m: "(4095 :: u64) = mask 12" by (simp add: mask_eq_exp_minus_1)
  have base: "unat (base b) mod 4096 = 0" using b by (simp add: pool_ok_def)
  have "unat (addr b x AND 4095) = (unat (base b) + 16 * start x) mod 4096"
    unfolding m unat_and_mask using unat_addr [OF b v] by simp
  also have "\<dots> = 16 * start x mod 4096" using base by (simp add: mod_add_eq [symmetric])
  also have "\<dots> = snd x * 2 ^ (k + 4) mod (2 ^ (8 - k) * 2 ^ (k + 4))"
    using k by (simp add: start_def k_def power_add ac_simps flip: power_add) (simp add: power_add ac_simps)
  finally have off: "unat (addr b x AND 4095) div 2 ^ (k + 4) = snd x mod 2 ^ (8 - k)"
    by (simp only: mult_mod_left [symmetric]) simp
  define j where "j = (ucast (push_bit (8 - k) (1 :: u32)) :: u64) + drop_bit (k + 4) (addr b x AND 4095)"
  have one: "(ucast (push_bit (8 - k) (1 :: u32)) :: u64) = 2 ^ (8 - k)"
    by (rule bit_word_eqI) (auto simp: bit_simps)
  have sum: "2 ^ (8 - k) + snd x mod 2 ^ (8 - k) = info x" by (simp add: info_def k_def)
  then have "2 ^ (8 - k) + snd x mod 2 ^ (8 - k) < (2 :: nat) ^ 64"
    using info_less [of x] k by (simp add: k_def)
  moreover have "unat (2 ^ (8 - k) :: u64) = 2 ^ (8 - k)" by (rule unat_pow2) simp
  ultimately have "unat j = 2 ^ (8 - k) + snd x mod 2 ^ (8 - k)"
    unfolding j_def one by (simp only: unat_word_ariths(1) unat_shift_right off) simp
  moreover have "nat (12 - int (k + 4)) = 8 - k" "nat (int (k + 4)) = k + 4" using k by auto
  then have "block_info_index (addr b x) (2 ^ (k + 4)) = Inr j"
    using k by (simp add: block_info_index_def first_set_pow2 [of "k + 4"] j_def del: power_add)
  ultimately show ?thesis using sum by (simp add: k_def)
qed

end
