(* ===== verification/BuddyMarks.thy ===== *)
theory BuddyMarks
  imports BuddyBits
begin

section \<open>The buddy allocator: marks, siblings and splits\<close>

text \<open>
  Reading and writing the mark of a block, the address of the sibling and of the parent, and the
  recursive test for allocated splits, each stated on blocks.
\<close>

subsection \<open>Marks\<close>

lemma and_bit_iff: "v < LENGTH('a) \<Longrightarrow> w AND 2 ^ v = (2 ^ v :: 'a::len word) \<longleftrightarrow> bit w v"
  by (auto simp: bit_eq_iff [of "w AND 2 ^ v"] bit_simps)

lemma block_size_pow2: "fst x \<le> 8 \<Longrightarrow> is_pow2 (2 ^ (fst x + 4))"
  by (rule pow2_is_pow2) simp

lemma tree_in:
  assumes "pool_ok b" "valid (num_trees b) x"
  shows "page x < length (trees b)" "info x div 32 < length (trees b ! page x)" "fst x \<le> 8"
proof -
  show p: "page x < length (trees b)" using assms page_less by (simp add: pool_ok_def)
  show k: "fst x \<le> 8" using assms by (simp add: valid_def)
  have "length (trees b ! page x) = 16" using assms(1) p by (simp add: pool_ok_def)
  with info_less [OF k] show "info x div 32 < length (trees b ! page x)" by simp
qed

lemma word_split:
  assumes "unat (j :: u64) = n"
  shows "unat (drop_bit 5 j) = n div 32" "unat (j AND 31) = n mod 32"
proof -
  have "(31 :: u64) = mask 5" by (simp add: mask_eq_exp_minus_1)
  then show "unat (j AND 31) = n mod 32" using assms by (simp only: unat_and_mask) simp
  show "unat (drop_bit 5 j) = n div 32" using assms by (simp add: unat_shift_right)
qed

lemma is_allocated_addr:
  assumes "pool_ok b" "valid (num_trees b) x"
  shows "is_allocated b (addr b x) (2 ^ (fst x + 4)) = Inr (tree_bit b x)"
proof -
  obtain i where i: "page_index b (addr b x) = Inr i" "unat i = page x"
    using page_index_addr [OF assms] by blast
  obtain j where j: "block_info_index (addr b x) (2 ^ (fst x + 4)) = Inr j" "unat j = info x"
    using block_info_addr [OF assms] by blast
  show ?thesis
    unfolding is_allocated_def Let_def i(1) j(1) rbind_Inr word_split [OF j(2)] i(2)
    using tree_in [OF assms] block_size_pow2 [of x] by (simp add: and_bit_iff tree_bit_def)
qed

lemma tree_bit_update:
  assumes b: "pool_ok b" and v: "valid (num_trees b) x" "valid (num_trees b) y"
    and w: "\<And>n. n < 32 \<Longrightarrow> bit w' n = (if n = info x mod 32 then val else bit (trees b ! page x ! (info x div 32)) n)"
    and b': "b' = b\<lparr>trees := (trees b)[page x := (trees b ! page x)[info x div 32 := w']]\<rparr>"
  shows "tree_bit b' y = (if y = x then val else tree_bit b y)"
proof (cases "page y = page x \<and> info y div 32 = info x div 32")
  case True
  then have "y = x \<longleftrightarrow> info y mod 32 = info x mod 32"
    using info_inject [of y x] tree_in(3) [OF b v(1)] tree_in(3) [OF b v(2)] by (metis div_mult_mod_eq)
  with True show ?thesis
    using w [of "info y mod 32"] tree_in [OF b v(1)] by (auto simp: tree_bit_def b')
next
  case False
  then have "y \<noteq> x" by auto
  moreover have "tree_bit b' y = tree_bit b y"
    using False tree_in [OF b v(1)] by (cases "page y = page x") (auto simp: tree_bit_def b')
  ultimately show ?thesis by simp
qed

lemma set_allocated_addr:
  assumes b: "pool_ok b" and v: "valid (num_trees b) x"
  obtains ts where "set_allocated b (addr b x) (2 ^ (fst x + 4)) val = Inr (b\<lparr>trees := ts\<rparr>)"
    "pool_ok (b\<lparr>trees := ts\<rparr>)"
    "\<And>y. valid (num_trees b) y \<Longrightarrow> tree_bit (b\<lparr>trees := ts\<rparr>) y = (if y = x then val else tree_bit b y)"
proof -
  obtain i where i: "page_index b (addr b x) = Inr i" "unat i = page x"
    using page_index_addr [OF assms] by blast
  obtain j where j: "block_info_index (addr b x) (2 ^ (fst x + 4)) = Inr j" "unat j = info x"
    using block_info_addr [OF assms] by blast
  define w where "w = trees b ! page x ! (info x div 32)"
  define msk where "msk = push_bit (info x mod 32) (1 :: u32)"
  define w' where "w' = (if val then w OR msk else w AND NOT msk)"
  define ts where "ts = (trees b)[page x := (trees b ! page x)[info x div 32 := w']]"
  note inside = tree_in [OF assms]
  have n: "num_trees b < 2 ^ 64" using b by (auto simp: pool_ok_def)
  then have "i < of_nat (num_trees b)"
    using page_less [OF v] i(2) by (simp add: word_less_nat_alt unat_of_nat_small)
  moreover have "unat (drop_bit 5 j) < 16" using word_split(1) [OF j(2)] info_less [OF inside(3)] by simp
  then have "drop_bit 5 j < 16" by (simp add: word_less_nat_alt)
  ultimately have "set_allocated b (addr b x) (2 ^ (fst x + 4)) val = Inr (b\<lparr>trees := ts\<rparr>)"
    unfolding set_allocated_def Let_def i(1) j(1) rbind_Inr word_split [OF j(2)] i(2)
    using inside block_size_pow2 [of x] by (simp add: ts_def w'_def w_def msk_def)
  moreover have "pool_ok (b\<lparr>trees := ts\<rparr>)"
    using b inside unfolding pool_ok_def ts_def
    by (auto simp: nth_mem dest!: set_update_subset_insert [THEN subsetD])
  moreover have "tree_bit (b\<lparr>trees := ts\<rparr>) y = (if y = x then val else tree_bit b y)"
    if "valid (num_trees b) y" for y
    by (rule tree_bit_update [OF b v that, of w'])
       (auto simp: ts_def w'_def msk_def w_def bit_simps)
  ultimately show thesis using that by blast
qed

subsection \<open>Siblings and parents\<close>

lemma align_iff:
  assumes "unat p = B + 16 * (a * 2 ^ k)" "B mod 4096 = 0" "k < 8"
  shows "p AND (push_bit 1 (2 ^ (k + 4)) - 1) = (0 :: u64) \<longleftrightarrow> even a"
proof -
  have "push_bit 1 (2 ^ (k + 4)) - 1 = (mask (k + 5) :: u64)"
    by (simp add: mask_eq_exp_minus_1 push_bit_eq_mult power_add)
  then have "p AND (push_bit 1 (2 ^ (k + 4)) - 1) = 0 \<longleftrightarrow> unat p mod 2 ^ (k + 5) = 0"
    by (metis unat_and_mask unat_eq_zero)
  also have "\<dots> \<longleftrightarrow> (16 * (a * 2 ^ k)) mod 2 ^ (k + 5) = 0"
  proof -
    have "(2 :: nat) ^ (k + 5) dvd 2 ^ 12" using assms(3) by (intro le_imp_power_dvd) simp
    moreover have "2 ^ 12 dvd B" using assms(2) by (simp add: dvd_eq_mod_eq_0)
    ultimately have "2 ^ (k + 5) dvd B" by (rule dvd_trans)
    then show ?thesis unfolding assms(1) by (simp add: dvd_add_right_iff flip: dvd_eq_mod_eq_0)
  qed
  also have "\<dots> \<longleftrightarrow> 2 ^ (k + 4) * 2 dvd 2 ^ (k + 4) * a"
    by (simp add: dvd_eq_mod_eq_0 power_add ac_simps)
  also have "\<dots> \<longleftrightarrow> even a" by simp
  finally show ?thesis .
qed

lemma sibling_of_addr:
  assumes b: "pool_ok b" and v: "valid (num_trees b) x" and k: "fst x < 8"
  shows "sibling_of (addr b x) (2 ^ (fst x + 4)) = Inr (addr b (buddy_of x))"
proof -
  have len: "unat (2 ^ (fst x + 4) :: u64) = 2 ^ (fst x + 4)" using k by (intro unat_pow2) simp
  have "(2 :: nat) ^ (fst x + 4) < 2 ^ 12" using k by (intro power_strict_increasing) auto
  then have lt: "(2 ^ (fst x + 4) :: u64) < 4096" using len by (simp add: word_less_nat_alt)
  have al: "addr b x AND (push_bit 1 (2 ^ (fst x + 4)) - 1) = 0 \<longleftrightarrow> even (snd x)"
    using unat_addr [OF b v] b k by (intro align_iff [where B = "unat (base b)"]) (auto simp: start_def pool_ok_def)
  have "addr b (buddy_of x) = (if even (snd x) then addr b x + 2 ^ (fst x + 4) else addr b x - 2 ^ (fst x + 4))"
    by (auto simp: addr_def buddy_of_def start_def power_add algebra_simps elim!: oddE)
  with lt al k show ?thesis by (simp add: sibling_of_def block_size_pow2)
qed

lemma parent_of_addr:
  assumes b: "pool_ok b" and v: "valid (num_trees b) x" and k: "fst x < 8"
  shows "parent_of (addr b x) (2 ^ (fst x + 4)) = Inr (addr b (parent x))"
proof -
  have sib: "unat (addr b (buddy_of x)) = unat (base b) + 16 * start (buddy_of x)"
    using b valid_buddy [OF v k] by (rule unat_addr)
  have p: "start (parent x) = (if even (snd x) then start x else start (buddy_of x))"
    by (auto simp: parent_def start_def buddy_of_def elim!: evenE oddE)
  have "start (buddy_of x) < start x \<longleftrightarrow> odd (snd x)"
    by (auto simp: start_def buddy_of_def elim!: oddE)
  then have "addr b (buddy_of x) < addr b x \<longleftrightarrow> odd (snd x)"
    using sib unat_addr [OF b v] by (simp add: word_less_nat_alt)
  with p show ?thesis
    using sibling_of_addr [OF assms] by (simp add: parent_of_def addr_def)
qed

lemma double_len: "push_bit 1 (2 ^ (k + 4)) = (2 ^ (Suc k + 4) :: u64)"
  by (simp add: push_bit_eq_mult power_add)

subsection \<open>Splits\<close>

lemma units_le_level:
  assumes "units y \<subseteq> units x"
  shows "fst y \<le> fst x"
proof (rule ccontr)
  assume "\<not> fst y \<le> fst x"
  then have "units x \<subseteq> units y"
    using assms first_unit [of y] by (intro units_nested [of "snd y * 2 ^ fst y"]) auto
  with assms have eq: "units x = units y" by blast
  have "card (units z) = 2 ^ fst z" for z :: block
    by (cases z) (simp add: units_interval)
  with eq have "(2 :: nat) ^ fst y = 2 ^ fst x" by metis
  with \<open>\<not> fst y \<le> fst x\<close> show False by simp
qed

lemma inside_halves:
  assumes "x = parent z" "snd z = 2 * snd x"
  shows "units y \<subseteq> units x \<longleftrightarrow> y = x \<or> units y \<subseteq> units z \<or> units y \<subseteq> units (buddy_of z)"
proof
  assume sub: "units y \<subseteq> units x"
  show "y = x \<or> units y \<subseteq> units z \<or> units y \<subseteq> units (buddy_of z)"
  proof (cases "fst y = fst x")
    case True
    with subsetD [OF sub first_unit [of y]] have "snd y = snd x" by (simp add: units_def)
    with True show ?thesis by (simp add: prod_eq_iff)
  next
    case False
    then have k: "fst y \<le> fst z"
      using units_le_level [OF sub] unfolding assms(1) parent_def by simp
    have "snd y * 2 ^ fst y \<in> units z \<union> units (buddy_of z)"
      using sub first_unit [of y] unfolding assms(1) units_parent by blast
    then show ?thesis
      using units_nested [OF first_unit [of y]] k by (metis Un_iff fst_buddy_of)
  qed
next
  assume "y = x \<or> units y \<subseteq> units z \<or> units y \<subseteq> units (buddy_of z)"
  moreover have "units x = units z \<union> units (buddy_of z)" unfolding assms(1) by (rule units_parent)
  ultimately show "units y \<subseteq> units x" by blast
qed

lemma splits_addr:
  assumes b: "pool_ok b" and v: "valid (num_trees b) x"
  shows "is_allocated_considering_splits b (addr b x) (2 ^ (fst x + 4))
           = Inr (\<exists>y. valid (num_trees b) y \<and> units y \<subseteq> units x \<and> tree_bit b y)"
  using v
proof (induction "fst x" arbitrary: x)
  case 0
  then have "y = x" if "units y \<subseteq> units x" for y
    using that units_le_level [OF that] first_unit [of y] by (auto simp: units_def prod_eq_iff)
  then have "(\<exists>y. valid (num_trees b) y \<and> units y \<subseteq> units x \<and> tree_bit b y) = tree_bit b x"
    using 0 by blast
  then show ?case
    using is_allocated_addr [OF b "0.prems"] 0(1) [symmetric]
    by (simp add: is_allocated_considering_splits.simps [of b _ 16])
next
  case (Suc k)
  define z where "z = (k, 2 * snd x)"
  have x: "x = parent z" using Suc.hyps(2) by (simp add: z_def parent_def prod_eq_iff)
  have kz: "fst z = k" "k < 8" using Suc by (auto simp: z_def valid_def)
  have vz: "valid (num_trees b) z"
  proof -
    have "8 - k = Suc (8 - fst x)" using kz Suc.hyps(2) by simp
    with Suc.prems kz show ?thesis by (auto simp: valid_def z_def)
  qed
  have vz': "valid (num_trees b) (buddy_of z)" using valid_buddy [OF vz] kz by simp
  have len: "(2 ^ (fst x + 4) :: u64) \<noteq> 16"
  proof
    assume "(2 ^ (fst x + 4) :: u64) = 16"
    moreover have "unat (2 ^ (fst x + 4) :: u64) = 2 ^ (fst x + 4)"
      using Suc.prems by (intro unat_pow2) (simp add: valid_def)
    ultimately have "(2 :: nat) ^ (fst x + 4) = 2 ^ 4" by simp
    then show False using Suc.hyps(2) [symmetric] by (simp add: power_add)
  qed
  have half: "drop_bit 1 (2 ^ (fst x + 4)) = (2 ^ (k + 4) :: u64)"
    using drop_bit_pow2 [where 'a = 64, of "fst x + 4" 1] Suc.hyps(2) [symmetric] kz by (simp add: add.commute)
  have lo: "addr b x = addr b z" using Suc.hyps(2) [symmetric] by (simp add: addr_def start_def z_def)
  have hi: "addr b x + 2 ^ (k + 4) = addr b (buddy_of z)"
    using Suc.hyps(2) [symmetric] by (simp add: addr_def start_def z_def buddy_of_def power_add algebra_simps)
  define some where "some w \<longleftrightarrow> (\<exists>y. valid (num_trees b) y \<and> units y \<subseteq> units w \<and> tree_bit b y)" for w
  have IH: "is_allocated_considering_splits b (addr b w) (2 ^ (k + 4)) = Inr (some w)"
    if "fst w = k" "valid (num_trees b) w" for w
    using Suc.hyps(1) [of w] that by (simp add: some_def)
  have halves: "units y \<subseteq> units x \<longleftrightarrow> y = x \<or> units y \<subseteq> units z \<or> units y \<subseteq> units (buddy_of z)" for y
    by (rule inside_halves [OF x]) (simp add: z_def)
  have "some x \<longleftrightarrow> tree_bit b x \<or> some z \<or> some (buddy_of z)"
    unfolding some_def halves using Suc.prems by blast
  moreover have "is_allocated_considering_splits b (addr b x) (2 ^ (fst x + 4))
     = Inr (tree_bit b x \<or> some z \<or> some (buddy_of z))"
    using len is_allocated_addr [OF b Suc.prems] IH [of z] IH [of "buddy_of z"] kz vz vz'
    by (subst is_allocated_considering_splits.simps) (simp only: half hi if_False rbind_Inr, simp add: lo)
  ultimately show ?case by (simp add: some_def)
qed

end
