(* ===== verification/BuddyLists.thy ===== *)
theory BuddyLists
  imports BuddyMarks
begin

section \<open>The buddy allocator: the doubly linked free lists\<close>

text \<open>
  A heap holds a doubly linked list when following \<^verbatim>\<open>next\<close> from the head visits the nodes in
  order, \<^verbatim>\<open>prev\<close> points to the node before, and both ends are NULL. Pushing a node, popping the
  head and unlinking a node in the middle are shown correct on such lists; then the three list
  functions of the allocator are, on a state that represents a set of allocated blocks and, for
  each level, a list of free blocks.
\<close>

type_synonym heap = "u64 \<Rightarrow> u64 \<times> u64"

fun seg :: "heap \<Rightarrow> u64 \<Rightarrow> u64 \<Rightarrow> u64 list \<Rightarrow> u64 \<Rightarrow> bool" where
  "seg h p q [] r \<longleftrightarrow> q = r"
| "seg h p q (x # xs) r \<longleftrightarrow> q = x \<and> x \<noteq> 0 \<and> fst (h x) = p \<and> seg h x (snd (h x)) xs r"

definition dll :: "heap \<Rightarrow> u64 \<Rightarrow> u64 list \<Rightarrow> bool" where
  "dll h q xs \<longleftrightarrow> seg h 0 q xs 0"

lemma seg_frame: "(\<And>x. x \<in> set xs \<Longrightarrow> h' x = h x) \<Longrightarrow> seg h' p q xs r = seg h p q xs r"
  by (induction xs arbitrary: p q) auto

lemma seg_upd [simp]: "y \<notin> set xs \<Longrightarrow> seg (h(y := v)) p q xs r = seg h p q xs r"
  by (rule seg_frame) auto

lemma seg_append: "seg h p q (xs @ ys) r \<longleftrightarrow> (\<exists>m. seg h p q xs m \<and> seg h (last (p # xs)) m ys r)"
  by (induction xs arbitrary: p q) auto

lemma dll_frame: "(\<And>x. x \<in> set xs \<Longrightarrow> h' x = h x) \<Longrightarrow> dll h' q xs = dll h q xs"
  unfolding dll_def by (rule seg_frame)

lemma dll_head: "dll h q xs \<Longrightarrow> (q = 0 \<longleftrightarrow> xs = []) \<and> (q \<noteq> 0 \<longrightarrow> q = hd xs \<and> q \<in> set xs)"
  by (cases xs) (auto simp: dll_def)

lemma seg_set_prev:
  "seg h p q (z # zs) r \<Longrightarrow> z \<notin> set zs \<Longrightarrow> seg (h(z := (p', snd (h z)))) p' q (z # zs) r"
  by simp

lemma seg_set_next:
  "seg h p q (ys @ [y]) m \<Longrightarrow> y \<notin> set ys \<Longrightarrow> seg (h(y := (fst (h y), m'))) p q (ys @ [y]) m'"
  by (simp add: seg_append)

lemma dll_push:
  assumes "dll h q xs" "distinct xs" "x \<notin> set xs" "x \<noteq> 0"
  shows "dll ((if q \<noteq> 0 then h(q := (x, snd (h q))) else h)(x := (0, q))) x (x # xs)"
proof (cases xs)
  case Nil
  with assms show ?thesis by (simp add: dll_def)
next
  case (Cons y ys)
  with assms have q: "q = y" "q \<noteq> 0" by (auto simp: dll_def)
  have "seg (h(y := (x, snd (h y)))) x q (y # ys) 0"
    by (rule seg_set_prev [where p = 0]) (use assms Cons in \<open>auto simp: dll_def\<close>)
  then have "seg ((h(y := (x, snd (h y))))(x := (0, q))) x q (y # ys) 0"
    using assms(3) Cons by (subst seg_upd) auto
  with q assms(4) Cons show ?thesis by (simp add: dll_def)
qed

lemma dll_pop:
  assumes "dll h q (x # xs)" "distinct (x # xs)" "n = snd (h x)"
  shows "dll (if n \<noteq> 0 then h(n := (0, snd (h n))) else h) n xs"
proof (cases xs)
  case Nil
  with assms show ?thesis by (auto simp: dll_def)
next
  case (Cons y ys)
  with assms have "seg h x n (y # ys) 0" "n = y" "n \<noteq> 0" by (auto simp: dll_def)
  moreover have "y \<notin> set ys" using assms(2) Cons by simp
  ultimately show ?thesis
    using seg_set_prev [of h x n y ys 0 0] Cons by (simp add: dll_def)
qed

definition unlink :: "heap \<Rightarrow> u64 \<Rightarrow> heap" where
  "unlink h s =
     (let (prev, nxt) = h s;
          h = (if prev \<noteq> 0 then h(prev := (fst (h prev), nxt)) else h)
      in if nxt \<noteq> 0 then h(nxt := (prev, snd (h nxt))) else h)"

lemma dll_unlink:
  assumes l: "dll h q (ys @ s # zs)" and d: "distinct (ys @ s # zs)"
  shows "dll (unlink h s) (if fst (h s) = 0 then snd (h s) else q) (ys @ zs)"
proof -
  define pr nx where "pr = fst (h s)" and "nx = snd (h s)"
  define h1 where "h1 = (if pr \<noteq> 0 then h(pr := (fst (h pr), nx)) else h)"
  define h2 where "h2 = (if nx \<noteq> 0 then h1(nx := (pr, snd (h1 nx))) else h1)"
  have front: "seg h 0 q ys s" and pr: "pr = last (0 # ys)" and rear: "seg h s nx zs 0"
    using l by (auto simp: dll_def seg_append pr_def nx_def)
  have in_ys: "pr \<noteq> 0 \<longleftrightarrow> ys \<noteq> []"
    using front pr by (cases ys rule: rev_cases) (auto simp: seg_append)
  have nx: "nx \<noteq> 0 \<longleftrightarrow> zs \<noteq> []" "zs \<noteq> [] \<Longrightarrow> nx = hd zs"
    using rear by (cases zs; auto)+
  have front1: "seg h1 0 (if pr = 0 then nx else q) ys nx"
  proof (cases ys rule: rev_cases)
    case Nil
    then show ?thesis using in_ys by simp
  next
    case (snoc ys' y)
    then have "pr = y" using pr by simp
    with seg_set_next [of h 0 q ys' y s nx] front snoc d in_ys show ?thesis by (simp add: h1_def)
  qed
  have rear1: "seg h1 s nx zs 0"
    using rear d pr in_ys by (cases ys rule: rev_cases) (auto simp: h1_def)
  have front2: "seg h2 0 (if pr = 0 then nx else q) ys nx"
    using front1 d nx by (cases zs) (auto simp: h2_def)
  have "seg h2 pr nx zs 0"
  proof (cases zs)
    case Nil
    then show ?thesis using rear1 by simp
  next
    case (Cons z zs')
    with seg_set_prev [of h1 s nx z zs' 0 pr] rear1 d nx show ?thesis by (simp add: h2_def)
  qed
  with front2 pr have "dll h2 (if pr = 0 then nx else q) (ys @ zs)"
    by (auto simp: dll_def seg_append)
  moreover have "unlink h s = h2"
    unfolding unlink_def h2_def h1_def pr_def nx_def by (simp only: Let_def split_beta)
  ultimately show ?thesis by (simp only: pr_def nx_def)
qed

lemma unlink_frame:
  assumes "dll h q (ys @ s # zs)" "x \<notin> set (ys @ zs)"
  shows "unlink h s x = h x"
proof -
  have pr: "fst (h s) = last (0 # ys)" and rear: "seg h s (snd (h s)) zs 0"
    using assms by (auto simp: dll_def seg_append)
  have "snd (h s) \<noteq> 0 \<Longrightarrow> snd (h s) \<in> set zs" using rear by (cases zs) auto
  moreover have "fst (h s) \<noteq> 0 \<Longrightarrow> fst (h s) \<in> set ys" using pr by (cases ys rule: rev_cases) auto
  ultimately show ?thesis using assms(2) by (auto simp: unlink_def Let_def split_beta)
qed

lemma dll_snoc:
  assumes "dll h q (xs @ [t])" "distinct (xs @ [t])" "x \<notin> set (xs @ [t])" "x \<noteq> 0"
  shows "dll ((h(t := (fst (h t), x)))(x := (t, 0))) q (xs @ [t] @ [x])"
proof -
  have "seg (h(t := (fst (h t), x))) 0 q (xs @ [t]) x"
    using assms by (intro seg_set_next [where m = 0]) (auto simp: dll_def)
  then have "seg ((h(t := (fst (h t), x)))(x := (t, 0))) 0 q (xs @ [t]) x"
    using assms(3) by (subst seg_upd) auto
  then show ?thesis
    unfolding dll_def append_assoc [symmetric] by (subst seg_append) (use assms(4) in auto)
qed

subsection \<open>States of the allocator\<close>

definition free_blocks :: "(nat \<Rightarrow> nat list) \<Rightarrow> block set" where
  "free_blocks Fs = {x. fst x < 9 \<and> snd x \<in> set (Fs (fst x))}"

definition list_addrs :: "buddy \<Rightarrow> (nat \<Rightarrow> nat list) \<Rightarrow> nat \<Rightarrow> u64 list" where
  "list_addrs b Fs i = map (\<lambda>a. addr b (i, a)) (Fs i)"

definition rep :: "buddy \<Rightarrow> block set \<Rightarrow> (nat \<Rightarrow> nat list) \<Rightarrow> bool" where
  "rep b A Fs \<longleftrightarrow>
     pool_ok b \<and> (\<forall>x. valid (num_trees b) x \<longrightarrow> tree_bit b x = (x \<in> A))
     \<and> (\<forall>i<9. dll (nodes b) (lists b ! i) (list_addrs b Fs i) \<and> distinct (Fs i))"

lemma rep_pool: "rep b A Fs \<Longrightarrow> pool_ok b"
  by (simp add: rep_def)

lemma addr_cong: "base b' = base b \<Longrightarrow> addr b' x = addr b x"
  by (simp add: addr_def)

lemma tree_bit_cong: "trees b' = trees b \<Longrightarrow> tree_bit b' x = tree_bit b x"
  by (simp add: tree_bit_def)

lemma pool_ok_cong:
  "pool_ok b \<Longrightarrow> base b' = base b \<Longrightarrow> num_trees b' = num_trees b \<Longrightarrow> pool_size b' = pool_size b
     \<Longrightarrow> trees b' = trees b \<Longrightarrow> length (lists b') = length (lists b) \<Longrightarrow> pool_ok b'"
  by (simp add: pool_ok_def)

text \<open>Changing one list and the nodes of that list only.\<close>

lemma rep_update:
  assumes r: "rep b A Fs" and i: "i < 9"
    and new: "dll h q (map (\<lambda>a. addr b (i, a)) xs)" "distinct xs"
    and frame: "\<And>j a. j < 9 \<Longrightarrow> j \<noteq> i \<Longrightarrow> a \<in> set (Fs j) \<Longrightarrow> h (addr b (j, a)) = nodes b (addr b (j, a))"
  shows "rep (b\<lparr>nodes := h, lists := (lists b)[i := q]\<rparr>) A (Fs(i := xs))"
proof -
  let ?b = "b\<lparr>nodes := h, lists := (lists b)[i := q]\<rparr>"
  have len: "length (lists b) = 9" using r by (simp add: rep_def pool_ok_def)
  have "dll h ((lists b)[i := q] ! j) (list_addrs ?b (Fs(i := xs)) j) \<and> distinct ((Fs(i := xs)) j)"
    if j: "j < 9" for j
  proof (cases "j = i")
    case True
    with new len i show ?thesis by (simp add: list_addrs_def addr_cong [of ?b b])
  next
    case False
    have "dll (nodes b) (lists b ! j) (list_addrs b Fs j)" "distinct (Fs j)"
      using r j by (auto simp: rep_def)
    moreover have "dll h (lists b ! j) (list_addrs b Fs j) = dll (nodes b) (lists b ! j) (list_addrs b Fs j)"
      by (rule dll_frame) (use frame [OF j False] in \<open>auto simp: list_addrs_def\<close>)
    ultimately show ?thesis using False by (simp add: list_addrs_def addr_cong [of ?b b])
  qed
  moreover have "pool_ok ?b" by (rule pool_ok_cong [OF rep_pool [OF r]]) simp_all
  ultimately show ?thesis using r by (simp add: rep_def tree_bit_cong [of ?b b])
qed

text \<open>The addresses of blocks of a tiling are distinct.\<close>

lemma addr_image:
  assumes "pool_ok b" "tiles (num_trees b) T" "\<And>a. a \<in> set xs \<Longrightarrow> (i, a) \<in> T" "(j, c) \<in> T"
  shows "addr b (j, c) \<in> set (map (\<lambda>a. addr b (i, a)) xs) \<longleftrightarrow> j = i \<and> c \<in> set xs"
  using addr_inject [OF assms(1,2)] assms(3,4) by auto

lemma distinct_addrs:
  assumes "pool_ok b" "tiles (num_trees b) T" "\<And>a. a \<in> set xs \<Longrightarrow> (i, a) \<in> T" "distinct xs"
  shows "distinct (map (\<lambda>a. addr b (i, a)) xs)"
  using addr_inject [OF assms(1,2)] assms(3,4) by (auto simp: distinct_map inj_on_def)

end
