(* ===== verification/BuddySteps.thy ===== *)
theory BuddySteps
  imports BuddyLists
begin

section \<open>The buddy allocator: list operations and loops on blocks\<close>

text \<open>
  The list functions of the allocator, the splitting loop of \<^verbatim>\<open>buddy_malloc\<close> and the merging loop
  of \<^verbatim>\<open>buddy_free\<close>, on states that represent a tiling. Each returns without a fault and takes the
  step on tilings that it should.
\<close>

definition same_pool :: "buddy \<Rightarrow> buddy \<Rightarrow> bool" where
  "same_pool b b' \<longleftrightarrow> base b' = base b \<and> num_trees b' = num_trees b \<and> pool_size b' = pool_size b"

lemma same_pool_refl [simp]: "same_pool b b"
  by (simp add: same_pool_def)

lemma same_pool_trans: "same_pool a b \<Longrightarrow> same_pool b c \<Longrightarrow> same_pool a c"
  by (simp add: same_pool_def)

lemma same_pool_addr: "same_pool b b' \<Longrightarrow> addr b' x = addr b x"
  by (rule addr_cong) (simp add: same_pool_def)

lemma free_blocks_cons: "i < 9 \<Longrightarrow> free_blocks (Fs(i := a # Fs i)) = insert (i, a) (free_blocks Fs)"
  by (auto simp: free_blocks_def)

lemma free_blocks_tail:
  "Fs i = a # as \<Longrightarrow> distinct (Fs i) \<Longrightarrow> i < 9 \<Longrightarrow> free_blocks (Fs(i := as)) = free_blocks Fs - {(i, a)}"
  by (auto simp: free_blocks_def)

lemma free_blocks_remove:
  "distinct (Fs i) \<Longrightarrow> i < 9 \<Longrightarrow> free_blocks (Fs(i := remove1 a (Fs i))) = free_blocks Fs - {(i, a)}"
  by (auto simp: free_blocks_def)

lemma rep_distinct: "rep b A Fs \<Longrightarrow> i < 9 \<Longrightarrow> distinct (Fs i)"
  by (simp add: rep_def)

lemma rep_dll: "rep b A Fs \<Longrightarrow> i < 9 \<Longrightarrow> dll (nodes b) (lists b ! i) (map (\<lambda>a. addr b (i, a)) (Fs i))"
  by (simp add: rep_def list_addrs_def)

lemma rep_head:
  assumes "rep b A Fs" "i < 9"
  shows "lists b ! i = 0 \<longleftrightarrow> Fs i = []" "Fs i = a # as \<Longrightarrow> lists b ! i = addr b (i, a)"
  using assms dll_head [of "nodes b" "lists b ! i" "list_addrs b Fs i"] by (auto simp: rep_def list_addrs_def)

lemma list_at_rep: "rep b A Fs \<Longrightarrow> i < 9 \<Longrightarrow> list_at b (int i) = Inr (lists b ! i)"
  by (simp add: list_at_def rep_def pool_ok_def)

lemma put_list_eq:
  "length (lists b) = 9 \<Longrightarrow> i < 9 \<Longrightarrow> put_list (int i) p b = Inr (b\<lparr>lists := (lists b)[i := p]\<rparr>)"
  by (simp add: put_list_def)

lemma append_rep:
  assumes r: "rep b A Fs" and T: "tiles (num_trees b) T" "free_blocks Fs \<subseteq> T" "(i, a) \<in> T"
    and new: "(i, a) \<notin> free_blocks Fs" and i: "i < 9"
  shows "\<exists>b'. append b (int i) (addr b (i, a)) = Inr b' \<and> rep b' A (Fs(i := a # Fs i)) \<and> same_pool b b'"
proof -
  note ok = rep_pool [OF r]
  define q where "q = lists b ! i"
  define p where "p = addr b (i, a)"
  define h where "h = (if q \<noteq> 0 then (nodes b)(q := (p, snd (nodes b q))) else nodes b)(p := (0, q))"
  have p: "p \<noteq> 0" using addr_nonzero [OF ok] tiles_valid [OF T(1,3)] by (simp add: p_def)
  have len: "length (lists b) = 9" using ok by (simp add: pool_ok_def)
  have inT: "(j, c) \<in> T" if "j < 9" "c \<in> set (Fs j)" for j c
    using that T(2) by (auto simp: free_blocks_def)
  have l: "dll (nodes b) q (map (\<lambda>a. addr b (i, a)) (Fs i))" and d: "distinct (Fs i)"
    using r i by (auto simp: rep_def list_addrs_def q_def)
  have "rep (b\<lparr>nodes := h, lists := (lists b)[i := p]\<rparr>) A (Fs(i := a # Fs i))"
  proof (rule rep_update [OF r i])
    have "p \<notin> set (map (\<lambda>a. addr b (i, a)) (Fs i))"
      unfolding p_def using addr_image [OF ok T(1) inT [OF i] T(3)] new i by (auto simp: free_blocks_def)
    then show "dll h p (map (\<lambda>a. addr b (i, a)) (a # Fs i))"
      using dll_push [OF l distinct_addrs [OF ok T(1) inT [OF i] d] _ p] by (simp add: h_def p_def)
    show "distinct (a # Fs i)" using d new i by (simp add: free_blocks_def)
    fix j c assume j: "j < 9" "j \<noteq> i" "c \<in> set (Fs j)"
    have "addr b (j, c) \<noteq> p" using addr_inject [OF ok T(1) inT T(3)] j by (auto simp: p_def)
    moreover have "addr b (j, c) \<noteq> q" if "q \<noteq> 0"
      using dll_head [OF l] that addr_image [OF ok T(1) inT [OF i] inT [OF j(1,3)]] j(2) by metis
    ultimately show "h (addr b (j, c)) = nodes b (addr b (j, c))" by (auto simp: h_def)
  qed
  moreover have "append b (int i) p = Inr (b\<lparr>nodes := h, lists := (lists b)[i := p]\<rparr>)"
    using p i len list_at_rep [OF r i]
    by (simp add: append_def NUM_LISTS_def put_prev_def put_next_def put_list_eq h_def q_def)
  ultimately show ?thesis by (auto simp: p_def same_pool_def)
qed

lemma pop_rep:
  assumes r: "rep b A Fs" and T: "tiles (num_trees b) T" "free_blocks Fs \<subseteq> T"
    and Fi: "Fs i = a # as" and i: "i < 9"
  shows "\<exists>b'. pop b (int i) = Inr (addr b (i, a), b') \<and> rep b' A (Fs(i := as)) \<and> same_pool b b'"
proof -
  note ok = rep_pool [OF r]
  define p where "p = addr b (i, a)"
  define n where "n = snd (nodes b p)"
  define h where "h = (if n \<noteq> 0 then (nodes b)(n := (0, snd (nodes b n))) else nodes b)"
  have inT: "(j, c) \<in> T" if "j < 9" "c \<in> set (Fs j)" for j c
    using that T(2) by (auto simp: free_blocks_def)
  have p: "p \<noteq> 0" using addr_nonzero [OF ok] tiles_valid [OF T(1) inT [OF i]] Fi by (simp add: p_def)
  have len: "length (lists b) = 9" using ok by (simp add: pool_ok_def)
  have l: "dll (nodes b) p (map (\<lambda>a. addr b (i, a)) (a # as))" and d: "distinct (a # as)"
    using r i Fi rep_head(2) [OF r i Fi] by (auto simp: rep_def list_addrs_def p_def)
  have dm: "distinct (map (\<lambda>a. addr b (i, a)) (a # as))"
    using inT [OF i] Fi d by (intro distinct_addrs [OF ok T(1)]) auto
  have pop: "dll h n (map (\<lambda>a. addr b (i, a)) as)"
    using dll_pop [of "nodes b" p "addr b (i, a)"] l dm by (simp add: h_def n_def p_def)
  have "rep (b\<lparr>nodes := h, lists := (lists b)[i := n]\<rparr>) A (Fs(i := as))"
  proof (rule rep_update [OF r i pop])
    show "distinct as" using d by simp
    fix j c assume j: "j < 9" "j \<noteq> i" "c \<in> set (Fs j)"
    have inas: "(i, x) \<in> T" if "x \<in> set as" for x using inT [OF i] that Fi by simp
    have "addr b (j, c) \<noteq> n" if "n \<noteq> 0"
      using dll_head [OF pop] that addr_image [OF ok T(1) inas inT [OF j(1,3)]] j(2) by metis
    then show "h (addr b (j, c)) = nodes b (addr b (j, c))" by (auto simp: h_def)
  qed
  moreover have "pop b (int i) = Inr (p, b\<lparr>nodes := h, lists := (lists b)[i := n]\<rparr>)"
    using p i len list_at_rep [OF r i] rep_head(2) [OF r i Fi]
    by (simp add: pop_def NUM_LISTS_def put_prev_def put_list_eq h_def n_def p_def node_at_def split_beta)
  ultimately show ?thesis by (auto simp: p_def same_pool_def)
qed

lemma remove_rep:
  assumes r: "rep b A Fs" and T: "tiles (num_trees b) T" "free_blocks Fs \<subseteq> T"
    and v: "valid (num_trees b) x" and s: "buddy_of x \<in> free_blocks Fs" and k: "fst x = i" "i < 8"
  shows "\<exists>b'. remove_sibling_from_list b (int i) (addr b x) = Inr b'
           \<and> rep b' A (Fs(i := remove1 (snd (buddy_of x)) (Fs i))) \<and> same_pool b b'"
proof -
  note ok = rep_pool [OF r]
  define c where "c = snd (buddy_of x)"
  define p where "p = addr b (i, c)"
  define q where "q = lists b ! i"
  have i: "i < 9" using k by simp
  have sib: "buddy_of x = (i, c)" using k by (simp add: c_def prod_eq_iff)
  have inT: "(j, a) \<in> T" if "j < 9" "a \<in> set (Fs j)" for j a
    using that T(2) by (auto simp: free_blocks_def)
  have cF: "c \<in> set (Fs i)" using s by (simp add: sib free_blocks_def)
  have p: "p \<noteq> 0" using addr_nonzero [OF ok] tiles_valid [OF T(1) inT [OF i cF]] by (simp add: p_def)
  have len: "length (lists b) = 9" using ok by (simp add: pool_ok_def)
  obtain ys zs where Fi: "Fs i = ys @ c # zs" using cF by (meson split_list)
  have d: "distinct (ys @ c # zs)" using rep_distinct [OF r i] Fi by simp
  let ?m = "map (\<lambda>a. addr b (i, a))"
  have l: "dll (nodes b) q (?m ys @ p # ?m zs)"
    using rep_dll [OF r i] Fi by (simp add: p_def q_def)
  have dm: "distinct (?m ys @ p # ?m zs)"
    using distinct_addrs [OF ok T(1) inT [OF i] rep_distinct [OF r i]] Fi by (simp add: p_def)
  define q' where "q' = (if fst (nodes b p) = 0 then snd (nodes b p) else q)"
  have "rep (b\<lparr>nodes := unlink (nodes b) p, lists := (lists b)[i := q']\<rparr>) A (Fs(i := ys @ zs))"
  proof (rule rep_update [OF r i])
    show "dll (unlink (nodes b) p) q' (?m (ys @ zs))" using dll_unlink [OF l dm] by (simp add: q'_def)
    show "distinct (ys @ zs)" using d by simp
    fix j a assume j: "j < 9" "j \<noteq> i" "a \<in> set (Fs j)"
    have "addr b (j, a) \<notin> set (?m (Fs i))" using addr_image [OF ok T(1) inT [OF i] inT [OF j(1,3)]] j(2) by simp
    then show "unlink (nodes b) p (addr b (j, a)) = nodes b (addr b (j, a))"
      using Fi by (intro unlink_frame [OF l]) simp
  qed
  moreover have "remove1 c (Fs i) = ys @ zs" using Fi d by (simp add: remove1_append)
  moreover have "remove_sibling_from_list b (int i) (addr b x)
      = Inr (b\<lparr>nodes := unlink (nodes b) p, lists := (lists b)[i := q']\<rparr>)"
  proof -
    have "nat (int i + 4) = i + 4" by simp
    then have sibling: "sibling_of (addr b x) (ucast (push_bit (nat (int i + 4)) (1 :: u32))) = Inr p"
      using sibling_of_addr [OF ok v] k block_len_cast [of i] sib by (simp add: p_def)
    show ?thesis
      unfolding remove_sibling_from_list_def Let_def sibling
      using p i len
      by (cases "fst (nodes b p) = 0"; cases "snd (nodes b p) = 0")
         (simp_all add: node_at_def put_prev_def put_next_def put_list_eq unlink_def q'_def q_def Let_def split_beta)
  qed
  ultimately show ?thesis by (auto simp: c_def same_pool_def)
qed

subsection \<open>The splitting loop\<close>

definition holding :: "buddy \<Rightarrow> block set \<Rightarrow> (nat \<Rightarrow> nat list) \<Rightarrow> block \<Rightarrow> bool" where
  "holding b A Fs x \<longleftrightarrow> rep b A Fs \<and> holds (num_trees b) A (free_blocks Fs) x"

definition resting :: "buddy \<Rightarrow> block set \<Rightarrow> (nat \<Rightarrow> nat list) \<Rightarrow> bool" where
  "resting b A Fs \<longleftrightarrow> rep b A Fs \<and> settled (num_trees b) A (free_blocks Fs)"

lemma split_loop_rep:
  assumes "holding b A Fs (j, c)" "i \<le> j"
  shows "\<exists>b' Fs'. split_loop i j (addr b (j, c)) b = Inr b' \<and> holding b' A Fs' (i, c * 2 ^ (j - i))
           \<and> addr b (i, c * 2 ^ (j - i)) = addr b (j, c) \<and> same_pool b b'"
  using assms
proof (induction j arbitrary: b Fs c)
  case 0
  then show ?case by (auto simp: split_loop.simps [of 0 0])
next
  case (Suc j)
  show ?case
  proof (cases "i = Suc j")
    case True
    with Suc.prems show ?thesis by (auto simp: split_loop.simps [of _ "Suc j"])
  next
    case False
    define x where "x = (j, 2 * c)"
    have r: "rep b A Fs" and H: "holds (num_trees b) A (free_blocks Fs) (parent x)"
      using Suc.prems(1) by (auto simp: holding_def parent_def x_def)
    note ok = rep_pool [OF r]
    have j: "j < 8" using held_valid [OF H] by (simp add: valid_def parent_def x_def)
    have vx: "valid (num_trees b) x"
    proof -
      have "8 - j = Suc (8 - Suc j)" using j by simp
      with held_valid [OF H] j show ?thesis by (auto simp: valid_def parent_def x_def)
    qed
    have H': "holds (num_trees b) A (insert (buddy_of x) (free_blocks Fs)) x" "buddy_of x \<notin> free_blocks Fs"
      using split_held [OF H vx] j by (auto simp: x_def)
    define s where "s = snd (buddy_of x)"
    have sib: "buddy_of x = (j, s)" by (simp add: s_def x_def buddy_of_def)
    obtain b1 where b1: "append b (int j) (addr b (j, s)) = Inr b1" "rep b1 A (Fs(j := s # Fs j))" "same_pool b b1"
      using append_rep [OF r, of "insert x (A \<union> insert (buddy_of x) (free_blocks Fs))" j s] H' j
      by (auto simp: holds_def sib)
    have "num_trees b1 = num_trees b" using b1(3) by (simp add: same_pool_def)
    moreover have "holds (num_trees b) A (insert (j, s) (free_blocks Fs)) (j, 2 * c)"
      using H'(1) unfolding sib unfolding x_def .
    ultimately have "holding b1 A (Fs(j := s # Fs j)) (j, 2 * c)"
      using b1(2) j by (simp add: holding_def free_blocks_cons)
    from Suc.IH [OF this] False Suc.prems(2) obtain b' Fs' where b':
      "split_loop i j (addr b1 (j, 2 * c)) b1 = Inr b'" "holding b' A Fs' (i, 2 * c * 2 ^ (j - i))"
      "addr b1 (i, 2 * c * 2 ^ (j - i)) = addr b1 (j, 2 * c)" "same_pool b1 b'" by auto
    have same: "addr b (j, 2 * c) = addr b (Suc j, c)" by (simp add: addr_def start_def)
    have "sibling_of (addr b (Suc j, c)) (ucast (push_bit (Suc j - 1 + 4) (1 :: u32))) = Inr (addr b (j, s))"
      using sibling_of_addr [OF ok vx] j block_len_cast [of j] sib same by (simp add: x_def)
    then have "split_loop i (Suc j) (addr b (Suc j, c)) b = Inr b'"
      using b'(1) b1 False Suc.prems(2) same same_pool_addr [OF b1(3)]
      by (subst split_loop.simps) simp
    moreover have pow: "c * 2 ^ (Suc j - i) = 2 * c * 2 ^ (j - i)"
      using False Suc.prems(2) by (simp add: Suc_diff_le)
    moreover have "addr b (i, 2 * c * 2 ^ (j - i)) = addr b (Suc j, c)"
      using b'(3) same same_pool_addr [OF b1(3)] by simp
    ultimately show ?thesis
      unfolding pow using b'(2) same_pool_trans [OF b1(3) b'(4)] by blast
  qed
qed

subsection \<open>The merging loop\<close>

lemma sibling_allocated_rep:
  assumes r: "rep b A Fs" and v: "valid (num_trees b) x" "fst x < 8" and A: "\<And>y. y \<in> A \<Longrightarrow> valid (num_trees b) y"
  shows "sibling_allocated_considering_splits b (addr b x) (2 ^ (fst x + 4))
           = Inr (\<exists>y\<in>A. units y \<subseteq> units (buddy_of x))"
proof -
  note ok = rep_pool [OF r]
  have "(\<exists>y. valid (num_trees b) y \<and> units y \<subseteq> units (buddy_of x) \<and> tree_bit b y)
      = (\<exists>y\<in>A. units y \<subseteq> units (buddy_of x))"
    using r A unfolding rep_def by blast
  with splits_addr [OF ok valid_buddy [OF v]] show ?thesis
    by (simp add: sibling_allocated_considering_splits_def sibling_of_addr [OF ok v])
qed

lemma block_len_max: "k < 8 \<Longrightarrow> (2 ^ (k + 4) :: u64) \<noteq> 4096"
proof
  assume k: "k < 8" and eq: "(2 ^ (k + 4) :: u64) = 4096"
  have "unat (2 ^ (k + 4) :: u64) = 2 ^ (k + 4)" using k by (intro unat_pow2) simp
  with eq have "(2 :: nat) ^ (k + 4) = 4096" by simp
  moreover have "(2 :: nat) ^ (k + 4) < 2 ^ 12" using k by (intro power_strict_increasing) auto
  ultimately show False by simp
qed

lemma free_loop_rep:
  assumes "holding b A Fs x"
  shows "\<exists>b' Fs'. free_loop b (addr b x) (2 ^ (fst x + 4)) = Inr b' \<and> resting b' A Fs' \<and> same_pool b b'"
  using assms
proof (induction "8 - fst x" arbitrary: b Fs x)
  case 0
  have r: "rep b A Fs" and H: "holds (num_trees b) A (free_blocks Fs) x" using "0.prems" by (auto simp: holding_def)
  have k: "fst x = 8" using held_valid [OF H] 0 by (simp add: valid_def)
  then have x: "x = (8, snd x)" by (simp add: prod_eq_iff)
  obtain b' where b': "append b (int 8) (addr b x) = Inr b'" "rep b' A (Fs(8 := snd x # Fs 8))" "same_pool b b'"
    using append_rep [OF r, of "insert x (A \<union> free_blocks Fs)" 8 "snd x"] H x by (auto simp: holds_def)
  have "settled (num_trees b') A (free_blocks (Fs(8 := snd x # Fs 8)))"
    using put_free_page [OF H k] x b'(3) by (simp add: free_blocks_cons same_pool_def)
  moreover have "free_loop b (addr b x) (2 ^ (fst x + 4)) = Inr b'"
    using b'(1) list_index_pow2 [of 8] k by (simp add: free_loop.simps)
  ultimately show ?case using b' by (auto simp: resting_def)
next
  case (Suc m)
  have r: "rep b A Fs" and H: "holds (num_trees b) A (free_blocks Fs) x" using Suc.prems by (auto simp: holding_def)
  have v: "valid (num_trees b) x" using H by (rule held_valid)
  have k: "fst x < 8" using Suc.hyps(2) by simp
  define i where "i = fst x"
  have x: "x = (i, snd x)" by (simp add: i_def)
  have T: "tiles (num_trees b) (insert x (A \<union> free_blocks Fs))" using H by (simp add: holds_def)
  have A: "y \<in> A \<Longrightarrow> valid (num_trees b) y" for y using tiles_valid [OF T] by blast
  have sa: "sibling_allocated_considering_splits b (addr b x) (2 ^ (i + 4)) = Inr (\<exists>y\<in>A. units y \<subseteq> units (buddy_of x))"
    using sibling_allocated_rep [OF r v k A] by (simp add: i_def)
  have idx: "list_index_for_size (2 ^ (i + 4)) = Inr (int i)" using k by (intro list_index_pow2) (simp add: i_def)
  have max: "(2 ^ (i + 4) :: u64) \<noteq> 4096" using block_len_max k by (simp add: i_def)
  show ?case
  proof (cases "\<exists>y\<in>A. units y \<subseteq> units (buddy_of x)")
    case True
    obtain b' where b': "append b (int i) (addr b x) = Inr b'" "rep b' A (Fs(i := snd x # Fs i))" "same_pool b b'"
      using append_rep [OF r T, of i "snd x"] H x k by (auto simp: holds_def i_def)
    have "buddy_of x \<notin> free_blocks Fs"
      using True H buddy_not_free [OF T] by (auto simp: holds_def)
    then have "settled (num_trees b') A (free_blocks (Fs(i := snd x # Fs i)))"
      using put_free [OF H k] k b'(3) by (simp add: free_blocks_cons same_pool_def i_def)
    moreover have "free_loop b (addr b x) (2 ^ (i + 4)) = Inr b'"
      using b'(1) True by (subst free_loop.simps) (simp add: idx max sa)
    ultimately show ?thesis using b' by (auto simp: resting_def i_def)
  next
    case False
    have sF: "buddy_of x \<in> free_blocks Fs"
      by (rule buddy_is_free [OF T]) (use H False k in \<open>auto simp: holds_def\<close>)
    define G where "G = Fs(i := remove1 (snd (buddy_of x)) (Fs i))"
    obtain b1 where b1: "remove_sibling_from_list b (int i) (addr b x) = Inr b1" "rep b1 A G" "same_pool b b1"
      using remove_rep [OF r T _ v sF] k by (auto simp: G_def i_def)
    have "free_blocks G = free_blocks Fs - {buddy_of x}"
      using free_blocks_remove [of Fs i "snd (buddy_of x)"] rep_distinct [OF r, of i] k by (simp add: G_def i_def buddy_of_def)
    then have "holding b1 A G (parent x)"
      using merge_held [OF H sF k] b1 by (simp add: holding_def same_pool_def)
    moreover have "m = 8 - fst (parent x)" using Suc.hyps(2) by (simp add: parent_def)
    ultimately obtain b' Fs' where b': "free_loop b1 (addr b1 (parent x)) (2 ^ (fst (parent x) + 4)) = Inr b'"
        "resting b' A Fs'" "same_pool b1 b'"
      using Suc.hyps(1) [of "parent x" b1 G] by blast
    have head: "lists b ! i \<noteq> 0"
      using rep_head(1) [OF r, of i] sF k by (auto simp: free_blocks_def i_def buddy_of_def)
    have at: "list_at b (int i) = Inr (lists b ! i)" using list_at_rep [OF r] k by (simp add: i_def)
    have par: "parent_of (addr b x) (2 ^ (i + 4)) = Inr (addr b1 (parent x))"
      using parent_of_addr [OF rep_pool [OF r] v k] same_pool_addr [OF b1(3)] by (simp add: i_def)
    have dbl: "push_bit 1 (2 ^ (i + 4)) = (2 ^ (fst (parent x) + 4) :: u64)"
      using double_len [of i] by (simp add: parent_def i_def)
    have no: "(\<exists>y\<in>A. units y \<subseteq> units (buddy_of x)) = False" using False by simp
    have "free_loop b (addr b x) (2 ^ (i + 4)) = Inr b'"
      using head by (subst free_loop.simps)
        (simp only: idx sa no max at par dbl b1(1) b'(1) rbind_Inr if_False simp_thms c_assert_True)
    with b' same_pool_trans [OF b1(3) b'(3)] show ?thesis by (auto simp: i_def)
  qed
qed

end
