(* ===== verification/BuddyCalls.thy ===== *)
theory BuddyCalls
  imports BuddySteps
begin

section \<open>The buddy allocator: allocation and release\<close>

text \<open>
  \<^verbatim>\<open>buddy_malloc\<close> and \<^verbatim>\<open>buddy_free\<close> as a whole, on a state at rest: the pool is tiled by allocated
  and free blocks, the marks say which blocks are allocated and the lists hold the free ones.
\<close>

lemma restingD:
  assumes "resting b A Fs"
  shows "rep b A Fs" "settled (num_trees b) A (free_blocks Fs)" "pool_ok b"
    "tiles (num_trees b) (A \<union> free_blocks Fs)"
    "x \<in> A \<Longrightarrow> valid (num_trees b) x"
  using assms tiles_valid [of "num_trees b" "A \<union> free_blocks Fs" x]
  by (auto simp: resting_def rep_def settled_def)

lemma rep_bit: "rep b A Fs \<Longrightarrow> valid (num_trees b) x \<Longrightarrow> tree_bit b x \<longleftrightarrow> x \<in> A"
  by (cases x) (simp add: rep_def)

lemma mark_rep:
  assumes r: "rep b A Fs" and v: "valid (num_trees b) x"
  shows "\<exists>b'. set_allocated b (addr b x) (2 ^ (fst x + 4)) val = Inr b'
           \<and> rep b' (if val then insert x A else A - {x}) Fs \<and> same_pool b b'"
proof -
  obtain ts where ts: "set_allocated b (addr b x) (2 ^ (fst x + 4)) val = Inr (b\<lparr>trees := ts\<rparr>)"
    "pool_ok (b\<lparr>trees := ts\<rparr>)"
    "\<And>y. valid (num_trees b) y \<Longrightarrow> tree_bit (b\<lparr>trees := ts\<rparr>) y = (if y = x then val else tree_bit b y)"
    using set_allocated_addr [OF rep_pool [OF r] v] by blast
  have "list_addrs (b\<lparr>trees := ts\<rparr>) Fs i = list_addrs b Fs i" for i
    by (simp add: list_addrs_def addr_def)
  with ts r have "rep (b\<lparr>trees := ts\<rparr>) (if val then insert x A else A - {x}) Fs"
    by (auto simp: rep_def)
  with ts(1) show ?thesis by (auto simp: same_pool_def)
qed

text \<open>The scan for a list with a block in it.\<close>

lemma scan_lists:
  assumes r: "rep b A Fs" and i: "i < 9"
  defines "j \<equiv> skip_while (\<lambda>p. p = 0) (lists b) i"
  shows "i \<le> j" "j < 9 \<Longrightarrow> \<exists>a as. Fs j = a # as"
    "j = 9 \<or> j < 9" "j = 9 \<longleftrightarrow> (\<forall>x\<in>free_blocks Fs. fst x < i)"
proof -
  have len: "length (lists b) = 9" using rep_pool [OF r] by (simp add: pool_ok_def)
  show ij: "i \<le> j" by (simp add: j_def)
  have le: "j \<le> 9" using skip_while_le [of i "lists b"] i len by (simp add: j_def)
  then show "j = 9 \<or> j < 9" by auto
  show ne: "\<exists>a as. Fs j = a # as" if j: "j < 9"
  proof -
    have "lists b ! j \<noteq> 0" using skip_while_stop [of "\<lambda>p. p = 0" "lists b" i] j len by (simp add: j_def)
    then show ?thesis using rep_head(1) [OF r j] by (auto simp: neq_Nil_conv)
  qed
  show "j = 9 \<longleftrightarrow> (\<forall>x\<in>free_blocks Fs. fst x < i)"
  proof
    assume j: "j = 9"
    have "Fs m = []" if "i \<le> m" "m < 9" for m
      using skip_while_all [of i m "\<lambda>p. p = 0" "lists b"] that j rep_head(1) [OF r that(2)] by (simp add: j_def)
    then show "\<forall>x\<in>free_blocks Fs. fst x < i" by (force simp: free_blocks_def not_le [symmetric])
  next
    assume no: "\<forall>x\<in>free_blocks Fs. fst x < i"
    show "j = 9"
    proof (rule ccontr)
      assume "j \<noteq> 9"
      with le have "j < 9" by simp
      with ne obtain a where "(j, a) \<in> free_blocks Fs" by (force simp: free_blocks_def)
      with no ij show False by force
    qed
  qed
qed

text \<open>Allocation: a request that some free block can serve gets a block of its level that was
  free before; any other request gets NULL and changes nothing.\<close>

lemma malloc_null:
  assumes "resting b A Fs" "len = 0 \<or> 4096 < len \<or> (\<forall>x\<in>free_blocks Fs. fst x < level len)"
  shows "malloc_block b len = Inr (0, b)"
proof (cases "len = 0 \<or> 4096 < len")
  case True
  then show ?thesis by (auto simp: malloc_block_def)
next
  case False
  then have len: "len \<noteq> 0" "len \<le> 4096" by (auto simp: not_less)
  note nl = normalize_len_level [OF len]
  have "skip_while (\<lambda>p. p = 0) (lists b) (level len) = 9"
    using scan_lists(4) [OF restingD(1) [OF assms(1)], of "level len"] assms(2) False nl(2) by simp
  moreover have "(16 :: u64) \<le> 2 ^ (level len + 4)"
  proof -
    have "unat (2 ^ (level len + 4) :: u64) = 2 ^ (level len + 4)" using nl(2) by (intro unat_pow2) simp
    then show ?thesis by (simp add: word_le_nat_alt power_add)
  qed
  ultimately show ?thesis
    using False nl list_index_pow2 [OF nl(2)] by (simp add: malloc_block_def NUM_LISTS_def)
qed

lemma malloc_some:
  assumes b: "resting b A Fs" and len: "len \<noteq> 0" "len \<le> 4096"
    and x: "x \<in> free_blocks Fs" "level len \<le> fst x"
  shows "\<exists>y b' Fs'. malloc_block b len = Inr (addr b y, b') \<and> resting b' (insert y A) Fs' \<and> same_pool b b'
           \<and> fst y = level len \<and> y \<notin> A \<and> valid (num_trees b) y"
proof -
  note nl = normalize_len_level [OF len]
  note r = restingD(1) [OF b]
  define i where "i = level len"
  define j where "j = skip_while (\<lambda>p. p = 0) (lists b) i"
  have i: "i < 9" using nl by (simp add: i_def)
  have ij: "i \<le> j" and j: "j < 9" "j \<noteq> 9"
    using scan_lists [OF r i] x by (auto simp: j_def i_def not_less)
  then obtain a as where Fj: "Fs j = a # as" using scan_lists(2) [OF r i] by (auto simp: j_def)
  then have inF: "(j, a) \<in> free_blocks Fs" using j by (simp add: free_blocks_def)
  obtain b1 where b1: "pop b (int j) = Inr (addr b (j, a), b1)" "rep b1 A (Fs(j := as))" "same_pool b b1"
    using pop_rep [OF r restingD(4) [OF b] _ Fj j(1)] by auto
  have "holding b1 A (Fs(j := as)) (j, a)"
    using b1 take_free [OF restingD(2) [OF b] inF] free_blocks_tail [of Fs j a as] Fj rep_distinct [OF r j(1)] j(1)
    by (simp add: holding_def same_pool_def)
  from split_loop_rep [OF this ij] obtain b2 Fs' where b2:
    "split_loop i j (addr b1 (j, a)) b1 = Inr b2" "holding b2 A Fs' (i, a * 2 ^ (j - i))"
    "addr b1 (i, a * 2 ^ (j - i)) = addr b1 (j, a)" "same_pool b1 b2" by blast
  define y where "y = (i, a * 2 ^ (j - i))"
  have H: "holds (num_trees b2) A (free_blocks Fs') y" "rep b2 A Fs'" using b2(2) by (auto simp: holding_def y_def)
  note sp = same_pool_trans [OF b1(3) b2(4)]
  have ay: "addr b (j, a) = addr b2 y" "addr b (j, a) = addr b y"
    using b2(3) same_pool_addr [OF sp] same_pool_addr [OF b1(3)] by (auto simp: y_def)
  obtain b' where b': "set_allocated b2 (addr b2 y) (2 ^ (fst y + 4)) True = Inr b'" "rep b' (insert y A) Fs'" "same_pool b2 b'"
    using mark_rep [OF H(2) held_valid [OF H(1)], of True] by auto
  have "resting b' (insert y A) Fs'"
    using b' mark_allocated [OF H(1)] by (simp add: resting_def same_pool_def)
  moreover have "malloc_block b len = Inr (addr b y, b')"
  proof -
    have "unat (2 ^ (i + 4) :: u64) = 2 ^ (i + 4)" using i by (intro unat_pow2) simp
    then have "(16 :: u64) \<le> 2 ^ (i + 4)" by (simp add: word_le_nat_alt power_add)
    moreover have "split_loop i j (addr b (j, a)) b1 = Inr b2"
      using b2(1) same_pool_addr [OF b1(3)] by simp
    moreover have "set_allocated b2 (addr b (j, a)) (2 ^ (i + 4)) True = Inr b'"
      using b'(1) ay by (simp add: y_def)
    moreover have "list_index_for_size (2 ^ (i + 4)) = Inr (int i)" using i by (intro list_index_pow2) simp
    moreover have "normalize_len len = 2 ^ (i + 4)" using nl(1) by (simp add: i_def)
    moreover have "\<not> 4096 < len" using len(2) by (simp only: not_less)
    ultimately show ?thesis
      unfolding malloc_block_def Let_def using len(1) i j b1(1) ay(2)
      by (simp add: NUM_LISTS_def j_def [symmetric])
  qed
  moreover have "same_pool b b'" using same_pool_trans [OF sp b'(3)] .
  moreover have "y \<notin> A" "valid (num_trees b) y"
    using H(1) held_valid [OF H(1)] sp by (auto simp: holds_def same_pool_def)
  ultimately show ?thesis by (auto simp: y_def i_def)
qed

text \<open>Release of an allocated block, and of a block that is not allocated.\<close>

lemma free_some:
  assumes b: "resting b A Fs" and len: "len \<noteq> 0" "len \<le> 4096" and x: "x \<in> A" "fst x = level len"
  shows "\<exists>b' Fs'. free_block b len (addr b x) = Inr b' \<and> resting b' (A - {x}) Fs' \<and> same_pool b b'"
proof -
  note nl = normalize_len_level [OF len]
  note r = restingD(1) [OF b]
  have v: "valid (num_trees b) x" using restingD(5) [OF b x(1)] .
  obtain b1 where b1: "set_allocated b (addr b x) (2 ^ (fst x + 4)) False = Inr b1" "rep b1 (A - {x}) Fs" "same_pool b b1"
    using mark_rep [OF r v, of False] by auto
  have "holding b1 (A - {x}) Fs x"
    using b1 release [OF restingD(2) [OF b] x(1)] by (simp add: holding_def same_pool_def)
  from free_loop_rep [OF this] obtain b' Fs' where b':
    "free_loop b1 (addr b1 x) (2 ^ (fst x + 4)) = Inr b'" "resting b' (A - {x}) Fs'" "same_pool b1 b'" by blast
  have "tree_bit b x" using rep_bit [OF r v] x by simp
  moreover have "addr b1 x = addr b x" using same_pool_addr [OF b1(3)] .
  ultimately have "free_block b len (addr b x) = Inr b'"
    unfolding free_block_def Let_def
    using len addr_nonzero [OF restingD(3) [OF b] v] is_allocated_addr [OF restingD(3) [OF b] v] b1(1) b'(1) nl x(2)
    by (simp add: not_less)
  with b' same_pool_trans [OF b1(3) b'(3)] show ?thesis by blast
qed

lemma free_none:
  assumes b: "resting b A Fs" and len: "len \<noteq> 0" "len \<le> 4096" and x: "x \<notin> A" "fst x = level len" "valid (num_trees b) x"
  shows "free_block b len (addr b x) = Inr b"
proof -
  have "\<not> tree_bit b x" using rep_bit [OF restingD(1) [OF b] x(3)] x by simp
  then show ?thesis
    using len is_allocated_addr [OF restingD(3) [OF b] x(3)] normalize_len_level [OF len] x(2)
    by (simp add: free_block_def not_less)
qed

end
