(* ===== verification/BuddyStartup.thy ===== *)
theory BuddyStartup
  imports BuddyCalls
begin

section \<open>The buddy allocator: start-up\<close>

text \<open>
  How \<^verbatim>\<open>buddy_startup\<close> lays the pool out: the handle, then the bit trees, then the pages, all
  inside the region it is given. The state it returns is at rest, with every page free.
\<close>

subsection \<open>Alignment\<close>

lemma pad_aligns:
  assumes "k \<le> 64"
  shows "(p + pad_of p (mask k)) AND mask k = 0"
  unfolding pad_of_def using assms by (rule pad_mask_aligns)

lemma unat_pad:
  assumes "unat p + unat (pad_of p (mask k)) < 2 ^ 64" "k \<le> 64"
  shows "unat (p + pad_of p (mask k)) = unat p + unat (pad_of p (mask k))"
    "(unat p + unat (pad_of p (mask k))) mod 2 ^ k = 0"
proof -
  show 1: "unat (p + pad_of p (mask k)) = unat p + unat (pad_of p (mask k))"
    using assms by (simp add: unat_word_ariths)
  show "(unat p + unat (pad_of p (mask k))) mod 2 ^ k = 0"
    using pad_aligns [OF assms(2), of p] unat_and_mask [of "p + pad_of p (mask k)" k] unfolding 1 by simp
qed

lemma mask_12: "(4095 :: u64) = mask 12"
  by (simp add: mask_eq_exp_minus_1)

lemmas unat_pad_page = unat_pad [where k = 12, folded mask_12]

subsection \<open>The sizing loop\<close>

lemma sint_le_unat: "sint (ucast x :: u32) \<le> int (unat (x :: u64))"
proof -
  have "sint (ucast x :: u32) = signed_take_bit 31 (uint (ucast x :: u32))"
    by (simp add: sint_uint)
  also have "\<dots> \<le> uint (ucast x :: u32)"
    by (simp only: signed_take_bit_int_less_eq_self_iff) (simp add: order_trans [OF _ unsigned_greater_eq])
  also have "\<dots> \<le> uint x"
    by (simp add: unsigned_ucast_eq take_bit_int_less_eq_self_iff)
  finally show ?thesis by simp
qed

lemma trees_fit_layout:
  assumes "trees_fit bs sz n" "unat bs + unat sz < 2 ^ 64" "n < 2 ^ 31"
  defines "p \<equiv> bs + of_nat (n * 64)"
  shows "unat p = unat bs + n * 64"
    "unat p + unat (pad_of p 4095) + n * 4096 \<le> unat bs + unat sz"
    "pad_of p 4095 \<le> sz - of_nat (n * 64)"
proof -
  have n: "unat (of_nat (n * 64) :: u64) = n * 64" using assms(3) by (intro unat_of_nat_small) simp
  have reg: "(of_nat n * 64 :: u64) = of_nat (n * 64)" by simp
  have le: "of_nat (n * 64) \<le> sz" and pad: "pad_of p 4095 \<le> sz - of_nat (n * 64)"
    and cnt: "int n \<le> sint (ucast (drop_bit 12 (sz - of_nat (n * 64) - pad_of p 4095)) :: u32)"
    using assms(1) unfolding trees_fit_def Let_def p_def reg by (auto split: if_splits simp: not_less)
  show "pad_of p 4095 \<le> sz - of_nat (n * 64)" by fact
  have le': "n * 64 \<le> unat sz" using le n by (simp add: word_le_nat_alt)
  have l: "unat (sz - of_nat (n * 64)) = unat sz - n * 64" using le n by (simp add: unat_sub)
  show p: "unat p = unat bs + n * 64"
    using assms(2) le' n by (simp add: p_def unat_word_ariths)
  have pad': "unat (pad_of p 4095) \<le> unat sz - n * 64" using pad l by (simp add: word_le_nat_alt)
  have "int n \<le> int (unat (drop_bit 12 (sz - of_nat (n * 64) - pad_of p 4095)))"
    using cnt sint_le_unat order_trans by blast
  also have "\<dots> = int ((unat sz - n * 64 - unat (pad_of p 4095)) div 4096)"
    using pad l by (simp add: unat_shift_right unat_sub del: of_nat_diff)
  finally have "n * 4096 \<le> unat sz - n * 64 - unat (pad_of p 4095)"
    by (simp add: less_eq_div_iff_mult_less_eq)
  with le' pad' p show "unat p + unat (pad_of p 4095) + n * 4096 \<le> unat bs + unat sz" by linarith
qed

lemma count_trees_result:
  "count_trees bs sz m = Inr n \<Longrightarrow> m \<le> n \<and> (n = m \<or> (trees_fit bs sz n \<and> n < 2 ^ 31)) \<and> \<not> trees_fit bs sz (n + 1)"
proof (induction bs sz m rule: count_trees.induct)
  case (1 bs sz m)
  show ?case
  proof (cases "2 ^ 31 \<le> m + 1 \<or> \<not> trees_fit bs sz (m + 1)")
    case True
    with "1.prems" show ?thesis by (auto simp: count_trees.simps [of bs sz m] split: if_splits)
  next
    case False
    then have "count_trees bs sz (m + 1) = Inr n"
      using "1.prems" by (simp add: count_trees.simps [of bs sz m])
    with "1.IH" False show ?thesis by (cases "n = m + 1") auto
  qed
qed

subsection \<open>Linking the pages\<close>

definition page_addr :: "u64 \<Rightarrow> nat \<Rightarrow> u64" where
  "page_addr bs i = bs + of_nat (i * 4096)"

lemma page_addr_inject:
  assumes "unat bs + n * 4096 < 2 ^ 64" "0 < unat bs" "i < n" "j < n"
  shows "page_addr bs i = page_addr bs j \<longleftrightarrow> i = j" "page_addr bs i \<noteq> 0"
proof -
  have u: "unat (page_addr bs k) = unat bs + k * 4096" if "k < n" for k
  proof -
    have "k * 4096 < n * 4096" using that by simp
    with assms(1) have "unat bs + k * 4096 < 2 ^ 64" "k * 4096 < 2 ^ 64" by linarith+
    moreover from this(2) have "unat (of_nat (k * 4096) :: u64) = k * 4096" by (intro unat_of_nat_small) simp
    ultimately show ?thesis by (simp add: page_addr_def unat_word_ariths del: of_nat_mult)
  qed
  show "page_addr bs i = page_addr bs j \<longleftrightarrow> i = j" 
    using u [OF assms(3)] u [OF assms(4)] by (metis add_left_cancel mult_cancel2 zero_neq_numeral)
  show "page_addr bs i \<noteq> 0"
  proof
    assume "page_addr bs i = 0"
    with u [OF assms(3)] assms(2) show False by simp
  qed
qed

lemma link_pages_dll:
  assumes "n * 4096 < 2 ^ 31" "unat bs + n * 4096 < 2 ^ 64" "0 < unat bs" "i \<le> n"
    and "dll mem head (map (page_addr bs) [0..<i])" "0 < i \<Longrightarrow> tail = page_addr bs (i - 1)"
  shows "\<exists>head' mem'. link_pages bs n i head tail mem = Inr (head', mem')
           \<and> dll mem' head' (map (page_addr bs) [0..<n])"
  using assms(4-6)
proof (induction "n - i" arbitrary: i head tail mem)
  case 0
  then show ?case by (auto simp: link_pages.simps [of bs i i])
next
  case (Suc m)
  define p where "p = page_addr bs i"
  have i: "i < n" using Suc.hyps(2) by simp
  then have "i * 4096 < n * 4096" by simp
  then have "i * 2 ^ 12 < 2 ^ 31" using assms(1) by simp
  then have ptr: "page_index_to_ptr bs i = Inr p"
    by (simp add: page_index_to_ptr_def shl_int_def p_def page_addr_def)
  note inj = page_addr_inject [OF assms(2,3)]
  have p: "p \<noteq> 0" "p \<notin> set (map (page_addr bs) [0..<i])"
    using inj(2) [OF i i] inj(1) [OF _ i] i by (auto simp: p_def dest: sym)
  have hd: "head \<noteq> 0 \<longleftrightarrow> 0 < i" using dll_head [OF Suc.prems(2)] by auto
  define mem1 where "mem1 = (if head \<noteq> 0 then mem(tail := (fst (mem tail), p)) else mem)
                              (p := (if head \<noteq> 0 then tail else 0, 0))"
  have "dll mem1 (if head \<noteq> 0 then head else p) (map (page_addr bs) [0..<i + 1])"
  proof (cases "0 < i")
    case False
    then show ?thesis using p hd by (simp add: mem1_def dll_def p_def)
  next
    case True
    have split: "map (page_addr bs) [0..<i] = map (page_addr bs) [0..<i - 1] @ [tail]"
      using Suc.prems(3) [OF True] True by (cases i) auto
    have "distinct (map (page_addr bs) [0..<i])"
      using inj(1) i by (auto simp: distinct_map inj_on_def)
    then show ?thesis
      using dll_snoc [of mem head "map (page_addr bs) [0..<i - 1]" tail p] Suc.prems(2) p True hd
      unfolding split by (simp add: mem1_def flip: split append_assoc) (simp add: split p_def)
  qed
  moreover have "m = n - (i + 1)" "i + 1 \<le> n" using Suc.hyps(2) i by auto
  ultimately obtain head' mem' where
    "link_pages bs n (i + 1) (if head \<noteq> 0 then head else p) p mem1 = Inr (head', mem')"
    "dll mem' head' (map (page_addr bs) [0..<n])"
    using Suc.hyps(1) [of "i + 1" mem1 "if head \<noteq> 0 then head else p" p] by (auto simp: p_def)
  then show ?case
    using i ptr by (subst link_pages.simps) (simp add: mem1_def Let_def)
qed

subsection \<open>The state after start-up\<close>

lemma advance:
  assumes "x \<le> (sz :: u64)" "unat p + unat sz < 2 ^ 64"
  shows "unat (p + x) = unat p + unat x" "unat (p + x) + unat (sz - x) = unat p + unat sz"
proof -
  have x: "unat x \<le> unat sz" using assms(1) by (simp add: word_le_nat_alt)
  show 1: "unat (p + x) = unat p + unat x" using x assms(2) by (simp add: unat_word_ariths)
  show "unat (p + x) + unat (sz - x) = unat p + unat sz" using x 1 assms(1) by (simp add: unat_sub)
qed

definition pages_from :: "(u64 \<Rightarrow> u64 \<times> u64) \<Rightarrow> u64 \<Rightarrow> u64 \<Rightarrow> nat \<Rightarrow> buddy \<Rightarrow> bool" where
  "pages_from mem bs sz n b \<longleftrightarrow>
     (let p = bs + of_nat (n * 64); pad = pad_of p 4095 in
      pad \<le> sz - of_nat (n * 64) \<and> n * 4096 < 2 ^ 31
      \<and> (\<exists>head mem'. link_pages (p + pad) n 0 0 0 mem = Inr (head, mem')
           \<and> b = \<lparr>base = p + pad, pool_size = of_nat (n * 4096), lists = replicate 8 0 @ [head],
                  trees = replicate n (replicate 16 0), num_trees = n, nodes = mem'\<rparr>))"

lemma place_pages_some:
  "place_pages mem bs sz = Inr (Some b) \<longleftrightarrow> (\<exists>n. count_trees bs sz 0 = Inr n \<and> pages_from mem bs sz n b)"
  unfolding place_pages_def rbind_eq_Inr pages_from_def Let_def
  by (auto simp: rbind_eq_Inr not_less shl_int_def split: if_splits)

lemma startup_places:
  assumes "buddy_startup mem bs sz = Inr r" "unat bs + unat sz < 2 ^ 64" "r \<noteq> None"
  obtains bs' sz' where "unat bs' + unat sz' = unat bs + unat sz" "unat bs + 104 \<le> unat bs'"
    "place_pages mem bs' sz' = Inr r"
proof -
  define p1 where "p1 = pad_of bs 7"
  define b1 where "b1 = bs + p1"
  define s1 where "s1 = sz - p1"
  define b2 where "b2 = b1 + 104"
  define s2 where "s2 = s1 - 104"
  define p2 where "p2 = pad_of b2 3"
  note defs = p1_def b1_def s1_def b2_def s2_def p2_def
  have "p1 \<le> sz \<and> 104 \<le> s1 \<and> p2 \<le> s2 \<and> place_pages mem (b2 + p2) (s2 - p2) = Inr r"
    using assms(1,3) unfolding buddy_startup_def Let_def defs
    by (auto simp: rbind_eq_Inr not_less split: if_splits)
  then have ok: "p1 \<le> sz" "104 \<le> s1" "p2 \<le> s2" "place_pages mem (b2 + p2) (s2 - p2) = Inr r" by blast+
  have 1: "unat b1 = unat bs + unat p1" "unat b1 + unat s1 = unat bs + unat sz"
    using advance [OF ok(1) assms(2)] by (auto simp: b1_def s1_def)
  have 2: "unat b2 = unat b1 + 104" "unat b2 + unat s2 = unat bs + unat sz"
    using advance [OF ok(2), of b1] 1 assms(2) by (auto simp: b2_def s2_def)
  have 3: "unat (b2 + p2) = unat b2 + unat p2" "unat (b2 + p2) + unat (s2 - p2) = unat bs + unat sz"
    using advance [OF ok(3), of b2] 2 assms(2) by auto
  show thesis using that [OF 3(2) _ ok(4)] 1 2 3 by simp
qed

definition all_pages :: "nat \<Rightarrow> nat \<Rightarrow> nat list" where
  "all_pages n i = (if i = 8 then [0..<n] else [])"

lemma free_blocks_all: "free_blocks (all_pages n) = {x. fst x = 8 \<and> snd x < n}"
  by (auto simp: free_blocks_def all_pages_def)

lemma settled_all: "settled n {} {x. fst x = 8 \<and> snd x < n}"
proof -
  have "\<exists>!x. x \<in> {} \<union> {x. fst x = 8 \<and> snd x < n} \<and> u \<in> units x" if "u < n * 256" for u
  proof (rule ex1I [of _ "(8, u div 256)"])
    show "(8, u div 256) \<in> {} \<union> {x. fst x = 8 \<and> snd x < n} \<and> u \<in> units (8, u div 256)"
      using that by (simp add: units_def less_mult_imp_div_less)
  qed (auto simp: units_def)
  then show ?thesis
    by (simp add: settled_def tiles_def valid_def no_free_pair_def)
qed

lemma addr_page: "addr b (8, a) = page_addr (base b) a"
  by (simp add: addr_def start_def page_addr_def mult.commute)

lemma pages_layout:
  assumes cnt: "count_trees bs sz 0 = Inr n" and p: "pages_from mem bs sz n b"
    and reg: "unat bs + unat sz < 2 ^ 64" "0 < unat bs"
  shows "num_trees b = n" "unat bs + n * 64 \<le> unat (base b)"
    "unat (base b) + n * 4096 \<le> unat bs + unat sz" "resting b {} (all_pages n)"
proof -
  define q where "q = bs + of_nat (n * 64)"
  define pad where "pad = pad_of q 4095"
  obtain head mem' where b: "pad \<le> sz - of_nat (n * 64)" "n * 4096 < 2 ^ 31"
    "link_pages (q + pad) n 0 0 0 mem = Inr (head, mem')"
    "b = \<lparr>base = q + pad, pool_size = of_nat (n * 4096), lists = replicate 8 0 @ [head],
           trees = replicate n (replicate 16 0), num_trees = n, nodes = mem'\<rparr>"
    using p by (auto simp: pages_from_def Let_def q_def pad_def)
  have lay: "unat q = unat bs + n * 64" "unat q + unat pad + n * 4096 \<le> unat bs + unat sz"
  proof -
    have "n = 0 \<or> trees_fit bs sz n" using count_trees_result [OF cnt] by auto
    moreover have "unat q + unat pad \<le> unat bs + unat sz" if "n = 0"
      using that b(1) by (simp add: q_def word_le_nat_alt)
    moreover have "n < 2 ^ 31" using b(2) by simp
    ultimately show "unat q = unat bs + n * 64" "unat q + unat pad + n * 4096 \<le> unat bs + unat sz"
      using trees_fit_layout [of bs sz n] reg(1) by (auto simp: q_def pad_def)
  qed
  have small: "unat q + unat pad < 2 ^ 64" using lay reg by linarith
  have ub: "unat (base b) = unat q + unat pad" "unat (base b) mod 4096 = 0"
    using unat_pad_page [of q] small b(4) by (auto simp: pad_def)
  show n: "num_trees b = n" using b(4) by simp
  show "unat bs + n * 64 \<le> unat (base b)" "unat (base b) + n * 4096 \<le> unat bs + unat sz"
    using lay ub by auto
  have ok: "pool_ok b"
    using lay ub b reg by (auto simp: pool_ok_def simp del: of_nat_mult)
  have l: "dll mem' head (map (page_addr (base b)) [0..<n])"
    using link_pages_dll [of n "q + pad" 0 mem 0 0] b lay ub reg by (auto simp: dll_def)
  have "dll (nodes b) (lists b ! i) (list_addrs b (all_pages n) i)" if i: "i < 9" for i
  proof (cases "i = 8")
    case True
    have "list_addrs b (all_pages n) 8 = map (page_addr (base b)) [0..<n]"
      by (simp add: list_addrs_def all_pages_def addr_page)
    with True l b(4) show ?thesis by (simp add: nth_append)
  next
    case False
    then have "lists b ! i = 0" using i b(4) by (simp add: nth_append)
    with False show ?thesis by (simp add: list_addrs_def all_pages_def dll_def)
  qed
  moreover have "\<not> tree_bit b x" if "valid n x" for x
    using page_less [OF that] info_less [of x] that b(4) by (simp add: tree_bit_def valid_def)
  ultimately show "resting b {} (all_pages n)"
    using ok n settled_all [of n] by (auto simp: resting_def rep_def free_blocks_all all_pages_def)
qed

subsection \<open>The largest pool\<close>

lemma trees_fit_if:
  assumes "n * 4160 + 4096 \<le> unat sz" "unat sz < 2 ^ 43"
  shows "trees_fit bs sz n"
proof -
  define pad where "pad = pad_of (bs + of_nat (n * 64)) 4095"
  have n: "unat (of_nat (n * 64) :: u64) = n * 64" using assms by (intro unat_of_nat_small) simp
  have pad: "unat pad < 4096"
    unfolding pad_def pad_of_def mask_12 unat_and_mask by simp
  have le: "of_nat (n * 64) \<le> sz" using n assms by (simp add: word_le_nat_alt)
  have l: "unat (sz - of_nat (n * 64)) = unat sz - n * 64" using le n by (simp add: unat_sub)
  have le2: "pad \<le> sz - of_nat (n * 64)" using l pad assms by (simp add: word_le_nat_alt)
  define d where "d = drop_bit 12 (sz - of_nat (n * 64) - pad)"
  have d: "unat d = (unat sz - n * 64 - unat pad) div 4096"
    unfolding d_def using l le2 by (simp add: unat_shift_right unat_sub)
  have "n * 4096 \<le> unat sz - n * 64 - unat pad" using assms(1) pad by linarith
  then have nd: "n \<le> unat d" unfolding d by (simp add: less_eq_div_iff_mult_less_eq)
  have "unat d * 4096 \<le> unat sz" unfolding d by (metis diff_le_self div_times_less_eq_dividend order_trans)
  then have small: "unat d < 2 ^ 31" using assms(2) by simp
  then have "unat (ucast d :: u32) = unat d" by (intro unat_ucast_small) simp
  then have "sint (ucast d :: u32) = int (unat d)" using small sint_small [of "ucast d"] by metis
  with nd have "int n \<le> sint (ucast d :: u32)" by (simp only: of_nat_le_iff)
  with le le2 show ?thesis
    unfolding trees_fit_def Let_def by (simp add: not_less pad_def d_def)
qed

lemma count_trees_at_least:
  assumes "\<And>k. k \<le> N \<Longrightarrow> trees_fit bs sz k"
  shows "(case count_trees bs sz m of Inl e \<Rightarrow> e = Int_overflow | Inr n \<Rightarrow> N \<le> n)"
  using assms
proof (induction bs sz m rule: count_trees.induct)
  case (1 bs sz m)
  show ?case
  proof (cases "2 ^ 31 \<le> m + 1 \<or> \<not> trees_fit bs sz (m + 1)")
    case True
    moreover have "N \<le> m" if "\<not> trees_fit bs sz (m + 1)"
      using that "1.prems" [of "m + 1"] by linarith
    ultimately show ?thesis by (auto simp: count_trees.simps [of bs sz m])
  next
    case False
    with 1 show ?thesis by (simp add: count_trees.simps [of bs sz m])
  qed
qed

lemma count_trees_overflow: "count_trees bs sz m = Inl e \<Longrightarrow> m < 2 ^ 31 - 1 \<Longrightarrow> trees_fit bs sz (2 ^ 31 - 1)"
proof (induction bs sz m rule: count_trees.induct)
  case (1 bs sz m)
  then have fit: "trees_fit bs sz (m + 1)" and c: "count_trees bs sz (m + 1) = Inl e"
    by (auto simp: count_trees.simps [of bs sz m] split: if_splits)
  show ?case
  proof (cases "m + 1 < 2 ^ 31 - 1")
    case True
    with 1 fit c show ?thesis by simp
  next
    case False
    with "1.prems"(2) have "m + 1 = 2 ^ 31 - 1" by linarith
    with fit show ?thesis by metis
  qed
qed

lemma place_pages_returns:
  assumes reg: "unat bs + unat sz < 2 ^ 64" "0 < unat bs" and small: "unat sz < 2 ^ 31"
  shows "\<exists>r. place_pages mem bs sz = Inr r \<and> (r = None \<longrightarrow> unat sz < 4096)"
proof -
  obtain n where n: "count_trees bs sz 0 = Inr n"
  proof (cases "count_trees bs sz 0")
    case (Inl e)
    then have "trees_fit bs sz (2 ^ 31 - 1)" by (rule count_trees_overflow) simp
    from trees_fit_layout(1,2) [OF this reg(1)] small show thesis by simp
  qed
  define q where "q = bs + of_nat (n * 64)"
  define pad where "pad = pad_of q 4095"
  have cases: "n = 0 \<or> (trees_fit bs sz n \<and> n < 2 ^ 31)" using count_trees_result [OF n] by auto
  show ?thesis
  proof (cases "sz - of_nat (n * 64) < pad")
    case True
    have "n = 0" using cases True trees_fit_layout(3) [of bs sz n] reg(1) by (auto simp: q_def pad_def not_less [symmetric])
    moreover have "unat pad < 4096" unfolding pad_def pad_of_def mask_12 unat_and_mask by simp
    ultimately have "unat sz < 4096" using True by (simp add: word_less_nat_alt)
    moreover have "place_pages mem bs sz = Inr None"
      using True by (simp add: place_pages_def n Let_def q_def pad_def)
    ultimately show ?thesis by simp
  next
    case False
    have lay: "n * 4096 \<le> unat sz" "unat q = unat bs + n * 64" "unat q + unat pad + n * 4096 \<le> unat bs + unat sz"
    proof -
      show "n * 4096 \<le> unat sz" "unat q = unat bs + n * 64" "unat q + unat pad + n * 4096 \<le> unat bs + unat sz"
        using cases trees_fit_layout(1,2) [of bs sz n] reg(1) False
        by (auto simp: q_def pad_def word_le_nat_alt not_less)
    qed
    have "unat (q + pad) = unat q + unat pad" using lay reg by (simp add: unat_word_ariths)
    then obtain head mem' where "link_pages (q + pad) n 0 0 0 mem = Inr (head, mem')"
      using link_pages_dll [of n "q + pad" 0 mem 0 0] lay small reg by (auto simp: dll_def)
    moreover have "n * 4096 < 2 ^ 31" using lay small by linarith
    ultimately show ?thesis
      using False by (auto simp: place_pages_def n Let_def q_def pad_def shl_int_def)
  qed
qed

lemma pad_small: "unat (pad_of p (mask k)) < 2 ^ k"
  by (simp add: pad_of_def unat_and_mask)

lemma startup_cases:
  assumes bs: "bs \<noteq> 0" "sz \<noteq> 0" and reg: "unat bs + unat sz < 2 ^ 64"
  obtains "buddy_startup mem bs sz = Inr None" "unat sz < 114"
  | bs' sz' where "unat bs' + unat sz' = unat bs + unat sz" "unat bs + 104 \<le> unat bs'" "unat bs' \<le> unat bs + 114"
      "buddy_startup mem bs sz = place_pages mem bs' sz'"
proof -
  define p1 where "p1 = pad_of bs 7"
  define b1 where "b1 = bs + p1"
  define s1 where "s1 = sz - p1"
  define b2 where "b2 = b1 + 104"
  define s2 where "s2 = s1 - 104"
  define p2 where "p2 = pad_of b2 3"
  note defs = p1_def b1_def s1_def b2_def s2_def p2_def
  have start: "buddy_startup mem bs sz =
    (if sz < p1 \<or> s1 < 104 \<or> s2 < p2 then Inr None else place_pages mem (b2 + p2) (s2 - p2))"
    using bs by (simp add: buddy_startup_def Let_def defs)
  have "(7 :: u64) = mask 3" "(3 :: u64) = mask 2" by (simp_all add: mask_eq_exp_minus_1)
  then have pads: "unat p1 < 8" "unat p2 < 4"
    using pad_small [of bs 3] pad_small [of b2 2] by (auto simp: p1_def p2_def)
  show thesis
  proof (cases "sz < p1 \<or> s1 < 104 \<or> s2 < p2")
    case True
    have "unat sz < 114"
    proof (rule ccontr)
      assume big: "\<not> unat sz < 114"
      then have "unat s1 = unat sz - unat p1" using pads by (simp add: s1_def unat_sub word_le_nat_alt)
      moreover from this big pads have "unat s2 = unat s1 - 104" by (simp add: s2_def unat_sub word_le_nat_alt)
      ultimately show False using True big pads by (auto simp: word_less_nat_alt)
    qed
    then show ?thesis using that(1) start True by simp
  next
    case False
    then have ok: "p1 \<le> sz" "104 \<le> s1" "p2 \<le> s2" by (auto simp: not_less)
    have 1: "unat b1 = unat bs + unat p1" "unat b1 + unat s1 = unat bs + unat sz"
      using advance [OF ok(1) reg] by (auto simp: b1_def s1_def)
    have 2: "unat b2 = unat b1 + 104" "unat b2 + unat s2 = unat bs + unat sz"
      using advance [OF ok(2), of b1] 1 reg by (auto simp: b2_def s2_def)
    have 3: "unat (b2 + p2) = unat b2 + unat p2" "unat (b2 + p2) + unat (s2 - p2) = unat bs + unat sz"
      using advance [OF ok(3), of b2] 2 reg by auto
    show ?thesis using that(2) [OF 3(2)] start False 1 2 3 pads by auto
  qed
qed

end
