(* ===== verification/BuddySystem.thy ===== *)
theory BuddySystem
  imports BuddyStartup
begin

section \<open>The buddy allocator: what its clients may rely on\<close>

text \<open>
  A client of the allocator calls \<^verbatim>\<open>buddy_malloc\<close>, keeps the blocks it gets, writes into them and
  gives them back with \<^verbatim>\<open>buddy_free\<close> and the length it asked for. A state of this system is the
  allocator with the set of live allocations (address and requested length). Writes may change
  anything the client can reach from inside one of its live regions, including the bytes where
  free blocks would keep their pointers.
\<close>

type_synonym live = "(u64 \<times> u64) set"

definition footprint :: "u64 \<times> u64 \<Rightarrow> nat" where
  "footprint r = unat (normalize_len (snd r))"

definition apart :: "nat \<Rightarrow> nat \<Rightarrow> nat \<Rightarrow> nat \<Rightarrow> bool" where
  "apart p n q m \<longleftrightarrow> p + n \<le> q \<or> q + m \<le> p"

inductive buddy_init :: "buddy \<times> live \<Rightarrow> bool" where
  "buddy_startup mem bs sz = Inr (Some b) \<Longrightarrow> unat bs + unat sz < 2 ^ 64 \<Longrightarrow> buddy_init (b, {})"

inductive buddy_step :: "buddy \<times> live \<Rightarrow> buddy \<times> live \<Rightarrow> bool" where
  alloc: "buddy_malloc (Some b) len = Inr (p, Some b')
            \<Longrightarrow> buddy_step (b, L) (b', if p = 0 then L else insert (p, len) L)"
| free: "(p, len) \<in> L \<Longrightarrow> buddy_free (Some b) len p = Inr (Some b') \<Longrightarrow> buddy_step (b, L) (b', L - {(p, len)})"
| scribble: "(p, len) \<in> L
            \<Longrightarrow> (\<And>q. \<not> (unat p < unat q + 16 \<and> unat q < unat p + unat len) \<Longrightarrow> h q = nodes b q)
            \<Longrightarrow> buddy_step (b, L) (b\<lparr>nodes := h\<rparr>, L)"

text \<open>A place for a block of a given size: aligned, inside the pool, apart from all live blocks.\<close>

definition room_at :: "buddy \<Rightarrow> live \<Rightarrow> u64 \<Rightarrow> u64 \<Rightarrow> bool" where
  "room_at b L len q \<longleftrightarrow>
     (let n = unat (normalize_len len) in
      unat q mod n = 0 \<and> unat (base b) \<le> unat q \<and> unat q + n \<le> unat (base b) + unat (pool_size b)
      \<and> (\<forall>r\<in>L. apart (unat q) n (unat (fst r)) (footprint r)))"

subsection \<open>The invariant\<close>

definition block_of :: "buddy \<Rightarrow> u64 \<times> u64 \<Rightarrow> block" where
  "block_of b r = (level (snd r), (unat (fst r) - unat (base b)) div 2 ^ (level (snd r) + 4))"

definition live_ok :: "buddy \<Rightarrow> live \<Rightarrow> bool" where
  "live_ok b L \<longleftrightarrow>
     inj_on (block_of b) L
     \<and> (\<forall>(p, len)\<in>L. len \<noteq> 0 \<and> len \<le> 4096 \<and> valid (num_trees b) (block_of b (p, len)) \<and> p = addr b (block_of b (p, len)))"

definition buddy_inv :: "buddy \<times> live \<Rightarrow> bool" where
  "buddy_inv s \<longleftrightarrow> (\<exists>Fs. resting (fst s) (block_of (fst s) ` snd s) Fs) \<and> live_ok (fst s) (snd s)"

lemma block_of_cong: "same_pool b b' \<Longrightarrow> block_of b' = block_of b"
  by (auto simp: block_of_def same_pool_def)

lemma live_ok_cong: "same_pool b b' \<Longrightarrow> live_ok b' L = live_ok b L"
  by (simp add: live_ok_def block_of_cong same_pool_addr) (simp add: same_pool_def)

lemma block_of_addr:
  assumes "pool_ok b" "valid (num_trees b) x" "fst x = level len"
  shows "block_of b (addr b x, len) = x"
proof -
  have "unat (addr b x) - unat (base b) = snd x * 2 ^ (fst x + 4)"
    using unat_addr [OF assms(1,2)] by (simp add: start_def power_add)
  then show ?thesis using assms(3) by (simp add: block_of_def prod_eq_iff)
qed

lemma live_okD:
  assumes "live_ok b L" "(p, len) \<in> L"
  shows "len \<noteq> 0" "len \<le> 4096" "valid (num_trees b) (block_of b (p, len))" "p = addr b (block_of b (p, len))"
    "fst (block_of b (p, len)) = level len"
  using assms by (auto simp: live_ok_def block_of_def)

lemma buddy_init_inv: "buddy_init s \<Longrightarrow> buddy_inv s"
proof (induction rule: buddy_init.induct)
  case (1 mem bs sz b)
  obtain bs' sz' where p: "unat bs' + unat sz' = unat bs + unat sz" "unat bs + 104 \<le> unat bs'"
    "place_pages mem bs' sz' = Inr (Some b)"
    using startup_places [OF 1] by auto
  then obtain n where "count_trees bs' sz' 0 = Inr n" "pages_from mem bs' sz' n b"
    by (auto simp: place_pages_some)
  with p 1 pages_layout(4) [of bs' sz' n mem b] show ?case
    by (auto simp: buddy_inv_def live_ok_def)
qed

lemma malloc_step_inv:
  assumes I: "buddy_inv (b, L)" and m: "malloc_block b len = Inr (p, b')"
  shows "buddy_inv (b', if p = 0 then L else insert (p, len) L)"
proof -
  obtain Fs where r: "resting b (block_of b ` L) Fs" and L: "live_ok b L" using I by (auto simp: buddy_inv_def)
  show ?thesis
  proof (cases "len = 0 \<or> 4096 < len \<or> (\<forall>x\<in>free_blocks Fs. fst x < level len)")
    case True
    with malloc_null [OF r True] m I show ?thesis by simp
  next
    case False
    then have len: "len \<noteq> 0" "len \<le> 4096" by (auto simp: not_less)
    obtain x where "x \<in> free_blocks Fs" "level len \<le> fst x" using False by (auto simp: not_less)
    from malloc_some [OF r len this] obtain y Fs' where y: "p = addr b y" "same_pool b b'" "fst y = level len"
      "y \<notin> block_of b ` L" "valid (num_trees b) y" "resting b' (insert y (block_of b ` L)) Fs'"
      using m by auto
    have blk: "block_of b (p, len) = y" using block_of_addr [OF restingD(3) [OF r] y(5,3)] y(1) by simp
    have "p \<noteq> 0" using addr_nonzero [OF restingD(3) [OF r] y(5)] y(1) by simp
    moreover have "live_ok b (insert (p, len) L)"
      using L len y blk by (auto simp: live_ok_def)
    moreover have "block_of b ` insert (p, len) L = insert y (block_of b ` L)" using blk by simp
    ultimately show ?thesis
      using y(6) block_of_cong [OF y(2)] live_ok_cong [OF y(2)] by (auto simp: buddy_inv_def)
  qed
qed

lemma free_step_inv:
  assumes I: "buddy_inv (b, L)" and x: "(p, len) \<in> L"
  shows "\<exists>b' Fs. free_block b len p = Inr b' \<and> same_pool b b' \<and> resting b' (block_of b ` (L - {(p, len)})) Fs
           \<and> buddy_inv (b', L - {(p, len)})"
proof -
  obtain Fs where r: "resting b (block_of b ` L) Fs" and L: "live_ok b L" using I by (auto simp: buddy_inv_def)
  note D = live_okD [OF L x]
  from free_some [OF r D(1,2) imageI [OF x] D(5)] D(4) obtain b' Fs' where b': "free_block b len p = Inr b'"
    "resting b' (block_of b ` L - {block_of b (p, len)}) Fs'" "same_pool b b'" by auto
  have "inj_on (block_of b) L" using L by (simp add: live_ok_def)
  then have img: "block_of b ` (L - {(p, len)}) = block_of b ` L - {block_of b (p, len)}"
    using x by (subst inj_on_image_set_diff [of _ L]) auto
  have "live_ok b (L - {(p, len)})" using L by (auto simp: live_ok_def inj_on_diff)
  with b' img show ?thesis
    using block_of_cong [OF b'(3)] live_ok_cong [OF b'(3)] by (auto simp: buddy_inv_def)
qed

text \<open>A block's bytes are apart from those of any other block of the tiling.\<close>

lemma units_apart:
  assumes "units x \<inter> units y = {}"
  shows "apart (start x) (2 ^ fst x) (start y) (2 ^ fst y)"
proof (rule ccontr)
  assume "\<not> apart (start x) (2 ^ fst x) (start y) (2 ^ fst y)"
  then have "start x < start y + 2 ^ fst y" "start y < start x + 2 ^ fst x" by (auto simp: apart_def)
  then have "max (start x) (start y) \<in> units x \<inter> units y"
    by (cases x; cases y) (auto simp: units_interval start_def algebra_simps max_def)
  with assms show False by blast
qed

lemma addr_apart:
  assumes "pool_ok b" "valid (num_trees b) x" "valid (num_trees b) y"
  shows "apart (unat (addr b x)) (2 ^ (fst x + 4)) (unat (addr b y)) (2 ^ (fst y + 4)) \<longleftrightarrow> units x \<inter> units y = {}"
proof -
  have "units x \<inter> units y = {}" if "apart (start x) (2 ^ fst x) (start y) (2 ^ fst y)"
    using that by (cases x; cases y) (auto simp: units_interval start_def apart_def algebra_simps)
  then show ?thesis
    using units_apart [of x y] unat_addr [OF assms(1,2)] unat_addr [OF assms(1,3)]
    by (auto simp: apart_def power_add)
qed

lemma write_step_inv:
  assumes I: "buddy_inv (b, L)" and x: "(p, len) \<in> L"
    and h: "\<And>q. \<not> (unat p < unat q + 16 \<and> unat q < unat p + unat len) \<Longrightarrow> h q = nodes b q"
  shows "buddy_inv (b\<lparr>nodes := h\<rparr>, L)"
proof -
  obtain Fs where r: "resting b (block_of b ` L) Fs" and L: "live_ok b L" using I by (auto simp: buddy_inv_def)
  note D = live_okD [OF L x]
  note ok = restingD(3) [OF r]
  let ?b = "b\<lparr>nodes := h\<rparr>" and ?x = "block_of b (p, len)"
  have same: "h (addr b y) = nodes b (addr b y)" if y: "y \<in> free_blocks Fs" for y
  proof (rule h)
    have vy: "valid (num_trees b) y" using tiles_valid [OF restingD(4) [OF r]] y by blast
    have "?x \<in> block_of b ` L" using x by blast
    then have "?x \<noteq> y" using restingD(2) [OF r] y by (auto simp: settled_def)
    then have "units ?x \<inter> units y = {}"
      using tiles_disjoint [OF restingD(4) [OF r]] \<open>?x \<in> block_of b ` L\<close> y by blast
    then have "apart (unat p) (2 ^ (level len + 4)) (unat (addr b y)) (2 ^ (fst y + 4))"
      using addr_apart [OF ok D(3) vy] D(4,5) by simp
    moreover have "unat len \<le> 2 ^ (level len + 4)" using normalize_len_level [OF D(1,2)] by simp
    moreover have "(16 :: nat) \<le> 2 ^ (fst y + 4)" by (simp add: power_add)
    ultimately show "\<not> (unat p < unat (addr b y) + 16 \<and> unat (addr b y) < unat p + unat len)"
      unfolding apart_def by linarith
  qed
  have la: "list_addrs ?b Fs i = list_addrs b Fs i" for i by (simp add: list_addrs_def addr_def)
  have "dll h (lists b ! i) (list_addrs b Fs i)" if i: "i < 9" for i
  proof -
    have "dll h (lists b ! i) (list_addrs b Fs i) = dll (nodes b) (lists b ! i) (list_addrs b Fs i)"
      by (rule dll_frame) (use same i in \<open>auto simp: list_addrs_def free_blocks_def\<close>)
    with restingD(1) [OF r] i show ?thesis by (simp add: rep_def)
  qed
  then have "rep ?b (block_of b ` L) Fs"
    using restingD(1) [OF r] la pool_ok_cong [OF ok, of ?b] by (simp add: rep_def tree_bit_cong [of ?b b])
  then have "resting ?b (block_of b ` L) Fs" using r by (simp add: resting_def)
  moreover have "same_pool b ?b" by (simp add: same_pool_def)
  ultimately show ?thesis
    using L block_of_cong [of b ?b] live_ok_cong [of b ?b] by (auto simp: buddy_inv_def)
qed

lemma buddy_step_inv: "buddy_step s s' \<Longrightarrow> buddy_inv s \<Longrightarrow> buddy_inv s'"
proof (induction rule: buddy_step.induct)
  case (alloc b len p b' L)
  then have "malloc_block b len = Inr (p, b')" by (auto simp: buddy_malloc_def rbind_eq_Inr)
  then show ?case using alloc malloc_step_inv by blast
next
  case (free p len L b b')
  then have "free_block b len p = Inr b'" by (auto simp: buddy_free_def rbind_eq_Inr)
  then show ?case using free free_step_inv [of b L p len] by auto
next
  case (scribble p len L h b)
  then show ?case using write_step_inv by blast
qed

interpretation buddy: invariant_system buddy_init buddy_step buddy_inv
  by unfold_locales (auto intro: buddy_init_inv buddy_step_inv)

subsection \<open>Regions and blocks\<close>

lemma unat_normalize: "len \<noteq> 0 \<Longrightarrow> len \<le> 4096 \<Longrightarrow> unat (normalize_len len) = 2 ^ (level len + 4)"
  using normalize_len_level [of len] unat_pow2 [where 'a = 64, of "level len + 4"] by simp

lemma unat_pool_size: "pool_ok b \<Longrightarrow> unat (pool_size b) = num_trees b * 4096"
  unfolding pool_ok_def by (simp only: unat_of_nat_small) (simp add: unat_of_nat_small del: of_nat_mult)

lemma aligned_block:
  assumes ok: "pool_ok b" and k: "k \<le> 8"
    and q: "unat q mod 2 ^ (k + 4) = 0" "unat (base b) \<le> unat q" "unat q + 2 ^ (k + 4) \<le> unat (base b) + num_trees b * 4096"
  shows "\<exists>x. valid (num_trees b) x \<and> fst x = k \<and> q = addr b x"
proof -
  have "(2 :: nat) ^ (k + 4) dvd 2 ^ 12" using k by (intro le_imp_power_dvd) simp
  moreover have "2 ^ 12 dvd unat (base b)" using ok by (simp add: pool_ok_def dvd_eq_mod_eq_0)
  ultimately have "2 ^ (k + 4) dvd unat (base b)" by (rule dvd_trans)
  moreover have "2 ^ (k + 4) dvd unat q" using q(1) by (simp add: dvd_eq_mod_eq_0)
  ultimately have "2 ^ (k + 4) dvd unat q - unat (base b)" by (simp add: dvd_diff_nat)
  then obtain a where a: "unat q - unat (base b) = 2 ^ (k + 4) * a" by (rule dvdE)
  have "2 ^ (k + 4) * (a + 1) \<le> num_trees b * 4096" using a q(2,3) by (simp add: algebra_simps)
  also have "\<dots> = 2 ^ (k + 4) * (num_trees b * 2 ^ (8 - k))"
    using k by (simp add: ac_simps flip: power_add)
  finally have "a + 1 \<le> num_trees b * 2 ^ (8 - k)" by (simp only: mult_le_cancel1) simp
  then have v: "valid (num_trees b) (k, a)" using k by (simp add: valid_def)
  have "unat q = unat (base b) + 2 ^ (k + 4) * a" using a q(2) by linarith
  then have "unat (addr b (k, a)) = unat q"
    using unat_addr [OF ok v] by (simp add: start_def power_add)
  then have "q = addr b (k, a)" by (simp only: word_unat_eq_iff)
  with v show ?thesis by (intro exI [of _ "(k, a)"]) simp
qed

lemma block_in_pool:
  assumes "pool_ok b" "valid (num_trees b) x"
  shows "unat (addr b x) mod 2 ^ (fst x + 4) = 0" "unat (base b) \<le> unat (addr b x)"
    "unat (addr b x) + 2 ^ (fst x + 4) \<le> unat (base b) + unat (pool_size b)"
proof -
  have k: "fst x \<le> 8" using assms(2) by (simp add: valid_def)
  have "(2 :: nat) ^ (fst x + 4) dvd 2 ^ 12" using k by (intro le_imp_power_dvd) simp
  moreover have "2 ^ 12 dvd unat (base b)" using assms(1) by (simp add: pool_ok_def dvd_eq_mod_eq_0)
  ultimately have "2 ^ (fst x + 4) dvd unat (base b)" by (rule dvd_trans)
  moreover have "2 ^ (fst x + 4) dvd 16 * start x" by (simp add: start_def power_add)
  ultimately show "unat (addr b x) mod 2 ^ (fst x + 4) = 0"
    using unat_addr [OF assms] by (simp flip: dvd_eq_mod_eq_0)
  show "unat (base b) \<le> unat (addr b x)" using unat_addr [OF assms] by simp
  have "16 * start x + 16 * 2 ^ fst x \<le> num_trees b * 4096" using start_bound [OF assms(2)] by simp
  then show "unat (addr b x) + 2 ^ (fst x + 4) \<le> unat (base b) + unat (pool_size b)"
    using unat_addr [OF assms] unat_pool_size [OF assms(1)] by (simp add: power_add)
qed

lemma room_at_block:
  assumes ok: "pool_ok b" and L: "live_ok b L" and len: "len \<noteq> 0" "len \<le> 4096"
    and x: "valid (num_trees b) x" "fst x = level len"
  shows "room_at b L len (addr b x) \<longleftrightarrow> (\<forall>r\<in>L. units x \<inter> units (block_of b r) = {})"
proof -
  have "apart (unat (addr b x)) (2 ^ (fst x + 4)) (unat (fst r)) (footprint r) \<longleftrightarrow> units x \<inter> units (block_of b r) = {}"
    if "r \<in> L" for r
  proof -
    obtain p m where r: "r = (p, m)" by (cases r)
    note D = live_okD [OF L that [unfolded r]]
    show ?thesis
      using addr_apart [OF ok x(1) D(3)] D(4,5) unat_normalize [OF D(1,2)] by (simp add: r footprint_def)
  qed
  then show ?thesis
    using block_in_pool [OF ok x(1)] unat_normalize [OF len] x(2) by (simp add: room_at_def Let_def)
qed

lemma room_atD:
  assumes ok: "pool_ok b" and len: "len \<noteq> 0" "len \<le> 4096" and q: "room_at b L len q"
  shows "\<exists>x. valid (num_trees b) x \<and> fst x = level len \<and> q = addr b x"
  using q unat_normalize [OF len] normalize_len_level(2) [OF len] unat_pool_size [OF ok]
  by (intro aligned_block [OF ok]) (auto simp: room_at_def Let_def)

subsection \<open>Guarantees\<close>

lemma live_block_ok:
  assumes I: "buddy_inv (b, L)" and x: "(p, len) \<in> L"
  shows "room_at b (L - {(p, len)}) len p"
proof -
  obtain Fs where r: "resting b (block_of b ` L) Fs" and L: "live_ok b L" using I by (auto simp: buddy_inv_def)
  note D = live_okD [OF L x]
  have L': "live_ok b (L - {(p, len)})" using L by (auto simp: live_ok_def inj_on_diff)
  have inj: "inj_on (block_of b) L" using L by (simp add: live_ok_def)
  have "units (block_of b (p, len)) \<inter> units (block_of b r) = {}" if "r \<in> L - {(p, len)}" for r
  proof -
    have "block_of b (p, len) \<noteq> block_of b r"
      using inj_onD [OF inj, of "(p, len)" r] x that by blast
    then show ?thesis using tiles_disjoint [OF restingD(4) [OF r]] x that by blast
  qed
  with room_at_block [OF restingD(3) [OF r] L' D(1-3,5)] D(4) show ?thesis by simp
qed

lemma malloc_answer:
  assumes I: "buddy_inv (b, L)"
  shows "\<exists>p b'. malloc_block b len = Inr (p, b') \<and> (p \<noteq> 0 \<longrightarrow> room_at b L len p)
           \<and> (p = 0 \<longleftrightarrow> len = 0 \<or> 4096 < len \<or> (\<forall>q. \<not> room_at b L len q))"
proof -
  obtain Fs where r: "resting b (block_of b ` L) Fs" and L: "live_ok b L" using I by (auto simp: buddy_inv_def)
  note ok = restingD(3) [OF r]
  consider (odd) "len = 0 \<or> 4096 < len" | (full) "len \<noteq> 0" "len \<le> 4096" "\<forall>x\<in>free_blocks Fs. fst x < level len"
    | (some) x where "len \<noteq> 0" "len \<le> 4096" "x \<in> free_blocks Fs" "level len \<le> fst x"
    by (meson not_less)
  then show ?thesis
  proof cases
    case odd
    then show ?thesis using malloc_null [OF r, of len] by auto
  next
    case full
    have "\<not> room_at b L len q" for q
    proof
      assume q: "room_at b L len q"
      with room_atD [OF ok full(1,2)] obtain x where x: "valid (num_trees b) x" "fst x = level len" "q = addr b x" by blast
      with q have A: "units y \<inter> units x = {}" if "y \<in> block_of b ` L" for y
        using that room_at_block [OF ok L full(1,2) x(1,2)] by blast
      have "\<exists>y\<in>free_blocks Fs. units x \<subseteq> units y \<and> fst x \<le> fst y"
        using restingD(2) [OF r] by (intro free_region [OF _ _ x(1) A]) (auto simp: settled_def)
      with full(3) x(2) show False by force
    qed
    then show ?thesis using malloc_null [OF r, of len] full by auto
  next
    case some
    from malloc_some [OF r some] obtain y b' Fs' where y: "malloc_block b len = Inr (addr b y, b')"
      "fst y = level len" "y \<notin> block_of b ` L" "valid (num_trees b) y" "resting b' (insert y (block_of b ` L)) Fs'" by blast
    have "units y \<inter> units (block_of b r) = {}" if "r \<in> L" for r
      using tiles_disjoint [OF restingD(4) [OF y(5)], of y "block_of b r"] that y(3) by blast
    then have "room_at b L len (addr b y)" using room_at_block [OF ok L some(1,2) y(4,2)] by blast
    moreover have "addr b y \<noteq> 0" using addr_nonzero [OF ok y(4)] .
    ultimately show ?thesis using y(1) some by (auto simp: not_less [symmetric])
  qed
qed

text \<open>C2: Live allocations never overlap. However a client interleaves allocations, releases and
  writes into its own blocks, every live allocation is aligned to its rounded size, lies inside
  the pool and is apart from every other live allocation; the rounded size is enough for the
  request; and the allocator reports it as owned and allocated.\<close>

theorem buddy_blocks_disjoint:
  assumes "reachable buddy_init buddy_step (b, L)" "(p, len) \<in> L"
  shows "room_at b (L - {(p, len)}) len p \<and> unat len \<le> footprint (p, len)
           \<and> buddy_owned (Some b) p \<and> buddy_allocated (Some b) p (normalize_len len) = Inr True"
proof -
  have I: "buddy_inv (b, L)" using buddy.reachable_inv [OF assms(1)] .
  then obtain Fs where r: "resting b (block_of b ` L) Fs" and L: "live_ok b L" by (auto simp: buddy_inv_def)
  note D = live_okD [OF L assms(2)] and ok = restingD(3) [OF r]
  have in_pool: "unat (base b) \<le> unat p" "unat p < unat (base b) + unat (pool_size b)"
    using block_in_pool(2,3) [OF ok D(3)] zero_less_power [of "2 :: nat" "fst (block_of b (p, len)) + 4"]
    unfolding D(4) [symmetric] by linarith+
  have "unat (base b + pool_size b) = unat (base b) + unat (pool_size b)"
    using ok unat_pool_size [OF ok] by (simp add: pool_ok_def unat_word_ariths)
  then have own: "buddy_owned (Some b) p"
    using in_pool by (simp add: buddy_owned_def word_le_nat_alt word_less_nat_alt)
  have "tree_bit b (block_of b (p, len))" using rep_bit [OF restingD(1) [OF r] D(3)] assms(2) by blast
  then have "is_allocated b p (normalize_len len) = Inr True"
    using is_allocated_addr [OF ok D(3)] D(4,5) normalize_len_level(1) [OF D(1,2)] by simp
  then show ?thesis
    using live_block_ok [OF I assms(2)] own normalize_len_level(3) [OF D(1,2)] unat_normalize [OF D(1,2)]
    by (simp add: buddy_allocated_def footprint_def)
qed

text \<open>C5: Allocation is complete. In every reachable state a request returns; it gets NULL exactly
  when it is empty or larger than a page, or when no aligned place of the rounded size in the
  pool is apart from all live allocations, so that free space is never lost to fragmentation
  that merging could undo; and what it gets is such a place.\<close>

theorem buddy_malloc_complete:
  assumes "reachable buddy_init buddy_step (b, L)"
  shows "\<exists>p b'. buddy_malloc (Some b) len = Inr (p, Some b') \<and> (p \<noteq> 0 \<longrightarrow> room_at b L len p)
           \<and> (p = 0 \<longleftrightarrow> len = 0 \<or> 4096 < len \<or> (\<forall>q. \<not> room_at b L len q))"
  using malloc_answer [OF buddy.reachable_inv [OF assms], of len] by (auto simp: buddy_malloc_def)

text \<open>Release. In every reachable state giving back a live allocation returns, after which the
  block is no longer reported as allocated, and giving it back again changes nothing.\<close>

theorem buddy_free_once:
  assumes "reachable buddy_init buddy_step (b, L)" "(p, len) \<in> L"
  shows "\<exists>b'. buddy_free (Some b) len p = Inr (Some b') \<and> is_allocated b' p (normalize_len len) = Inr False
           \<and> buddy_free (Some b') len p = Inr (Some b')"
proof -
  have I: "buddy_inv (b, L)" using buddy.reachable_inv [OF assms(1)] .
  then have L: "live_ok b L" by (auto simp: buddy_inv_def)
  note D = live_okD [OF L assms(2)]
  obtain b' Fs where b': "free_block b len p = Inr b'" "same_pool b b'" "resting b' (block_of b ` (L - {(p, len)})) Fs"
    using free_step_inv [OF I assms(2)] by blast
  have out: "block_of b (p, len) \<notin> block_of b ` (L - {(p, len)})"
    using L assms(2) by (auto simp: live_ok_def dest: inj_onD)
  have v: "valid (num_trees b') (block_of b (p, len))" "p = addr b' (block_of b (p, len))"
    using D(3,4) b'(2) same_pool_addr [OF b'(2)] by (auto simp: same_pool_def)
  have "free_block b' len p = Inr b'" using free_none [OF b'(3) D(1,2) out D(5) v(1)] v(2) by simp
  moreover have "is_allocated b' p (normalize_len len) = Inr False"
    using is_allocated_addr [OF restingD(3) [OF b'(3)] v(1)] rep_bit [OF restingD(1) [OF b'(3)] v(1)] out v(2)
      D(5) normalize_len_level(1) [OF D(1,2)] by simp
  ultimately show ?thesis using b'(1) by (simp add: buddy_free_def)
qed

subsection \<open>Start-up\<close>

definition well_placed :: "u64 \<Rightarrow> u64 \<Rightarrow> buddy \<Rightarrow> bool" where
  "well_placed bs sz b \<longleftrightarrow>
     unat (base b) mod 4096 = 0 \<and> unat bs + 104 + 64 * num_trees b \<le> unat (base b)
     \<and> unat (base b) + unat (pool_size b) \<le> unat bs + unat sz \<and> unat (pool_size b) = 4096 * num_trees b
     \<and> unat sz < (num_trees b + 1) * 4160 + 4210"

lemma startup_layout:
  assumes "bs \<noteq> 0" "sz \<noteq> 0" "unat bs + unat sz < 2 ^ 64" "unat sz < 2 ^ 31"
  shows "\<exists>r. buddy_startup mem bs sz = Inr r
           \<and> (case r of None \<Rightarrow> unat sz < 4210 | Some b \<Rightarrow> well_placed bs sz b)"
proof (rule startup_cases [OF assms(1-3), of mem])
  assume "buddy_startup mem bs sz = Inr None" "unat sz < 114"
  then show ?thesis by simp
next
  fix bs' sz'
  assume reg: "unat bs' + unat sz' = unat bs + unat sz" "unat bs + 104 \<le> unat bs'" "unat bs' \<le> unat bs + 114"
    and eq: "buddy_startup mem bs sz = place_pages mem bs' sz'"
  have reg': "unat bs' + unat sz' < 2 ^ 64" "0 < unat bs'" "unat sz' < 2 ^ 31" using reg assms by auto
  obtain r where r: "place_pages mem bs' sz' = Inr r" "r = None \<longrightarrow> unat sz' < 4096"
    using place_pages_returns [OF reg'] by blast
  show ?thesis
  proof (cases r)
    case None
    with r reg eq show ?thesis by auto
  next
    case (Some b)
    then obtain n where n: "count_trees bs' sz' 0 = Inr n" "pages_from mem bs' sz' n b"
      using r(1) by (auto simp: place_pages_some)
    note lay = pages_layout [OF n reg'(1,2)]
    have ok: "pool_ok b" using restingD(3) [OF lay(4)] .
    have "\<not> trees_fit bs' sz' (n + 1)" using count_trees_result [OF n(1)] by blast
    moreover have "unat sz' < 2 ^ 43" using reg'(3) by simp
    ultimately have "unat sz' < (n + 1) * 4160 + 4096"
      using trees_fit_if [of "n + 1" sz' bs'] by (meson not_le)
    then have "well_placed bs sz b"
      using lay reg unat_pool_size [OF ok] ok by (simp add: well_placed_def pool_ok_def)
    with Some r(1) eq show ?thesis by simp
  qed
qed

text \<open>Start-up in a region of less than 2 GiB returns. It gives no allocator only when the
  region has fewer than 4210 bytes; otherwise the pages are aligned, lie in the region after the
  handle and one bit tree per page, and at most one more page with its tree would have fitted.\<close>

theorem buddy_startup_layout:
  assumes "bs \<noteq> 0" "sz \<noteq> 0" "unat bs + unat sz < 2 ^ 64" "unat sz < 2 ^ 31"
  shows "\<exists>r. buddy_startup mem bs sz = Inr r
           \<and> (case r of None \<Rightarrow> unat sz < 4210 | Some b \<Rightarrow> well_placed bs sz b)"
  using assms by (rule startup_layout)

theorem buddy_startup_layout_witness:
  "\<exists>r. buddy_startup (\<lambda>_. (0, 0)) 5000 100000 = Inr r
     \<and> (case r of None \<Rightarrow> unat (100000 :: u64) < 4210 | Some b \<Rightarrow> well_placed 5000 100000 b)"
  using buddy_startup_layout [of 5000 100000 "\<lambda>_. (0, 0)"] by simp

text \<open>Start-up in a region of 2 GiB and 64 MiB or more (and less than 8 TiB) overflows: the
  size of the pool is computed as \<^verbatim>\<open>num_trees << 12\<close> at type int.\<close>

theorem buddy_startup_overflow:
  assumes "bs \<noteq> 0" "unat bs + unat sz < 2 ^ 64" "2 ^ 31 + 2 ^ 26 \<le> unat sz" "unat sz < 2 ^ 43"
  shows "buddy_startup mem bs sz = Inl Int_overflow"
proof -
  have "sz \<noteq> 0" using assms(3) by auto
  then show ?thesis
  proof (rule startup_cases [OF assms(1) _ assms(2), of mem])
    fix bs' sz'
    assume reg: "unat bs' + unat sz' = unat bs + unat sz" "unat bs + 104 \<le> unat bs'" "unat bs' \<le> unat bs + 114"
      and eq: "buddy_startup mem bs sz = place_pages mem bs' sz'"
    have sz': "2 ^ 31 + 2 ^ 26 - 114 \<le> unat sz'" "unat sz' < 2 ^ 43" using reg assms(3,4) by linarith+
    have fits: "trees_fit bs' sz' k" if "k \<le> 2 ^ 19" for k
      using that sz' by (intro trees_fit_if) simp_all
    note least = count_trees_at_least [of "2 ^ 19", OF fits, of 0]
    have "place_pages mem bs' sz' = Inl Int_overflow"
    proof (cases "count_trees bs' sz' 0")
      case (Inl e)
      then show ?thesis using least by (simp add: place_pages_def)
    next
      case (Inr n)
      then have n: "2 ^ 19 \<le> n" using least by simp
      then have "trees_fit bs' sz' n \<and> n < 2 ^ 31" using count_trees_result [OF Inr] by auto
      then have "pad_of (bs' + of_nat (n * 64)) 4095 \<le> sz' - of_nat (n * 64)"
        using trees_fit_layout(3) [of bs' sz' n] reg assms(2) by simp
      then show ?thesis using n by (simp add: place_pages_def Inr Let_def shl_int_def not_less)
    qed
    then show ?thesis using eq by simp
  qed (use assms(3) in simp)
qed

theorem buddy_startup_overflow_witness: "buddy_startup (\<lambda>_. (0, 0)) 4096 3000000000 = Inl Int_overflow"
  using buddy_startup_overflow [of 4096 3000000000 "\<lambda>_. (0, 0)"] by simp

subsection \<open>A running allocator\<close>

lemma example_run: "\<exists>b p. reachable buddy_init buddy_step (b, {(p, 100)})"
proof -
  obtain r where r: "buddy_startup (\<lambda>_. (0, 0)) 4096 65536 = Inr r"
    "(case r of None \<Rightarrow> unat (65536 :: u64) < 4210 | Some b \<Rightarrow> well_placed 4096 65536 b)"
    using startup_layout [of 4096 65536 "\<lambda>_. (0, 0)"] by auto
  then obtain b where b: "buddy_startup (\<lambda>_. (0, 0)) 4096 65536 = Inr (Some b)" "well_placed 4096 65536 b"
    by (cases r) auto
  have "buddy_init (b, {})" by (rule buddy_init.intros [OF b(1)]) simp
  then have R: "reachable buddy_init buddy_step (b, {})" by (rule reachable.start)
  have n: "normalize_len 100 = 128" by code_simp
  have "unat (base b) mod 4096 mod 128 = 0" using b(2) by (simp add: well_placed_def)
  then have "unat (base b) mod 128 = 0" by (simp add: mod_mod_cancel)
  then have "room_at b {} 100 (base b)"
    using b(2) by (simp add: room_at_def n well_placed_def Let_def)
  then obtain p b' where p: "malloc_block b 100 = Inr (p, b')" "p \<noteq> 0"
    using malloc_answer [OF buddy.reachable_inv [OF R], of 100] by auto
  then have "buddy_malloc (Some b) 100 = Inr (p, Some b')" by (simp add: buddy_malloc_def)
  from buddy_step.alloc [OF this, of "{}"] p(2) have "buddy_step (b, {}) (b', {(p, 100)})" by simp
  with R have "reachable buddy_init buddy_step (b', {(p, 100)})" by (rule reachable.more)
  then show ?thesis by blast
qed

theorem buddy_blocks_disjoint_witness:
  "\<exists>b p. reachable buddy_init buddy_step (b, {(p, 100)}) \<and> buddy_allocated (Some b) p (normalize_len 100) = Inr True"
proof -
  obtain b p where R: "reachable buddy_init buddy_step (b, {(p, 100)})" using example_run by blast
  from buddy_blocks_disjoint [OF R, of p 100] R show ?thesis by blast
qed

theorem buddy_malloc_complete_witness:
  "\<exists>b L p b'. reachable buddy_init buddy_step (b, L) \<and> L \<noteq> {} \<and> buddy_malloc (Some b) 5000 = Inr (p, Some b') \<and> p = 0"
proof -
  obtain b p where R: "reachable buddy_init buddy_step (b, {(p, 100)})" using example_run by blast
  from buddy_malloc_complete [OF R, of 5000] R show ?thesis by auto
qed

theorem buddy_free_once_witness:
  "\<exists>b p b'. reachable buddy_init buddy_step (b, {(p, 100)}) \<and> buddy_free (Some b) 100 p = Inr (Some b')
     \<and> buddy_free (Some b') 100 p = Inr (Some b')"
proof -
  obtain b p where R: "reachable buddy_init buddy_step (b, {(p, 100)})" using example_run by blast
  from buddy_free_once [OF R, of p 100] R show ?thesis by blast
qed

end
