(* ===== verification/Parse.thy ===== *)
theory Parse
  imports Prelude
begin

section \<open>HTTP request heads (\<^verbatim>\<open>http/parse.c\<close>)\<close>

text \<open>
  The parser of request lines and headers, the matching of header names and values, and the
  readers of Content-Length and Transfer-Encoding. A source buffer is the string of its \<^verbatim>\<open>len\<close>
  bytes, and a read outside it is a fault; a slice is the string it denotes. \<^verbatim>\<open>size_t\<close> results
  are 64-bit words, so that \<^verbatim>\<open>-1\<close> is the largest of them.
\<close>

declare rbind_cong [fundef_cong]

datatype method_name = M_GET | M_POST | M_HEAD | M_PUT | M_DELETE | M_CONNECT | M_OPTIONS | M_TRACE | M_PATCH

datatype p_status = P_OK | P_INCOMPLETE | P_BADMETHOD | P_BADVERSION | P_BADHEADER

record header =
  h_name :: string
  h_value :: string

record request =
  req_method :: method_name
  req_path :: string
  major :: int
  minor :: int
  hs :: "header list"

definition MAX_HEADERS :: nat where "MAX_HEADERS = 32"

abbreviation CR :: char where "CR \<equiv> CHR 13"
abbreviation LF :: char where "LF \<equiv> CHR 10"

definition code :: "char \<Rightarrow> nat" where
  "code c = of_char c"

definition is_digit :: "char \<Rightarrow> bool" where
  "is_digit c \<longleftrightarrow> 48 \<le> code c \<and> code c \<le> 57"

definition is_space :: "char \<Rightarrow> bool" where
  "is_space c \<longleftrightarrow> c = CHR '' '' \<or> c = CHR 9 \<or> c = CR \<or> c = LF"

text \<open>\<open>word_at src cur w\<close>: \<^verbatim>\<open>cur + n - 1 < len && src[cur+0] == w[0] && \<dots>\<close>, for a word of \<open>n\<close> characters.\<close>

definition word_at :: "string \<Rightarrow> nat \<Rightarrow> string \<Rightarrow> bool" where
  "word_at src cur w \<longleftrightarrow> cur + length w \<le> length src \<and> chunk src cur (length w) = w"

subsection \<open>The request head\<close>

definition parse_method :: "string \<Rightarrow> (method_name \<times> nat) option" where
  "parse_method src =
     (if word_at src 0 ''GET'' then Some (M_GET, 3)
      else if word_at src 0 ''HEAD'' then Some (M_HEAD, 4)
      else if word_at src 0 ''POST'' then Some (M_POST, 4)
      else if word_at src 0 ''PUT'' then Some (M_PUT, 3)
      else if word_at src 0 ''DELETE'' then Some (M_DELETE, 6)
      else if word_at src 0 ''CONNECT'' then Some (M_CONNECT, 7)
      else if word_at src 0 ''OPTIONS'' then Some (M_OPTIONS, 7)
      else if word_at src 0 ''TRACE'' then Some (M_TRACE, 5)
      else if word_at src 0 ''PATCH'' then Some (M_PATCH, 5)
      else None)"

text \<open>One turn of the header loop: the header and where the next one starts, or \<open>None\<close> for a bad one.\<close>

definition parse_header :: "string \<Rightarrow> nat \<Rightarrow> (header \<times> nat) option res" where
  "parse_header src cur =
     (let start = cur;
          cur = skip_while (\<lambda>c. c \<noteq> CHR '':'') src cur;
          name = chunk src start (cur - start)
      in if cur = length src then Inr None
      else
        let cur = cur + 1;
            start = cur;
            cur = skip_while (\<lambda>c. c \<noteq> CR) src cur;
            val = chunk src start (cur - start);
            cur = cur + 1
        in if cur = length src then Inr None
        else rbind (rd src cur) (\<lambda>c.
          if c \<noteq> LF then Inr None
          else Inr (Some (\<lparr>h_name = name, h_value = val\<rparr>, cur + 1))))"

definition add_header :: "request \<Rightarrow> header \<Rightarrow> request" where
  "add_header r h = (if length (hs r) < MAX_HEADERS then r\<lparr>hs := hs r @ [h]\<rparr> else r)"

lemma parse_header_advances:
  "parse_header src cur = Inr (Some (h, cur')) \<Longrightarrow> cur < cur' \<and> cur' \<le> length src"
proof -
  assume p: "parse_header src cur = Inr (Some (h, cur'))"
  define a where "a = skip_while (\<lambda>c. c \<noteq> CHR '':'') src cur"
  define b where "b = skip_while (\<lambda>c. c \<noteq> CR) src (a + 1)"
  have "cur' = b + 2" "b + 1 < length src"
    using p by (auto simp: parse_header_def Let_def a_def b_def rbind_eq_Inr rd_eq_Inr split: if_splits)
  moreover have "cur \<le> a" "a + 1 \<le> b" by (simp_all only: a_def b_def skip_while_ge)
  ultimately show ?thesis by simp
qed

function parse_headers :: "string \<Rightarrow> nat \<Rightarrow> request \<Rightarrow> (p_status \<times> request) res" where
  "parse_headers src cur r =
     (if cur + 1 \<ge> length src \<or> src ! cur \<noteq> CR \<or> src ! (cur + 1) \<noteq> LF then
        rbind (parse_header src cur) (\<lambda>line.
          case line of
            None \<Rightarrow> Inr (P_BADHEADER, r)
          | Some (h, cur) \<Rightarrow> parse_headers src cur (add_header r h))
      else Inr (P_OK, r))"
  by pat_completeness auto
termination
  by (relation "measure (\<lambda>(src, cur, r). length src - cur)") (auto dest: parse_header_advances)

declare parse_headers.simps [simp del]

text \<open>The request line from the version on, after \<^verbatim>\<open>HTTP/\<close> has been checked: the minor number
  and where it ends.\<close>

definition parse_minor :: "string \<Rightarrow> nat \<Rightarrow> (int \<times> nat) option res" where
  "parse_minor src cur =
     (if cur < length src \<and> src ! cur = CHR ''.'' then
        let cur = cur + 1 in
        if cur = length src then Inr None
        else rbind (rd src cur) (\<lambda>c.
          if \<not> is_digit c then Inr None else Inr (Some (int (code c) - 48, cur + 1)))
      else Inr (Some (0, cur)))"

definition parse_version :: "string \<Rightarrow> nat \<Rightarrow> request \<Rightarrow> (p_status \<times> request) res" where
  "parse_version src cur r =
     (if cur + 4 \<ge> length src \<or> chunk src cur 5 \<noteq> ''HTTP/'' then Inr (P_BADVERSION, r)
      else rbind (rd src (cur + 5)) (\<lambda>d.
        if \<not> is_digit d then Inr (P_BADVERSION, r)
        else
          let r = r\<lparr>major := int (code d) - 48\<rparr> in
          rbind (parse_minor src (cur + 6)) (\<lambda>m.
            case m of
              None \<Rightarrow> Inr (P_BADVERSION, r)
            | Some (mn, cur) \<Rightarrow>
                let r = r\<lparr>minor := mn\<rparr> in
                if cur + 1 \<ge> length src \<or> src ! cur \<noteq> CR \<or> src ! (cur + 1) \<noteq> LF
                then Inr (P_INCOMPLETE, r)
                else parse_headers src (cur + 2) (r\<lparr>hs := []\<rparr>))))"

definition parse_request_head :: "string \<Rightarrow> request \<Rightarrow> (p_status \<times> request) res" where
  "parse_request_head src r =
     (case parse_method src of
        None \<Rightarrow> Inr (P_BADMETHOD, r)
      | Some (m, cur) \<Rightarrow>
          let r = r\<lparr>req_method := m\<rparr> in
          if cur = length src \<or> src ! cur \<noteq> CHR '' '' then Inr (P_INCOMPLETE, r)
          else
            let start = cur + 1;
                cur = skip_while (\<lambda>c. c \<noteq> CHR '' '') src start;
                r = r\<lparr>req_path := chunk src start (cur - start)\<rparr>
            in if cur = length src \<or> src ! cur \<noteq> CHR '' '' then Inr (P_INCOMPLETE, r)
            else parse_version src (cur + 1) r)"

subsection \<open>Matching header names and values\<close>

text \<open>\<^verbatim>\<open>c >= 'A' || c <= 'Z'\<close> holds of every character; the sum is taken modulo 256.\<close>

definition to_lower :: "char \<Rightarrow> char" where
  "to_lower c = (if 65 \<le> code c \<or> code c \<le> 90 then char_of ((code c + 32) mod 256) else c)"

definition string_match_case_insensitive :: "string \<Rightarrow> string \<Rightarrow> bool" where
  "string_match_case_insensitive x y \<longleftrightarrow>
     length x = length y \<and> list_all (\<lambda>i. to_lower (x ! i) = to_lower (y ! i)) [0..<length x]"

definition match_header_name :: "string \<Rightarrow> string \<Rightarrow> bool" where
  "match_header_name s1 s2 = string_match_case_insensitive s1 s2"

text \<open>\<^verbatim>\<open>while (is_space(s.data[s.size-1])) s.size--;\<close>\<close>

fun trim_end :: "string \<Rightarrow> nat \<Rightarrow> nat res" where
  "trim_end s 0 = Inl Out_of_bounds"
| "trim_end s (Suc n) = (if is_space (s ! n) then trim_end s n else Inr (Suc n))"

definition trim :: "string \<Rightarrow> string res" where
  "trim s =
     (if skip_while is_space s 0 = length s then Inr ''''
      else rbind (trim_end s (length s)) (\<lambda>n. Inr (take n s)))"

definition match_header_value :: "string \<Rightarrow> string \<Rightarrow> bool res" where
  "match_header_value s1 s2 =
     rbind (trim s1) (\<lambda>x. rbind (trim s2) (\<lambda>y. Inr (string_match_case_insensitive x y)))"

definition find_header :: "request \<Rightarrow> string \<Rightarrow> string option" where
  "find_header r name =
     (case filter (\<lambda>h. match_header_name (h_name h) name) (hs r) of [] \<Rightarrow> None | h # _ \<Rightarrow> Some (h_value h))"

subsection \<open>Content-Length\<close>

text \<open>The digit loop; \<open>None\<close> when the number does not fit.\<close>

function digits_loop :: "string \<Rightarrow> nat \<Rightarrow> u64 \<Rightarrow> (u64 \<times> nat) option" where
  "digits_loop s cur x =
     (let d = of_nat (code (s ! cur) - 48) in
      if x > (- 1 - d) div 10 then None
      else
        let x = x * 10 + d; cur = cur + 1 in
        if cur < length s \<and> is_digit (s ! cur) then digits_loop s cur x else Some (x, cur))"
  by pat_completeness auto
termination
  by (relation "measure (\<lambda>(s, cur, x). length s - cur)") auto

declare digits_loop.simps [simp del]

definition parse_content_length :: "string \<Rightarrow> u64" where
  "parse_content_length s =
     (let cur = skip_while is_space s 0 in
      if cur = length s \<or> \<not> is_digit (s ! cur) then - 1
      else
        case digits_loop s cur 0 of
          None \<Rightarrow> - 1
        | Some (x, cur) \<Rightarrow> if skip_while is_space s cur \<noteq> length s then - 1 else x)"

definition find_and_parse_content_length :: "request \<Rightarrow> u64" where
  "find_and_parse_content_length r =
     (case find_header r ''Content-Length'' of None \<Rightarrow> - 1 | Some v \<Rightarrow> parse_content_length v)"

subsection \<open>Transfer-Encoding\<close>

lemma word_at_advances:
  assumes "word_at src (skip_while p src cur) w" "0 < length w"
  shows "length src - (skip_while p src cur + length w) < length src - cur"
proof -
  have "cur \<le> skip_while p src cur" by simp
  with assms show ?thesis unfolding word_at_def by linarith
qed

function encoding_loop :: "string \<Rightarrow> nat \<Rightarrow> u32 \<Rightarrow> int" where
  "encoding_loop src cur flags =
     (let cur = skip_while (\<lambda>c. is_space c \<or> c = CHR '','') src cur in
      if word_at src cur ''chunked'' then encoding_loop src (cur + 7) (flags OR 1)
      else if word_at src cur ''compress'' then encoding_loop src (cur + 8) (flags OR 2)
      else if word_at src cur ''deflate'' then encoding_loop src (cur + 7) (flags OR 4)
      else if word_at src cur ''gzip'' then encoding_loop src (cur + 4) (flags OR 8)
      else - 1)"
  by pat_completeness auto
termination
  by (relation "measure (\<lambda>(src, cur, flags). length src - cur)") (auto dest: word_at_advances)

declare encoding_loop.simps [simp del]

definition find_and_parse_transfer_encoding :: "request \<Rightarrow> int" where
  "find_and_parse_transfer_encoding r =
     (case find_header r ''Transfer-Encoding'' of None \<Rightarrow> 0 | Some v \<Rightarrow> encoding_loop v 0 0)"

subsection \<open>Printing and parsing\<close>

primrec method_string :: "method_name \<Rightarrow> string" where
  "method_string M_GET = ''GET''"
| "method_string M_POST = ''POST''"
| "method_string M_HEAD = ''HEAD''"
| "method_string M_PUT = ''PUT''"
| "method_string M_DELETE = ''DELETE''"
| "method_string M_CONNECT = ''CONNECT''"
| "method_string M_OPTIONS = ''OPTIONS''"
| "method_string M_TRACE = ''TRACE''"
| "method_string M_PATCH = ''PATCH''"

definition digit :: "int \<Rightarrow> char" where
  "digit d = char_of (nat d + 48)"

definition print_header :: "header \<Rightarrow> string" where
  "print_header h = h_name h @ '':'' @ h_value h @ [CR, LF]"

definition print_line :: "request \<Rightarrow> string" where
  "print_line r =
     method_string (req_method r) @ '' '' @ req_path r @ '' HTTP/'' @ [digit (major r)] @ ''.'' @ [digit (minor r)] @ [CR, LF]"

definition print_request :: "request \<Rightarrow> string" where
  "print_request r = print_line r @ concat (map print_header (hs r)) @ [CR, LF]"

definition header_ok :: "header \<Rightarrow> bool" where
  "header_ok h \<longleftrightarrow> CHR '':'' \<notin> set (h_name h) \<and> take 1 (h_name h) \<noteq> [CR] \<and> CR \<notin> set (h_value h)"

definition request_ok :: "request \<Rightarrow> bool" where
  "request_ok r \<longleftrightarrow>
     CHR '' '' \<notin> set (req_path r) \<and> 0 \<le> major r \<and> major r \<le> 9 \<and> 0 \<le> minor r \<and> minor r \<le> 9
     \<and> list_all header_ok (hs r)"

lemma chunk_run: "chunk (pre @ mid @ post) (length pre) (length mid) = mid"
  by (simp add: chunk_def)

lemma code_digit: "0 \<le> d \<Longrightarrow> d \<le> 9 \<Longrightarrow> code (digit d) = nat d + 48"
  by (simp add: code_def digit_def)

lemma digit_digit: "0 \<le> d \<Longrightarrow> d \<le> 9 \<Longrightarrow> is_digit (digit d) \<and> int (code (digit d)) - 48 = d"
  by (simp add: is_digit_def code_digit)

lemma parse_method_print: "parse_method (method_string m @ '' '' @ rest) = Some (m, length (method_string m))"
  by (cases m) (simp_all add: parse_method_def word_at_def chunk_def)

lemma parse_header_print:
  assumes "header_ok h"
  shows "parse_header (pre @ print_header h @ post) (length pre) = Inr (Some (h, length pre + length (print_header h)))"
proof -
  let ?src = "pre @ print_header h @ post"
  define a where "a = length pre + length (h_name h)"
  have src1: "?src = pre @ h_name h @ ('':'' @ h_value h @ [CR, LF] @ post)" by (simp add: print_header_def)
  have src2: "?src = (pre @ h_name h @ '':'') @ h_value h @ ([CR, LF] @ post)" by (simp add: print_header_def)
  have 1: "skip_while (\<lambda>c. c \<noteq> CHR '':'') ?src (length pre) = a"
    unfolding src1 a_def using assms by (intro skip_while_run) (auto simp: header_ok_def)
  have 2: "skip_while (\<lambda>c. c \<noteq> CR) ?src (a + 1) = a + 1 + length (h_value h)"
    using skip_while_run [of "h_value h" "\<lambda>c. c \<noteq> CR" "[CR, LF] @ post" "pre @ h_name h @ '':''"] assms
    unfolding src2 by (auto simp: header_ok_def a_def)
  have 3: "chunk ?src (length pre) (a - length pre) = h_name h"
    unfolding src1 using chunk_run [of pre "h_name h"] by (simp add: a_def)
  have 4: "chunk ?src (a + 1) (length (h_value h)) = h_value h"
    using chunk_run [of "pre @ h_name h @ '':''" "h_value h" "[CR, LF] @ post"] unfolding src2 by (simp add: a_def)
  have 5: "rd ?src (a + 1 + length (h_value h) + 1) = Inr LF"
    unfolding src2 by (simp add: rd_def a_def nth_append)
  have len: "length ?src = a + length (h_value h) + 3 + length post" by (simp add: print_header_def a_def)
  show ?thesis
    unfolding parse_header_def Let_def 1 2 3 using 4 5 len
    by (simp add: a_def print_header_def)
qed

lemma parse_headers_print:
  assumes "list_all header_ok hl" "length (hs r) \<le> MAX_HEADERS"
  shows "parse_headers (pre @ concat (map print_header hl) @ [CR, LF] @ body) (length pre) r
           = Inr (P_OK, r\<lparr>hs := take MAX_HEADERS (hs r @ hl)\<rparr>)"
  using assms
proof (induction hl arbitrary: pre r)
  case Nil
  then show ?case by (subst parse_headers.simps) (simp add: nth_append)
next
  case (Cons h hl)
  define post where "post = concat (map print_header hl) @ [CR, LF] @ body"
  have src: "pre @ concat (map print_header (h # hl)) @ [CR, LF] @ body = pre @ print_header h @ post"
    by (simp add: post_def)
  have h: "header_ok h" using Cons.prems by simp
  have "(pre @ print_header h @ post) ! length pre \<noteq> CR"
    using h by (cases "h_name h") (auto simp: print_header_def header_ok_def nth_append)
  then have "parse_headers (pre @ print_header h @ post) (length pre) r
      = parse_headers (pre @ print_header h @ post) (length pre + length (print_header h)) (add_header r h)"
    by (subst parse_headers.simps) (simp add: parse_header_print [OF h])
  also have "\<dots> = Inr (P_OK, (add_header r h)\<lparr>hs := take MAX_HEADERS (hs (add_header r h) @ hl)\<rparr>)"
    using Cons.IH [of "add_header r h" "pre @ print_header h"] Cons.prems
    by (simp add: post_def add_header_def)
  also have "\<dots> = Inr (P_OK, r\<lparr>hs := take MAX_HEADERS (hs r @ h # hl)\<rparr>)"
    using Cons.prems(2) by (auto simp: add_header_def take_Cons')
  finally show ?case unfolding src .
qed

lemma parse_minor_print:
  assumes "0 \<le> d" "d \<le> 9"
  shows "parse_minor (pre @ ''.'' @ [digit d] @ post) (length pre) = Inr (Some (d, length pre + 2))"
  using digit_digit [OF assms] by (simp add: parse_minor_def rd_def nth_append)

lemma parse_version_print:
  assumes "0 \<le> mj" "mj \<le> 9" "0 \<le> mn" "mn \<le> 9"
  shows "parse_version (pre @ ''HTTP/'' @ [digit mj] @ ''.'' @ [digit mn] @ [CR, LF] @ post) (length pre) r
    = parse_headers ((pre @ ''HTTP/'' @ [digit mj] @ ''.'' @ [digit mn] @ [CR, LF]) @ post) (length pre + 10)
        (r\<lparr>major := mj, minor := mn, hs := []\<rparr>)"
proof -
  let ?src = "pre @ ''HTTP/'' @ [digit mj] @ ''.'' @ [digit mn] @ [CR, LF] @ post"
  have "chunk ?src (length pre) 5 = ''HTTP/''" by (simp add: chunk_def)
  moreover have "rd ?src (length pre + 5) = Inr (digit mj)" by (simp add: rd_def nth_append)
  moreover have "parse_minor ?src (length pre + 6) = Inr (Some (mn, length pre + 8))"
    using parse_minor_print [of mn "pre @ ''HTTP/'' @ [digit mj]" "[CR, LF] @ post"] assms by (simp add: numeral_eq_Suc)
  moreover have "?src ! (length pre + 8) = CR" "?src ! (length pre + 9) = LF" by (simp_all add: nth_append)
  ultimately show ?thesis
    using digit_digit [of mj] assms by (simp add: parse_version_def Let_def add.commute)
qed

lemma parse_line_print:
  assumes "request_ok r"
  shows "parse_request_head (print_line r @ post) r0
           = parse_headers (print_line r @ post) (length (print_line r)) (r\<lparr>hs := []\<rparr>)"
proof -
  define m where "m = method_string (req_method r)"
  define ver where "ver = ''HTTP/'' @ [digit (major r)] @ ''.'' @ [digit (minor r)] @ [CR, LF]"
  define pre where "pre = m @ '' '' @ req_path r @ '' ''"
  have src: "print_line r @ post = (m @ '' '') @ req_path r @ ('' '' @ ver @ post)" "print_line r @ post = pre @ ver @ post"
    by (simp_all add: print_line_def m_def ver_def pre_def)
  let ?src = "print_line r @ post"
  have 1: "parse_method ?src = Some (req_method r, length m)"
    unfolding src(1) using parse_method_print [of "req_method r"] by (simp add: m_def)
  have 2: "?src ! length m = CHR '' ''" "length m \<noteq> length ?src" unfolding src(1) by (simp_all add: nth_append)
  have 3: "skip_while (\<lambda>c. c \<noteq> CHR '' '') ?src (length m + 1) = length m + 1 + length (req_path r)"
    unfolding src(1) using skip_while_run [of "req_path r" "\<lambda>c. c \<noteq> CHR '' ''" "'' '' @ ver @ post" "m @ '' ''"] assms
    by (auto simp: request_ok_def)
  have 4: "chunk ?src (length m + 1) (length (req_path r)) = req_path r"
    unfolding src(1) using chunk_run [of "m @ '' ''" "req_path r"] by simp
  have 5: "?src ! (length m + 1 + length (req_path r)) = CHR '' ''" "length m + 1 + length (req_path r) \<noteq> length ?src"
    unfolding src(1) by (simp_all add: nth_append)
  have pre: "length m + 1 + length (req_path r) + 1 = length pre" by (simp add: pre_def)
  have "parse_request_head ?src r0
      = parse_version ?src (length pre) (r0\<lparr>req_method := req_method r, req_path := req_path r\<rparr>)"
    unfolding parse_request_head_def 1 Let_def option.case prod.case 3 using 2 4 5 pre by simp
  also have "\<dots> = parse_headers ?src (length pre + 10)
      (r0\<lparr>req_method := req_method r, req_path := req_path r, major := major r, minor := minor r, hs := []\<rparr>)"
    unfolding src(2) ver_def using assms parse_version_print [of "major r" "minor r" pre]
    by (simp add: request_ok_def)
  also have "r0\<lparr>req_method := req_method r, req_path := req_path r, major := major r, minor := minor r, hs := []\<rparr> = r\<lparr>hs := []\<rparr>"
    by simp
  also have "length pre + 10 = length (print_line r)" by (simp add: print_line_def pre_def m_def)
  finally show ?thesis .
qed

lemma parse_print:
  assumes "request_ok r"
  shows "parse_request_head (print_request r @ body) r0 = Inr (P_OK, r\<lparr>hs := take MAX_HEADERS (hs r)\<rparr>)"
  using parse_line_print [OF assms, of "concat (map print_header (hs r)) @ [CR, LF] @ body"] assms
    parse_headers_print [of "hs r" "r\<lparr>hs := []\<rparr>" "print_line r" body]
  by (simp add: print_request_def request_ok_def)

text \<open>C8: Printing a request and parsing it gives the request back, whatever follows the head: the
  method, the path, both version numbers and the first 32 headers, for every request whose path has
  no space, whose header names have no colon and do not start with a carriage return and whose
  header values have no carriage return.\<close>

theorem parse_print_roundtrip:
  assumes "request_ok r"
  shows "parse_request_head (print_request r @ body) r0 = Inr (P_OK, r\<lparr>hs := take MAX_HEADERS (hs r)\<rparr>)"
  using assms by (rule parse_print)

theorem parse_print_roundtrip_witness:
  "let r = \<lparr>req_method = M_POST, req_path = ''/a'', major = 1, minor = 1,
            hs = [\<lparr>h_name = ''Host'', h_value = '' x''\<rparr>]\<rparr>
   in parse_request_head (print_request r @ ''body'') r = Inr (P_OK, r)"
  using parse_print_roundtrip [of "\<lparr>req_method = M_POST, req_path = ''/a'', major = 1, minor = 1,
            hs = [\<lparr>h_name = ''Host'', h_value = '' x''\<rparr>]\<rparr>" "''body''"]
  by (simp add: request_ok_def header_ok_def MAX_HEADERS_def)

subsection \<open>Memory safety\<close>

text \<open>The server calls the parser on heads that end with an empty line.\<close>

definition terminated :: "string \<Rightarrow> bool" where
  "terminated src \<longleftrightarrow> (\<exists>pre. src = pre @ [CR, LF, CR, LF])"

lemma terminatedD:
  assumes "terminated src"
  obtains n where "length src = n + 4" "src ! n = CR" "src ! (n + 1) = LF" "src ! (n + 2) = CR" "src ! (n + 3) = LF"
proof -
  from assms obtain pre where "src = pre @ [CR, LF, CR, LF]" by (auto simp: terminated_def)
  then show thesis by (intro that [of "length pre"]) (simp_all add: nth_append)
qed

lemma terminated_early:
  assumes "terminated src" "i < length src" "src ! i \<noteq> CR" "src ! i \<noteq> LF"
  shows "i + 4 < length src"
proof -
  obtain n where n: "length src = n + 4" "src ! n = CR" "src ! (n + 1) = LF" "src ! (n + 2) = CR" "src ! (n + 3) = LF"
    using assms(1) by (rule terminatedD)
  have "i \<noteq> n" "i \<noteq> n + 1" "i \<noteq> n + 2" "i \<noteq> n + 3" using n assms by metis+
  then show ?thesis using n(1) assms(2) by linarith
qed

lemma skip_while_before: "cur \<le> i \<Longrightarrow> i < length src \<Longrightarrow> \<not> p (src ! i) \<Longrightarrow> skip_while p src cur \<le> i"
  using skip_while_all [of cur i p src] by force

lemma parse_header_safe:
  assumes t: "terminated src" and cur: "cur + 2 < length src"
  shows "\<exists>line. parse_header src cur = Inr line \<and> (\<forall>h c. line = Some (h, c) \<longrightarrow> c + 2 \<le> length src)"
proof -
  obtain n where n: "length src = n + 4" "src ! n = CR" using t by (rule terminatedD)
  define a where "a = skip_while (\<lambda>c. c \<noteq> CHR '':'') src cur"
  define b where "b = skip_while (\<lambda>c. c \<noteq> CR) src (a + 1)"
  have "a \<le> length src" using cur by (simp add: a_def)
  show ?thesis
  proof (cases "a = length src")
    case True
    then show ?thesis by (simp add: parse_header_def Let_def a_def)
  next
    case False
    with \<open>a \<le> length src\<close> have a: "a < length src" "src ! a = CHR '':''"
      using skip_while_stop [of "\<lambda>c. c \<noteq> CHR '':''" src cur] by (auto simp: a_def)
    have "a < n" using terminated_early [OF t a(1)] a(2) n(1) by simp
    then have b: "b \<le> n" unfolding b_def using n by (intro skip_while_before) auto
    then have "rd src (b + 1) = Inr (src ! (b + 1))" using n by simp
    with b n a(1) show ?thesis
      by (auto simp: parse_header_def Let_def a_def [symmetric] b_def [symmetric, simplified])
  qed
qed

lemma parse_headers_safe:
  assumes "terminated src" "cur + 2 \<le> length src"
  shows "\<exists>out. parse_headers src cur r = Inr out"
  using assms
proof (induction src cur r rule: parse_headers.induct)
  case (1 src cur r)
  let ?more = "length src \<le> cur + 1 \<or> src ! cur \<noteq> CR \<or> src ! (cur + 1) \<noteq> LF"
  show ?case
  proof (cases ?more)
    case False
    then show ?thesis by (subst parse_headers.simps) simp
  next
    case True
    obtain n where n: "length src = n + 4" "src ! (n + 2) = CR" "src ! (n + 3) = LF"
      using "1.prems"(1) by (rule terminatedD)
    have "cur \<noteq> n + 2" using True n by (auto simp: numeral_eq_Suc)
    then have "cur + 2 < length src" using "1.prems"(2) n(1) by linarith
    then obtain line where line: "parse_header src cur = Inr line" "\<forall>h c. line = Some (h, c) \<longrightarrow> c + 2 \<le> length src"
      using parse_header_safe [OF "1.prems"(1)] by blast
    show ?thesis
    proof (cases line)
      case None
      with True line show ?thesis by (subst parse_headers.simps) simp
    next
      case (Some hc)
      obtain h c where hc: "hc = (h, c)" by (cases hc)
      have "parse_headers src cur r = parse_headers src c (add_header r h)"
        using True line(1) Some hc by (subst parse_headers.simps) simp
      moreover have "\<exists>out. parse_headers src c (add_header r h) = Inr out"
        using "1.IH" [of line hc h c] True line Some hc "1.prems"(1) by blast
      ultimately show ?thesis by metis
    qed
  qed
qed

lemma parse_minor_safe:
  "\<exists>m. parse_minor src cur = Inr m \<and> (\<forall>d c. m = Some (d, c) \<longrightarrow> c = cur \<or> (c = cur + 2 \<and> cur + 1 < length src \<and> is_digit (src ! (cur + 1))))"
  by (auto simp: parse_minor_def Let_def)

lemma digit_not_eol: "is_digit c \<Longrightarrow> c \<noteq> CR \<and> c \<noteq> LF"
  by (auto simp: is_digit_def code_def)

lemma parse_version_safe:
  assumes t: "terminated src"
  shows "\<exists>out. parse_version src cur r = Inr out"
proof (cases "cur + 4 \<ge> length src \<or> chunk src cur 5 \<noteq> ''HTTP/''")
  case True
  then show ?thesis by (auto simp: parse_version_def)
next
  case False
  then have "chunk src cur 5 ! 4 = CHR ''/''" by simp
  then have "src ! (cur + 4) = CHR ''/''" using False by (simp add: chunk_def)
  then have in5: "cur + 5 < length src" using terminated_early [OF t, of "cur + 4"] False by simp
  show ?thesis
  proof (cases "is_digit (src ! (cur + 5))")
    case False
    with in5 \<open>\<not> (_ \<or> _)\<close> show ?thesis by (simp add: parse_version_def)
  next
    case True
    obtain m where m: "parse_minor src (cur + 6) = Inr m"
      "\<And>d c. m = Some (d, c) \<Longrightarrow> c = cur + 6 \<or> (c = cur + 6 + 2 \<and> cur + 6 + 1 < length src \<and> is_digit (src ! (cur + 6 + 1)))"
      using parse_minor_safe [of src "cur + 6"] by blast
    have headers: "\<exists>out. parse_headers src (c + 2) r' = Inr out"
      if "m = Some (d, c)" "\<not> (length src \<le> c + 1 \<or> src ! c \<noteq> CR \<or> src ! (c + 1) \<noteq> LF)" for c d r'
    proof -
      have "c - 1 < length src" "is_digit (src ! (c - 1))" "0 < c"
        using m(2) [OF that(1)] True in5 by (auto simp: numeral_eq_Suc)
      then have "c - 1 + 4 < length src" using terminated_early [OF t] digit_not_eol by blast
      with \<open>0 < c\<close> have "c + 2 + 2 \<le> length src + 1" by linarith
      moreover have "c + 3 \<noteq> length src"
      proof
        assume "c + 3 = length src"
        obtain n where "length src = n + 4" "src ! (n + 1) = LF" using t by (rule terminatedD)
        with \<open>c + 3 = length src\<close> that(2) show False by simp
      qed
      ultimately have "c + 2 + 2 \<le> length src" by linarith
      then show ?thesis using parse_headers_safe [OF t] by blast
    qed
    show ?thesis
      using \<open>\<not> (_ \<or> _)\<close> in5 True m(1) headers
      by (cases m) (auto simp: parse_version_def Let_def)
  qed
qed

text \<open>C21: On a head that ends with an empty line, which is what the server passes, the parser
  returns without reading outside the head, whatever the head contains.\<close>

theorem parse_terminated_safe:
  assumes "terminated src"
  shows "\<exists>status r'. parse_request_head src r = Inr (status, r')"
proof (cases "parse_method src")
  case None
  then show ?thesis by (simp add: parse_request_head_def)
next
  case (Some mc)
  obtain m cur where "mc = (m, cur)" by (cases mc)
  with Some parse_version_safe [OF assms] show ?thesis
    by (auto simp: parse_request_head_def Let_def)
qed

theorem parse_terminated_safe_witness:
  "\<exists>status r'. parse_request_head (''GET / HTTP/1.1'' @ [CR, LF] @ ''junk'' @ [CR, LF, CR, LF])
     \<lparr>req_method = M_POST, req_path = [], major = 0, minor = 0, hs = []\<rparr> = Inr (status, r')"
proof (rule parse_terminated_safe)
  show "terminated (''GET / HTTP/1.1'' @ [CR, LF] @ ''junk'' @ [CR, LF, CR, LF])"
    unfolding terminated_def by (rule exI [of _ "''GET / HTTP/1.1'' @ [CR, LF] @ ''junk''"]) simp
qed

text \<open>On a head that breaks off inside a header value the parser reads past the end of the
  buffer: after the value it skips the carriage return it did not find.\<close>

theorem parse_truncated_reads_past:
  assumes "request_ok r" "header_ok h"
  shows "parse_request_head (print_line r @ h_name h @ '':'' @ h_value h) r0 = Inl Out_of_bounds"
proof -
  define pre where "pre = print_line r"
  define src where "src = pre @ h_name h @ '':'' @ h_value h"
  define a where "a = length pre + length (h_name h)"
  have src2: "src = (pre @ h_name h @ '':'') @ h_value h @ []" by (simp add: src_def)
  have 1: "skip_while (\<lambda>c. c \<noteq> CHR '':'') src (length pre) = a"
    unfolding src_def a_def using assms by (intro skip_while_run) (auto simp: header_ok_def)
  have 2: "skip_while (\<lambda>c. c \<noteq> CR) src (a + 1) = length src"
    using skip_while_run [of "h_value h" "\<lambda>c. c \<noteq> CR" "[]" "pre @ h_name h @ '':''"] assms(2)
    unfolding src2 by (auto simp: header_ok_def a_def add.assoc)
  have "a \<noteq> length src" by (simp add: a_def src_def)
  then have "parse_header src (length pre) = Inl Out_of_bounds"
    unfolding parse_header_def Let_def 1 2 by simp
  moreover have "src ! length pre \<noteq> CR"
    using assms(2) by (cases "h_name h") (auto simp: src_def header_ok_def nth_append)
  ultimately have "parse_headers src (length pre) (r\<lparr>hs := []\<rparr>) = Inl Out_of_bounds"
    by (subst parse_headers.simps) simp
  then show ?thesis using parse_line_print [OF assms(1)] by (simp add: src_def pre_def)
qed

theorem parse_truncated_reads_past_witness:
  "parse_request_head (print_line \<lparr>req_method = M_GET, req_path = ''/'', major = 1, minor = 1, hs = []\<rparr>
     @ ''Host'' @ '':'' @ ''x'') \<lparr>req_method = M_POST, req_path = [], major = 0, minor = 0, hs = []\<rparr> = Inl Out_of_bounds"
  using parse_truncated_reads_past [of "\<lparr>req_method = M_GET, req_path = ''/'', major = 1, minor = 1, hs = []\<rparr>"
     "\<lparr>h_name = ''Host'', h_value = ''x''\<rparr>" "\<lparr>req_method = M_POST, req_path = [], major = 0, minor = 0, hs = []\<rparr>"]
  by (simp add: request_ok_def header_ok_def)

subsection \<open>Header names and values\<close>

lemma to_lower_inject: "to_lower c = to_lower d \<longleftrightarrow> c = d"
proof
  assume eq: "to_lower c = to_lower d"
  have b: "code x < 256" for x 
    unfolding code_def using of_char_mod_256 [of x] by (metis mod_less_divisor zero_less_numeral)
  have "of_char (to_lower x) = (code x + 32) mod 256" for x
    by (auto simp: to_lower_def)
  with eq have "(code c + 32) mod 256 = (code d + 32) mod 256" by metis
  moreover have "((a + 32) mod 256 + 224) mod 256 = a" if "a < 256" for a :: nat
    using that by (simp add: mod_add_left_eq)
  ultimately have "code c = code d" using b [of c] b [of d] by metis
  then show "c = d" by (simp add: code_def)
qed simp

lemma string_match_iff: "string_match_case_insensitive x y \<longleftrightarrow> x = y"
  by (auto simp: string_match_case_insensitive_def to_lower_inject list_all_iff intro: nth_equalityI)

text \<open>Header names are matched exactly, not regardless of case: the test \<^verbatim>\<open>c >= 'A' || c <= 'Z'\<close>
  of \<open>to_lower\<close> is always true, so that it shifts every character by the same amount. A lookup
  finds the first header whose name is equal to the one asked for.\<close>

theorem header_names_match_exactly:
  "match_header_name s1 s2 \<longleftrightarrow> s1 = s2"
  by (simp add: match_header_name_def string_match_iff)

lemma trim_end_eq:
  "\<exists>c\<in>set (take n s). \<not> is_space c \<Longrightarrow> n \<le> length s \<Longrightarrow>
     \<exists>m. trim_end s n = Inr m \<and> take m s = rev (dropWhile is_space (rev (take n s)))"
proof (induction n)
  case 0
  then show ?case by simp
next
  case (Suc n)
  have split: "take (Suc n) s = take n s @ [s ! n]" using Suc.prems(2) by (simp add: take_Suc_conv_app_nth)
  show ?case
  proof (cases "is_space (s ! n)")
    case True
    with Suc split show ?thesis by auto
  next
    case False
    then show ?thesis unfolding split by (simp add: split)
  qed
qed

definition trimmed_right :: "string \<Rightarrow> string" where
  "trimmed_right s = rev (dropWhile is_space (rev s))"

lemma trim_eq: "trim s = Inr (trimmed_right s)"
proof (cases "skip_while is_space s 0 = length s")
  case True
  then have "\<forall>c\<in>set s. is_space c"
    using skip_while_eq [of 0 s is_space] by (metis add_0 drop_0 le0 takeWhile_eq_all_conv takeWhile_eq_take take_all_iff order_refl)
  then have "dropWhile is_space (rev s) = []" by simp
  with True show ?thesis by (simp add: trim_def trimmed_right_def)
next
  case False
  then have "skip_while is_space s 0 < length s" by (metis le0 le_neq_implies_less skip_while_le)
  then have "\<exists>c\<in>set (take (length s) s). \<not> is_space c" using skip_while_stop nth_mem by fastforce
  from trim_end_eq [OF this] False show ?thesis by (auto simp: trim_def trimmed_right_def)
qed

lemma trimmed_right_Cons: "trimmed_right (c # s) = [] \<or> (\<exists>t. trimmed_right (c # s) = c # t)"
proof (cases "\<exists>x\<in>set s. \<not> is_space x")
  case True
  then obtain x where "x \<in> set (rev s)" "\<not> is_space x" by auto
  then show ?thesis by (simp add: trimmed_right_def dropWhile_append1)
next
  case False
  then have "dropWhile is_space (rev s @ [c]) = dropWhile is_space [c]" by (intro dropWhile_append2) auto
  then show ?thesis by (simp add: trimmed_right_def)
qed

text \<open>\<open>trim\<close> returns, removes white space at the end only, and keeps leading white space, so
  that the value of a header written with a space after the colon, such as \<open>Connection: Close\<close>,
  never matches its name.\<close>

theorem header_values_keep_leading_space:
  "match_header_value s1 s2 = Inr (trimmed_right s1 = trimmed_right s2)
   \<and> match_header_value (CHR '' '' # s) ''Close'' = Inr False"
proof -
  have eq: "match_header_value s1 s2 = Inr (trimmed_right s1 = trimmed_right s2)" for s1 s2
    by (simp add: match_header_value_def trim_eq string_match_iff)
  have "trimmed_right ''Close'' = ''Close''" by (simp add: trimmed_right_def is_space_def)
  moreover have "trimmed_right (CHR '' '' # s) \<noteq> ''Close''"
    using trimmed_right_Cons [of "CHR '' ''" s] by auto
  ultimately show ?thesis using eq by simp
qed

subsection \<open>Content-Length\<close>

definition decimal :: "nat \<Rightarrow> string \<Rightarrow> nat" where
  "decimal = foldl (\<lambda>n c. n * 10 + (code c - 48))"

text \<open>The grammar of the value: digits between optional white space.\<close>

definition content_number :: "string \<Rightarrow> nat option" where
  "content_number s =
     (let t = dropWhile is_space s;
          ds = takeWhile is_digit t;
          rest = dropWhile is_digit t
      in if ds \<noteq> [] \<and> list_all is_space rest then Some (decimal 0 ds) else None)"

lemma decimal_ge: "n \<le> decimal n ds"
proof (induction ds arbitrary: n)
  case (Cons c ds)
  have "n \<le> n * 10 + (code c - 48)" by simp
  also have "\<dots> \<le> decimal (n * 10 + (code c - 48)) ds" by (rule Cons.IH)
  finally show ?case by (simp add: decimal_def)
qed (simp add: decimal_def)

lemma overflow_check:
  assumes "d < 10"
  shows "x > (- 1 - of_nat d) div (10 :: u64) \<longleftrightarrow> 2 ^ 64 \<le> unat x * 10 + d"
proof -
  have d: "unat (of_nat d :: u64) = d" using assms by (intro unat_of_nat_small) simp
  have m: "unat (- 1 :: u64) = 2 ^ 64 - 1" by (simp add: unsigned_minus_1_eq_mask mask_eq_exp_minus_1)
  have "(of_nat d :: u64) \<le> - 1" by (rule word_n1_ge)
  then have "unat (- 1 - of_nat d :: u64) = 2 ^ 64 - 1 - d" using d m by (simp only: unat_sub)
  then have "unat ((- 1 - of_nat d) div (10 :: u64)) = (2 ^ 64 - 1 - d) div 10" by (simp only: unat_div) simp
  then have "x > (- 1 - of_nat d) div (10 :: u64) \<longleftrightarrow> (2 ^ 64 - 1 - d) div 10 < unat x"
    by (simp add: word_less_nat_alt)
  also have "\<dots> \<longleftrightarrow> 2 ^ 64 - 1 - d < unat x * 10" by (rule div_less_iff_less_mult) simp
  also have "\<dots> \<longleftrightarrow> 2 ^ 64 \<le> unat x * 10 + d" using assms by auto
  finally show ?thesis .
qed

lemma digits_loop_value:
  assumes "cur < length s" "is_digit (s ! cur)"
  shows "digits_loop s cur x =
     (let v = decimal (unat x) (takeWhile is_digit (drop cur s)) in
      if v < 2 ^ 64 then Some (of_nat v, cur + length (takeWhile is_digit (drop cur s))) else None)"
  using assms
proof (induction s cur x rule: digits_loop.induct)
  case (1 s cur x)
  define d where "d = code (s ! cur) - 48"
  define x' where "x' = x * 10 + of_nat d"
  have d: "d < 10" using "1.prems"(2) unfolding d_def is_digit_def by arith
  have tw: "takeWhile is_digit (drop cur s) = s ! cur # takeWhile is_digit (drop (Suc cur) s)"
    using "1.prems" by (simp add: Cons_nth_drop_Suc [symmetric])
  have dec: "decimal (unat x) (takeWhile is_digit (drop cur s))
      = decimal (unat x * 10 + d) (takeWhile is_digit (drop (Suc cur) s))"
    unfolding tw by (simp add: decimal_def d_def)
  show ?case
  proof (cases "2 ^ 64 \<le> unat x * 10 + d")
    case True
    then have "digits_loop s cur x = None"
      using overflow_check [OF d, of x] by (subst digits_loop.simps) (simp add: d_def Let_def)
    moreover have "\<not> decimal (unat x) (takeWhile is_digit (drop cur s)) < 2 ^ 64"
      using True decimal_ge [of "unat x * 10 + d"] unfolding dec by (meson le_trans not_le)
    ultimately show ?thesis by (simp add: Let_def)
  next
    case False
    have no: "\<not> x > (- 1 - of_nat d) div (10 :: u64)" using overflow_check [OF d, of x] False by simp
    have x': "unat x' = unat x * 10 + d"
    proof -
      have "unat (of_nat (unat x * 10 + d) :: u64) = unat x * 10 + d" using False by (intro unat_of_nat_small) simp
      then show ?thesis by (simp add: x'_def)
    qed
    show ?thesis
    proof (cases "Suc cur < length s \<and> is_digit (s ! Suc cur)")
      case True
      have "digits_loop s cur x = digits_loop s (Suc cur) x'"
        using no True by (subst digits_loop.simps) (simp add: d_def Let_def x'_def)
      also have "\<dots> = (let v = decimal (unat x') (takeWhile is_digit (drop (Suc cur) s)) in
          if v < 2 ^ 64 then Some (of_nat v, Suc cur + length (takeWhile is_digit (drop (Suc cur) s))) else None)"
        using "1.IH" [of "of_nat d" x' "Suc cur"] no True by (simp add: d_def x'_def)
      finally show ?thesis using dec unfolding x' tw by (simp add: Let_def)
    next
      case False
      then have "takeWhile is_digit (drop (Suc cur) s) = []"
        by (cases "Suc cur < length s") (auto simp: Cons_nth_drop_Suc [symmetric])
      moreover have "digits_loop s cur x = Some (x', Suc cur)"
        using no False by (subst digits_loop.simps) (auto simp: d_def Let_def x'_def)
      moreover have "x' = of_nat (unat x * 10 + d)" by (simp add: x'_def)
      moreover have "unat x * 10 + d < 2 ^ 64" using \<open>\<not> 2 ^ 64 \<le> unat x * 10 + d\<close> by (simp only: not_le)
      ultimately show ?thesis using dec tw by (simp add: decimal_def Let_def)
    qed
  qed
qed

lemma content_length_value:
  "unat (parse_content_length s) =
     (case content_number s of None \<Rightarrow> 2 ^ 64 - 1 | Some n \<Rightarrow> min n (2 ^ 64 - 1))"
proof -
  define cur where "cur = skip_while is_space s 0"
  define t where "t = dropWhile is_space s"
  have cur: "cur = length (takeWhile is_space s)" using skip_while_eq [of 0 s is_space] by (simp add: cur_def)
  have t: "drop cur s = t" unfolding cur t_def by (metis append_eq_conv_conj takeWhile_dropWhile_id)
  have le: "cur \<le> length s" by (simp add: cur length_takeWhile_le)
  have m1: "unat (- 1 :: u64) = 2 ^ 64 - 1" by (simp add: unsigned_minus_1_eq_mask mask_eq_exp_minus_1)
  define ds where "ds = takeWhile is_digit t"
  show ?thesis
  proof (cases "cur = length s \<or> \<not> is_digit (s ! cur)")
    case True
    then have "ds = []"
      unfolding ds_def t [symmetric] using le
      by (cases "cur = length s") (auto simp: Cons_nth_drop_Suc [symmetric])
    then show ?thesis
      using True m1 by (simp add: parse_content_length_def Let_def cur_def [symmetric] content_number_def t_def [symmetric] ds_def [symmetric])
  next
    case False
    then have c: "cur < length s" "is_digit (s ! cur)" using le by auto
    have ne: "ds \<noteq> []" unfolding ds_def t [symmetric] using c by (simp add: Cons_nth_drop_Suc [symmetric])
    have end_le: "cur + length ds \<le> length s"
      using length_takeWhile_le [of is_digit t] le unfolding ds_def t [symmetric] by simp
    have rest: "drop (cur + length ds) s = dropWhile is_digit t"
      unfolding ds_def t [symmetric] by (metis add.commute append_eq_conv_conj drop_drop takeWhile_dropWhile_id)
    have tail: "skip_while is_space s (cur + length ds) = length s \<longleftrightarrow> list_all is_space (dropWhile is_digit t)"
    proof -
      have "skip_while is_space s (cur + length ds) = cur + length ds + length (takeWhile is_space (dropWhile is_digit t))"
        using skip_while_eq [OF end_le] rest by simp
      moreover have "length (dropWhile is_digit t) = length s - (cur + length ds)" using rest by (metis length_drop)
      moreover have "length (takeWhile is_space u) = length u \<longleftrightarrow> list_all is_space u" for u
        by (metis list_all_iff takeWhile_eq_all_conv takeWhile_eq_take take_all_iff order_refl)
      ultimately show ?thesis using end_le by (metis add_diff_cancel_left' le_add_diff_inverse)
    qed
    define v where "v = decimal 0 ds"
    have loop: "digits_loop s cur 0 = (if v < 2 ^ 64 then Some (of_nat v, cur + length ds) else None)"
      using digits_loop_value [OF c, of 0] by (simp add: t ds_def v_def Let_def)
    have num: "content_number s = (if list_all is_space (dropWhile is_digit t) then Some v else None)"
      using ne by (simp add: content_number_def t_def [symmetric] ds_def [symmetric] v_def Let_def)
    have "unat (of_nat v :: u64) = v" if "v < 2 ^ 64" using that by (intro unat_of_nat_small) simp
    then show ?thesis
      using False m1 unfolding parse_content_length_def Let_def cur_def [symmetric] loop num
      by (auto simp: tail min_def)
  qed
qed

text \<open>The reader of Content-Length computes the decimal number written between optional white
  space, for every value. A value of any other form, or a number of \<open>2^64 - 1\<close> or more, gives
  \<open>(size_t) -1\<close>: the overflow check is exact.\<close>

theorem content_length_correct:
  "unat (parse_content_length s) =
     (case content_number s of None \<Rightarrow> 2 ^ 64 - 1 | Some n \<Rightarrow> min n (2 ^ 64 - 1))"
  by (rule content_length_value)

subsection \<open>Transfer-Encoding\<close>

lemma encoding_loop_fails: "encoding_loop src cur flags = - 1"
proof (induction src cur flags rule: encoding_loop.induct)
  case (1 src cur flags)
  then show ?case by (subst encoding_loop.simps) (simp add: Let_def)
qed

text \<open>The reader of Transfer-Encoding fails on every request that has the header: its loop has
  no way out but the error, so that a list of encodings it knows is an error too.\<close>

theorem transfer_encoding_always_fails:
  "find_and_parse_transfer_encoding r = (if find_header r ''Transfer-Encoding'' = None then 0 else - 1)"
  by (auto simp: find_and_parse_transfer_encoding_def encoding_loop_fails split: option.splits)

end
