(* ===== verification/HttpPath.thy ===== *)
theory HttpPath
  imports Parse
begin

section \<open>Request paths (\<^verbatim>\<open>http/path.c\<close>)\<close>

text \<open>
  Splitting a path into components while resolving \<^verbatim>\<open>.\<close> and \<^verbatim>\<open>..\<close>, writing the sanitised path
  into a buffer, and matching a path against a format with placeholders. The stack of components
  is a list (its length is \<^verbatim>\<open>depth\<close>); the results \<^verbatim>\<open>-1\<close> of the C functions are \<open>None\<close>.
\<close>

definition is_print :: "char \<Rightarrow> bool" where
  "is_print c \<longleftrightarrow> 32 \<le> code c \<and> code c < 127"

definition is_pcomp :: "char \<Rightarrow> bool" where
  "is_pcomp c \<longleftrightarrow> c \<noteq> CHR ''/'' \<and> c \<noteq> CHR '':'' \<and> is_print c"

abbreviation PATH_SEP :: char where "PATH_SEP \<equiv> CHR ''/''"

definition comp_char :: "bool \<Rightarrow> char \<Rightarrow> bool" where
  "comp_char allow_ddots c \<longleftrightarrow> is_pcomp c \<or> (allow_ddots \<and> c = CHR '':'')"

text \<open>What one component does to the stack.\<close>

definition push_comp :: "string list \<Rightarrow> string \<Rightarrow> string list option" where
  "push_comp stack piece =
     (if piece = ''..'' then (if stack = [] then None else Some (butlast stack))
      else if piece \<noteq> ''.'' then Some (stack @ [piece]) else Some stack)"

function comps_loop :: "string \<Rightarrow> nat \<Rightarrow> bool \<Rightarrow> nat \<Rightarrow> string list \<Rightarrow> string list option" where
  "comps_loop src limit allow_ddots cur stack =
     (if cur < length src then
        if length stack = limit then None
        else
          let start = cur;
              cur' = skip_while (comp_char allow_ddots) src cur;
              piece = chunk src start (cur' - start)
          in if piece = [] then None
          else case push_comp stack piece of
            None \<Rightarrow> None
          | Some stack \<Rightarrow>
              if cur' = length src then Some stack
              else if src ! cur' \<noteq> PATH_SEP then None
              else comps_loop src limit allow_ddots (cur' + 1) stack
      else Some stack)"
  by pat_completeness auto
termination
  by (relation "measure (\<lambda>(src, limit, dd, cur, stack). length src - cur)")
     (auto simp: le_imp_less_Suc diff_less_mono2)

declare comps_loop.simps [simp del]

definition split_path_components :: "string \<Rightarrow> nat \<Rightarrow> bool \<Rightarrow> string list option" where
  "split_path_components src limit allow_ddots =
     comps_loop src limit allow_ddots (if 0 < length src \<and> src ! 0 = PATH_SEP then 1 else 0) []"

definition MAX_COMPS :: nat where "MAX_COMPS = 64"

text \<open>The copying loop of \<open>sanitize_path\<close>.\<close>

fun copy_comps :: "string list \<Rightarrow> string \<Rightarrow> nat \<Rightarrow> (nat \<times> string) res" where
  "copy_comps [] mem n = Inr (n, mem)"
| "copy_comps (c # cs) mem n =
     rbind (wr mem n PATH_SEP) (\<lambda>mem.
     rbind (memcpy mem (n + 1) c) (\<lambda>mem. copy_comps cs mem (n + 1 + length c)))"

definition sanitize_path :: "string \<Rightarrow> string \<Rightarrow> nat \<Rightarrow> (nat option \<times> string) res" where
  "sanitize_path src mem cap =
     (case split_path_components src MAX_COMPS False of
        None \<Rightarrow> Inr (None, mem)
      | Some stack \<Rightarrow>
          let req = length stack + sum_list (map length stack) in
          if cap \<le> req then Inr (None, mem)
          else
            rbind (copy_comps stack mem 0) (\<lambda>(n, mem).
            rbind (wr mem n (CHR 0x00)) (\<lambda>mem. Inr (Some n, mem))))"

subsection \<open>Matching formats\<close>

text \<open>The values a match stores through its variable arguments, in order.\<close>

datatype path_arg = Arg_slice string | Arg_number u32

text \<open>The loop that reads a number; \<open>None\<close> on overflow or when the component is not a number.\<close>

fun number_loop :: "string \<Rightarrow> u32 \<Rightarrow> u32 option" where
  "number_loop [] n = Some n"
| "number_loop (c # cs) n =
     (if is_digit c then
        let d = of_nat (code c - 48) in
        if n > (- 1 - d) div 10 then None else number_loop cs (n * 10 + d)
      else None)"

fun match_comps :: "string list \<Rightarrow> string list \<Rightarrow> path_arg list \<Rightarrow> (int \<times> path_arg list) res" where
  "match_comps (p # ps) (f # fs) args =
     rbind (c_assert (0 < length f)) (\<lambda>_.
     rbind (c_assert (0 < length p)) (\<lambda>_.
       if f ! 0 = CHR '':'' then
         if length f \<noteq> 2 then Inr (- 1, args)
         else if f ! 1 = CHR ''l'' then match_comps ps fs (args @ [Arg_slice p])
         else if f ! 1 = CHR ''n'' then
           (case number_loop p 0 of
              None \<Rightarrow> Inr (- 1, args)
            | Some n \<Rightarrow> match_comps ps fs (args @ [Arg_number n]))
         else Inr (- 1, args)
       else if length f \<noteq> length p then Inr (1, args)
       else if f \<noteq> p then Inr (0, args)
       else match_comps ps fs args))"
| "match_comps _ _ args = Inr (0, args)"

definition LIMIT :: nat where "LIMIT = 32"

definition match_path_format :: "string \<Rightarrow> string \<Rightarrow> (int \<times> path_arg list) res" where
  "match_path_format path fmt =
     (case (split_path_components path LIMIT False, split_path_components fmt LIMIT True) of
        (Some ps, Some fs) \<Rightarrow> if length ps \<noteq> length fs then Inr (1, []) else match_comps ps fs []
      | _ \<Rightarrow> Inr (- 1, []))"

subsection \<open>What the components are\<close>

text \<open>A component that may appear in a sanitised path.\<close>

definition clean_comp :: "bool \<Rightarrow> string \<Rightarrow> bool" where
  "clean_comp dd c \<longleftrightarrow> c \<noteq> [] \<and> c \<noteq> ''.'' \<and> c \<noteq> ''..'' \<and> list_all (comp_char dd) c"

lemma skip_chunk:
  assumes "cur \<le> length src"
  shows "list_all p (chunk src cur (skip_while p src cur - cur))"
proof -
  have "skip_while p src cur - cur = length (takeWhile p (drop cur src))" using skip_while_eq [OF assms] by simp
  then have "chunk src cur (skip_while p src cur - cur) = takeWhile p (drop cur src)"
    by (simp add: chunk_def takeWhile_eq_take [symmetric])
  then show ?thesis by (auto simp: list_all_iff dest: set_takeWhileD)
qed

lemma push_comp_clean:
  assumes "push_comp stack c = Some stack'" "list_all (clean_comp dd) stack" "c \<noteq> []" "list_all (comp_char dd) c"
    "length stack < limit"
  shows "list_all (clean_comp dd) stack' \<and> length stack' \<le> limit"
  using assms by (auto simp: push_comp_def clean_comp_def list_all_iff split: if_splits dest: in_set_butlastD)

lemma comps_loop_clean:
  "comps_loop src limit dd cur stack = Some out \<Longrightarrow> list_all (clean_comp dd) stack \<Longrightarrow> length stack \<le> limit
     \<Longrightarrow> list_all (clean_comp dd) out \<and> length out \<le> limit"
proof (induction src limit dd cur stack rule: comps_loop.induct)
  case (1 src limit dd cur stack)
  define c where "c = skip_while (comp_char dd) src cur"
  define piece where "piece = chunk src cur (c - cur)"
  show ?case
  proof (cases "cur < length src \<and> length stack \<noteq> limit \<and> piece \<noteq> [] \<and> push_comp stack piece \<noteq> None")
    case False
    with "1.prems" show ?thesis
      by (auto simp: comps_loop.simps [of src limit dd cur stack] Let_def piece_def c_def split: if_splits)
  next
    case True
    then obtain st where st: "push_comp stack piece = Some st" by auto
    have "list_all (comp_char dd) piece" unfolding piece_def c_def using True by (intro skip_chunk) simp
    then have clean: "list_all (clean_comp dd) st \<and> length st \<le> limit"
      using push_comp_clean [OF st "1.prems"(2), of limit] True "1.prems"(3) by auto
    have run: "comps_loop src limit dd cur stack =
        (if c = length src then Some st else if src ! c \<noteq> PATH_SEP then None else comps_loop src limit dd (c + 1) st)"
      using True st by (subst comps_loop.simps) (simp add: Let_def piece_def c_def)
    show ?thesis
    proof (cases "c = length src \<or> src ! c \<noteq> PATH_SEP")
      case True
      with "1.prems"(1) run clean show ?thesis by (auto split: if_splits)
    next
      case False
      then have "comps_loop src limit dd (c + 1) st = Some out" using "1.prems"(1) run by simp
      then show ?thesis
        using "1.IH" [OF _ _ refl c_def piece_def] True False st clean by simp
    qed
  qed
qed

lemma split_clean:
  "split_path_components src limit dd = Some out \<Longrightarrow> list_all (clean_comp dd) out \<and> length out \<le> limit"
  unfolding split_path_components_def by (rule comps_loop_clean) auto

subsection \<open>The sanitised path\<close>

definition print_path :: "string list \<Rightarrow> string" where
  "print_path cs = concat (map (\<lambda>c. PATH_SEP # c) cs)"

lemma length_print_path: "length (print_path cs) = length cs + sum_list (map length cs)"
  by (induction cs) (auto simp: print_path_def)

lemma wr_memcpy:
  assumes "n + 1 + length c \<le> length mem"
  shows "blit (mem[n := x]) (n + 1) c = blit mem n (x # c)"
  using assms by (auto simp: blit_def take_Suc_conv_app_nth take_update_swap list_update_append upd_conv_take_nth_drop ac_simps)

lemma blit_blit_next:
  assumes "n + length a + length b \<le> length mem"
  shows "blit (blit mem n a) (n + length a) b = blit mem n (a @ b)"
  using assms by (simp add: blit_def ac_simps)

lemma copy_comps_ok:
  "n + length (print_path cs) \<le> length mem \<Longrightarrow>
     copy_comps cs mem n = Inr (n + length (print_path cs), blit mem n (print_path cs))"
proof (induction cs arbitrary: mem n)
  case Nil
  then show ?case by (simp add: print_path_def)
next
  case (Cons c cs)
  have len: "n + 1 + length c + length (print_path cs) \<le> length mem"
    using Cons.prems by (simp add: print_path_def)
  define mem1 where "mem1 = blit mem n (PATH_SEP # c)"
  have l1: "length mem1 = length mem" using len by (simp add: mem1_def)
  have "copy_comps (c # cs) mem n = copy_comps cs mem1 (n + 1 + length c)"
    using len wr_memcpy [of n c mem] by (simp add: mem1_def)
  also have "\<dots> = Inr (n + 1 + length c + length (print_path cs), blit mem1 (n + 1 + length c) (print_path cs))"
    using len l1 by (intro Cons.IH) simp
  also have "blit mem1 (n + 1 + length c) (print_path cs) = blit mem n (print_path (c # cs))"
    using blit_blit_next [of n "PATH_SEP # c" "print_path cs" mem] len by (simp add: mem1_def print_path_def)
  finally show ?case by (simp add: print_path_def)
qed

lemma sanitize_cases:
  assumes "cap \<le> length mem"
  shows "sanitize_path src mem cap =
     (case split_path_components src MAX_COMPS False of
        None \<Rightarrow> Inr (None, mem)
      | Some cs \<Rightarrow>
          if cap \<le> length (print_path cs) then Inr (None, mem)
          else Inr (Some (length (print_path cs)), blit mem 0 (print_path cs @ [CHR 0x00])))"
proof -
  have "rbind (copy_comps cs mem 0) (\<lambda>(n, mem). rbind (wr mem n (CHR 0x00)) (\<lambda>mem. Inr (Some n, mem)))
      = Inr (Some (length (print_path cs)), blit mem 0 (print_path cs @ [CHR 0x00]))"
    if "length (print_path cs) < cap" for cs
  proof -
    have len: "length (print_path cs) < length mem" using that assms by simp
    then have "copy_comps cs mem 0 = Inr (length (print_path cs), blit mem 0 (print_path cs))"
      using copy_comps_ok [of 0 cs mem] by simp
    moreover have "(blit mem 0 (print_path cs))[length (print_path cs) := CHR 0x00] = blit mem 0 (print_path cs @ [CHR 0x00])"
      using len by (simp add: blit_def list_update_append Cons_nth_drop_Suc [symmetric])
    ultimately show ?thesis using len by simp
  qed
  then show ?thesis
    by (auto simp: sanitize_path_def Let_def length_print_path not_le split: option.splits)
qed

text \<open>The result of sanitising: \<open>n\<close> bytes and a terminator, within the capacity, that spell a
  sequence of at most 64 clean components, each behind a slash.\<close>

definition sanitized :: "string \<Rightarrow> nat \<Rightarrow> nat \<Rightarrow> string \<Rightarrow> bool" where
  "sanitized mem cap n mem' \<longleftrightarrow>
     n < cap \<and> mem' ! n = CHR 0x00 \<and> length mem' = length mem \<and> drop (n + 1) mem' = drop (n + 1) mem
     \<and> (\<exists>cs. take n mem' = print_path cs \<and> list_all (clean_comp False) cs \<and> length cs \<le> MAX_COMPS)"

lemma sanitize_result:
  assumes "cap \<le> length mem" "sanitize_path src mem cap = Inr (Some n, mem')"
  obtains cs where "split_path_components src MAX_COMPS False = Some cs" "n = length (print_path cs)" "n < cap"
    "mem' = blit mem 0 (print_path cs @ [CHR 0x00])"
  using assms(2) unfolding sanitize_cases [OF assms(1)] by (auto split: option.splits if_splits simp: not_le)

text \<open>C9: Sanitising a path never leaves the buffer it is given and never produces a path that climbs
  out of its root: the call returns, and either it fails and changes nothing, or it writes fewer
  bytes than the capacity, which spell a sequence of components none of which is empty, \<open>.\<close> or
  \<open>..\<close>, or contains a slash, a colon or an unprintable character.\<close>

theorem sanitize_path_clean:
  assumes "cap \<le> length mem"
  shows "\<exists>out mem'. sanitize_path src mem cap = Inr (out, mem')
           \<and> (case out of None \<Rightarrow> mem' = mem | Some n \<Rightarrow> sanitized mem cap n mem')"
proof (cases "split_path_components src MAX_COMPS False")
  case None
  then show ?thesis using sanitize_cases [OF assms] by simp
next
  case (Some cs)
  show ?thesis
  proof (cases "cap \<le> length (print_path cs)")
    case True
    then show ?thesis using sanitize_cases [OF assms] Some by simp
  next
    case False
    then have len: "length (print_path cs) < length mem" using assms by simp
    define mem' where "mem' = blit mem 0 (print_path cs @ [CHR 0x00])"
    have "length mem' = length mem" "take (length (print_path cs)) mem' = print_path cs"
      "mem' ! length (print_path cs) = CHR 0x00" "drop (length (print_path cs) + 1) mem' = drop (length (print_path cs) + 1) mem"
      using len by (auto simp: mem'_def blit_def nth_append)
    then have "sanitized mem cap (length (print_path cs)) mem'"
      using False split_clean [OF Some] by (auto simp: sanitized_def)
    then show ?thesis using sanitize_cases [OF assms] Some False by (simp add: mem'_def)
  qed
qed

theorem sanitize_path_clean_witness:
  "\<exists>out mem'. sanitize_path ''/a/../b'' (replicate 16 (CHR ''x'')) 16 = Inr (out, mem')
     \<and> (case out of None \<Rightarrow> mem' = replicate 16 (CHR ''x'') | Some n \<Rightarrow> sanitized (replicate 16 (CHR ''x'')) 16 n mem')"
  by (rule sanitize_path_clean) simp

subsection \<open>Resolution\<close>

text \<open>The reference: resolve a list of components.\<close>

fun resolve :: "string list \<Rightarrow> string list \<Rightarrow> string list option" where
  "resolve stack [] = Some stack"
| "resolve stack (c # cs) =
     (if c = ''..'' then (if stack = [] then None else resolve (butlast stack) cs)
      else if c = ''.'' then resolve stack cs
      else resolve (stack @ [c]) cs)"

text \<open>The same with a stack of \<open>limit\<close> components: every component that follows when the stack is full, also one that would shorten it, is too much.\<close>

fun resolve_upto :: "nat \<Rightarrow> string list \<Rightarrow> string list \<Rightarrow> string list option" where
  "resolve_upto limit stack [] = Some stack"
| "resolve_upto limit stack (c # cs) =
     (if length stack = limit then None
      else if c = ''..'' then (if stack = [] then None else resolve_upto limit (butlast stack) cs)
      else if c = ''.'' then resolve_upto limit stack cs
      else resolve_upto limit (stack @ [c]) cs)"

lemma resolve_upto_enough: "length stack + length cs \<le> limit \<Longrightarrow> resolve_upto limit stack cs = resolve stack cs"
  by (induction cs arbitrary: stack) auto

definition raw_comp :: "bool \<Rightarrow> string \<Rightarrow> bool" where
  "raw_comp dd c \<longleftrightarrow> c \<noteq> [] \<and> list_all (comp_char dd) c"

lemma sep_not_comp [simp]: "\<not> comp_char dd PATH_SEP"
  by (simp add: comp_char_def is_pcomp_def)

lemma comps_loop_resolve:
  assumes "list_all (raw_comp dd) (c # cs)"
  shows "comps_loop (pre @ c @ print_path cs) limit dd (length pre) stack = resolve_upto limit stack (c # cs)"
  using assms
proof (induction cs arbitrary: pre c stack)
  case Nil
  have "skip_while (comp_char dd) (pre @ c @ []) (length pre) = length pre + length c"
    using Nil.prems by (intro skip_while_run) (auto simp: raw_comp_def list_all_iff)
  then show ?case
    using Nil.prems by (subst comps_loop.simps) (auto simp: raw_comp_def print_path_def chunk_def push_comp_def)
next
  case (Cons d cs)
  let ?src = "pre @ c @ print_path (d # cs)"
  have c: "skip_while (comp_char dd) ?src (length pre) = length pre + length c"
    using Cons.prems by (intro skip_while_run) (auto simp: raw_comp_def list_all_iff print_path_def)
  have piece: "chunk ?src (length pre) (length c) = c" by (rule chunk_run)
  have sep: "?src ! (length pre + length c) = PATH_SEP" by (simp add: print_path_def nth_append)
  have next_src: "?src = (pre @ c @ [PATH_SEP]) @ d @ print_path cs" by (simp add: print_path_def)
  have IH: "comps_loop ?src limit dd (length pre + length c + 1) st = resolve_upto limit st (d # cs)" for st
    using Cons.IH [of d "pre @ c @ [PATH_SEP]" st] Cons.prems unfolding next_src by simp
  have "c \<noteq> []" using Cons.prems by (auto simp: raw_comp_def)
  then have "comps_loop ?src limit dd (length pre) stack =
      (if length stack = limit then None else case push_comp stack c of None \<Rightarrow> None | Some st \<Rightarrow> comps_loop ?src limit dd (length pre + length c + 1) st)"
    using c piece sep by (subst comps_loop.simps) (auto simp: Let_def print_path_def split: option.splits)
  also have "\<dots> = resolve_upto limit stack (c # d # cs)"
    unfolding push_comp_def IH resolve_upto.simps(2) [of limit stack c "d # cs"] by (simp del: resolve_upto.simps)
  finally show ?case .
qed

lemma split_print_upto:
  assumes "list_all (raw_comp dd) cs"
  shows "split_path_components (print_path cs) limit dd = resolve_upto limit [] cs"
proof (cases cs)
  case Nil
  then show ?thesis by (simp add: split_path_components_def print_path_def comps_loop.simps)
next
  case (Cons c ds)
  then show ?thesis
    using comps_loop_resolve [of dd c ds "[PATH_SEP]" limit "[]"] assms
    by (simp add: split_path_components_def print_path_def)
qed

lemma split_print:
  "list_all (raw_comp dd) cs \<Longrightarrow> length cs \<le> limit \<Longrightarrow> split_path_components (print_path cs) limit dd = resolve [] cs"
  by (simp add: split_print_upto resolve_upto_enough)

lemma resolve_clean: "list_all (clean_comp dd) cs \<Longrightarrow> resolve stack cs = Some (stack @ cs)"
  by (induction cs arbitrary: stack) (auto simp: clean_comp_def)

lemma clean_raw: "list_all (clean_comp dd) cs \<Longrightarrow> list_all (raw_comp dd) cs"
  by (auto simp: list_all_iff clean_comp_def raw_comp_def)

text \<open>C22: Splitting a path agrees with resolving its components one after the other on a stack of \<open>limit\<close> places, \<open>.\<close> dropped and \<open>..\<close> removing the component before it.
  It fails exactly when a \<open>..\<close> would climb above the root or when a component follows while the stack is full. With no more than \<open>limit\<close> components the limit plays no role, and more than \<open>limit\<close>
  plain components are always refused.\<close>

theorem split_path_resolves:
  assumes "list_all (raw_comp dd) cs"
  shows "split_path_components (print_path cs) limit dd = resolve_upto limit [] cs
    \<and> (length cs \<le> limit \<longrightarrow> split_path_components (print_path cs) limit dd = resolve [] cs)
    \<and> (list_all (clean_comp dd) cs \<longrightarrow> limit < length cs \<longrightarrow> split_path_components (print_path cs) limit dd = None)"
proof -
  have full: "length stack \<le> limit \<Longrightarrow> limit < length stack + length ds \<Longrightarrow> list_all (clean_comp dd) ds \<Longrightarrow> resolve_upto limit stack ds = None" for stack ds
    by (induction ds arbitrary: stack) (auto simp: clean_comp_def)
  show ?thesis using split_print_upto [OF assms, of limit] split_print [OF assms, of limit] full [of "[]" cs] by auto
qed

theorem split_path_resolves_witness:
  "split_path_components (print_path [''a'', ''..'', ''.'', ''b'']) 64 False = Some [''b''] \<and> split_path_components (print_path [''a'', ''b'']) 1 False = None"
  using split_path_resolves [of False "[''a'', ''..'', ''.'', ''b'']" 64] split_path_resolves [of False "[''a'', ''b'']" 1]
  by (simp add: raw_comp_def comp_char_def is_pcomp_def is_print_def code_def)

text \<open>Sanitising is idempotent: a sanitised path is accepted by a second call with the same
  capacity, which writes the same bytes.\<close>

theorem sanitize_path_idempotent:
  assumes "cap \<le> length mem" "sanitize_path src mem cap = Inr (Some n, mem')"
  shows "sanitize_path (take n mem') mem cap = Inr (Some n, mem')"
proof -
  obtain cs where cs: "split_path_components src MAX_COMPS False = Some cs" "n = length (print_path cs)" "n < cap"
    "mem' = blit mem 0 (print_path cs @ [CHR 0x00])"
    using assms by (rule sanitize_result)
  note clean = split_clean [OF cs(1)]
  have "take n mem' = print_path cs" using cs(2,4) by (simp add: blit_def)
  moreover have "split_path_components (print_path cs) MAX_COMPS False = Some cs"
    using split_print [of False cs MAX_COMPS] clean clean_raw resolve_clean [of False cs "[]"] by simp
  ultimately show ?thesis using cs sanitize_cases [OF assms(1)] by simp
qed

lemma example_sanitize:
  "sanitize_path ''/a/../b'' (replicate 8 (CHR ''x'')) 8 = Inr (Some 2, ''/b'' @ [CHR 0x00] @ replicate 5 (CHR ''x''))"
  by code_simp

theorem sanitize_path_idempotent_witness:
  "sanitize_path ''/b'' (replicate 8 (CHR ''x'')) 8 = Inr (Some 2, ''/b'' @ [CHR 0x00] @ replicate 5 (CHR ''x''))"
  using sanitize_path_idempotent [OF _ example_sanitize] by simp

subsection \<open>Matching\<close>

text \<open>A format without placeholders matches every path whose components have the same lengths up
  to and including the first that differs: the comparison of the bytes answers \<open>false\<close>, which
  is the code of a match.\<close>

theorem match_path_wrong_component:
  assumes "list_all (clean_comp False) (p # ps)" "list_all (clean_comp True) (f # fs)"
    "length (p # ps) \<le> LIMIT" "length fs = length ps" "length f = length p" "f \<noteq> p" "f ! 0 \<noteq> CHR '':''"
  shows "match_path_format (print_path (p # ps)) (print_path (f # fs)) = Inr (0, [])"
proof -
  have "split_path_components (print_path (p # ps)) LIMIT False = Some (p # ps)"
    using split_print [OF clean_raw [OF assms(1)] assms(3)] resolve_clean [OF assms(1), of "[]"] by simp
  moreover have "split_path_components (print_path (f # fs)) LIMIT True = Some (f # fs)"
    using split_print [OF clean_raw [OF assms(2)], of LIMIT] resolve_clean [OF assms(2), of "[]"] assms(3,4) by simp
  ultimately show ?thesis
    using assms by (auto simp: match_path_format_def clean_comp_def)
qed

theorem match_path_wrong_component_witness:
  "match_path_format (print_path [''dogs'', ''7'']) (print_path [''cats'', '':n'']) = Inr (0, [])"
  by (rule match_path_wrong_component)
     (simp_all add: clean_comp_def comp_char_def is_pcomp_def is_print_def code_def LIMIT_def)

end
