(* ===== verification/Cookie.thy ===== *)
theory Cookie
  imports Parse
begin

section \<open>Cookies (\<^verbatim>\<open>http/cookie.c\<close>)\<close>

text \<open>
  The reader of a cookie from a request. The scanner of the header value is \<open>cookie_loop\<close>; its
  result is the value found, or \<open>None\<close> for the C result \<^verbatim>\<open>false\<close>.
\<close>

definition is_alnum_char :: "char \<Rightarrow> bool" where
  "is_alnum_char c \<longleftrightarrow> (97 \<le> code c \<and> code c \<le> 122) \<or> (65 \<le> code c \<and> code c \<le> 90) \<or> (48 \<le> code c \<and> code c \<le> 57)"

definition is_cookie_name :: "char \<Rightarrow> bool" where
  "is_cookie_name c \<longleftrightarrow> is_alnum_char c \<or> c = CHR ''_'' \<or> c = CHR ''-''"

definition is_cookie_value :: "char \<Rightarrow> bool" where
  "is_cookie_value c \<longleftrightarrow> is_alnum_char c \<or> c = CHR ''_'' \<or> c = CHR ''-''"

text \<open>One pair of the list: name, value and where the next pair starts. \<open>Inr None\<close> is a syntax error.\<close>

definition cookie_pair :: "string \<Rightarrow> nat \<Rightarrow> (string \<times> string \<times> nat) option res" where
  "cookie_pair src cur =
     (if \<not> is_cookie_name (src ! cur) then Inr None
      else
        let start = cur;
            cur = skip_while is_cookie_name src (cur + 1);
            name = chunk src start (cur - start);
            cur = skip_while is_space src cur
        in if cur = length src \<or> src ! cur \<noteq> CHR ''='' then Inr None
        else
          let cur = skip_while is_space src (cur + 1) in
          rbind (rd src cur) (\<lambda>c.
            if \<not> is_cookie_value c then Inr None
            else
              let start = cur;
                  cur = skip_while is_cookie_value src (cur + 1);
                  val = chunk src start (cur - start);
                  cur = skip_while is_space src cur
              in if cur < length src then
                   if src ! cur \<noteq> CHR '';'' then Inr None else Inr (Some (name, val, cur + 1))
                 else Inr (Some (name, val, cur))))"

lemma cookie_pair_advances: "cookie_pair src cur = Inr (Some (n, v, c)) \<Longrightarrow> cur < c"
proof -
  assume p: "cookie_pair src cur = Inr (Some (n, v, c))"
  define a where "a = skip_while is_space src (skip_while is_cookie_name src (cur + 1))"
  define b where "b = skip_while is_space src (a + 1)"
  define d where "d = skip_while is_space src (skip_while is_cookie_value src (b + 1))"
  have "cur + 1 \<le> a" unfolding a_def by (rule order_trans [OF skip_while_ge skip_while_ge])
  moreover have "a + 1 \<le> b" unfolding b_def by (rule skip_while_ge)
  moreover have "b + 1 \<le> d" unfolding d_def by (rule order_trans [OF skip_while_ge skip_while_ge])
  moreover have "d \<le> c"
    using p by (auto simp: cookie_pair_def Let_def a_def b_def d_def rbind_eq_Inr split: if_splits)
  ultimately show ?thesis by linarith
qed

function cookie_loop :: "string \<Rightarrow> string \<Rightarrow> nat \<Rightarrow> string option res" where
  "cookie_loop name src cur =
     (if cur < length src then
        let cur' = skip_while is_space src cur in
        if cur' = length src then Inr None
        else rbind (cookie_pair src cur') (\<lambda>p.
          case p of
            None \<Rightarrow> Inr None
          | Some (n, v, c) \<Rightarrow> if n = name then Inr (Some v) else cookie_loop name src c)
      else Inr None)"
  by pat_completeness auto
termination
proof (relation "measure (\<lambda>(name, src, cur). length src - cur)"; clarsimp)
  fix src :: string and cur n v c
  assume "cur < length src" "cookie_pair src (skip_while is_space src cur) = Inr (Some (n, v, c))"
  moreover from this(2) have "skip_while is_space src cur < c" by (rule cookie_pair_advances)
  moreover have "cur \<le> skip_while is_space src cur" by simp
  ultimately show "length src - c < length src - cur" by linarith
qed

declare cookie_loop.simps [simp del]

definition get_cookie :: "request \<Rightarrow> string \<Rightarrow> string option res" where
  "get_cookie r name = (case find_header r name of None \<Rightarrow> Inr None | Some v \<Rightarrow> cookie_loop name v 0)"

subsection \<open>Scanning a list of cookies\<close>

definition print_cookie :: "string \<times> string \<Rightarrow> string" where
  "print_cookie p = fst p @ ''='' @ snd p"

fun print_cookies :: "(string \<times> string) list \<Rightarrow> string" where
  "print_cookies [] = []"
| "print_cookies [p] = print_cookie p"
| "print_cookies (p # q # ps) = print_cookie p @ ''; '' @ print_cookies (q # ps)"

definition cookie_ok :: "string \<times> string \<Rightarrow> bool" where
  "cookie_ok p \<longleftrightarrow> fst p \<noteq> [] \<and> snd p \<noteq> [] \<and> list_all is_cookie_name (fst p) \<and> list_all is_cookie_value (snd p)"

lemma delims [simp]:
  "\<not> is_cookie_name (CHR ''='')" "\<not> is_cookie_value (CHR '';'')" "\<not> is_space (CHR ''='')" "\<not> is_space (CHR '';'')"
  "is_space (CHR '' '')"
  by (simp_all add: is_cookie_name_def is_cookie_value_def is_alnum_char_def is_space_def code_def)

lemma name_not_space: "is_cookie_name c \<Longrightarrow> \<not> is_space c" "is_cookie_value c \<Longrightarrow> \<not> is_space c"
  by (auto simp: is_space_def is_cookie_name_def is_cookie_value_def is_alnum_char_def code_def)

lemma skip_none: "cur < length src \<Longrightarrow> \<not> p (src ! cur) \<Longrightarrow> skip_while p src cur = cur"
  by (simp add: skip_while.simps)

lemma cookie_pair_print:
  assumes ok: "cookie_ok (n, v)" and post: "post = [] \<or> hd post = CHR '';''"
  shows "cookie_pair (pre @ print_cookie (n, v) @ post) (length pre)
    = Inr (Some (n, v, length pre + length (print_cookie (n, v)) + (if post = [] then 0 else 1)))"
proof -
  let ?src = "pre @ print_cookie (n, v) @ post"
  define a where "a = length pre + length n"
  define b where "b = a + 1 + length v"
  obtain n0 n' where n: "n = n0 # n'" using ok by (cases n) (auto simp: cookie_ok_def)
  obtain v0 v' where v: "v = v0 # v'" using ok by (cases v) (auto simp: cookie_ok_def)
  have chars: "is_cookie_name n0" "\<forall>c\<in>set n'. is_cookie_name c" "is_cookie_value v0" "\<forall>c\<in>set v'. is_cookie_value c"
    using ok by (auto simp: n v cookie_ok_def list_all_iff)
  have len: "length ?src = b + length post" by (simp add: print_cookie_def a_def b_def)
  have first: "?src ! length pre = n0" by (simp add: print_cookie_def n nth_append)
  have 1: "skip_while is_cookie_name ?src (length pre + 1) = a"
    using skip_while_run [of n' is_cookie_name "''='' @ v @ post" "pre @ [n0]"] chars
    by (simp add: print_cookie_def n a_def)
  have eq: "?src ! a = CHR ''=''" "a < length ?src" by (simp_all add: print_cookie_def a_def nth_append)
  have 2: "skip_while is_space ?src a = a" using eq by (intro skip_none) auto
  have v0: "?src ! (a + 1) = v0" "a + 1 < length ?src" by (simp_all add: print_cookie_def a_def nth_append v)
  have 3: "skip_while is_space ?src (a + 1) = a + 1" using v0 name_not_space(2) [OF chars(3)] by (intro skip_none) auto
  have 4: "skip_while is_cookie_value ?src (a + 1 + 1) = b"
    using skip_while_run [of v' is_cookie_value post "pre @ n @ ''='' @ [v0]"] chars post
    by (auto simp: print_cookie_def v a_def b_def)
  have 5: "skip_while is_space ?src b = b"
  proof (cases "post = []")
    case True
    then show ?thesis using len by (simp add: skip_while.simps)
  next
    case False
    then show ?thesis using post len
      by (intro skip_none) (auto simp: print_cookie_def a_def b_def nth_append hd_conv_nth)
  qed
  have 6: "chunk ?src (length pre) (a - length pre) = n"
    using chunk_run [of pre n "''='' @ v @ post"] by (simp add: print_cookie_def a_def)
  have 7: "chunk ?src (a + 1) (b - (a + 1)) = v"
    using chunk_run [of "pre @ n @ ''=''" v post] by (simp add: print_cookie_def a_def b_def)
  have semi: "post \<noteq> [] \<Longrightarrow> ?src ! b = CHR '';''"
    using post by (auto simp: print_cookie_def a_def b_def nth_append hd_conv_nth)
  show ?thesis
    unfolding cookie_pair_def Let_def first 1 2 3 4 5 6
    using chars eq v0 len semi 7
    by (cases "post = []") (simp_all add: rd_def 4 [simplified] 5 7 [simplified] print_cookie_def a_def b_def)
qed

lemma cookie_loop_print:
  assumes "list_all cookie_ok ps" "list_all is_space sp"
  shows "cookie_loop name (pre @ sp @ print_cookies ps) (length pre) = Inr (map_of ps name)"
  using assms
proof (induction ps arbitrary: pre sp rule: print_cookies.induct)
  case 1
  have "skip_while is_space (pre @ sp @ []) (length pre) = length pre + length sp"
    using "1.prems" by (intro skip_while_run) (auto simp: list_all_iff)
  then show ?case by (subst cookie_loop.simps) simp
next
  case (2 p)
  obtain n v where p: "p = (n, v)" by (cases p)
  obtain n0 n' where n: "n = n0 # n'" using 2 p by (cases n) (auto simp: cookie_ok_def)
  let ?src = "(pre @ sp) @ print_cookie (n, v) @ []"
  have sk: "skip_while is_space ?src (length pre) = length (pre @ sp)"
    using skip_while_run [of sp is_space "print_cookie (n, v)" pre] 2 p n name_not_space(1) [of n0]
    by (auto simp: list_all_iff print_cookie_def cookie_ok_def)
  have stop: "length src \<le> c \<Longrightarrow> cookie_loop name src c = Inr None" for src c
    by (simp add: cookie_loop.simps)
  have "cookie_loop name ?src (length pre) = Inr (if n = name then Some v else None)"
    using sk cookie_pair_print [of n v "[]" "pre @ sp"] 2 p
    by (subst cookie_loop.simps) (simp add: print_cookie_def stop n)
  then show ?case by (simp add: p)
next
  case (3 p q ps)
  obtain n v where p: "p = (n, v)" by (cases p)
  obtain n0 n' where n: "n = n0 # n'" using 3 p by (cases n) (auto simp: cookie_ok_def)
  define post where "post = ''; '' @ print_cookies (q # ps)"
  let ?src = "(pre @ sp) @ print_cookie (n, v) @ post"
  have sk: "skip_while is_space ?src (length pre) = length (pre @ sp)"
    using skip_while_run [of sp is_space "print_cookie (n, v) @ post" pre] 3 p n name_not_space(1) [of n0]
    by (auto simp: list_all_iff print_cookie_def cookie_ok_def)
  have "cookie_loop name ?src (length pre) =
      (if n = name then Inr (Some v) else cookie_loop name ?src (length (pre @ sp) + length (print_cookie (n, v)) + 1))"
    using sk cookie_pair_print [of n v post "pre @ sp"] 3 p
    by (subst cookie_loop.simps) (simp add: post_def)
  also have "?src = (pre @ sp @ print_cookie (n, v) @ '';'') @ '' '' @ print_cookies (q # ps)" by (simp add: post_def)
  also have "cookie_loop name \<dots> (length (pre @ sp) + length (print_cookie (n, v)) + 1) = Inr (map_of (q # ps) name)"
    using "3.IH" [of "'' ''" "pre @ sp @ print_cookie (n, v) @ '';''"] "3.prems" by (simp add: add.assoc)
  finally show ?case by (simp add: p post_def)
qed

text \<open>On a list of cookies written as \<open>name=value\<close> pairs separated by semicolons, the scanner
  returns the value of the first cookie with the name asked for, and fails when there is none; it
  never reads outside the value.\<close>

theorem cookie_scan_lookup:
  assumes "list_all cookie_ok ps"
  shows "cookie_loop name (print_cookies ps) 0 = Inr (map_of ps name)"
  using cookie_loop_print [OF assms, of "[]" name "[]"] by simp

theorem cookie_scan_lookup_witness:
  "cookie_loop ''b'' (print_cookies [(''a'', ''1''), (''b'', ''2'')]) 0 = Inr (map_of [(''a'', ''1''), (''b'', ''2'')] ''b'')"
  by (rule cookie_scan_lookup)
     (simp add: cookie_ok_def is_cookie_name_def is_cookie_value_def is_alnum_char_def code_def)

text \<open>A cookie is looked for in the header that bears the cookie's own name, not in \<open>Cookie\<close>: a
  request all of whose headers have other names gets no cookie, whatever its \<open>Cookie\<close> header
  says. A value that ends after the equals sign makes the scanner read past the header.\<close>

theorem get_cookie_wrong_header:
  assumes "list_all (\<lambda>h. h_name h \<noteq> name) (hs r)" "is_cookie_name c"
  shows "get_cookie r name = Inr None \<and> cookie_loop name [c, CHR ''=''] 0 = Inl Out_of_bounds"
proof
  have "filter (\<lambda>h. match_header_name (h_name h) name) (hs r) = []"
    using assms by (simp add: filter_empty_conv list_all_iff match_header_name_def string_match_iff)
  then show "get_cookie r name = Inr None" by (simp add: get_cookie_def find_header_def)
  have 1: "skip_while is_space [c, CHR ''=''] 0 = 0" using name_not_space(1) [OF assms(2)] by (intro skip_none) auto
  have 2: "skip_while is_cookie_name [c, CHR ''=''] 1 = 1" by (intro skip_none) auto
  have 3: "skip_while is_space [c, CHR ''=''] 1 = 1" by (intro skip_none) auto
  have 4: "skip_while is_space [c, CHR ''=''] 2 = 2" by (simp add: skip_while.simps)
  have "cookie_pair [c, CHR ''=''] 0 = Inl Out_of_bounds"
    using assms(2) 2 3 4 by (simp add: cookie_pair_def Let_def numeral_2_eq_2)
  then show "cookie_loop name [c, CHR ''=''] 0 = Inl Out_of_bounds"
    using 1 by (subst cookie_loop.simps) simp
qed

theorem get_cookie_wrong_header_witness:
  "get_cookie \<lparr>req_method = M_GET, req_path = ''/'', major = 1, minor = 1,
      hs = [\<lparr>h_name = ''Cookie'', h_value = ''sid=7''\<rparr>]\<rparr> ''sid'' = Inr None
   \<and> cookie_loop ''sid'' [CHR ''a'', CHR ''=''] 0 = Inl Out_of_bounds"
  by (rule get_cookie_wrong_header)
     (simp_all add: is_cookie_name_def is_alnum_char_def code_def)

end
