(* ===== verification/QueryString.thy ===== *)
theory QueryString
  imports Parse
begin

section \<open>Query strings (\<^verbatim>\<open>http/query_string.c\<close>)\<close>

text \<open>
  Percent-decoding into a buffer and the lookup of a parameter. The buffer \<open>dst\<close> is a string of
  at least \<open>cap\<close> characters; a write outside it is a fault. A result \<^verbatim>\<open>false\<close> is \<open>None\<close>. The
  source is not NULL.
\<close>

definition is_print :: "char \<Rightarrow> bool" where
  "is_print c \<longleftrightarrow> 32 \<le> code c \<and> code c < 127"

definition hex_to_num :: "char \<Rightarrow> int option" where
  "hex_to_num x =
     (if 65 \<le> code x \<and> code x \<le> 70 then Some (int (code x) - 65)
      else if 97 \<le> code x \<and> code x \<le> 102 then Some (int (code x) - 97)
      else if 48 \<le> code x \<and> code x \<le> 57 then Some (int (code x) - 48)
      else None)"

definition plain :: "char \<Rightarrow> bool" where
  "plain c \<longleftrightarrow> c \<noteq> CHR ''='' \<and> c \<noteq> CHR ''&'' \<and> c \<noteq> CHR ''%'' \<and> c \<noteq> CHR ''+'' \<and> is_print c"

definition skip_any_valid_chars_not_percent_encoded :: "string \<Rightarrow> nat \<Rightarrow> nat" where
  "skip_any_valid_chars_not_percent_encoded src cur = skip_while plain src cur"

definition encoded_at :: "string \<Rightarrow> nat \<Rightarrow> bool" where
  "encoded_at src cur \<longleftrightarrow> cur < length src \<and> (src ! cur = CHR ''%'' \<or> src ! cur = CHR ''+'')"

text \<open>The two digits of an escape at \<open>cur\<close>.\<close>

definition escape_at :: "string \<Rightarrow> nat \<Rightarrow> (int \<times> int) option" where
  "escape_at src cur =
     (if cur + 2 \<ge> length src then None
      else case (hex_to_num (src ! (cur + 1)), hex_to_num (src ! (cur + 2))) of
        (Some u, Some v) \<Rightarrow> Some (u, v)
      | _ \<Rightarrow> None)"

lemma plain_skip_gt:
  assumes "cur < length src" "0 < k"
  shows "length src - skip_any_valid_chars_not_percent_encoded src (cur + k) < length src - cur"
proof -
  have "cur + k \<le> skip_while plain src (cur + k)" by (rule skip_while_ge)
  with assms show ?thesis unfolding skip_any_valid_chars_not_percent_encoded_def by linarith
qed

text \<open>Skipping: \<open>None\<close> for an invalid escape.\<close>

function skip_loop :: "string \<Rightarrow> nat \<Rightarrow> nat option" where
  "skip_loop src cur =
     (if encoded_at src cur then
        if src ! cur = CHR ''+'' then
          skip_loop src (skip_any_valid_chars_not_percent_encoded src (cur + 1))
        else if escape_at src cur = None then None
        else skip_loop src (skip_any_valid_chars_not_percent_encoded src (cur + 3))
      else Some cur)"
  by pat_completeness auto
termination
  by (relation "measure (\<lambda>(src, cur). length src - cur)")
     (auto simp: encoded_at_def intro: plain_skip_gt [of _ _ 1, simplified] plain_skip_gt)

declare skip_loop.simps [simp del]

definition skip_percent_encoded_substr :: "string \<Rightarrow> nat \<Rightarrow> nat option" where
  "skip_percent_encoded_substr src cur =
     skip_loop src (skip_any_valid_chars_not_percent_encoded src cur)"

text \<open>\<^verbatim>\<open>uint8_t byte = (u << 4) | v\<close>\<close>

definition byte_of :: "int \<Rightarrow> int \<Rightarrow> char" where
  "byte_of u v = char_of (nat (push_bit 4 u OR v))"

text \<open>The character at \<open>cur\<close> decoded, and where it ends.\<close>

definition decode_char :: "string \<Rightarrow> nat \<Rightarrow> (char \<times> nat) option res" where
  "decode_char src cur =
     rbind (c_assert (cur < length src)) (\<lambda>_.
       if src ! cur = CHR ''+'' then Inr (Some (CHR '' '', cur + 1))
       else case escape_at src cur of
         None \<Rightarrow> Inr None
       | Some (u, v) \<Rightarrow>
           rbind (c_assert (0 \<le> u \<and> u < 16)) (\<lambda>_.
           rbind (c_assert (0 \<le> v \<and> v < 16)) (\<lambda>_. Inr (Some (byte_of u v, cur + 3)))))"

text \<open>One turn of the decoding loop: a decoded character and the plain characters after it.\<close>

definition decode_step :: "string \<Rightarrow> nat \<Rightarrow> string \<Rightarrow> nat \<Rightarrow> nat \<Rightarrow> (nat \<times> nat \<times> string) option res" where
  "decode_step src cap dst cur copied =
     rbind (decode_char src cur) (\<lambda>d.
       case d of
         None \<Rightarrow> Inr None
       | Some (c, cur) \<Rightarrow>
           if copied = cap then Inr None
           else rbind (wr dst copied c) (\<lambda>dst.
             let copied = copied + 1;
                 start = cur;
                 cur = skip_any_valid_chars_not_percent_encoded src cur
             in if cap < copied + cur - start then Inr None
             else rbind (memcpy dst copied (chunk src start (cur - start))) (\<lambda>dst.
               Inr (Some (cur, copied + (cur - start), dst)))))"

lemma decode_step_advances: "decode_step src cap dst cur copied = Inr (Some (cur', copied', dst')) \<Longrightarrow> cur < cur' \<and> cur < length src"
proof -
  assume s: "decode_step src cap dst cur copied = Inr (Some (cur', copied', dst'))"
  then obtain o1 where o1: "decode_char src cur = Inr o1" by (auto simp: decode_step_def rbind_eq_Inr)
  with s obtain c e where d: "decode_char src cur = Inr (Some (c, e))" by (cases o1) (auto simp: decode_step_def)
  with s have e: "cur' = skip_while plain src e"
    by (auto simp: decode_step_def rbind_eq_Inr Let_def skip_any_valid_chars_not_percent_encoded_def split: if_splits)
  have "cur < e" "cur < length src"
    using d by (auto simp: decode_char_def rbind_eq_Inr split: if_splits option.splits)
  moreover have "e \<le> cur'" unfolding e by (rule skip_while_ge)
  ultimately show ?thesis by simp
qed

function decode_loop :: "string \<Rightarrow> nat \<Rightarrow> string \<Rightarrow> nat \<Rightarrow> nat \<Rightarrow> (nat \<times> nat \<times> string) option res" where
  "decode_loop src cap dst cur copied =
     rbind (decode_step src cap dst cur copied) (\<lambda>s.
       case s of
         None \<Rightarrow> Inr None
       | Some (cur, copied, dst) \<Rightarrow>
           if encoded_at src cur then decode_loop src cap dst cur copied else Inr (Some (cur, copied, dst)))"
  by pat_completeness auto
termination
  by (relation "measure (\<lambda>(src, cap, dst, cur, copied). length src - cur)")
     (auto dest: decode_step_advances intro: diff_less_mono2)

declare decode_loop.simps [simp del]

text \<open>The result: the position after the substring, the slice, and the buffer. The early
  \<^verbatim>\<open>return -1\<close> counts as true and leaves the position where it was.\<close>

definition parse_percent_encoded_substr :: "string \<Rightarrow> string \<Rightarrow> nat \<Rightarrow> nat \<Rightarrow> (nat \<times> string \<times> string) option res" where
  "parse_percent_encoded_substr src dst cap start =
     (let cur = skip_any_valid_chars_not_percent_encoded src start;
          out = chunk src start (cur - start)
      in if encoded_at src cur then
           if cap < length out then Inr (Some (start, out, dst))
           else rbind (memcpy dst 0 out) (\<lambda>dst.
             rbind (decode_loop src cap dst cur (length out)) (\<lambda>s.
               case s of
                 None \<Rightarrow> Inr None
               | Some (cur, copied, dst) \<Rightarrow> Inr (Some (cur, take copied dst, dst))))
         else Inr (Some (cur, out, dst)))"

lemma decode_loop_advances:
  "decode_loop src cap dst cur copied = Inr (Some (cur', copied', dst')) \<Longrightarrow> cur < cur'"
proof (induction src cap dst cur copied rule: decode_loop.induct)
  case (1 src cap dst cur copied)
  then obtain c k d where st: "decode_step src cap dst cur copied = Inr (Some (c, k, d))"
    by (auto simp: decode_loop.simps [of src cap dst cur] rbind_eq_Inr split: option.splits)
  have "cur < c" using decode_step_advances [OF st] by simp
  show ?case
  proof (cases "encoded_at src c")
    case True
    then have "decode_loop src cap d c k = Inr (Some (cur', copied', dst'))"
      using "1.prems" st by (simp add: decode_loop.simps [of src cap dst cur])
    then have "c < cur'" using "1.IH" [OF st refl refl refl True] by simp
    with \<open>cur < c\<close> show ?thesis by simp
  next
    case False
    then show ?thesis using "1.prems" st \<open>cur < c\<close> by (simp add: decode_loop.simps [of src cap dst cur])
  qed
qed

lemma parse_percent_ge:
  "parse_percent_encoded_substr src dst cap start = Inr (Some (cur, out, dst')) \<Longrightarrow> start \<le> cur"
proof -
  have "start \<le> skip_while plain src start" by (rule skip_while_ge)
  moreover assume "parse_percent_encoded_substr src dst cap start = Inr (Some (cur, out, dst'))"
  ultimately show ?thesis
    by (auto simp: parse_percent_encoded_substr_def Let_def skip_any_valid_chars_not_percent_encoded_def rbind_eq_Inr
        dest!: decode_loop_advances intro: less_imp_le [OF le_less_trans [OF skip_while_ge]]
        split: if_splits option.splits)
qed

lemma skip_loop_ge: "skip_loop src cur = Some c \<Longrightarrow> cur \<le> c"
proof (induction src cur rule: skip_loop.induct)
  case (1 src cur)
  have ge: "cur + k \<le> skip_any_valid_chars_not_percent_encoded src (cur + k)" for k
    unfolding skip_any_valid_chars_not_percent_encoded_def by (rule skip_while_ge)
  consider "\<not> encoded_at src cur" | "encoded_at src cur" "src ! cur = CHR ''+''"
    | "encoded_at src cur" "src ! cur \<noteq> CHR ''+''" "escape_at src cur \<noteq> None"
    using "1.prems" by (cases "escape_at src cur") (auto simp: skip_loop.simps [of src cur] split: if_splits)
  then show ?case
  proof cases
    case 1
    then show ?thesis using "1.prems" by (simp add: skip_loop.simps [of src cur])
  next
    case 2
    then have "skip_any_valid_chars_not_percent_encoded src (cur + 1) \<le> c"
      using "1.IH"(1) "1.prems" by (simp add: skip_loop.simps [of src cur])
    then show ?thesis using ge [of 1] by linarith
  next
    case 3
    then have "skip_any_valid_chars_not_percent_encoded src (cur + 3) \<le> c"
      using "1.IH"(2) "1.prems" by (auto simp: skip_loop.simps [of src cur])
    then show ?thesis using ge [of 3] by linarith
  qed
qed

lemma skip_percent_ge: "skip_percent_encoded_substr src cur = Some c \<Longrightarrow> cur \<le> c"
  unfolding skip_percent_encoded_substr_def skip_any_valid_chars_not_percent_encoded_def
  using skip_loop_ge skip_while_ge order_trans by metis

function param_loop :: "string \<Rightarrow> string \<Rightarrow> string \<Rightarrow> nat \<Rightarrow> nat \<Rightarrow> string option res" where
  "param_loop src key dst cap cur =
     (if cur < length src then
        rbind (parse_percent_encoded_substr src dst cap cur) (\<lambda>p.
          case p of
            None \<Rightarrow> Inr None
          | Some (cur, key2, dst) \<Rightarrow>
              if cur < length src \<and> \<not> is_print (src ! cur) then Inr None
              else if key2 = key then
                if cur < length src \<and> src ! cur = CHR ''='' then
                  rbind (parse_percent_encoded_substr src dst cap (cur + 1)) (\<lambda>v.
                    case v of None \<Rightarrow> Inr None | Some (_, out, _) \<Rightarrow> Inr (Some out))
                else Inr (Some [])
              else
                case (if cur < length src \<and> src ! cur = CHR ''='' then skip_percent_encoded_substr src (cur + 1)
                      else Some cur) of
                  None \<Rightarrow> Inr None
                | Some cur \<Rightarrow>
                    if cur < length src \<and> src ! cur \<noteq> CHR ''&'' then Inr None
                    else param_loop src key dst cap (cur + 1))
      else Inr None)"
  by pat_completeness auto
termination
  by (relation "measure (\<lambda>(src, key, dst, cap, cur). length src - cur)")
     (auto dest!: parse_percent_ge skip_percent_ge split: if_splits)

declare param_loop.simps [simp del]

definition get_query_string_param :: "string \<Rightarrow> string \<Rightarrow> string \<Rightarrow> nat \<Rightarrow> string option res" where
  "get_query_string_param src key dst cap =
     param_loop src key dst cap (if 0 < length src \<and> src ! 0 = CHR ''?'' then 1 else 0)"

subsection \<open>Decoding\<close>

text \<open>What an encoded string is made of: plain characters, plus signs and escapes.\<close>

datatype piece = Plain char | Plus | Escape char char

fun print_piece :: "piece \<Rightarrow> string" where
  "print_piece (Plain c) = [c]"
| "print_piece Plus = ''+''"
| "print_piece (Escape x y) = [CHR ''%'', x, y]"

fun piece_value :: "piece \<Rightarrow> char" where
  "piece_value (Plain c) = c"
| "piece_value Plus = CHR '' ''"
| "piece_value (Escape x y) = byte_of (the (hex_to_num x)) (the (hex_to_num y))"

fun piece_ok :: "piece \<Rightarrow> bool" where
  "piece_ok (Plain c) = plain c"
| "piece_ok Plus = True"
| "piece_ok (Escape x y) = (hex_to_num x \<noteq> None \<and> hex_to_num y \<noteq> None)"

definition print_pieces :: "piece list \<Rightarrow> string" where
  "print_pieces ps = concat (map print_piece ps)"

lemma hex_range: "hex_to_num x = Some n \<Longrightarrow> 0 \<le> n \<and> n < 16"
  by (auto simp: hex_to_num_def split: if_splits)

lemma not_plain [simp]: "\<not> plain (CHR ''+'')" "\<not> plain (CHR ''%'')" "\<not> plain (CHR ''&'')" "\<not> plain (CHR ''='')"
  by (simp_all add: plain_def)

text \<open>A list of pieces starts with plain characters, then is empty or goes on with a piece that has to be decoded.\<close>

lemma pieces_split:
  assumes "list_all piece_ok ps"
  obtains cs where "ps = map Plain cs" "list_all plain cs"
  | cs p qs where "ps = map Plain cs @ p # qs" "list_all plain cs" "p = Plus \<or> (\<exists>x y. p = Escape x y)"
  using assms
proof (induction ps arbitrary: thesis)
  case Nil
  show thesis by (rule Nil.prems(1) [of "[]"]) auto
next
  case (Cons p ps)
  show thesis
  proof (cases p)
    case (Plain c)
    show thesis
    proof (rule Cons.IH)
      show "list_all piece_ok ps" using Cons.prems by simp
      fix cs assume "ps = map Plain cs" "list_all plain cs"
      then show thesis using Cons.prems(1) [of "c # cs"] Cons.prems(3) Plain by simp
    next
      fix cs q qs assume "ps = map Plain cs @ q # qs" "list_all plain cs" "q = Plus \<or> (\<exists>x y. q = Escape x y)"
      then show thesis using Cons.prems(2) [of "c # cs" q qs] Cons.prems(3) Plain by simp
    qed
  next
    case Plus
    then show thesis using Cons.prems(2) [of "[]" p ps] by simp
  next
    case (Escape x y)
    then show thesis using Cons.prems(2) [of "[]" p ps] by simp
  qed
qed

lemma print_plain: "print_pieces (map Plain cs @ ps) = cs @ print_pieces ps" "map piece_value (map Plain cs) = cs"
  by (induction cs) (auto simp: print_pieces_def)

lemma decode_char_print:
  assumes "piece_ok p" "p = Plus \<or> (\<exists>x y. p = Escape x y)"
  shows "decode_char (pre @ print_piece p @ post) (length pre) = Inr (Some (piece_value p, length pre + length (print_piece p)))"
proof (cases p)
  case (Escape x y)
  then obtain u v where uv: "hex_to_num x = Some u" "hex_to_num y = Some v" using assms by auto
  have "escape_at (pre @ [CHR ''%'', x, y] @ post) (length pre) = Some (u, v)"
    using uv by (simp add: escape_at_def nth_append)
  then show ?thesis
    using uv hex_range [OF uv(1)] hex_range [OF uv(2)] Escape
    by (simp add: decode_char_def nth_append numeral_eq_Suc)
qed (use assms in \<open>auto simp: decode_char_def nth_append\<close>)

lemma ends_plain: "post = [] \<or> \<not> plain (hd post) \<Longrightarrow> list_all plain cs
    \<Longrightarrow> skip_any_valid_chars_not_percent_encoded (pre @ cs @ post) (length pre) = length pre + length cs"
  unfolding skip_any_valid_chars_not_percent_encoded_def by (rule skip_while_run) (auto simp: list_all_iff)

lemma decode_step_print:
  assumes "piece_ok p" "p = Plus \<or> (\<exists>x y. p = Escape x y)" "list_all plain cs" "post = [] \<or> \<not> plain (hd post)"
    "copied + 1 + length cs \<le> cap" "cap \<le> length dst"
  shows "decode_step (pre @ print_piece p @ cs @ post) cap dst (length pre) copied
    = Inr (Some (length pre + length (print_piece p) + length cs, copied + 1 + length cs, blit dst copied (piece_value p # cs)))"
proof -
  let ?src = "pre @ print_piece p @ cs @ post"
  define e where "e = length pre + length (print_piece p)"
  have d: "decode_char ?src (length pre) = Inr (Some (piece_value p, e))"
    using decode_char_print [OF assms(1,2), of pre "cs @ post"] by (simp add: e_def)
  have s: "skip_any_valid_chars_not_percent_encoded ?src e = e + length cs"
    using ends_plain [OF assms(4,3), of "pre @ print_piece p"] by (simp add: e_def)
  have c: "chunk ?src e (length cs) = cs"
    using chunk_run [of "pre @ print_piece p" cs post] by (simp add: e_def)
  have b: "blit (dst[copied := piece_value p]) (copied + 1) cs = blit dst copied (piece_value p # cs)"
    using assms(5,6)
    by (auto simp: blit_def take_Suc_conv_app_nth take_update_swap list_update_append upd_conv_take_nth_drop ac_simps)
  show ?thesis
    unfolding decode_step_def d using s c b assms(5,6) by (simp add: e_def Let_def)
qed

lemma decode_loop_print:
  assumes "list_all piece_ok (p # ps)" "p = Plus \<or> (\<exists>x y. p = Escape x y)" "post = [] \<or> (\<not> plain (hd post) \<and> hd post \<noteq> CHR ''+'' \<and> hd post \<noteq> CHR ''%'')"
    "copied + length (p # ps) \<le> cap" "cap \<le> length dst"
  shows "decode_loop (pre @ print_pieces (p # ps) @ post) cap dst (length pre) copied
    = Inr (Some (length pre + length (print_pieces (p # ps)), copied + length (p # ps), blit dst copied (map piece_value (p # ps))))"
  using assms
proof (induction "length ps" arbitrary: p ps pre dst copied rule: less_induct)
  case less
  have ps: "list_all piece_ok ps" "piece_ok p" using less.prems by auto
  from ps(1) show ?case
  proof (cases rule: pieces_split)
    case (1 cs)
    have src: "pre @ print_pieces (p # ps) @ post = pre @ print_piece p @ cs @ post"
      using print_plain(1) [of cs "[]"] 1 by (simp add: print_pieces_def)
    have len: "length (print_pieces (p # ps)) = length (print_piece p) + length cs"
      using print_plain(1) [of cs "[]"] 1 by (simp add: print_pieces_def)
    have "\<not> encoded_at (pre @ print_piece p @ cs @ post) (length pre + length (print_piece p) + length cs)"
      using less.prems(3) by (cases post) (auto simp: encoded_at_def nth_append)
    then show ?thesis
      using decode_step_print [OF ps(2) less.prems(2) 1(2), of post copied cap dst pre] less.prems(3-5) 1 len print_plain(2) [of cs]
      unfolding src by (subst decode_loop.simps) (auto simp: ac_simps)
  next
    case (2 cs q qs)
    have ok: "list_all piece_ok (q # qs)" using ps(1) 2 by simp
    define rest where "rest = print_pieces (q # qs) @ post"
    define pre' where "pre' = pre @ print_piece p @ cs"
    have src: "pre @ print_pieces (p # ps) @ post = pre @ print_piece p @ cs @ rest"
      using print_plain(1) [of cs "q # qs"] 2 by (simp add: print_pieces_def rest_def)
    have len: "length (print_pieces (p # ps)) = length (print_piece p) + length cs + length (print_pieces (q # qs))"
      using print_plain(1) [of cs "q # qs"] 2 by (simp add: print_pieces_def)
    have hd: "rest \<noteq> []" "hd rest = CHR ''+'' \<or> hd rest = CHR ''%''" using 2(3) by (auto simp: rest_def print_pieces_def)
    have enc: "encoded_at (pre @ print_piece p @ cs @ rest) (length pre + length (print_piece p) + length cs)"
      using hd by (cases rest) (auto simp: encoded_at_def nth_append)
    define dst1 where "dst1 = blit dst copied (piece_value p # cs)"
    have l1: "length dst1 = length dst" using less.prems(4,5) 2 by (simp add: dst1_def)
    have step: "decode_step (pre @ print_piece p @ cs @ rest) cap dst (length pre) copied
        = Inr (Some (length pre', copied + 1 + length cs, dst1))"
      using decode_step_print [OF ps(2) less.prems(2) 2(2), of rest copied cap dst pre] less.prems(4,5) 2 hd
      by (auto simp: dst1_def pre'_def ac_simps)
    have "decode_loop (pre' @ print_pieces (q # qs) @ post) cap dst1 (length pre') (copied + 1 + length cs)
        = Inr (Some (length pre' + length (print_pieces (q # qs)), copied + 1 + length cs + length (q # qs),
            blit dst1 (copied + 1 + length cs) (map piece_value (q # qs))))"
      using less.prems(3-5) 2 ok l1 by (intro less.hyps) auto
    moreover have "blit dst1 (copied + 1 + length cs) (map piece_value (q # qs)) = blit dst copied (map piece_value (p # ps))"
      using less.prems(4,5) 2 print_plain(2) [of cs] by (simp add: dst1_def blit_def ac_simps)
    ultimately show ?thesis
      unfolding src using step enc len 2
      by (subst decode_loop.simps) (simp add: rest_def pre'_def ac_simps)
  qed
qed

text \<open>Every sequence of pieces is decoded with the values that \<open>hex_to_num\<close> reads.\<close>

lemma decode_pieces:
  assumes "list_all piece_ok ps" "length ps \<le> cap" "cap \<le> length dst" "post = [] \<or> hd post = CHR ''='' \<or> hd post = CHR ''&''"
  shows "\<exists>dst'. parse_percent_encoded_substr (pre @ print_pieces ps @ post) dst cap (length pre)
           = Inr (Some (length pre + length (print_pieces ps), map piece_value ps, dst'))"
  using assms(1)
proof (cases rule: pieces_split)
  case (1 cs)
  have src: "pre @ print_pieces ps @ post = pre @ cs @ post" using print_plain(1) [of cs "[]"] 1 by (simp add: print_pieces_def)
  have sk: "skip_any_valid_chars_not_percent_encoded (pre @ cs @ post) (length pre) = length pre + length cs"
    using assms(4) 1 by (intro ends_plain) auto
  have "\<not> encoded_at (pre @ cs @ post) (length pre + length cs)"
    using assms(4) by (cases post) (auto simp: encoded_at_def nth_append)
  moreover have "length (print_pieces ps) = length cs" using print_plain(1) [of cs "[]"] 1 by (simp add: print_pieces_def)
  ultimately show ?thesis
    unfolding src using sk chunk_run [of pre cs post] 1 print_plain(2) [of cs]
    by (simp add: parse_percent_encoded_substr_def Let_def)
next
  case (2 cs q qs)
  define rest where "rest = print_pieces (q # qs) @ post"
  have src: "pre @ print_pieces ps @ post = pre @ cs @ rest"
    using print_plain(1) [of cs "q # qs"] 2 by (simp add: rest_def)
  have ok: "list_all piece_ok (q # qs)" using assms(1) 2 by simp
  have hd: "rest \<noteq> []" "hd rest = CHR ''+'' \<or> hd rest = CHR ''%''" using 2(3) by (auto simp: rest_def print_pieces_def)
  have sk: "skip_any_valid_chars_not_percent_encoded (pre @ cs @ rest) (length pre) = length pre + length cs"
    using hd 2 by (intro ends_plain) auto
  have enc: "encoded_at (pre @ cs @ rest) (length pre + length cs)"
    using hd by (cases rest) (auto simp: encoded_at_def nth_append)
  define dst1 where "dst1 = blit dst 0 cs"
  have l1: "length cs \<le> cap" "length cs \<le> length dst" "length dst1 = length dst" using assms(2,3) 2 by (auto simp: dst1_def)
  have "decode_loop ((pre @ cs) @ print_pieces (q # qs) @ post) cap dst1 (length (pre @ cs)) (length cs)
      = Inr (Some (length (pre @ cs) + length (print_pieces (q # qs)), length cs + length (q # qs), blit dst1 (length cs) (map piece_value (q # qs))))"
    using assms 2 ok l1 by (intro decode_loop_print) auto
  moreover have "take (length cs + length (q # qs)) (blit dst1 (length cs) (map piece_value (q # qs))) = map piece_value ps"
    using l1 2 print_plain(2) [of cs] by (simp add: dst1_def blit_def)
  moreover have "length (print_pieces ps) = length cs + length (print_pieces (q # qs))"
    using print_plain(1) [of cs "q # qs"] 2 by simp
  ultimately show ?thesis
    unfolding src using sk enc chunk_run [of pre cs rest] l1
    by (simp add: parse_percent_encoded_substr_def Let_def dst1_def rest_def)
qed

text \<open>The value of a hexadecimal digit.\<close>

definition hex_value :: "char \<Rightarrow> int option" where
  "hex_value c =
     (if c \<in> set ''0123456789'' then Some (int (code c) - 48)
      else if c \<in> set ''ABCDEF'' then Some (int (code c) - 55)
      else if c \<in> set ''abcdef'' then Some (int (code c) - 87)
      else None)"

lemma code_in_set: "c \<in> set cs \<longleftrightarrow> code c \<in> set (map code cs)"
  by (auto simp: code_def)

lemma hex_digit_sets:
  "c \<in> set ''0123456789'' \<longleftrightarrow> 48 \<le> code c \<and> code c \<le> 57"
  "c \<in> set ''ABCDEF'' \<longleftrightarrow> 65 \<le> code c \<and> code c \<le> 70"
  "c \<in> set ''abcdef'' \<longleftrightarrow> 97 \<le> code c \<and> code c \<le> 102"
  unfolding code_in_set [of c "''0123456789''"] code_in_set [of c "''ABCDEF''"] code_in_set [of c "''abcdef''"]
  by (simp_all add: code_def) arith+

lemma hex_as_read: "hex_to_num c = map_option (\<lambda>n. if n < 10 then n else n - 10) (hex_value c)"
  unfolding hex_to_num_def hex_value_def hex_digit_sets by auto

lemma hex_value_range: "hex_value c = Some n \<Longrightarrow> 0 \<le> n \<and> n < 16"
  unfolding hex_value_def hex_digit_sets by (auto split: if_splits)

text \<open>What percent-encoding means: the byte with the two hexadecimal digits, whether they are letters or not.\<close>

fun well_encoded :: "piece \<Rightarrow> bool" where
  "well_encoded (Plain c) = plain c"
| "well_encoded Plus = True"
| "well_encoded (Escape x y) = (hex_value x \<noteq> None \<and> hex_value y \<noteq> None)"

fun decoded :: "piece \<Rightarrow> char" where
  "decoded (Plain c) = c"
| "decoded Plus = CHR '' ''"
| "decoded (Escape x y) = char_of (nat (16 * the (hex_value x) + the (hex_value y)))"

fun has_letter :: "piece \<Rightarrow> bool" where
  "has_letter (Escape x y) = (10 \<le> the (hex_value x) \<or> 10 \<le> the (hex_value y))"
| "has_letter _ = False"

lemma byte_of_digits: "0 \<le> u \<Longrightarrow> 0 \<le> v \<Longrightarrow> v < 16 \<Longrightarrow> byte_of u v = char_of (nat (16 * u + v))"
proof -
  assume uv: "0 \<le> u" "0 \<le> v" "v < 16"
  have "push_bit 4 u OR v = push_bit 4 u + v"
  proof (rule disjunctive_add_eq_or [symmetric], rule bit_eqI)
    have "take_bit 4 v = v" using uv by (simp add: take_bit_int_eq_self)
    then have "\<not> bit v n" if "4 \<le> n" for n using that by (metis bit_take_bit_iff leD)
    then show "bit (push_bit 4 u AND v) n = bit 0 n" for n by (auto simp: bit_simps)
  qed
  then show ?thesis by (simp add: byte_of_def push_bit_eq_mult mult.commute)
qed

lemma piece_read:
  assumes "well_encoded p"
  shows "piece_ok p" "(piece_value p = decoded p) = (\<not> has_letter p)"
proof -
  show "piece_ok p" using assms by (cases p) (auto simp: hex_as_read)
  show "(piece_value p = decoded p) = (\<not> has_letter p)"
  proof (cases p)
    case (Escape x y)
    obtain u v where uv: "hex_value x = Some u" "hex_value y = Some v" using assms Escape by auto
    note r = hex_value_range [OF uv(1)] hex_value_range [OF uv(2)]
    let ?u = "if u < 10 then u else u - 10" and ?v = "if v < 10 then v else v - 10"
    have p: "piece_value p = char_of (nat (16 * ?u + ?v))" using Escape uv r by (simp add: hex_as_read byte_of_digits)
    have d: "decoded p = char_of (nat (16 * u + v))" using Escape uv by simp
    have same: "(char_of m = (char_of n :: char)) = (m = n)" if "m < 256" "n < 256" for m n :: nat
      using that of_char_of [of m] of_char_of [of n] by (metis mod_less)
    have s: "0 \<le> ?u" "?u < 16" "0 \<le> ?v" "?v < 16" using r by auto
    have "(char_of (nat (16 * ?u + ?v)) = (char_of (nat (16 * u + v)) :: char)) = (nat (16 * ?u + ?v) = nat (16 * u + v))"
      by (rule same) (use r s in linarith)+
    also have "\<dots> = (16 * ?u + ?v = 16 * u + v)" by (rule eq_nat_nat_iff) (use r s in linarith)+
    also have "\<dots> = (\<not> has_letter p)" using r Escape uv by auto
    finally show ?thesis unfolding p d .
  qed simp_all
qed

text \<open>C36: Percent-decoding. A sequence of plain characters, plus signs and escapes with two hexadecimal digits, up to the end of the query string or a separator, is decoded
  piece by piece when the buffer is large enough, and the position moves to the end of the sequence. A piece gives the character it stands for exactly when it has no
  hexadecimal letter: plain characters, plus signs and escapes like \<^verbatim>\<open>%20\<close> are right, and every escape with a letter, like \<^verbatim>\<open>%2F\<close>, gives another byte.\<close>

theorem percent_decoding:
  assumes "list_all well_encoded ps" "length ps \<le> cap" "cap \<le> length dst" "post = [] \<or> hd post = CHR ''='' \<or> hd post = CHR ''&''"
  shows "\<exists>out dst'. parse_percent_encoded_substr (pre @ print_pieces ps @ post) dst cap (length pre) = Inr (Some (length pre + length (print_pieces ps), out, dst'))
    \<and> length out = length ps \<and> (\<forall>i < length ps. (out ! i = decoded (ps ! i)) = (\<not> has_letter (ps ! i)))"
proof -
  have "list_all piece_ok ps" using assms(1) piece_read(1) by (auto simp: list_all_iff)
  then obtain dst' where "parse_percent_encoded_substr (pre @ print_pieces ps @ post) dst cap (length pre)
      = Inr (Some (length pre + length (print_pieces ps), map piece_value ps, dst'))"
    using decode_pieces [OF _ assms(2-4)] by blast
  then show ?thesis using assms(1) piece_read(2) by (auto simp: list_all_length)
qed

theorem percent_decoding_witness:
  "\<exists>out dst'. parse_percent_encoded_substr (''?'' @ ''a+%25%4A'' @ ''=1'') (replicate 8 (CHR ''x'')) 8 1 = Inr (Some (9, out, dst'))
     \<and> out ! 2 = CHR ''%'' \<and> out ! 3 \<noteq> CHR ''J''"
proof -
  let ?ps = "[Plain (CHR ''a''), Plus, Escape (CHR ''2'') (CHR ''5''), Escape (CHR ''4'') (CHR ''A'')]"
  have h: "hex_value (CHR ''2'') = Some 2" "hex_value (CHR ''5'') = Some 5" "hex_value (CHR ''4'') = Some 4" "hex_value (CHR ''A'') = Some 10"
    by (simp_all add: hex_value_def code_def)
  have "list_all well_encoded ?ps" by (simp add: h plain_def is_print_def code_def)
  then obtain out dst' where o: "parse_percent_encoded_substr (''?'' @ print_pieces ?ps @ ''=1'') (replicate 8 (CHR ''x'')) 8 (length ''?'')
      = Inr (Some (length ''?'' + length (print_pieces ?ps), out, dst'))" "\<forall>i < length ?ps. (out ! i = decoded (?ps ! i)) = (\<not> has_letter (?ps ! i))"
    using percent_decoding [of ?ps 8 "replicate 8 (CHR ''x'')" "''=1''" "''?''"] by auto
  have "out ! 2 = decoded (?ps ! 2)" "out ! 3 \<noteq> decoded (?ps ! 3)"
    using o(2) [rule_format, of 2] o(2) [rule_format, of 3] by (simp_all add: h)
  moreover have "decoded (?ps ! 2) = CHR ''%''" "decoded (?ps ! 3) = CHR ''J''"
    subgoal by (simp add: h) code_simp
    subgoal by (simp add: h) code_simp
    done
  ultimately show ?thesis using o(1) by (simp add: print_pieces_def)
qed

text \<open>Hexadecimal letters are read ten too low: for a digit \<open>0\<close> to \<open>9\<close> the value is right, for
  a letter \<open>A\<close> to \<open>F\<close> in either case it is the hexadecimal value less ten, so that escapes with
  letters decode to another byte; everything else is rejected.\<close>

theorem hex_letters_ten_low:
  "hex_to_num c = map_option (\<lambda>n. if n < 10 then n else n - 10) (hex_value c)"
  by (rule hex_as_read)

end
