(* ===== verification/Semaphore.thy ===== *)
theory Semaphore
  imports Prelude
begin

section \<open>Counting semaphores (\<^verbatim>\<open>thread/sync.c\<close>)\<close>

text \<open>
  The semaphore built from a mutex and a condition variable, on Linux, used by any number of
  threads (numbered by naturals). A thread is somewhere inside \<^verbatim>\<open>semaphore_wait\<close> or
  \<^verbatim>\<open>semaphore_signal\<close>; the threads interleave at every operation on the mutex and the condition
  variable. A POSIX condition variable wakes at least one sleeping thread when it is signalled, may
  wake a thread for no reason, and may report a timeout to a thread that sleeps with a deadline;
  a woken thread takes the mutex again before it goes on. Two history variables add up what was
  given and taken. The calls that create and delete mutexes and condition variables succeed.
\<close>

subsection \<open>Timeouts\<close>

abbreviation INT_MAX :: int where "INT_MAX \<equiv> 2 ^ 31 - 1"
abbreviation INT_MIN :: int where "INT_MIN \<equiv> - (2 ^ 31)"

definition in_int :: "int \<Rightarrow> int res" where
  "in_int x = (if INT_MIN \<le> x \<and> x \<le> INT_MAX then Inr x else Inl Int_overflow)"

text \<open>\<^verbatim>\<open>remaining_ms = timeout_ms - (int) (current_time_ms - start_time_ms)\<close>\<close>

definition remaining_ms :: "int \<Rightarrow> u64 \<Rightarrow> u64 \<Rightarrow> int res" where
  "remaining_ms timeout_ms start_time_ms current_time_ms =
     (if 0 \<le> timeout_ms
      then in_int (timeout_ms - sint (ucast (current_time_ms - start_time_ms) :: u32))
      else Inr (- 1))"

text \<open>The absolute time, in seconds and nanoseconds, up to which \<^verbatim>\<open>os_condvar_wait\<close> sleeps; without
  one it sleeps until it is woken.\<close>

definition condvar_deadline :: "int \<Rightarrow> u64 \<Rightarrow> (u64 \<times> u64) option" where
  "condvar_deadline timeout_ms absolute_time_us =
     (if timeout_ms < 0 then None
      else let wakeup_ms = of_int timeout_ms + absolute_time_us div 1000
           in Some (wakeup_ms div 1000, (wakeup_ms mod 1000) * 1000000))"

subsection \<open>Threads\<close>

datatype sem_pc =
    Sem_idle
  | Wait_lock int int u64            \<comment> \<open>count, timeout and start time; before \<^verbatim>\<open>os_mutex_lock\<close>\<close>
  | Wait_test int int u64            \<comment> \<open>at the test of the loop\<close>
  | Wait_asleep int int u64 "(u64 \<times> u64) option" \<comment> \<open>inside \<^verbatim>\<open>os_condvar_wait\<close>, with its deadline\<close>
  | Wait_woken int int u64 bool      \<comment> \<open>taking the mutex again; \<open>False\<close> after a timeout\<close>
  | Wait_timed_out                   \<comment> \<open>before unlocking and returning false\<close>
  | Wait_taken                       \<comment> \<open>before unlocking and returning true\<close>
  | Signal_lock int
  | Signal_add int
  | Signal_wake                      \<comment> \<open>\<^verbatim>\<open>if (sem->count > 0) os_condvar_signal(..)\<close>\<close>
  | Signal_unlock
  | Sem_stuck bool fault             \<comment> \<open>no result; with the mutex held or not\<close>

record sem_state =
  count :: int
  owner :: "nat option"
  thread :: "nat \<Rightarrow> sem_pc"
  now_ns :: u64
  given :: int
  taken :: int

definition goto :: "nat \<Rightarrow> sem_pc \<Rightarrow> sem_state \<Rightarrow> sem_state" where
  "goto i p s = s\<lparr>thread := (thread s)(i := p)\<rparr>"

definition lock :: "nat \<Rightarrow> sem_state \<Rightarrow> sem_state" where
  "lock i s = s\<lparr>owner := Some i\<rparr>"

definition unlock :: "sem_state \<Rightarrow> sem_state" where
  "unlock s = s\<lparr>owner := None\<rparr>"

abbreviation now_ms :: "sem_state \<Rightarrow> u64" where
  "now_ms s \<equiv> now_ns s div 1000000"

definition semaphore_create :: "int \<Rightarrow> u64 \<Rightarrow> sem_state" where
  "semaphore_create n t = \<lparr>count = n, owner = None, thread = (\<lambda>_. Sem_idle), now_ns = t, given = 0, taken = 0\<rparr>"

definition semaphore_created :: "int \<Rightarrow> sem_state \<Rightarrow> bool" where
  "semaphore_created n s \<longleftrightarrow> (\<exists>t. s = semaphore_create n t)"

text \<open>The steps of \<^verbatim>\<open>semaphore_wait\<close>. The absolute time of the deadline is another clock.\<close>

inductive wait_step :: "nat \<Rightarrow> sem_state \<Rightarrow> sem_state \<Rightarrow> bool" for i where
  wait_call: "thread s i = Sem_idle \<Longrightarrow> 0 < n \<Longrightarrow>
    wait_step i s (goto i (Wait_lock n timeout (now_ms s)) s)"
| wait_assert: "thread s i = Sem_idle \<Longrightarrow> n \<le> (0 :: int) \<Longrightarrow>
    wait_step i s (goto i (Sem_stuck False Assert_failed) s)"
| wait_locked: "thread s i = Wait_lock n timeout start_ms \<Longrightarrow> owner s = None \<Longrightarrow>
    wait_step i s (goto i (Wait_test n timeout start_ms) (lock i s))"
| wait_sleep: "thread s i = Wait_test n timeout start_ms \<Longrightarrow> count s < n \<Longrightarrow>
    remaining_ms timeout start_ms (now_ms s) = Inr r \<Longrightarrow>
    wait_step i s (goto i (Wait_asleep n timeout start_ms (condvar_deadline r us)) (unlock s))"
| wait_overflow: "thread s i = Wait_test n timeout start_ms \<Longrightarrow> count s < n \<Longrightarrow>
    remaining_ms timeout start_ms (now_ms s) = Inl e \<Longrightarrow>
    wait_step i s (goto i (Sem_stuck True e) s)"
| wait_false: "thread s i = Wait_timed_out \<Longrightarrow>
    wait_step i s (goto i Sem_idle (unlock s))"
| wait_take: "thread s i = Wait_test n timeout start_ms \<Longrightarrow> n \<le> count s \<Longrightarrow>
    wait_step i s (goto i Wait_taken (s\<lparr>count := count s - n, taken := taken s + n\<rparr>))"
| wait_true: "thread s i = Wait_taken \<Longrightarrow>
    wait_step i s (goto i Sem_idle (unlock s))"

text \<open>What happens to a thread inside \<^verbatim>\<open>os_condvar_wait\<close>: it is woken for no reason, its deadline passes, or it has
  the mutex again and returns true when it was woken and false after a timeout.\<close>

inductive condvar_step :: "nat \<Rightarrow> sem_state \<Rightarrow> sem_state \<Rightarrow> bool" for i where
  wait_spurious: "thread s i = Wait_asleep n timeout start_ms d \<Longrightarrow>
    condvar_step i s (goto i (Wait_woken n timeout start_ms True) s)"
| wait_timeout: "thread s i = Wait_asleep n timeout start_ms (Some d) \<Longrightarrow>
    condvar_step i s (goto i (Wait_woken n timeout start_ms False) s)"
| wait_relocked: "thread s i = Wait_woken n timeout start_ms woken \<Longrightarrow> owner s = None \<Longrightarrow>
    condvar_step i s (goto i (if woken then Wait_test n timeout start_ms else Wait_timed_out) (lock i s))"

text \<open>The steps of \<^verbatim>\<open>semaphore_signal\<close>. A signal of the condition variable wakes one of the
  sleeping threads, if there is one.\<close>

definition asleep :: "sem_state \<Rightarrow> nat \<Rightarrow> bool" where
  "asleep s j = (case thread s j of Wait_asleep _ _ _ _ \<Rightarrow> True | _ \<Rightarrow> False)"

definition wake :: "nat \<Rightarrow> sem_state \<Rightarrow> sem_state" where
  "wake j s = (case thread s j of
     Wait_asleep n timeout start_ms d \<Rightarrow> goto j (Wait_woken n timeout start_ms True) s
   | _ \<Rightarrow> s)"

inductive signal_step :: "nat \<Rightarrow> sem_state \<Rightarrow> sem_state \<Rightarrow> bool" for i where
  signal_call: "thread s i = Sem_idle \<Longrightarrow> 0 < n \<Longrightarrow>
    signal_step i s (goto i (Signal_lock n) s)"
| signal_assert: "thread s i = Sem_idle \<Longrightarrow> n \<le> (0 :: int) \<Longrightarrow>
    signal_step i s (goto i (Sem_stuck False Assert_failed) s)"
| signal_locked: "thread s i = Signal_lock n \<Longrightarrow> owner s = None \<Longrightarrow>
    signal_step i s (goto i (Signal_add n) (lock i s))"
| signal_add: "thread s i = Signal_add n \<Longrightarrow> in_int (count s + n) = Inr c \<Longrightarrow>
    signal_step i s (goto i Signal_wake (s\<lparr>count := c, given := given s + n\<rparr>))"
| signal_overflow: "thread s i = Signal_add n \<Longrightarrow> in_int (count s + n) = Inl e \<Longrightarrow>
    signal_step i s (goto i (Sem_stuck True e) s)"
| signal_wake: "thread s i = Signal_wake \<Longrightarrow> 0 < count s \<Longrightarrow> asleep s j \<Longrightarrow>
    signal_step i s (goto i Signal_unlock (wake j s))"
| signal_nobody: "thread s i = Signal_wake \<Longrightarrow> count s \<le> 0 \<or> (\<forall>j. \<not> asleep s j) \<Longrightarrow>
    signal_step i s (goto i Signal_unlock s)"
| signal_done: "thread s i = Signal_unlock \<Longrightarrow>
    signal_step i s (goto i Sem_idle (unlock s))"

inductive sem_step :: "sem_state \<Rightarrow> sem_state \<Rightarrow> bool" where
  sem_tick: "now_ns s \<le> t \<Longrightarrow> sem_step s (s\<lparr>now_ns := t\<rparr>)"
| sem_wait: "wait_step i s s' \<Longrightarrow> sem_step s s'"
| sem_condvar: "condvar_step i s s' \<Longrightarrow> sem_step s s'"
| sem_signal: "signal_step i s s' \<Longrightarrow> sem_step s s'"

subsection \<open>Invariant\<close>

text \<open>Where a thread holds the mutex.\<close>

fun holds :: "sem_pc \<Rightarrow> bool" where
  "holds (Wait_test _ _ _) = True"
| "holds Wait_timed_out = True"
| "holds Wait_taken = True"
| "holds (Signal_add _) = True"
| "holds Signal_wake = True"
| "holds Signal_unlock = True"
| "holds (Sem_stuck held _) = held"
| "holds _ = False"

fun positive :: "sem_pc \<Rightarrow> bool" where
  "positive (Signal_lock n) = (0 < n)"
| "positive (Signal_add n) = (0 < n)"
| "positive _ = True"

definition mutex_ok :: "sem_state \<Rightarrow> bool" where
  "mutex_ok s \<longleftrightarrow> (\<forall>i. holds (thread s i) \<longleftrightarrow> owner s = Some i) \<and> (\<forall>i. positive (thread s i))"

definition count_ok :: "int \<Rightarrow> sem_state \<Rightarrow> bool" where
  "count_ok c0 s \<longleftrightarrow> count s = c0 + given s - taken s \<and> 0 \<le> count s \<and> 0 \<le> given s"

definition sem_inv :: "int \<Rightarrow> sem_state \<Rightarrow> bool" where
  "sem_inv c0 s \<longleftrightarrow> mutex_ok s \<and> count_ok c0 s"

lemmas sem_defs = sem_inv_def mutex_ok_def count_ok_def goto_def lock_def unlock_def wake_def

lemma goto_sel [simp]:
  "count (goto i p s) = count s" "owner (goto i p s) = owner s" "given (goto i p s) = given s"
  "taken (goto i p s) = taken s" "thread (goto i p s) = (thread s)(i := p)"
  by (simp_all add: goto_def)

lemma unlocked: "mutex_ok s \<Longrightarrow> owner s = None \<Longrightarrow> \<not> holds (thread s j)"
  by (simp add: mutex_ok_def)

text \<open>A thread moves on without touching the mutex, takes it, or gives it back.\<close>

lemma mutex_ok_stay:
  "mutex_ok s \<Longrightarrow> holds p = holds (thread s i) \<Longrightarrow> positive p \<Longrightarrow> mutex_ok (goto i p s)"
  by (auto simp: mutex_ok_def)

lemma mutex_ok_lock:
  "mutex_ok s \<Longrightarrow> owner s = None \<Longrightarrow> holds p \<Longrightarrow> positive p \<Longrightarrow> mutex_ok (goto i p (lock i s))"
  by (auto simp: mutex_ok_def lock_def)

lemma mutex_ok_unlock:
  "mutex_ok s \<Longrightarrow> holds (thread s i) \<Longrightarrow> \<not> holds p \<Longrightarrow> positive p \<Longrightarrow> mutex_ok (goto i p (unlock s))"
  by (auto simp: mutex_ok_def unlock_def)

lemma mutex_ok_count: "mutex_ok (s\<lparr>count := c, given := g\<rparr>) = mutex_ok s"
    "mutex_ok (s\<lparr>count := c, taken := g\<rparr>) = mutex_ok s" "mutex_ok (s\<lparr>now_ns := t\<rparr>) = mutex_ok s"
  by (simp_all add: mutex_ok_def)

lemmas mutex_intros = mutex_ok_stay mutex_ok_lock mutex_ok_unlock

lemma positive_at: "mutex_ok s \<Longrightarrow> positive (thread s i)"
  by (simp add: mutex_ok_def)

lemma wait_step_mutex: "wait_step i s s' \<Longrightarrow> mutex_ok s \<Longrightarrow> mutex_ok s'"
  by (induction rule: wait_step.induct) (fastforce intro: mutex_intros simp: mutex_ok_count)+

lemma wait_step_count: "wait_step i s s' \<Longrightarrow> count_ok c0 s \<Longrightarrow> count_ok c0 s'"
  by (induction rule: wait_step.induct) (auto simp: count_ok_def lock_def unlock_def)

lemma condvar_step_mutex: "condvar_step i s s' \<Longrightarrow> mutex_ok s \<Longrightarrow> mutex_ok s'"
  by (induction rule: condvar_step.induct) (fastforce intro: mutex_intros)+

lemma condvar_step_count: "condvar_step i s s' \<Longrightarrow> count_ok c0 s \<Longrightarrow> count_ok c0 s'"
  by (induction rule: condvar_step.induct) (auto simp: count_ok_def lock_def)

lemma wake_same:
  "count (wake j s) = count s" "given (wake j s) = given s" "taken (wake j s) = taken s" "owner (wake j s) = owner s"
  by (simp_all add: wake_def split: sem_pc.split)

lemma wake_mutex: "mutex_ok s \<Longrightarrow> mutex_ok (wake j s)"
  by (auto simp: wake_def intro!: mutex_ok_stay split: sem_pc.split)

lemma wake_other: "holds (thread s i) \<Longrightarrow> thread (wake j s) i = thread s i"
  by (cases "i = j") (auto simp: wake_def split: sem_pc.split)

lemma signal_step_mutex: "signal_step i s s' \<Longrightarrow> mutex_ok s \<Longrightarrow> mutex_ok s'"
proof (induction rule: signal_step.induct)
  case (signal_wake s j)
  then show ?case using wake_other [of s i j] by (auto intro!: mutex_ok_stay wake_mutex)
next
  case (signal_locked s n)
  then show ?case using positive_at [of s i] by (auto intro!: mutex_ok_lock)
qed (fastforce intro: mutex_intros simp: mutex_ok_count)+

lemma signal_step_count: "signal_step i s s' \<Longrightarrow> mutex_ok s \<Longrightarrow> count_ok c0 s \<Longrightarrow> count_ok c0 s'"
proof (induction rule: signal_step.induct)
  case (signal_add s n c)
  then show ?case using positive_at [of s i] by (auto simp: count_ok_def in_int_def split: if_splits)
qed (auto simp: count_ok_def lock_def unlock_def wake_same)

interpretation sem: invariant_system "semaphore_created c0" sem_step "\<lambda>s. 0 \<le> c0 \<longrightarrow> sem_inv c0 s" for c0
proof
  show "0 \<le> c0 \<longrightarrow> sem_inv c0 s" if "semaphore_created c0 s" for s
    using that by (auto simp: semaphore_created_def semaphore_create_def sem_defs)
  show "0 \<le> c0 \<longrightarrow> sem_inv c0 s'" if "0 \<le> c0 \<longrightarrow> sem_inv c0 s" "sem_step s s'" for s s'
    using that(2,1)
    by (cases rule: sem_step.cases)
       (auto simp: sem_inv_def mutex_ok_count count_ok_def
          intro: wait_step_mutex condvar_step_mutex signal_step_mutex
          dest: wait_step_count [of _ _ _ c0] condvar_step_count [of _ _ _ c0] signal_step_count [of _ _ _ c0])
qed

subsection \<open>What the threads can rely on\<close>

text \<open>C33: Conservation. Whatever the interleaving of calls, wake-ups and timeouts, the count is the
  initial count plus what was given less what was taken, it is never negative, so that no more is
  taken than was there, and no two threads are inside the critical section.\<close>

theorem semaphore_conserved:
  assumes "reachable (semaphore_created c0) sem_step s" "0 \<le> c0"
  shows "count s = c0 + given s - taken s \<and> 0 \<le> count s \<and> taken s \<le> c0 + given s
    \<and> \<not> (holds (thread s i) \<and> holds (thread s j) \<and> i \<noteq> j)"
proof -
  have "sem_inv c0 s" using sem.reachable_inv [OF assms(1)] assms(2) by simp
  then show ?thesis by (auto simp: sem_inv_def count_ok_def mutex_ok_def)
qed

lemma sem_steps:
  "reachable init sem_step s \<Longrightarrow> wait_step i s s' \<Longrightarrow> reachable init sem_step s'"
  "reachable init sem_step s \<Longrightarrow> condvar_step i s s' \<Longrightarrow> reachable init sem_step s'"
  "reachable init sem_step s \<Longrightarrow> signal_step i s s' \<Longrightarrow> reachable init sem_step s'"
  by (auto intro: reachable.more sem_wait sem_condvar sem_signal)

lemma semaphore_create_reachable: "reachable (semaphore_created n) sem_step (semaphore_create n t)"
  by (rule reachable.start) (auto simp: semaphore_created_def)

text \<open>Whole calls with nobody in between: falling asleep, giving with a thread asleep, waking up and taking.\<close>

lemma call_sleeps:
  assumes "reachable init sem_step s" "thread s i = Sem_idle" "owner s = None" "0 < n" "count s < n"
  shows "reachable init sem_step (goto i (Wait_asleep n (- 1) (now_ms s) None) s)"
proof -
  define s1 where "s1 = goto i (Wait_lock n (- 1) (now_ms s)) s"
  define s2 where "s2 = goto i (Wait_test n (- 1) (now_ms s)) (lock i s1)"
  have "wait_step i s s1" unfolding s1_def using assms by (intro wait_call)
  moreover have "wait_step i s1 s2" unfolding s2_def using assms by (intro wait_locked) (simp_all add: s1_def)
  moreover have "wait_step i s2 (goto i (Wait_asleep n (- 1) (now_ms s) (condvar_deadline (- 1) 0)) (unlock s2))"
    using assms by (intro wait_sleep) (simp_all add: s2_def s1_def lock_def remaining_ms_def)
  ultimately have "reachable init sem_step (goto i (Wait_asleep n (- 1) (now_ms s) (condvar_deadline (- 1) 0)) (unlock s2))"
    using assms(1) by (meson sem_steps)
  then show ?thesis
    using assms(3) by (cases s) (simp add: s2_def s1_def goto_def lock_def unlock_def condvar_deadline_def)
qed

lemma call_signals:
  assumes "reachable init sem_step s" "thread s i = Sem_idle" "owner s = None" "0 < n" "in_int (count s + n) = Inr c" "0 < c"
    "thread s j = Wait_asleep m timeout start_ms d"
  shows "reachable init sem_step (goto j (Wait_woken m timeout start_ms True) (s\<lparr>count := c, given := given s + n\<rparr>))"
proof -
  have ij: "i \<noteq> j" using assms(2,7) by auto
  define s1 where "s1 = goto i (Signal_lock n) s"
  define s2 where "s2 = goto i (Signal_add n) (lock i s1)"
  define s3 where "s3 = goto i Signal_wake (s2\<lparr>count := c, given := given s2 + n\<rparr>)"
  define s4 where "s4 = goto i Signal_unlock (wake j s3)"
  have t3: "thread s3 j = Wait_asleep m timeout start_ms d"
    using assms ij by (simp add: s3_def s2_def s1_def lock_def)
  have "signal_step i s s1" unfolding s1_def using assms by (intro signal_call)
  moreover have "signal_step i s1 s2" unfolding s2_def using assms by (intro signal_locked) (simp_all add: s1_def)
  moreover have "signal_step i s2 s3" unfolding s3_def using assms by (intro signal_add) (simp_all add: s2_def s1_def lock_def)
  moreover have "signal_step i s3 s4" unfolding s4_def
    using assms t3 by (intro signal_wake) (simp_all add: asleep_def, simp_all add: s3_def)
  moreover have "signal_step i s4 (goto i Sem_idle (unlock s4))" by (rule signal_done) (simp add: s4_def)
  ultimately have "reachable init sem_step (goto i Sem_idle (unlock s4))"
    using assms(1) by (meson sem_steps)
  moreover have "goto i Sem_idle (unlock s4) = goto j (Wait_woken m timeout start_ms True) (s\<lparr>count := c, given := given s + n\<rparr>)"
    using ij assms(2,3) t3
    by (simp add: s4_def wake_def) (auto simp: s3_def s2_def s1_def goto_def lock_def unlock_def fun_eq_iff)
  ultimately show ?thesis by simp
qed

lemma woken_takes:
  assumes "reachable init sem_step s" "thread s i = Wait_woken n timeout start_ms True" "owner s = None" "n \<le> count s"
  shows "reachable init sem_step (goto i Sem_idle (s\<lparr>count := count s - n, taken := taken s + n\<rparr>))"
proof -
  define s1 where "s1 = goto i (Wait_test n timeout start_ms) (lock i s)"
  define s2 where "s2 = goto i Wait_taken (s1\<lparr>count := count s1 - n, taken := taken s1 + n\<rparr>)"
  have "condvar_step i s s1" unfolding s1_def using wait_relocked [OF assms(2,3)] by simp
  moreover have "wait_step i s1 s2" unfolding s2_def using assms by (intro wait_take) (simp_all add: s1_def lock_def)
  moreover have "wait_step i s2 (goto i Sem_idle (unlock s2))" by (rule wait_true) (simp add: s2_def)
  ultimately have "reachable init sem_step (goto i Sem_idle (unlock s2))"
    using assms(1) by (meson sem_steps)
  then show ?thesis using assms(3) by (cases s) (simp add: s2_def s1_def goto_def lock_def unlock_def)
qed

lemmas sem_calls = call_sleeps call_signals woken_takes

definition one_left :: sem_state where
  "one_left = \<lparr>count = 1, owner = None, thread = (\<lambda>_. Sem_idle)(1 := Wait_asleep 1 (- 1) 0 None), now_ns = 0, given = 2, taken = 1\<rparr>"

lemma one_left_reachable: "reachable (semaphore_created 0) sem_step one_left"
proof -
  let ?s1 = "goto 1 (Wait_asleep 1 (- 1) 0 None) (semaphore_create 0 0)"
  let ?s2 = "goto 2 (Wait_asleep 1 (- 1) 0 None) ?s1"
  let ?s3 = "goto 2 (Wait_woken 1 (- 1) 0 True) (?s2\<lparr>count := 2, given := 2\<rparr>)"
  have "reachable (semaphore_created 0) sem_step ?s1"
    using call_sleeps [OF semaphore_create_reachable, of 0 0 1 1] by (simp add: semaphore_create_def)
  then have "reachable (semaphore_created 0) sem_step ?s2"
    using call_sleeps [of "semaphore_created 0" ?s1 2 1] by (simp add: semaphore_create_def goto_def)
  then have "reachable (semaphore_created 0) sem_step ?s3"
    using call_signals [of "semaphore_created 0" ?s2 3 2 2 2 1 "- 1" 0 None]
    by (simp add: semaphore_create_def in_int_def goto_def)
  then have "reachable (semaphore_created 0) sem_step (goto 2 Sem_idle (?s3\<lparr>count := 1, taken := 1\<rparr>))"
    using woken_takes [of "semaphore_created 0" ?s3 2 1 "- 1" 0] by (simp add: semaphore_create_def)
  moreover have "goto 2 Sem_idle (?s3\<lparr>count := 1, taken := 1\<rparr>) = one_left"
    by (auto simp: one_left_def semaphore_create_def goto_def fun_eq_iff)
  ultimately show ?thesis by simp
qed

theorem semaphore_conserved_witness:
  "count one_left = 0 + given one_left - taken one_left \<and> 0 \<le> count one_left \<and> taken one_left \<le> 0 + given one_left
   \<and> \<not> (holds (thread one_left 1) \<and> holds (thread one_left 2) \<and> (1 :: nat) \<noteq> 2)"
  using one_left_reachable by (rule semaphore_conserved) simp

text \<open>A signal that gives several units wakes one thread. Two threads wait for one unit each and a third
  thread gives two: a state is reached in which one unit is left, every thread is outside the
  operations but one, and that one sleeps without a deadline although the unit it waits for is there.\<close>

theorem semaphore_lost_wakeup:
  "\<exists>s. reachable (semaphore_created 0) sem_step s \<and> count s = 1
     \<and> thread s = (\<lambda>_. Sem_idle)(1 := Wait_asleep 1 (- 1) 0 None)"
  using one_left_reachable by (intro exI [of _ one_left]) (simp add: one_left_def)

text \<open>Timeouts. A waiting thread that has not yet used up its timeout sleeps with a deadline; one that
  finds the count too low after its timeout has passed sleeps without any deadline.\<close>

theorem semaphore_timeout_deadline:
  assumes "0 \<le> timeout" "timeout \<le> INT_MAX" "unat (now - start_ms) < 2 ^ 31"
  shows "\<exists>r. remaining_ms timeout start_ms now = Inr r
    \<and> (condvar_deadline r us = None \<longleftrightarrow> timeout < int (unat (now - start_ms)))"
proof -
  define e :: u32 where "e = ucast (now - start_ms)"
  define k where "k = unat (now - start_ms)"
  have k: "k < 2 ^ 31" using assms(3) by (simp add: k_def)
  then have "unat e = k" unfolding e_def k_def by (intro unat_ucast_small) simp
  then have e: "sint e = int k" using k sint_small [of e] by simp
  have "remaining_ms timeout start_ms now = Inr (timeout - int k)"
    unfolding remaining_ms_def e_def [symmetric] e using assms(1,2) k by (simp add: in_int_def)
  then show ?thesis
    unfolding k_def [symmetric] by (auto simp: condvar_deadline_def Let_def)
qed

theorem semaphore_timeout_deadline_witness:
  "\<exists>r. remaining_ms 10 500 520 = Inr r \<and> (condvar_deadline r 0 = None \<longleftrightarrow> 10 < int (unat (520 - 500 :: u64)))"
  by (rule semaphore_timeout_deadline) simp_all

end
