(* ===== verification/Pool.thy ===== *)
theory Pool
  imports Prelude "HOL-Library.AList"
begin

section \<open>The pool allocator (\<^verbatim>\<open>alloc/pool.c\<close>)\<close>

text \<open>
  Items of one size carved out of pages of the operating system. The pages that are mapped are an
  association list from their addresses to their headers (32 bytes on an LP64 machine); the word
  that a slot stores at its start, \<^verbatim>\<open>slot->next\<close>, is in \<open>slot_next\<close>. The field \<^verbatim>\<open>prev\<close> of a header
  points to one of the two list heads of the allocator. Reading or writing through NULL, or in a page that is
  not mapped, is a fault. The page size is a parameter, and so is the operating system's
  choice of the next page, a function of the pages that are mapped (\<open>None\<close>: out of memory, where
  \<^verbatim>\<open>os_alloc\<close> aborts).
\<close>

record pool_alloc =
  list_partially_full :: u64
  list_full :: u64
  item_size :: u64
  item_align :: u64
  slots_per_page :: u64

datatype list_head = No_list | Partially_full | Full

record page_header =
  pg_prev :: list_head
  pg_next :: u64
  pg_slots :: u64
  allocated_count :: int

record pool_state =
  alloc :: pool_alloc
  pages :: "(u64 \<times> page_header) list"
  slot_next :: "u64 \<Rightarrow> u64"

abbreviation sizeof_header :: u64 where "sizeof_header \<equiv> 32"

type_synonym os_pages = "(u64 \<times> page_header) list \<Rightarrow> u64 option"

subsection \<open>Creation\<close>

text \<open>The loop that counts the slots of a page; \<open>None\<close> if it does not end.\<close>

partial_function (option) count_slots :: "u64 \<Rightarrow> u64 \<Rightarrow> u64 \<Rightarrow> u64 \<Rightarrow> u64 \<Rightarrow> u64 option" where
  "count_slots ps isize msk cur n =
     (let cur = cur + (- cur AND msk) in
      if ps \<le> cur then Some n
      else let cur = cur + isize in
        if ps \<le> cur then Some n
        else count_slots ps isize msk cur (n + 1))"

definition pool_alloc_create :: "u64 \<Rightarrow> u64 \<Rightarrow> u64 \<Rightarrow> pool_alloc res option" where
  "pool_alloc_create ps isize ialign =
     (if isize < 8 \<or> ps - sizeof_header < isize then Some (Inl Assert_failed)
      else case count_slots ps isize (ialign - 1) sizeof_header 0 of
        None \<Rightarrow> None
      | Some n \<Rightarrow>
          Some (rbind (c_assert (0 < n)) (\<lambda>_.
            Inr \<lparr>list_partially_full = 0, list_full = 0, item_size = isize, item_align = ialign, slots_per_page = n\<rparr>)))"

subsection \<open>Memory\<close>

text \<open>\<^verbatim>\<open>ptr & ~(page_size-1)\<close>\<close>

definition page_of :: "u64 \<Rightarrow> u64 \<Rightarrow> u64" where
  "page_of ps ptr = ptr AND NOT (ps - 1)"

definition page_at :: "pool_state \<Rightarrow> u64 \<Rightarrow> page_header res" where
  "page_at s p = (if p = 0 then Inl Null_pointer else case map_of (pages s) p of None \<Rightarrow> Inl Out_of_bounds | Some h \<Rightarrow> Inr h)"

definition put_page :: "u64 \<Rightarrow> page_header \<Rightarrow> pool_state \<Rightarrow> pool_state" where
  "put_page p h s = s\<lparr>pages := AList.update p h (pages s)\<rparr>"

definition slot_check :: "u64 \<Rightarrow> pool_state \<Rightarrow> u64 \<Rightarrow> unit res" where
  "slot_check ps s a =
     (if a = 0 then Inl Null_pointer
      else if map_of (pages s) (page_of ps a) \<noteq> None \<and> sizeof_header \<le> a - page_of ps a \<and> a - page_of ps a \<le> ps - 8
      then Inr () else Inl Out_of_bounds)"

definition read_next :: "u64 \<Rightarrow> pool_state \<Rightarrow> u64 \<Rightarrow> u64 res" where
  "read_next ps s a = rbind (slot_check ps s a) (\<lambda>_. Inr (slot_next s a))"

definition write_next :: "u64 \<Rightarrow> u64 \<Rightarrow> u64 \<Rightarrow> pool_state \<Rightarrow> pool_state res" where
  "write_next ps a v s = rbind (slot_check ps s a) (\<lambda>_. Inr (s\<lparr>slot_next := (slot_next s)(a := v)\<rparr>))"

text \<open>\<^verbatim>\<open>*page->prev = v\<close>\<close>

fun store_list :: "list_head \<Rightarrow> u64 \<Rightarrow> pool_state \<Rightarrow> pool_state res" where
  "store_list No_list v s = Inl Null_pointer"
| "store_list Partially_full v s = Inr (s\<lparr>alloc := (alloc s)\<lparr>list_partially_full := v\<rparr>\<rparr>)"
| "store_list Full v s = Inr (s\<lparr>alloc := (alloc s)\<lparr>list_full := v\<rparr>\<rparr>)"

definition os_free_page :: "u64 \<Rightarrow> pool_state \<Rightarrow> pool_state" where
  "os_free_page p s = s\<lparr>pages := AList.delete p (pages s)\<rparr>"

subsection \<open>Pages\<close>

text \<open>Where the loop that links the slots stores the next one: the local variable \<^verbatim>\<open>slots\<close> or the
  word of the last slot.\<close>

datatype tail_ref = Local_slots | Slot_word u64

fun store_tail :: "u64 \<Rightarrow> tail_ref \<Rightarrow> u64 \<Rightarrow> u64 \<times> pool_state \<Rightarrow> (u64 \<times> pool_state) res" where
  "store_tail ps Local_slots v (slots, s) = Inr (v, s)"
| "store_tail ps (Slot_word a) v (slots, s) = rbind (write_next ps a v s) (\<lambda>s. Inr (slots, s))"

fun link_slots :: "u64 \<Rightarrow> u64 \<Rightarrow> u64 \<Rightarrow> nat \<Rightarrow> u64 \<Rightarrow> tail_ref \<Rightarrow> u64 \<times> pool_state \<Rightarrow> (tail_ref \<times> u64 \<times> pool_state) res" where
  "link_slots ps msk page_end 0 cursor tail ss = Inr (tail, ss)"
| "link_slots ps msk page_end (Suc n) cursor tail ss =
     (let cursor = cursor + (- cursor AND msk) in
      if page_end \<le> cursor then Inr (tail, ss)
      else rbind (store_tail ps tail cursor ss) (\<lambda>ss. link_slots ps msk page_end n cursor (Slot_word cursor) ss))"

definition zero_header :: page_header where
  "zero_header = \<lparr>pg_prev = No_list, pg_next = 0, pg_slots = 0, allocated_count = 0\<rparr>"

definition ensure_partially_full_page_available :: "u64 \<Rightarrow> os_pages \<Rightarrow> pool_state \<Rightarrow> pool_state res" where
  "ensure_partially_full_page_available ps os s =
     (if list_partially_full (alloc s) = 0 then
        case os (pages s) of
          None \<Rightarrow> Inl Aborted
        | Some page \<Rightarrow>
            rbind (link_slots ps (item_align (alloc s) - 1) (page + ps) (unat (slots_per_page (alloc s)))
                     (page + sizeof_header) Local_slots (0, put_page page zero_header s)) (\<lambda>(tail, ss).
            rbind (store_tail ps tail 0 ss) (\<lambda>(slots, s).
              Inr ((put_page page \<lparr>pg_prev = Partially_full, pg_next = list_partially_full (alloc s), pg_slots = slots, allocated_count = 0\<rparr> s)
                     \<lparr>alloc := (alloc s)\<lparr>list_partially_full := page\<rparr>\<rparr>)))
      else Inr s)"

subsection \<open>Taking and returning an item\<close>

definition pool_alloc_get :: "u64 \<Rightarrow> os_pages \<Rightarrow> pool_state \<Rightarrow> (u64 \<times> pool_state) res" where
  "pool_alloc_get ps os s =
     rbind (ensure_partially_full_page_available ps os s) (\<lambda>s.
       let p = list_partially_full (alloc s) in
       rbind (page_at s p) (\<lambda>page.
         let slot = pg_slots page in
         rbind (read_next ps s slot) (\<lambda>next.
           let page = page\<lparr>pg_slots := next, allocated_count := allocated_count page + 1\<rparr>;
               s = put_page p page s
           in if of_int (allocated_count page) = slots_per_page (alloc s) then
                rbind (store_list (pg_prev page) (pg_next page) s) (\<lambda>s.
                  Inr (slot, (put_page p (page\<lparr>pg_prev := Full, pg_next := list_full (alloc s)\<rparr>) s)
                               \<lparr>alloc := (alloc s)\<lparr>list_full := p\<rparr>\<rparr>))
              else Inr (slot, s))))"

definition pool_alloc_put :: "u64 \<Rightarrow> u64 \<Rightarrow> pool_state \<Rightarrow> pool_state res" where
  "pool_alloc_put ps ptr s =
     (let p = page_of ps ptr in
      rbind (page_at s p) (\<lambda>page.
      rbind (write_next ps ptr (pg_slots page) s) (\<lambda>s.
        let page = page\<lparr>pg_slots := ptr\<rparr> in
        rbind (c_assert (0 < allocated_count page)) (\<lambda>_.
          let page = page\<lparr>allocated_count := allocated_count page - 1\<rparr>;
              s = put_page p page s
          in if allocated_count page = 0 then
               rbind (store_list (pg_prev page) (pg_next page) s) (\<lambda>s. Inr (os_free_page p s))
             else if of_int (allocated_count page) = slots_per_page (alloc s) - 1 then
               rbind (store_list (pg_prev page) (pg_next page) s) (\<lambda>s.
                 Inr ((put_page p (page\<lparr>pg_prev := Partially_full, pg_next := list_partially_full (alloc s)\<rparr>) s)
                        \<lparr>alloc := (alloc s)\<lparr>list_partially_full := p\<rparr>\<rparr>))
             else Inr s))))"

subsection \<open>Deletion\<close>

lemma delete_shorter: "map_of al k = Some v \<Longrightarrow> length (AList.delete k al) < length al"
proof (induction al)
  case (Cons a al)
  have "length (AList.delete k al) \<le> length al" by (simp add: AList.delete_eq)
  with Cons show ?case by (cases a) (auto split: if_splits)
qed simp

function delete_loop :: "u64 \<Rightarrow> pool_state \<Rightarrow> pool_state res" where
  "delete_loop cursor s =
     (if cursor = 0 then Inr s
      else case map_of (pages s) cursor of
        None \<Rightarrow> Inl Out_of_bounds
      | Some page \<Rightarrow> delete_loop (pg_next page) (os_free_page cursor s))"
  by pat_completeness auto
termination
  by (relation "measure (\<lambda>(cursor, s). length (pages s))") (auto simp: os_free_page_def delete_shorter)

declare delete_loop.simps [simp del]

definition pool_alloc_delete :: "pool_state \<Rightarrow> pool_state res" where
  "pool_alloc_delete s =
     rbind (delete_loop (list_partially_full (alloc s)) (s\<lparr>alloc := (alloc s)\<lparr>list_partially_full := 0\<rparr>\<rparr>)) (\<lambda>s.
       delete_loop (list_full (alloc s)) (s\<lparr>alloc := (alloc s)\<lparr>list_full := 0\<rparr>\<rparr>))"

subsection \<open>Counting the slots\<close>

text \<open>The offset of slot \<open>j\<close> in a page.\<close>

definition slot_place :: "nat \<Rightarrow> nat \<Rightarrow> nat \<Rightarrow> nat" where
  "slot_place a isize j = round_up a 32 + j * round_up a isize"

lemma slot_place_next: "0 < a \<Longrightarrow> round_up a (slot_place a isize j + isize) = slot_place a isize (Suc j)"
  by (subst round_up_add) (auto simp: slot_place_def round_up_dvd)

lemma slot_place_mono: "i \<le> j \<Longrightarrow> slot_place a isize i \<le> slot_place a isize j"
  by (simp add: slot_place_def)

lemma count_slots_from:
  assumes "k \<le> 63" "unat ps < 2 ^ 31" "unat isize < 2 ^ 31"
    and "round_up (2 ^ k) (unat cur) = slot_place (2 ^ k) (unat isize) j" "unat cur < 2 ^ 31"
    and "j \<le> m" "unat ps \<le> slot_place (2 ^ k) (unat isize) m + unat isize"
    and "\<And>i. i < m \<Longrightarrow> slot_place (2 ^ k) (unat isize) i + unat isize < unat ps"
  shows "count_slots ps isize (mask k) cur (of_nat j) = Some (of_nat m)"
  using assms(4-8)
proof (induction "m - j" arbitrary: j cur)
  case 0
  then have "j = m" by simp
  define c where "c = cur + (- cur AND mask k)"
  have p: "(2 :: nat) ^ k \<le> 2 ^ 63" using assms(1) by (rule power_increasing) simp
  have c: "unat c = slot_place (2 ^ k) (unat isize) m"
    using unat_pad_mask [of k cur] assms(1) 0 p \<open>j = m\<close> by (simp add: c_def)
  have "unat ps \<le> unat (c + isize)" if "\<not> ps \<le> c"
    using that 0 c assms(2,3) \<open>j = m\<close> by (simp add: word_le_nat_alt unat_word_ariths)
  then show ?case
    using \<open>j = m\<close> by (subst count_slots.simps) (auto simp: Let_def c_def [symmetric] word_le_nat_alt)
next
  case (Suc d)
  define c where "c = cur + (- cur AND mask k)"
  have p: "(2 :: nat) ^ k \<le> 2 ^ 63" using assms(1) by (rule power_increasing) simp
  have c: "unat c = slot_place (2 ^ k) (unat isize) j"
    using unat_pad_mask [of k cur] assms(1) Suc p by (simp add: c_def)
  have lt: "unat c + unat isize < unat ps" using Suc(2,7) c by simp
  then have ci: "unat (c + isize) = unat c + unat isize" using assms(2) by (simp add: unat_word_ariths)
  have "count_slots ps isize (mask k) (c + isize) (of_nat (Suc j)) = Some (of_nat m)"
    using Suc(2-7) less_trans [OF lt assms(2)] ci c by (intro Suc.hyps(1)) (auto simp: slot_place_next)
  then show ?case
    using lt ci by (subst count_slots.simps) (auto simp: Let_def c_def [symmetric] word_le_nat_alt add.commute)
qed

lemma create_slots:
  assumes "unat ps < 2 ^ 31" "8 \<le> isize" "isize \<le> ps - 32" "k \<le> 63" "32 \<le> ps"
  shows "\<exists>m. pool_alloc_create ps isize (2 ^ k)
      = Some (if m = 0 then Inl Assert_failed
          else Inr \<lparr>list_partially_full = 0, list_full = 0, item_size = isize, item_align = 2 ^ k, slots_per_page = of_nat m\<rparr>)
    \<and> (\<forall>j. slot_place (2 ^ k) (unat isize) j + unat isize < unat ps \<longleftrightarrow> j < m)"
proof -
  define fits where "fits j \<longleftrightarrow> slot_place (2 ^ k) (unat isize) j + unat isize < unat ps" for j
  define m where "m = (LEAST j. \<not> fits j)"
  have i8: "8 \<le> unat isize" "unat isize \<le> unat ps - 32"
    using assms(2,3,5) by (auto simp: word_le_nat_alt unat_sub)
  have "unat isize \<le> round_up (2 ^ k) (unat isize)" by (rule round_up_ge) simp
  with i8 have "unat ps \<le> slot_place (2 ^ k) (unat isize) (unat ps)"
    unfolding slot_place_def by (metis le_add2 le_trans mult.commute mult_le_mono1 nat_mult_1 one_le_numeral)
  then have "\<not> fits (unat ps)" by (simp add: fits_def)
  then have stop: "\<not> fits m" and m_le: "m \<le> unat ps" unfolding m_def by (fact LeastI, fact Least_le)
  have fits_below: "fits i" if "i < m" for i using that not_less_Least unfolding m_def by blast
  have fits_iff: "fits j \<longleftrightarrow> j < m" for j
    using stop fits_below slot_place_mono [of m j "2 ^ k" "unat isize"] by (cases "j < m") (auto simp: fits_def)
  have msk: "(2 ^ k :: u64) - 1 = mask k" by (simp add: mask_eq_exp_minus_1)
  have cnt: "count_slots ps isize (mask k) 32 0 = Some (of_nat m)"
    using count_slots_from [of k ps isize 32 0 m] assms i8 stop fits_below by (auto simp: fits_def slot_place_def)
  have pos: "(0 :: u64) < of_nat m \<longleftrightarrow> m \<noteq> 0"
    using m_le assms(1) unat_of_nat_small [where 'a = 64, of m] by (auto simp: word_less_nat_alt)
  have ok: "\<not> (isize < 8 \<or> ps - 32 < isize)" using assms(2,3) by auto
  have "pool_alloc_create ps isize (2 ^ k)
      = Some (if m = 0 then Inl Assert_failed
          else Inr \<lparr>list_partially_full = 0, list_full = 0, item_size = isize, item_align = 2 ^ k, slots_per_page = of_nat m\<rparr>)"
    unfolding pool_alloc_create_def msk cnt c_assert_def if_not_P [OF ok] by (simp add: pos)
  with fits_iff show ?thesis unfolding fits_def by blast
qed

text \<open>Creation returns for every power of two as alignment. The number of slots of a page is the number
  of slots, each at the next aligned offset after the one before, that end before the last byte of
  the page; with none the assertion at the end fails.\<close>

theorem pool_slots_counted:
  assumes "unat ps < 2 ^ 31" "8 \<le> isize" "isize \<le> ps - 32" "k \<le> 63" "32 \<le> ps"
  shows "\<exists>m. pool_alloc_create ps isize (2 ^ k)
      = Some (if m = 0 then Inl Assert_failed
          else Inr \<lparr>list_partially_full = 0, list_full = 0, item_size = isize, item_align = 2 ^ k, slots_per_page = of_nat m\<rparr>)
    \<and> (\<forall>j. slot_place (2 ^ k) (unat isize) j + unat isize < unat ps \<longleftrightarrow> j < m)"
  using assms by (rule create_slots)

theorem pool_slots_counted_witness:
  "\<exists>m. pool_alloc_create 4096 100 (2 ^ 3)
      = Some (if m = 0 then Inl Assert_failed
          else Inr \<lparr>list_partially_full = 0, list_full = 0, item_size = 100, item_align = 2 ^ 3, slots_per_page = of_nat m\<rparr>)
    \<and> (\<forall>j. slot_place (2 ^ 3) (unat (100 :: u64)) j + unat (100 :: u64) < unat (4096 :: u64) \<longleftrightarrow> j < m)"
  by (rule pool_slots_counted) simp_all

text \<open>The largest item the first assertion allows does not pass the last one.\<close>

lemma pool_exact_fit: "pool_alloc_create 4096 4064 8 = Some (Inl Assert_failed)"
  by (simp add: pool_alloc_create_def count_slots.simps)

subsection \<open>A fresh page\<close>

text \<open>A page of \<open>2 ^ e\<close> bytes as the operating system hands it out, and the place of its first slot.\<close>

definition page_ok :: "nat \<Rightarrow> u64 \<Rightarrow> bool" where
  "page_ok e p \<longleftrightarrow> p \<noteq> 0 \<and> p AND mask e = 0 \<and> unat p + 2 ^ e < 2 ^ 64"

definition item_at :: "nat \<Rightarrow> u64 \<Rightarrow> u64" where
  "item_at k p = p + 32 + (- (p + 32) AND mask k)"

definition params_ok :: "nat \<Rightarrow> nat \<Rightarrow> pool_alloc \<Rightarrow> bool" where
  "params_ok e k al \<longleftrightarrow> e < 31 \<and> k < e \<and> item_align al = 2 ^ k \<and> 8 \<le> unat (item_size al)
     \<and> round_up (2 ^ k) 32 + unat (item_size al) < 2 ^ e"

lemma page_of_offset:
  fixes p r :: u64
  assumes "p AND mask e = 0" "unat r < 2 ^ e"
  shows "page_of (2 ^ e) (p + r) = p"
proof -
  have r: "\<not> bit r n" if "e \<le> n" for n
  proof -
    have "drop_bit e r = 0" using assms(2) by (simp add: drop_bit_mask_iff)
    then have "\<not> bit (drop_bit e r) (n - e)" by simp
    then show ?thesis using that by (simp add: bit_drop_bit_eq)
  qed
  have p: "\<not> bit p n" if "n < e" for n
  proof -
    have "\<not> bit (p AND mask e) n" using assms(1) by simp
    then show ?thesis using that by (auto simp: bit_simps dest: bit_imp_le_length)
  qed
  have "p + r = p OR r" by (rule disjunctive_add) (use p r in \<open>meson not_less\<close>)
  moreover have "(p OR r) AND NOT (mask e) = p"
    by (rule bit_word_eqI) (use p r in \<open>auto simp: bit_simps intro: leI\<close>)
  ultimately show ?thesis by (simp add: page_of_def mask_eq_exp_minus_1)
qed

lemma unat_pow2_dvd: "(p :: u64) AND mask e = 0 \<Longrightarrow> k \<le> e \<Longrightarrow> 2 ^ k dvd unat p"
  using unat_and_mask [of p e] by (metis dvd_eq_mod_eq_0 dvd_trans le_imp_power_dvd unat_0)

lemma item_at_place:
  assumes "page_ok e p" "params_ok e k al"
  shows "unat (item_at k p) = unat p + round_up (2 ^ k) 32" "page_of (2 ^ e) (item_at k p) = p"
    "unat (item_at k p - p) = round_up (2 ^ k) 32"
proof -
  have e: "(2 :: nat) ^ e \<le> 2 ^ 30" using assms(2) by (intro power_increasing) (auto simp: params_ok_def)
  have ke: "2 * (2 :: nat) ^ k \<le> 2 ^ e"
    using assms(2) power_increasing [of "Suc k" e "2 :: nat"] by (simp add: params_ok_def)
  have up: "round_up (2 ^ k) 32 < 2 ^ e" using assms(2) by (simp add: params_ok_def)
  have up32: "32 \<le> round_up (2 ^ k) 32" by (rule round_up_ge) simp
  have p32: "unat (p + 32) = unat p + 32"
    using assms(1) up up32 by (simp add: page_ok_def unat_word_ariths)
  have e6: "6 \<le> e"
  proof (rule ccontr)
    assume "\<not> 6 \<le> e"
    then have "(2 :: nat) ^ e \<le> 2 ^ 5" by (intro power_increasing) auto
    with up up32 show False by simp
  qed
  then have "(2 :: nat) ^ 6 \<le> 2 ^ e" by (intro power_increasing) auto
  with ke have room: "32 + 2 ^ k \<le> (2 :: nat) ^ e" by simp
  have dvd: "2 ^ k dvd unat p" using assms by (intro unat_pow2_dvd [of p e]) (auto simp: page_ok_def params_ok_def)
  show u: "unat (item_at k p) = unat p + round_up (2 ^ k) 32"
    using unat_pad_mask [of k "p + 32"] assms room dvd
    by (simp add: item_at_def p32 page_ok_def params_ok_def round_up_add)
  show d: "unat (item_at k p - p) = round_up (2 ^ k) 32" using u by (simp add: unat_sub word_le_nat_alt)
  show "page_of (2 ^ e) (item_at k p) = p"
    using page_of_offset [of p e "item_at k p - p"] assms(1) d up by (simp add: page_ok_def)
qed

lemma dvd_next: "(a :: nat) dvd m \<Longrightarrow> a dvd n \<Longrightarrow> m < n \<Longrightarrow> m + a \<le> n"
  using dvd_imp_le [of a "n - m"] by (simp add: dvd_diff_nat)

lemma item_at_aligned:
  assumes "page_ok e p" "params_ok e k al"
  shows "item_at k p + (- item_at k p AND mask k) = item_at k p"
proof -
  have "2 ^ k dvd unat p" using assms by (intro unat_pow2_dvd [of p e]) (auto simp: page_ok_def params_ok_def)
  then have dvd: "2 ^ k dvd unat (item_at k p)" unfolding item_at_place(1) [OF assms] by (simp add: round_up_dvd)
  have "round_up (2 ^ k) 32 + 2 ^ k \<le> 2 ^ e"
    using assms(2) by (intro dvd_next) (auto simp: params_ok_def round_up_dvd le_imp_power_dvd)
  then have "unat (item_at k p + (- item_at k p AND mask k)) = unat (item_at k p)"
    using assms dvd item_at_place(1) [OF assms] round_up_unique [OF dvd, of "unat (item_at k p)"]
    by (subst unat_pad_mask) (auto simp: page_ok_def params_ok_def)
  then show ?thesis by (simp only: unsigned_word_eqI)
qed

lemma item_check:
  assumes "page_ok e p" "params_ok e k al" "map_of (pages s) p \<noteq> None"
  shows "slot_check (2 ^ e) s (item_at k p) = Inr ()"
proof -
  have e: "e < 64" using assms(2) by (simp add: params_ok_def)
  have up: "round_up (2 ^ k) 32 + 8 \<le> 2 ^ e" using assms(2) by (simp add: params_ok_def)
  have u: "unat ((2 :: u64) ^ e - 8) = 2 ^ e - 8"
    using up e by (simp add: unat_sub word_le_nat_alt unat_pow2)
  have "32 \<le> round_up (2 ^ k) 32" by (rule round_up_ge) simp
  moreover have "item_at k p \<noteq> 0"
    using item_at_place(1) [OF assms(1,2)] calculation by auto
  ultimately show ?thesis
    using item_at_place(2,3) [OF assms(1,2)] assms(3) up u by (simp add: slot_check_def word_le_nat_alt)
qed

lemma slot_check_next [simp]: "slot_check ps (s\<lparr>slot_next := f\<rparr>) a = slot_check ps s a"
  by (simp add: slot_check_def)

lemma link_rest:
  assumes "a + (- a AND msk) = a" "a < page_end" "slot_check ps s a = Inr ()"
  shows "link_slots ps msk page_end n a (Slot_word a) (slots, s)
    = Inr (Slot_word a, slots, if n = 0 then s else s\<lparr>slot_next := (slot_next s)(a := a)\<rparr>)"
  using assms(3)
proof (induction n arbitrary: s)
  case (Suc n)
  have "link_slots ps msk page_end n a (Slot_word a) (slots, s\<lparr>slot_next := (slot_next s)(a := a)\<rparr>)
    = Inr (Slot_word a, slots, s\<lparr>slot_next := (slot_next s)(a := a)\<rparr>)"
    using Suc.IH [of "s\<lparr>slot_next := (slot_next s)(a := a)\<rparr>"] Suc.prems by simp
  then show ?case using assms(1,2) Suc.prems by (simp add: write_next_def Let_def)
qed simp

text \<open>The state after a fresh page was put at the head of the list of partially full pages: it has one
  slot, whatever the number of slots of a page.\<close>

definition with_fresh_page :: "nat \<Rightarrow> u64 \<Rightarrow> pool_state \<Rightarrow> pool_state" where
  "with_fresh_page k p s =
     (put_page p \<lparr>pg_prev = Partially_full, pg_next = 0, pg_slots = item_at k p, allocated_count = 0\<rparr> s)
       \<lparr>slot_next := (slot_next s)(item_at k p := 0), alloc := (alloc s)\<lparr>list_partially_full := p\<rparr>\<rparr>"

lemma ensure_fresh:
  assumes "params_ok e k (alloc s)" "list_partially_full (alloc s) = 0" "os (pages s) = Some p" "page_ok e p" "slots_per_page (alloc s) \<noteq> 0"
  shows "ensure_partially_full_page_available (2 ^ e) os s = Inr (with_fresh_page k p s)"
proof -
  let ?a = "item_at k p" and ?s = "put_page p zero_header s"
  have msk: "item_align (alloc s) - 1 = mask k" using assms(1) by (simp add: params_ok_def mask_eq_exp_minus_1)
  have chk: "slot_check (2 ^ e) ?s ?a = Inr ()"
    using item_check [OF assms(4,1), of ?s] by (simp add: put_page_def update_conv')
  obtain n where n: "unat (slots_per_page (alloc s)) = Suc n" using assms(5) not0_implies_Suc by (metis unat_eq_zero)
  have e: "e < 64" "round_up (2 ^ k) 32 < 2 ^ e" using assms(1) by (auto simp: params_ok_def)
  have lt: "?a < p + 2 ^ e"
    using item_at_place(1) [OF assms(4,1)] assms(4) e
    by (simp add: word_less_nat_alt page_ok_def unat_word_ariths unat_pow2)
  have "link_slots (2 ^ e) (mask k) (p + 2 ^ e) (Suc n) (p + 32) Local_slots (0, ?s)
    = link_slots (2 ^ e) (mask k) (p + 2 ^ e) n ?a (Slot_word ?a) (?a, ?s)"
    unfolding link_slots.simps Let_def item_at_def [symmetric] using lt by (auto dest: leD)
  also have "\<dots> = Inr (Slot_word ?a, ?a, if n = 0 then ?s else ?s\<lparr>slot_next := (slot_next ?s)(?a := ?a)\<rparr>)"
    by (rule link_rest [OF item_at_aligned [OF assms(4,1)] lt chk])
  finally have L: "link_slots (2 ^ e) (mask k) (p + 2 ^ e) (Suc n) (p + 32) Local_slots (0, ?s) = \<dots>" .
  show ?thesis
    using chk assms(2,3)
    by (simp add: ensure_partially_full_page_available_def msk n L write_next_def del: link_slots.simps)
       (auto simp: with_fresh_page_def put_page_def)
qed

subsection \<open>Items\<close>

lemma read_fresh:
  assumes "page_ok e p" "params_ok e k al"
  shows "read_next (2 ^ e) (with_fresh_page k p s) (item_at k p) = Inr 0"
proof -
  have "slot_check (2 ^ e) (with_fresh_page k p s) (item_at k p) = Inr ()"
    by (rule item_check [OF assms]) (simp add: with_fresh_page_def put_page_def update_conv')
  then show ?thesis by (simp add: read_next_def with_fresh_page_def)
qed

text \<open>Taking the only slot of a fresh page.\<close>

lemma get_fresh:
  assumes "params_ok e k (alloc s)" "list_partially_full (alloc s) = 0" "os (pages s) = Some p" "page_ok e p" "slots_per_page (alloc s) \<noteq> 0"
  shows "pool_alloc_get (2 ^ e) os s =
    Inr (item_at k p,
      if slots_per_page (alloc s) = 1
      then s\<lparr>pages := AList.update p \<lparr>pg_prev = Full, pg_next = list_full (alloc s), pg_slots = 0, allocated_count = 1\<rparr> (pages s),
             slot_next := (slot_next s)(item_at k p := 0), alloc := (alloc s)\<lparr>list_full := p\<rparr>\<rparr>
      else put_page p \<lparr>pg_prev = Partially_full, pg_next = 0, pg_slots = 0, allocated_count = 1\<rparr> (with_fresh_page k p s))"
proof -
  let ?h = "\<lparr>pg_prev = Partially_full, pg_next = 0, pg_slots = item_at k p, allocated_count = 0\<rparr>"
  have lst: "list_partially_full (alloc (with_fresh_page k p s)) = p" "slots_per_page (alloc (with_fresh_page k p s)) = slots_per_page (alloc s)"
    by (simp_all add: with_fresh_page_def)
  have pg: "page_at (with_fresh_page k p s) p = Inr ?h"
    using assms(4) by (simp add: page_at_def with_fresh_page_def put_page_def update_conv' page_ok_def)
  show ?thesis
    using read_fresh [OF assms(4,1), of s] assms(2)
    by (simp add: pool_alloc_get_def ensure_fresh [of e k s os p, OF assms] lst Let_def pg)
       (cases s, auto simp: with_fresh_page_def put_page_def)
qed

lemma get_no_slot:
  assumes "list_partially_full (alloc s) = p" "p \<noteq> 0" "map_of (pages s) p = Some h" "pg_slots h = 0"
  shows "pool_alloc_get ps os s = Inl Null_pointer"
  using assms by (simp add: pool_alloc_get_def ensure_partially_full_page_available_def page_at_def read_next_def slot_check_def Let_def)

lemma create_params:
  assumes "pool_alloc_create (2 ^ e) isize (2 ^ k) = Some (Inr al)" "12 \<le> e" "e < 31" "k \<le> 63"
  shows "params_ok e k al" "slots_per_page al \<noteq> 0" "list_partially_full al = 0" "list_full al = 0" "item_size al = isize"
proof -
  have ps: "unat ((2 :: u64) ^ e) = 2 ^ e" using assms(3) by (intro unat_pow2) simp
  have "(2 :: nat) ^ 12 \<le> 2 ^ e" "(2 :: nat) ^ e \<le> 2 ^ 30"
    using assms(2,3) by (intro power_increasing; simp)+
  then have e: "(32 :: u64) \<le> 2 ^ e" "unat ((2 :: u64) ^ e) < 2 ^ 31" using ps by (auto simp: word_le_nat_alt)
  have sz: "8 \<le> isize" "isize \<le> 2 ^ e - 32" using assms(1) by (auto simp: pool_alloc_create_def split: if_splits)
  obtain m where m: "pool_alloc_create (2 ^ e) isize (2 ^ k)
      = Some (if m = 0 then Inl Assert_failed
          else Inr \<lparr>list_partially_full = 0, list_full = 0, item_size = isize, item_align = 2 ^ k, slots_per_page = of_nat m\<rparr>)"
    "\<And>j. slot_place (2 ^ k) (unat isize) j + unat isize < 2 ^ e \<longleftrightarrow> j < m"
    using create_slots [OF e(2) sz assms(4) e(1)] unfolding ps by blast
  have m0: "0 < m" using m(1) assms(1) by (auto split: if_splits)
  then have al: "al = \<lparr>list_partially_full = 0, list_full = 0, item_size = isize, item_align = 2 ^ k, slots_per_page = of_nat m\<rparr>"
    using m(1) assms(1) by simp
  have fits: "round_up (2 ^ k) 32 + unat isize < 2 ^ e" using m(2) [of 0] m0 by (simp add: slot_place_def)
  have "2 ^ k \<le> round_up (2 ^ k) 32"
    using round_up_dvd [of "2 ^ k" 32] round_up_ge [of "2 ^ k" 32] by (intro dvd_imp_le) auto
  with fits have "(2 :: nat) ^ k < 2 ^ e" by linarith
  then have "k < e" by simp
  moreover have "8 \<le> unat isize" using sz(1) by (simp add: word_le_nat_alt)
  ultimately show "params_ok e k al" using fits assms(3) by (simp add: params_ok_def al)
  show "slots_per_page al \<noteq> 0" using assms(1) by (auto simp: pool_alloc_create_def rbind_eq_Inr split: option.splits if_splits)
  show "list_partially_full al = 0" "list_full al = 0" "item_size al = isize" by (simp_all add: al)
qed

text \<open>A fresh page has one slot only, because the loop that links the slots does not move its
  cursor past a slot: with more than one slot per page the second item dereferences NULL.\<close>

theorem pool_second_get_faults:
  assumes "pool_alloc_create (2 ^ e) isize (2 ^ k) = Some (Inr al)" "12 \<le> e" "e < 31" "k \<le> 63"
    and "slots_per_page al \<noteq> 1" "os [] = Some p" "page_ok e p"
  shows "\<exists>a s. pool_alloc_get (2 ^ e) os \<lparr>alloc = al, pages = [], slot_next = f\<rparr> = Inr (a, s)
    \<and> pool_alloc_get (2 ^ e) os s = Inl Null_pointer"
proof -
  note al = create_params [OF assms(1-4)]
  let ?s = "\<lparr>alloc = al, pages = [], slot_next = f\<rparr>"
  have "p \<noteq> 0" using assms(7) by (simp add: page_ok_def)
  then show ?thesis
    using get_fresh [of e k ?s os p] al assms(5-7) by (simp add: get_no_slot with_fresh_page_def put_page_def)
qed

theorem pool_second_get_faults_witness:
  "\<exists>al a s. pool_alloc_create (2 ^ 12) 2000 (2 ^ 3) = Some (Inr al) \<and>
    pool_alloc_get (2 ^ 12) (\<lambda>_. Some 8192) \<lparr>alloc = al, pages = [], slot_next = (\<lambda>_. 0)\<rparr> = Inr (a, s)
    \<and> pool_alloc_get (2 ^ 12) (\<lambda>_. Some 8192) s = Inl Null_pointer"
proof -
  let ?al = "\<lparr>list_partially_full = 0, list_full = 0, item_size = 2000, item_align = 2 ^ 3, slots_per_page = 2\<rparr>"
  have c: "pool_alloc_create (2 ^ 12) 2000 (2 ^ 3) = Some (Inr ?al)"
    by (simp add: pool_alloc_create_def count_slots.simps)
  have "page_ok 12 8192" by (simp add: page_ok_def mask_eq_exp_minus_1)
  then show ?thesis
    using pool_second_get_faults [OF c, of "\<lambda>_. Some 8192" 8192 "\<lambda>_. 0"] c by auto
qed

subsection \<open>Pages with one slot\<close>

text \<open>
  The states a pool with one slot per page reaches when its client takes items, returns items it
  holds and writes into items it holds. The second component is the set of items held.
\<close>

definition os_ok :: "nat \<Rightarrow> os_pages \<Rightarrow> bool" where
  "os_ok e os \<longleftrightarrow> (\<forall>al p. os al = Some p \<longrightarrow> page_ok e p \<and> map_of al p = None)"

inductive pool_start :: "nat \<Rightarrow> nat \<Rightarrow> u64 \<Rightarrow> pool_state \<times> u64 set \<Rightarrow> bool" for e k isize where
  "pool_alloc_create (2 ^ e) isize (2 ^ k) = Some (Inr al) \<Longrightarrow> slots_per_page al = 1
     \<Longrightarrow> pool_start e k isize (\<lparr>alloc = al, pages = [], slot_next = f\<rparr>, {})"

inductive pool_step :: "nat \<Rightarrow> os_pages \<Rightarrow> pool_state \<times> u64 set \<Rightarrow> pool_state \<times> u64 set \<Rightarrow> bool" for e os where
  get_item: "pool_alloc_get (2 ^ e) os s = Inr (a, s') \<Longrightarrow> pool_step e os (s, L) (s', insert a L)"
| put_item: "a \<in> L \<Longrightarrow> pool_alloc_put (2 ^ e) a s = Inr s' \<Longrightarrow> pool_step e os (s, L) (s', L - {a})"
| write_item: "a \<in> L \<Longrightarrow> pool_step e os (s, L) (s\<lparr>slot_next := g\<rparr>, L)"

definition full_page :: "nat \<Rightarrow> u64 \<times> page_header \<Rightarrow> bool" where
  "full_page e ph \<longleftrightarrow> page_ok e (fst ph) \<and> pg_prev (snd ph) = Full \<and> allocated_count (snd ph) = 1"

definition single_inv :: "nat \<Rightarrow> nat \<Rightarrow> u64 \<Rightarrow> pool_state \<times> u64 set \<Rightarrow> bool" where
  "single_inv e k isize sL \<longleftrightarrow> (case sL of (s, L) \<Rightarrow>
     params_ok e k (alloc s) \<and> slots_per_page (alloc s) = 1 \<and> list_partially_full (alloc s) = 0 \<and> item_size (alloc s) = isize
     \<and> (\<forall>p h. map_of (pages s) p = Some h \<longrightarrow> full_page e (p, h)) \<and> L = item_at k ` dom (map_of (pages s)))"

lemma single_get:
  assumes "single_inv e k isize (s, L)" "os_ok e os" "os (pages s) = Some p"
  shows "\<exists>s'. pool_alloc_get (2 ^ e) os s = Inr (item_at k p, s') \<and> single_inv e k isize (s', insert (item_at k p) L)"
proof -
  have p: "page_ok e p" "map_of (pages s) p = None" using assms(2,3) by (auto simp: os_ok_def)
  have inv: "params_ok e k (alloc s)" "list_partially_full (alloc s) = 0" "slots_per_page (alloc s) = 1"
    using assms(1) by (auto simp: single_inv_def)
  show ?thesis
    using get_fresh [of e k s os p] inv assms(1,3) p
    by (auto simp: single_inv_def update_conv' full_page_def params_ok_def)
qed

lemma single_put:
  assumes "single_inv e k isize (s, L)" "a \<in> L"
  shows "\<exists>s'. pool_alloc_put (2 ^ e) a s = Inr s' \<and> single_inv e k isize (s', L - {a})"
proof -
  have pr: "params_ok e k (alloc s)" using assms(1) by (simp add: single_inv_def)
  have pages: "full_page e (q, h)" if "map_of (pages s) q = Some h" for q h
    using that assms(1) by (simp add: single_inv_def)
  from assms obtain p h where ph: "map_of (pages s) p = Some h" "a = item_at k p" by (auto simp: single_inv_def)
  have p: "page_ok e p" "pg_prev h = Full" "allocated_count h = 1" using pages [OF ph(1)] by (auto simp: full_page_def)
  note at = item_at_place [OF p(1) pr]
  have "slot_check (2 ^ e) s a = Inr ()" using item_check [OF p(1) pr, of s] ph by simp
  then have put: "pool_alloc_put (2 ^ e) a s = Inr (os_free_page p ((put_page p (h\<lparr>pg_slots := a, allocated_count := 0\<rparr>) (s\<lparr>slot_next := (slot_next s)(a := pg_slots h)\<rparr>))
      \<lparr>alloc := (alloc s)\<lparr>list_full := pg_next h\<rparr>\<rparr>))"
    using p ph at(2) by (simp add: pool_alloc_put_def page_at_def write_next_def Let_def page_ok_def put_page_def)
  have "L - {a} = item_at k ` (dom (map_of (pages s)) - {p})"
  proof -
    have inj: "q = p" if "map_of (pages s) q = Some g" "item_at k q = item_at k p" for q g
    proof -
      have "page_ok e q" using pages [OF that(1)] by (simp add: full_page_def)
      then show ?thesis using item_at_place(2) [OF _ pr, of q] that(2) at(2) by simp
    qed
    then show ?thesis using assms(1) ph by (auto simp: single_inv_def)
  qed
  then show ?thesis
    using put assms(1)
    by (auto simp: single_inv_def os_free_page_def put_page_def delete_conv' update_conv' params_ok_def)
qed

lemma single_start: "pool_start e k isize sL \<Longrightarrow> 12 \<le> e \<Longrightarrow> e < 31 \<Longrightarrow> k \<le> 63 \<Longrightarrow> single_inv e k isize sL"
  by (induction rule: pool_start.induct) (auto simp: single_inv_def create_params)

lemma single_step:
  assumes "pool_step e os sL sL'" "os_ok e os" "single_inv e k isize sL"
  shows "single_inv e k isize sL'"
  using assms(1,3)
proof (induction rule: pool_step.induct)
  case (get_item s a s' L)
  have "os (pages s) \<noteq> None"
  proof
    assume "os (pages s) = None"
    with get_item show False
      by (auto simp: pool_alloc_get_def ensure_partially_full_page_available_def single_inv_def)
  qed
  then obtain p where "os (pages s) = Some p" by auto
  with single_get [OF get_item(2) assms(2)] get_item(1) show ?case by fastforce
next
  case (put_item a L s s')
  then show ?case using single_put [of e k isize s L a] by auto
qed (auto simp: single_inv_def)

interpretation single: invariant_system "pool_start e k isize" "pool_step e os"
  "\<lambda>sL. 12 \<le> e \<and> e < 31 \<and> k \<le> 63 \<and> os_ok e os \<longrightarrow> single_inv e k isize sL" for e k isize os
  by unfold_locales (auto intro: single_start single_step)

lemma items_apart:
  assumes "single_inv e k isize (s, L)" "a \<in> L" "b \<in> L" "a \<noteq> b"
  shows "unat a + unat isize \<le> unat b \<or> unat b + unat isize \<le> unat a"
proof -
  from assms obtain p h q g where pq: "map_of (pages s) p = Some h" "a = item_at k p" "map_of (pages s) q = Some g" "b = item_at k q"
    by (auto simp: single_inv_def)
  have ok: "page_ok e p" "page_ok e q" using pq(1,3) assms(1) by (auto simp: single_inv_def full_page_def)
  have pr: "params_ok e k (alloc s)" "item_size (alloc s) = isize" using assms(1) by (auto simp: single_inv_def)
  have "unat p \<noteq> unat q" using pq assms(4) by (metis unsigned_word_eqI)
  then consider "unat p < unat q" | "unat q < unat p" by linarith
  then have "unat p + 2 ^ e \<le> unat q \<or> unat q + 2 ^ e \<le> unat p"
    using ok unat_pow2_dvd [of p e e] unat_pow2_dvd [of q e e] by cases (auto simp: page_ok_def intro!: dvd_next)
  then show ?thesis
    using item_at_place(1) [OF ok(1) pr(1)] item_at_place(1) [OF ok(2) pr(1)] pr pq by (auto simp: params_ok_def)
qed

text \<open>C35: With one slot per page the pool works. Whatever items the client takes, returns and writes into, an item
  is handed out whenever the operating system has a page; it is aligned and lies in a page of its own; the
  items held do not overlap; and every item held can be returned.\<close>

theorem pool_single_slot:
  assumes "reachable (pool_start e k isize) (pool_step e os) (s, L)" "12 \<le> e" "e < 31" "k \<le> 63" "os_ok e os"
  shows "(case os (pages s) of
      None \<Rightarrow> pool_alloc_get (2 ^ e) os s = Inl Aborted
    | Some p \<Rightarrow> (\<exists>a s'. pool_alloc_get (2 ^ e) os s = Inr (a, s') \<and> a \<notin> L \<and> 2 ^ k dvd unat a
        \<and> unat p + 32 \<le> unat a \<and> unat a + unat isize < unat p + 2 ^ e))
    \<and> (\<forall>a \<in> L. \<exists>s'. pool_alloc_put (2 ^ e) a s = Inr s')
    \<and> (\<forall>a \<in> L. \<forall>b \<in> L. a \<noteq> b \<longrightarrow> unat a + unat isize \<le> unat b \<or> unat b + unat isize \<le> unat a)"
proof -
  have I: "single_inv e k isize (s, L)" using single.reachable_inv [OF assms(1)] assms(2-5) by simp
  have "pool_alloc_get (2 ^ e) os s = Inl Aborted" if "os (pages s) = None"
    using that I by (simp add: pool_alloc_get_def ensure_partially_full_page_available_def single_inv_def)
  moreover have "\<exists>a s'. pool_alloc_get (2 ^ e) os s = Inr (a, s') \<and> a \<notin> L \<and> 2 ^ k dvd unat a
      \<and> unat p + 32 \<le> unat a \<and> unat a + unat isize < unat p + 2 ^ e" if p: "os (pages s) = Some p" for p
  proof -
    have pk: "page_ok e p" "map_of (pages s) p = None" using assms(5) p by (auto simp: os_ok_def)
    have pr: "params_ok e k (alloc s)" "item_size (alloc s) = isize" using I by (auto simp: single_inv_def)
    note at = item_at_place [OF pk(1) pr(1)]
    have "item_at k p \<notin> L"
    proof
      assume "item_at k p \<in> L"
      then obtain q h where q: "map_of (pages s) q = Some h" "item_at k p = item_at k q" using I by (auto simp: single_inv_def)
      then have "page_ok e q" using I by (auto simp: single_inv_def full_page_def)
      then show False using item_at_place(2) [OF _ pr(1), of q] at(2) q pk by simp
    qed
    moreover have "2 ^ k dvd unat p" using pk pr(1) by (intro unat_pow2_dvd [of p e]) (auto simp: page_ok_def params_ok_def)
    moreover have "32 \<le> round_up (2 ^ k) 32" by (rule round_up_ge) simp
    ultimately show ?thesis
      using single_get [OF I assms(5) p] at(1) pr by (auto simp: round_up_dvd params_ok_def)
  qed
  moreover have "\<forall>a \<in> L. \<exists>s'. pool_alloc_put (2 ^ e) a s = Inr s'" using single_put [OF I] by blast
  moreover have "\<forall>a \<in> L. \<forall>b \<in> L. a \<noteq> b \<longrightarrow> unat a + unat isize \<le> unat b \<or> unat b + unat isize \<le> unat a"
    using items_apart [OF I] by blast
  ultimately show ?thesis by (auto split: option.split)
qed

text \<open>An operating system with two pages, at 4096 and 8192.\<close>

definition two_pages :: os_pages where
  "two_pages al = (if map_of al 4096 = None then Some 4096 else if map_of al 8192 = None then Some 8192 else None)"

lemma two_pages_ok: "os_ok 12 two_pages"
  by (auto simp: os_ok_def two_pages_def page_ok_def mask_eq_exp_minus_1 split: if_splits)

definition big_items :: pool_state where
  "big_items = \<lparr>alloc = \<lparr>list_partially_full = 0, list_full = 0, item_size = 3000, item_align = 2 ^ 3, slots_per_page = 1\<rparr>,
     pages = [], slot_next = (\<lambda>_. 0)\<rparr>"

lemma big_items_start: "pool_start 12 3 3000 (big_items, {})"
  unfolding big_items_def by (rule pool_start.intros) (simp_all add: pool_alloc_create_def count_slots.simps)

definition one_item :: pool_state where
  "one_item = \<lparr>alloc = \<lparr>list_partially_full = 0, list_full = 4096, item_size = 3000, item_align = 2 ^ 3, slots_per_page = 1\<rparr>,
     pages = [(4096, \<lparr>pg_prev = Full, pg_next = 0, pg_slots = 0, allocated_count = 1\<rparr>)], slot_next = (\<lambda>_. 0)\<rparr>"

lemma one_item_get: "pool_alloc_get (2 ^ 12) two_pages big_items = Inr (4128, one_item)"
  by (simp add: big_items_def one_item_def two_pages_def pool_alloc_get_def ensure_partially_full_page_available_def
      put_page_def page_at_def read_next_def write_next_def slot_check_def page_of_def Let_def zero_header_def fun_upd_def)

lemma one_item_reachable: "reachable (pool_start 12 3 3000) (pool_step 12 two_pages) (one_item, {4128})"
  using reachable.start [of "pool_start 12 3 3000", OF big_items_start] get_item [OF one_item_get]
  by (rule reachable.more)

theorem pool_single_slot_witness:
  "(\<exists>a s'. pool_alloc_get (2 ^ 12) two_pages one_item = Inr (a, s') \<and> a \<noteq> 4128 \<and> 2 ^ 3 dvd unat a
      \<and> 8192 + 32 \<le> unat a \<and> unat a + 3000 < 8192 + 2 ^ 12)
   \<and> (\<exists>s'. pool_alloc_put (2 ^ 12) 4128 one_item = Inr s')"
proof -
  have "two_pages (pages one_item) = Some 8192" by (simp add: two_pages_def one_item_def)
  then show ?thesis
    using pool_single_slot [OF one_item_reachable _ _ _ two_pages_ok] by simp
qed

text \<open>The link to the previous page is not kept up. When two items are taken and returned in the
  same order, the list of full pages is left pointing to a page that was given back, and deleting the
  pool reads it.\<close>

theorem pool_delete_dangling:
  "rbind (pool_alloc_get (2 ^ 12) two_pages big_items) (\<lambda>(a, s).
   rbind (pool_alloc_get (2 ^ 12) two_pages s) (\<lambda>(b, s).
   rbind (pool_alloc_put (2 ^ 12) a s) (\<lambda>s.
   rbind (pool_alloc_put (2 ^ 12) b s) pool_alloc_delete))) = Inl Out_of_bounds"
  by code_simp

end
