(* ===== verification/HttpBuffer.thy ===== *)
theory HttpBuffer
  imports Parse
begin

section \<open>The buffers of the HTTP server (\<^verbatim>\<open>http/server.c\<close>)\<close>

text \<open>
  \<^verbatim>\<open>struct iobuf\<close>: a region of memory (\<open>None\<close> is NULL) whose first \<open>bused\<close> bytes are in use; \<^verbatim>\<open>size\<close> is
  the length of the region. \<open>malloc\<close> maps a size to the contents of a fresh region, or to nothing.
  Accesses outside the region are faults. Sizes are taken to be below \<open>2 ^ 63\<close>, so that doubling
  them does not wrap; the difference \<^verbatim>\<open>size - used\<close> is that of \<^verbatim>\<open>size_t\<close>.
\<close>

record iobuf =
  bdata :: "string option"
  bused :: nat

type_synonym malloc = "nat \<Rightarrow> string option"

definition empty_iobuf :: iobuf where
  "empty_iobuf = \<lparr>bdata = None, bused = 0\<rparr>"

definition bsize :: "iobuf \<Rightarrow> nat" where
  "bsize b = (case bdata b of None \<Rightarrow> 0 | Some d \<Rightarrow> length d)"

definition room :: "iobuf \<Rightarrow> nat" where
  "room b = size_sub (bsize b) (bused b)"

definition ensure_free_space :: "malloc \<Rightarrow> iobuf \<Rightarrow> nat \<Rightarrow> (bool \<times> iobuf) res" where
  "ensure_free_space malloc b least =
     (case bdata b of
        None \<Rightarrow>
          (case malloc 512 of
             None \<Rightarrow> Inr (False, b)
           | Some d \<Rightarrow> Inr (True, \<lparr>bdata = Some d, bused = 0\<rparr>))
      | Some d \<Rightarrow>
          if room b < least then
            let new_size = 2 * bsize b;
                new_size = (if size_sub new_size (bused b) < least then bused b + least else new_size)
            in case malloc new_size of
                 None \<Rightarrow> Inr (False, b)
               | Some new \<Rightarrow>
                   if length d < bused b then Inl Out_of_bounds
                   else rbind (memcpy new 0 (take (bused b) d)) (\<lambda>new. Inr (True, b\<lparr>bdata := Some new\<rparr>))
          else Inr (True, b))"

text \<open>Copying to \<^verbatim>\<open>data + used\<close>.\<close>

definition write_at_end :: "iobuf \<Rightarrow> string \<Rightarrow> iobuf res" where
  "write_at_end b str =
     (case bdata b of
        None \<Rightarrow> Inl Null_pointer
      | Some d \<Rightarrow> rbind (memcpy d (bused b) str) (\<lambda>d. Inr (b\<lparr>bdata := Some d\<rparr>)))"

definition append_output :: "malloc \<Rightarrow> iobuf \<Rightarrow> string \<Rightarrow> (bool \<times> iobuf) res" where
  "append_output malloc b str =
     (if str = [] then Inr (True, b)
      else rbind (ensure_free_space malloc b (length str)) (\<lambda>(ok, b).
        if \<not> ok then Inr (False, b)
        else rbind (write_at_end b str) (\<lambda>b. Inr (True, b\<lparr>bused := bused b + length str\<rparr>))))"

text \<open>\<^verbatim>\<open>vsnprintf(data + used, size - used, ..)\<close> for a format that expands to \<open>str\<close>: as much of it as fits,
  and a null character.\<close>

definition snprintf_at_end :: "iobuf \<Rightarrow> string \<Rightarrow> iobuf res" where
  "snprintf_at_end b str =
     (if room b = 0 then Inr b else write_at_end b (take (room b - 1) str @ [CHR 0x00]))"

definition append_output_format :: "malloc \<Rightarrow> iobuf \<Rightarrow> string \<Rightarrow> (bool \<times> iobuf) res" where
  "append_output_format malloc b str =
     rbind (snprintf_at_end b str) (\<lambda>b.
       if room b \<le> length str + 1 then
         rbind (ensure_free_space malloc b (length str + 1)) (\<lambda>(ok, b).
           if \<not> ok then Inr (False, b)
           else rbind (snprintf_at_end b str) (\<lambda>b. Inr (True, b\<lparr>bused := bused b + length str\<rparr>)))
       else Inr (True, b\<lparr>bused := bused b + length str\<rparr>))"

text \<open>The position of a needle in the bytes in use.\<close>

function find_loop :: "string \<Rightarrow> nat \<Rightarrow> string \<Rightarrow> nat \<Rightarrow> nat option res" where
  "find_loop d limit needle i =
     (if i < limit then
        if i + length needle \<le> length d then
          if chunk d i (length needle) = needle then Inr (Some i) else find_loop d limit needle (i + 1)
        else Inl Out_of_bounds
      else Inr None)"
  by pat_completeness auto
termination
  by (relation "measure (\<lambda>(d, limit, needle, i). limit - i)") auto

declare find_loop.simps [simp del]

definition find :: "iobuf \<Rightarrow> string \<Rightarrow> nat option res" where
  "find hay needle =
     (if length needle = 0 \<or> bused hay < length needle - 1 then Inr None
      else find_loop (case bdata hay of None \<Rightarrow> [] | Some d \<Rightarrow> d) (bused hay + 1 - length needle) needle 0)"

subsection \<open>Contents\<close>

definition iobuf_ok :: "iobuf \<Rightarrow> bool" where
  "iobuf_ok b \<longleftrightarrow> bused b \<le> bsize b"

definition content :: "iobuf \<Rightarrow> string" where
  "content b = (case bdata b of None \<Rightarrow> [] | Some d \<Rightarrow> take (bused b) d)"

text \<open>What \<^verbatim>\<open>malloc\<close> guarantees.\<close>

definition malloc_ok :: "malloc \<Rightarrow> bool" where
  "malloc_ok malloc \<longleftrightarrow> (\<forall>n d. malloc n = Some d \<longrightarrow> length d = n)"

definition malloc_total :: "malloc \<Rightarrow> bool" where
  "malloc_total malloc \<longleftrightarrow> malloc_ok malloc \<and> (\<forall>n. malloc n \<noteq> None)"

lemma malloc_total_ok: "malloc_total malloc \<Longrightarrow> malloc_ok malloc"
  by (simp add: malloc_total_def)

lemma malloc_fails: "malloc n = None \<Longrightarrow> \<not> malloc_total malloc"
  by (auto simp: malloc_total_def)

lemma iobuf_defs [simp]: "iobuf_ok empty_iobuf" "content empty_iobuf = []" "bsize empty_iobuf = 0" "bused empty_iobuf = 0"
    "bdata empty_iobuf = None"
  by (simp_all add: iobuf_ok_def content_def bsize_def empty_iobuf_def)

lemma length_content: "iobuf_ok b \<Longrightarrow> length (content b) = bused b"
  by (auto simp: iobuf_ok_def content_def bsize_def split: option.split_asm)

lemma ensure_free_space_result:
  assumes "iobuf_ok b" "malloc_ok malloc"
  shows "\<exists>ok b'. ensure_free_space malloc b n = Inr (ok, b') \<and> iobuf_ok b' \<and> content b' = content b \<and> bused b' = bused b
    \<and> (ok \<and> (bdata b \<noteq> None \<or> n \<le> 512) \<longrightarrow> n \<le> bsize b' - bused b' \<and> bdata b' \<noteq> None) \<and> (malloc_total malloc \<longrightarrow> ok)
    \<and> (bdata b \<noteq> None \<longrightarrow> bdata b' \<noteq> None)"
proof (cases "bdata b")
  case None
  then show ?thesis
    using assms
    by (cases "malloc 512")
       (auto simp: ensure_free_space_def iobuf_ok_def content_def bsize_def malloc_ok_def malloc_fails)
next
  case (Some d)
  define sz where "sz = (if size_sub (2 * bsize b) (bused b) < n then bused b + n else 2 * bsize b)"
  have sz: "bused b \<le> sz" "n \<le> sz - bused b" using assms(1) by (auto simp: sz_def iobuf_ok_def size_sub_def)
  show ?thesis
  proof (cases "room b < n")
    case True
    show ?thesis
    proof (cases "malloc sz")
      case None
      then have "\<not> malloc_total malloc" by (rule malloc_fails)
      then show ?thesis using None True Some assms(1) by (auto simp: ensure_free_space_def sz_def [symmetric] Let_def)
    next
      case (Some new)
      have new: "length new = sz" using Some assms(2) by (auto simp: malloc_ok_def)
      have le: "bused b \<le> length d" using assms(1) \<open>bdata b = Some d\<close> by (simp add: iobuf_ok_def bsize_def)
      have "ensure_free_space malloc b n = Inr (True, b\<lparr>bdata := Some (blit new 0 (take (bused b) d))\<rparr>)"
        using Some True \<open>bdata b = Some d\<close> le new sz by (simp add: ensure_free_space_def sz_def [symmetric] Let_def)
      then show ?thesis
        using new sz le \<open>bdata b = Some d\<close> by (auto simp: iobuf_ok_def bsize_def content_def blit_def)
    qed
  next
    case False
    then show ?thesis using Some assms(1) by (auto simp: ensure_free_space_def room_def iobuf_ok_def size_sub_def)
  qed
qed

lemma write_at_end_ok:
  assumes "bdata b = Some d" "bused b + length str \<le> length d"
  shows "write_at_end b str = Inr (b\<lparr>bdata := Some (blit d (bused b) str)\<rparr>)"
  using assms by (simp add: write_at_end_def)

lemma content_write:
  assumes "bdata b = Some d" "bused b \<le> length d" "bused b + length str \<le> length d"
  shows "content (b\<lparr>bdata := Some (blit d (bused b) str)\<rparr>) = content b"
    "content (b\<lparr>bdata := Some (blit d (bused b) str), bused := bused b + length str\<rparr>) = content b @ str"
  using assms by (simp_all add: content_def take_blit take_blit_end)

lemma append_output_result:
  assumes "iobuf_ok b" "malloc_ok malloc" "bdata b \<noteq> None \<or> length str \<le> 512"
  shows "\<exists>ok b'. append_output malloc b str = Inr (ok, b') \<and> iobuf_ok b' \<and> content b' = content b @ (if ok then str else [])
    \<and> (bdata b \<noteq> None \<or> ok \<and> str \<noteq> [] \<longrightarrow> bdata b' \<noteq> None) \<and> (malloc_total malloc \<longrightarrow> ok)"
proof (cases "str = []")
  case True
  then show ?thesis using assms(1) by (auto simp: append_output_def)
next
  case False
  obtain ok b' where e: "ensure_free_space malloc b (length str) = Inr (ok, b')" "iobuf_ok b'" "content b' = content b"
    "ok \<Longrightarrow> length str \<le> bsize b' - bused b' \<and> bdata b' \<noteq> None" "malloc_total malloc \<longrightarrow> ok"
    using ensure_free_space_result [OF assms(1,2), of "length str"] assms(3) by blast
  show ?thesis
  proof (cases ok)
    case True
    then obtain d where d: "bdata b' = Some d" "bused b' + length str \<le> length d"
      using e(2,4) by (auto simp: bsize_def iobuf_ok_def)
    let ?b = "b'\<lparr>bdata := Some (blit d (bused b') str), bused := bused b' + length str\<rparr>"
    have "append_output malloc b str = Inr (True, ?b)"
      using False e(1) True write_at_end_ok [OF d] by (simp add: append_output_def)
    moreover have "iobuf_ok ?b" using d by (simp add: iobuf_ok_def bsize_def)
    moreover have "content ?b = content b @ str" using content_write(2) [of b' d str] d e(3) by simp
    ultimately show ?thesis by auto
  next
    case no: False
    moreover have "bdata b' \<noteq> None" if "bdata b \<noteq> None"
      using that e(1) no
      by (auto simp: ensure_free_space_def Let_def rbind_eq_Inr split: option.splits if_splits)
    ultimately show ?thesis using e False by (auto simp: append_output_def)
  qed
qed

lemma snprintf_result:
  assumes "iobuf_ok b"
  shows "\<exists>b'. snprintf_at_end b str = Inr b' \<and> iobuf_ok b' \<and> content b' = content b \<and> bused b' = bused b \<and> bsize b' = bsize b
    \<and> (bdata b' = None) = (bdata b = None)
    \<and> (length str < room b \<longrightarrow> iobuf_ok (b'\<lparr>bused := bused b + length str\<rparr>) \<and> content (b'\<lparr>bused := bused b + length str\<rparr>) = content b @ str)"
proof (cases "room b = 0")
  case True
  then show ?thesis using assms by (simp add: snprintf_at_end_def)
next
  case False
  have r: "room b = bsize b - bused b" using assms by (simp add: room_def size_sub_def iobuf_ok_def)
  with False obtain d where d: "bdata b = Some d" by (cases "bdata b") (auto simp: bsize_def)
  define w where "w = take (room b - 1) str @ [CHR 0x00]"
  have w: "bused b + length w \<le> length d" using r d False by (auto simp: w_def bsize_def)
  let ?b = "b\<lparr>bdata := Some (blit d (bused b) w)\<rparr>"
  have "snprintf_at_end b str = Inr ?b"
    using False write_at_end_ok [OF d w] by (simp add: snprintf_at_end_def w_def)
  moreover have "content ?b = content b" using content_write(1) [of b d w] d w by simp
  moreover have "content (?b\<lparr>bused := bused b + length str\<rparr>) = content b @ str" "bused b + length str \<le> length d" if "length str < room b"
  proof -
    have "w = str @ [CHR 0x00]" using that by (simp add: w_def)
    then show "content (?b\<lparr>bused := bused b + length str\<rparr>) = content b @ str" "bused b + length str \<le> length d"
      using w d by (simp_all add: content_def blit_def)
  qed
  ultimately show ?thesis
    using assms d w by (intro exI [of _ ?b]) (simp add: iobuf_ok_def bsize_def)
qed

lemma append_output_format_result:
  assumes "iobuf_ok b" "malloc_ok malloc" "bdata b \<noteq> None \<or> length str < 512"
  shows "\<exists>ok b'. append_output_format malloc b str = Inr (ok, b') \<and> iobuf_ok b' \<and> content b' = content b @ (if ok then str else [])
    \<and> (ok \<or> bdata b \<noteq> None \<longrightarrow> bdata b' \<noteq> None) \<and> (malloc_total malloc \<longrightarrow> ok)"
proof -
  obtain b1 where b1: "snprintf_at_end b str = Inr b1" "iobuf_ok b1" "content b1 = content b" "bused b1 = bused b" "bsize b1 = bsize b"
    "(bdata b1 = None) = (bdata b = None)"
    "length str < room b \<Longrightarrow> iobuf_ok (b1\<lparr>bused := bused b + length str\<rparr>) \<and> content (b1\<lparr>bused := bused b + length str\<rparr>) = content b @ str"
    using snprintf_result [OF assms(1), of str] by (elim exE conjE) (rule that; simp)
  have room1: "room b1 = room b" by (simp add: room_def b1)
  show ?thesis
  proof (cases "room b1 \<le> length str + 1")
    case False
    have "bdata b1 \<noteq> None"
    proof
      assume "bdata b1 = None"
      then have "room b1 = 0" using b1(2) by (simp add: room_def size_sub_def iobuf_ok_def bsize_def)
      with False show False by simp
    qed
    moreover have "append_output_format malloc b str = Inr (True, b1\<lparr>bused := bused b + length str\<rparr>)"
      using False b1(1,4) by (simp add: append_output_format_def)
    moreover have "length str < room b" using False room1 by simp
    ultimately show ?thesis using b1(7) by auto
  next
    case True
    obtain ok b2 where b2: "ensure_free_space malloc b1 (length str + 1) = Inr (ok, b2)" "iobuf_ok b2" "content b2 = content b1"
      "bused b2 = bused b1"
      "ok \<Longrightarrow> length str + 1 \<le> bsize b2 - bused b2 \<and> bdata b2 \<noteq> None" "malloc_total malloc \<longrightarrow> ok"
      "bdata b1 \<noteq> None \<longrightarrow> bdata b2 \<noteq> None"
      using ensure_free_space_result [OF b1(2) assms(2), of "length str + 1"] assms(3) b1(6) by force
    obtain b3 where b3: "snprintf_at_end b2 str = Inr b3" "(bdata b3 = None) = (bdata b2 = None)" "bused b3 = bused b2"
      "length str < room b2 \<Longrightarrow> iobuf_ok (b3\<lparr>bused := bused b2 + length str\<rparr>) \<and> content (b3\<lparr>bused := bused b2 + length str\<rparr>) = content b2 @ str"
      using snprintf_result [OF b2(2), of str] by (elim exE conjE) (rule that; simp)
    show ?thesis
    proof (cases ok)
      case ok: True
      have "length str < room b2" using b2(2,5) ok by (auto simp: room_def size_sub_def iobuf_ok_def)
      moreover have "append_output_format malloc b str = Inr (True, b3\<lparr>bused := bused b2 + length str\<rparr>)"
        using True b1(1) b2(1) b3(1,3) ok by (simp add: append_output_format_def)
      ultimately show ?thesis using b3(2,4) b2(3,5) b1(3) ok by auto
    next
      case False
      then show ?thesis using True b1(1,3,6) b2 by (auto simp: append_output_format_def)
    qed
  qed
qed

text \<open>A first write of more than 512 bytes overruns the region that is allocated for it.\<close>

lemma append_output_overrun:
  assumes "bdata b = None" "malloc 512 = Some d" "length d = 512" "512 < length str"
  shows "append_output malloc b str = Inl Out_of_bounds"
  using assms by (auto simp: append_output_def ensure_free_space_def write_at_end_def memcpy_def)

subsection \<open>Searching\<close>

lemma find_loop_result:
  assumes "i \<le> limit" "limit + length needle \<le> length d + 1" "0 < length needle"
  shows "\<exists>r. find_loop d limit needle i = Inr r
    \<and> (case r of
         None \<Rightarrow> \<forall>j. i \<le> j \<and> j < limit \<longrightarrow> chunk d j (length needle) \<noteq> needle
       | Some k \<Rightarrow> i \<le> k \<and> k < limit \<and> chunk d k (length needle) = needle \<and> (\<forall>j. i \<le> j \<and> j < k \<longrightarrow> chunk d j (length needle) \<noteq> needle))"
  using assms
proof (induction d limit needle i rule: find_loop.induct)
  case (1 d limit needle i)
  consider "i = limit" | "i < limit" "chunk d i (length needle) = needle" | "i < limit" "chunk d i (length needle) \<noteq> needle"
    using "1.prems"(1) by linarith
  then show ?case
  proof cases
    case 1
    then show ?thesis by (auto simp: find_loop.simps [of d limit])
  next
    case 2
    then show ?thesis using "1.prems" by (auto simp: find_loop.simps [of d limit])
  next
    case 3
    have le: "i + length needle \<le> length d" using 3 "1.prems" by linarith
    obtain r where r: "find_loop d limit needle (i + 1) = Inr r"
      "case r of
         None \<Rightarrow> \<forall>j. i + 1 \<le> j \<and> j < limit \<longrightarrow> chunk d j (length needle) \<noteq> needle
       | Some k \<Rightarrow> i + 1 \<le> k \<and> k < limit \<and> chunk d k (length needle) = needle \<and> (\<forall>j. i + 1 \<le> j \<and> j < k \<longrightarrow> chunk d j (length needle) \<noteq> needle)"
      using "1.IH" [OF 3(1) le 3(2)] 3(1) "1.prems" by (auto simp: Suc_le_eq)
    moreover have "find_loop d limit needle i = Inr r"
      using r(1) 3 le by (simp add: find_loop.simps [of d limit needle i])
    moreover have "i \<le> j \<longleftrightarrow> j = i \<or> i + 1 \<le> j" for j by linarith
    ultimately show ?thesis using 3 by (intro exI [of _ r]) (cases r, auto)
  qed
qed

lemma chunk_take: "j + n \<le> u \<Longrightarrow> chunk (take u d) j n = chunk d j n"
  by (simp add: chunk_def drop_take min_def)

text \<open>The first place of a needle in the contents.\<close>

definition occurs_at :: "string \<Rightarrow> string \<Rightarrow> nat \<Rightarrow> bool" where
  "occurs_at txt needle i \<longleftrightarrow> i + length needle \<le> length txt \<and> chunk txt i (length needle) = needle"

lemma find_result:
  assumes "iobuf_ok b" "needle \<noteq> []"
  shows "\<exists>r. find b needle = Inr r \<and> (case r of
      None \<Rightarrow> \<forall>j. \<not> occurs_at (content b) needle j
    | Some i \<Rightarrow> occurs_at (content b) needle i \<and> (\<forall>j<i. \<not> occurs_at (content b) needle j))"
proof (cases "bused b < length needle - 1")
  case True
  then show ?thesis
    using assms length_content [OF assms(1)] by (auto simp: find_def occurs_at_def)
next
  case False
  define d where "d = (case bdata b of None \<Rightarrow> [] | Some d \<Rightarrow> d)"
  define limit where "limit = bused b + 1 - length needle"
  have len: "bused b \<le> length d" "content b = take (bused b) d"
    using assms(1) by (auto simp: d_def iobuf_ok_def bsize_def content_def split: option.splits)
  have n: "0 < length needle" using assms(2) by simp
  have occ: "occurs_at (content b) needle j \<longleftrightarrow> j < limit \<and> chunk d j (length needle) = needle" for j
    using len n False chunk_take [of j "length needle" "bused b" d] by (auto simp: occurs_at_def limit_def)
  have "find b needle = find_loop d limit needle 0"
    using False assms(2) by (simp add: find_def d_def limit_def)
  moreover have "limit + length needle \<le> length d + 1" using len(1) n False by (simp add: limit_def)
  ultimately show ?thesis
    using find_loop_result [of 0 limit needle d] n by (auto simp: occ split: option.splits)
qed

end
