(* ===== verification/HttpSlots.thy ===== *)
theory HttpSlots
  imports HttpServer
begin

section \<open>The HTTP server: bookkeeping of clients\<close>

text \<open>
  The array \<^verbatim>\<open>pis\<close> lists the clients in use in the order of their entries in \<^verbatim>\<open>ps\<close>, every client knows its entry
  (\<^verbatim>\<open>pitem\<close>), and \<^verbatim>\<open>free\<close> is a stack of the other clients. The invariant says that the two lists share the
  clients out, and what holds of the clients and of the queue. Every operation of the server keeps it,
  and accepting, closing and a whole round of input and output never fault.
\<close>

subsection \<open>The invariant\<close>

definition live :: "server \<Rightarrow> nat list" where
  "live s = take (ncs s) (pis s)"

definition avail :: "server \<Rightarrow> nat list" where
  "avail s = take (MAX_CLIENTS s - ncs s) (free s)"

definition queued :: "server \<Rightarrow> nat list" where
  "queued s = map (\<lambda>j. qdata s ! ((qhead s + j) mod MAX_CLIENTS s)) [0..<qused s]"

definition arrays_ok :: "server \<Rightarrow> bool" where
  "arrays_ok s \<longleftrightarrow> 0 < MAX_CLIENTS s \<and> length (ps s) = MAX_CLIENTS s + 1 \<and> length (pis s) = MAX_CLIENTS s \<and> length (free s) = MAX_CLIENTS s
     \<and> length (qdata s) = MAX_CLIENTS s \<and> ncs s \<le> MAX_CLIENTS s \<and> qhead s < MAX_CLIENTS s \<and> qused s \<le> MAX_CLIENTS s"

definition slots_ok :: "server \<Rightarrow> bool" where
  "slots_ok s \<longleftrightarrow> distinct (live s @ avail s) \<and> set (live s @ avail s) = {..<MAX_CLIENTS s}"

definition places_ok :: "server \<Rightarrow> bool" where
  "places_ok s \<longleftrightarrow> (\<forall>i < ncs s. pitem (cs s ! (pis s ! i)) = Some (Suc i))"

definition client_ok :: "client \<Rightarrow> bool" where
  "client_ok c \<longleftrightarrow> iobuf_ok (inbuf c) \<and> iobuf_ok (outbuf c)
     \<and> (state c = C_CONTENT \<longrightarrow> content_length_offset c + 13 \<le> bused (outbuf c))
     \<and> (state c \<in> {C_STATUS, C_HEADER, C_CONTENT} \<longrightarrow> c_minor c \<in> {0, 1} \<and> request_length c \<le> bused (inbuf c))"

definition states_ok :: "server \<Rightarrow> bool" where
  "states_ok s \<longleftrightarrow> (\<forall>ci < MAX_CLIENTS s. if ci \<in> set (live s) then state (cs s ! ci) \<noteq> C_FREE \<and> client_ok (cs s ! ci)
     else state (cs s ! ci) = C_FREE)"

definition queue_ok :: "server \<Rightarrow> bool" where
  "queue_ok s \<longleftrightarrow> (\<forall>ci \<in> set (queued s). ci < MAX_CLIENTS s \<and> (state (cs s ! ci) = C_FREE \<longrightarrow> inbuf (cs s ! ci) = empty_iobuf))"

definition server_inv :: "server \<Rightarrow> bool" where
  "server_inv s \<longleftrightarrow> arrays_ok s \<and> slots_ok s \<and> places_ok s \<and> states_ok s \<and> queue_ok s"

lemma length_queued [simp]: "length (queued s) = qused s"
  by (simp add: queued_def)

lemma server_invI [intro?]: "arrays_ok s \<Longrightarrow> slots_ok s \<Longrightarrow> places_ok s \<Longrightarrow> states_ok s \<Longrightarrow> queue_ok s \<Longrightarrow> server_inv s"
  by (simp add: server_inv_def)

lemma server_invD:
  assumes "server_inv s"
  shows "arrays_ok s" "slots_ok s" "places_ok s" "states_ok s" "queue_ok s"
  using assms by (simp_all add: server_inv_def)

lemma live_place:
  assumes "server_inv s" "ci \<in> set (live s)"
  obtains i where "i < ncs s" "pis s ! i = ci" "pitem (cs s ! ci) = Some (Suc i)" "ci < MAX_CLIENTS s" "state (cs s ! ci) \<noteq> C_FREE"
    "client_ok (cs s ! ci)"
proof -
  have n: "ncs s \<le> length (pis s)" using server_invD(1) [OF assms(1)] by (simp add: arrays_ok_def)
  obtain i where i: "i < ncs s" "pis s ! i = ci"
    using assms(2) n by (auto simp: live_def in_set_conv_nth)
  have lt: "ci < MAX_CLIENTS s" using assms(2) server_invD(2) [OF assms(1)] by (auto simp: slots_ok_def)
  show thesis
    using that [OF i _ lt] i assms lt server_invD(3,4) [OF assms(1)] by (auto simp: places_ok_def states_ok_def)
qed

lemma live_nth: "server_inv s \<Longrightarrow> i < ncs s \<Longrightarrow> pis s ! i \<in> set (live s)"
  using server_invD(1) [of s] by (auto simp: live_def arrays_ok_def in_set_conv_nth)

lemma live_iff: "server_inv s \<Longrightarrow> ci < MAX_CLIENTS s \<Longrightarrow> ci \<in> set (live s) \<longleftrightarrow> state (cs s ! ci) \<noteq> C_FREE"
  using server_invD(4) [of s] unfolding states_ok_def by metis

subsection \<open>Changing one client\<close>

lemma upd_client_sel [simp]:
  "ps (upd_client ci f s) = ps s" "pis (upd_client ci f s) = pis s" "free (upd_client ci f s) = free s"
  "qhead (upd_client ci f s) = qhead s" "qused (upd_client ci f s) = qused s" "qdata (upd_client ci f s) = qdata s"
  "closed (upd_client ci f s) = closed s" "MAX_CLIENTS (upd_client ci f s) = MAX_CLIENTS s"
  by (simp_all add: upd_client_def)

lemma upd_client_nth: "cj < MAX_CLIENTS s \<Longrightarrow> cs (upd_client ci f s) ! cj = (if cj = ci then f (cs s ! ci) else cs s ! cj)"
  by (simp add: upd_client_def nth_list_update)

lemma upd_lists [simp]: "live (upd_client ci f s) = live s" "avail (upd_client ci f s) = avail s" "queued (upd_client ci f s) = queued s"
  by (simp_all add: live_def avail_def queued_def)

text \<open>An update of a client in use that keeps it in use, at its place and in order.\<close>

definition keeps :: "(client \<Rightarrow> client) \<Rightarrow> client \<Rightarrow> bool" where
  "keeps f c \<longleftrightarrow> state (f c) \<noteq> C_FREE \<and> pitem (f c) = pitem c \<and> client_ok (f c)"

lemma upd_client_inv:
  assumes "server_inv s" "ci \<in> set (live s)" "keeps f (cs s ! ci)"
  shows "server_inv (upd_client ci f s)"
proof
  note inv = server_invD [OF assms(1)]
  show "arrays_ok (upd_client ci f s)" "slots_ok (upd_client ci f s)"
    using inv(1,2) by (simp_all add: arrays_ok_def slots_ok_def)
  obtain i where i: "ci < MAX_CLIENTS s" "i < ncs s" "pis s ! i = ci" using live_place [OF assms(1,2)] by metis
  have lt: "pis s ! j < MAX_CLIENTS s" if "j < ncs s" for j
    using live_place [OF assms(1) live_nth [OF assms(1) that]] by metis
  show "places_ok (upd_client ci f s)"
    using inv(3) assms(3) by (auto simp: places_ok_def upd_client_nth lt keeps_def)
  show "states_ok (upd_client ci f s)"
    using inv(4) assms(2,3) by (auto simp: states_ok_def upd_client_nth keeps_def)
  show "queue_ok (upd_client ci f s)"
    using inv(5) assms(3) by (auto simp: queue_ok_def upd_client_nth keeps_def)
qed

lemma inv_other:
  assumes "server_inv s" "cs s' = cs s" "ncs s' = ncs s" "pis s' = pis s" "free s' = free s" "length (ps s') = length (ps s)"
    "qhead s' = qhead s" "qused s' = qused s" "qdata s' = qdata s"
  shows "server_inv s'" "live s' = live s"
proof -
  have "live s' = live s" "avail s' = avail s" "queued s' = queued s" using assms(2-9) by (simp_all add: live_def avail_def queued_def)
  with assms show "server_inv s'" "live s' = live s"
    by (simp_all add: server_inv_def arrays_ok_def slots_ok_def places_ok_def states_ok_def queue_ok_def)
qed

subsection \<open>Closing a client\<close>

text \<open>Moving the last element of a list to the place of another, which goes.\<close>

lemma swap_out:
  assumes "distinct xs" "i < length xs"
  shows "distinct (butlast (xs[i := last xs]))" "set (butlast (xs[i := last xs])) = set xs - {xs ! i}"
proof -
  obtain as x bs where xs: "xs = as @ x # bs" "length as = i" "xs ! i = x"
    using assms(2) by (metis id_take_nth_drop length_take min.absorb4)
  have "distinct (butlast (xs[i := last xs])) \<and> set (butlast (xs[i := last xs])) = set xs - {xs ! i}"
  proof (cases bs rule: rev_cases)
    case Nil
    then show ?thesis using xs assms(1) by (auto simp: list_update_append butlast_append)
  next
    case (snoc cs l)
    then have "xs[i := last xs] = (as @ l # cs) @ [l]" using xs by (simp add: list_update_append)
    then show ?thesis using xs snoc assms(1) by (auto simp: butlast_append)
  qed
  then show "distinct (butlast (xs[i := last xs]))" "set (butlast (xs[i := last xs])) = set xs - {xs ! i}" by auto
qed

definition shut_client :: "client \<Rightarrow> client" where
  "shut_client c = (invalidate_handles c)\<lparr>inbuf := empty_iobuf, outbuf := empty_iobuf, state := C_FREE, pitem := None\<rparr>"

text \<open>The state after client \<open>ci\<close> at place \<open>i\<close> was closed.\<close>

definition closed_at :: "nat \<Rightarrow> nat \<Rightarrow> server \<Rightarrow> server" where
  "closed_at ci i s =
     (let n = ncs s - 1 in
      (upd_client (pis s ! n) (\<lambda>c. c\<lparr>pitem := Some (Suc i)\<rparr>) (upd_client ci shut_client s))
        \<lparr>closed := closed s @ [fd (ps s ! Suc i)], pis := (pis s)[i := pis s ! n], ps := (ps s)[Suc i := ps s ! Suc n], ncs := n,
         free := (free s)[MAX_CLIENTS s - ncs s := ci]\<rparr>)"

lemma invalidate_sel [simp]: "state (invalidate_handles c) = state c" "pitem (invalidate_handles c) = pitem c"
    "inbuf (invalidate_handles c) = inbuf c" "outbuf (invalidate_handles c) = outbuf c"
    "content_length_offset (invalidate_handles c) = content_length_offset c" "c_minor (invalidate_handles c) = c_minor c"
  by (simp_all add: invalidate_handles_def Let_def)

lemma close_client_eq:
  assumes "server_inv s" "i < ncs s" "pis s ! i = ci"
  shows "close_client ci s = Inr (closed_at ci i s)"
proof -
  note ar = server_invD(1) [OF assms(1)]
  obtain p where p: "pitem (cs s ! ci) = Some (Suc i)" "ci < MAX_CLIENTS s"
    using server_invD(3) [OF assms(1)] assms live_place [OF assms(1) live_nth [OF assms(1,2)]] by (metis places_ok_def)
  have nth: "((pis s)[i := pis s ! (ncs s - Suc 0)]) ! i = pis s ! (ncs s - Suc 0)"
    using ar assms(2) by (simp add: arrays_ok_def)
  show ?thesis
    using p assms(2) ar nth
    by (auto simp: close_client_def closed_at_def remove_queued_client_def arrays_ok_def Let_def
        upd_client_def shut_client_def nth_list_update list_update_overwrite)
qed

lemma closed_at_lists:
  assumes "server_inv s" "i < ncs s" "pis s ! i = ci"
  shows "live (closed_at ci i s) = butlast ((live s)[i := last (live s)])" "avail (closed_at ci i s) = avail s @ [ci]"
    "queued (closed_at ci i s) = queued s"
proof -
  note ar = server_invD(1) [OF assms(1), unfolded arrays_ok_def]
  have last: "last (live s) = pis s ! (ncs s - 1)"
    using ar assms(2) by (subst last_conv_nth) (auto simp: live_def min_def)
  have len: "length (live s) = ncs s" using ar by (simp add: live_def)
  show "live (closed_at ci i s) = butlast ((live s)[i := last (live s)])"
    unfolding last using ar len
    by (simp add: live_def closed_at_def Let_def butlast_conv_take take_update_swap min_def)
  have "MAX_CLIENTS s - (ncs s - 1) = Suc (MAX_CLIENTS s - ncs s)" using ar assms(2) by linarith
  moreover have "MAX_CLIENTS s - ncs s < length (free s)" using ar assms(2) by simp
  ultimately show "avail (closed_at ci i s) = avail s @ [ci]"
    by (simp add: avail_def closed_at_def Let_def take_Suc_conv_app_nth)
  show "queued (closed_at ci i s) = queued s" by (simp add: queued_def closed_at_def Let_def)
qed

lemma closed_at_nth:
  assumes "server_inv s" "i < ncs s" "pis s ! i = ci" "cj < MAX_CLIENTS s"
  shows "cs (closed_at ci i s) ! cj =
    (let c = (if cj = ci then shut_client (cs s ! ci) else cs s ! cj) in
     if cj = pis s ! (ncs s - 1) then c\<lparr>pitem := Some (Suc i)\<rparr> else c)"
  using assms(4) by (simp add: closed_at_def Let_def upd_client_nth)

lemma closed_at_inv:
  assumes "server_inv s" "i < ncs s" "pis s ! i = ci"
  shows "server_inv (closed_at ci i s)" "set (live (closed_at ci i s)) = set (live s) - {ci}"
proof -
  note inv = server_invD [OF assms(1)] and ar = server_invD(1) [OF assms(1), unfolded arrays_ok_def]
  note lists = closed_at_lists [OF assms] and nth = closed_at_nth [OF assms]
  let ?s = "closed_at ci i s"
  have sz: "MAX_CLIENTS ?s = MAX_CLIENTS s" "ncs ?s = ncs s - 1" by (simp_all add: closed_at_def Let_def)
  have ci: "ci \<in> set (live s)" "ci < MAX_CLIENTS s" using live_nth [OF assms(1,2)] assms live_place by metis+
  have len: "length (live s) = ncs s" "live s ! i = ci" using ar assms by (simp_all add: live_def)
  have dist: "distinct (live s)" "ci \<notin> set (avail s)" "distinct (avail s)" "set (live s) \<inter> set (avail s) = {}" "set (live s) \<union> set (avail s) = {..<MAX_CLIENTS s}"
    using inv(2) ci by (auto simp: slots_ok_def)
  show setl: "set (live ?s) = set (live s) - {ci}" unfolding lists using swap_out(2) [OF dist(1), of i] len assms(2) by simp
  show "server_inv ?s"
  proof
    show "arrays_ok ?s" using ar by (auto simp: arrays_ok_def closed_at_def Let_def)
    show "slots_ok ?s"
      unfolding slots_ok_def sz(1) distinct_append set_append setl lists(2)
      using swap_out(1) [OF dist(1), of i] len assms(2) dist ci(1) by (auto simp: lists)
    show "places_ok ?s"
      unfolding places_ok_def
    proof (intro allI impI)
      fix j assume j: "j < ncs ?s"
      have pj: "pis ?s ! j = (if j = i then pis s ! (ncs s - 1) else pis s ! j)"
        using ar j sz(2) by (auto simp: closed_at_def Let_def nth_list_update)
      have jn: "j < ncs s - 1" using j sz by simp
      have inj: "pis s ! a = pis s ! b \<longleftrightarrow> a = b" if "a < ncs s" "b < ncs s" for a b
        using dist(1) that nth_eq_iff_index_eq [OF dist(1)] len(1) ar by (simp add: live_def)
      have lt: "pis s ! a < MAX_CLIENTS s" if "a < ncs s" for a
        using live_place [OF assms(1) live_nth [OF assms(1) that]] by metis
      show "pitem (cs ?s ! (pis ?s ! j)) = Some (Suc j)"
        using inv(3) jn assms(2,3) lt [of j] lt [of "ncs s - 1"] inj [of j "ncs s - 1"] inj [of j i]
        by (auto simp: pj nth places_ok_def Let_def)
    qed
    show "states_ok ?s"
      unfolding states_ok_def sz(1) setl
    proof (intro allI impI)
      fix cj assume cj: "cj < MAX_CLIENTS s"
      have lst: "pis s ! (ncs s - 1) \<in> set (live s)" using live_nth [OF assms(1)] assms(2) by simp
      have old: "if cj \<in> set (live s) then state (cs s ! cj) \<noteq> C_FREE \<and> client_ok (cs s ! cj) else state (cs s ! cj) = C_FREE"
        using inv(4) cj by (simp add: states_ok_def)
      show "if cj \<in> set (live s) - {ci} then state (cs ?s ! cj) \<noteq> C_FREE \<and> client_ok (cs ?s ! cj) else state (cs ?s ! cj) = C_FREE"
        using old lst ci(1) by (auto simp: nth [OF cj] Let_def client_ok_def shut_client_def split: if_splits)
    qed
    show "queue_ok ?s"
      using inv(5) ci(2) by (auto simp: queue_ok_def lists sz nth Let_def shut_client_def)
  qed
qed

lemma close_client_ok:
  assumes "server_inv s" "ci \<in> set (live s)"
  shows "\<exists>s'. close_client ci s = Inr s' \<and> server_inv s' \<and> set (live s') = set (live s) - {ci} \<and> queued s' = queued s
    \<and> MAX_CLIENTS s' = MAX_CLIENTS s \<and> qused s' = qused s"
proof -
  obtain i where i: "i < ncs s" "pis s ! i = ci" using live_place [OF assms] by metis
  moreover have "MAX_CLIENTS (closed_at ci i s) = MAX_CLIENTS s" "qused (closed_at ci i s) = qused s"
    by (simp_all add: closed_at_def Let_def)
  ultimately show ?thesis
    using close_client_eq [OF assms(1) i] closed_at_inv [OF assms(1) i] closed_at_lists [OF assms(1) i] by auto
qed

subsection \<open>Accepting a client\<close>

definition fresh_client :: "nat \<Rightarrow> client \<Rightarrow> client" where
  "fresh_client n c = c\<lparr>state := C_IDLE, inbuf := empty_iobuf, outbuf := empty_iobuf, pitem := Some (Suc n), num_served := 0\<rparr>"

definition accepted_as :: "nat \<Rightarrow> int \<Rightarrow> server \<Rightarrow> server" where
  "accepted_as ci d s =
     (upd_client ci (fresh_client (ncs s)) s)
       \<lparr>ps := (ps s)[Suc (ncs s) := \<lparr>fd = d, pollout = False, rev_in = False, rev_out = False\<rparr>],
        pis := (pis s)[ncs s := ci], ncs := Suc (ncs s)\<rparr>"

lemma accept_client_eq:
  assumes "server_inv s" "ncs s < MAX_CLIENTS s" "ci = free s ! (MAX_CLIENTS s - Suc (ncs s))"
  shows "accept_client d s = Inr (accepted_as ci d s)" "avail s = take (MAX_CLIENTS s - Suc (ncs s)) (free s) @ [ci]"
proof -
  note inv = server_invD [OF assms(1)] and ar = server_invD(1) [OF assms(1), unfolded arrays_ok_def]
  have "MAX_CLIENTS s - ncs s = Suc (MAX_CLIENTS s - Suc (ncs s))" using assms(2) by simp
  then show av: "avail s = take (MAX_CLIENTS s - Suc (ncs s)) (free s) @ [ci]"
    using ar assms(2,3) by (simp add: avail_def take_Suc_conv_app_nth)
  then have "ci \<in> set (avail s)" by simp
  then have "ci < MAX_CLIENTS s" "ci \<notin> set (live s)" using inv(2) by (auto simp: slots_ok_def)
  then have "state (cs s ! ci) = C_FREE" using inv(4) by (auto simp: states_ok_def)
  then show "accept_client d s = Inr (accepted_as ci d s)"
    using ar assms(2) \<open>ci < MAX_CLIENTS s\<close>
    by (simp add: accept_client_def Let_def assms(3) [symmetric] accepted_as_def fresh_client_def upd_client_def)
qed

lemma accept_client_ok:
  assumes "server_inv s" "ncs s < MAX_CLIENTS s"
  shows "\<exists>s'. accept_client d s = Inr s' \<and> server_inv s' \<and> MAX_CLIENTS s' = MAX_CLIENTS s \<and> qused s' = qused s"
proof -
  define ci where "ci = free s ! (MAX_CLIENTS s - Suc (ncs s))"
  note inv = server_invD [OF assms(1)] and ar = server_invD(1) [OF assms(1), unfolded arrays_ok_def]
  note eq = accept_client_eq [OF assms ci_def]
  let ?s = "accepted_as ci d s"
  have sz: "MAX_CLIENTS ?s = MAX_CLIENTS s" "ncs ?s = Suc (ncs s)" "qused ?s = qused s" by (simp_all add: accepted_as_def)
  have ci: "ci < MAX_CLIENTS s" "ci \<notin> set (live s)" using inv(2) eq(2) by (auto simp: slots_ok_def)
  have lists: "live ?s = live s @ [ci]" "avail ?s = butlast (avail s)" "queued ?s = queued s"
    using ar assms(2) eq(2)
    by (auto simp: live_def accepted_as_def take_Suc_conv_app_nth, auto simp: avail_def queued_def accepted_as_def)
  have nth: "cs ?s ! cj = (if cj = ci then fresh_client (ncs s) (cs s ! ci) else cs s ! cj)" if "cj < MAX_CLIENTS s" for cj
    using that by (simp add: accepted_as_def upd_client_nth)
  have ok: "client_ok (fresh_client n c)" for n c by (simp add: client_ok_def fresh_client_def)
  have "server_inv ?s"
  proof
    show "arrays_ok ?s" using ar assms(2) by (auto simp: arrays_ok_def accepted_as_def)
    show "slots_ok ?s" using inv(2) eq(2) unfolding slots_ok_def lists sz by auto
    show "places_ok ?s"
      unfolding places_ok_def
    proof (intro allI impI)
      fix j assume j: "j < ncs ?s"
      have pj: "pis ?s ! j = (if j = ncs s then ci else pis s ! j)"
        using ar assms(2) by (auto simp: accepted_as_def nth_list_update)
      have "pis s ! j < MAX_CLIENTS s" "pis s ! j \<noteq> ci" if "j < ncs s"
        using live_place [OF assms(1) live_nth [OF assms(1) that]] live_nth [OF assms(1) that] ci(2) by metis+
      then show "pitem (cs ?s ! (pis ?s ! j)) = Some (Suc j)"
        using j inv(3) ci(1) by (auto simp: pj nth sz places_ok_def fresh_client_def)
    qed
    show "states_ok ?s"
      using inv(4) ci ok unfolding states_ok_def lists sz by (auto simp: nth fresh_client_def)
    show "queue_ok ?s"
      using inv(5) unfolding queue_ok_def lists sz by (auto simp: nth fresh_client_def)
  qed
  with eq sz show ?thesis by auto
qed

text \<open>No call of \<^verbatim>\<open>accept\<close> fails for another reason than that it would block.\<close>

definition accepts_ok :: "io_env \<Rightarrow> bool" where
  "accepts_ok env \<longleftrightarrow> Accept_error \<notin> set (accepts env)"

lemma accept_loop_ok:
  assumes "server_inv s" "Accept_error \<notin> set as"
  shows "\<exists>s'. accept_loop as s = Inr s' \<and> server_inv s' \<and> MAX_CLIENTS s' = MAX_CLIENTS s \<and> qused s' = qused s"
  using assms
proof (induction as arbitrary: s)
  case (Cons a as)
  show ?case
  proof (cases "ncs s < MAX_CLIENTS s")
    case True
    show ?thesis
    proof (cases a)
      case (Accepted d nb)
      show ?thesis
      proof (cases nb)
        case nb: True
        obtain s1 where "accept_client d s = Inr s1" "server_inv s1" "MAX_CLIENTS s1 = MAX_CLIENTS s" "qused s1 = qused s"
          using accept_client_ok [OF Cons.prems(1) True] by blast
        then show ?thesis using Cons.IH [of s1] Cons.prems(2) Accepted nb True by auto
      next
        case False
        have "server_inv (s\<lparr>closed := closed s @ [d]\<rparr>)" by (rule inv_other(1) [OF Cons.prems(1)]) simp_all
        then show ?thesis using Cons.IH [of "s\<lparr>closed := closed s @ [d]\<rparr>"] Cons.prems(2) Accepted False True by auto
      qed
    qed (use Cons.prems True in auto)
  qed (use Cons.prems in auto)
qed auto

text \<open>Whether \<^verbatim>\<open>accept\<close> reports another error while there is room for \<open>n\<close> more clients.\<close>

fun accept_fails :: "accept_result list \<Rightarrow> nat \<Rightarrow> bool" where
  "accept_fails [] n = False"
| "accept_fails (a # as) n =
     (0 < n \<and> (case a of Accept_again \<Rightarrow> False | Accept_error \<Rightarrow> True | Accepted d non_blocking \<Rightarrow> accept_fails as (if non_blocking then n - 1 else n)))"

lemma accept_client_ncs: "accept_client d s = Inr s' \<Longrightarrow> ncs s' = ncs s + 1"
  by (auto simp: accept_client_def Let_def rbind_eq_Inr upd_client_def)

lemma accept_loop_cases:
  assumes "server_inv s"
  shows "if accept_fails as (MAX_CLIENTS s - ncs s) then accept_loop as s = Inl Assert_failed
    else \<exists>s'. accept_loop as s = Inr s' \<and> server_inv s' \<and> MAX_CLIENTS s' = MAX_CLIENTS s \<and> qused s' = qused s"
  using assms
proof (induction as arbitrary: s)
  case (Cons a as)
  show ?case
  proof (cases "ncs s < MAX_CLIENTS s")
    case True
    show ?thesis
    proof (cases a)
      case (Accepted d nb)
      show ?thesis
      proof (cases nb)
        case nb: True
        obtain s1 where s1: "accept_client d s = Inr s1" "server_inv s1" "MAX_CLIENTS s1 = MAX_CLIENTS s" "qused s1 = qused s"
          using accept_client_ok [OF Cons.prems True] by blast
        have "MAX_CLIENTS s1 - ncs s1 = MAX_CLIENTS s - ncs s - 1" using accept_client_ncs [OF s1(1)] s1(3) by simp
        then show ?thesis using Cons.IH [OF s1(2)] s1 Accepted nb True by (auto split: if_splits)
      next
        case False
        have "server_inv (s\<lparr>closed := closed s @ [d]\<rparr>)" by (rule inv_other(1) [OF Cons.prems]) simp_all
        then show ?thesis using Cons.IH [of "s\<lparr>closed := closed s @ [d]\<rparr>"] Accepted False True by (auto split: if_splits)
      qed
    qed (use Cons.prems True in auto)
  qed (use Cons.prems in auto)
qed auto

subsection \<open>The queue\<close>

lemma push_client_ok:
  assumes "server_inv s" "qused s < MAX_CLIENTS s" "ci \<in> set (live s)"
  shows "\<exists>s'. push_client ci s = Inr s' \<and> server_inv s' \<and> live s' = live s \<and> cs s' = cs s \<and> queued s' = queued s @ [ci]"
proof -
  note inv = server_invD [OF assms(1)] and ar = server_invD(1) [OF assms(1), unfolded arrays_ok_def]
  define p where "p = (qhead s + qused s) mod MAX_CLIENTS s"
  define s' where "s' = s\<lparr>qdata := (qdata s)[p := ci], qused := qused s + 1\<rparr>"
  have p: "p < MAX_CLIENTS s" using ar by (simp add: p_def)
  have eq: "push_client ci s = Inr s'" using assms(2) p ar by (simp add: push_client_def s'_def p_def)
  have "(qdata s)[p := ci] ! ((qhead s + j) mod MAX_CLIENTS s) = qdata s ! ((qhead s + j) mod MAX_CLIENTS s)" if "j < qused s" for j
  proof -
    have "(qhead s + j) mod MAX_CLIENTS s \<noteq> p"
      unfolding p_def using mod_neq [of "qhead s + j" "qhead s + qused s" "MAX_CLIENTS s"] that assms(2) by simp
    then show ?thesis by simp
  qed
  then have q: "queued s' = queued s @ [ci]"
    using p ar by (simp add: queued_def s'_def p_def [symmetric] cong: map_cong)
  have l: "live s' = live s" "avail s' = avail s" by (simp_all add: live_def avail_def s'_def)
  have lt: "ci < MAX_CLIENTS s" "state (cs s ! ci) \<noteq> C_FREE" using live_place [OF assms(1,3)] by metis+
  have "server_inv s'"
  proof
    show "arrays_ok s'" using ar assms(2) by (simp add: arrays_ok_def s'_def)
    show "slots_ok s'" using inv(2) unfolding slots_ok_def l by (simp add: s'_def)
    show "places_ok s'" using inv(3) by (simp add: places_ok_def s'_def)
    show "states_ok s'" using inv(4) unfolding states_ok_def l by (simp add: s'_def)
    show "queue_ok s'" using inv(5) lt unfolding queue_ok_def q by (auto simp: s'_def)
  qed
  with eq q l show ?thesis by (auto simp: s'_def)
qed

lemma pop_client_ok:
  assumes "server_inv s" "0 < qused s"
  shows "\<exists>ci s'. pop_client s = Inr (ci, s') \<and> server_inv s' \<and> live s' = live s \<and> cs s' = cs s \<and> queued s = ci # queued s'
    \<and> ci < MAX_CLIENTS s \<and> (state (cs s ! ci) = C_FREE \<longrightarrow> inbuf (cs s ! ci) = empty_iobuf)"
proof -
  note inv = server_invD [OF assms(1)] and ar = server_invD(1) [OF assms(1), unfolded arrays_ok_def]
  define s' where "s' = s\<lparr>qhead := (qhead s + 1) mod MAX_CLIENTS s, qused := qused s - 1\<rparr>"
  define ci where "ci = qdata s ! qhead s"
  have eq: "pop_client s = Inr (ci, s')" using assms(2) ar by (simp add: pop_client_def s'_def ci_def)
  obtain n where n: "qused s = Suc n" using assms(2) gr0_implies_Suc by blast
  have q: "queued s = ci # queued s'"
    using ar by (simp add: queued_def s'_def n ci_def upt_conv_Cons map_Suc_upt [symmetric] mod_simps del: upt_Suc)
  have l: "live s' = live s" "avail s' = avail s" by (simp_all add: live_def avail_def s'_def)
  have "server_inv s'"
  proof
    show "arrays_ok s'" using ar by (auto simp: arrays_ok_def s'_def)
    show "slots_ok s'" using inv(2) unfolding slots_ok_def l by (simp add: s'_def)
    show "places_ok s'" using inv(3) by (simp add: places_ok_def s'_def)
    show "states_ok s'" using inv(4) unfolding states_ok_def l by (simp add: s'_def)
    show "queue_ok s'" using inv(5) unfolding queue_ok_def q by (auto simp: s'_def)
  qed
  moreover have "ci < MAX_CLIENTS s \<and> (state (cs s ! ci) = C_FREE \<longrightarrow> inbuf (cs s ! ci) = empty_iobuf)"
    using inv(5) unfolding queue_ok_def q by simp
  ultimately show ?thesis using eq q l by (auto simp: s'_def)
qed

subsection \<open>Input and output\<close>

lemma input_loop_ok:
  assumes "iobuf_ok b" "malloc_ok malloc"
  shows "\<exists>ok b'. input_loop malloc rs b = Inr (ok, b') \<and> iobuf_ok b' \<and> bused b \<le> bused b'"
  using assms(1)
proof (induction rs arbitrary: b)
  case Nil
  obtain ok b1 where "ensure_free_space malloc b 256 = Inr (ok, b1)" "iobuf_ok b1" "bused b1 = bused b"
    using ensure_free_space_result [OF Nil assms(2)] by blast
  then show ?case by (subst input_loop.simps) auto
next
  case (Cons r rs)
  obtain ok b1 where b1: "ensure_free_space malloc b 256 = Inr (ok, b1)" "iobuf_ok b1" "ok \<Longrightarrow> bdata b1 \<noteq> None" "bused b1 = bused b"
    using ensure_free_space_result [OF Cons.prems assms(2), of 256] by auto
  show ?case
  proof (cases "ok \<and> (\<exists>str. r = Recv_data str \<and> take (room b1) str \<noteq> [])")
    case False
    then show ?thesis using b1 by (subst input_loop.simps) (auto split: recv_result.split)
  next
    case True
    then obtain str d where str: "r = Recv_data str" "take (room b1) str \<noteq> []" "bdata b1 = Some d" ok using b1(3) by auto
    define w where "w = take (room b1) str"
    have w: "bused b1 + length w \<le> length d"
      using b1(2) str(3) by (simp add: w_def room_def size_sub_def iobuf_ok_def bsize_def)
    let ?b = "b1\<lparr>bdata := Some (blit d (bused b1) w), bused := bused b1 + length w\<rparr>"
    have "iobuf_ok ?b" using w by (simp add: iobuf_ok_def bsize_def)
    moreover have "input_loop malloc (r # rs) b = input_loop malloc rs ?b"
      using b1(1) str write_at_end_ok [OF str(3) w] w_def by (subst input_loop.simps) (simp add: Let_def)
    ultimately show ?thesis using Cons.IH [of ?b] b1(4) by fastforce
  qed
qed

lemma EMPTY_LINE_find:
  assumes "iobuf_ok b"
  obtains r where "find b EMPTY_LINE = Inr r"
  using find_result [OF assms, of EMPTY_LINE] by blast

lemma socket_input_ok:
  assumes "server_inv s" "ci \<in> set (live s)" "qused s < MAX_CLIENTS s" "malloc_ok malloc"
  shows "\<exists>ok s'. socket_input malloc rs ci s = Inr (ok, s') \<and> server_inv s' \<and> live s' = live s \<and> qused s' \<le> Suc (qused s)
    \<and> MAX_CLIENTS s' = MAX_CLIENTS s"
proof -
  obtain i where c: "ci < MAX_CLIENTS s" "state (cs s ! ci) \<noteq> C_FREE" "client_ok (cs s ! ci)" using live_place [OF assms(1,2)] by metis
  obtain ok b where b: "input_loop malloc rs (inbuf (cs s ! ci)) = Inr (ok, b)" "iobuf_ok b" "bused (inbuf (cs s ! ci)) \<le> bused b"
    using input_loop_ok [OF _ assms(4)] c(3) by (metis client_ok_def)
  define s1 where "s1 = upd_client ci (\<lambda>c. c\<lparr>inbuf := b\<rparr>) s"
  have s1: "server_inv s1" "live s1 = live s" "qused s1 = qused s" "MAX_CLIENTS s1 = MAX_CLIENTS s"
    unfolding s1_def using c b(2,3) by (auto intro!: upd_client_inv [OF assms(1,2)] simp: keeps_def client_ok_def)
  obtain r where r: "find b EMPTY_LINE = Inr r" using EMPTY_LINE_find [OF b(2)] .
  consider "\<not> ok" | "ok" "\<not> (state (cs s1 ! ci) = C_IDLE \<and> r \<noteq> None)" | "ok" "state (cs s1 ! ci) = C_IDLE" "r \<noteq> None" by blast
  then show ?thesis
  proof cases
    case 3
    obtain s2 where s2: "push_client ci s1 = Inr s2" "server_inv s2" "live s2 = live s1" "cs s2 = cs s1" "queued s2 = queued s1 @ [ci]"
      using push_client_ok [of s1 ci] s1 assms(2,3) by auto
    have q: "qused s2 = Suc (qused s1)" using arg_cong [OF s2(5), of length] by simp
    have "client_ok (cs s2 ! ci)" using live_place [OF s2(2), of ci] s2(3) s1(2) assms(2) by metis
    then have "server_inv (set_state ci C_QUEUED s2)"
      using s2(3) s1(2) assms(2) by (intro upd_client_inv [OF s2(2)]) (auto simp: keeps_def client_ok_def)
    moreover have "socket_input malloc rs ci s = Inr (True, set_state ci C_QUEUED s2)"
      using 3 b r s2(1) by (simp add: socket_input_def s1_def [symmetric] Let_def)
    ultimately show ?thesis using s1 s2 q by auto
  qed (use b r s1 in \<open>auto simp: socket_input_def s1_def [symmetric] Let_def\<close>)
qed

lemma send_loop_le: "sent \<le> limit \<Longrightarrow> snd (send_loop rs z limit sent) \<le> limit"
proof (induction rs z limit sent rule: send_loop.induct)
  case (2 r rs z limit sent)
  then show ?case by (auto split: send_result.split)
qed simp

lemma drop_sent_ok:
  assumes "iobuf_ok b" "n \<le> bused b"
  shows "\<exists>b'. drop_sent n b = Inr b' \<and> iobuf_ok b' \<and> content b' = drop n (content b) \<and> bused b' = bused b - n"
proof (cases "n = bused b \<or> n = 0")
  case True
  then show ?thesis using assms length_content [OF assms(1)] by (auto simp: drop_sent_def)
next
  case False
  then obtain d where d: "bdata b = Some d" "bused b \<le> length d"
    using assms by (cases "bdata b") (auto simp: iobuf_ok_def bsize_def)
  have "drop_sent n b = Inr (b\<lparr>bdata := Some (blit d 0 (chunk d n (bused b - n))), bused := bused b - n\<rparr>)"
    using False d assms(2) by (simp add: drop_sent_def size_sub_def)
  moreover have "take (bused b - n) (blit d 0 (chunk d n (bused b - n))) = drop n (take (bused b) d)"
    using d assms(2) by (simp add: blit_def chunk_def drop_take)
  ultimately show ?thesis using d assms(2) by (auto simp: iobuf_ok_def bsize_def content_def)
qed

lemma set_pollout_ok:
  assumes "server_inv s" "ci \<in> set (live s)"
  shows "\<exists>s'. set_pollout v ci s = Inr s' \<and> server_inv s' \<and> live s' = live s \<and> cs s' = cs s \<and> qused s' = qused s \<and> queued s' = queued s \<and> ncs s' = ncs s"
proof -
  obtain i where i: "i < ncs s" "pitem (cs s ! ci) = Some (Suc i)" using live_place [OF assms] by metis
  have len: "Suc i < length (ps s)" using i server_invD(1) [OF assms(1)] by (simp add: arrays_ok_def)
  let ?s = "s\<lparr>ps := (ps s)[Suc i := (ps s ! Suc i)\<lparr>pollout := v\<rparr>]\<rparr>"
  have "set_pollout v ci s = Inr ?s" using i len by (simp add: set_pollout_def)
  moreover have "server_inv ?s" "live ?s = live s" by (rule inv_other [OF assms(1)]; simp)+
  ultimately show ?thesis by (simp add: queued_def)
qed

lemma socket_output_ok:
  assumes "server_inv s" "ci \<in> set (live s)"
  shows "\<exists>ok bs s'. socket_output rs ci s = Inr (ok, bs, s') \<and> server_inv s' \<and> live s' = live s \<and> qused s' = qused s \<and> MAX_CLIENTS s' = MAX_CLIENTS s"
proof -
  obtain i where c: "ci < MAX_CLIENTS s" "state (cs s ! ci) \<noteq> C_FREE" "client_ok (cs s ! ci)" using live_place [OF assms] by metis
  define c0 where "c0 = cs s ! ci"
  define limit where "limit = (if state c0 = C_CONTENT then content_length_offset c0 else bused (outbuf c0))"
  obtain ok sent where ls: "send_loop rs 0 limit 0 = (ok, sent)" by (cases "send_loop rs 0 limit 0")
  have lim: "limit \<le> bused (outbuf c0)" "iobuf_ok (outbuf c0)" using c(3) by (auto simp: limit_def client_ok_def c0_def)
  have sent: "sent \<le> limit" using send_loop_le [of 0 limit rs 0] ls by simp
  have "sent \<le> bused (outbuf c0)" using sent lim(1) by simp
  then obtain b where b: "drop_sent sent (outbuf c0) = Inr b" "iobuf_ok b" "bused b = bused (outbuf c0) - sent"
    using drop_sent_ok [OF lim(2)] by blast
  define s1 where "s1 = (if state c0 = C_CONTENT then upd_client ci (\<lambda>c. c\<lparr>content_length_offset := content_length_offset c - sent\<rparr>) s else s)"
  have s1: "server_inv s1" "live s1 = live s" "qused s1 = qused s" "MAX_CLIENTS s1 = MAX_CLIENTS s"
    using assms c by (auto simp: s1_def keeps_def client_ok_def intro!: upd_client_inv)
  have "\<exists>s2. (if sent = limit then set_pollout False ci s1 else Inr s1) = Inr s2 \<and> server_inv s2 \<and> live s2 = live s \<and> qused s2 = qused s \<and> cs s2 = cs s1"
    using set_pollout_ok [OF s1(1), of ci False] s1 assms(2) by auto
  then obtain s2 where s2: "(if sent = limit then set_pollout False ci s1 else Inr s1) = Inr s2" "server_inv s2" "live s2 = live s" "qused s2 = qused s"
    "cs s2 = cs s1" by blast
  define s3 where "s3 = upd_client ci (\<lambda>c. c\<lparr>outbuf := b\<rparr>) s2"
  have c2: "cs s2 ! ci = (if state c0 = C_CONTENT then c0\<lparr>content_length_offset := content_length_offset c0 - sent\<rparr> else c0)"
    using c(1) by (simp add: s2(5) s1_def upd_client_nth c0_def)
  have "keeps (\<lambda>c. c\<lparr>outbuf := b\<rparr>) (cs s2 ! ci)"
    unfolding c2 using c(2,3) b lim sent by (auto simp: keeps_def client_ok_def c0_def [symmetric] limit_def)
  then have s3: "server_inv s3" "live s3 = live s" "qused s3 = qused s" "MAX_CLIENTS s3 = MAX_CLIENTS s"
    using upd_client_inv [OF s2(2)] s2 s1(4) assms(2) by (auto simp: s3_def)
  have guard: "\<not> bsize (outbuf c0) < limit" using lim by (simp add: iobuf_ok_def)
  have "socket_output rs ci s =
      (if \<not> ok then Inr (False, (case bdata (outbuf c0) of None \<Rightarrow> [] | Some d \<Rightarrow> take sent d), s)
       else Inr (\<not> (sent = bused (outbuf c0) \<and> state c0 = C_CLOSE), (case bdata (outbuf c0) of None \<Rightarrow> [] | Some d \<Rightarrow> take sent d), s3))"
    unfolding socket_output_def Let_def c0_def [symmetric] limit_def [symmetric] if_not_P [OF guard] ls prod.case
      s1_def [symmetric] s2(1) b(1) rbind_Inr s3_def by simp
  then show ?thesis using s3 assms(1) by auto
qed

subsection \<open>A round of input and output\<close>

lemma client_events_ok:
  assumes "server_inv s" "0 < i" "i \<le> ncs s" "qused s < MAX_CLIENTS s" "malloc_ok malloc"
  shows "\<exists>shut s'. client_events malloc env i s = Inr (shut, s') \<and> server_inv s' \<and> MAX_CLIENTS s' = MAX_CLIENTS s \<and> qused s' \<le> Suc (qused s)"
proof -
  obtain j where j: "i = Suc j" "j < ncs s" using assms(2,3) by (cases i) auto
  define ci where "ci = pis s ! j"
  have live: "ci \<in> set (live s)" using live_nth [OF assms(1) j(2)] by (simp add: ci_def)
  note ar = server_invD(1) [OF assms(1), unfolded arrays_ok_def]
  have "ci < MAX_CLIENTS s" using live_place [OF assms(1) live] by metis
  moreover have "pitem (cs s ! ci) = Some i" using server_invD(3) [OF assms(1)] j by (simp add: places_ok_def ci_def)
  ultimately obtain c p where cp: "rd (pis s) (i - 1) = Inr ci" "rd (cs s) ci = Inr c" "pitem c = Some i" "rd (ps s) i = Inr p"
    using ar j by (simp add: ci_def)
  have "\<exists>ok s1. (if rev_in p then socket_input malloc (recvs env (fd p)) ci s else Inr (True, s)) = Inr (ok, s1)
      \<and> server_inv s1 \<and> live s1 = live s \<and> qused s1 \<le> Suc (qused s) \<and> MAX_CLIENTS s1 = MAX_CLIENTS s"
    using socket_input_ok [OF assms(1) live assms(4,5)] assms(1) by auto
  then obtain ok s1 where s1: "(if rev_in p then socket_input malloc (recvs env (fd p)) ci s else Inr (True, s)) = Inr (ok, s1)"
      "server_inv s1" "live s1 = live s" "qused s1 \<le> Suc (qused s)" "MAX_CLIENTS s1 = MAX_CLIENTS s" by blast
  obtain ok2 bs s2' where o: "socket_output (sends env (fd p)) ci s1 = Inr (ok2, bs, s2')" "server_inv s2'" "live s2' = live s1"
      "qused s2' = qused s1" "MAX_CLIENTS s2' = MAX_CLIENTS s1"
    using socket_output_ok [OF s1(2)] s1(3) live by (metis (no_types, lifting))
  define ok' s2 where "ok' = (if ok \<and> rev_out p then ok2 else ok)" and "s2 = (if ok \<and> rev_out p then s2' else s1)"
  have s2: "server_inv s2" "live s2 = live s" "qused s2 \<le> Suc (qused s)" "MAX_CLIENTS s2 = MAX_CLIENTS s"
    using o s1 by (auto simp: s2_def)
  have out: "(if ok \<and> rev_out p then rbind (socket_output (sends env (fd p)) ci s1) (\<lambda>(ok, _, s). Inr (ok, s)) else Inr (ok, s1)) = Inr (ok', s2)"
    using o(1) by (simp add: ok'_def s2_def)
  obtain s3 where s3: "close_client ci s2 = Inr s3" "server_inv s3" "qused s3 = qused s2" "MAX_CLIENTS s3 = MAX_CLIENTS s2"
    using close_client_ok [OF s2(1)] s2(2) live by metis
  have "client_events malloc env i s = (if ok' then Inr (False, s2) else Inr (True, s3))"
    unfolding client_events_def cp s1(1) rbind_Inr prod.case out s3(1) by (simp add: cp(3))
  then show ?thesis using s2 s3 by (cases ok') auto
qed

lemma client_loop_ok:
  assumes "server_inv s" "0 < i" "qused s + (ncs s + 1 - i) \<le> MAX_CLIENTS s" "malloc_ok malloc"
  shows "\<exists>s'. client_loop malloc env i s = Inr s' \<and> server_inv s' \<and> MAX_CLIENTS s' = MAX_CLIENTS s"
  using assms(1-3)
proof (induction "ncs s + 1 - i" arbitrary: i s rule: less_induct)
  case less
  show ?case
  proof (cases "i < ncs s + 1")
    case False
    then show ?thesis using less.prems by (simp add: client_loop.simps [of malloc env i s])
  next
    case True
    then have lt: "i \<le> ncs s" "qused s < MAX_CLIENTS s" using less.prems(3) by linarith+
    then obtain shut s1 where s1: "client_events malloc env i s = Inr (shut, s1)" "server_inv s1" "MAX_CLIENTS s1 = MAX_CLIENTS s"
        "qused s1 \<le> Suc (qused s)"
      using client_events_ok [OF less.prems(1,2) lt assms(4), of env] by blast
    have n: "ncs s = (if shut then Suc (ncs s1) else ncs s1)" using client_events_ncs [OF s1(1)] .
    define i' where "i' = (if shut then i else i + 1)"
    have "ncs s1 + 1 - i' < ncs s + 1 - i" "qused s1 + (ncs s1 + 1 - i') \<le> MAX_CLIENTS s1" "0 < i'"
      using n True s1(3,4) less.prems(2,3) by (auto simp: i'_def)
    then obtain s' where "client_loop malloc env i' s1 = Inr s'" "server_inv s'" "MAX_CLIENTS s' = MAX_CLIENTS s1"
      using less.hyps [of s1 i'] s1(2) by blast
    then show ?thesis using True s1 by (simp add: client_loop.simps [of malloc env i s] i'_def)
  qed
qed

lemma poll_mark_inv: "server_inv s \<Longrightarrow> server_inv (poll_mark env s)" "MAX_CLIENTS (poll_mark env s) = MAX_CLIENTS s" "qused (poll_mark env s) = qused s"
  by (auto simp: poll_mark_def intro!: inv_other(1) [of s])

lemma process_io_cases:
  assumes "server_inv s" "qused s = 0" "malloc_ok malloc"
  shows "if poll_ok env \<and> listen_ready env \<and> accept_fails (accepts env) (MAX_CLIENTS s - ncs s) then process_io malloc env s = Inl Assert_failed
    else \<exists>s'. process_io malloc env s = Inr s' \<and> server_inv s' \<and> MAX_CLIENTS s' = MAX_CLIENTS s"
proof -
  note pm = poll_mark_inv(1) [OF assms(1), of env] poll_mark_inv(2,3) [of env s]
  have n: "ncs (poll_mark env s) = ncs s" by (simp add: poll_mark_def)
  note al = accept_loop_cases [OF pm(1), of "accepts env", unfolded pm(2) n]
  show ?thesis
  proof (cases "poll_ok env \<and> listen_ready env \<and> accept_fails (accepts env) (MAX_CLIENTS s - ncs s)")
    case True
    then show ?thesis using al by (simp add: process_io_def Let_def)
  next
    case False
    show ?thesis
    proof (cases "poll_ok env")
      case poll: True
      obtain s1 where s1: "(if listen_ready env then accept_loop (accepts env) (poll_mark env s) else Inr (poll_mark env s)) = Inr s1"
          "server_inv s1" "MAX_CLIENTS s1 = MAX_CLIENTS s" "qused s1 = 0"
        using al False poll pm assms(2) by (cases "listen_ready env") auto
      have "qused s1 + (ncs s1 + 1 - 1) \<le> MAX_CLIENTS s1" using server_invD(1) [OF s1(2)] s1(4) by (simp add: arrays_ok_def)
      then show ?thesis
        using client_loop_ok [OF s1(2), of 1 malloc env] assms(3) s1 False poll by (auto simp: process_io_def Let_def)
    qed (use assms in \<open>simp add: process_io_def\<close>)
  qed
qed

lemma process_io_ok:
  assumes "server_inv s" "qused s = 0" "accepts_ok env" "malloc_ok malloc"
  shows "\<exists>s'. process_io malloc env s = Inr s' \<and> server_inv s' \<and> MAX_CLIENTS s' = MAX_CLIENTS s"
proof -
  note pm = poll_mark_inv(1) [OF assms(1), of env] poll_mark_inv(2,3) [of env s]
  have "\<exists>s1. (if listen_ready env then accept_loop (accepts env) (poll_mark env s) else Inr (poll_mark env s)) = Inr s1
      \<and> server_inv s1 \<and> MAX_CLIENTS s1 = MAX_CLIENTS s \<and> qused s1 = 0"
    using accept_loop_ok [OF pm(1), of "accepts env"] pm assms(2,3) by (auto simp: accepts_ok_def)
  then obtain s1 where s1: "(if listen_ready env then accept_loop (accepts env) (poll_mark env s) else Inr (poll_mark env s)) = Inr s1"
      "server_inv s1" "MAX_CLIENTS s1 = MAX_CLIENTS s" "qused s1 = 0" by blast
  have "qused s1 + (ncs s1 + 1 - 1) \<le> MAX_CLIENTS s1" using server_invD(1) [OF s1(2)] s1(4) by (simp add: arrays_ok_def)
  then show ?thesis
    using client_loop_ok [OF s1(2), of 1 malloc env] assms s1 by (auto simp: process_io_def Let_def)
qed

end
