(* ===== verification/HttpCalls.thy ===== *)
theory HttpCalls
  imports HttpSlots
begin

section \<open>The HTTP server: its calls keep the bookkeeping\<close>

text \<open>
  What the calls that write to a client do (\<open>wrote\<close>), and that every call of the server keeps the
  invariant when it returns.
\<close>

subsection \<open>Lengths\<close>

lemma length_show_nat: "n < 10 ^ k \<Longrightarrow> 0 < k \<Longrightarrow> length (show_nat n) \<le> k"
proof (induction n arbitrary: k rule: show_nat.induct)
  case (1 n)
  show ?case
  proof (cases "n < 10")
    case True
    then show ?thesis using "1.prems" by (simp add: show_nat.simps [of n])
  next
    case False
    then obtain j where j: "k = Suc j" "0 < j" using "1.prems" by (cases k; cases "k - 1") auto
    then have "length (show_nat (n div 10)) \<le> j" using "1.IH" [OF False, of j] "1.prems" by (simp add: less_mult_imp_div_less mult.commute)
    then show ?thesis using False j by (simp add: show_nat.simps [of n])
  qed
qed

lemma length_show_int: "\<bar>n\<bar> < 10 ^ k \<Longrightarrow> 0 < k \<Longrightarrow> length (show_int n) \<le> Suc k"
proof -
  assume "\<bar>n\<bar> < 10 ^ k" "0 < k"
  moreover have "nat \<bar>n\<bar> < 10 ^ k" using calculation(1) by (simp add: nat_less_iff)
  ultimately show ?thesis using length_show_nat [of "nat \<bar>n\<bar>" k] by (auto simp: show_int_def)
qed

lemma length_reason_phrase: "length (reason_phrase status) \<le> 40"
proof -
  have "list_all (\<lambda>p. length (snd p) \<le> 40) reason_phrases" by (simp add: reason_phrases_def)
  then show ?thesis
    by (auto simp: reason_phrase_def list_all_iff dest!: map_of_SomeD split: option.split)
qed

subsection \<open>Writing\<close>

definition wrote :: "nat \<Rightarrow> string \<Rightarrow> server \<Rightarrow> server \<Rightarrow> bool" where
  "wrote ci str s s' \<longleftrightarrow> server_inv s' \<and> live s' = live s \<and> ncs s' = ncs s \<and> queued s' = queued s
     \<and> (\<exists>b. cs s' = (cs s)[ci := (cs s ! ci)\<lparr>outbuf := b\<rparr>] \<and> iobuf_ok b \<and> content b = content (outbuf (cs s ! ci)) @ str
          \<and> (bdata (outbuf (cs s ! ci)) \<noteq> None \<or> str \<noteq> [] \<longrightarrow> bdata b \<noteq> None))"

lemma wroteD:
  assumes "wrote ci str s s'" "ci < MAX_CLIENTS s"
  shows "server_inv s'" "live s' = live s" "ncs s' = ncs s" "MAX_CLIENTS s' = MAX_CLIENTS s" "queued s' = queued s"
    "\<exists>b. cs s' ! ci = (cs s ! ci)\<lparr>outbuf := b\<rparr> \<and> iobuf_ok b \<and> content b = content (outbuf (cs s ! ci)) @ str
       \<and> (bdata (outbuf (cs s ! ci)) \<noteq> None \<or> str \<noteq> [] \<longrightarrow> bdata b \<noteq> None)"
  using assms by (auto simp: wrote_def)

lemma wrote_trans:
  assumes "wrote ci a s s1" "wrote ci b s1 s2" "ci < MAX_CLIENTS s"
  shows "wrote ci (a @ b) s s2"
proof -
  obtain x where x: "cs s1 = (cs s)[ci := (cs s ! ci)\<lparr>outbuf := x\<rparr>]" "content x = content (outbuf (cs s ! ci)) @ a"
    "bdata (outbuf (cs s ! ci)) \<noteq> None \<or> a \<noteq> [] \<longrightarrow> bdata x \<noteq> None" using assms(1) by (auto simp: wrote_def)
  obtain y where y: "cs s2 = (cs s1)[ci := (cs s1 ! ci)\<lparr>outbuf := y\<rparr>]" "iobuf_ok y" "content y = content (outbuf (cs s1 ! ci)) @ b"
    "bdata (outbuf (cs s1 ! ci)) \<noteq> None \<or> b \<noteq> [] \<longrightarrow> bdata y \<noteq> None" using assms(2) by (auto simp: wrote_def)
  have "cs s1 ! ci = (cs s ! ci)\<lparr>outbuf := x\<rparr>" using x(1) assms(3) by simp
  then show ?thesis
    using assms(1,2) x y unfolding wrote_def by (intro conjI exI [of _ y]) auto
qed

lemma wrote_refl: "server_inv s \<Longrightarrow> ci \<in> set (live s) \<Longrightarrow> wrote ci [] s s"
proof -
  assume "server_inv s" "ci \<in> set (live s)"
  then have "iobuf_ok (outbuf (cs s ! ci))" using live_place client_ok_def by metis
  with \<open>server_inv s\<close> show ?thesis unfolding wrote_def by (intro conjI exI [of _ "outbuf (cs s ! ci)"]) auto
qed

lemma wrote_put:
  assumes inv: "server_inv s" and l: "ci \<in> set (live s)"
    and b: "iobuf_ok b" "content b = content (outbuf (cs s ! ci)) @ str" "bdata (outbuf (cs s ! ci)) \<noteq> None \<or> str \<noteq> [] \<longrightarrow> bdata b \<noteq> None"
    and r: "(if mark then rbind (set_pollout True ci (upd_client ci (\<lambda>c. c\<lparr>outbuf := b\<rparr>) s)) (\<lambda>s. Inr (ok, s))
             else Inr (ok, upd_client ci (\<lambda>c. c\<lparr>outbuf := b\<rparr>) s)) = Inr (ok', s')"
  shows "wrote ci str s s'"
proof -
  define s1 where "s1 = upd_client ci (\<lambda>c. c\<lparr>outbuf := b\<rparr>) s"
  have c: "ci < MAX_CLIENTS s" "state (cs s ! ci) \<noteq> C_FREE" "client_ok (cs s ! ci)" using live_place [OF inv l] by metis+
  have "bused (outbuf (cs s ! ci)) \<le> bused b"
    using b(1,2) c(3) length_content [OF b(1)] length_content [of "outbuf (cs s ! ci)"] by (simp add: client_ok_def)
  then have "keeps (\<lambda>c. c\<lparr>outbuf := b\<rparr>) (cs s ! ci)" using c b(1) by (auto simp: keeps_def client_ok_def)
  then have s1: "server_inv s1" unfolding s1_def by (rule upd_client_inv [OF inv l])
  have "wrote ci str s s1"
    unfolding wrote_def using s1 b c(1) by (intro conjI exI [of _ b]) (auto simp: s1_def upd_client_def live_def queued_def)
  moreover have "server_inv s' \<and> live s' = live s1 \<and> cs s' = cs s1 \<and> queued s' = queued s1 \<and> ncs s' = ncs s1"
  proof (cases mark)
    case True
    obtain s2 where s2: "set_pollout True ci s1 = Inr s2" "server_inv s2" "live s2 = live s1" "cs s2 = cs s1" "queued s2 = queued s1" "ncs s2 = ncs s1"
      using set_pollout_ok [OF s1, of ci True] l by (auto simp: s1_def)
    then have "s' = s2" using r True unfolding s1_def [symmetric] by simp
    with s2 show ?thesis by simp
  next
    case False
    then have "s' = s1" using r unfolding s1_def [symmetric] by simp
    with s1 show ?thesis by simp
  qed
  ultimately show ?thesis by (simp add: wrote_def)
qed

lemma append_output_inv:
  assumes "append_output malloc b str = Inr (ok, b')" "iobuf_ok b" "malloc_ok malloc"
  shows "iobuf_ok b' \<and> content b' = content b @ (if ok then str else []) \<and> (bdata b \<noteq> None \<or> ok \<and> str \<noteq> [] \<longrightarrow> bdata b' \<noteq> None)"
proof (cases "bdata b \<noteq> None \<or> length str \<le> 512")
  case True
  then show ?thesis using append_output_result [OF assms(2,3) True] assms(1) by auto
next
  case False
  then have "malloc 512 = None"
    using assms(1,3) append_output_overrun [of b malloc _ str] by (cases "malloc 512") (auto simp: malloc_ok_def)
  then show ?thesis using False assms(1,2) by (auto simp: append_output_def ensure_free_space_def split: if_splits)
qed

lemma append_wrote:
  assumes "http_server_append_output malloc ci str s = Inr (ok, s')" "server_inv s" "ci \<in> set (live s)" "malloc_ok malloc"
  shows "wrote ci (if ok then str else []) s s'"
proof -
  obtain k b where b: "append_output malloc (outbuf (cs s ! ci)) str = Inr (k, b)"
    using assms(1) by (auto simp: http_server_append_output_def rbind_eq_Inr)
  have ok: "iobuf_ok (outbuf (cs s ! ci))" using live_place [OF assms(2,3)] client_ok_def by metis
  note inv = append_output_inv [OF b ok assms(4)]
  have r: "(if k \<and> str \<noteq> [] then rbind (set_pollout True ci (upd_client ci (\<lambda>c. c\<lparr>outbuf := b\<rparr>) s)) (\<lambda>s. Inr (k, s))
             else Inr (k, upd_client ci (\<lambda>c. c\<lparr>outbuf := b\<rparr>) s)) = Inr (ok, s')"
    using assms(1) b by (auto simp: http_server_append_output_def Let_def split: if_splits)
  then have "ok = k" by (auto simp: rbind_eq_Inr split: if_splits)
  then show ?thesis
    using wrote_put [OF assms(2,3) _ _ _ r, of "if ok then str else []"] inv by auto
qed

lemma append_format_wrote:
  assumes "http_server_append_output_format malloc ci str s = Inr (ok, s')" "server_inv s" "ci \<in> set (live s)" "malloc_ok malloc"
    "bdata (outbuf (cs s ! ci)) \<noteq> None \<or> length str < 512"
  shows "wrote ci (if ok then str else []) s s'"
proof -
  have ok: "iobuf_ok (outbuf (cs s ! ci))" using live_place [OF assms(2,3)] client_ok_def by metis
  obtain k b where b: "append_output_format malloc (outbuf (cs s ! ci)) str = Inr (k, b)"
      "iobuf_ok b" "content b = content (outbuf (cs s ! ci)) @ (if k then str else [])" "k \<or> bdata (outbuf (cs s ! ci)) \<noteq> None \<longrightarrow> bdata b \<noteq> None"
    using append_output_format_result [OF ok assms(4,5)] by blast
  have r: "(if k \<and> str \<noteq> [] then rbind (set_pollout True ci (upd_client ci (\<lambda>c. c\<lparr>outbuf := b\<rparr>) s)) (\<lambda>s. Inr (k, s))
             else Inr (k, upd_client ci (\<lambda>c. c\<lparr>outbuf := b\<rparr>) s)) = Inr (ok, s')"
    using assms(1) b by (auto simp: http_server_append_output_format_def Let_def split: if_splits)
  then have "ok = k" by (auto simp: rbind_eq_Inr split: if_splits)
  then show ?thesis
    using wrote_put [OF assms(2,3) b(2) _ _ r, of "if ok then str else []"] b by auto
qed

subsection \<open>Handles\<close>

lemma invalidate_gen: "gen (invalidate_handles c) \<noteq> gen c"
proof -
  have "gen c + 1 \<noteq> gen c" by simp
  moreover have "gen c \<noteq> 0" if "gen c + 1 = - 1"
  proof
    assume "gen c = 0"
    with that have "(1 :: u16) = - 1" by simp
    then show False by simp
  qed
  ultimately show ?thesis by (auto simp: invalidate_handles_def Let_def)
qed

lemma client_from_handle_Some:
  "client_from_handle s h = Some ci \<Longrightarrow> ci = unat (ucast (drop_bit 16 h) :: u16) \<and> ci < ncs s \<and> gen (cs s ! ci) = ucast (h AND 0xFFFF)"
  by (auto simp: client_from_handle_def Let_def split: if_splits)

text \<open>Closing a client makes its handle invalid.\<close>

lemma close_client_handle:
  assumes "server_inv s" "ci \<in> set (live s)" "client_from_handle s h = Some ci" "close_client ci s = Inr s'"
  shows "client_from_handle s' h = None"
proof -
  obtain i where i: "i < ncs s" "pis s ! i = ci" "ci < MAX_CLIENTS s" using live_place [OF assms(1,2)] by metis
  have s': "s' = closed_at ci i s" using close_client_eq [OF assms(1) i(1,2)] assms(4) by simp
  have "gen (cs s' ! ci) \<noteq> gen (cs s ! ci)"
    unfolding s' closed_at_nth [OF assms(1) i] using invalidate_gen by (simp add: shut_client_def Let_def)
  then show ?thesis
    using client_from_handle_Some [OF assms(3)] client_from_handle_Some [of s' h] by (cases "client_from_handle s' h") auto
qed

definition sound :: "server \<Rightarrow> server \<Rightarrow> bool" where
  "sound s s' \<longleftrightarrow> server_inv s' \<and> MAX_CLIENTS s' = MAX_CLIENTS s"

lemma sound_trans: "sound s s1 \<Longrightarrow> sound s1 s2 \<Longrightarrow> sound s s2"
  by (simp add: sound_def)

lemma wrote_sound: "wrote ci str s s' \<Longrightarrow> sound s s'"
  by (auto simp: wrote_def sound_def)

lemma close_client_sound: "server_inv s \<Longrightarrow> ci \<in> set (live s) \<Longrightarrow> close_client ci s = Inr s' \<Longrightarrow> sound s s'"
  using close_client_ok [of s ci] by (auto simp: sound_def)

lemma upd_client_sound: "server_inv s \<Longrightarrow> ci \<in> set (live s) \<Longrightarrow> keeps f (cs s ! ci) \<Longrightarrow> sound s (upd_client ci f s)"
  using upd_client_inv by (simp add: sound_def)

text \<open>After a write the client is as before but for its output.\<close>

lemma wrote_client:
  assumes "wrote ci str s s'" "server_inv s" "ci \<in> set (live s)"
  shows "ci \<in> set (live s')" "state (cs s' ! ci) = state (cs s ! ci)" "gen (cs s' ! ci) = gen (cs s ! ci)" "c_minor (cs s' ! ci) = c_minor (cs s ! ci)"
    "pitem (cs s' ! ci) = pitem (cs s ! ci)" "client_ok (cs s' ! ci)" "bused (outbuf (cs s' ! ci)) = bused (outbuf (cs s ! ci)) + length str"
    "content (outbuf (cs s' ! ci)) = content (outbuf (cs s ! ci)) @ str"
    "content_length_offset (cs s' ! ci) = content_length_offset (cs s ! ci)" "inbuf (cs s' ! ci) = inbuf (cs s ! ci)"
    "bdata (outbuf (cs s ! ci)) \<noteq> None \<or> str \<noteq> [] \<Longrightarrow> bdata (outbuf (cs s' ! ci)) \<noteq> None"
proof -
  have c: "ci < MAX_CLIENTS s" "client_ok (cs s ! ci)" using live_place [OF assms(2,3)] by metis+
  note w = wroteD [OF assms(1) c(1)]
  obtain b where b: "cs s' ! ci = (cs s ! ci)\<lparr>outbuf := b\<rparr>" "iobuf_ok b" "content b = content (outbuf (cs s ! ci)) @ str"
      "bdata (outbuf (cs s ! ci)) \<noteq> None \<or> str \<noteq> [] \<longrightarrow> bdata b \<noteq> None" using w(6) by auto
  show l: "ci \<in> set (live s')" using w(2) assms(3) by simp
  show "client_ok (cs s' ! ci)" using live_place [OF w(1) l] by metis
  show "bused (outbuf (cs s' ! ci)) = bused (outbuf (cs s ! ci)) + length str"
    using b length_content [OF b(2)] length_content [of "outbuf (cs s ! ci)"] c(2) by (simp add: client_ok_def)
  show "state (cs s' ! ci) = state (cs s ! ci)" "gen (cs s' ! ci) = gen (cs s ! ci)" "c_minor (cs s' ! ci) = c_minor (cs s ! ci)"
    "pitem (cs s' ! ci) = pitem (cs s ! ci)" "content (outbuf (cs s' ! ci)) = content (outbuf (cs s ! ci)) @ str"
    "content_length_offset (cs s' ! ci) = content_length_offset (cs s ! ci)" "inbuf (cs s' ! ci) = inbuf (cs s ! ci)"
    "bdata (outbuf (cs s ! ci)) \<noteq> None \<or> str \<noteq> [] \<Longrightarrow> bdata (outbuf (cs s' ! ci)) \<noteq> None"
    using b by simp_all
qed

subsection \<open>Waiting for a request\<close>

lemma accept_loop_inv: "accept_loop as s = Inr s' \<Longrightarrow> server_inv s \<Longrightarrow> sound s s' \<and> qused s' = qused s"
proof (induction as arbitrary: s)
  case (Cons a as)
  show ?case
  proof (cases "ncs s < MAX_CLIENTS s")
    case True
    show ?thesis
    proof (cases a)
      case (Accepted d nb)
      obtain s1 where s1: "accept_client d s = Inr s1" "server_inv s1" "MAX_CLIENTS s1 = MAX_CLIENTS s" "qused s1 = qused s"
        using accept_client_ok [OF Cons.prems(2) True] by blast
      have "server_inv (s\<lparr>closed := closed s @ [d]\<rparr>)" by (rule inv_other(1) [OF Cons.prems(2)]) simp_all
      then show ?thesis
        using Cons.IH [of s1] Cons.IH [of "s\<lparr>closed := closed s @ [d]\<rparr>"] s1 Cons.prems Accepted True
        by (cases nb) (auto simp: sound_def)
    qed (use Cons.prems True in \<open>auto simp: sound_def\<close>)
  qed (use Cons.prems in \<open>auto simp: sound_def\<close>)
qed (auto simp: sound_def)

lemma process_io_inv:
  assumes "process_io malloc env s = Inr s'" "server_inv s" "qused s = 0" "malloc_ok malloc"
  shows "sound s s'"
proof (cases "poll_ok env")
  case True
  note pm = poll_mark_inv(1) [OF assms(2), of env] poll_mark_inv(2,3) [of env s]
  obtain s1 where s1: "(if listen_ready env then accept_loop (accepts env) (poll_mark env s) else Inr (poll_mark env s)) = Inr s1"
      "client_loop malloc env 1 s1 = Inr s'"
    using assms(1) True by (auto simp: process_io_def Let_def rbind_eq_Inr)
  have "sound (poll_mark env s) s1 \<and> qused s1 = qused (poll_mark env s)"
    using s1(1) accept_loop_inv [OF _ pm(1)] pm(1) by (auto simp: sound_def split: if_splits)
  then have 1: "server_inv s1" "MAX_CLIENTS s1 = MAX_CLIENTS s" "qused s1 = 0" using pm assms(3) by (auto simp: sound_def)
  have "qused s1 + (ncs s1 + 1 - 1) \<le> MAX_CLIENTS s1" using server_invD(1) [OF 1(1)] 1(3) by (simp add: arrays_ok_def)
  then show ?thesis using client_loop_ok [OF 1(1), of 1 malloc env] assms(4) s1(2) 1 by (auto simp: sound_def)
qed (use assms in \<open>simp_all add: process_io_def sound_def\<close>)

lemma basic_response_wrote:
  assumes "send_basic_response_and_close malloc ci mnr status s = Inr s'" "server_inv s" "ci \<in> set (live s)" "malloc_ok malloc" "\<bar>status\<bar> < 10 ^ 10"
  obtains ok str s1 where "wrote ci str s s1" "(if ok then Inr (set_state ci C_CLOSE s1) else close_client ci s1) = Inr s'"
proof -
  define str where "str = (if mnr = 0 then ''HTTP/1.0 '' @ show_int status @ '' '' @ reason_phrase status @ CRLF @ ''Content-Length: 0'' @ CRLF @ CRLF
     else ''HTTP/1.1 '' @ show_int status @ '' '' @ reason_phrase status @ CRLF @ ''Content-Length: 0'' @ CRLF @ ''Connection: Close'' @ CRLF @ CRLF)"
  have "length (show_int status) \<le> 11" using length_show_int [OF assms(5)] by simp
  then have len: "length str < 512" using length_reason_phrase [of status] by (simp add: str_def)
  obtain ok s1 where s1: "http_server_append_output_format malloc ci str s = Inr (ok, s1)"
      "(if ok then Inr (set_state ci C_CLOSE s1) else close_client ci s1) = Inr s'"
    using assms(1) by (auto simp: send_basic_response_and_close_def str_def rbind_eq_Inr split: if_splits)
  have "wrote ci (if ok then str else []) s s1" using append_format_wrote [OF s1(1) assms(2-4)] len by blast
  then show thesis using that s1(2) by blast
qed

lemma basic_response_inv:
  assumes "send_basic_response_and_close malloc ci mnr status s = Inr s'" "server_inv s" "ci \<in> set (live s)" "malloc_ok malloc" "\<bar>status\<bar> < 10 ^ 10"
  shows "sound s s'"
proof -
  obtain ok str s1 where w: "wrote ci str s s1" and s1: "(if ok then Inr (set_state ci C_CLOSE s1) else close_client ci s1) = Inr s'"
    by (rule basic_response_wrote [OF assms])
  note c = wrote_client [OF w assms(2,3)]
  have inv: "server_inv s1" using w by (simp add: wrote_def)
  have "keeps (\<lambda>c. c\<lparr>state := C_CLOSE\<rparr>) (cs s1 ! ci)" using c(6) by (simp add: keeps_def client_ok_def)
  then have "sound s1 s'" using s1 upd_client_sound [OF inv c(1)] close_client_sound [OF inv c(1)] by (auto split: if_splits)
  then show ?thesis using wrote_sound [OF w] sound_trans by blast
qed

lemma content_length_status: "content_length_of r = Inl st \<Longrightarrow> \<bar>st\<bar> < 10 ^ 10"
  by (auto simp: content_length_of_def Let_def split: option.splits if_splits)

text \<open>A stale entry of the queue, whose client was closed, fails the assertion after the search.\<close>

lemma take_request_free:
  assumes "ci < MAX_CLIENTS s" "inbuf (cs s ! ci) = empty_iobuf"
  shows "take_request malloc ci r s = Inl Assert_failed"
  using assms by (simp add: take_request_def upd_client_nth find_def Let_def)

text \<open>Otherwise the client is answered at once, left as it is, or has a whole request.\<close>

lemma take_request_cases:
  assumes "take_request malloc ci r s = Inr (out, r', s')" "ci < MAX_CLIENTS s"
  obtains (answer) m st where "send_basic_response_and_close malloc ci m st (set_state ci C_POPPED s) = Inr s'" "\<bar>st\<bar> < 10 ^ 10"
  | (waiting) "s' = set_state ci C_POPPED s"
  | (ready) mn n where "mn \<in> {0, 1}" "n \<le> bused (inbuf (cs s ! ci))"
      "s' = upd_client ci (\<lambda>c. c\<lparr>state := C_STATUS, c_minor := mn, connheader := - 1, request_length := n\<rparr>) (set_state ci C_POPPED s)"
proof -
  define s1 where "s1 = set_state ci C_POPPED s"
  have c1: "cs s1 ! ci = (cs s ! ci)\<lparr>state := C_POPPED\<rparr>" using assms(2) by (simp add: s1_def upd_client_nth)
  obtain found status r1 where f: "find (inbuf (cs s1 ! ci)) EMPTY_LINE = Inr found" "found \<noteq> None"
      "parse_request_head (take (the found + 4) (case bdata (inbuf (cs s1 ! ci)) of None \<Rightarrow> [] | Some d \<Rightarrow> d)) r = Inr (status, r1)"
    using assms(1) unfolding take_request_def Let_def s1_def [symmetric] by (auto simp: rbind_eq_Inr)
  have rest: "(if status \<noteq> P_OK then rbind (send_basic_response_and_close malloc ci 1 400 s1) (\<lambda>s. Inr (None, r1, s))
      else if major r1 \<noteq> 1 \<or> minor r1 \<noteq> 0 \<and> minor r1 \<noteq> 1 then rbind (send_basic_response_and_close malloc ci 1 505 s1) (\<lambda>s. Inr (None, r1, s))
      else case content_length_of r1 of
        Inl st \<Rightarrow> rbind (send_basic_response_and_close malloc ci (minor r1) st s1) (\<lambda>s. Inr (None, r1, s))
      | Inr content_length \<Rightarrow>
          (let total_request_length = of_nat (the found + 4) + content_length :: u64 in
           if of_nat (bused (inbuf (cs s1 ! ci))) < total_request_length then Inr (None, r1, s1)
           else
             let s = upd_client ci (\<lambda>c. c\<lparr>state := C_STATUS, c_minor := minor r1, connheader := - 1,
                       request_length := unat total_request_length\<rparr>) s1
             in rbind (c_assert (gen (cs s ! ci) < - 1)) (\<lambda>_.
                Inr (Some (handle_of (cs s ! ci) ci, the found + 4, content_length), r1, s)))) = Inr (out, r', s')"
    using assms(1) f unfolding take_request_def Let_def s1_def [symmetric] by simp
  show thesis
  proof (cases "status \<noteq> P_OK \<or> major r1 \<noteq> 1 \<or> minor r1 \<noteq> 0 \<and> minor r1 \<noteq> 1")
    case True
    then show ?thesis
      using rest answer [of 1 400, folded s1_def] answer [of 1 505, folded s1_def] by (auto simp: rbind_eq_Inr split: if_splits)
  next
    case False
    show ?thesis
    proof (cases "content_length_of r1")
      case (Inl st)
      then show ?thesis
        using rest False answer [of "minor r1" st, folded s1_def] content_length_status [OF Inl] by (auto simp: rbind_eq_Inr)
    next
      case (Inr n)
      let ?n = "unat (of_nat (the found + 4) + n)"
      have le: "?n \<le> bused (inbuf (cs s ! ci))" if "\<not> of_nat (bused (inbuf (cs s1 ! ci))) < of_nat (the found + 4) + n"
      proof -
        have "?n \<le> unat (of_nat (bused (inbuf (cs s1 ! ci))) :: u64)" using that by (simp add: word_le_nat_alt [symmetric])
        also have "\<dots> \<le> bused (inbuf (cs s ! ci))" by (simp add: unat_of_nat c1)
        finally show ?thesis .
      qed
      have "s' = s1 \<or> \<not> of_nat (bused (inbuf (cs s1 ! ci))) < of_nat (the found + 4) + n
          \<and> s' = upd_client ci (\<lambda>c. c\<lparr>state := C_STATUS, c_minor := minor r1, connheader := - 1, request_length := ?n\<rparr>) s1"
        using rest False Inr unfolding Let_def by (auto simp: rbind_eq_Inr split: if_splits)
      then show ?thesis using ready [of "minor r1" ?n, folded s1_def] waiting [folded s1_def] le False by blast
    qed
  qed
qed

lemma take_request_live:
  assumes "take_request malloc ci r s = Inr (out, r', s')" "server_inv s" "ci < MAX_CLIENTS s"
    "state (cs s ! ci) = C_FREE \<longrightarrow> inbuf (cs s ! ci) = empty_iobuf"
  shows "ci \<in> set (live s)" "server_inv (set_state ci C_POPPED s)"
proof -
  have "state (cs s ! ci) \<noteq> C_FREE" using take_request_free [OF assms(3)] assms(1,4) by auto
  then show l: "ci \<in> set (live s)" using live_iff [OF assms(2,3)] by simp
  have "client_ok (cs s ! ci)" using live_place [OF assms(2) l] by metis
  then show "server_inv (set_state ci C_POPPED s)" by (intro upd_client_inv [OF assms(2) l]) (auto simp: keeps_def client_ok_def)
qed

lemma take_request_inv:
  assumes "take_request malloc ci r s = Inr (out, r', s')" "server_inv s" "ci < MAX_CLIENTS s" "malloc_ok malloc"
    "state (cs s ! ci) = C_FREE \<longrightarrow> inbuf (cs s ! ci) = empty_iobuf"
  shows "sound s s'"
proof -
  let ?s = "set_state ci C_POPPED s"
  note l = take_request_live [OF assms(1-3,5)]
  have l1: "ci \<in> set (live ?s)" "client_ok (cs ?s ! ci)" "inbuf (cs ?s ! ci) = inbuf (cs s ! ci)"
    using l live_place [OF l(2), of ci] assms(3) by (auto simp: upd_client_nth)
  have "sound ?s s'"
  proof (rule take_request_cases [OF assms(1,3)])
    fix m st assume "send_basic_response_and_close malloc ci m st ?s = Inr s'" "\<bar>st\<bar> < 10 ^ 10"
    then show ?thesis by (rule basic_response_inv [OF _ l(2) l1(1) assms(4)])
  next
    fix mn n assume a: "mn \<in> {0, 1}" "n \<le> bused (inbuf (cs s ! ci))"
      "s' = upd_client ci (\<lambda>c. c\<lparr>state := C_STATUS, c_minor := mn, connheader := - 1, request_length := n\<rparr>) ?s"
    show ?thesis unfolding a(3) using a(1,2) l1 by (intro upd_client_sound [OF l(2) l1(1)]) (auto simp: keeps_def client_ok_def)
  qed (use l in \<open>simp add: sound_def\<close>)
  then show ?thesis by (simp add: sound_def)
qed

lemma wait_request_inv:
  "http_server_wait_request malloc envs r s = Inr (out, r', s') \<Longrightarrow> server_inv s \<Longrightarrow> malloc_ok malloc \<Longrightarrow> sound s s'"
proof (induction malloc envs r s rule: http_server_wait_request.induct)
  case (1 malloc envs r s)
  show ?case
  proof (cases "qused s = 0")
    case True
    show ?thesis
    proof (cases envs)
      case Nil
      then show ?thesis using "1.prems" True by (simp add: http_server_wait_request.simps [of malloc "[]" r s] sound_def)
    next
      case (Cons env es)
      then obtain s1 where s1: "process_io malloc env s = Inr s1" "http_server_wait_request malloc es r s1 = Inr (out, r', s')"
        using "1.prems"(1) True by (auto simp: http_server_wait_request.simps [of malloc "env # es" r s] rbind_eq_Inr)
      have so: "sound s s1" by (rule process_io_inv [OF s1(1) "1.prems"(2) True "1.prems"(3)])
      then have "sound s1 s'" using "1.IH"(1) [OF True Cons s1] "1.prems"(3) by (simp add: sound_def)
      with so show ?thesis by (rule sound_trans)
    qed
  next
    case False
    obtain ci s1 where s1: "pop_client s = Inr (ci, s1)" "server_inv s1" "cs s1 = cs s" "ci < MAX_CLIENTS s"
        "state (cs s ! ci) = C_FREE \<longrightarrow> inbuf (cs s ! ci) = empty_iobuf"
      using pop_client_ok [OF "1.prems"(2)] False by auto
    then obtain o2 r2 s2 where s2: "take_request malloc ci r s1 = Inr (o2, r2, s2)"
        "(if o2 \<noteq> None then Inr (o2, r2, s2) else http_server_wait_request malloc envs r2 s2) = Inr (out, r', s')"
      using "1.prems"(1) False by (auto simp: http_server_wait_request.simps [of malloc envs] rbind_eq_Inr)
    have so: "sound s s2"
      using take_request_inv [OF s2(1) s1(2) _ "1.prems"(3)] s1 by (auto simp: sound_def)
    show ?thesis
    proof (cases "o2 \<noteq> None")
      case True
      then show ?thesis using s2(2) so by simp
    next
      case no: False
      then have "http_server_wait_request malloc envs r2 s2 = Inr (out, r', s')" using s2(2) by simp
      then have "sound s2 s'" using "1.IH"(2) [OF False s1(1) refl s2(1) refl refl no] so "1.prems"(3) by (simp add: sound_def)
      with so show ?thesis by (rule sound_trans)
    qed
  qed
qed

subsection \<open>The response\<close>

text \<open>A handle that names no free client, as those that \<^verbatim>\<open>http_server_wait_request\<close> returned.\<close>

definition handle_ok :: "server \<Rightarrow> u32 \<Rightarrow> bool" where
  "handle_ok s h \<longleftrightarrow> (\<forall>ci. client_from_handle s h = Some ci \<longrightarrow> ci \<in> set (live s))"

lemma handle_live: "handle_ok s h \<Longrightarrow> client_from_handle s h = Some ci \<Longrightarrow> ci \<in> set (live s)"
  by (simp add: handle_ok_def)

text \<open>What a call leaves behind: the invariant, and a handle that still names its client or none.\<close>

definition keeps_handle :: "u32 \<Rightarrow> server \<Rightarrow> server \<Rightarrow> bool" where
  "keeps_handle h s s' \<longleftrightarrow> sound s s' \<and> handle_ok s' h"

lemma keeps_handle_close:
  assumes "server_inv s" "ci \<in> set (live s)" "client_from_handle s h = Some ci" "close_client ci s = Inr s'"
  shows "keeps_handle h s s'"
  using close_client_sound [OF assms(1,2,4)] close_client_handle [OF assms] by (simp add: keeps_handle_def handle_ok_def)

lemma keeps_handle_refl: "server_inv s \<Longrightarrow> handle_ok s h \<Longrightarrow> keeps_handle h s s"
  by (simp add: keeps_handle_def sound_def)

lemma keeps_handle_trans: "keeps_handle h s s1 \<Longrightarrow> keeps_handle h s1 s2 \<Longrightarrow> keeps_handle h s s2"
  by (auto simp: keeps_handle_def sound_def)

lemma client_from_handle_cong:
  assumes "ncs s' = ncs s" "gen (cs s' ! ci) = gen (cs s ! ci)" "client_from_handle s h = Some ci"
  shows "client_from_handle s' h = Some ci"
  using assms by (auto simp: client_from_handle_def Let_def split: if_splits)

lemma same_handle:
  assumes "sound s s'" "live s' = live s" "ncs s' = ncs s" "gen (cs s' ! ci) = gen (cs s ! ci)" "client_from_handle s h = Some ci"
    "ci \<in> set (live s)"
  shows "keeps_handle h s s'" "client_from_handle s' h = Some ci"
  using assms client_from_handle_cong [OF assms(3-5)] by (auto simp: keeps_handle_def handle_ok_def)

lemma wrote_handle:
  assumes "wrote ci str s s'" "server_inv s" "client_from_handle s h = Some ci" "ci \<in> set (live s)"
  shows "keeps_handle h s s'" "client_from_handle s' h = Some ci"
  using same_handle [OF wrote_sound [OF assms(1)] _ _ wrote_client(3) [OF assms(1,2,4)] assms(3,4)] assms(1)
  by (auto simp: wrote_def)

lemma upd_handle:
  assumes "server_inv s" "client_from_handle s h = Some ci" "ci \<in> set (live s)" "keeps f (cs s ! ci)" "gen (f (cs s ! ci)) = gen (cs s ! ci)"
  shows "keeps_handle h s (upd_client ci f s)" "client_from_handle (upd_client ci f s) h = Some ci"
proof -
  have "ci < MAX_CLIENTS s" using live_place [OF assms(1,3)] by metis
  then have "gen (cs (upd_client ci f s) ! ci) = gen (cs s ! ci)" using assms(5) by (simp add: upd_client_nth)
  then show "keeps_handle h s (upd_client ci f s)" "client_from_handle (upd_client ci f s) h = Some ci"
    using same_handle [OF upd_client_sound [OF assms(1,3,4)] _ _ _ assms(2,3)] by auto
qed

lemma status_line_short:
  assumes "m \<in> {0, 1}" "\<bar>status\<bar> < 10 ^ 10"
  shows "length (''HTTP/1.'' @ show_int m @ '' '' @ show_int status @ '' '' @ reason_phrase status @ CRLF) < 512"
proof -
  have "length (show_int status) \<le> 11" using length_show_int [OF assms(2)] by simp
  moreover have "length (show_int m) \<le> 2" using length_show_int [of m 1] assms(1) by auto
  ultimately show ?thesis using length_reason_phrase [of status] by simp
qed

text \<open>The name that is compared is the whole text, so that no header is recognised: every text with a
  colon is passed on as it is.\<close>

lemma parse_header_eq:
  "http_server_parse_header hdr = (if CHR '':'' \<in> set hdr then Some \<lparr>h_name = hdr, h_value = drop (skip_while (\<lambda>c. c \<noteq> CHR '':'') hdr 0 + 1) hdr\<rparr> else None)"
proof -
  have "skip_while (\<lambda>c. c \<noteq> CHR '':'') hdr 0 = length (takeWhile (\<lambda>c. c \<noteq> CHR '':'') hdr)" by (simp add: skip_while_eq)
  moreover have "length (takeWhile (\<lambda>c. c \<noteq> CHR '':'') hdr) = length hdr \<longleftrightarrow> CHR '':'' \<notin> set hdr"
    by (induction hdr) auto
  ultimately show ?thesis by (simp add: http_server_parse_header_def Let_def)
qed

lemma append_header_eq:
  "http_server_append_header malloc h hdr s =
     (case client_from_handle s h of
        None \<Rightarrow> Inr s
      | Some ci \<Rightarrow>
          if state (cs s ! ci) \<noteq> C_HEADER \<or> CHR '':'' \<notin> set hdr then Inr s
          else rbind (http_server_append_output malloc ci hdr s) (\<lambda>(ok, s).
            if \<not> ok then Inr s
            else rbind (http_server_append_output malloc ci CRLF s) (\<lambda>(ok, s). if ok then Inr s else close_client ci s)))"
proof -
  have "\<not> match_header_name hdr ''Content-Length''" "\<not> match_header_name hdr ''Connection''" if "CHR '':'' \<in> set hdr"
    using that by (auto simp: match_header_name_def string_match_iff)
  then show ?thesis by (simp add: http_server_append_header_def parse_header_eq split: option.split)
qed

end
