(* ===== verification/HttpRoom.thy ===== *)
theory HttpRoom
  imports HttpCalls
begin

section \<open>The HTTP server: the queue never overflows\<close>

text \<open>
  The queue has room for every client that could be put there: the entries it holds and the clients whose
  request is being answered are together at most \<^verbatim>\<open>MAX_CLIENTS\<close>, also when entries of closed clients stay behind.
\<close>

definition busy :: "client \<Rightarrow> bool" where
  "busy c \<longleftrightarrow> state c \<notin> {C_IDLE, C_QUEUED}"

definition load :: "nat \<Rightarrow> server \<Rightarrow> nat" where
  "load i s = qused s + card {ci \<in> set (live s). busy (cs s ! ci) \<or> i \<le> the (pitem (cs s ! ci))}"

definition room_ok :: "server \<Rightarrow> bool" where
  "room_ok s \<longleftrightarrow> qused s + card {ci \<in> set (live s). busy (cs s ! ci)} \<le> MAX_CLIENTS s"

text \<open>What one client counts for does not grow.\<close>

lemma room_mono:
  assumes "room_ok s" "MAX_CLIENTS s' = MAX_CLIENTS s" "set (live s') \<subseteq> set (live s)" "qused s' \<le> qused s"
    "\<And>ci. ci \<in> set (live s') \<Longrightarrow> busy (cs s' ! ci) \<Longrightarrow> busy (cs s ! ci)"
  shows "room_ok s'"
proof -
  have "card {ci \<in> set (live s'). busy (cs s' ! ci)} \<le> card {ci \<in> set (live s). busy (cs s ! ci)}"
    using assms(3,5) by (intro card_mono) auto
  then show ?thesis using assms(1,2,4) by (simp add: room_ok_def)
qed

text \<open>A client that is no longer busy makes room for one entry.\<close>

lemma room_release:
  assumes "room_ok s" "MAX_CLIENTS s' = MAX_CLIENTS s" "set (live s') = set (live s)" "qused s' \<le> Suc (qused s)"
    "\<And>cj. cj \<noteq> ci \<Longrightarrow> cs s' ! cj = cs s ! cj" "ci \<in> set (live s)" "busy (cs s ! ci)" "\<not> busy (cs s' ! ci)"
  shows "room_ok s'"
proof -
  have ci: "ci \<in> {cj \<in> set (live s). busy (cs s ! cj)}" using assms(6,7) by simp
  have "{cj \<in> set (live s'). busy (cs s' ! cj)} \<subseteq> {cj \<in> set (live s). busy (cs s ! cj)} - {ci}"
    using assms(3,5,8) by auto (metis assms(5,8))
  then have "card {cj \<in> set (live s'). busy (cs s' ! cj)} \<le> card ({cj \<in> set (live s). busy (cs s ! cj)} - {ci})" by (intro card_mono) auto
  also have "Suc \<dots> = card {cj \<in> set (live s). busy (cs s ! cj)}" using card_Suc_Diff1 [OF _ ci] by simp
  finally show ?thesis using assms(1,2,4) by (simp add: room_ok_def)
qed

text \<open>Taking an entry from the queue makes room for one busy client.\<close>

lemma room_take:
  assumes "room_ok s" "MAX_CLIENTS s' = MAX_CLIENTS s" "set (live s') = set (live s)" "Suc (qused s') \<le> qused s"
    "\<And>cj. cj \<noteq> ci \<Longrightarrow> cs s' ! cj = cs s ! cj"
  shows "room_ok s'"
proof -
  have "{cj \<in> set (live s'). busy (cs s' ! cj)} \<subseteq> insert ci {cj \<in> set (live s). busy (cs s ! cj)}"
    using assms(3,5) by auto
  then have "card {cj \<in> set (live s'). busy (cs s' ! cj)} \<le> card (insert ci {cj \<in> set (live s). busy (cs s ! cj)})" by (intro card_mono) auto
  also have "\<dots> \<le> Suc (card {cj \<in> set (live s). busy (cs s ! cj)})" by (intro card_insert_le_m1) auto
  finally show ?thesis using assms(1,2,4) by (simp add: room_ok_def)
qed

text \<open>A client in use has room for itself in the queue.\<close>

lemma room_qused: "room_ok s \<Longrightarrow> ci \<in> set (live s) \<Longrightarrow> busy (cs s ! ci) \<Longrightarrow> qused s < MAX_CLIENTS s"
proof -
  assume a: "room_ok s" "ci \<in> set (live s)" "busy (cs s ! ci)"
  then have "0 < card {cj \<in> set (live s). busy (cs s ! cj)}" by (subst card_gt_0_iff) auto
  then show ?thesis using a(1) by (simp add: room_ok_def)
qed

lemma close_frame:
  assumes "server_inv s" "ci \<in> set (live s)" "close_client ci s = Inr s'"
  shows "server_inv s'" "set (live s') = set (live s) - {ci}" "qused s' = qused s" "MAX_CLIENTS s' = MAX_CLIENTS s"
    "\<And>cj. cj \<in> set (live s') \<Longrightarrow> state (cs s' ! cj) = state (cs s ! cj)"
    "\<And>cj. cj \<in> set (live s') \<Longrightarrow> pitem (cs s' ! cj) = (if pitem (cs s ! cj) = Some (ncs s) then pitem (cs s ! ci) else pitem (cs s ! cj))"
proof -
  obtain i where i: "i < ncs s" "pis s ! i = ci" "pitem (cs s ! ci) = Some (Suc i)" using live_place [OF assms(1,2)] by metis
  have s': "s' = closed_at ci i s" using close_client_eq [OF assms(1) i(1,2)] assms(3) by simp
  show "server_inv s'" "qused s' = qused s" "MAX_CLIENTS s' = MAX_CLIENTS s" and l: "set (live s') = set (live s) - {ci}"
    using close_client_ok [OF assms(1,2)] assms(3) by auto
  fix cj assume "cj \<in> set (live s')"
  then have cj: "cj \<in> set (live s)" "cj \<noteq> ci" using l by auto
  obtain j where j: "j < ncs s" "pis s ! j = cj" "pitem (cs s ! cj) = Some (Suc j)" "cj < MAX_CLIENTS s" using live_place [OF assms(1) cj(1)] by metis
  have "pitem (cs s ! (pis s ! (ncs s - 1))) = Some (ncs s)"
    using server_invD(3) [OF assms(1)] i(1) by (simp add: places_ok_def)
  then have "cj = pis s ! (ncs s - 1) \<longleftrightarrow> Suc j = ncs s" using j(2,3) by (metis diff_Suc_1 option.inject)
  then show "state (cs s' ! cj) = state (cs s ! cj)"
      "pitem (cs s' ! cj) = (if pitem (cs s ! cj) = Some (ncs s) then pitem (cs s ! ci) else pitem (cs s ! cj))"
    unfolding s' closed_at_nth [OF assms(1) i(1,2) j(4)] using cj(2) i(3) j(3) by (simp_all add: Let_def)
qed

lemma close_room:
  assumes "server_inv s" "ci \<in> set (live s)" "close_client ci s = Inr s'" "room_ok s"
  shows "room_ok s'"
proof (rule room_mono [OF assms(4)])
  note f = close_frame [OF assms(1-3)]
  show "MAX_CLIENTS s' = MAX_CLIENTS s" "set (live s') \<subseteq> set (live s)" "qused s' \<le> qused s" using f(2-4) by auto
  show "busy (cs s ! cj)" if "cj \<in> set (live s')" "busy (cs s' ! cj)" for cj using f(5) [OF that(1)] that(2) by (simp add: busy_def)
qed

text \<open>The client at \<open>ci\<close> changes, its place stays, and it may go to the queue.\<close>

definition touches :: "nat \<Rightarrow> server \<Rightarrow> server \<Rightarrow> bool" where
  "touches ci s s' \<longleftrightarrow> live s' = live s \<and> ncs s' = ncs s \<and> MAX_CLIENTS s' = MAX_CLIENTS s \<and> (\<forall>cj. cj \<noteq> ci \<longrightarrow> cs s' ! cj = cs s ! cj)
     \<and> pitem (cs s' ! ci) = pitem (cs s ! ci)
     \<and> (qused s' = qused s \<and> state (cs s' ! ci) = state (cs s ! ci) \<or> qused s' = Suc (qused s) \<and> state (cs s' ! ci) = C_QUEUED)"

lemma touches_upd:
  assumes "ci < MAX_CLIENTS s" "pitem (f (cs s ! ci)) = pitem (cs s ! ci)" "state (f (cs s ! ci)) = state (cs s ! ci)"
  shows "touches ci s (upd_client ci f s)"
  using assms by (auto simp: touches_def upd_client_def live_def)

lemma touches_pollout: "set_pollout v ci s = Inr s' \<Longrightarrow> touches ci s s' \<and> cs s' = cs s \<and> qused s' = qused s"
  by (auto simp: set_pollout_def touches_def rbind_eq_Inr live_def split: option.splits)

lemma socket_input_touches:
  assumes "socket_input malloc rs ci s = Inr (ok, s')" "ci < MAX_CLIENTS s"
  shows "touches ci s s'"
proof -
  obtain ok1 b where b: "input_loop malloc rs (inbuf (cs s ! ci)) = Inr (ok1, b)"
    using assms(1) by (auto simp: socket_input_def rbind_eq_Inr)
  define s1 where "s1 = upd_client ci (\<lambda>c. c\<lparr>inbuf := b\<rparr>) s"
  have s1: "touches ci s s1" "qused s1 = qused s" unfolding s1_def using assms(2) by (auto intro!: touches_upd)
  consider "s' = s1" | s2 where "push_client ci s1 = Inr s2" "s' = set_state ci C_QUEUED s2"
    using assms(1) unfolding socket_input_def b rbind_Inr prod.case Let_def s1_def [symmetric]
    by (auto simp: rbind_eq_Inr split: if_splits)
  then show ?thesis
  proof cases
    case 1
    with s1 show ?thesis by simp
  next
    case 2
    have "s2 = s1\<lparr>qdata := qdata s2, qused := Suc (qused s1)\<rparr>" using 2(1) by (auto simp: push_client_def rbind_eq_Inr)
    then have "ncs s2 = ncs s1" "pis s2 = pis s1" "cs s2 = cs s1" "qused s2 = Suc (qused s1)"
      by (metis server.simps server.ext_inject server.surjective server.update_convs)+
    then show ?thesis using s1 assms(2) unfolding 2(2) by (auto simp: touches_def upd_client_def live_def)
  qed
qed

lemma touches_trans:
  assumes "touches ci s s1" "touches ci s1 s2" "qused s1 = qused s \<or> qused s2 = qused s1"
  shows "touches ci s s2"
  using assms by (auto simp: touches_def)

lemma socket_output_touches:
  assumes "socket_output rs ci s = Inr (ok, bs, s')" "ci < MAX_CLIENTS s"
  shows "touches ci s s' \<and> qused s' = qused s"
proof -
  define c where "c = cs s ! ci"
  define limit where "limit = (if state c = C_CONTENT then content_length_offset c else bused (outbuf c))"
  obtain ok1 sent where ls: "send_loop rs 0 limit 0 = (ok1, sent)" by (cases "send_loop rs 0 limit 0")
  define s1 where "s1 = (if state c = C_CONTENT then upd_client ci (\<lambda>c. c\<lparr>content_length_offset := content_length_offset c - sent\<rparr>) s else s)"
  have s1: "touches ci s s1 \<and> qused s1 = qused s \<and> ci < MAX_CLIENTS s1"
    using assms(2) by (auto simp: s1_def intro!: touches_upd) (simp add: touches_def)
  consider "s' = s" | s2 b where "(if sent = limit then set_pollout False ci s1 else Inr s1) = Inr s2" "s' = upd_client ci (\<lambda>c. c\<lparr>outbuf := b\<rparr>) s2"
    using assms(1) unfolding socket_output_def Let_def c_def [symmetric] limit_def [symmetric] ls prod.case s1_def [symmetric]
    by (auto simp: rbind_eq_Inr split: if_splits)
  then show ?thesis
  proof cases
    case 1
    then show ?thesis by (simp add: touches_def)
  next
    case 2
    have s2: "touches ci s1 s2 \<and> cs s2 = cs s1 \<and> qused s2 = qused s1"
      using 2(1) touches_pollout [of False ci s1 s2] by (auto simp: touches_def split: if_splits)
    have "touches ci s2 s'" unfolding 2(2) using s1 s2 by (intro touches_upd) auto
    then show ?thesis using s1 s2 touches_trans [of ci s s1 s2] touches_trans [of ci s s2 s'] 2(2) by simp
  qed
qed

text \<open>A client that was handled no longer counts for its place.\<close>

lemma load_keep:
  assumes "touches ci s s'" "server_inv s" "ci \<in> set (live s)" "pitem (cs s ! ci) = Some i"
  shows "load (Suc i) s' \<le> load i s"
proof -
  let ?L = "{cj \<in> set (live s). busy (cs s ! cj) \<or> i \<le> the (pitem (cs s ! cj))}"
  let ?R = "{cj \<in> set (live s'). busy (cs s' ! cj) \<or> Suc i \<le> the (pitem (cs s' ! cj))}"
  have sub: "?R \<subseteq> ?L"
  proof
    fix cj assume "cj \<in> ?R"
    then show "cj \<in> ?L" using assms(1,3,4) by (cases "cj = ci") (auto simp: touches_def)
  qed
  have ci: "ci \<in> ?L" using assms(3,4) by simp
  show ?thesis
  proof (cases "qused s' = qused s")
    case True
    then show ?thesis using card_mono [OF _ sub] by (simp add: load_def)
  next
    case False
    then have q: "qused s' = Suc (qused s)" "state (cs s' ! ci) = C_QUEUED" using assms(1) by (auto simp: touches_def)
    then have "ci \<notin> ?R" using assms(1,4) by (auto simp: touches_def busy_def)
    then have "card ?R \<le> card (?L - {ci})" using sub by (intro card_mono) auto
    also have "Suc \<dots> = card ?L" using card_Suc_Diff1 [OF _ ci] by simp
    finally show ?thesis using q(1) by (simp add: load_def)
  qed
qed

lemma load_shut:
  assumes "touches ci s s1" "server_inv s" "server_inv s1" "ci \<in> set (live s)" "pitem (cs s ! ci) = Some i" "close_client ci s1 = Inr s'"
  shows "load i s' \<le> load i s"
proof -
  let ?L = "{cj \<in> set (live s). busy (cs s ! cj) \<or> i \<le> the (pitem (cs s ! cj))}"
  let ?R = "{cj \<in> set (live s'). busy (cs s' ! cj) \<or> i \<le> the (pitem (cs s' ! cj))}"
  have t: "live s1 = live s" "ncs s1 = ncs s" "pitem (cs s1 ! ci) = Some i" "\<And>cj. cj \<noteq> ci \<Longrightarrow> cs s1 ! cj = cs s ! cj" "qused s1 \<le> Suc (qused s)"
    using assms(1,5) by (auto simp: touches_def)
  note f = close_frame [OF assms(3) _ assms(6)]
  have ci: "ci \<in> set (live s1)" using assms(4) t(1) by simp
  have "i \<le> ncs s" using live_place [OF assms(2,4)] assms(5) by (metis Suc_leI option.inject)
  have sub: "?R \<subseteq> ?L - {ci}"
  proof
    fix cj assume "cj \<in> ?R"
    then have cj: "cj \<in> set (live s')" "busy (cs s' ! cj) \<or> i \<le> the (pitem (cs s' ! cj))" by auto
    have l: "cj \<in> set (live s)" "cj \<noteq> ci" using cj(1) f(2) [OF ci] t(1) by auto
    have "busy (cs s ! cj) \<or> i \<le> the (pitem (cs s ! cj))"
      using cj(2) f(5,6) [OF ci cj(1)] t(2,3) t(4) [OF l(2)] \<open>i \<le> ncs s\<close> by (auto simp: busy_def split: if_splits)
    with l show "cj \<in> ?L - {ci}" by simp
  qed
  have inL: "ci \<in> ?L" using assms(4,5) by simp
  have "card ?R \<le> card (?L - {ci})" using sub by (intro card_mono) auto
  also have "Suc \<dots> = card ?L" using card_Suc_Diff1 [OF _ inL] by simp
  finally show ?thesis using f(3) [OF ci] t(5) by (simp add: load_def)
qed

lemma client_events_load:
  assumes "client_events malloc env i s = Inr (shut, s')" "server_inv s" "0 < i" "i \<le> ncs s" "qused s < MAX_CLIENTS s" "malloc_ok malloc"
  shows "load (if shut then i else Suc i) s' \<le> load i s"
proof -
  define ci where "ci = pis s ! (i - 1)"
  have i: "i - 1 < ncs s" "Suc (i - 1) = i" using assms(3,4) by auto
  have l: "ci \<in> set (live s)" unfolding ci_def by (rule live_nth [OF assms(2) i(1)])
  have p: "pitem (cs s ! ci) = Some i" using server_invD(3) [OF assms(2)] i by (simp add: places_ok_def ci_def)
  have lt: "ci < MAX_CLIENTS s" using live_place [OF assms(2) l] by metis
  define p0 where "p0 = ps s ! i"
  have rd: "rd (pis s) (i - 1) = Inr ci" "rd (ps s) i = Inr p0" "rd (cs s) ci = Inr (cs s ! ci)"
    using server_invD(1) [OF assms(2)] i(1) assms(4) lt by (simp_all add: arrays_ok_def ci_def p0_def)
  have "rbind (if rev_in p0 then socket_input malloc (recvs env (fd p0)) ci s else Inr (True, s)) (\<lambda>(ok, s).
     rbind (if ok \<and> rev_out p0 then rbind (socket_output (sends env (fd p0)) ci s) (\<lambda>(ok, _, s). Inr (ok, s)) else Inr (ok, s)) (\<lambda>(ok, s).
       if ok then Inr (False, s) else rbind (close_client ci s) (\<lambda>s. Inr (True, s)))) = Inr (shut, s')"
    using assms(1) p unfolding client_events_def rd rbind_Inr by simp
  then obtain ok s1 where e: "(if rev_in p0 then socket_input malloc (recvs env (fd p0)) ci s else Inr (True, s)) = Inr (ok, s1)"
      "rbind (if ok \<and> rev_out p0 then rbind (socket_output (sends env (fd p0)) ci s1) (\<lambda>(ok, _, s). Inr (ok, s)) else Inr (ok, s1)) (\<lambda>(ok, s).
       if ok then Inr (False, s) else rbind (close_client ci s) (\<lambda>s. Inr (True, s))) = Inr (shut, s')"
    unfolding rbind_eq_Inr [of "if rev_in p0 then _ else _"] by (elim exE conjE) (simp split: prod.splits)
  then obtain ok2 s2 where o: "(if ok \<and> rev_out p0 then rbind (socket_output (sends env (fd p0)) ci s1) (\<lambda>(ok, _, s). Inr (ok, s)) else Inr (ok, s1)) = Inr (ok2, s2)"
      "(if ok2 then Inr (False, s2) else rbind (close_client ci s2) (\<lambda>s. Inr (True, s))) = Inr (shut, s')"
    unfolding rbind_eq_Inr [of "if ok \<and> rev_out p0 then _ else _"] by (elim exE conjE) (simp split: prod.splits)
  have s1: "touches ci s s1" using e(1) socket_input_touches [OF _ lt] by (auto simp: touches_def split: if_splits)
  have inv1: "server_inv s1" "ci \<in> set (live s1)"
    using e(1) socket_input_ok [OF assms(2) l assms(5,6), of "recvs env (fd p0)"] assms(2) l by (auto split: if_splits)
  have p1: "ci < MAX_CLIENTS s1" using live_place [OF inv1] by metis
  have s2: "touches ci s1 s2 \<and> qused s2 = qused s1"
    using o(1) socket_output_touches [OF _ p1] by (auto simp: touches_def rbind_eq_Inr split: if_splits)
  have inv2: "server_inv s2" using o(1) socket_output_ok [OF inv1, of "sends env (fd p0)"] inv1(1) by (auto simp: rbind_eq_Inr split: if_splits)
  have t: "touches ci s s2" using touches_trans [OF s1] s2 by blast
  show ?thesis
    using o(2) load_keep [OF t assms(2) l p] load_shut [OF t assms(2) inv2 l p] by (auto simp: rbind_eq_Inr split: if_splits)
qed

lemma qused_load: "server_inv s \<Longrightarrow> 0 < i \<Longrightarrow> i \<le> ncs s \<Longrightarrow> load i s \<le> N \<Longrightarrow> qused s < N"
proof -
  assume a: "server_inv s" "0 < i" "i \<le> ncs s" "load i s \<le> N"
  let ?ci = "pis s ! (i - 1)"
  have "i - 1 < ncs s" using a(2,3) by auto
  then have "?ci \<in> {ci \<in> set (live s). busy (cs s ! ci) \<or> i \<le> the (pitem (cs s ! ci))}"
    using server_invD(3) [OF a(1)] live_nth [OF a(1)] a(2) by (simp add: places_ok_def)
  then have "0 < card {ci \<in> set (live s). busy (cs s ! ci) \<or> i \<le> the (pitem (cs s ! ci))}" by (subst card_gt_0_iff) auto
  then show ?thesis using a(4) by (simp add: load_def)
qed

lemma client_loop_room:
  assumes "client_loop malloc env i s = Inr s'" "server_inv s" "0 < i" "load i s \<le> MAX_CLIENTS s" "malloc_ok malloc"
  shows "room_ok s'"
  using assms(1-4)
proof (induction "ncs s + 1 - i" arbitrary: i s rule: less_induct)
  case less
  show ?case
  proof (cases "i < ncs s + 1")
    case False
    then have "s' = s" using less.prems(1) by (simp add: client_loop.simps [of malloc env i s])
    moreover have "card {ci \<in> set (live s). busy (cs s ! ci)} \<le> card {ci \<in> set (live s). busy (cs s ! ci) \<or> i \<le> the (pitem (cs s ! ci))}"
      by (intro card_mono) auto
    ultimately show ?thesis using less.prems(4) by (simp add: room_ok_def load_def)
  next
    case True
    have lt: "i \<le> ncs s" "qused s < MAX_CLIENTS s" using True qused_load [OF less.prems(2,3) _ less.prems(4)] by auto
    obtain shut s1 where s1: "client_events malloc env i s = Inr (shut, s1)" "client_loop malloc env (if shut then i else i + 1) s1 = Inr s'"
      using less.prems(1) True by (auto simp: client_loop.simps [of malloc env i s] rbind_eq_Inr)
    have inv: "server_inv s1" "MAX_CLIENTS s1 = MAX_CLIENTS s"
      using client_events_ok [OF less.prems(2,3) lt assms(5), of env] s1(1) by auto
    have n: "ncs s = (if shut then Suc (ncs s1) else ncs s1)" using client_events_ncs [OF s1(1)] .
    have "load (if shut then i else i + 1) s1 \<le> MAX_CLIENTS s1"
      using client_events_load [OF s1(1) less.prems(2,3) lt assms(5)] less.prems(4) inv(2) by (cases shut) simp_all
    then show ?thesis using less.hyps [OF _ s1(2) inv(1)] n True less.prems(3) by (auto split: if_splits)
  qed
qed

lemma process_io_room:
  assumes "process_io malloc env s = Inr s'" "server_inv s" "qused s = 0" "malloc_ok malloc" "room_ok s"
  shows "room_ok s'"
proof (cases "poll_ok env")
  case True
  note pm = poll_mark_inv(1) [OF assms(2), of env] poll_mark_inv(2,3) [of env s]
  obtain s1 where s1: "(if listen_ready env then accept_loop (accepts env) (poll_mark env s) else Inr (poll_mark env s)) = Inr s1"
      "client_loop malloc env 1 s1 = Inr s'"
    using assms(1) True by (auto simp: process_io_def Let_def rbind_eq_Inr)
  have "sound (poll_mark env s) s1 \<and> qused s1 = qused (poll_mark env s)"
    using s1(1) accept_loop_inv [OF _ pm(1)] pm(1) by (auto simp: sound_def split: if_splits)
  then have 1: "server_inv s1" "qused s1 = 0" using pm assms(3) by (auto simp: sound_def)
  have "card {ci \<in> set (live s1). busy (cs s1 ! ci) \<or> 1 \<le> the (pitem (cs s1 ! ci))} \<le> card (set (live s1))" by (intro card_mono) auto
  also have "\<dots> \<le> length (live s1)" by (rule card_length)
  also have "\<dots> \<le> MAX_CLIENTS s1" using server_invD(1) [OF 1(1)] by (simp add: live_def arrays_ok_def)
  finally show ?thesis using client_loop_room [OF s1(2) 1(1) _ _ assms(4)] 1(2) by (simp add: load_def)
qed (use assms in \<open>simp add: process_io_def\<close>)

subsection \<open>Taking a request\<close>

lemma upd_room:
  assumes "room_ok s" "ci < MAX_CLIENTS s" "busy (f (cs s ! ci)) \<longrightarrow> busy (cs s ! ci)"
  shows "room_ok (upd_client ci f s)"
proof (rule room_mono [OF assms(1)])
  show "busy (cs s ! cj)" if "busy (cs (upd_client ci f s) ! cj)" for cj
    using that assms(2,3) by (cases "cj = ci") (auto simp: upd_client_def)
qed simp_all

lemma wrote_room:
  assumes "wrote ci str s s'" "room_ok s" "ci < MAX_CLIENTS s"
  shows "room_ok s'"
proof (rule room_mono [OF assms(2)])
  note w = wroteD [OF assms(1,3)]
  show "MAX_CLIENTS s' = MAX_CLIENTS s" "set (live s') \<subseteq> set (live s)" using w by auto
  show "qused s' \<le> qused s" using arg_cong [OF w(5), of length] by simp
  obtain b where "cs s' = (cs s)[ci := (cs s ! ci)\<lparr>outbuf := b\<rparr>]" using assms(1) by (auto simp: wrote_def)
  then show "busy (cs s ! cj)" if "busy (cs s' ! cj)" for cj
    using that assms(3) by (cases "cj = ci") (auto simp: busy_def)
qed

lemma basic_response_room:
  assumes "send_basic_response_and_close malloc ci mnr status s = Inr s'" "server_inv s" "ci \<in> set (live s)" "malloc_ok malloc" "\<bar>status\<bar> < 10 ^ 10"
    "room_ok s" "busy (cs s ! ci)"
  shows "room_ok s'"
proof -
  obtain ok str s1 where w: "wrote ci str s s1" and s1: "(if ok then Inr (set_state ci C_CLOSE s1) else close_client ci s1) = Inr s'"
    by (rule basic_response_wrote [OF assms(1-5)])
  have lt: "ci < MAX_CLIENTS s" using live_place [OF assms(2,3)] by metis
  have r: "room_ok s1" by (rule wrote_room [OF w assms(6) lt])
  note c = wrote_client [OF w assms(2,3)]
  have inv: "server_inv s1" "ci < MAX_CLIENTS s1" using wroteD [OF w lt] lt by auto
  have "room_ok (set_state ci C_CLOSE s1)" using upd_room [OF r inv(2)] assms(7) c(2) by (simp add: busy_def)
  then show ?thesis using s1 close_room [OF inv(1) c(1) _ r] by (auto split: if_splits)
qed

lemma take_request_room:
  assumes "take_request malloc ci r s = Inr (out, r', s')" "server_inv s" "ci < MAX_CLIENTS s" "malloc_ok malloc"
    "state (cs s ! ci) = C_FREE \<longrightarrow> inbuf (cs s ! ci) = empty_iobuf" "room_ok (set_state ci C_POPPED s)"
  shows "room_ok s'"
proof -
  let ?s = "set_state ci C_POPPED s"
  note l = take_request_live [OF assms(1-3,5)]
  have b: "busy (cs ?s ! ci)" using assms(3) by (simp add: upd_client_nth busy_def)
  show ?thesis
  proof (rule take_request_cases [OF assms(1,3)])
    fix m st assume "send_basic_response_and_close malloc ci m st ?s = Inr s'" "\<bar>st\<bar> < 10 ^ 10"
    then show ?thesis using basic_response_room [OF _ l(2) _ assms(4) _ assms(6) b] l(1) by simp
  next
    fix mn n assume "s' = upd_client ci (\<lambda>c. c\<lparr>state := C_STATUS, c_minor := mn, connheader := - 1, request_length := n\<rparr>) ?s"
    then show ?thesis using upd_room [OF assms(6)] b assms(3) by simp
  qed (use assms(6) in simp)
qed

lemma wait_request_room:
  "http_server_wait_request malloc envs r s = Inr (out, r', s') \<Longrightarrow> server_inv s \<Longrightarrow> malloc_ok malloc \<Longrightarrow> room_ok s \<Longrightarrow> room_ok s'"
proof (induction malloc envs r s rule: http_server_wait_request.induct)
  case (1 malloc envs r s)
  show ?case
  proof (cases "qused s = 0")
    case True
    show ?thesis
    proof (cases envs)
      case Nil
      then show ?thesis using "1.prems" True by (simp add: http_server_wait_request.simps [of malloc "[]" r s])
    next
      case (Cons env es)
      then obtain s1 where s1: "process_io malloc env s = Inr s1" "http_server_wait_request malloc es r s1 = Inr (out, r', s')"
        using "1.prems"(1) True by (auto simp: http_server_wait_request.simps [of malloc "env # es" r s] rbind_eq_Inr)
      have "sound s s1" "room_ok s1"
        using process_io_inv [OF s1(1) "1.prems"(2) True "1.prems"(3)] process_io_room [OF s1(1) "1.prems"(2) True "1.prems"(3,4)] by auto
      then show ?thesis using "1.IH"(1) [OF True Cons s1] "1.prems"(3) by (simp add: sound_def)
    qed
  next
    case False
    obtain ci s1 where s1: "pop_client s = Inr (ci, s1)" "server_inv s1" "cs s1 = cs s" "ci < MAX_CLIENTS s" "live s1 = live s" "queued s = ci # queued s1"
        "state (cs s ! ci) = C_FREE \<longrightarrow> inbuf (cs s ! ci) = empty_iobuf"
      using pop_client_ok [OF "1.prems"(2)] False by auto
    then obtain o2 r2 s2 where s2: "take_request malloc ci r s1 = Inr (o2, r2, s2)"
        "(if o2 \<noteq> None then Inr (o2, r2, s2) else http_server_wait_request malloc envs r2 s2) = Inr (out, r', s')"
      using "1.prems"(1) False by (auto simp: http_server_wait_request.simps [of malloc envs] rbind_eq_Inr)
    have "qused s = Suc (qused s1)" using arg_cong [OF s1(6), of length] by simp
    then have "room_ok (set_state ci C_POPPED s1)" using s1(3,5) by (intro room_take [OF "1.prems"(4), of _ ci]) (simp_all, simp add: upd_client_def)
    then have r2: "room_ok s2" using take_request_room [OF s2(1) s1(2) _ "1.prems"(3)] s1 by auto
    have so: "sound s1 s2" using take_request_inv [OF s2(1) s1(2) _ "1.prems"(3)] s1 by auto
    show ?thesis
    proof (cases "o2 \<noteq> None")
      case True
      then show ?thesis using s2(2) r2 by simp
    next
      case no: False
      then have "http_server_wait_request malloc envs r2 s2 = Inr (out, r', s')" using s2(2) by simp
      then show ?thesis using "1.IH"(2) [OF False s1(1) refl s2(1) refl refl no] so r2 "1.prems"(3) by (simp add: sound_def)
    qed
  qed
qed

end
