(* ===== verification/HttpReply.thy ===== *)
theory HttpReply
  imports HttpRoom
begin

section \<open>The HTTP server: building a response\<close>

text \<open>
  The calls a program makes to answer a request: none of them touches memory it should not, and together they
  put exactly the response that was asked for into the output of the client.
\<close>

subsection \<open>Calls on one client\<close>

text \<open>The server in order, the handle \<open>h\<close> naming the client \<open>ci\<close>, which is \<open>c\<close>; \<open>e\<close> is what the calls leave alone.\<close>

definition surroundings :: "server \<Rightarrow> nat list \<times> nat \<times> nat" where
  "surroundings s = (queued s, ncs s, MAX_CLIENTS s)"

definition at_client :: "nat \<Rightarrow> u32 \<Rightarrow> nat list \<times> nat \<times> nat \<Rightarrow> server \<Rightarrow> client \<Rightarrow> bool" where
  "at_client ci h e s c \<longleftrightarrow> server_inv s \<and> room_ok s \<and> ci \<in> set (live s) \<and> client_from_handle s h = Some ci \<and> surroundings s = e \<and> cs s ! ci = c"

lemma at_clientD:
  assumes "at_client ci h e s c"
  shows "server_inv s" "ci \<in> set (live s)" "client_from_handle s h = Some ci" "cs s ! ci = c" "client_ok c" "ci < MAX_CLIENTS s"
    "queued s = fst e" "MAX_CLIENTS s = snd (snd e)" "state c \<noteq> C_FREE" "room_ok s"
proof -
  show a: "server_inv s" "ci \<in> set (live s)" "client_from_handle s h = Some ci" "cs s ! ci = c" "queued s = fst e" "MAX_CLIENTS s = snd (snd e)" "room_ok s"
    using assms by (auto simp: at_client_def surroundings_def)
  show "client_ok c" "ci < MAX_CLIENTS s" "state c \<noteq> C_FREE" using live_place [OF a(1,2)] a(4) by metis+
qed

text \<open>What is left when a call returns, the client closed or not.\<close>

definition fine :: "u32 \<Rightarrow> nat \<Rightarrow> server \<Rightarrow> bool" where
  "fine h N s \<longleftrightarrow> server_inv s \<and> room_ok s \<and> MAX_CLIENTS s = N \<and> handle_ok s h"

lemma at_client_fine: "at_client ci h e s c \<Longrightarrow> fine h (snd (snd e)) s"
  by (auto simp: at_client_def fine_def handle_ok_def surroundings_def)

lemma fine_cases:
  assumes "fine h N s"
  obtains "client_from_handle s h = None"
  | ci e c where "at_client ci h e s c" "snd (snd e) = N"
  using assms by (cases "client_from_handle s h") (auto simp: fine_def handle_ok_def at_client_def surroundings_def)

lemma at_upd:
  assumes "at_client ci h e s c" "keeps f c" "gen (f c) = gen c" "busy (f c) \<longrightarrow> busy c"
  shows "at_client ci h e (upd_client ci f s) (f c)"
  using at_clientD [OF assms(1)] assms upd_client_inv [of s ci f] upd_handle(2) [of s h ci f] upd_room [of s ci f]
  by (auto simp: at_client_def surroundings_def upd_client_nth)

lemma at_close:
  assumes "at_client ci h e s c"
  obtains s' where "close_client ci s = Inr s'" "fine h (snd (snd e)) s'"
proof -
  note a = at_clientD [OF assms]
  obtain s' where s': "close_client ci s = Inr s'" "server_inv s'" "MAX_CLIENTS s' = MAX_CLIENTS s" using close_client_ok [OF a(1,2)] by auto
  with close_client_handle [OF a(1-3) s'(1)] a(8) close_room [OF a(1,2) s'(1) a(10)] that show thesis by (auto simp: fine_def handle_ok_def)
qed

text \<open>The text is in the output, or memory ran out and the output is as before.\<close>

definition put :: "iobuf \<Rightarrow> string \<Rightarrow> iobuf \<Rightarrow> bool" where
  "put b str b' \<longleftrightarrow> iobuf_ok b' \<and> content b' = content b @ str \<and> (bdata b \<noteq> None \<or> str \<noteq> [] \<longrightarrow> bdata b' \<noteq> None)"

lemma put_trans: "put b x b1 \<Longrightarrow> put b1 y b2 \<Longrightarrow> put b (x @ y) b2"
  by (auto simp: put_def)

lemma put_bused: "put b str b' \<Longrightarrow> iobuf_ok b \<Longrightarrow> bused b' = bused b + length str"
  using length_content [of b] length_content [of b'] by (auto simp: put_def)

lemma at_wrote:
  assumes "wrote ci str s s'" "at_client ci h e s c"
  shows "\<exists>b. at_client ci h e s' (c\<lparr>outbuf := b\<rparr>) \<and> put (outbuf c) str b"
proof -
  note a = at_clientD [OF assms(2)]
  have "client_from_handle s' h = Some ci" by (rule wrote_handle(2) [OF assms(1) a(1,3,2)])
  then show ?thesis
    using wroteD [OF assms(1) a(6)] assms(2) a wrote_room [OF assms(1) a(10,6)] by (auto simp: at_client_def surroundings_def put_def)
qed

lemma at_append:
  assumes "at_client ci h e s c" "malloc_ok malloc" "bdata (outbuf c) \<noteq> None \<or> length str \<le> 512"
  obtains ok s' b where "http_server_append_output malloc ci str s = Inr (ok, s')" "at_client ci h e s' (c\<lparr>outbuf := b\<rparr>)"
    "put (outbuf c) (if ok then str else []) b" "malloc_total malloc \<Longrightarrow> ok"
proof -
  note a = at_clientD [OF assms(1)]
  have ok: "iobuf_ok (outbuf c)" using a(5) by (simp add: client_ok_def)
  obtain k b where b: "append_output malloc (outbuf (cs s ! ci)) str = Inr (k, b)" "iobuf_ok b" "content b = content (outbuf c) @ (if k then str else [])"
      "malloc_total malloc \<longrightarrow> k"
    using append_output_result [OF ok assms(2,3)] a(4) by blast
  let ?s = "upd_client ci (\<lambda>c. c\<lparr>outbuf := b\<rparr>) s"
  have "bused (outbuf c) \<le> bused b" using b(2,3) ok length_content [OF b(2)] length_content [OF ok] by simp
  then have inv: "server_inv ?s" using a b(2) by (intro upd_client_inv) (auto simp: keeps_def client_ok_def)
  obtain s2 where "set_pollout True ci ?s = Inr s2" using set_pollout_ok [OF inv, of ci True] a(2) by auto
  then obtain s' where s': "http_server_append_output malloc ci str s = Inr (k, s')"
    using b(1) by (cases "k \<and> str \<noteq> []") (auto simp: http_server_append_output_def Let_def)
  show thesis
    using at_wrote [OF append_wrote [OF s' a(1,2) assms(2)] assms(1)] that [OF s'] b(4) by blast
qed

lemma at_append_format:
  assumes "at_client ci h e s c" "malloc_ok malloc" "bdata (outbuf c) \<noteq> None \<or> length str < 512"
  obtains ok s' b where "http_server_append_output_format malloc ci str s = Inr (ok, s')" "at_client ci h e s' (c\<lparr>outbuf := b\<rparr>)"
    "put (outbuf c) (if ok then str else []) b" "malloc_total malloc \<Longrightarrow> ok"
proof -
  note a = at_clientD [OF assms(1)]
  have ok: "iobuf_ok (outbuf c)" using a(5) by (simp add: client_ok_def)
  obtain k b where b: "append_output_format malloc (outbuf (cs s ! ci)) str = Inr (k, b)" "iobuf_ok b"
      "content b = content (outbuf c) @ (if k then str else [])" "malloc_total malloc \<longrightarrow> k"
    using append_output_format_result [OF ok assms(2,3)] a(4) by blast
  let ?s = "upd_client ci (\<lambda>c. c\<lparr>outbuf := b\<rparr>) s"
  have "bused (outbuf c) \<le> bused b" using b(2,3) ok length_content [OF b(2)] length_content [OF ok] by simp
  then have inv: "server_inv ?s" using a b(2) by (intro upd_client_inv) (auto simp: keeps_def client_ok_def)
  obtain s2 where "set_pollout True ci ?s = Inr s2" using set_pollout_ok [OF inv, of ci True] a(2) by auto
  then obtain s' where s': "http_server_append_output_format malloc ci str s = Inr (k, s')"
    using b(1) by (cases "k \<and> str \<noteq> []") (auto simp: http_server_append_output_format_def Let_def)
  show thesis
    using at_wrote [OF append_format_wrote [OF s' a(1,2) assms(2)] assms(1)] that [OF s'] b(4) assms(3) a(4) by blast
qed

lemma at_texts:
  assumes "at_client ci h e s c" "malloc_ok malloc" "\<forall>t \<in> set ts. length t \<le> 512"
  shows "\<exists>ok s'. append_texts malloc ci ts s = Inr (ok, s') \<and> fine h (snd (snd e)) s' \<and> (malloc_total malloc \<longrightarrow> ok)
    \<and> (ok \<longrightarrow> (\<exists>b. at_client ci h e s' (c\<lparr>outbuf := b\<rparr>) \<and> put (outbuf c) (concat ts) b))"
  using assms(1,3)
proof (induction ts arbitrary: s c)
  case Nil
  have "put (outbuf c) [] (outbuf c)" using at_clientD(5) [OF Nil(1)] by (simp add: put_def client_ok_def)
  then have "\<exists>b. at_client ci h e s (c\<lparr>outbuf := b\<rparr>) \<and> put (outbuf c) [] b" using Nil(1) by (intro exI [of _ "outbuf c"]) simp
  then show ?case using at_client_fine [OF Nil(1)] by auto
next
  case (Cons t ts)
  obtain ok s1 b where s1: "http_server_append_output malloc ci t s = Inr (ok, s1)" "at_client ci h e s1 (c\<lparr>outbuf := b\<rparr>)"
      "put (outbuf c) (if ok then t else []) b" "malloc_total malloc \<Longrightarrow> ok"
    using at_append [OF Cons.prems(1) assms(2), of t] Cons.prems(2) by auto
  show ?case
  proof (cases ok)
    case True
    have "\<exists>k s'. append_texts malloc ci ts s1 = Inr (k, s') \<and> fine h (snd (snd e)) s' \<and> (malloc_total malloc \<longrightarrow> k)
        \<and> (k \<longrightarrow> (\<exists>b'. at_client ci h e s' (c\<lparr>outbuf := b'\<rparr>) \<and> put b (concat ts) b'))"
      using Cons.IH [OF s1(2)] Cons.prems(2) by simp
    then show ?thesis using s1 True put_trans by fastforce
  next
    case False
    obtain s2 where "close_client ci s1 = Inr s2" "fine h (snd (snd e)) s2" using at_close [OF s1(2)] .
    then show ?thesis using False s1(1,4) by auto
  qed
qed

subsection \<open>The headers the server adds\<close>

definition connection_header :: "client \<Rightarrow> bool \<Rightarrow> string" where
  "connection_header c keep = (if c_minor c = 1 then (if keep then ''Connection: Keep-Alive'' else ''Connection: Close'') @ CRLF else [])"

text \<open>The client once the special headers are in the output \<open>b\<close>.\<close>

definition headed :: "client \<Rightarrow> bool \<Rightarrow> iobuf \<Rightarrow> client" where
  "headed c keep b = c\<lparr>outbuf := b, keepalive := (if c_minor c = 1 then keep else keepalive c),
     content_length_offset := length (content (outbuf c) @ connection_header c keep @ ''Content-Length: ''),
     content_offset := bused b, state := C_CONTENT\<rparr>"

lemma keepalive_outbuf: "c\<lparr>outbuf := b, keepalive := k\<rparr> = (c :: client)\<lparr>keepalive := k, outbuf := b\<rparr>"
  by simp

lemma connection_part:
  assumes "at_client ci h e s c" "malloc_ok malloc" "state c = C_HEADER"
  shows "\<exists>ok s'. append_connection_header malloc ci s = Inr (ok, s') \<and> fine h (snd (snd e)) s' \<and> (malloc_total malloc \<longrightarrow> ok)
      \<and> (ok \<longrightarrow> (\<exists>b. at_client ci h e s' (c\<lparr>keepalive := (if c_minor c = 1 then wants_keepalive c s else keepalive c), outbuf := b\<rparr>)
           \<and> put (outbuf c) (connection_header c (wants_keepalive c s)) b))"
proof (cases "c_minor c = 1")
  case False
  have "put (outbuf c) [] (outbuf c)" using at_clientD(5) [OF assms(1)] by (simp add: put_def client_ok_def)
  then have "\<exists>b. at_client ci h e s (c\<lparr>outbuf := b\<rparr>) \<and> put (outbuf c) [] b" using assms(1) by (intro exI [of _ "outbuf c"]) simp
  then show ?thesis using False at_client_fine [OF assms(1)] at_clientD(4) [OF assms(1)] by (auto simp: connection_header_def append_connection_header_def)
next
  case True
  define keep where "keep = wants_keepalive c s"
  define str where "str = (if keep then ''Connection: Keep-Alive'' else ''Connection: Close'') @ CRLF"
  have "length str \<le> 512" by (simp add: str_def)
  then obtain ok s1 b where s1: "http_server_append_output malloc ci str s = Inr (ok, s1)" "at_client ci h e s1 (c\<lparr>outbuf := b\<rparr>)"
      "put (outbuf c) (if ok then str else []) b" "malloc_total malloc \<Longrightarrow> ok"
    using at_append [OF assms(1,2), of str] by metis
  let ?s = "upd_client ci (\<lambda>c. c\<lparr>keepalive := keep\<rparr>) s1"
  have "keeps (\<lambda>c. c\<lparr>keepalive := keep\<rparr>) (c\<lparr>outbuf := b\<rparr>)"
    using at_clientD(5,9) [OF s1(2)] by (simp add: keeps_def client_ok_def)
  then have k: "at_client ci h e ?s (c\<lparr>keepalive := keep, outbuf := b\<rparr>)" 
    using at_upd [OF s1(2), of "\<lambda>c. c\<lparr>keepalive := keep\<rparr>"] by (simp add: keepalive_outbuf busy_def)
  obtain s2 where s2: "close_client ci ?s = Inr s2" "fine h (snd (snd e)) s2" using at_close [OF k] .
  have "connection_header c keep = str" using True by (simp add: connection_header_def str_def)
  then show ?thesis
    unfolding append_connection_header_def at_clientD(4) [OF assms(1)] keep_def [symmetric] str_def [symmetric] Let_def if_P [OF True] s1(1) rbind_Inr prod.case s2(1)
    using k s1(3,4) s2(2) at_client_fine [OF k] by (cases ok) auto
qed

lemma special_result:
  assumes "at_client ci h e s c" "malloc_ok malloc" "state c = C_HEADER"
  shows "\<exists>ok s'. append_special_headers malloc ci s = Inr (ok, s') \<and> fine h (snd (snd e)) s' \<and> (malloc_total malloc \<longrightarrow> ok)
      \<and> (ok \<longrightarrow> (\<exists>b. at_client ci h e s' (headed c (wants_keepalive c s) b)
           \<and> put (outbuf c) (connection_header c (wants_keepalive c s) @ ''Content-Length: '' @ replicate 9 (CHR '' '') @ CRLF @ CRLF) b))"
proof -
  let ?N = "snd (snd e)" and ?keep = "wants_keepalive c s"
  define k where "k = (if c_minor c = 1 then ?keep else keepalive c)"
  obtain ok1 s1 where s1: "append_connection_header malloc ci s = Inr (ok1, s1)" "fine h ?N s1" "malloc_total malloc \<longrightarrow> ok1"
      "ok1 \<longrightarrow> (\<exists>b. at_client ci h e s1 (c\<lparr>keepalive := k, outbuf := b\<rparr>) \<and> put (outbuf c) (connection_header c ?keep) b)"
    using connection_part [OF assms] unfolding k_def by blast
  show ?thesis
  proof (cases ok1)
    case False
    then show ?thesis using s1 unfolding append_special_headers_def s1(1) rbind_Inr prod.case by auto
  next
    case True
    then obtain b1 where b1: "at_client ci h e s1 (c\<lparr>keepalive := k, outbuf := b1\<rparr>)" "put (outbuf c) (connection_header c ?keep) b1" using s1(4) by blast
    obtain ok2 s2 where s2: "append_texts malloc ci [''Content-Length: ''] s1 = Inr (ok2, s2)" "fine h ?N s2" "malloc_total malloc \<longrightarrow> ok2"
        "ok2 \<longrightarrow> (\<exists>b. at_client ci h e s2 (c\<lparr>keepalive := k, outbuf := b\<rparr>) \<and> put b1 ''Content-Length: '' b)"
      using at_texts [OF b1(1) assms(2), of "[''Content-Length: '']"] by auto
    show ?thesis
    proof (cases ok2)
      case False
      then show ?thesis using s2 True unfolding append_special_headers_def s1(1) rbind_Inr prod.case s2(1) by auto
    next
      case k2: True
      then obtain b2 where b2: "at_client ci h e s2 (c\<lparr>keepalive := k, outbuf := b2\<rparr>)" "put b1 ''Content-Length: '' b2" using s2(4) by blast
      have ok: "iobuf_ok (outbuf c)" "iobuf_ok b2" using at_clientD(5) [OF assms(1)] b2(2) by (simp_all add: client_ok_def put_def)
      have "put (outbuf c) (connection_header c ?keep @ ''Content-Length: '') b2" by (rule put_trans [OF b1(2) b2(2)])
      then have o: "bused b2 = length (content (outbuf c) @ connection_header c ?keep @ ''Content-Length: '')"
        using put_bused [OF _ ok(1)] length_content [OF ok(1)] by fastforce
      let ?f = "\<lambda>c. c\<lparr>content_length_offset := bused (outbuf c)\<rparr>" and ?c3 = "c\<lparr>keepalive := k, outbuf := b2, content_length_offset := bused b2\<rparr>"
      have "keeps ?f (c\<lparr>keepalive := k, outbuf := b2\<rparr>)" using at_clientD(5,9) [OF b2(1)] assms(3) by (simp add: keeps_def client_ok_def)
      then have c3: "at_client ci h e (upd_client ci ?f s2) ?c3" using at_upd [OF b2(1), of ?f] by (simp add: busy_def)
      obtain ok4 s4 where s4: "append_texts malloc ci [replicate 9 (CHR '' '') @ CRLF, CRLF] (upd_client ci ?f s2) = Inr (ok4, s4)"
          "fine h ?N s4" "malloc_total malloc \<longrightarrow> ok4"
          "ok4 \<longrightarrow> (\<exists>b. at_client ci h e s4 (?c3\<lparr>outbuf := b\<rparr>) \<and> put b2 (replicate 9 (CHR '' '') @ CRLF @ CRLF) b)"
        using at_texts [OF c3 assms(2), of "[replicate 9 (CHR '' '') @ CRLF, CRLF]"] by auto
      have eq: "append_special_headers malloc ci s =
          (if ok4 then Inr (True, upd_client ci (\<lambda>c. c\<lparr>content_offset := bused (outbuf c), state := C_CONTENT\<rparr>) s4) else Inr (False, s4))"
        unfolding append_special_headers_def s1(1) rbind_Inr prod.case s2(1) Let_def s4(1) using True k2 by simp
      show ?thesis
      proof (cases ok4)
        case False
        then show ?thesis using s4 eq by auto
      next
        case k4: True
        then obtain b4 where b4: "at_client ci h e s4 (?c3\<lparr>outbuf := b4\<rparr>)" "put b2 (replicate 9 (CHR '' '') @ CRLF @ CRLF) b4" using s4(4) by blast
        let ?g = "\<lambda>c. c\<lparr>content_offset := bused (outbuf c), state := C_CONTENT\<rparr>"
        have "bused b4 = bused b2 + 13" using put_bused [OF b4(2) ok(2)] by simp
        then have "keeps ?g (?c3\<lparr>outbuf := b4\<rparr>)" using at_clientD(5,9) [OF b4(1)] assms(3) by (simp add: keeps_def client_ok_def)
        then have "at_client ci h e (upd_client ci ?g s4) (?g (?c3\<lparr>outbuf := b4\<rparr>))" using assms(3) by (intro at_upd [OF b4(1)]) (simp_all add: busy_def)
        moreover have "?g (?c3\<lparr>outbuf := b4\<rparr>) = headed c ?keep b4" using o by (simp add: headed_def k_def)
        moreover have "put (outbuf c) (connection_header c ?keep @ ''Content-Length: '' @ replicate 9 (CHR '' '') @ CRLF @ CRLF) b4"
          using put_trans [OF put_trans [OF b1(2) b2(2)] b4(2)] by simp
        ultimately have "at_client ci h e (upd_client ci ?g s4) (headed c ?keep b4)" "fine h ?N (upd_client ci ?g s4)"
            "put (outbuf c) (connection_header c ?keep @ ''Content-Length: '' @ replicate 9 (CHR '' '') @ CRLF @ CRLF) b4"
          using at_client_fine by metis+
        then show ?thesis using eq k4 by auto
      qed
    qed
  qed
qed

subsection \<open>Status, headers and content\<close>

definition status_line :: "client \<Rightarrow> int \<Rightarrow> string" where
  "status_line c status = ''HTTP/1.'' @ show_int (c_minor c) @ '' '' @ show_int status @ '' '' @ reason_phrase status @ CRLF"

lemma at_status:
  assumes "at_client ci h e s c" "malloc_ok malloc" "state c = C_STATUS" "\<bar>status\<bar> < 10 ^ 10"
  shows "\<exists>s'. http_server_set_status malloc h status s = Inr s' \<and> fine h (snd (snd e)) s'
    \<and> (malloc_total malloc \<longrightarrow> (\<exists>b. at_client ci h e s' (c\<lparr>outbuf := b, state := C_HEADER\<rparr>) \<and> put (outbuf c) (status_line c status) b))"
proof -
  note a = at_clientD [OF assms(1)]
  have "c_minor c \<in> {0, 1}" using a(5) assms(3) by (simp add: client_ok_def)
  then have "length (status_line c status) < 512" unfolding status_line_def by (rule status_line_short [OF _ assms(4)])
  then obtain ok s1 b where s1: "http_server_append_output_format malloc ci (status_line c status) s = Inr (ok, s1)"
      "at_client ci h e s1 (c\<lparr>outbuf := b\<rparr>)" "put (outbuf c) (if ok then status_line c status else []) b" "malloc_total malloc \<Longrightarrow> ok"
    using at_append_format [OF assms(1,2)] by metis
  let ?f = "\<lambda>c. c\<lparr>state := C_HEADER\<rparr> :: client"
  have "keeps ?f (c\<lparr>outbuf := b\<rparr>)" using at_clientD(5) [OF s1(2)] assms(3) by (simp add: keeps_def client_ok_def)
  then have u: "at_client ci h e (set_state ci C_HEADER s1) (c\<lparr>outbuf := b, state := C_HEADER\<rparr>)" using at_upd [OF s1(2), of ?f] assms(3) by (simp add: busy_def)
  obtain s2 where s2: "close_client ci s1 = Inr s2" "fine h (snd (snd e)) s2" using at_close [OF s1(2)] .
  have "http_server_set_status malloc h status s = (if ok then Inr (set_state ci C_HEADER s1) else Inr s2)"
    using a(3,4) assms(3) s1(1) s2(1) by (simp add: http_server_set_status_def status_line_def)
  then show ?thesis using u s1(3,4) s2(2) at_client_fine [OF u] by (cases ok) auto
qed

lemma at_header:
  assumes "at_client ci h e s c" "malloc_ok malloc" "state c = C_HEADER" "CHR '':'' \<in> set hdr" "bdata (outbuf c) \<noteq> None \<or> length hdr \<le> 512"
  shows "\<exists>s'. http_server_append_header malloc h hdr s = Inr s' \<and> fine h (snd (snd e)) s'
    \<and> (malloc_total malloc \<longrightarrow> (\<exists>b. at_client ci h e s' (c\<lparr>outbuf := b\<rparr>) \<and> put (outbuf c) (hdr @ CRLF) b))"
proof -
  note a = at_clientD [OF assms(1)]
  obtain ok s1 b where s1: "http_server_append_output malloc ci hdr s = Inr (ok, s1)" "at_client ci h e s1 (c\<lparr>outbuf := b\<rparr>)"
      "put (outbuf c) (if ok then hdr else []) b" "malloc_total malloc \<Longrightarrow> ok" using at_append [OF assms(1,2,5)] by metis
  obtain ok2 s2 b2 where s2: "http_server_append_output malloc ci CRLF s1 = Inr (ok2, s2)" "at_client ci h e s2 (c\<lparr>outbuf := b2\<rparr>)"
      "put b (if ok2 then CRLF else []) b2" "malloc_total malloc \<Longrightarrow> ok2"
    using at_append [OF s1(2) assms(2), of CRLF] by auto
  obtain s3 where s3: "close_client ci s2 = Inr s3" "fine h (snd (snd e)) s3" using at_close [OF s2(2)] .
  have "http_server_append_header malloc h hdr s = (if \<not> ok then Inr s1 else if ok2 then Inr s2 else Inr s3)"
    using a(3,4) assms(3,4) s1(1) s2(1) s3(1) by (simp add: append_header_eq)
  then show ?thesis
    using s1(3,4) s2(2-4) s3(2) at_client_fine [OF s1(2)] at_client_fine [OF s2(2)] put_trans [of "outbuf c" hdr b CRLF b2] by auto
qed

lemma content_data: "client_ok c \<Longrightarrow> state c = C_CONTENT \<Longrightarrow> bdata (outbuf c) \<noteq> None"
  by (auto simp: client_ok_def iobuf_ok_def bsize_def split: option.splits)

text \<open>Once the special headers are there, content goes to the end of the output.\<close>

lemma at_content:
  assumes "at_client ci h e s c" "malloc_ok malloc" "state c = C_CONTENT"
  shows "\<exists>s'. http_server_append_content malloc h str s = Inr s' \<and> fine h (snd (snd e)) s'
    \<and> (malloc_total malloc \<longrightarrow> (\<exists>b. at_client ci h e s' (c\<lparr>outbuf := b\<rparr>) \<and> put (outbuf c) str b))"
proof -
  note a = at_clientD [OF assms(1)]
  obtain ok s1 b where s1: "http_server_append_output malloc ci str s = Inr (ok, s1)" "at_client ci h e s1 (c\<lparr>outbuf := b\<rparr>)"
      "put (outbuf c) (if ok then str else []) b" "malloc_total malloc \<Longrightarrow> ok"
    using at_append [OF assms(1,2)] content_data [OF a(5) assms(3)] by metis
  obtain s2 where s2: "close_client ci s1 = Inr s2" "fine h (snd (snd e)) s2" using at_close [OF s1(2)] .
  have "http_server_append_content malloc h str s = (if ok then Inr s1 else Inr s2)"
    using a(3,4) assms(3) s1(1) s2(1) by (simp add: http_server_append_content_def)
  then show ?thesis using s1 s2(2) at_client_fine [OF s1(2)] by (cases ok) auto
qed

text \<open>The first content after the headers: the special headers go first.\<close>

lemma at_first_content:
  assumes "at_client ci h e s c" "malloc_ok malloc" "state c = C_HEADER"
  shows "\<exists>s'. http_server_append_content malloc h str s = Inr s' \<and> fine h (snd (snd e)) s'
    \<and> (malloc_total malloc \<longrightarrow> (\<exists>b b'. at_client ci h e s' ((headed c (wants_keepalive c s) b)\<lparr>outbuf := b'\<rparr>) \<and> put b str b'
         \<and> put (outbuf c) (connection_header c (wants_keepalive c s) @ ''Content-Length: '' @ replicate 9 (CHR '' '') @ CRLF @ CRLF) b))"
proof -
  note a = at_clientD [OF assms(1)]
  let ?keep = "wants_keepalive c s"
  obtain ok s1 where s1: "append_special_headers malloc ci s = Inr (ok, s1)" "fine h (snd (snd e)) s1" "malloc_total malloc \<longrightarrow> ok"
      "ok \<longrightarrow> (\<exists>b. at_client ci h e s1 (headed c ?keep b)
           \<and> put (outbuf c) (connection_header c ?keep @ ''Content-Length: '' @ replicate 9 (CHR '' '') @ CRLF @ CRLF) b)"
    using special_result [OF assms] by blast
  show ?thesis
  proof (cases ok)
    case False
    then show ?thesis using a(3,4) assms(3) s1 by (simp add: http_server_append_content_def)
  next
    case True
    then obtain b where b: "at_client ci h e s1 (headed c ?keep b)"
        "put (outbuf c) (connection_header c ?keep @ ''Content-Length: '' @ replicate 9 (CHR '' '') @ CRLF @ CRLF) b" using s1(4) by blast
    have st: "state (headed c ?keep b) = C_CONTENT" "outbuf (headed c ?keep b) = b" by (simp_all add: headed_def)
    have "http_server_append_content malloc h str s = http_server_append_content malloc h str s1"
      using a(3,4) assms(3) s1(1) True at_clientD(3,4) [OF b(1)] st(1) by (simp add: http_server_append_content_def)
    then show ?thesis using at_content [OF b(1) assms(2) st(1), of str] b(2) st(2) by auto
  qed
qed

subsection \<open>Sending\<close>

lemma sint_length: "n < 2 ^ 63 \<Longrightarrow> sint (of_nat n :: u64) = int n"
proof -
  assume "n < 2 ^ 63"
  then have "signed_take_bit 63 (int n) = int n" by (intro signed_take_bit_int_eq_self) auto
  then show ?thesis by (simp add: signed_of_nat)
qed

lemma take_blit_inside: "off + length str \<le> u \<Longrightarrow> u \<le> length xs \<Longrightarrow> take u (blit xs off str) = blit (take u xs) off str"
  by (cases "u = off") (simp_all add: blit_def drop_take min_def)

lemma fill_result:
  assumes "client_ok c" "state c = C_CONTENT" "content_offset c \<le> bused (outbuf c)" "bused (outbuf c) - content_offset c < 10 ^ 9"
  shows "\<exists>b. fill_content_length c = Inr b \<and> iobuf_ok b \<and> bused b = bused (outbuf c)
    \<and> content b = blit (content (outbuf c)) (content_length_offset c) (show_nat (bused (outbuf c) - content_offset c))"
proof -
  define n where "n = bused (outbuf c) - content_offset c"
  obtain d where d: "bdata (outbuf c) = Some d" using content_data [OF assms(1,2)] by auto
  have len: "length (show_nat n) \<le> 9" using length_show_nat [of n 9] assms(4) by (simp add: n_def)
  have u: "content_length_offset c + 13 \<le> bused (outbuf c)" "bused (outbuf c) \<le> length d"
    using assms(1,2) d by (simp_all add: client_ok_def iobuf_ok_def bsize_def)
  have s: "show_int (sint (of_nat n :: u64)) = show_nat n" using sint_length [of n] assms(4) by (simp add: show_int_def n_def)
  have "fill_content_length c = Inr ((outbuf c)\<lparr>bdata := Some (blit d (content_length_offset c) (show_nat n))\<rparr>)"
    unfolding fill_content_length_def size_sub_def if_P [OF assms(3)] n_def [symmetric] Let_def s using len d u by simp
  moreover have "take (bused (outbuf c)) (blit d (content_length_offset c) (show_nat n)) = blit (take (bused (outbuf c)) d) (content_length_offset c) (show_nat n)"
    using len u by (simp add: take_blit_inside)
  ultimately show ?thesis using len u d by (auto simp: iobuf_ok_def bsize_def content_def n_def)
qed

text \<open>A handle is dead once its client is of another generation.\<close>

lemma handle_dead:
  assumes "client_from_handle s h = Some ci" "gen (cs s' ! ci) \<noteq> gen (cs s ! ci)"
  shows "client_from_handle s' h = None"
  using client_from_handle_Some [OF assms(1)] client_from_handle_Some [of s' h] assms(2) by (cases "client_from_handle s' h") auto

definition pending :: "string \<Rightarrow> bool" where
  "pending str \<longleftrightarrow> (\<exists>i. occurs_at str EMPTY_LINE i)"

lemma find_pending: "iobuf_ok b \<Longrightarrow> \<exists>r. find b EMPTY_LINE = Inr r \<and> (r \<noteq> None \<longleftrightarrow> pending (content b))"
  using find_result [of b EMPTY_LINE] by (fastforce simp: pending_def split: option.splits)

text \<open>The client when the response is complete: its request is gone from the input.\<close>

definition replied :: "client \<Rightarrow> client \<Rightarrow> bool" where
  "replied c c' \<longleftrightarrow> outbuf c' = outbuf c \<and> content (inbuf c') = drop (request_length c) (content (inbuf c)) \<and> num_served c' = num_served c + 1
     \<and> state c' = (if \<not> keepalive c then C_CLOSE else if pending (content (inbuf c')) then C_QUEUED else C_IDLE)"

lemma at_finish:
  assumes "at_client ci h e s c" "state c = C_CONTENT"
  shows "\<exists>s'. finish_response ci s = Inr s' \<and> server_inv s' \<and> room_ok s' \<and> MAX_CLIENTS s' = MAX_CLIENTS s \<and> client_from_handle s' h = None
    \<and> ci \<in> set (live s') \<and> replied c (cs s' ! ci) \<and> queued s' = queued s @ (if state (cs s' ! ci) = C_QUEUED then [ci] else [])"
proof -
  note a = at_clientD [OF assms(1)]
  have ok: "iobuf_ok (inbuf c)" "request_length c \<le> bused (inbuf c)" using a(5) assms(2) by (simp_all add: client_ok_def)
  obtain b where b: "drop_sent (request_length c) (inbuf c) = Inr b" "iobuf_ok b" "content b = drop (request_length c) (content (inbuf c))"
    using drop_sent_ok [OF ok] by blast
  obtain r where r: "find b EMPTY_LINE = Inr r" "r \<noteq> None \<longleftrightarrow> pending (content b)" using find_pending [OF b(2)] by blast
  let ?f = "\<lambda>c. c\<lparr>inbuf := b, request_length := 0, num_served := num_served c + 1\<rparr> :: client"
  define s1 where "s1 = upd_client ci ?f s"
  have "keeps ?f c" using a(5) assms(2) b(2) by (simp add: keeps_def client_ok_def)
  then have s1: "at_client ci h e s1 (?f c)" unfolding s1_def using at_upd [OF assms(1), of ?f] by (simp add: busy_def)
  note a1 = at_clientD [OF s1]
  define st where "st = (if \<not> keepalive c then C_CLOSE else if pending (content b) then C_QUEUED else C_IDLE)"
  have st: "st \<noteq> C_FREE" "st \<notin> {C_STATUS, C_HEADER, C_CONTENT}" by (simp_all add: st_def)
  have "busy (cs s1 ! ci)" using a1(4) assms(2) by (simp add: busy_def)
  then have "qused s1 < MAX_CLIENTS s1" by (rule room_qused [OF a1(10,2)])
  then obtain s2 where s2: "push_client ci s1 = Inr s2" "server_inv s2" "live s2 = live s1" "cs s2 = cs s1" "queued s2 = queued s1 @ [ci]"
    using push_client_ok [OF a1(1) _ a1(2)] by blast
  define s3 where "s3 = (if st = C_QUEUED then s2 else s1)"
  have s3: "server_inv s3" "live s3 = live s" "cs s3 = cs s1" "queued s3 = queued s @ (if st = C_QUEUED then [ci] else [])" "ncs s3 = ncs s"
    using s2 a1(1) push_client_ncs [OF s2(1)] by (auto simp: s3_def s1_def)
  let ?g = "\<lambda>c. invalidate_handles (c\<lparr>state := st, keepalive := False\<rparr>)"
  define s4 where "s4 = upd_client ci ?g s3"
  have c3: "cs s3 ! ci = ?f c" "ci < MAX_CLIENTS s3" "ci \<in> set (live s3)" using a1(4,6) s3 a(2) by simp_all
  have "keeps ?g (cs s3 ! ci)" using a1(5) st unfolding c3 by (simp add: keeps_def client_ok_def)
  then have s4: "server_inv s4" "live s4 = live s" "queued s4 = queued s3" "MAX_CLIENTS s4 = MAX_CLIENTS s"
    unfolding s4_def using upd_client_inv [OF s3(1) c3(3)] s3 by (auto simp: s1_def)
  have c4: "cs s4 ! ci = ?g (?f c)" using c3 by (simp add: s4_def upd_client_nth)
  have k0: "keepalive c = False \<Longrightarrow> upd_client ci invalidate_handles (set_state ci C_CLOSE s1) = s4"
    using a1(4,6) by (cases c) (simp add: s4_def s3_def st_def upd_client_def)
  have k1: "keepalive c \<Longrightarrow> upd_client ci invalidate_handles (upd_client ci (\<lambda>c. c\<lparr>keepalive := False\<rparr>) (set_state ci st s3)) = s4"
    using c3 by (simp add: s4_def upd_client_def)
  have "finish_response ci s = Inr s4"
    unfolding finish_response_def a(4) b(1) rbind_Inr Let_def s1_def [symmetric] using r s2(1) k0 k1 a1(4)
    by (auto simp: st_def s3_def split: if_splits)
  moreover have "client_from_handle s4 h = None"
    using handle_dead [OF a(3), of s4] invalidate_gen [of "(?f c)\<lparr>state := st, keepalive := False\<rparr>"] a(4) by (simp add: c4)
  moreover have "replied c (cs s4 ! ci)" unfolding c4 using b(3) by (simp add: replied_def st_def invalidate_handles_def Let_def)
  moreover have "state (cs s4 ! ci) = st" by (simp add: c4)
  moreover have "room_ok s4"
  proof (cases "st = C_CLOSE")
    case True
    have "busy (cs s ! cj)" if "busy (cs s4 ! cj)" for cj
      using that s3(3) a(4) assms(2) by (cases "cj = ci") (simp_all add: s4_def s1_def upd_client_def busy_def)
    moreover have "qused s4 = qused s" using True by (simp add: s4_def s3_def s1_def)
    ultimately show ?thesis using s4(2,4) by (intro room_mono [OF a(10)]) auto
  next
    case False
    then have "\<not> busy (cs s4 ! ci)" by (auto simp: c4 busy_def st_def split: if_splits)
    moreover have "cs s4 ! cj = cs s ! cj" if "cj \<noteq> ci" for cj using that s3(3) by (simp add: s4_def s1_def upd_client_def)
    moreover have "qused s4 \<le> Suc (qused s)" using s4(3) s3(4) by (simp flip: length_queued)
    ultimately show ?thesis using s4(2,4) a(2,4) assms(2) by (intro room_release [OF a(10), of _ ci]) (simp_all add: busy_def)
  qed
  ultimately show ?thesis using s4 s3(4) a(2) by auto
qed

lemma at_pollout:
  assumes "at_client ci h e s c"
  obtains s' where "set_pollout v ci s = Inr s'" "at_client ci h e s' c"
proof -
  note a = at_clientD [OF assms]
  obtain s' where s': "set_pollout v ci s = Inr s'" "server_inv s'" "live s' = live s" "cs s' = cs s" "qused s' = qused s" "queued s' = queued s" "ncs s' = ncs s"
    using set_pollout_ok [OF a(1,2), of v] by auto
  then have "at_client ci h e s' c"
    using assms client_from_handle_cong [of s' s ci h] by (auto simp: at_client_def surroundings_def room_ok_def)
  with s'(1) that show thesis by blast
qed

lemma at_send:
  assumes "at_client ci h e s c" "malloc_ok malloc" "state c = C_CONTENT"
    "content_offset c \<le> bused (outbuf c)" "bused (outbuf c) - content_offset c < 10 ^ 9"
  shows "\<exists>s'. http_server_send_response malloc h s = Inr s' \<and> server_inv s' \<and> room_ok s' \<and> MAX_CLIENTS s' = MAX_CLIENTS s \<and> client_from_handle s' h = None
    \<and> ci \<in> set (live s') \<and> queued s' = queued s @ (if state (cs s' ! ci) = C_QUEUED then [ci] else [])
    \<and> (\<exists>b. content b = blit (content (outbuf c)) (content_length_offset c) (show_nat (bused (outbuf c) - content_offset c))
          \<and> replied (c\<lparr>outbuf := b\<rparr>) (cs s' ! ci))"
proof -
  note a = at_clientD [OF assms(1)]
  obtain b where b: "fill_content_length c = Inr b" "iobuf_ok b" "bused b = bused (outbuf c)"
      "content b = blit (content (outbuf c)) (content_length_offset c) (show_nat (bused (outbuf c) - content_offset c))"
    using fill_result [OF a(5) assms(3-5)] by blast
  let ?f = "\<lambda>c. c\<lparr>outbuf := b\<rparr> :: client"
  have "keeps ?f c" using a(5,9) b(2,3) by (simp add: keeps_def client_ok_def)
  then have u: "at_client ci h e (upd_client ci ?f s) (c\<lparr>outbuf := b\<rparr>)" using at_upd [OF assms(1), of ?f] by (simp add: busy_def)
  obtain s1 where s1: "set_pollout True ci (upd_client ci ?f s) = Inr s1" "at_client ci h e s1 (c\<lparr>outbuf := b\<rparr>)" using at_pollout [OF u] .
  have "MAX_CLIENTS s1 = MAX_CLIENTS s" "queued s1 = queued s" using at_clientD(7,8) [OF s1(2)] a(7,8) by simp_all
  with at_finish [OF s1(2)] obtain s' where s': "finish_response ci s1 = Inr s'" "server_inv s'" "room_ok s'" "MAX_CLIENTS s' = MAX_CLIENTS s"
      "client_from_handle s' h = None" "ci \<in> set (live s')" "replied (c\<lparr>outbuf := b\<rparr>) (cs s' ! ci)"
      "queued s' = queued s @ (if state (cs s' ! ci) = C_QUEUED then [ci] else [])"
    using assms(3) by auto
  have "http_server_send_response malloc h s = Inr s'"
    unfolding http_server_send_response_def a(3) option.case a(4) using assms(3) a(3,4) b(1) s1(1) s'(1) by simp
  then show ?thesis using s' b(4) by auto
qed

subsection \<open>A whole response\<close>

fun each_call :: "('a \<Rightarrow> server \<Rightarrow> server res) \<Rightarrow> 'a list \<Rightarrow> server \<Rightarrow> server res" where
  "each_call f [] s = Inr s"
| "each_call f (x # xs) s = rbind (f x s) (\<lambda>s. each_call f xs s)"

text \<open>A program that answers a request: the status, headers, pieces of content, and the end.\<close>

definition reply :: "malloc \<Rightarrow> u32 \<Rightarrow> int \<Rightarrow> string list \<Rightarrow> string list \<Rightarrow> server \<Rightarrow> server res" where
  "reply malloc h status hdrs parts s =
     rbind (http_server_set_status malloc h status s) (\<lambda>s.
     rbind (each_call (http_server_append_header malloc h) hdrs s) (\<lambda>s.
     rbind (each_call (http_server_append_content malloc h) parts s) (\<lambda>s.
       http_server_send_response malloc h s)))"

text \<open>The response as it goes over the wire.\<close>

definition response_text :: "client \<Rightarrow> bool \<Rightarrow> int \<Rightarrow> string list \<Rightarrow> string \<Rightarrow> string" where
  "response_text c keep status hdrs body =
     (let len = show_nat (length body) in
      status_line c status @ concat (map (\<lambda>hdr. hdr @ CRLF) hdrs) @ connection_header c keep
      @ ''Content-Length: '' @ len @ replicate (9 - length len) (CHR '' '') @ CRLF @ CRLF @ body)"

lemma headers_result:
  assumes "at_client ci h e s c" "malloc_total malloc" "state c = C_HEADER" "\<forall>x \<in> set hdrs. CHR '':'' \<in> set x" "bdata (outbuf c) \<noteq> None"
  shows "\<exists>s' b. each_call (http_server_append_header malloc h) hdrs s = Inr s' \<and> at_client ci h e s' (c\<lparr>outbuf := b\<rparr>)
    \<and> put (outbuf c) (concat (map (\<lambda>hdr. hdr @ CRLF) hdrs)) b"
  using assms(1,3-5)
proof (induction hdrs arbitrary: s c)
  case Nil
  then show ?case using at_clientD(5) [OF Nil(1)] by (auto simp: put_def client_ok_def intro!: exI [of _ "outbuf c"])
next
  case (Cons x hdrs)
  obtain s1 b where s1: "http_server_append_header malloc h x s = Inr s1" "at_client ci h e s1 (c\<lparr>outbuf := b\<rparr>)" "put (outbuf c) (x @ CRLF) b"
    using at_header [OF Cons.prems(1) malloc_total_ok [OF assms(2)] Cons.prems(2), of x] Cons.prems(3,4) assms(2) by auto
  have "bdata b \<noteq> None" using s1(3) by (simp add: put_def)
  then have "\<exists>s' b'. each_call (http_server_append_header malloc h) hdrs s1 = Inr s' \<and> at_client ci h e s' (c\<lparr>outbuf := b'\<rparr>)
      \<and> put b (concat (map (\<lambda>hdr. hdr @ CRLF) hdrs)) b'" using Cons.IH [OF s1(2)] Cons.prems(2,3) by simp
  then show ?case using s1(1) put_trans [OF s1(3)] by fastforce
qed

lemma contents_result:
  assumes "at_client ci h e s c" "malloc_total malloc" "state c = C_CONTENT"
  shows "\<exists>s' b. each_call (http_server_append_content malloc h) parts s = Inr s' \<and> at_client ci h e s' (c\<lparr>outbuf := b\<rparr>)
    \<and> put (outbuf c) (concat parts) b"
  using assms(1,3)
proof (induction parts arbitrary: s c)
  case Nil
  then show ?case using at_clientD(5) [OF Nil(1)] by (auto simp: put_def client_ok_def intro!: exI [of _ "outbuf c"])
next
  case (Cons x parts)
  obtain s1 b where s1: "http_server_append_content malloc h x s = Inr s1" "at_client ci h e s1 (c\<lparr>outbuf := b\<rparr>)" "put (outbuf c) x b"
    using at_content [OF Cons.prems(1) malloc_total_ok [OF assms(2)] Cons.prems(2), of x] assms(2) by auto
  have "\<exists>s' b'. each_call (http_server_append_content malloc h) parts s1 = Inr s' \<and> at_client ci h e s' (c\<lparr>outbuf := b'\<rparr>)
      \<and> put b (concat parts) b'" using Cons.IH [OF s1(2)] Cons.prems(2) by simp
  then show ?case using s1(1) put_trans [OF s1(3)] by fastforce
qed

lemma body_result:
  assumes "at_client ci h e s c" "malloc_total malloc" "state c = C_HEADER"
  shows "\<exists>s' b b'. rbind (each_call (http_server_append_content malloc h) parts s) (\<lambda>s. http_server_send_response malloc h s)
        = http_server_send_response malloc h s' \<and> at_client ci h e s' ((headed c (wants_keepalive c s) b)\<lparr>outbuf := b'\<rparr>) \<and> put b (concat parts) b'
      \<and> put (outbuf c) (connection_header c (wants_keepalive c s) @ ''Content-Length: '' @ replicate 9 (CHR '' '') @ CRLF @ CRLF) b"
proof -
  let ?keep = "wants_keepalive c s" and ?str = "case parts of [] \<Rightarrow> [] | x # xs \<Rightarrow> x"
  note a = at_clientD [OF assms(1)]
  obtain s1 b b1 where s1: "http_server_append_content malloc h ?str s = Inr s1" "at_client ci h e s1 ((headed c ?keep b)\<lparr>outbuf := b1\<rparr>)"
      "put b ?str b1" "put (outbuf c) (connection_header c ?keep @ ''Content-Length: '' @ replicate 9 (CHR '' '') @ CRLF @ CRLF) b"
    using at_first_content [OF assms(1) malloc_total_ok [OF assms(2)] assms(3)] assms(2) by blast
  have st: "state ((headed c ?keep b)\<lparr>outbuf := b1\<rparr>) = C_CONTENT" by (simp add: headed_def)
  note a1 = at_clientD [OF s1(2)]
  show ?thesis
  proof (cases parts)
    case Nil
    have "http_server_send_response malloc h s = http_server_send_response malloc h s1"
      unfolding http_server_send_response_def using a(3,4) a1(3,4) assms(3) st s1(1) Nil by simp
    then show ?thesis using s1 Nil by (intro exI [of _ s1] exI [of _ b] exI [of _ b1]) simp
  next
    case (Cons x xs)
    obtain s2 b2 where s2: "each_call (http_server_append_content malloc h) xs s1 = Inr s2"
        "at_client ci h e s2 ((headed c ?keep b)\<lparr>outbuf := b2\<rparr>)" "put b1 (concat xs) b2"
      using contents_result [OF s1(2) assms(2) st, of xs] by auto
    then show ?thesis using s1 Cons put_trans [of b x b1 "concat xs" b2] by (intro exI [of _ s2] exI [of _ b] exI [of _ b2]) simp
  qed
qed

text \<open>Putting the length into the blanks that were left for it.\<close>

lemma blit_blanks:
  assumes "length str \<le> 9"
  shows "blit (xs @ replicate 9 y @ zs) (length xs) str = xs @ str @ replicate (9 - length str) y @ zs"
  using assms by (simp add: blit_def)

lemma reply_bytes:
  assumes a: "at_client ci h e s c" and m: "malloc_total malloc" and st: "state c = C_STATUS" and status: "\<bar>status\<bar> < 10 ^ 10"
    and hdrs: "\<forall>x \<in> set hdrs. CHR '':'' \<in> set x" and body: "length (concat parts) < 10 ^ 9"
  shows "\<exists>s'. reply malloc h status hdrs parts s = Inr s' \<and> server_inv s' \<and> room_ok s' \<and> client_from_handle s' h = None \<and> ci \<in> set (live s')
    \<and> content (outbuf (cs s' ! ci)) = content (outbuf c) @ response_text c (wants_keepalive c s) status hdrs (concat parts)
    \<and> content (inbuf (cs s' ! ci)) = drop (request_length c) (content (inbuf c))"
proof -
  let ?keep = "wants_keepalive c s" and ?hs = "concat (map (\<lambda>hdr. hdr @ CRLF) hdrs)"
  obtain s1 b1 where s1: "http_server_set_status malloc h status s = Inr s1" "at_client ci h e s1 (c\<lparr>outbuf := b1, state := C_HEADER\<rparr>)"
      "put (outbuf c) (status_line c status) b1" using at_status [OF a malloc_total_ok [OF m] st status] m by blast
  have d1: "bdata b1 \<noteq> None" using s1(3) by (auto simp: put_def status_line_def)
  then obtain s2 b2 where s2: "each_call (http_server_append_header malloc h) hdrs s1 = Inr s2"
      "at_client ci h e s2 (c\<lparr>outbuf := b1, state := C_HEADER, outbuf := b2\<rparr>)" "put b1 ?hs b2"
    using headers_result [OF s1(2) m _ hdrs] by auto
  define c2 where "c2 = c\<lparr>state := C_HEADER, outbuf := b2\<rparr>"
  have a2: "at_client ci h e s2 c2" using s2(2) by (simp add: c2_def)
  have keep: "wants_keepalive c2 s2 = ?keep" "connection_header c2 = connection_header c"
    using a a2 by (auto simp: wants_keepalive_def connection_header_def c2_def at_client_def surroundings_def)
  have st2: "state c2 = C_HEADER" and o2: "outbuf c2 = b2" by (simp_all add: c2_def)
  obtain s3 b b' where s3: "rbind (each_call (http_server_append_content malloc h) parts s2) (\<lambda>s. http_server_send_response malloc h s)
        = http_server_send_response malloc h s3" "at_client ci h e s3 ((headed c2 ?keep b)\<lparr>outbuf := b'\<rparr>)" "put b (concat parts) b'"
      "put b2 (connection_header c ?keep @ ''Content-Length: '' @ replicate 9 (CHR '' '') @ CRLF @ CRLF) b"
    using body_result [OF a2 m st2, of parts] unfolding keep o2 by blast
  define c3 where "c3 = (headed c2 ?keep b)\<lparr>outbuf := b'\<rparr>"
  define pre where "pre = content (outbuf c) @ status_line c status @ ?hs @ connection_header c ?keep @ ''Content-Length: ''"
  have c3: "state c3 = C_CONTENT" "content_offset c3 = bused b" "outbuf c3 = b'" "content_length_offset c3 = length pre" "inbuf c3 = inbuf c"
      "request_length c3 = request_length c"
    using s1(3) s2(3) by (simp_all add: c3_def headed_def c2_def pre_def put_def connection_header_def)
  have n: "bused b' = bused b + length (concat parts)" using put_bused [OF s3(3)] s3(4) by (simp add: put_def)
  have out: "content b' = pre @ replicate 9 (CHR '' '') @ CRLF @ CRLF @ concat parts"
    using s1(3) s2(3) s3(3,4) by (simp add: put_def pre_def)
  obtain s' bb where s': "http_server_send_response malloc h s3 = Inr s'" "server_inv s'" "client_from_handle s' h = None" "ci \<in> set (live s')"
      "content bb = blit (content b') (length pre) (show_nat (length (concat parts)))" "room_ok s'" "replied (c3\<lparr>outbuf := bb\<rparr>) (cs s' ! ci)"
    using at_send [OF s3(2) [folded c3_def] malloc_total_ok [OF m] c3(1)] body unfolding c3 n by auto
  have "length (show_nat (length (concat parts))) \<le> 9" by (rule length_show_nat [OF body]) simp
  then have "content bb = content (outbuf c) @ response_text c ?keep status hdrs (concat parts)"
    unfolding s'(5) out by (subst blit_blanks) (simp_all add: pre_def response_text_def Let_def)
  moreover have "reply malloc h status hdrs parts s = Inr s'" by (simp only: reply_def s1(1) s2(1) rbind_Inr s3(1) s'(1))
  ultimately show ?thesis using s' c3(5,6) by (auto simp: replied_def)
qed

end
