(* ===== verification/HttpSystem.thy ===== *)
theory HttpSystem
  imports HttpReply
begin

section \<open>The HTTP server as a whole\<close>

text \<open>
  The server from its start on: programs wait for requests and answer them in any order. In every state that
  can be reached the bookkeeping is in order, and the calls touch only memory that is theirs.
\<close>

subsection \<open>Single calls\<close>

lemma status_fine:
  assumes "fine h N s" "malloc_ok malloc" "\<bar>status\<bar> < 10 ^ 10"
  shows "\<exists>s'. http_server_set_status malloc h status s = Inr s' \<and> fine h N s'"
  using assms(1)
proof (cases rule: fine_cases)
  case 1
  then show ?thesis using assms(1) by (simp add: http_server_set_status_def)
next
  case (2 ci e c)
  show ?thesis
  proof (cases "state c = C_STATUS")
    case True
    then show ?thesis using at_status [OF 2(1) assms(2) True assms(3)] 2(2) by auto
  next
    case False
    then show ?thesis using assms(1) at_clientD(3,4) [OF 2(1)] by (simp add: http_server_set_status_def)
  qed
qed

lemma content_fine:
  assumes "fine h N s" "malloc_ok malloc"
  shows "\<exists>s'. http_server_append_content malloc h str s = Inr s' \<and> fine h N s'"
  using assms(1)
proof (cases rule: fine_cases)
  case 1
  then show ?thesis using assms(1) by (simp add: http_server_append_content_def)
next
  case (2 ci e c)
  consider "state c = C_HEADER" | "state c = C_CONTENT" | "state c \<noteq> C_HEADER" "state c \<noteq> C_CONTENT" by blast
  then show ?thesis
  proof cases
    case 1
    then show ?thesis using at_first_content [OF 2(1) assms(2) 1, of str] 2(2) by auto
  next
    case 2
    then show ?thesis using at_content [OF \<open>at_client ci h e s c\<close> assms(2), of str] \<open>snd (snd e) = N\<close> by auto
  next
    case 3
    then show ?thesis using assms(1) at_clientD(3,4) [OF 2(1)] by (simp add: http_server_append_content_def)
  qed
qed

lemma format_content:
  assumes "at_client ci h e s c" "malloc_ok malloc" "state c = C_CONTENT"
  shows "\<exists>s'. http_server_append_content_format malloc h str s = Inr s' \<and> fine h (snd (snd e)) s'"
proof -
  note a = at_clientD [OF assms(1)]
  obtain ok s1 b where s1: "http_server_append_output_format malloc ci str s = Inr (ok, s1)" "at_client ci h e s1 (c\<lparr>outbuf := b\<rparr>)"
    using at_append_format [OF assms(1,2)] content_data [OF a(5) assms(3)] by metis
  obtain s2 where s2: "close_client ci s1 = Inr s2" "fine h (snd (snd e)) s2" using at_close [OF s1(2)] .
  have "http_server_append_content_format malloc h str s = (if ok then Inr s1 else Inr s2)"
    using a(3,4) assms(3) s1(1) s2(1) by (simp add: http_server_append_content_format_def)
  then show ?thesis using s2(2) at_client_fine [OF s1(2)] by (cases ok) auto
qed

lemma format_fine:
  assumes "fine h N s" "malloc_ok malloc"
  shows "\<exists>s'. http_server_append_content_format malloc h str s = Inr s' \<and> fine h N s'"
  using assms(1)
proof (cases rule: fine_cases)
  case 1
  then show ?thesis using assms(1) by (simp add: http_server_append_content_format_def)
next
  case (2 ci e c)
  note a = at_clientD [OF 2(1)]
  consider "state c = C_HEADER" | "state c = C_CONTENT" | "state c \<noteq> C_HEADER" "state c \<noteq> C_CONTENT" by blast
  then show ?thesis
  proof cases
    case 1
    obtain ok s1 where s1: "append_special_headers malloc ci s = Inr (ok, s1)" "fine h N s1"
        "ok \<longrightarrow> (\<exists>b. at_client ci h e s1 (headed c (wants_keepalive c s) b))"
      using special_result [OF 2(1) assms(2) 1] 2(2) by blast
    show ?thesis
    proof (cases ok)
      case False
      then show ?thesis using a(3,4) 1 s1 by (simp add: http_server_append_content_format_def)
    next
      case True
      then obtain b where b: "at_client ci h e s1 (headed c (wants_keepalive c s) b)" using s1(3) by blast
      have st: "state (headed c (wants_keepalive c s) b) = C_CONTENT" by (simp add: headed_def)
      have "http_server_append_content_format malloc h str s = http_server_append_content_format malloc h str s1"
        using a(3,4) 1 s1(1) True at_clientD(3,4) [OF b] st by (simp add: http_server_append_content_format_def)
      then show ?thesis using format_content [OF b assms(2) st, of str] 2(2) by simp
    qed
  next
    case 2
    then show ?thesis using format_content [OF \<open>at_client ci h e s c\<close> assms(2), of str] \<open>snd (snd e) = N\<close> by auto
  next
    case 3
    then show ?thesis using assms(1) a(3,4) by (simp add: http_server_append_content_format_def)
  qed
qed

text \<open>A header that is longer than the first buffer may be written past its end; otherwise the call is fine.\<close>

lemma header_fine:
  assumes "http_server_append_header malloc h hdr s = Inr s'" "fine h N s" "malloc_ok malloc"
  shows "fine h N s'"
  using assms(2)
proof (cases rule: fine_cases)
  case 1
  then show ?thesis using assms(1,2) by (simp add: append_header_eq)
next
  case (2 ci e c)
  note a = at_clientD [OF 2(1)]
  show ?thesis
  proof (cases "state c = C_HEADER \<and> CHR '':'' \<in> set hdr")
    case False
    then show ?thesis using assms(1,2) a(3,4) by (auto simp: append_header_eq)
  next
    case True
    then have "rbind (http_server_append_output malloc ci hdr s) (\<lambda>(ok, s). if \<not> ok then Inr s
         else rbind (http_server_append_output malloc ci CRLF s) (\<lambda>(ok, s). if ok then Inr s else close_client ci s)) = Inr s'"
      using assms(1) a(3,4) by (simp add: append_header_eq)
    then obtain k s1 where s1: "http_server_append_output malloc ci hdr s = Inr (k, s1)"
        "(if \<not> k then Inr s1 else rbind (http_server_append_output malloc ci CRLF s1) (\<lambda>(ok, s). if ok then Inr s else close_client ci s)) = Inr s'"
      unfolding rbind_eq_Inr by auto
    obtain b where b: "at_client ci h e s1 (c\<lparr>outbuf := b\<rparr>)" using at_wrote [OF append_wrote [OF s1(1) a(1,2) assms(3)] 2(1)] by blast
    obtain ok2 s2 b2 where s2: "http_server_append_output malloc ci CRLF s1 = Inr (ok2, s2)" "at_client ci h e s2 (c\<lparr>outbuf := b2\<rparr>)"
      by (rule at_append [OF b assms(3), of CRLF]) auto
    obtain s3 where s3: "close_client ci s2 = Inr s3" "fine h (snd (snd e)) s3" using at_close [OF s2(2)] .
    show ?thesis
      using s1(2) s2(1) s3 at_client_fine [OF b] at_client_fine [OF s2(2)] 2(2) by (auto split: if_splits)
  qed
qed

text \<open>Completing a response can fail only at the assertion that its length has fewer than ten digits.\<close>

lemma fill_safe:
  assumes "client_ok c" "state c = C_CONTENT"
  shows "fill_content_length c = Inl Assert_failed \<or> (\<exists>b. fill_content_length c = Inr b \<and> iobuf_ok b \<and> bused b = bused (outbuf c))"
proof -
  define buf where "buf = show_int (sint (of_nat (size_sub (bused (outbuf c)) (content_offset c)) :: u64))"
  obtain d where d: "bdata (outbuf c) = Some d" using content_data [OF assms] by auto
  have u: "content_length_offset c + 13 \<le> bused (outbuf c)" "bused (outbuf c) \<le> length d"
    using assms d by (simp_all add: client_ok_def iobuf_ok_def bsize_def)
  show ?thesis
  proof (cases "length buf < 10")
    case True
    then have "content_length_offset c + length buf \<le> length d" using u by simp
    then show ?thesis
      unfolding fill_content_length_def Let_def buf_def [symmetric] using True d u by (simp add: iobuf_ok_def bsize_def)
  next
    case False
    then show ?thesis unfolding fill_content_length_def Let_def buf_def [symmetric] by (simp add: c_assert_def)
  qed
qed

lemma send_content:
  assumes "at_client ci h e s c" "malloc_ok malloc" "state c = C_CONTENT"
  shows "http_server_send_response malloc h s = Inl Assert_failed
    \<or> (\<exists>s'. http_server_send_response malloc h s = Inr s' \<and> fine h (snd (snd e)) s' \<and> client_from_handle s' h = None)"
proof -
  note a = at_clientD [OF assms(1)]
  have eq: "http_server_send_response malloc h s = rbind (fill_content_length c) (\<lambda>b.
      rbind (set_pollout True ci (upd_client ci (\<lambda>c. c\<lparr>outbuf := b\<rparr>) s)) (\<lambda>s. finish_response ci s))"
    unfolding http_server_send_response_def a(3) option.case a(4) using assms(3) a(3,4) by simp
  show ?thesis
  proof (cases "fill_content_length c")
    case (Inl err)
    then show ?thesis using eq fill_safe [OF a(5) assms(3)] by simp
  next
    case (Inr b)
    have b: "iobuf_ok b" "bused b = bused (outbuf c)" using fill_safe [OF a(5) assms(3)] Inr by auto
    let ?f = "\<lambda>c. c\<lparr>outbuf := b\<rparr> :: client"
    have "keeps ?f c" using a(5,9) b by (simp add: keeps_def client_ok_def)
    then have u: "at_client ci h e (upd_client ci ?f s) (c\<lparr>outbuf := b\<rparr>)" using at_upd [OF assms(1), of ?f] by (simp add: busy_def)
    obtain s1 where s1: "set_pollout True ci (upd_client ci ?f s) = Inr s1" "at_client ci h e s1 (c\<lparr>outbuf := b\<rparr>)"
      using at_pollout [OF u] .
    obtain s' where "finish_response ci s1 = Inr s'" "server_inv s'" "room_ok s'" "MAX_CLIENTS s' = MAX_CLIENTS s1" "client_from_handle s' h = None"
      using at_finish [OF s1(2)] assms(3) by auto
    then show ?thesis using eq Inr s1(1) at_clientD(8) [OF s1(2)] by (simp add: fine_def handle_ok_def)
  qed
qed

lemma send_fine:
  assumes "fine h N s" "malloc_ok malloc"
  shows "http_server_send_response malloc h s = Inl Assert_failed \<or> (\<exists>s'. http_server_send_response malloc h s = Inr s' \<and> fine h N s' \<and> client_from_handle s' h = None)"
  using assms(1)
proof (cases rule: fine_cases)
  case 1
  then show ?thesis using assms(1) by (simp add: http_server_send_response_def)
next
  case (2 ci e c)
  let ?rest = "\<lambda>s. case client_from_handle s h of None \<Rightarrow> Inr s
    | Some ci \<Rightarrow> if state (cs s ! ci) \<noteq> C_CONTENT then close_client ci s
        else rbind (fill_content_length (cs s ! ci)) (\<lambda>b.
          rbind (set_pollout True ci (upd_client ci (\<lambda>c. c\<lparr>outbuf := b\<rparr>) s)) (\<lambda>s. finish_response ci s))"
  have rest: "?rest s = Inl Assert_failed \<or> (\<exists>s'. ?rest s = Inr s' \<and> fine h N s' \<and> client_from_handle s' h = None)" if "fine h N s" for s
    using that
  proof (cases rule: fine_cases)
    case 1
    then show ?thesis using that by simp
  next
    case (2 ci e c)
    note a = at_clientD [OF 2(1)]
    obtain s' where "close_client ci s = Inr s'" "fine h N s'" using at_close [OF 2(1)] 2(2) by metis
    moreover have "http_server_send_response malloc h s = ?rest s" if "state c = C_CONTENT"
      using that a(3,4) by (simp add: http_server_send_response_def)
    ultimately show ?thesis
      using send_content [OF 2(1) assms(2)] a(3,4) 2(2) close_client_handle [OF a(1-3)] by (cases "state c = C_CONTENT") auto
  qed
  have mid: "(case client_from_handle s h of None \<Rightarrow> Inr s
      | Some ci \<Rightarrow> rbind (if state (cs s ! ci) = C_HEADER then http_server_append_content malloc h [] s else Inr s) ?rest) = Inl Assert_failed
    \<or> (\<exists>s'. (case client_from_handle s h of None \<Rightarrow> Inr s
      | Some ci \<Rightarrow> rbind (if state (cs s ! ci) = C_HEADER then http_server_append_content malloc h [] s else Inr s) ?rest) = Inr s'
        \<and> fine h N s' \<and> client_from_handle s' h = None)" if f: "fine h N s" for s
  proof (cases "client_from_handle s h")
    case (Some ci)
    obtain s1 where "http_server_append_content malloc h [] s = Inr s1" "fine h N s1" using content_fine [OF f assms(2)] by blast
    then show ?thesis using Some rest [of s1] rest [OF f] by simp
  qed (use f in simp)
  obtain s1 where "http_server_set_status malloc h 200 s = Inr s1" "fine h N s1" using status_fine [OF assms, of 200] by auto
  then show ?thesis
    unfolding http_server_send_response_def using at_clientD(3,4) [OF 2(1)] mid [of s1] mid [OF assms(1)] by (cases "state c = C_STATUS") simp_all
qed

subsection \<open>The system\<close>

definition http_init :: "server \<Rightarrow> bool" where
  "http_init s \<longleftrightarrow> (\<exists>listen_fd s0. 0 < MAX_CLIENTS s0 \<and> length (ps s0) = MAX_CLIENTS s0 + 1 \<and> length (pis s0) = MAX_CLIENTS s0
     \<and> length (qdata s0) = MAX_CLIENTS s0 \<and> s = http_server_init listen_fd s0)"

text \<open>What the program that uses the server does: each call with a \<^verbatim>\<open>malloc\<close> that keeps its word.\<close>

inductive http_step :: "server \<Rightarrow> server \<Rightarrow> bool" where
  wait: "malloc_ok malloc \<Longrightarrow> http_server_wait_request malloc envs r s = Inr (out, r', s') \<Longrightarrow> http_step s s'"
| status: "malloc_ok malloc \<Longrightarrow> handle_ok s h \<Longrightarrow> \<bar>st\<bar> < 10 ^ 10 \<Longrightarrow> http_server_set_status malloc h st s = Inr s' \<Longrightarrow> http_step s s'"
| header: "malloc_ok malloc \<Longrightarrow> handle_ok s h \<Longrightarrow> http_server_append_header malloc h hdr s = Inr s' \<Longrightarrow> http_step s s'"
| content: "malloc_ok malloc \<Longrightarrow> handle_ok s h \<Longrightarrow> http_server_append_content malloc h str s = Inr s' \<Longrightarrow> http_step s s'"
| format: "malloc_ok malloc \<Longrightarrow> handle_ok s h \<Longrightarrow> http_server_append_content_format malloc h str s = Inr s' \<Longrightarrow> http_step s s'"
| send: "malloc_ok malloc \<Longrightarrow> handle_ok s h \<Longrightarrow> http_server_send_response malloc h s = Inr s' \<Longrightarrow> http_step s s'"

definition http_inv :: "server \<Rightarrow> bool" where
  "http_inv s \<longleftrightarrow> server_inv s \<and> room_ok s"

lemma http_inv_fine: "http_inv s \<Longrightarrow> handle_ok s h \<Longrightarrow> fine h (MAX_CLIENTS s) s"
  by (simp add: http_inv_def fine_def)

lemma fine_http_inv: "fine h N s \<Longrightarrow> http_inv s"
  by (simp add: http_inv_def fine_def)

lemma http_init_inv:
  assumes "http_init s"
  shows "http_inv s"
proof -
  obtain listen_fd s0 where s0: "0 < MAX_CLIENTS s0" "length (ps s0) = MAX_CLIENTS s0 + 1" "length (pis s0) = MAX_CLIENTS s0"
      "length (qdata s0) = MAX_CLIENTS s0" "s = http_server_init listen_fd s0" using assms by (auto simp: http_init_def)
  let ?N = "MAX_CLIENTS s0"
  have lists: "live s = []" "queued s = []" "avail s = map (\<lambda>i. ?N - (i + 1)) [0..<?N]" "MAX_CLIENTS s = ?N"
    by (simp_all add: s0(5) http_server_init_def live_def queued_def avail_def)
  have "inj_on (\<lambda>i. ?N - (i + 1)) {0..<?N}" by (rule inj_onI) auto
  then have "distinct (avail s)" by (simp add: lists distinct_map)
  moreover have "set (avail s) = {..<?N}"
  proof
    show "{..<?N} \<subseteq> set (avail s)"
    proof
      fix x assume "x \<in> {..<?N}"
      then show "x \<in> set (avail s)" unfolding lists set_map by (intro image_eqI [of _ _ "?N - (x + 1)"]) auto
    qed
  qed (use s0(1) in \<open>auto simp: lists\<close>)
  ultimately have "slots_ok s" by (simp add: slots_ok_def lists)
  moreover have "arrays_ok s" using s0 by (simp add: arrays_ok_def http_server_init_def)
  moreover have "places_ok s" "states_ok s" "queue_ok s" "room_ok s"
    using s0 lists by (auto simp: places_ok_def states_ok_def queue_ok_def room_ok_def http_server_init_def)
  ultimately show ?thesis by (simp add: http_inv_def server_inv_def)
qed

lemma http_step_inv: "http_step s s' \<Longrightarrow> http_inv s \<Longrightarrow> http_inv s'"
proof (induction rule: http_step.induct)
  case (wait malloc envs r s out r' s')
  then show ?case using wait_request_inv [OF wait(2)] wait_request_room [OF wait(2)] by (simp add: http_inv_def sound_def)
next
  case (status malloc s h st s')
  then show ?case using status_fine [OF http_inv_fine [OF _ status(2)] status(1,3)] fine_http_inv by auto
next
  case (header malloc s h hdr s')
  then show ?case using header_fine [OF header(3) http_inv_fine [OF _ header(2)] header(1)] fine_http_inv by blast
next
  case (content malloc s h str s')
  then show ?case using content_fine [OF http_inv_fine [OF _ content(2)] content(1), of str] fine_http_inv by auto
next
  case (format malloc s h str s')
  then show ?case using format_fine [OF http_inv_fine [OF _ format(2)] format(1), of str] fine_http_inv by auto
next
  case (send malloc s h s')
  then show ?case using send_fine [OF http_inv_fine [OF _ send(2)] send(1)] fine_http_inv by auto
qed

interpretation http: invariant_system http_init http_step http_inv
  by unfold_locales (auto intro: http_init_inv http_step_inv)

end
