(* ===== verification/SendStatic.thy ===== *)
theory SendStatic
  imports HttpSystem HttpPath
begin

section \<open>Serving files (\<^verbatim>\<open>http/send_static.c\<close>)\<close>

text \<open>
  Answering a request with a file or the listing of a directory, on top of the HTTP server and the
  sanitising of paths. The file system is an argument: what \<^verbatim>\<open>open\<close> and \<^verbatim>\<open>opendir\<close> find under a path, and for an open
  file its bytes and how many of them each \<^verbatim>\<open>read\<close> returns. \<^verbatim>\<open>open\<close> is called again while it is interrupted; the argument gives
  the result of the last attempt. The markup converter \<^verbatim>\<open>smu\<close>, which is not part of the repository, is an argument
  that lists the calls it makes of its two output functions. What is printed to the standard error output is left out.
\<close>

subsection \<open>The file system\<close>

text \<open>An open file: the bytes not read yet, and what limits each call of \<^verbatim>\<open>read\<close>: it fails (\<open>None\<close>), or it returns at
  most \<open>n + 1\<close> bytes. It returns no bytes only at the end of the file or when none are asked for.\<close>

record open_file =
  unread :: string
  limits :: "nat option list"

definition read_fd :: "nat \<Rightarrow> open_file \<Rightarrow> (string \<times> open_file) option" where
  "read_fd n f =
     (case limits f of
        [] \<Rightarrow> Some (take n (unread f), f\<lparr>unread := drop n (unread f)\<rparr>)
      | None # ls \<Rightarrow> None
      | Some k # ls \<Rightarrow> let m = min n (k + 1) in Some (take m (unread f), \<lparr>unread = drop m (unread f), limits = ls\<rparr>))"

text \<open>The result of \<^verbatim>\<open>open\<close>; for an open file also what \<^verbatim>\<open>fstat\<close> says: it fails, or the file is regular or not.\<close>

datatype open_result = Opened "bool option" open_file | Open_enoent | Open_error

datatype opendir_result = Dir "string list" | Dir_enoent | Dir_enotdir | Dir_error

datatype realloc_result = Realloc_fails | Realloc_in_place | Realloc_moves

datatype smu_call = Outfn string | Outvafn string

record static_env =
  open_path :: "string \<Rightarrow> open_result"
  opendir_path :: "string \<Rightarrow> opendir_result"
  smu :: "bool \<Rightarrow> string \<Rightarrow> smu_call list"
  md_malloc :: bool
  md_realloc :: realloc_result

subsection \<open>Types of files\<close>

definition mime_table :: "(string \<times> string) list" where
  "mime_table =
     [(''text/javascript'', ''.js''), (''text/javascript'', ''.javascript''), (''text/html'', ''.html''), (''text/html'', ''.htm''),
      (''image/gif'', ''.gif''), (''image/jpeg'', ''.jpg''), (''image/jpeg'', ''.jpeg''), (''image/svg+xml'', ''.svg''),
      (''video/mp4'', ''.mp4''), (''video/mpeg'', ''.mpeg''),
      (''font/ttf'', ''.ttf''), (''font/woff'', ''.woff''), (''font/woff2'', ''.woff2''),
      (''text/plain'', ''.txt''),
      (''audio/wav'', ''.wav''),
      (''application/x-7z-compressed'', ''.7z''), (''application/zip'', ''.zip''), (''application/xml'', ''.xml''), (''application/json'', ''.json'')]"

fun mime_loop :: "(string \<times> string) list \<Rightarrow> string \<Rightarrow> string option" where
  "mime_loop [] name = None"
| "mime_loop ((mime, ext) # tab) name =
     (if length ext \<le> length name \<and> drop (length name - length ext) name = ext then Some mime else mime_loop tab name)"

definition mimetype_from_filename :: "string \<Rightarrow> string option" where
  "mimetype_from_filename name = mime_loop mime_table name"

definition is_file :: "bool option \<Rightarrow> int" where
  "is_file stat = (case stat of None \<Rightarrow> - 1 | Some reg \<Rightarrow> if reg then 1 else 0)"

subsection \<open>Sending a file\<close>

lemma read_fd_shrinks: "read_fd n f = Some (str, f') \<Longrightarrow> str \<noteq> [] \<Longrightarrow> length (unread f') < length (unread f)"
  by (auto simp: read_fd_def Let_def split: list.splits option.splits)

text \<open>The loop that copies the file to the content, 8192 bytes at a time; an error ends it like the end of the file.\<close>

function copy_loop :: "malloc \<Rightarrow> u32 \<Rightarrow> open_file \<Rightarrow> server \<Rightarrow> server res" where
  "copy_loop malloc handle f s =
     (case read_fd 8192 f of
        None \<Rightarrow> Inr s
      | Some (str, f') \<Rightarrow>
          if str = [] then Inr s
          else rbind (http_server_append_content malloc handle str s) (\<lambda>s. copy_loop malloc handle f' s))"
  by pat_completeness auto
termination
  by (relation "measure (\<lambda>(malloc, handle, f, s). length (unread f))") (auto intro: read_fd_shrinks)

declare copy_loop.simps [simp del]

definition send_file :: "malloc \<Rightarrow> static_env \<Rightarrow> u32 \<Rightarrow> string \<Rightarrow> string option \<Rightarrow> server \<Rightarrow> (bool \<times> server) res" where
  "send_file malloc env handle file mime s =
     (case open_path env file of
        Open_enoent \<Rightarrow> Inr (False, s)
      | Open_error \<Rightarrow>
          rbind (http_server_set_status malloc handle 500 s) (\<lambda>s.
          rbind (http_server_send_response malloc handle s) (\<lambda>s. Inr (True, s)))
      | Opened stat f \<Rightarrow>
          if is_file stat = 0 then Inr (False, s)
          else
            rbind (http_server_set_status malloc handle 200 s) (\<lambda>s.
            let mime = (if mime = None then mimetype_from_filename file else mime) in
            rbind (case mime of None \<Rightarrow> Inr s
                   | Some m \<Rightarrow> http_server_append_header_format malloc handle (Some (''Content-Type: '' @ m)) s) (\<lambda>s.
            rbind (copy_loop malloc handle f s) (\<lambda>s.
            rbind (http_server_send_response malloc handle s) (\<lambda>s. Inr (True, s))))))"

subsection \<open>Sending markup\<close>

definition outcb :: "malloc \<Rightarrow> u32 \<Rightarrow> string \<Rightarrow> server \<Rightarrow> server res" where
  "outcb malloc h str s = http_server_append_content malloc h str s"

definition outvacb :: "malloc \<Rightarrow> u32 \<Rightarrow> string \<Rightarrow> server \<Rightarrow> server res" where
  "outvacb malloc h str s = http_server_append_content_format malloc h str s"

fun smu_calls :: "malloc \<Rightarrow> u32 \<Rightarrow> smu_call list \<Rightarrow> server \<Rightarrow> server res" where
  "smu_calls malloc h [] s = Inr s"
| "smu_calls malloc h (Outfn str # calls) s = rbind (outcb malloc h str s) (\<lambda>s. smu_calls malloc h calls s)"
| "smu_calls malloc h (Outvafn str # calls) s = rbind (outvacb malloc h str s) (\<lambda>s. smu_calls malloc h calls s)"

definition append_markup_as_html :: "malloc \<Rightarrow> static_env \<Rightarrow> u32 \<Rightarrow> string \<Rightarrow> bool \<Rightarrow> server \<Rightarrow> server res" where
  "append_markup_as_html malloc env h str nohtml s = smu_calls malloc h (smu env nohtml str) s"

text \<open>The loop that reads the file into a buffer of 1024 bytes: whether it failed, the bytes read, and whether the buffer
  was given back to the allocator. When the buffer is full it is reallocated, but neither \<^verbatim>\<open>buffer\<close> nor \<^verbatim>\<open>capacity\<close> changes.\<close>

function md_loop :: "realloc_result \<Rightarrow> open_file \<Rightarrow> string \<Rightarrow> bool \<times> string \<times> bool" where
  "md_loop r f buffer =
     (if length buffer = 1024 \<and> r = Realloc_fails then (True, buffer, False)
      else
        let freed = (length buffer = 1024 \<and> r = Realloc_moves) in
        case read_fd (1024 - length buffer) f of
          None \<Rightarrow> (True, buffer, freed)
        | Some (str, f') \<Rightarrow> if str = [] then (False, buffer, freed) else md_loop r f' (buffer @ str))"
  by pat_completeness auto
termination
  by (relation "measure (\<lambda>(r, f, buffer). length (unread f))") (auto intro: read_fd_shrinks)

declare md_loop.simps [simp del]

definition send_file_md :: "malloc \<Rightarrow> static_env \<Rightarrow> u32 \<Rightarrow> string \<Rightarrow> server \<Rightarrow> (bool \<times> server) res" where
  "send_file_md malloc env handle file s =
     (case open_path env file of
        Open_enoent \<Rightarrow> Inr (False, s)
      | Open_error \<Rightarrow>
          rbind (http_server_set_status malloc handle 500 s) (\<lambda>s.
          rbind (http_server_send_response malloc handle s) (\<lambda>s. Inr (True, s)))
      | Opened stat f \<Rightarrow>
          if is_file stat = 0 then Inr (False, s)
          else
            let (fail, buffer, freed) = (if md_malloc env then md_loop (md_realloc env) f [] else (False, [], False)) in
            rbind
              (if fail then http_server_set_status malloc handle 500 s
               else
                 rbind (http_server_set_status malloc handle 200 s) (\<lambda>s.
                 rbind (http_server_append_header malloc handle ''Content-Type: text/html'' s) (\<lambda>s.
                 if freed then Inl Out_of_bounds
                 else append_markup_as_html malloc env handle buffer False s))) (\<lambda>s.
            if freed then Inl Out_of_bounds
            else rbind (http_server_send_response malloc handle s) (\<lambda>s. Inr (True, s))))"

subsection \<open>Listing a directory\<close>

abbreviation QUOTE :: string where "QUOTE \<equiv> [CHR 0x22]"

definition listing_head :: "string \<Rightarrow> string" where
  "listing_head prefix =
     ''<html>'' @ [LF] @ ''    <head>'' @ [LF] @ ''    </head>'' @ [LF] @ ''    <body>'' @ [LF] @ ''        <ul>'' @ [LF]
     @ ''            <li><a href='' @ QUOTE @ prefix @ ''/..'' @ QUOTE @ ''>(parent)</a></li>''"

definition entry_link :: "string \<Rightarrow> string \<Rightarrow> string \<Rightarrow> string" where
  "entry_link prefix path name = prefix @ ''/'' @ path @ name"

definition listing_entry :: "string \<Rightarrow> string \<Rightarrow> string \<Rightarrow> string" where
  "listing_entry prefix path name =
     ''<li><a href='' @ QUOTE @ entry_link prefix path name @ QUOTE @ ''>'' @ name @ ''</a></li>'' @ [LF]"

definition listing_tail :: string where
  "listing_tail = ''        </ul>'' @ [LF] @ ''    </body>'' @ [LF] @ ''</html>'' @ [LF]"

fun list_entries :: "malloc \<Rightarrow> u32 \<Rightarrow> string \<Rightarrow> string \<Rightarrow> string list \<Rightarrow> server \<Rightarrow> server res" where
  "list_entries malloc h prefix path [] s = Inr s"
| "list_entries malloc h prefix path (name # names) s =
     (if name = ''.'' \<or> name = ''..'' then list_entries malloc h prefix path names s
      else rbind (http_server_append_content_format malloc h (listing_entry prefix path name) s) (\<lambda>s.
             list_entries malloc h prefix path names s))"

text \<open>Formatting a prefix that is NULL with \<^verbatim>\<open>%s\<close> is undefined, and counts as a fault.\<close>

definition send_dir_listing :: "malloc \<Rightarrow> static_env \<Rightarrow> u32 \<Rightarrow> string \<Rightarrow> string option \<Rightarrow> string \<Rightarrow> server \<Rightarrow> (bool \<times> server) res" where
  "send_dir_listing malloc env h dir prefix path s =
     (if 1024 \<le> length dir + length path then
        rbind (http_server_set_status malloc h 500 s) (\<lambda>s.
        rbind (http_server_send_response malloc h s) (\<lambda>s. Inr (True, s)))
      else
        let fullpath = dir @ path in
        case opendir_path env fullpath of
          Dir_enoent \<Rightarrow> Inr (False, s)
        | Dir_enotdir \<Rightarrow> Inr (False, s)
        | Dir_error \<Rightarrow>
            rbind (http_server_set_status malloc h 500 s) (\<lambda>s.
            rbind (http_server_send_response malloc h s) (\<lambda>s. Inr (True, s)))
        | Dir names \<Rightarrow>
            rbind (http_server_set_status malloc h 200 s) (\<lambda>s.
            case prefix of
              None \<Rightarrow> Inl Null_pointer
            | Some prefix \<Rightarrow>
                rbind (http_server_append_content_format malloc h (listing_head prefix) s) (\<lambda>s.
                rbind (list_entries malloc h prefix path names s) (\<lambda>s.
                rbind (http_server_append_content_string malloc h listing_tail s) (\<lambda>s.
                rbind (http_server_send_response malloc h s) (\<lambda>s. Inr (True, s)))))))"

subsection \<open>Serving a directory\<close>

text \<open>The first part of \<^verbatim>\<open>serve_static_dir\<close>: the path of the request is sanitised, the prefix removed and the directory put in front.
  The result is \<open>Elsewhere\<close> for a path without the prefix, or the remaining path; \<open>clean_path\<close> is the local array before it is written.\<close>

datatype static_target = Elsewhere | Below string

definition static_path :: "string \<Rightarrow> string option \<Rightarrow> string \<Rightarrow> static_target res" where
  "static_path clean_path prefix src =
     (let prefix_len = (case prefix of None \<Rightarrow> 0 | Some p \<Rightarrow> length p) in
      rbind (c_assert (prefix_len < 1024)) (\<lambda>_.
      rbind (sanitize_path src clean_path 1024) (\<lambda>(clean_path_len, clean_path).
        case clean_path_len of
          None \<Rightarrow> Inr Elsewhere
        | Some n \<Rightarrow>
            if 0 < prefix_len \<and> (n < prefix_len \<or> take prefix_len clean_path \<noteq> the prefix) then Inr Elsewhere
            else Inr (Below (chunk clean_path prefix_len (n - prefix_len))))))"

definition serve_static_dir ::
    "malloc \<Rightarrow> static_env \<Rightarrow> string \<Rightarrow> string \<Rightarrow> string option \<Rightarrow> request \<Rightarrow> u32 \<Rightarrow> bool \<Rightarrow> bool \<Rightarrow> server \<Rightarrow> (bool \<times> server) res" where
  "serve_static_dir malloc env clean_path dir prefix r handle dir_listing convert_md s =
     rbind (static_path clean_path prefix (req_path r)) (\<lambda>target.
       case target of
         Elsewhere \<Rightarrow> Inr (False, s)
       | Below path \<Rightarrow>
           if 1024 \<le> length dir + length path then
             rbind (http_server_set_status malloc handle 500 s) (\<lambda>s.
             rbind (http_server_send_response malloc handle s) (\<lambda>s. Inr (True, s)))
           else
             let tmp = dir @ path in
             rbind
               (if convert_md \<and> 3 < length tmp \<and> drop (length tmp - 3) tmp = ''.md'' then send_file_md malloc env handle tmp s
                else send_file malloc env handle tmp None s) (\<lambda>(replied, s).
             rbind (if \<not> replied \<and> dir_listing then send_dir_listing malloc env handle dir prefix path s else Inr (replied, s)) (\<lambda>(replied, s).
             if replied then Inr (True, s)
             else
               rbind (http_server_set_status malloc handle 404 s) (\<lambda>s.
               rbind (http_server_send_response malloc handle s) (\<lambda>s. Inr (True, s))))))"

end
