(* ===== verification/StaticPaths.thy ===== *)
theory StaticPaths
  imports SendStatic
begin

section \<open>Serving files: the paths that are opened\<close>

text \<open>
  Which paths \<^verbatim>\<open>serve_static_dir\<close> opens, and which links its listings have.
\<close>

subsection \<open>Paths\<close>

lemma clean_no_sep: "clean_comp dd c \<Longrightarrow> PATH_SEP \<notin> set c"
  by (auto simp: clean_comp_def list_all_iff)

lemma print_path_Nil [simp]: "print_path [] = []"
  by (simp add: print_path_def)

lemma print_path_Cons [simp]: "print_path (c # ks) = PATH_SEP # c @ print_path ks"
  by (simp add: print_path_def)

lemma print_path_append [simp]: "print_path (ks @ ds) = print_path ks @ print_path ds"
  by (simp add: print_path_def)

text \<open>A slash in a sanitised path starts a component, so that what follows a prefix is again a sanitised path.\<close>

lemma print_path_split:
  assumes "print_path ks = p @ PATH_SEP # rest" "list_all (clean_comp dd) ks"
  shows "\<exists>ks1 ks2. ks = ks1 @ ks2 \<and> p = print_path ks1 \<and> PATH_SEP # rest = print_path ks2"
  using assms
proof (induction ks arbitrary: p)
  case Nil
  then show ?case by simp
next
  case (Cons c ks)
  show ?case
  proof (cases p)
    case Nil
    then show ?thesis using Cons.prems(1) by (intro exI [of _ "[]"] exI [of _ "c # ks"]) simp
  next
    case (Cons a p1)
    have eq: "c @ print_path ks = p1 @ PATH_SEP # rest" "a = PATH_SEP" using Cons Cons.prems(1) by simp_all
    have "PATH_SEP \<notin> set c" using Cons.prems(2) clean_no_sep by auto
    then have "\<exists>p2. p1 = c @ p2 \<and> print_path ks = p2 @ PATH_SEP # rest"
      using eq(1) by (auto simp: append_eq_append_conv2 append_eq_Cons_conv)
    then obtain p2 where p2: "p1 = c @ p2" "print_path ks = p2 @ PATH_SEP # rest" by blast
    then obtain ks1 ks2 where "ks = ks1 @ ks2" "p2 = print_path ks1" "PATH_SEP # rest = print_path ks2"
      using Cons.IH Cons.prems(2) by auto
    then show ?thesis using Cons eq(2) p2(1) by (intro exI [of _ "c # ks1"] exI [of _ ks2]) simp
  qed
qed

definition prefix_text :: "string option \<Rightarrow> string" where
  "prefix_text prefix = (case prefix of None \<Rightarrow> [] | Some p \<Rightarrow> p)"

lemma take_blit_0: "length str \<le> length mem \<Longrightarrow> n \<le> length str \<Longrightarrow> take n (blit mem 0 str) = take n str"
  by (simp add: blit_def)

lemma static_path_cases:
  assumes "length mem = 1024" "length (prefix_text prefix) < 1024"
  shows "static_path mem prefix src =
     (case split_path_components src MAX_COMPS False of
        None \<Rightarrow> Inr Elsewhere
      | Some ks \<Rightarrow>
          if 1024 \<le> length (print_path ks) \<or> take (length (prefix_text prefix)) (print_path ks) \<noteq> prefix_text prefix then Inr Elsewhere
          else Inr (Below (drop (length (prefix_text prefix)) (print_path ks))))"
proof -
  let ?p = "prefix_text prefix"
  have pre: "(case prefix of None \<Rightarrow> 0 | Some p \<Rightarrow> length p) = length ?p" "0 < length ?p \<Longrightarrow> the prefix = ?p"
    by (auto simp: prefix_text_def split: option.splits)
  have some: "(if 0 < length ?p \<and> (n < length ?p \<or> take (length ?p) mem' \<noteq> the prefix) then Inr Elsewhere
       else Inr (Below (chunk mem' (length ?p) (n - length ?p))))
      = (if take (length ?p) (print_path ks) \<noteq> ?p then Inr Elsewhere else Inr (Below (drop (length ?p) (print_path ks))))"
    if "n = length (print_path ks)" "n < 1024" "mem' = blit mem 0 (print_path ks @ [CHR 0x00])" for n mem' ks
  proof -
    have eq: "chunk mem' (length ?p) (n - length ?p) = drop (length ?p) (print_path ks)" if "length ?p \<le> n"
      using that \<open>n = _\<close> \<open>n < 1024\<close> \<open>mem' = _\<close> assms(1) by (simp add: chunk_def blit_def take_drop)
    have tk: "take (length ?p) mem' = take (length ?p) (print_path ks)" if "length ?p \<le> n"
      using that \<open>n = _\<close> \<open>n < 1024\<close> \<open>mem' = _\<close> assms(1) by (simp add: take_blit_0)
    have short: "take (length ?p) (print_path ks) \<noteq> ?p" if "n < length ?p"
    proof
      assume "take (length ?p) (print_path ks) = ?p"
      then have "length (take (length ?p) (print_path ks)) = length ?p" by simp
      then show False using that \<open>n = _\<close> by simp
    qed
    show ?thesis
    proof (cases "length ?p \<le> n")
      case True
      then show ?thesis using eq tk pre(2) by (cases "length ?p = 0") auto
    next
      case False
      then show ?thesis using short by (cases "prefix_text prefix") auto
    qed
  qed
  show ?thesis
  proof (cases "split_path_components src MAX_COMPS False")
    case None
    then show ?thesis using assms sanitize_cases [of 1024 mem src] by (simp add: static_path_def pre(1))
  next
    case (Some ks)
    then show ?thesis
      using assms sanitize_cases [of 1024 mem src] some [OF refl _ refl, of ks] by (auto simp: static_path_def pre(1) Let_def split: if_splits)
  qed
qed

lemma static_path_result:
  assumes "length mem = 1024" "static_path mem prefix src = Inr (Below path)"
  obtains ks where "split_path_components src MAX_COMPS False = Some ks" "print_path ks = prefix_text prefix @ path"
    "list_all (clean_comp False) ks"
proof -
  have len: "length (prefix_text prefix) < 1024"
    using assms(2) by (cases prefix) (auto simp: static_path_def prefix_text_def Let_def rbind_eq_Inr c_assert_def split: if_splits)
  then obtain ks where ks: "split_path_components src MAX_COMPS False = Some ks"
      "take (length (prefix_text prefix)) (print_path ks) = prefix_text prefix" "path = drop (length (prefix_text prefix)) (print_path ks)"
    using assms(2) static_path_cases [OF assms(1) len] by (auto split: option.splits if_splits)
  then have "print_path ks = prefix_text prefix @ path" by (metis append_take_drop_id)
  then show thesis using that ks(1) split_clean [OF ks(1)] by blast
qed

text \<open>C18: Requests stay inside the directory. When the path of a request is accepted and goes on at a component after the prefix,
  the file that is opened is the directory followed by components none of which is empty, \<open>.\<close> or \<open>..\<close>
  or has a slash in it; a path that climbs above its root is never accepted.\<close>

theorem static_path_inside:
  assumes "length mem = 1024" "static_path mem prefix src = Inr (Below path)" "path = [] \<or> hd path = PATH_SEP"
  shows "\<exists>ks. path = print_path ks \<and> list_all (clean_comp False) ks"
proof -
  obtain ks where ks: "print_path ks = prefix_text prefix @ path" "list_all (clean_comp False) ks"
    using static_path_result [OF assms(1,2)] by metis
  show ?thesis
  proof (cases path)
    case Nil
    then show ?thesis by (intro exI [of _ "[]"]) simp
  next
    case (Cons a rest)
    then show ?thesis using print_path_split [of ks "prefix_text prefix" rest False] ks assms(3) by auto
  qed
qed

theorem static_path_inside_witness:
  "\<exists>ks. ''/a/b'' = print_path ks \<and> list_all (clean_comp False) ks"
  by (rule static_path_inside [of "replicate 1024 (CHR 0x00)" "Some ''/pub''" "''/pub/x/../a/./b''"]) (simp, code_simp, simp)

text \<open>The prefix need not end at a component: with the prefix \<open>/pub\<close> a request for \<open>/pub-old/x\<close> opens the
  file \<open>x\<close> of the directory whose name is the name of the served directory followed by \<open>-old\<close>. Whatever follows the prefix
  within its last component is appended to the name of the directory.\<close>

theorem static_path_sibling:
  assumes "length mem = 1024" "list_all (clean_comp False) (qs @ [p @ x] @ ks)" "length (qs @ [p @ x] @ ks) \<le> MAX_COMPS"
    "length (print_path (qs @ [p @ x] @ ks)) < 1024"
  shows "static_path mem (Some (print_path (qs @ [p]))) (print_path (qs @ [p @ x] @ ks)) = Inr (Below (x @ print_path ks))"
proof -
  have len: "length (prefix_text (Some (print_path (qs @ [p])))) < 1024" using assms(4) by (simp add: prefix_text_def)
  have "split_path_components (print_path (qs @ [p @ x] @ ks)) MAX_COMPS False = Some (qs @ [p @ x] @ ks)"
    using split_print [OF clean_raw [OF assms(2)] assms(3)] resolve_clean [OF assms(2), of "[]"] by simp
  then show ?thesis using static_path_cases [OF assms(1) len] assms(4) by (simp add: prefix_text_def)
qed

theorem static_path_sibling_witness:
  "static_path (replicate 1024 (CHR 0x00)) (Some ''/pub'') ''/pub-old/x'' = Inr (Below ''-old/x'')"
  using static_path_sibling [of "replicate 1024 (CHR 0x00)" "[]" "''pub''" "''-old''" "[''x'']"]
  by (simp add: clean_comp_def comp_char_def is_pcomp_def is_print_def code_def MAX_COMPS_def)

subsection \<open>Links\<close>

lemma comps_loop_no_double:
  "comps_loop src limit dd cur stack = Some out \<Longrightarrow> cur < length src \<Longrightarrow>
     src ! cur \<noteq> PATH_SEP \<and> (\<forall>k \<ge> cur. Suc k < length src \<longrightarrow> src ! k = PATH_SEP \<longrightarrow> src ! Suc k \<noteq> PATH_SEP)"
proof (induction src limit dd cur stack rule: comps_loop.induct)
  case (1 src limit dd cur stack)
  define c where "c = skip_while (comp_char dd) src cur"
  define piece where "piece = chunk src cur (c - cur)"
  have c: "cur \<le> c" "c \<le> length src" "\<And>k. cur \<le> k \<Longrightarrow> k < c \<Longrightarrow> src ! k \<noteq> PATH_SEP"
  proof -
    have eq: "c = cur + length (takeWhile (comp_char dd) (drop cur src))" unfolding c_def using "1.prems"(2) by (simp add: skip_while_eq)
    then show "cur \<le> c" by simp
    show "c \<le> length src" using eq length_takeWhile_le [of "comp_char dd" "drop cur src"] "1.prems"(2) by simp
    fix k assume "cur \<le> k" "k < c"
    then have "k - cur < length (takeWhile (comp_char dd) (drop cur src))" using eq by simp
    then have "comp_char dd (takeWhile (comp_char dd) (drop cur src) ! (k - cur))" using set_takeWhileD nth_mem by metis
    moreover have "takeWhile (comp_char dd) (drop cur src) ! (k - cur) = src ! k"
      using \<open>k - cur < _\<close> \<open>cur \<le> k\<close> "1.prems"(2) by (simp add: takeWhile_nth)
    ultimately show "src ! k \<noteq> PATH_SEP" by auto
  qed
  have ok: "length stack \<noteq> limit" "piece \<noteq> []" "push_comp stack piece \<noteq> None"
    using "1.prems" by (auto simp: comps_loop.simps [of src limit dd cur stack] Let_def piece_def c_def split: if_splits option.splits)
  then obtain st where st: "push_comp stack piece = Some st" by auto
  have run: "comps_loop src limit dd cur stack =
      (if c = length src then Some st else if src ! c \<noteq> PATH_SEP then None else comps_loop src limit dd (c + 1) st)"
    using ok st "1.prems"(2) by (subst comps_loop.simps) (simp add: Let_def piece_def c_def)
  have lt: "cur < c" using ok(2) c(1) by (cases "c = cur") (auto simp: piece_def chunk_def)
  have tail: "src ! Suc c \<noteq> PATH_SEP \<and> (\<forall>k \<ge> Suc c. Suc k < length src \<longrightarrow> src ! k = PATH_SEP \<longrightarrow> src ! Suc k \<noteq> PATH_SEP)"
    if "Suc c < length src"
  proof -
    have "c \<noteq> length src" "src ! c = PATH_SEP" "comps_loop src limit dd (c + 1) st = Some out"
      using that run "1.prems"(1) by (auto split: if_splits)
    then show ?thesis using "1.IH" [OF _ ok(1) refl c_def piece_def ok(2) st] that "1.prems"(2) by simp
  qed
  have "src ! Suc k \<noteq> PATH_SEP" if "cur \<le> k" "Suc k < length src" "src ! k = PATH_SEP" for k
  proof -
    have "c \<le> k" using c(3) [of k] that by force
    then show ?thesis using tail that by (cases "k = c") auto
  qed
  then show ?case using c(3) [of cur] lt by simp
qed

text \<open>In the listing of a subdirectory every link is broken: between the prefix and the path, which starts with a slash, it has
  a second slash, and a request for it is not accepted.\<close>

theorem listing_link_broken:
  assumes "length mem = 1024" "length (prefix_text prefix) < 1024" "path \<noteq> []" "hd path = PATH_SEP" "p \<noteq> [] \<longrightarrow> hd p = PATH_SEP"
  shows "static_path mem prefix (entry_link p path name) = Inr Elsewhere"
proof -
  let ?src = "entry_link p path name" and ?k = "length p"
  obtain rest where rest: "path = PATH_SEP # rest" using assms(3,4) by (cases path) auto
  have seps: "?src ! ?k = PATH_SEP" "?src ! Suc ?k = PATH_SEP" "Suc ?k < length ?src"
    by (simp_all add: entry_link_def rest nth_append)
  have start: "?src ! 0 = PATH_SEP" using assms(5) by (cases p) (simp_all add: entry_link_def)
  have "split_path_components ?src MAX_COMPS False = None"
  proof (rule ccontr)
    assume "split_path_components ?src MAX_COMPS False \<noteq> None"
    then obtain out where "comps_loop ?src MAX_COMPS False 1 [] = Some out"
      using start seps(3) by (cases ?src) (auto simp: split_path_components_def)
    from comps_loop_no_double [OF this] show False
      using seps by (cases "?k = 0") (auto simp: Suc_le_eq)
  qed
  then show ?thesis using static_path_cases [OF assms(1,2)] by simp
qed

theorem listing_link_broken_witness:
  "static_path (replicate 1024 (CHR 0x00)) (Some ''/pub'') (entry_link ''/pub'' ''/docs'' ''a.txt'') = Inr Elsewhere"
  by (rule listing_link_broken) (simp_all add: prefix_text_def)

subsection \<open>Types\<close>

lemma mime_loop_first:
  "mime_loop tab name = (case filter (\<lambda>(mime, ext). \<exists>stem. name = stem @ ext) tab of [] \<Rightarrow> None | (mime, ext) # _ \<Rightarrow> Some mime)"
proof (induction tab)
  case (Cons x tab)
  obtain mime ext where x: "x = (mime, ext)" by (cases x)
  have "length ext \<le> length name \<and> drop (length name - length ext) name = ext \<longleftrightarrow> (\<exists>stem. name = stem @ ext)"
  proof
    assume "length ext \<le> length name \<and> drop (length name - length ext) name = ext"
    then have "name = take (length name - length ext) name @ ext" by (metis append_take_drop_id)
    then show "\<exists>stem. name = stem @ ext" ..
  qed auto
  with Cons show ?case by (simp add: x)
qed simp

lemma mime_short: "mimetype_from_filename name = Some m \<Longrightarrow> length m \<le> 30"
proof -
  have "mime_loop tab name = Some m \<Longrightarrow> m \<in> fst ` set tab" for tab
    by (induction tab name rule: mime_loop.induct) (auto split: if_splits)
  moreover have "\<forall>x \<in> fst ` set mime_table. length x \<le> 30" by (simp add: mime_table_def)
  ultimately show "mimetype_from_filename name = Some m \<Longrightarrow> length m \<le> 30" by (auto simp: mimetype_from_filename_def)
qed

end
