(* ===== verification/StaticSafe.thy ===== *)
theory StaticSafe
  imports StaticPaths
begin

section \<open>Serving files: every request is answered\<close>

text \<open>
  The calls of the server that serving a file makes, on any state of the server: they return and leave the server in
  order. Only the assertion on the number of digits of the length of a response can fail.
\<close>

text \<open>The outcome of a call that answers or leaves the request alone.\<close>

definition answered :: "u32 \<Rightarrow> nat \<Rightarrow> server \<Rightarrow> (bool \<times> server) res \<Rightarrow> bool" where
  "answered h N s r \<longleftrightarrow> r = Inl Assert_failed
     \<or> (\<exists>s'. r = Inr (True, s') \<and> fine h N s' \<and> client_from_handle s' h = None) \<or> r = Inr (False, s)"

lemma answered_left: "answered h N s (Inr (False, s))"
  by (simp add: answered_def)

lemma answered_send:
  assumes "fine h N s1" "malloc_ok malloc"
  shows "answered h N s (rbind (http_server_send_response malloc h s1) (\<lambda>s. Inr (True, s)))"
  using send_fine [OF assms] by (auto simp: answered_def)

lemma answered_status:
  assumes "fine h N s1" "malloc_ok malloc" "\<bar>status\<bar> < 10 ^ 10"
  shows "answered h N s (rbind (http_server_set_status malloc h status s1) (\<lambda>s.
     rbind (http_server_send_response malloc h s) (\<lambda>s. Inr (True, s))))"
  using status_fine [OF assms] answered_send [OF _ assms(2)] by auto

lemma answered_status_then:
  assumes "fine h N s1" "malloc_ok malloc" "\<bar>status\<bar> < 10 ^ 10" "\<And>s2. fine h N s2 \<Longrightarrow> answered h N s (k s2)"
  shows "answered h N s (rbind (http_server_set_status malloc h status s1) k)"
  using status_fine [OF assms(1-3)] assms(4) by auto

lemma header_short_fine:
  assumes "fine h N s" "malloc_ok malloc" "length hdr \<le> 512"
  shows "\<exists>s'. http_server_append_header malloc h hdr s = Inr s' \<and> fine h N s'"
  using assms(1)
proof (cases rule: fine_cases)
  case 1
  then show ?thesis using assms(1) by (simp add: append_header_eq)
next
  case (2 ci e c)
  note a = at_clientD [OF 2(1)]
  show ?thesis
  proof (cases "state c = C_HEADER \<and> CHR '':'' \<in> set hdr")
    case True
    then show ?thesis using at_header [OF 2(1) assms(2), of hdr] assms(3) 2(2) by auto
  next
    case False
    then show ?thesis using assms(1) a(3,4) by (auto simp: append_header_eq)
  qed
qed

lemma answered_header:
  assumes "fine h N s1" "malloc_ok malloc" "length hdr \<le> 512" "\<And>s2. fine h N s2 \<Longrightarrow> answered h N s (k s2)"
  shows "answered h N s (rbind (http_server_append_header malloc h hdr s1) k)"
  using header_short_fine [OF assms(1-3)] assms(4) by auto

subsection \<open>The loops\<close>

lemma each_call_fine:
  assumes "\<And>x s. fine h N s \<Longrightarrow> \<exists>s'. f x s = Inr s' \<and> fine h N s'" "fine h N s"
  shows "\<exists>s'. each_call f xs s = Inr s' \<and> fine h N s'"
  using assms(2)
proof (induction xs arbitrary: s)
  case (Cons x xs)
  then obtain s1 where "f x s = Inr s1" "fine h N s1" using assms(1) by blast
  then show ?case using Cons.IH by simp
qed simp

text \<open>The loop over a file appends its bytes in some pieces, up to the first error.\<close>

lemma copy_parts:
  "\<exists>parts. (\<forall>malloc h s. copy_loop malloc h f s = each_call (http_server_append_content malloc h) parts s)
     \<and> (None \<notin> set (limits f) \<longrightarrow> concat parts = unread f)"
proof (induction "length (unread f)" arbitrary: f rule: less_induct)
  case less
  show ?case
  proof (cases "read_fd 8192 f")
    case None
    then have "None \<in> set (limits f)" by (auto simp: read_fd_def Let_def split: list.splits option.splits)
    then show ?thesis using None by (intro exI [of _ "[]"]) (simp add: copy_loop.simps)
  next
    case (Some x)
    obtain str f' where x: "x = (str, f')" by (cases x)
    have split: "unread f = str @ unread f'" "set (limits f') \<subseteq> set (limits f)" "str = [] \<longrightarrow> unread f = []"
      using Some x by (auto simp: read_fd_def Let_def split: list.splits option.splits)
    show ?thesis
    proof (cases "str = []")
      case True
      then show ?thesis using Some x split(3) by (intro exI [of _ "[]"]) (simp add: copy_loop.simps)
    next
      case False
      then obtain parts where parts: "\<forall>malloc h s. copy_loop malloc h f' s = each_call (http_server_append_content malloc h) parts s"
          "None \<notin> set (limits f') \<longrightarrow> concat parts = unread f'"
        using less [OF read_fd_shrinks [OF Some [unfolded x] False]] by blast
      have "copy_loop malloc h f s = each_call (http_server_append_content malloc h) (str # parts) s" for malloc h s
      proof -
        have "copy_loop malloc h f' = each_call (http_server_append_content malloc h) parts" using parts(1) by (intro ext) simp
        then show ?thesis using Some x False by (subst copy_loop.simps) simp
      qed
      then show ?thesis using parts(2) split by (intro exI [of _ "str # parts"]) auto
    qed
  qed
qed

lemma copy_loop_fine:
  assumes "fine h N s" "malloc_ok malloc"
  shows "\<exists>s'. copy_loop malloc h f s = Inr s' \<and> fine h N s'"
proof -
  obtain parts where "\<forall>malloc h s. copy_loop malloc h f s = each_call (http_server_append_content malloc h) parts s"
    using copy_parts [of f] by blast
  then show ?thesis using each_call_fine [OF content_fine [OF _ assms(2)] assms(1)] by simp
qed

lemma md_loop_freed: "md_loop r f buf = (fail, buf', freed) \<Longrightarrow> freed \<Longrightarrow> r = Realloc_moves"
proof (induction "length (unread f)" arbitrary: f buf rule: less_induct)
  case less
  show ?case
    using less.prems less.hyps [OF read_fd_shrinks] by (subst (asm) md_loop.simps) (auto simp: Let_def split: if_splits option.splits)
qed

text \<open>Without errors, the loop that reads markup keeps the first 1024 bytes.\<close>

lemma md_loop_result:
  "length buf \<le> 1024 \<Longrightarrow> None \<notin> set (limits f) \<Longrightarrow> r \<noteq> Realloc_fails \<Longrightarrow>
     md_loop r f buf = (False, take 1024 (buf @ unread f), 1024 \<le> length (buf @ unread f) \<and> r = Realloc_moves)"
proof (induction "length (unread f)" arbitrary: f buf rule: less_induct)
  case less
  have "read_fd (1024 - length buf) f \<noteq> None"
    using less.prems(2) by (auto simp: read_fd_def Let_def split: list.splits option.splits)
  then obtain str f' where x: "read_fd (1024 - length buf) f = Some (str, f')" by auto
  have split: "unread f = str @ unread f'" "set (limits f') \<subseteq> set (limits f)" "str = [] \<longrightarrow> unread f = [] \<or> length buf = 1024"
      "length str \<le> 1024 - length buf"
    using x less.prems(1) by (auto simp: read_fd_def Let_def split: list.splits option.splits)
  show ?case
  proof (cases "str = []")
    case True
    then show ?thesis using x split(3) less.prems by (subst md_loop.simps) (auto simp: Let_def)
  next
    case False
    have IH: "md_loop r f' (buf @ str)
        = (False, take 1024 ((buf @ str) @ unread f'), 1024 \<le> length ((buf @ str) @ unread f') \<and> r = Realloc_moves)"
      by (rule less.hyps [OF read_fd_shrinks [OF x False]]) (use split less.prems in auto)
    have "length buf \<noteq> 1024" using split(4) False by auto
    then have "md_loop r f buf = md_loop r f' (buf @ str)"
      using x False by (subst md_loop.simps) (simp add: Let_def)
    then show ?thesis unfolding IH split(1) by simp
  qed
qed

lemma smu_calls_fine:
  "fine h N s \<Longrightarrow> malloc_ok malloc \<Longrightarrow> \<exists>s'. smu_calls malloc h calls s = Inr s' \<and> fine h N s'"
proof (induction malloc h calls s rule: smu_calls.induct)
  case (2 malloc h str calls s)
  then obtain s1 where "outcb malloc h str s = Inr s1" "fine h N s1" using content_fine [of h N s malloc str] by (auto simp: outcb_def)
  then show ?case using 2 by simp
next
  case (3 malloc h str calls s)
  then obtain s1 where "outvacb malloc h str s = Inr s1" "fine h N s1" using format_fine [of h N s malloc str] by (auto simp: outvacb_def)
  then show ?case using 3 by simp
qed simp

lemma list_entries_each:
  "list_entries malloc h prefix path names s =
     each_call (\<lambda>name. http_server_append_content_format malloc h (listing_entry prefix path name)) (filter (\<lambda>n. n \<noteq> ''.'' \<and> n \<noteq> ''..'') names) s"
proof (induction names arbitrary: s)
  case (Cons name names)
  let ?f = "\<lambda>name. http_server_append_content_format malloc h (listing_entry prefix path name)"
  have "list_entries malloc h prefix path names = each_call ?f (filter (\<lambda>n. n \<noteq> ''.'' \<and> n \<noteq> ''..'') names)"
    by (intro ext Cons.IH)
  then show ?case by simp
qed simp

lemma list_entries_fine:
  assumes "fine h N s" "malloc_ok malloc"
  shows "\<exists>s'. list_entries malloc h prefix path names s = Inr s' \<and> fine h N s'"
  unfolding list_entries_each by (rule each_call_fine [OF format_fine [OF _ assms(2)] assms(1)])

subsection \<open>Whole replies\<close>

lemma send_file_answered:
  assumes "fine h N s" "malloc_ok malloc"
  shows "answered h N s (send_file malloc env h file None s)"
proof (cases "open_path env file")
  case Open_enoent
  then show ?thesis by (simp add: send_file_def answered_left)
next
  case Open_error
  then show ?thesis using answered_status [OF assms, of 500] by (simp add: send_file_def)
next
  case (Opened stat f)
  have copied: "answered h N s (rbind (copy_loop malloc h f s1) (\<lambda>s. rbind (http_server_send_response malloc h s) (\<lambda>s. Inr (True, s))))"
    if "fine h N s1" for s1
    using copy_loop_fine [OF that assms(2), of f] answered_send [OF _ assms(2)] by auto
  show ?thesis
  proof (cases "mimetype_from_filename file")
    case None
    then show ?thesis
      using Opened answered_status_then [OF assms, of 200, OF _ copied] answered_left by (auto simp: send_file_def)
  next
    case (Some m)
    have len: "length (''Content-Type: '' @ m) \<le> 512" using mime_short [OF Some] by simp
    show ?thesis
      using Opened Some len answered_status_then [OF assms, of 200, OF _ answered_header [OF _ assms(2) len copied]] answered_left
      by (auto simp: send_file_def http_server_append_header_format_def)
  qed
qed

lemma send_file_md_answered:
  assumes "fine h N s" "malloc_ok malloc" "md_realloc env \<noteq> Realloc_moves"
  shows "answered h N s (send_file_md malloc env h file s)"
proof (cases "open_path env file")
  case Open_enoent
  then show ?thesis by (simp add: send_file_md_def answered_left)
next
  case Open_error
  then show ?thesis using answered_status [OF assms(1,2), of 500] by (simp add: send_file_md_def)
next
  case (Opened stat f)
  obtain fail buf freed where b: "(if md_malloc env then md_loop (md_realloc env) f [] else (False, [], False)) = (fail, buf, freed)"
    by (metis prod_cases3)
  have freed: "\<not> freed" using b md_loop_freed [of "md_realloc env" f "[]" fail buf freed] assms(3) by (auto split: if_splits)
  have html: "answered h N s (rbind (append_markup_as_html malloc env h buf False s1) (\<lambda>s. rbind (http_server_send_response malloc h s) (\<lambda>s. Inr (True, s))))"
    if "fine h N s1" for s1
    using smu_calls_fine [OF that assms(2)] answered_send [OF _ assms(2)] unfolding append_markup_as_html_def by (metis rbind_Inr)
  have "length ''Content-Type: text/html'' \<le> 512" by simp
  note page = answered_status_then [OF assms(1,2), of 200, OF _ answered_header [OF _ assms(2) this html]]
  show ?thesis
    using Opened b freed page answered_status [OF assms(1,2), of 500] answered_left
    by (cases fail) (auto simp: send_file_md_def rbind_assoc)
qed

lemma send_dir_listing_answered:
  assumes "fine h N s" "malloc_ok malloc"
  shows "answered h N s (send_dir_listing malloc env h dir (Some prefix) path s)"
proof -
  have tail: "answered h N s (rbind (http_server_append_content_string malloc h listing_tail s1) (\<lambda>s.
      rbind (http_server_send_response malloc h s) (\<lambda>s. Inr (True, s))))" if "fine h N s1" for s1
    using content_fine [OF that assms(2), of listing_tail] answered_send [OF _ assms(2)]
    unfolding http_server_append_content_string_def by auto
  have entries: "answered h N s (rbind (list_entries malloc h prefix path names s1) (\<lambda>s.
      rbind (http_server_append_content_string malloc h listing_tail s) (\<lambda>s.
      rbind (http_server_send_response malloc h s) (\<lambda>s. Inr (True, s)))))" if "fine h N s1" for s1 names
    using list_entries_fine [OF that assms(2), of prefix path names] tail by auto
  have page: "answered h N s (rbind (http_server_append_content_format malloc h (listing_head prefix) s1) (\<lambda>s.
      rbind (list_entries malloc h prefix path names s) (\<lambda>s.
      rbind (http_server_append_content_string malloc h listing_tail s) (\<lambda>s.
      rbind (http_server_send_response malloc h s) (\<lambda>s. Inr (True, s))))))" if "fine h N s1" for s1 names
    using format_fine [OF that assms(2), of "listing_head prefix"] entries by auto
  show ?thesis
    using answered_status [OF assms, of 500] answered_status_then [OF assms, of 200, OF _ page] answered_left
    by (auto simp: send_dir_listing_def Let_def split: opendir_result.split)
qed

lemma answered_then:
  assumes "answered h N s r" "\<And>s'. fine h N s' \<Longrightarrow> client_from_handle s' h = None \<Longrightarrow> answered h N s (k (True, s'))" "answered h N s (k (False, s))"
  shows "answered h N s (rbind r k)"
proof -
  consider "r = Inl Assert_failed" | s' where "r = Inr (True, s')" "fine h N s'" "client_from_handle s' h = None" | "r = Inr (False, s)"
    using assms(1) by (auto simp: answered_def)
  then show ?thesis by cases (use assms(2,3) in \<open>simp_all add: answered_def [of _ _ _ "Inl Assert_failed"]\<close>)
qed

lemma serve_answered:
  assumes "fine h N s" "malloc_ok malloc" "length mem = 1024" "length (prefix_text prefix) < 1024"
    "dir_listing \<longrightarrow> prefix \<noteq> None" "convert_md \<longrightarrow> md_realloc env \<noteq> Realloc_moves"
  shows "answered h N s (serve_static_dir malloc env mem dir prefix r h dir_listing convert_md s)"
proof (cases "static_path mem prefix (req_path r)")
  case (Inl e)
  then show ?thesis using static_path_cases [OF assms(3,4), of "req_path r"] by (auto split: option.splits if_splits)
next
  case (Inr target)
  have sent: "answered h N s (Inr (True, s'))" if "fine h N s'" "client_from_handle s' h = None" for s'
    using that by (simp add: answered_def)
  have missing: "answered h N s (rbind (http_server_set_status malloc h 404 s) (\<lambda>s.
      rbind (http_server_send_response malloc h s) (\<lambda>s. Inr (True, s))))" by (rule answered_status [OF assms(1,2)]) simp
  let ?fin = "\<lambda>(replied, s). if replied then Inr (True, s)
      else rbind (http_server_set_status malloc h 404 s) (\<lambda>s. rbind (http_server_send_response malloc h s) (\<lambda>s. Inr (True, s)))"
  have rest: "answered h N s (rbind (if \<not> replied \<and> dir_listing then send_dir_listing malloc env h dir prefix path s1 else Inr (replied, s1)) ?fin)"
    if "replied \<and> fine h N s1 \<and> client_from_handle s1 h = None \<or> \<not> replied \<and> s1 = s" for replied s1 path
  proof (cases "replied \<or> \<not> dir_listing")
    case True
    then show ?thesis using that sent missing by auto
  next
    case False
    then obtain p where "prefix = Some p" using assms(5) by auto
    then show ?thesis
      using False that answered_then [OF send_dir_listing_answered [OF assms(1,2), of env dir p path], of ?fin] sent missing by auto
  qed
  show ?thesis
  proof (cases target)
    case Elsewhere
    then show ?thesis using Inr by (simp add: serve_static_dir_def answered_left)
  next
    case (Below path)
    let ?first = "if convert_md \<and> 3 < length (dir @ path) \<and> drop (length (dir @ path) - 3) (dir @ path) = ''.md''
        then send_file_md malloc env h (dir @ path) s else send_file malloc env h (dir @ path) None s"
    have "answered h N s ?first" using send_file_answered [OF assms(1,2)] send_file_md_answered [OF assms(1,2)] assms(6) by auto
    then have "answered h N s (rbind ?first (\<lambda>(replied, s). rbind (if \<not> replied \<and> dir_listing
        then send_dir_listing malloc env h dir prefix path s else Inr (replied, s)) ?fin))"
    proof (rule answered_then)
      show "answered h N s ((\<lambda>(replied, s). rbind (if \<not> replied \<and> dir_listing
          then send_dir_listing malloc env h dir prefix path s else Inr (replied, s)) ?fin) (True, s'))"
        if "fine h N s'" "client_from_handle s' h = None" for s' using rest [of True s' path] that by simp
      show "answered h N s ((\<lambda>(replied, s). rbind (if \<not> replied \<and> dir_listing
          then send_dir_listing malloc env h dir prefix path s else Inr (replied, s)) ?fin) (False, s))" using rest [of False s path] by simp
    qed
    then show ?thesis
      using Inr Below answered_status [OF assms(1,2), of 500] by (simp add: serve_static_dir_def Let_def)
  qed
qed

end
