(* ===== verification/HttpClaims.thy ===== *)
theory HttpClaims
  imports HttpSystem
begin

section \<open>The HTTP server: what it promises and where it fails\<close>

text \<open>
  The properties of the server, with a server for two clients on which they are tried.
\<close>

subsection \<open>A small server\<close>

definition small_client :: client where
  "small_client = \<lparr>gen = 7, state = C_FREE, pitem = None, inbuf = empty_iobuf, outbuf = empty_iobuf, num_served = 0, c_minor = 0,
     connheader = 0, content_length_offset = 0, content_offset = 0, request_length = 0, keepalive = False\<rparr>"

definition small_server :: server where
  "small_server = http_server_init 3 \<lparr>ncs = 9, cs = replicate 2 small_client,
     ps = replicate 3 \<lparr>fd = 0, pollout = False, rev_in = False, rev_out = False\<rparr>, pis = [0, 0], free = [0, 0], qhead = 0, qused = 0, qdata = [0, 0],
     closed = []\<rparr>"

definition plain_malloc :: malloc where
  "plain_malloc n = Some (replicate n (CHR 0x00))"

text \<open>A round in which a client connects, and one in which bytes arrive and can be sent.\<close>

definition connects :: io_env where
  "connects = \<lparr>poll_ok = True, listen_ready = True, revents = (\<lambda>_. (False, False)), accepts = [Accepted 5 True, Accept_again],
     recvs = (\<lambda>_. []), sends = (\<lambda>_. [])\<rparr>"

definition receives :: "string \<Rightarrow> send_result list \<Rightarrow> io_env" where
  "receives str rs = \<lparr>poll_ok = True, listen_ready = False, revents = (\<lambda>_. (str \<noteq> [], rs \<noteq> [])), accepts = [],
     recvs = (\<lambda>_. [Recv_data str, Recv_again]), sends = (\<lambda>_. rs)\<rparr>"

definition blank_request :: request where
  "blank_request = \<lparr>req_method = M_GET, req_path = [], major = 0, minor = 0, hs = []\<rparr>"

definition waits :: "io_env list \<Rightarrow> server \<Rightarrow> (u32 \<times> nat \<times> u64) option \<times> server" where
  "waits envs s = (case http_server_wait_request plain_malloc envs blank_request s of Inr (out, _, s) \<Rightarrow> (out, s) | Inl _ \<Rightarrow> (None, s))"

definition asked :: server where
  "asked = snd (waits [connects, receives (''GET / HTTP/1.1'' @ EMPTY_LINE) []] small_server)"

definition just_asked :: "server \<Rightarrow> bool" where
  "just_asked s \<longleftrightarrow> client_from_handle s 0 = Some 0 \<and> state (cs s ! 0) = C_STATUS \<and> ncs s = 1 \<and> bdata (outbuf (cs s ! 0)) = None"

lemma asked_just_asked: "just_asked asked"
  by code_simp

lemma plain_malloc: "malloc_total plain_malloc" "malloc_ok plain_malloc"
  by (simp_all add: malloc_total_def malloc_ok_def plain_malloc_def)

lemma small_server_reachable: "reachable http_init http_step small_server"
proof (rule reachable.intros(1))
  show "http_init small_server" unfolding http_init_def small_server_def by (intro exI conjI) (rule_tac [5] refl, simp_all)
qed

lemma asked_reachable: "reachable http_init http_step asked"
proof -
  let ?envs = "[connects, receives (''GET / HTTP/1.1'' @ EMPTY_LINE) []]"
  show ?thesis
  proof (cases "http_server_wait_request plain_malloc ?envs blank_request small_server")
    case (Inl err)
    then have "asked = small_server" by (simp only: asked_def waits_def sum.case snd_conv)
    moreover have "ncs small_server = 0" by (simp add: small_server_def http_server_init_def)
    ultimately show ?thesis using asked_just_asked by (simp add: just_asked_def)
  next
    case (Inr res)
    obtain out r s where res: "res = (out, r, s)" by (cases res)
    then have "asked = s" using Inr by (simp only: asked_def waits_def sum.case prod.case snd_conv)
    then show ?thesis using Inr res http_step.wait [OF plain_malloc(2)] reachable.intros(2) [OF small_server_reachable] by blast
  qed
qed

lemma asked_handle: "handle_ok asked 0"
proof -
  have "server_inv asked" using http.reachable_inv [OF asked_reachable] by (simp add: http_inv_def)
  moreover have "0 < MAX_CLIENTS asked" using server_invD(1) [OF calculation] by (simp add: arrays_ok_def)
  ultimately show ?thesis using asked_just_asked live_iff [of asked 0] by (simp add: handle_ok_def just_asked_def)
qed

subsection \<open>The bookkeeping\<close>

text \<open>C11: In every state that a program can bring the server to, each of its client structures is either in use, at exactly
  one place of the array of poll entries that it knows itself, or on the stack of free structures, and exactly those on
  the stack are marked free. The entries of the queue and the clients being answered are together at most
  \<^verbatim>\<open>MAX_CLIENTS\<close>, so that the queue cannot overflow.\<close>

theorem http_server_bookkeeping:
  assumes "reachable http_init http_step s"
  shows "distinct (live s @ avail s) \<and> set (live s @ avail s) = {..<MAX_CLIENTS s}
    \<and> (\<forall>i < ncs s. pitem (cs s ! (pis s ! i)) = Some (Suc i))
    \<and> (\<forall>ci < MAX_CLIENTS s. state (cs s ! ci) = C_FREE \<longleftrightarrow> ci \<in> set (avail s))
    \<and> qused s + card {ci \<in> set (live s). busy (cs s ! ci)} \<le> MAX_CLIENTS s"
proof -
  have inv: "server_inv s" "room_ok s" using http.reachable_inv [OF assms] by (simp_all add: http_inv_def)
  have sl: "distinct (live s @ avail s)" "set (live s @ avail s) = {..<MAX_CLIENTS s}" using server_invD(2) [OF inv(1)] by (simp_all add: slots_ok_def)
  have "state (cs s ! ci) = C_FREE \<longleftrightarrow> ci \<in> set (avail s)" if "ci < MAX_CLIENTS s" for ci
    using live_iff [OF inv(1) that] sl that by auto
  with sl show ?thesis using server_invD(3) [OF inv(1)] inv(2) by (simp add: places_ok_def room_ok_def)
qed

theorem http_server_bookkeeping_witness:
  "reachable http_init http_step asked \<and> distinct (live asked @ avail asked)"
  using http_server_bookkeeping [OF asked_reachable] asked_reachable by blast

text \<open>In every state that a program can bring the server to, setting the status, adding content and adding formatted content on
  a handle that names no free client return, whatever memory is available and whatever state the client is in; completing a response
  returns or fails the assertion on the number of digits of its length, and never touches memory out of bounds.\<close>

theorem http_server_calls_safe:
  assumes "reachable http_init http_step s" "handle_ok s h" "malloc_ok malloc" "\<bar>status\<bar> < 10 ^ 10"
  shows "(\<exists>s'. http_server_set_status malloc h status s = Inr s') \<and> (\<exists>s'. http_server_append_content malloc h str s = Inr s')
    \<and> (\<exists>s'. http_server_append_content_format malloc h str s = Inr s')
    \<and> (http_server_send_response malloc h s = Inl Assert_failed
        \<or> (\<exists>s'. http_server_send_response malloc h s = Inr s' \<and> client_from_handle s' h = None))"
proof -
  have f: "fine h (MAX_CLIENTS s) s" by (rule http_inv_fine [OF http.reachable_inv [OF assms(1)] assms(2)])
  show ?thesis
    using status_fine [OF f assms(3,4)] content_fine [OF f assms(3), of str] format_fine [OF f assms(3), of str] send_fine [OF f assms(3)] by blast
qed

theorem http_server_calls_safe_witness: "\<exists>s'. http_server_set_status plain_malloc 0 200 asked = Inr s'"
  using http_server_calls_safe [OF asked_reachable asked_handle plain_malloc(2), of 200] by simp

text \<open>C24: In every state that a program can bring the server to, when no request is queued, a round of input and output returns, whatever connections, bytes, closed connections and errors
  the sockets of the clients report and whatever memory is available: no assertion fails and nothing is read or written out of bounds. There is one exception, and the round stops there
  with a failed assertion: \<^verbatim>\<open>accept\<close> reports an error other than that it would block while there is room for another client.\<close>

theorem http_io_round_safe:
  assumes "reachable http_init http_step s" "qused s = 0" "malloc_ok malloc"
  shows "if poll_ok env \<and> listen_ready env \<and> accept_fails (accepts env) (MAX_CLIENTS s - ncs s) then process_io malloc env s = Inl Assert_failed
    else \<exists>s'. process_io malloc env s = Inr s'"
proof -
  have "server_inv s" using http.reachable_inv [OF assms(1)] by (simp add: http_inv_def)
  from process_io_cases [OF this assms(2,3), of env] show ?thesis by (auto split: if_splits)
qed

theorem http_io_round_safe_witness:
  "(\<exists>s'. process_io plain_malloc connects small_server = Inr s') \<and> process_io plain_malloc (connects\<lparr>accepts := [Accept_error]\<rparr>) small_server = Inl Assert_failed"
proof -
  have "qused small_server = 0" "poll_ok connects" "listen_ready connects" "\<not> accept_fails (accepts connects) (MAX_CLIENTS small_server - ncs small_server)" "ncs small_server < MAX_CLIENTS small_server"
    by (simp_all add: small_server_def http_server_init_def connects_def)
  then show ?thesis
    using http_io_round_safe [OF small_server_reachable _ plain_malloc(2), of connects] http_io_round_safe [OF small_server_reachable _ plain_malloc(2), of "connects\<lparr>accepts := [Accept_error]\<rparr>"] by simp
qed

subsection \<open>The response\<close>

text \<open>C10: When a request was handed out and memory suffices, a status, headers that have a colon, any pieces of content and the end of the
  response put exactly this into the output, after what was there: the status line, the headers as given, the header \<^verbatim>\<open>Connection\<close>
  (for HTTP/1.1), \<^verbatim>\<open>Content-Length\<close> with the length of all pieces together, padded with blanks to nine characters, an empty line and the pieces.
  The request is gone from the input and the handle no longer names a client.\<close>

theorem http_response_bytes:
  assumes "reachable http_init http_step s" "handle_ok s h" "client_from_handle s h = Some ci" "state (cs s ! ci) = C_STATUS"
    "malloc_total malloc" "\<bar>status\<bar> < 10 ^ 10" "\<forall>x \<in> set hdrs. CHR '':'' \<in> set x" "length (concat parts) < 10 ^ 9"
  shows "\<exists>s'. reply malloc h status hdrs parts s = Inr s' \<and> client_from_handle s' h = None
    \<and> content (outbuf (cs s' ! ci)) = content (outbuf (cs s ! ci))
        @ response_text (cs s ! ci) (wants_keepalive (cs s ! ci) s) status hdrs (concat parts)
    \<and> content (inbuf (cs s' ! ci)) = drop (request_length (cs s ! ci)) (content (inbuf (cs s ! ci)))"
proof -
  have "at_client ci h (surroundings s) s (cs s ! ci)"
    using http.reachable_inv [OF assms(1)] handle_live [OF assms(2,3)] assms(3) by (simp add: at_client_def http_inv_def)
  from reply_bytes [OF this assms(5,4,6-8)] show ?thesis by blast
qed

theorem http_response_bytes_witness:
  "\<exists>s'. reply plain_malloc 0 404 [''Server: mine''] [''not '', ''found''] asked = Inr s' \<and> client_from_handle s' 0 = None"
proof -
  have "client_from_handle asked 0 = Some 0" "state (cs asked ! 0) = C_STATUS" using asked_just_asked by (simp_all add: just_asked_def)
  from http_response_bytes [OF asked_reachable asked_handle this plain_malloc(1), of 404 "[''Server: mine'']" "[''not '', ''found'']"]
  show ?thesis by auto
qed

subsection \<open>Handles\<close>

text \<open>The handle of a client finds the client again only if the position of its structure in the array is below the number of
  connected clients, which it need not be: \<^verbatim>\<open>client_from_handle\<close> compares the position with the number of clients in use instead of
  the size of the array.\<close>

theorem handle_finds_client:
  assumes "ci < 2 ^ 16"
  shows "client_from_handle s (handle_of (cs s ! ci) ci) = (if ci < ncs s then Some ci else None)"
proof -
  let ?h = "handle_of (cs s ! ci) ci"
  have m: "(0xFFFF :: u32) = mask 16" by (simp add: mask_eq_exp_minus_1)
  have "ucast (?h AND 0xFFFF) = gen (cs s ! ci)"
    unfolding m by (rule bit_word_eqI) (auto simp: handle_of_def bit_simps)
  moreover have "(ucast (drop_bit 16 ?h) :: u16) = of_nat ci"
    by (rule bit_word_eqI) (auto simp: handle_of_def bit_simps dest: bit_imp_le_length)
  ultimately show ?thesis using assms by (simp add: client_from_handle_def Let_def unat_of_nat)
qed

theorem handle_finds_client_witness: "client_from_handle asked (handle_of (cs asked ! 1) 1) = None"
  using handle_finds_client [of 1 asked] asked_just_asked by (simp add: just_asked_def)

subsection \<open>Failures\<close>

lemma sint_size_sub:
  assumes "a < 2 ^ 62" "b < 2 ^ 62"
  shows "sint (of_nat (size_sub a b) :: u64) = int a - int b"
proof -
  have "(of_nat (a + 2 ^ 64 - b) :: u64) = of_nat (a + 2 ^ 64) - of_nat b" using assms by (intro of_nat_diff) simp
  then have "(of_nat (size_sub a b) :: u64) = of_int (int a - int b)" by (simp add: size_sub_def of_nat_diff)
  then have "sint (of_nat (size_sub a b) :: u64) = signed_take_bit 63 (int a - int b)" by (simp only: signed_of_int) simp
  also have "\<dots> = int a - int b" using assms by (intro signed_take_bit_int_eq_self) auto
  finally show ?thesis .
qed

lemma socket_output_content:
  assumes "socket_output rs ci s = Inr (True, bs, s')" "ci < MAX_CLIENTS s" "state (cs s ! ci) = C_CONTENT"
  shows "\<exists>n b. bs = (case bdata (outbuf (cs s ! ci)) of None \<Rightarrow> [] | Some d \<Rightarrow> take n d) \<and> n \<le> content_length_offset (cs s ! ci)
    \<and> drop_sent n (outbuf (cs s ! ci)) = Inr b
    \<and> cs s' ! ci = (cs s ! ci)\<lparr>content_length_offset := content_length_offset (cs s ! ci) - n, outbuf := b\<rparr>"
proof -
  define c where "c = cs s ! ci"
  define limit where "limit = (if state c = C_CONTENT then content_length_offset c else bused (outbuf c))"
  obtain ok n where ls: "send_loop rs 0 limit 0 = (ok, n)" by (cases "send_loop rs 0 limit 0")
  define s1 where "s1 = (if state c = C_CONTENT then upd_client ci (\<lambda>c. c\<lparr>content_length_offset := content_length_offset c - n\<rparr>) s else s)"
  have le: "n \<le> content_length_offset c" using send_loop_le [of 0 limit rs 0] ls assms(3) by (simp add: limit_def c_def)
  obtain s2 b where s2: "(if n = limit then set_pollout False ci s1 else Inr s1) = Inr s2" "drop_sent n (outbuf c) = Inr b"
      "s' = upd_client ci (\<lambda>c. c\<lparr>outbuf := b\<rparr>) s2" "bs = (case bdata (outbuf c) of None \<Rightarrow> [] | Some d \<Rightarrow> take n d)"
    using assms(1) unfolding socket_output_def Let_def c_def [symmetric] limit_def [symmetric] ls prod.case s1_def [symmetric]
    by (auto simp: rbind_eq_Inr split: if_splits)
  have "cs s2 = cs s1" using s2(1) touches_pollout [of False ci s1 s2] by (auto split: if_splits)
  then have "cs s' ! ci = c\<lparr>content_length_offset := content_length_offset c - n, outbuf := b\<rparr>"
    using assms(2,3) unfolding s2(3) by (simp add: upd_client_def s1_def c_def)
  then show ?thesis using s2(2,4) le unfolding c_def by blast
qed

definition lost_client :: "((u32 \<times> nat \<times> u64) option \<times> request \<times> server) res" where
  "lost_client = rbind (http_server_send_response plain_malloc 0 asked) (\<lambda>s.
     http_server_wait_request plain_malloc [receives (''GET / HTTP/1.1'' @ EMPTY_LINE) [Send_error]] blank_request s)"

text \<open>A client that sends its next request while part of the previous response is unsent, and whose connection
  fails in the same round, stops the server: the client goes to the queue, is closed without being taken from there, and the next
  client taken from the queue fails the assertion that it has a request.\<close>

theorem closed_client_stops_server: "case lost_client of Inl e \<Rightarrow> e = Assert_failed | Inr _ \<Rightarrow> False"
  by code_simp

definition half_response :: string where
  "half_response = ''HTTP/1.1 200 OK'' @ CRLF @ ''Content-Length: '' @ replicate 9 (CHR '' '') @ CRLF @ CRLF @ ''hello world!''"

definition halfway_client :: client where
  "halfway_client = \<lparr>gen = 0, state = C_CONTENT, pitem = Some 1, inbuf = empty_iobuf, outbuf = \<lparr>bdata = Some half_response, bused = 58\<rparr>,
     num_served = 0, c_minor = 1, connheader = 0, content_length_offset = 33, content_offset = 46, request_length = 0, keepalive = False\<rparr>"

definition halfway :: server where
  "halfway = small_server\<lparr>ncs := 1, cs := [halfway_client, small_client]\<rparr>"

text \<open>When part of the headers of a response goes out before the response is complete, its length is announced wrong: it is
  the length of the content less the number of bytes sent, since these are taken from the output but not from the
  offset of the content.\<close>

theorem content_length_after_send:
  assumes "ci < MAX_CLIENTS s" "client_ok (cs s ! ci)" "state (cs s ! ci) = C_CONTENT" "content_offset (cs s ! ci) \<le> bused (outbuf (cs s ! ci))"
    "bused (outbuf (cs s ! ci)) < 10 ^ 8" "socket_output rs ci s = Inr (True, bs, s')"
  shows "\<exists>b. fill_content_length (cs s' ! ci) = Inr b
    \<and> content b = blit (drop (length bs) (content (outbuf (cs s ! ci)))) (content_length_offset (cs s ! ci) - length bs)
        (show_int (int (bused (outbuf (cs s ! ci)) - content_offset (cs s ! ci)) - int (length bs)))"
proof -
  define c where "c = cs s ! ci"
  have c: "ci < MAX_CLIENTS s" "client_ok c" using assms(1,2) by (simp_all add: c_def)
  obtain d where d: "bdata (outbuf c) = Some d" using content_data [OF c(2)] assms(3) by (auto simp: c_def)
  have u: "content_length_offset c + 13 \<le> bused (outbuf c)" "bused (outbuf c) \<le> length d" "iobuf_ok (outbuf c)"
    using c(2) assms(3) d by (simp_all add: client_ok_def iobuf_ok_def bsize_def c_def)
  obtain n b where n: "bs = take n d" "n \<le> content_length_offset c" "drop_sent n (outbuf c) = Inr b"
      "cs s' ! ci = c\<lparr>content_length_offset := content_length_offset c - n, outbuf := b\<rparr>"
    using socket_output_content [OF assms(6) c(1) assms(3)] d by (auto simp: c_def)
  have len: "length bs = n" using n(1,2) u by simp
  have "n \<le> bused (outbuf c)" using n(2) u by simp
  then have b: "iobuf_ok b" "content b = drop n (content (outbuf c))" "bused b = bused (outbuf c) - n"
    using drop_sent_ok [OF u(3), of n] n(3) by auto
  define x where "x = int (bused (outbuf c) - content_offset c) - int n"
  have x: "\<bar>x\<bar> < 10 ^ 8" using assms(4,5) u(1) n(2) by (simp add: x_def c_def)
  have "sint (of_nat (size_sub (bused b) (content_offset c)) :: u64) = x"
    using sint_size_sub [of "bused b" "content_offset c"] assms(4,5) u(1) n(2) by (simp add: b(3) x_def c_def)
  moreover have "length (show_int x) < 10" using length_show_int [OF x] by simp
  moreover obtain e where e: "bdata b = Some e" "bused b \<le> length e"
    using b(1,3) n(2) u(1) by (cases "bdata b") (auto simp: iobuf_ok_def bsize_def)
  moreover have "content_length_offset c - n + length (show_int x) \<le> bused b" using calculation(2) b(3) u(1) n(2) by simp
  ultimately have "fill_content_length (cs s' ! ci) = Inr (b\<lparr>bdata := Some (blit e (content_length_offset c - n) (show_int x))\<rparr>)"
      "take (bused b) (blit e (content_length_offset c - n) (show_int x)) = blit (take (bused b) e) (content_length_offset c - n) (show_int x)"
    unfolding n(4) by (simp_all add: fill_content_length_def Let_def take_blit_inside)
  then show ?thesis using b(2) e len unfolding c_def [symmetric] len x_def [symmetric] by (auto simp: content_def)
qed

theorem content_length_after_send_witness:
  "\<exists>bs s' b. socket_output [Sent 1000] 0 halfway = Inr (True, bs, s') \<and> fill_content_length (cs s' ! 0) = Inr b"
proof -
  have c: "cs halfway ! 0 = halfway_client" "MAX_CLIENTS halfway = 2" by (simp_all add: halfway_def)
  have ok: "0 < MAX_CLIENTS halfway" "client_ok (cs halfway ! 0)" "state (cs halfway ! 0) = C_CONTENT"
      "content_offset (cs halfway ! 0) \<le> bused (outbuf (cs halfway ! 0))" "bused (outbuf (cs halfway ! 0)) < 10 ^ 8"
    unfolding c by (simp_all add: halfway_client_def half_response_def client_ok_def iobuf_ok_def bsize_def empty_iobuf_def)
  have "case socket_output [Sent 1000] 0 halfway of Inr (k, bs, s') \<Rightarrow> k | Inl _ \<Rightarrow> False" by code_simp
  then obtain bs s' where o: "socket_output [Sent 1000] 0 halfway = Inr (True, bs, s')" by (auto split: sum.splits prod.splits)
  show ?thesis using content_length_after_send [OF ok o] o by blast
qed

definition huge_request :: string where
  "huge_request = ''POST / HTTP/1.1'' @ CRLF @ ''Content-Length: 18446744073709551600'' @ EMPTY_LINE"

text \<open>A request that announces a content of 2 ^ 64 - 16 bytes is handed out as complete: the length of head and content
  wraps around, and the content that the program is given lies beyond the bytes received.\<close>

theorem huge_content_accepted:
  "fst (waits [connects, receives huge_request []] small_server) = Some (0, 57, 18446744073709551600)"
  by code_simp

end
