(* ===== verification/StaticClaims.thy ===== *)
theory StaticClaims
  imports StaticSafe HttpClaims
begin

section \<open>Serving files: what the client receives\<close>

text \<open>
  Serving files on a server in any state that a program can bring it to.
\<close>

text \<open>A file system with one file, in pieces as short as \<^verbatim>\<open>read\<close> likes.\<close>

definition one_file :: "string \<Rightarrow> open_file \<Rightarrow> static_env" where
  "one_file name f = \<lparr>open_path = (\<lambda>p. if p = name then Opened (Some True) f else Open_enoent), opendir_path = (\<lambda>_. Dir_enoent),
     smu = (\<lambda>_ str. [Outfn str]), md_malloc = True, md_realloc = Realloc_in_place\<rparr>"

text \<open>C29: In every state that a program can bring the server to, whatever the file system holds and whatever memory is available, serving
  a request from a directory has one of three outcomes: it fails the assertion on the number of digits of the length of the response; it says that it did not reply,
  and nothing has changed; or it says that it replied, and then the bookkeeping of the server is in order and the handle is spent (the client may also have been closed for lack of
  memory, with nothing sent). It never touches memory that is not its own, fails no other assertion and follows no null pointer. The prefix is shorter than
  the path buffer; a listing needs a prefix; and if markup is converted, \<^verbatim>\<open>realloc\<close> must not move the buffer for it.\<close>

theorem serve_static_dir_safe:
  assumes "reachable http_init http_step s" "handle_ok s h" "malloc_ok malloc" "length mem = 1024" "length (prefix_text prefix) < 1024"
    "dir_listing \<longrightarrow> prefix \<noteq> None" "convert_md \<longrightarrow> md_realloc env \<noteq> Realloc_moves"
  shows "serve_static_dir malloc env mem dir prefix r h dir_listing convert_md s = Inl Assert_failed
    \<or> serve_static_dir malloc env mem dir prefix r h dir_listing convert_md s = Inr (False, s)
    \<or> (\<exists>s'. serve_static_dir malloc env mem dir prefix r h dir_listing convert_md s = Inr (True, s')
         \<and> http_inv s' \<and> client_from_handle s' h = None)"
proof -
  have "fine h (MAX_CLIENTS s) s" by (rule http_inv_fine [OF http.reachable_inv [OF assms(1)] assms(2)])
  from serve_answered [OF this assms(3-7), of dir r] show ?thesis using fine_http_inv by (auto simp: answered_def)
qed

theorem serve_static_dir_safe_witness:
  "let r = serve_static_dir plain_malloc (one_file ''/srv/a'' \<lparr>unread = ''abc'', limits = []\<rparr>) (replicate 1024 (CHR 0x00)) ''/srv'' (Some ''/pub'')
     blank_request 0 True False asked
   in r = Inl Assert_failed \<or> r = Inr (False, asked) \<or> (\<exists>s'. r = Inr (True, s') \<and> http_inv s' \<and> client_from_handle s' 0 = None)"
  unfolding Let_def
  by (rule serve_static_dir_safe [OF asked_reachable asked_handle plain_malloc(2)]) (simp_all add: prefix_text_def)

text \<open>The headers of a file.\<close>

definition file_headers :: "string \<Rightarrow> string list" where
  "file_headers file = (case mimetype_from_filename file of None \<Rightarrow> [] | Some m \<Rightarrow> [''Content-Type: '' @ m])"

lemma send_file_reply:
  assumes "open_path env file = Opened stat f" "is_file stat \<noteq> 0"
    and parts: "\<forall>malloc h s. copy_loop malloc h f s = each_call (http_server_append_content malloc h) parts s"
  shows "send_file malloc env h file None s = rbind (reply malloc h 200 (file_headers file) parts s) (\<lambda>s. Inr (True, s))"
proof -
  have "copy_loop malloc h f = each_call (http_server_append_content malloc h) parts" using parts by (intro ext) simp
  then show ?thesis
    using assms(1,2) mime_short [of "file"]
    by (cases "mimetype_from_filename file")
       (auto simp: send_file_def reply_def file_headers_def http_server_append_header_format_def rbind_assoc)
qed

text \<open>C17: When the request was just handed out, memory suffices and reading does not fail, sending a regular file puts exactly this into the output, after what
  was there: the status line, the type that the first matching extension of the table gives (if any), the other headers, and the bytes of the file,
  however \<^verbatim>\<open>read\<close> cuts them into pieces. The handle is spent and the request is gone from the input.\<close>

theorem static_file_response:
  assumes "reachable http_init http_step s" "handle_ok s h" "client_from_handle s h = Some ci" "state (cs s ! ci) = C_STATUS"
    "malloc_total malloc" "open_path env file = Opened (Some True) f" "None \<notin> set (limits f)" "length (unread f) < 10 ^ 9"
  shows "\<exists>s'. send_file malloc env h file None s = Inr (True, s') \<and> client_from_handle s' h = None
    \<and> content (outbuf (cs s' ! ci)) = content (outbuf (cs s ! ci))
        @ response_text (cs s ! ci) (wants_keepalive (cs s ! ci) s) 200 (file_headers file) (unread f)
    \<and> content (inbuf (cs s' ! ci)) = drop (request_length (cs s ! ci)) (content (inbuf (cs s ! ci)))"
proof -
  obtain parts where parts: "\<forall>malloc h s. copy_loop malloc h f s = each_call (http_server_append_content malloc h) parts s" "concat parts = unread f"
    using copy_parts [of f] assms(7) by blast
  have "at_client ci h (surroundings s) s (cs s ! ci)"
    using http.reachable_inv [OF assms(1)] handle_live [OF assms(2,3)] assms(3) by (simp add: at_client_def http_inv_def)
  moreover have "\<forall>x \<in> set (file_headers file). CHR '':'' \<in> set x" by (auto simp: file_headers_def split: option.splits)
  ultimately have "\<exists>s'. reply malloc h 200 (file_headers file) parts s = Inr s' \<and> server_inv s' \<and> room_ok s' \<and> client_from_handle s' h = None \<and> ci \<in> set (live s')
      \<and> content (outbuf (cs s' ! ci)) = content (outbuf (cs s ! ci))
          @ response_text (cs s ! ci) (wants_keepalive (cs s ! ci) s) 200 (file_headers file) (concat parts)
      \<and> content (inbuf (cs s' ! ci)) = drop (request_length (cs s ! ci)) (content (inbuf (cs s ! ci)))"
    using assms(4,5,8) parts(2) by (intro reply_bytes) simp_all
  then obtain s' where "reply malloc h 200 (file_headers file) parts s = Inr s'" "client_from_handle s' h = None"
      "content (outbuf (cs s' ! ci)) = content (outbuf (cs s ! ci))
        @ response_text (cs s ! ci) (wants_keepalive (cs s ! ci) s) 200 (file_headers file) (unread f)"
      "content (inbuf (cs s' ! ci)) = drop (request_length (cs s ! ci)) (content (inbuf (cs s ! ci)))"
    unfolding parts(2) by blast
  then show ?thesis using send_file_reply [OF assms(6) _ parts(1)] by (simp add: is_file_def)
qed

theorem static_file_response_witness:
  "\<exists>s'. send_file plain_malloc (one_file ''/srv/a.html'' \<lparr>unread = ''<p>hello</p>'', limits = [Some 4, Some 0]\<rparr>) 0 ''/srv/a.html'' None asked = Inr (True, s')
     \<and> client_from_handle s' 0 = None"
proof -
  have "client_from_handle asked 0 = Some 0" "state (cs asked ! 0) = C_STATUS" using asked_just_asked by (simp_all add: just_asked_def)
  from static_file_response [OF asked_reachable asked_handle this plain_malloc(1),
      of "one_file ''/srv/a.html'' \<lparr>unread = ''<p>hello</p>'', limits = [Some 4, Some 0]\<rparr>" "''/srv/a.html''"]
  show ?thesis by (auto simp: one_file_def)
qed

text \<open>Markup files of 1024 bytes and more fail: the buffer that is reallocated when it is full is still used at its old place, which is memory
  given back when it moved, and when it stayed only the first 1024 bytes of the file are read.\<close>

theorem markdown_buffer_lost:
  assumes "reachable http_init http_step s" "handle_ok s h" "malloc_ok malloc" "open_path env file = Opened (Some True) f"
    "None \<notin> set (limits f)" "md_malloc env" "1024 \<le> length (unread f)"
  shows "(md_realloc env = Realloc_moves \<longrightarrow> send_file_md malloc env h file s = Inl Out_of_bounds)
    \<and> (md_realloc env = Realloc_in_place \<longrightarrow> md_loop (md_realloc env) f [] = (False, take 1024 (unread f), False))"
proof -
  have loop: "md_realloc env \<noteq> Realloc_fails \<longrightarrow> md_loop (md_realloc env) f [] = (False, take 1024 (unread f), md_realloc env = Realloc_moves)"
    using md_loop_result [of "[]" f "md_realloc env"] assms(5,7) by auto
  have f: "fine h (MAX_CLIENTS s) s" by (rule http_inv_fine [OF http.reachable_inv [OF assms(1)] assms(2)])
  obtain s1 where s1: "http_server_set_status malloc h 200 s = Inr s1" "fine h (MAX_CLIENTS s) s1"
    using status_fine [OF f assms(3), of 200] by auto
  obtain s2 where "http_server_append_header malloc h ''Content-Type: text/html'' s1 = Inr s2"
    using header_short_fine [OF s1(2) assms(3), of "''Content-Type: text/html''"] by auto
  then show ?thesis using loop s1(1) assms(4,6) by (auto simp: send_file_md_def is_file_def)
qed

theorem markdown_buffer_lost_witness:
  "send_file_md plain_malloc ((one_file ''/srv/a.md'' \<lparr>unread = replicate 2000 (CHR ''x''), limits = []\<rparr>)\<lparr>md_realloc := Realloc_moves\<rparr>) 0 ''/srv/a.md'' asked
     = Inl Out_of_bounds"
  using markdown_buffer_lost [OF asked_reachable asked_handle plain_malloc(2), of
      "(one_file ''/srv/a.md'' \<lparr>unread = replicate 2000 (CHR ''x''), limits = []\<rparr>)\<lparr>md_realloc := Realloc_moves\<rparr>" "''/srv/a.md''"]
  by (simp add: one_file_def)

end
