(* ===== verification/Tcp.thy ===== *)
theory Tcp
  imports ByteQueue
begin

section \<open>The TCP wrapper (\<^verbatim>\<open>tcp/tcp.c\<close>): definitions\<close>

text \<open>
  The two static arrays, of servers and of stand-alone clients, are the state; their lengths are \<^verbatim>\<open>MAX_SERVERS\<close> and
  \<^verbatim>\<open>MAX_CLIENTS\<close>. A pointer to a client is its place in one of the arrays (\<open>client_ref\<close>). What the system calls
  return is an argument: the outcomes of \<^verbatim>\<open>accept\<close>, and of \<^verbatim>\<open>recv\<close> and \<^verbatim>\<open>send\<close> on each socket, and what \<^verbatim>\<open>poll\<close>
  reports; a list of outcomes that is used up stands for a call that would block. The memory of the clients of a deleted
  server is the empty array. Failing assertions, \<^verbatim>\<open>abort\<close>, accesses outside an array or through NULL are faults.
\<close>

declare rbind_cong [fundef_cong]

subsection \<open>State\<close>

type_synonym bmalloc = "nat \<Rightarrow> u8 list option"

datatype tcp_client_state = TCP_CLIENT_FREE | TCP_CLIENT_USED | TCP_CLIENT_HANGUP | TCP_CLIENT_CLOSE

datatype tcp_event_type = TCP_EVENT_NONE | TCP_EVENT_DATA | TCP_EVENT_CONNECT | TCP_EVENT_DISCONNECT

record tcp_client =
  c_state :: tcp_client_state
  event_data :: bool
  event_disconnect :: bool
  c_gen :: u16
  c_fd :: int
  user_ptr :: u64
  c_input :: byte_queue
  c_output :: byte_queue

record tcp_event =
  e_type :: tcp_event_type
  e_handle :: u32

record tcp_server =
  srv_used :: bool
  srv_gen :: u16
  srv_fd :: int
  count :: nat
  max_clients :: nat
  sclients :: "tcp_client list"
  events_head :: nat
  events_count :: nat
  events :: "tcp_event list"
  srv_closed :: "int list"

record tcp =
  servers :: "tcp_server list"
  clients :: "tcp_client list"
  tcp_closed :: "int list"

datatype client_ref = Alone nat | Child nat nat

definition MAX_EVENTS_PER_CLIENT :: nat where "MAX_EVENTS_PER_CLIENT = 3"

definition GEN_UPPER_BOUND :: u32 where "GEN_UPPER_BOUND = 0x1000"

definition TCP_INVALID :: u32 where "TCP_INVALID = - 1"

subsection \<open>Handles\<close>

definition pack_handle :: "u32 \<Rightarrow> u32 \<Rightarrow> u32 \<Rightarrow> u32 \<Rightarrow> u32 res" where
  "pack_handle sdx idx gen typ =
     rbind (c_assert (typ < 2)) (\<lambda>_.
     rbind (c_assert (sdx < 0x10)) (\<lambda>_.
     rbind (c_assert (idx < 0x4000)) (\<lambda>_.
     rbind (c_assert (gen < GEN_UPPER_BOUND)) (\<lambda>_.
       Inr (push_bit 31 typ OR push_bit 27 sdx OR push_bit 12 idx OR push_bit 1 gen)))))"

text \<open>The index, the index of the server, the generation and the type.\<close>

definition unpack_handle :: "u32 \<Rightarrow> u32 \<times> u32 \<times> u32 \<times> u32" where
  "unpack_handle handle =
     (drop_bit 12 handle AND 0x3FFF, drop_bit 27 handle AND 0xF, drop_bit 1 handle AND (GEN_UPPER_BOUND - 1), drop_bit 31 handle)"

definition handle_for_server :: "tcp \<Rightarrow> nat \<Rightarrow> u32 res" where
  "handle_for_server t si = pack_handle 0 (of_nat si) (ucast (srv_gen (servers t ! si))) 1"

text \<open>\<open>gen\<close> is the generation of the client.\<close>

definition handle_for_client :: "client_ref \<Rightarrow> u16 \<Rightarrow> u32 res" where
  "handle_for_client r gen =
     (case r of
        Alone i \<Rightarrow> pack_handle 0 (of_nat i) (ucast gen) 0
      | Child si i \<Rightarrow> pack_handle (1 + of_nat si) (of_nat i) (ucast gen) 0)"

definition server_from_handle :: "tcp \<Rightarrow> u32 \<Rightarrow> nat option res" where
  "server_from_handle t handle =
     (if handle = TCP_INVALID then Inr None
      else
        let (idx, sdx, gen, typ) = unpack_handle handle in
        if typ \<noteq> 1 then Inr None
        else if length (servers t) \<le> unat idx then Inr None
        else
          let server = servers t ! unat idx in
          if ucast (srv_gen server) \<noteq> gen then Inr None
          else rbind (c_assert (srv_used server)) (\<lambda>_. Inr (Some (unat idx))))"

definition client_from_handle :: "tcp \<Rightarrow> u32 \<Rightarrow> client_ref option res" where
  "client_from_handle t handle =
     (if handle = TCP_INVALID then Inr None
      else
        let (idx, sdx, gen, typ) = unpack_handle handle in
        if typ \<noteq> 0 then Inr None
        else if sdx = 0 then
          if length (clients t) \<le> unat idx then Inr None
          else rbind (c_assert (c_state (clients t ! unat idx) \<noteq> TCP_CLIENT_FREE)) (\<lambda>_. Inr (Some (Alone (unat idx))))
        else
          let si = unat (sdx - 1) in
          if length (servers t) \<le> si then Inr None
          else if max_clients (servers t ! si) \<le> unat idx then Inr None
          else
            rbind (rd (sclients (servers t ! si)) (unat idx)) (\<lambda>client.
              if gen \<noteq> ucast (c_gen client) then Inr None
              else rbind (c_assert (c_state client \<noteq> TCP_CLIENT_FREE)) (\<lambda>_. Inr (Some (Child si (unat idx))))))"

text \<open>The first structure that is free; \<^verbatim>\<open>abort\<close> if there is none.\<close>

definition get_server_struct :: "tcp \<Rightarrow> nat res" where
  "get_server_struct t =
     (let i = skip_while srv_used (servers t) 0 in if i < length (servers t) then Inr i else Inl Aborted)"

definition get_client_struct :: "tcp \<Rightarrow> nat res" where
  "get_client_struct t =
     (let i = skip_while (\<lambda>c. c_state c \<noteq> TCP_CLIENT_FREE) (clients t) 0 in if i < length (clients t) then Inr i else Inl Aborted)"

subsection \<open>Access to a client\<close>

definition get_client :: "tcp \<Rightarrow> client_ref \<Rightarrow> tcp_client" where
  "get_client t r = (case r of Alone i \<Rightarrow> clients t ! i | Child si i \<Rightarrow> sclients (servers t ! si) ! i)"

definition upd_sclient :: "nat \<Rightarrow> (tcp_client \<Rightarrow> tcp_client) \<Rightarrow> tcp_server \<Rightarrow> tcp_server" where
  "upd_sclient i f s = s\<lparr>sclients := (sclients s)[i := f (sclients s ! i)]\<rparr>"

definition upd_tclient :: "client_ref \<Rightarrow> (tcp_client \<Rightarrow> tcp_client) \<Rightarrow> tcp \<Rightarrow> tcp" where
  "upd_tclient r f t =
     (case r of
        Alone i \<Rightarrow> t\<lparr>clients := (clients t)[i := f (clients t ! i)]\<rparr>
      | Child si i \<Rightarrow> t\<lparr>servers := (servers t)[si := upd_sclient i f (servers t ! si)]\<rparr>)"

subsection \<open>Servers\<close>

text \<open>\<open>fd\<close> is the descriptor of the listening socket, or \<open>None\<close> if one of the calls that set it up failed; \<open>mem\<close> is
  the memory for the clients and the events, if there was any.\<close>

definition tcp_server_create :: "int option \<Rightarrow> (tcp_client list \<times> tcp_event list) option \<Rightarrow> nat \<Rightarrow> tcp \<Rightarrow> (u32 \<times> tcp) res" where
  "tcp_server_create fd mem mx t =
     rbind (get_server_struct t) (\<lambda>si.
     case fd of
       None \<Rightarrow> Inr (TCP_INVALID, t)
     | Some fd \<Rightarrow>
         (case mem of
            None \<Rightarrow> Inr (TCP_INVALID, t\<lparr>tcp_closed := tcp_closed t @ [fd]\<rparr>)
          | Some (cls, evs) \<Rightarrow>
              let server = (servers t ! si)\<lparr>srv_used := True, srv_fd := fd, count := 0, max_clients := mx,
                    sclients := map (\<lambda>c. c\<lparr>c_state := TCP_CLIENT_FREE, c_gen := 1, c_fd := - 1\<rparr>) cls,
                    events_head := 0, events_count := 0, events := evs\<rparr>;
                  t = t\<lparr>servers := (servers t)[si := server]\<rparr>
              in rbind (handle_for_server t si) (\<lambda>h. Inr (h, t))))"

definition next_gen :: "u16 \<Rightarrow> u16" where
  "next_gen g = (if ucast (g + 1) = GEN_UPPER_BOUND then 0 else g + 1)"

definition tcp_server_delete :: "u32 \<Rightarrow> tcp \<Rightarrow> tcp res" where
  "tcp_server_delete handle t =
     rbind (server_from_handle t handle) (\<lambda>si.
     case si of
       None \<Rightarrow> Inl Aborted
     | Some si \<Rightarrow>
         let server = servers t ! si in
         if length (sclients server) < max_clients server then Inl Out_of_bounds
         else
           let fds = filter (\<lambda>fd. - 1 < fd) (map c_fd (take (max_clients server) (sclients server)));
               server = server\<lparr>sclients := [], srv_used := False, srv_gen := next_gen (srv_gen server)\<rparr>
           in Inr (t\<lparr>servers := (servers t)[si := server], tcp_closed := tcp_closed t @ fds @ [srv_fd (servers t ! si)]\<rparr>))"

definition push_event :: "nat \<Rightarrow> nat \<Rightarrow> tcp_event_type \<Rightarrow> tcp_server \<Rightarrow> tcp_server res" where
  "push_event si i typ s =
     rbind (handle_for_client (Child si i) (c_gen (sclients s ! i))) (\<lambda>handle.
       let events_capacity = max_clients s * MAX_EVENTS_PER_CLIENT in
       rbind (c_assert (events_count s < events_capacity)) (\<lambda>_.
       rbind (wr (events s) ((events_head s + events_count s) mod events_capacity) \<lparr>e_type = typ, e_handle = handle\<rparr>) (\<lambda>ev.
         Inr (s\<lparr>events := ev, events_count := events_count s + 1\<rparr>))))"

text \<open>The descriptor is closed and the memory of the two queues given back; their pointers stay.\<close>

definition free_client :: "tcp_client \<Rightarrow> tcp_client" where
  "free_client c = c\<lparr>c_state := TCP_CLIENT_FREE, c_fd := - 1, c_gen := next_gen (c_gen c)\<rparr>"

subsection \<open>Moving bytes\<close>

datatype recv_outcome = Got "u8 list" | Got_eof | Got_again | Got_error

text \<open>The result is -1, 0 or 1, and the number of bytes moved, which is not set in the case of an error.\<close>

fun recv_loop :: "bmalloc \<Rightarrow> recv_outcome list \<Rightarrow> byte_queue \<Rightarrow> (int \<times> byte_queue) res" where
  "recv_loop malloc rs q =
     rbind (byte_queue_ensure_min_free_space malloc q 256) (\<lambda>(ok, q).
       if \<not> ok then Inr (- 1, q)
       else case rs of
         [] \<Rightarrow> Inr (1, q)
       | Got_again # _ \<Rightarrow> Inr (1, q)
       | Got_eof # _ \<Rightarrow> Inr (0, q)
       | Got_error # _ \<Rightarrow> Inr (- 1, q)
       | Got bs # rs \<Rightarrow>
           let bs = take (byte_queue_free_space q) bs in
           if bs = [] then Inr (0, q)
           else case data q of
             None \<Rightarrow> Inl Null_pointer
           | Some d \<Rightarrow> rbind (memcpy d (byte_queue_start_write q) bs) (\<lambda>d.
               recv_loop malloc rs (byte_queue_end_write (q\<lparr>data := Some d\<rparr>) (length bs))))"

declare recv_loop.simps [simp del]

definition move_bytes_from_socket_to_queue :: "bmalloc \<Rightarrow> recv_outcome list \<Rightarrow> byte_queue \<Rightarrow> (int \<times> nat option \<times> byte_queue) res" where
  "move_bytes_from_socket_to_queue malloc rs q =
     rbind (recv_loop malloc rs q) (\<lambda>(ret, q').
       Inr (ret, if ret = - 1 then None else Some (size_sub (byte_queue_used_space q') (byte_queue_used_space q)), q'))"

datatype send_outcome = Put nat | Put_again | Put_error

text \<open>The result, the bytes sent and the queue.\<close>

fun send_loop :: "send_outcome list \<Rightarrow> nat \<Rightarrow> byte_queue \<Rightarrow> (bool \<times> u8 list \<times> byte_queue) res" where
  "send_loop [] zeros q = Inr (True, [], q)"
| "send_loop (r # rs) zeros q =
     (if byte_queue_used_space q = 0 then Inr (True, [], q)
      else case data q of
        None \<Rightarrow> Inl Null_pointer
      | Some d \<Rightarrow>
          let src = byte_queue_start_read q; len = byte_queue_used_space q in
          if length d < src + len then Inl Out_of_bounds
          else case r of
            Put_again \<Rightarrow> Inr (True, [], q)
          | Put_error \<Rightarrow> Inr (False, [], q)
          | Put n \<Rightarrow>
              let n = min n len; zeros = (if n = 0 then zeros + 1 else 0) in
              if n = 0 \<and> zeros = 10 then Inr (False, [], q)
              else rbind (send_loop rs zeros (byte_queue_end_read q n)) (\<lambda>(ok, sent, q).
                Inr (ok, chunk d src n @ sent, q)))"

definition move_bytes_from_queue_to_socket :: "send_outcome list \<Rightarrow> byte_queue \<Rightarrow> (bool \<times> u8 list \<times> byte_queue) res" where
  "move_bytes_from_queue_to_socket rs q = send_loop rs 0 q"

subsection \<open>Polling a server\<close>

datatype accept_outcome = Conn int bool | Conn_again | Conn_error

text \<open>What \<^verbatim>\<open>poll\<close> and the sockets report: whether it failed, whether anything happened, a connection waiting, for each client (by its index)
  whether there is input, room for output or a hang-up; and what the uninitialised variable \<^verbatim>\<open>moved\<close> holds.\<close>

record tcp_env =
  poll_error :: bool
  any_ready :: bool
  conn_ready :: bool
  in_ready :: "nat \<Rightarrow> bool"
  out_ready :: "nat \<Rightarrow> bool"
  hup :: "nat \<Rightarrow> bool"
  conns :: "accept_outcome list"
  recvs :: "nat \<Rightarrow> recv_outcome list"
  sends :: "nat \<Rightarrow> send_outcome list"
  junk :: "nat \<Rightarrow> nat"

definition MAX_POLL :: nat where "MAX_POLL = 128"

text \<open>The clients that are polled, each with whether input and output are asked for.\<close>

definition poll_entry :: "tcp_client \<Rightarrow> (bool \<times> bool) option" where
  "poll_entry c =
     (case c_state c of
        TCP_CLIENT_USED \<Rightarrow> Some (True, 0 < byte_queue_used_space (c_output c))
      | TCP_CLIENT_CLOSE \<Rightarrow> Some (False, True)
      | _ \<Rightarrow> None)"

definition poll_list :: "tcp_server \<Rightarrow> (nat \<times> bool \<times> bool) list" where
  "poll_list s = concat (map (\<lambda>i. case poll_entry (sclients s ! i) of None \<Rightarrow> [] | Some e \<Rightarrow> [(i, e)]) [0..<max_clients s])"

definition accept_client :: "nat \<Rightarrow> int \<Rightarrow> tcp_server \<Rightarrow> tcp_server res" where
  "accept_client si fd s =
     (let i = skip_while (\<lambda>c. c_state c \<noteq> TCP_CLIENT_FREE) (sclients s) 0 in
      rbind (c_assert (i < max_clients s)) (\<lambda>_.
        let s = upd_sclient i (\<lambda>c. c\<lparr>c_state := TCP_CLIENT_USED, c_fd := fd, user_ptr := 0,
                  c_input := byte_queue_init, c_output := byte_queue_init\<rparr>) s;
            s = s\<lparr>count := count s + 1\<rparr>
        in push_event si i TCP_EVENT_CONNECT s))"

fun accept_loop :: "nat \<Rightarrow> accept_outcome list \<Rightarrow> tcp_server \<Rightarrow> tcp_server res" where
  "accept_loop si [] s = Inr s"
| "accept_loop si (a # as) s =
     (if count s < max_clients s then
        case a of
          Conn_again \<Rightarrow> Inr s
        | Conn_error \<Rightarrow> accept_loop si as s
        | Conn fd non_blocking \<Rightarrow>
            if \<not> non_blocking then accept_loop si as (s\<lparr>srv_closed := srv_closed s @ [fd]\<rparr>)
            else rbind (accept_client si fd s) (\<lambda>s. accept_loop si as s)
      else Inr s)"

text \<open>The input of one client.\<close>

definition client_input :: "bmalloc \<Rightarrow> tcp_env \<Rightarrow> nat \<Rightarrow> nat \<times> bool \<times> bool \<Rightarrow> tcp_server \<Rightarrow> tcp_server res" where
  "client_input malloc env si e s =
     (let (i, asks_in, asks_out) = e; client = sclients s ! i in
      if c_state client = TCP_CLIENT_FREE then Inr s
      else if asks_in \<and> in_ready env i \<or> hup env i then
        rbind (move_bytes_from_socket_to_queue malloc (recvs env i) (c_input client)) (\<lambda>(ret, moved, q).
          let moved = (case moved of None \<Rightarrow> junk env i | Some n \<Rightarrow> n);
              s = upd_sclient i (\<lambda>c. c\<lparr>c_input := q\<rparr>) s
          in rbind (if 0 < moved then push_event si i TCP_EVENT_DATA s else Inr s) (\<lambda>s.
             if ret = 1 then Inr s
             else push_event si i TCP_EVENT_DISCONNECT (upd_sclient i (\<lambda>c. c\<lparr>c_state := TCP_CLIENT_HANGUP\<rparr>) s)))
      else Inr s)"

definition client_output :: "tcp_env \<Rightarrow> nat \<Rightarrow> nat \<times> bool \<times> bool \<Rightarrow> tcp_server \<Rightarrow> tcp_server res" where
  "client_output env si e s =
     (let (i, asks_in, asks_out) = e; client = sclients s ! i in
      if c_state client \<noteq> TCP_CLIENT_USED \<and> c_state client \<noteq> TCP_CLIENT_CLOSE then Inr s
      else if asks_out \<and> out_ready env i then
        rbind (move_bytes_from_queue_to_socket (sends env i) (c_output client)) (\<lambda>(ok, _, q).
          let s = upd_sclient i (\<lambda>c. c\<lparr>c_output := q\<rparr>) s in
          if c_state client = TCP_CLIENT_CLOSE then
            if \<not> ok \<or> byte_queue_used_space q = 0
            then Inr ((upd_sclient i free_client s)\<lparr>srv_closed := srv_closed s @ [c_fd client]\<rparr>)
            else Inr s
          else if \<not> ok then push_event si i TCP_EVENT_DISCONNECT (upd_sclient i (\<lambda>c. c\<lparr>c_state := TCP_CLIENT_HANGUP\<rparr>) s)
          else Inr s)
      else Inr s)"

fun each_entry :: "(nat \<times> bool \<times> bool \<Rightarrow> tcp_server \<Rightarrow> tcp_server res) \<Rightarrow> (nat \<times> bool \<times> bool) list \<Rightarrow> tcp_server \<Rightarrow> tcp_server res" where
  "each_entry f [] s = Inr s"
| "each_entry f (e # es) s = rbind (f e s) (\<lambda>s. each_entry f es s)"

text \<open>A poll of the server at index \<open>si\<close>.\<close>

definition poll_server :: "bmalloc \<Rightarrow> tcp_env \<Rightarrow> nat \<Rightarrow> tcp_server \<Rightarrow> tcp_server res" where
  "poll_server malloc env si s =
     rbind (c_assert (events_count s = 0)) (\<lambda>_.
       if MAX_POLL \<le> count s then Inl Aborted
       else if length (sclients s) < max_clients s then Inl Out_of_bounds
       else
         let es = poll_list s in
         if MAX_POLL \<le> length es then Inl Out_of_bounds
         else if poll_error env \<or> \<not> any_ready env then Inr s
         else
           rbind (if conn_ready env then accept_loop si (conns env) s else Inr s) (\<lambda>s.
           rbind (each_entry (client_input malloc env si) es s) (\<lambda>s.
             each_entry (client_output env si) es s)))"

definition tcp_server_poll :: "bmalloc \<Rightarrow> tcp_env \<Rightarrow> u32 \<Rightarrow> tcp \<Rightarrow> tcp res" where
  "tcp_server_poll malloc env handle t =
     rbind (server_from_handle t handle) (\<lambda>si.
     case si of
       None \<Rightarrow> Inl Aborted
     | Some si \<Rightarrow> rbind (poll_server malloc env si (servers t ! si)) (\<lambda>s. Inr (t\<lparr>servers := (servers t)[si := s]\<rparr>)))"

definition pop_event :: "tcp_server \<Rightarrow> (tcp_event \<times> tcp_server) res" where
  "pop_event s =
     (if events_count s = 0 then Inr (\<lparr>e_type = TCP_EVENT_NONE, e_handle = TCP_INVALID\<rparr>, s)
      else rbind (rd (events s) (events_head s)) (\<lambda>event.
        let events_capacity = max_clients s * MAX_EVENTS_PER_CLIENT in
        Inr (event, s\<lparr>events_head := (events_head s + 1) mod events_capacity, events_count := events_count s - 1\<rparr>)))"

definition tcp_server_event :: "u32 \<Rightarrow> tcp \<Rightarrow> (tcp_event \<times> tcp) res" where
  "tcp_server_event handle t =
     rbind (server_from_handle t handle) (\<lambda>si.
     case si of
       None \<Rightarrow> Inl Aborted
     | Some si \<Rightarrow> rbind (pop_event (servers t ! si)) (\<lambda>(e, s). Inr (e, t\<lparr>servers := (servers t)[si := s]\<rparr>)))"

subsection \<open>Clients\<close>

text \<open>The client a handle names; \<^verbatim>\<open>abort\<close> if there is none.\<close>

definition need_client :: "tcp \<Rightarrow> u32 \<Rightarrow> client_ref res" where
  "need_client t handle =
     rbind (client_from_handle t handle) (\<lambda>r. case r of None \<Rightarrow> Inl Aborted | Some r \<Rightarrow> Inr r)"

definition release_client :: "client_ref \<Rightarrow> tcp \<Rightarrow> tcp" where
  "release_client r t = (upd_tclient r free_client t)\<lparr>tcp_closed := tcp_closed t @ [c_fd (get_client t r)]\<rparr>"

definition tcp_client_close :: "u32 \<Rightarrow> tcp \<Rightarrow> tcp res" where
  "tcp_client_close handle t =
     rbind (need_client t handle) (\<lambda>r.
       let client = get_client t r in
       if c_state client = TCP_CLIENT_HANGUP \<or> byte_queue_used_space (c_output client) = 0 then Inr (release_client r t)
       else case r of
         Child si i \<Rightarrow> Inr (upd_tclient r (\<lambda>c. c\<lparr>c_state := TCP_CLIENT_CLOSE\<rparr>) t)
       | Alone i \<Rightarrow> Inr (release_client r t))"

definition tcp_client_get_input_data :: "u32 \<Rightarrow> tcp \<Rightarrow> nat res" where
  "tcp_client_get_input_data handle t = rbind (need_client t handle) (\<lambda>r. Inr (byte_queue_start_read (c_input (get_client t r))))"

definition tcp_client_get_input_size :: "u32 \<Rightarrow> tcp \<Rightarrow> nat res" where
  "tcp_client_get_input_size handle t = rbind (need_client t handle) (\<lambda>r. Inr (byte_queue_used_space (c_input (get_client t r))))"

definition tcp_client_get_user_ptr :: "u32 \<Rightarrow> tcp \<Rightarrow> u64 res" where
  "tcp_client_get_user_ptr handle t = rbind (need_client t handle) (\<lambda>r. Inr (user_ptr (get_client t r)))"

definition tcp_client_set_user_ptr :: "u32 \<Rightarrow> u64 \<Rightarrow> tcp \<Rightarrow> tcp res" where
  "tcp_client_set_user_ptr handle p t = rbind (need_client t handle) (\<lambda>r. Inr (upd_tclient r (\<lambda>c. c\<lparr>user_ptr := p\<rparr>) t))"

definition tcp_client_read :: "u32 \<Rightarrow> nat \<Rightarrow> tcp \<Rightarrow> tcp res" where
  "tcp_client_read handle num t =
     rbind (need_client t handle) (\<lambda>r. Inr (upd_tclient r (\<lambda>c. c\<lparr>c_input := byte_queue_end_read (c_input c) num\<rparr>) t))"

definition tcp_client_write :: "bmalloc \<Rightarrow> u32 \<Rightarrow> u8 list \<Rightarrow> tcp \<Rightarrow> tcp res" where
  "tcp_client_write malloc handle bs t =
     rbind (need_client t handle) (\<lambda>r.
       let client = get_client t r in
       if c_state client \<noteq> TCP_CLIENT_USED then Inr t
       else rbind (bq_write malloc bs (c_output client)) (\<lambda>(ok, q).
         if \<not> ok then Inl Aborted else Inr (upd_tclient r (\<lambda>c. c\<lparr>c_output := q\<rparr>) t)))"

text \<open>\<open>fd\<close> is the connected descriptor, or \<open>None\<close> if one of the calls that set it up failed.\<close>

definition tcp_client_create :: "int option \<Rightarrow> tcp \<Rightarrow> (u32 \<times> tcp) res" where
  "tcp_client_create fd t =
     rbind (get_client_struct t) (\<lambda>i.
     case fd of
       None \<Rightarrow> Inr (TCP_INVALID, t)
     | Some fd \<Rightarrow>
         let t = upd_tclient (Alone i) (\<lambda>c. c\<lparr>c_state := TCP_CLIENT_USED, c_fd := fd, user_ptr := 0, event_data := False,
                   event_disconnect := False, c_input := byte_queue_init, c_output := byte_queue_init\<rparr>) t
         in rbind (handle_for_client (Alone i) (c_gen (clients t ! i))) (\<lambda>h. Inr (h, t)))"

text \<open>The stand-alone client a handle names. The handle of a server leaves the variable \<^verbatim>\<open>server\<close> unset and gives NULL, as
  does the invalid handle; the client of a server makes \<^verbatim>\<open>abort\<close>.\<close>

definition need_alone :: "tcp \<Rightarrow> u32 \<Rightarrow> nat res" where
  "need_alone t handle =
     rbind (client_from_handle t handle) (\<lambda>r.
       case r of None \<Rightarrow> Inl Null_pointer | Some (Child _ _) \<Rightarrow> Inl Aborted | Some (Alone i) \<Rightarrow> Inr i)"

text \<open>The input and the output of a stand-alone client; the environment speaks of it by its index. The result of the
  output says whether the client was freed.\<close>

definition alone_input :: "bmalloc \<Rightarrow> tcp_env \<Rightarrow> nat \<Rightarrow> tcp_client \<Rightarrow> tcp_client res" where
  "alone_input malloc env i c =
     (if in_ready env i \<or> hup env i then
        rbind (move_bytes_from_socket_to_queue malloc (recvs env i) (c_input c)) (\<lambda>(ret, moved, q).
          let moved = (case moved of None \<Rightarrow> junk env i | Some n \<Rightarrow> n);
              c = c\<lparr>c_input := q\<rparr>;
              c = (if 0 < moved then c\<lparr>event_data := True\<rparr> else c)
          in Inr (if ret = 1 then c else c\<lparr>c_state := TCP_CLIENT_HANGUP, event_disconnect := True\<rparr>))
      else Inr c)"

definition alone_output :: "tcp_env \<Rightarrow> nat \<Rightarrow> tcp_client \<Rightarrow> tcp_client res" where
  "alone_output env i c =
     (if out_ready env i then
        rbind (move_bytes_from_queue_to_socket (sends env i) (c_output c)) (\<lambda>(ok, _, q).
          let c = c\<lparr>c_output := q\<rparr> in
          if c_state c = TCP_CLIENT_CLOSE then Inr (if \<not> ok \<or> byte_queue_used_space q = 0 then free_client c else c)
          else rbind (c_assert (c_state c = TCP_CLIENT_USED)) (\<lambda>_.
            Inr (if \<not> ok then c\<lparr>c_state := TCP_CLIENT_HANGUP, event_disconnect := True\<rparr> else c)))
      else Inr c)"

definition tcp_client_poll :: "bmalloc \<Rightarrow> tcp_env \<Rightarrow> u32 \<Rightarrow> tcp \<Rightarrow> tcp res" where
  "tcp_client_poll malloc env handle t =
     rbind (need_alone t handle) (\<lambda>i.
       let client = clients t ! i in
       rbind (c_assert (c_state client = TCP_CLIENT_USED \<or> c_state client = TCP_CLIENT_HANGUP)) (\<lambda>_.
         if event_data client \<or> event_disconnect client then Inr t
         else if poll_error env then Inl Aborted
         else
           let env' = env\<lparr>out_ready := (\<lambda>j. out_ready env j \<and> 0 < byte_queue_used_space (c_output client))\<rparr> in
           rbind (alone_input malloc env' i client) (\<lambda>client.
           rbind (alone_output env' i client) (\<lambda>client.
             Inr (t\<lparr>clients := (clients t)[i := client]\<rparr>)))))"

definition tcp_client_event :: "u32 \<Rightarrow> tcp \<Rightarrow> (tcp_event \<times> tcp) res" where
  "tcp_client_event handle t =
     rbind (need_alone t handle) (\<lambda>i.
       let client = clients t ! i in
       if event_data client then
         Inr (\<lparr>e_type = TCP_EVENT_DATA, e_handle = handle\<rparr>, upd_tclient (Alone i) (\<lambda>c. c\<lparr>event_data := False\<rparr>) t)
       else if event_disconnect client then
         Inr (\<lparr>e_type = TCP_EVENT_DISCONNECT, e_handle = handle\<rparr>, upd_tclient (Alone i) (\<lambda>c. c\<lparr>event_disconnect := False\<rparr>) t)
       else Inr (\<lparr>e_type = TCP_EVENT_NONE, e_handle = TCP_INVALID\<rparr>, t))"

end
