(* ===== verification/TcpServer.thy ===== *)
theory TcpServer
  imports Tcp
begin

section \<open>The TCP wrapper: handles and servers\<close>

text \<open>
  What a handle keeps of the numbers packed into it, and the invariant of a server: its arrays, the generations,
  the number of clients in use and the ring of events. A poll keeps it and cannot overflow the ring.
\<close>

subsection \<open>Handles\<close>

lemma bit_less: "bit (w :: 'a::len word) n \<Longrightarrow> w < 2 ^ k \<Longrightarrow> k < LENGTH('a) \<Longrightarrow> n < k"
proof (rule ccontr)
  assume a: "bit w n" "w < 2 ^ k" "k < LENGTH('a)" "\<not> n < k"
  have "odd (unat w div 2 ^ n)" using a(1) by (simp add: bit_unsigned_iff bit_iff_odd [symmetric] bit_imp_le_length)
  then have "2 ^ n \<le> unat w" by (metis div_less dvd_0_right not_le)
  moreover have "unat w < 2 ^ k" using a(2,3) by (simp add: word_less_nat_alt unat_pow2)
  moreover have "(2 :: nat) ^ k \<le> 2 ^ n" using a(4) by (intro power_increasing) auto
  ultimately show False by linarith
qed

lemma pack_handle_Inr:
  "pack_handle sdx idx gen typ = Inr h \<longleftrightarrow>
     typ < 2 \<and> sdx < 0x10 \<and> idx < 0x4000 \<and> gen < 0x1000 \<and> h = push_bit 31 typ OR push_bit 27 sdx OR push_bit 12 idx OR push_bit 1 gen"
  by (auto simp: pack_handle_def rbind_eq_Inr c_assert_def GEN_UPPER_BOUND_def split: if_splits)

text \<open>What comes back out of a handle: the lowest bit of the index and the highest bit of the generation share a place, so
  that each is set when either was.\<close>

lemma handle_fields_overlap:
  assumes "pack_handle sdx idx gen typ = Inr h"
  shows "unpack_handle h = (idx OR drop_bit 11 gen, sdx, gen OR push_bit 11 (take_bit 1 idx), typ)"
proof -
  have b: "typ < 2 ^ 1" "sdx < 2 ^ 4" "idx < 2 ^ 14" "gen < 2 ^ 12" and h: "h = push_bit 31 typ OR push_bit 27 sdx OR push_bit 12 idx OR push_bit 1 gen"
    using assms by (simp_all add: pack_handle_Inr)
  have m: "(0x3FFF :: u32) = mask 14" "(0xF :: u32) = mask 4" "GEN_UPPER_BOUND - 1 = mask 12"
    by (simp_all add: mask_eq_exp_minus_1 GEN_UPPER_BOUND_def)
  have bt: "bit typ n \<Longrightarrow> n < 1" and bs: "bit sdx n \<Longrightarrow> n < 4" and bi: "bit idx n \<Longrightarrow> n < 14" and bg: "bit gen n \<Longrightarrow> n < 12" for n
    using bit_less [OF _ b(1)] bit_less [OF _ b(2)] bit_less [OF _ b(3)] bit_less [OF _ b(4)] by simp_all
  have g: "bit (gen * 2) n \<longleftrightarrow> n < 32 \<and> 0 < n \<and> bit gen (n - 1)" for n
    using bit_double_iff [of gen n] by (auto simp: mult.commute dest: bit_imp_le_length)
  have "drop_bit 12 h AND mask 14 = idx OR drop_bit 11 gen"
    by (rule bit_word_eqI) (auto simp: h g bit_simps bit_0 dest: bt bs bi bg)
  moreover have "drop_bit 27 h AND mask 4 = sdx"
    by (rule bit_word_eqI) (auto simp: h g bit_simps bit_0 dest: bt bs bi bg)
  moreover have "drop_bit 1 h AND mask 12 = gen OR push_bit 11 (take_bit 1 idx)"
    by (rule bit_word_eqI) (auto simp: h g bit_simps bit_0 dest: bt bs bi bg)
  moreover have "drop_bit 31 h = typ"
    by (rule bit_word_eqI) (auto simp: h g bit_simps bit_0 dest: bt bs bi bg)
  ultimately show ?thesis by (simp add: unpack_handle_def m)
qed

subsection \<open>The invariant of a server\<close>

definition in_use :: "tcp_server \<Rightarrow> nat" where
  "in_use s = length (filter (\<lambda>c. c_state c \<noteq> TCP_CLIENT_FREE) (sclients s))"

definition srv_ok :: "nat \<Rightarrow> tcp_server \<Rightarrow> bool" where
  "srv_ok si s \<longleftrightarrow> si < 15 \<and> length (sclients s) = max_clients s \<and> max_clients s \<le> 2 ^ 14 \<and> length (events s) = max_clients s * 3
     \<and> (0 < max_clients s \<longrightarrow> events_head s < max_clients s * 3) \<and> events_count s \<le> max_clients s * 3
     \<and> (\<forall>c \<in> set (sclients s). c_gen c < 0x1000) \<and> in_use s \<le> count s \<and> count s \<le> max_clients s"

definition waiting :: "tcp_server \<Rightarrow> tcp_event list" where
  "waiting s = map (\<lambda>j. events s ! ((events_head s + j) mod (max_clients s * 3))) [0..<events_count s]"

lemma length_waiting [simp]: "length (waiting s) = events_count s"
  by (simp add: waiting_def)

lemma srv_okD:
  assumes "srv_ok si s"
  shows "length (sclients s) = max_clients s" "length (events s) = max_clients s * 3" "events_count s \<le> max_clients s * 3"
    "in_use s \<le> count s" "count s \<le> max_clients s"
  using assms by (simp_all add: srv_ok_def)

lemma unat_gen: "unat (ucast (g :: u16) :: u32) = unat g"
proof -
  have "unat g < 2 ^ 32" using unsigned_less [of g, where ?'a = nat] by simp
  then show ?thesis by (simp add: unsigned_ucast_eq take_bit_nat_eq_self)
qed

lemma child_handle:
  assumes "si < 15" "i < 2 ^ 14" "g < 0x1000"
  shows "\<exists>h. handle_for_client (Child si i) g = Inr h"
proof -
  have "(of_nat i :: u32) < 0x4000" "(1 + of_nat si :: u32) < 0x10" "(ucast g :: u32) < 0x1000"
  proof -
    show "(of_nat i :: u32) < 0x4000" using assms(2) by (simp add: word_less_nat_alt unat_of_nat)
    have "(1 + of_nat si :: u32) = of_nat (Suc si)" by simp
    then show "(1 + of_nat si :: u32) < 0x10" using assms(1) by (simp add: word_less_nat_alt unat_of_nat del: of_nat_Suc)
    show "(ucast g :: u32) < 0x1000" using assms(3) by (simp add: word_less_nat_alt unat_gen)
  qed
  then show ?thesis by (simp add: handle_for_client_def pack_handle_def GEN_UPPER_BOUND_def)
qed

text \<open>An event goes to the end of those that wait.\<close>

lemma push_event_ok:
  assumes "srv_ok si s" "i < max_clients s" "events_count s < max_clients s * 3"
  shows "\<exists>s' e. push_event si i typ s = Inr s' \<and> srv_ok si s' \<and> e_type e = typ \<and> waiting s' = waiting s @ [e]
    \<and> sclients s' = sclients s \<and> count s' = count s \<and> max_clients s' = max_clients s \<and> events_count s' = Suc (events_count s)"
proof -
  let ?n = "max_clients s * 3"
  have ok: "si < 15" "length (sclients s) = max_clients s" "max_clients s \<le> 2 ^ 14" "length (events s) = ?n" "events_head s < ?n" "\<forall>c \<in> set (sclients s). c_gen c < 0x1000"
    using assms(1,2) by (auto simp: srv_ok_def)
  have "c_gen (sclients s ! i) < 0x1000" "i < 2 ^ 14" using ok assms(2) by auto
  then obtain h where h: "handle_for_client (Child si i) (c_gen (sclients s ! i)) = Inr h" using child_handle [OF ok(1)] by blast
  define e where "e = \<lparr>e_type = typ, e_handle = h\<rparr>"
  define p where "p = (events_head s + events_count s) mod ?n"
  define s' where "s' = s\<lparr>events := (events s)[p := e], events_count := events_count s + 1\<rparr>"
  have p: "p < ?n" using assms(2) by (simp add: p_def)
  have "push_event si i typ s = Inr s'"
    using h p ok(4) assms(3) by (simp add: push_event_def MAX_EVENTS_PER_CLIENT_def Let_def s'_def e_def p_def)
  moreover have "(events s)[p := e] ! ((events_head s + j) mod ?n) = events s ! ((events_head s + j) mod ?n)" if "j < events_count s" for j
  proof -
    have "(events_head s + j) mod ?n \<noteq> p"
      unfolding p_def using mod_neq [of "events_head s + j" "events_head s + events_count s" ?n] that assms(3) by simp
    then show ?thesis by simp
  qed
  then have "waiting s' = waiting s @ [e]"
    using p ok(4) by (simp add: waiting_def s'_def p_def [symmetric] cong: map_cong)
  moreover have "srv_ok si s'" using assms by (simp add: srv_ok_def s'_def in_use_def)
  ultimately show ?thesis by (auto simp: s'_def e_def)
qed

text \<open>The oldest event comes out.\<close>

lemma pop_event_ok:
  assumes "srv_ok si s" "0 < events_count s"
  shows "\<exists>s' e. pop_event s = Inr (e, s') \<and> srv_ok si s' \<and> waiting s = e # waiting s' \<and> sclients s' = sclients s \<and> count s' = count s
    \<and> max_clients s' = max_clients s"
proof -
  let ?n = "max_clients s * 3"
  have ok: "length (events s) = ?n" "events_head s < ?n" "0 < ?n" using assms by (auto simp: srv_ok_def)
  define s' where "s' = s\<lparr>events_head := (events_head s + 1) mod ?n, events_count := events_count s - 1\<rparr>"
  obtain n where n: "events_count s = Suc n" using assms(2) gr0_implies_Suc by blast
  have "pop_event s = Inr (events s ! events_head s, s')"
    using assms(2) ok by (simp add: pop_event_def MAX_EVENTS_PER_CLIENT_def Let_def s'_def)
  moreover have "waiting s = (events s ! events_head s) # waiting s'"
    using ok by (simp add: waiting_def s'_def n upt_conv_Cons map_Suc_upt [symmetric] mod_simps del: upt_Suc)
  moreover have "srv_ok si s'" using assms(1) ok(3) by (auto simp: srv_ok_def s'_def in_use_def)
  ultimately show ?thesis by (auto simp: s'_def)
qed

subsection \<open>Changing a client\<close>

lemma upd_sclient_sel [simp]:
  "count (upd_sclient i f s) = count s" "max_clients (upd_sclient i f s) = max_clients s" "events (upd_sclient i f s) = events s"
  "events_head (upd_sclient i f s) = events_head s" "events_count (upd_sclient i f s) = events_count s" "waiting (upd_sclient i f s) = waiting s"
  "srv_used (upd_sclient i f s) = srv_used s" "srv_gen (upd_sclient i f s) = srv_gen s"
  by (simp_all add: upd_sclient_def waiting_def)

lemma upd_sclient_ok:
  assumes "srv_ok si s" "i < max_clients s" "c_gen (f (sclients s ! i)) < 0x1000"
    "c_state (f (sclients s ! i)) \<noteq> TCP_CLIENT_FREE \<longrightarrow> c_state (sclients s ! i) \<noteq> TCP_CLIENT_FREE"
  shows "srv_ok si (upd_sclient i f s)"
proof -
  have len: "i < length (sclients s)" using srv_okD(1) [OF assms(1)] assms(2) by simp
  have "in_use (upd_sclient i f s) \<le> in_use s"
    using length_filter_update [OF len, of "\<lambda>c. c_state c \<noteq> TCP_CLIENT_FREE" "f (sclients s ! i)"] assms(4)
    by (auto simp: in_use_def upd_sclient_def split: if_splits)
  moreover have "c_gen c < 0x1000" if "c \<in> set ((sclients s)[i := f (sclients s ! i)])" for c
    using that assms(1,3) set_update_subset_insert [of "sclients s" i "f (sclients s ! i)"] by (auto simp: srv_ok_def)
  ultimately show ?thesis using assms(1) by (auto simp: srv_ok_def upd_sclient_def)
qed

lemma next_gen_less: "g < 0x1000 \<Longrightarrow> next_gen g < 0x1000"
proof -
  assume g: "g < 0x1000"
  have "unat (g + 1) = unat g + 1" using g by (simp add: unat_word_ariths word_less_nat_alt)
  moreover have "ucast (g + 1) = GEN_UPPER_BOUND \<longleftrightarrow> unat (g + 1) = 0x1000"
    by (auto simp: GEN_UPPER_BOUND_def word_unat_eq_iff unat_gen)
  ultimately show ?thesis using g by (auto simp: next_gen_def word_less_nat_alt)
qed

lemma gen_ok: "srv_ok si s \<Longrightarrow> i < max_clients s \<Longrightarrow> c_gen (sclients s ! i) < 0x1000"
  by (auto simp: srv_ok_def)

subsection \<open>Moving bytes\<close>

text \<open>Either the result is as wanted or the byte queue touched memory it should not.\<close>

definition only_memory :: "'a res \<Rightarrow> ('a \<Rightarrow> bool) \<Rightarrow> bool" where
  "only_memory r P \<longleftrightarrow> (case r of Inl e \<Rightarrow> e = Out_of_bounds \<or> e = Null_pointer | Inr x \<Rightarrow> P x)"

lemma only_memory_Inr [simp]: "only_memory (Inr x) P = P x"
  by (simp add: only_memory_def)

lemma only_memory_bind:
  assumes "only_memory r P" "\<And>x. r = Inr x \<Longrightarrow> P x \<Longrightarrow> only_memory (f x) Q"
  shows "only_memory (rbind r f) Q"
  using assms by (cases r) (auto simp: only_memory_def)

lemma only_memory_mono: "only_memory r P \<Longrightarrow> (\<And>x. P x \<Longrightarrow> Q x) \<Longrightarrow> only_memory r Q"
  by (cases r) (auto simp: only_memory_def)

lemma only_memory_faults [simp]: "only_memory (Inl Out_of_bounds) P" "only_memory (Inl Null_pointer) P"
  by (simp_all add: only_memory_def)

lemma memcpy_only [simp]: "only_memory (memcpy d off bs) (\<lambda>_. True)" "only_memory (memmove xs a b n) (\<lambda>_. True)"
  by (simp_all add: memcpy_def memmove_def)

lemma ensure_only: "only_memory (byte_queue_ensure_min_free_space malloc q n) (\<lambda>_. True)"
  by (auto simp: byte_queue_ensure_min_free_space_def Let_def intro!: only_memory_bind [where P = "\<lambda>_. True"] split: option.split)

lemma recv_loop_only: "only_memory (recv_loop malloc rs q) (\<lambda>(ret, q'). ret \<in> {- 1, 0, 1})"
proof (induction rs arbitrary: q)
  case Nil
  show ?case by (subst recv_loop.simps) (auto intro!: only_memory_bind [OF ensure_only])
next
  case (Cons r rs)
  have "only_memory (rbind (memcpy d (byte_queue_start_write q) bs) (\<lambda>d. recv_loop malloc rs (f d))) (\<lambda>(ret, q'). ret \<in> {- 1, 0, 1})" for d q bs f
    by (rule only_memory_bind [of _ "\<lambda>_. True"]) (use Cons.IH in auto)
  then show ?case
    by (subst recv_loop.simps) (auto simp: Let_def intro!: only_memory_bind [OF ensure_only] split: recv_outcome.split option.split)
qed

lemma move_in_only: "only_memory (move_bytes_from_socket_to_queue malloc rs q) (\<lambda>(ret, moved, q'). ret \<in> {- 1, 0, 1})"
  unfolding move_bytes_from_socket_to_queue_def by (rule only_memory_bind [OF recv_loop_only]) auto

lemma send_loop_only: "only_memory (send_loop rs z q) (\<lambda>_. True)"
proof (induction rs arbitrary: z q)
  case (Cons r rs)
  show ?case
    by (auto simp: Let_def intro!: only_memory_bind [OF Cons.IH] split: send_outcome.split option.split)
qed simp

subsection \<open>Polling\<close>

lemma skip_while_found:
  assumes "length (filter (\<lambda>x. p x) xs) < length xs"
  shows "skip_while p xs 0 < length xs \<and> \<not> p (xs ! skip_while p xs 0)"
proof -
  have eq: "skip_while p xs 0 = length (takeWhile p xs)" by (simp add: skip_while_eq)
  have "takeWhile p xs \<noteq> xs"
  proof
    assume "takeWhile p xs = xs"
    then have "filter p xs = xs" by (metis filter_True set_takeWhileD)
    with assms show False by simp
  qed
  then have "length (takeWhile p xs) < length xs" by (metis le_neq_implies_less length_takeWhile_le takeWhile_eq_take take_all_iff order_refl)
  then show ?thesis using nth_length_takeWhile [of p xs] by (simp add: eq)
qed

lemma tcp_accept_client_ok:
  assumes "srv_ok si s" "count s < max_clients s" "events_count s < max_clients s * 3"
  shows "\<exists>s'. accept_client si fd s = Inr s' \<and> srv_ok si s' \<and> count s' = Suc (count s) \<and> max_clients s' = max_clients s \<and> events_count s' = Suc (events_count s)"
proof -
  define i where "i = skip_while (\<lambda>c. c_state c \<noteq> TCP_CLIENT_FREE) (sclients s) 0"
  note ok = srv_okD [OF assms(1)]
  have i: "i < length (sclients s)" "c_state (sclients s ! i) = TCP_CLIENT_FREE"
    using skip_while_found [of "\<lambda>c. c_state c \<noteq> TCP_CLIENT_FREE" "sclients s"] ok(1,4) assms(2) by (auto simp: i_def in_use_def)
  let ?f = "\<lambda>c. c\<lparr>c_state := TCP_CLIENT_USED, c_fd := fd, user_ptr := 0, c_input := byte_queue_init, c_output := byte_queue_init\<rparr>"
  define s1 where "s1 = (upd_sclient i ?f s)\<lparr>count := count s + 1\<rparr>"
  have "in_use s1 = Suc (in_use s)"
    using length_filter_update [OF i(1), of "\<lambda>c. c_state c \<noteq> TCP_CLIENT_FREE" "?f (sclients s ! i)"] i(2)
    by (simp add: in_use_def s1_def upd_sclient_def)
  moreover have "c_gen c < 0x1000" if "c \<in> set ((sclients s)[i := ?f (sclients s ! i)])" for c
    using that gen_ok [OF assms(1), of i] i(1) ok(1) assms(1) set_update_subset_insert [of "sclients s" i "?f (sclients s ! i)"] by (auto simp: srv_ok_def)
  ultimately have s1: "srv_ok si s1" using assms(1,2) by (auto simp: srv_ok_def s1_def upd_sclient_def)
  have "accept_client si fd s = push_event si i TCP_EVENT_CONNECT s1"
    using i(1) ok(1) by (simp add: accept_client_def Let_def i_def [symmetric] s1_def)
  then show ?thesis using push_event_ok [OF s1, of i TCP_EVENT_CONNECT] i(1) ok(1) assms(3) by (auto simp: s1_def)
qed

lemma tcp_accept_loop_ok:
  assumes "srv_ok si s" "events_count s + (max_clients s - count s) \<le> max_clients s * 3"
  shows "\<exists>s'. accept_loop si as s = Inr s' \<and> srv_ok si s' \<and> max_clients s' = max_clients s \<and> count s \<le> count s'
    \<and> events_count s' = events_count s + (count s' - count s)"
  using assms
proof (induction as arbitrary: s)
  case (Cons a as)
  show ?case
  proof (cases "count s < max_clients s")
    case True
    show ?thesis
    proof (cases a)
      case (Conn fd nb)
      show ?thesis
      proof (cases nb)
        case nb: True
        have lt: "events_count s < max_clients s * 3" using Cons.prems(2) True by arith
        obtain s1 where s1: "accept_client si fd s = Inr s1" "srv_ok si s1" "count s1 = Suc (count s)" "max_clients s1 = max_clients s"
            "events_count s1 = Suc (events_count s)"
          using tcp_accept_client_ok [OF Cons.prems(1) True lt, of fd] by blast
        have "\<exists>s'. accept_loop si as s1 = Inr s' \<and> srv_ok si s' \<and> max_clients s' = max_clients s1 \<and> count s1 \<le> count s'
            \<and> events_count s' = events_count s1 + (count s' - count s1)"
          using Cons.IH [OF s1(2)] s1(3-5) Cons.prems(2) True by simp
        then show ?thesis using s1 Conn nb True by auto
      next
        case False
        have "srv_ok si (s\<lparr>srv_closed := srv_closed s @ [fd]\<rparr>)" using Cons.prems(1) by (simp add: srv_ok_def in_use_def)
        then show ?thesis using Cons.IH [of "s\<lparr>srv_closed := srv_closed s @ [fd]\<rparr>"] Cons.prems(2) Conn False True by auto
      qed
    qed (use Cons True in auto)
  qed (use Cons.prems in auto)
qed auto

text \<open>A stage of the poll that adds at most \<open>k\<close> events.\<close>

definition adds :: "nat \<Rightarrow> nat \<Rightarrow> tcp_server \<Rightarrow> tcp_server \<Rightarrow> bool" where
  "adds si k s s' \<longleftrightarrow> srv_ok si s' \<and> max_clients s' = max_clients s \<and> count s' = count s \<and> events_count s' \<le> events_count s + k"

lemma adds_refl: "srv_ok si s \<Longrightarrow> adds si k s s"
  by (simp add: adds_def)

lemma push_adds:
  assumes "srv_ok si s" "i < max_clients s" "events_count s < max_clients s * 3"
  shows "only_memory (push_event si i ty s) (adds si 1 s)"
  using push_event_ok [OF assms, of ty] by (auto simp: adds_def)

lemma hangup_adds:
  assumes "srv_ok si s" "i < max_clients s" "events_count s < max_clients s * 3" "c_state (sclients s ! i) \<noteq> TCP_CLIENT_FREE"
  shows "only_memory (push_event si i ty (upd_sclient i (\<lambda>c. c\<lparr>c_state := TCP_CLIENT_HANGUP\<rparr>) s)) (adds si 1 s)"
proof -
  have "srv_ok si (upd_sclient i (\<lambda>c. c\<lparr>c_state := TCP_CLIENT_HANGUP\<rparr>) s)"
    by (rule upd_sclient_ok [OF assms(1,2)]) (use gen_ok [OF assms(1,2)] assms(4) in auto)
  from push_adds [OF this, of i ty] assms(2,3) show ?thesis by (auto elim!: only_memory_mono simp: adds_def)
qed

lemma client_input_adds:
  assumes "srv_ok si s" "i < max_clients s" "events_count s + 2 \<le> max_clients s * 3"
  shows "only_memory (client_input malloc env si (i, ai, ao) s) (adds si 2 s)"
proof (cases "c_state (sclients s ! i) = TCP_CLIENT_FREE \<or> \<not> (ai \<and> in_ready env i \<or> hup env i)")
  case True
  then show ?thesis using adds_refl [OF assms(1)] by (auto simp: client_input_def Let_def)
next
  case False
  have after: "only_memory (rbind (if 0 < m then push_event si i TCP_EVENT_DATA (upd_sclient i (\<lambda>c. c\<lparr>c_input := q\<rparr>) s) else Inr (upd_sclient i (\<lambda>c. c\<lparr>c_input := q\<rparr>) s))
      (\<lambda>s. if ret = 1 then Inr s else push_event si i TCP_EVENT_DISCONNECT (upd_sclient i (\<lambda>c. c\<lparr>c_state := TCP_CLIENT_HANGUP\<rparr>) s))) (adds si 2 s)" for m q ret
  proof (rule only_memory_bind)
    let ?s = "upd_sclient i (\<lambda>c. c\<lparr>c_input := q\<rparr>) s"
    have ok: "srv_ok si ?s" by (rule upd_sclient_ok [OF assms(1,2)]) (use gen_ok [OF assms(1,2)] in auto)
    have st: "c_state (sclients ?s ! i) \<noteq> TCP_CLIENT_FREE" using False assms(2) srv_okD(1) [OF assms(1)] by (simp add: upd_sclient_def)
    show "only_memory (if 0 < m then push_event si i TCP_EVENT_DATA ?s else Inr ?s) (\<lambda>s'. adds si 1 s s' \<and> c_state (sclients s' ! i) \<noteq> TCP_CLIENT_FREE)"
      using push_event_ok [OF ok, of i TCP_EVENT_DATA] assms ok st by (auto simp: adds_def)
    fix s' assume "adds si 1 s s' \<and> c_state (sclients s' ! i) \<noteq> TCP_CLIENT_FREE"
    then have s': "srv_ok si s'" "max_clients s' = max_clients s" "count s' = count s" "events_count s' \<le> events_count s + 1" "c_state (sclients s' ! i) \<noteq> TCP_CLIENT_FREE"
      by (auto simp: adds_def)
    then show "only_memory (if ret = 1 then Inr s' else push_event si i TCP_EVENT_DISCONNECT (upd_sclient i (\<lambda>c. c\<lparr>c_state := TCP_CLIENT_HANGUP\<rparr>) s')) (adds si 2 s)"
      using hangup_adds [OF s'(1), of i TCP_EVENT_DISCONNECT] assms(2,3) by (auto simp: adds_def elim!: only_memory_mono)
  qed
  have "only_memory (rbind (move_bytes_from_socket_to_queue malloc (recvs env i) (c_input (sclients s ! i))) (\<lambda>(ret, moved, q).
          let moved = (case moved of None \<Rightarrow> junk env i | Some n \<Rightarrow> n); s = upd_sclient i (\<lambda>c. c\<lparr>c_input := q\<rparr>) s
          in rbind (if 0 < moved then push_event si i TCP_EVENT_DATA s else Inr s) (\<lambda>s.
             if ret = 1 then Inr s else push_event si i TCP_EVENT_DISCONNECT (upd_sclient i (\<lambda>c. c\<lparr>c_state := TCP_CLIENT_HANGUP\<rparr>) s)))) (adds si 2 s)"
    by (rule only_memory_bind [OF move_in_only]) (auto simp: Let_def intro!: after)
  then show ?thesis using False unfolding client_input_def prod.case Let_def by simp
qed

lemma client_output_adds:
  assumes "srv_ok si s" "i < max_clients s" "events_count s < max_clients s * 3"
  shows "only_memory (client_output env si (i, ai, ao) s) (adds si 1 s)"
proof (cases "c_state (sclients s ! i) \<in> {TCP_CLIENT_USED, TCP_CLIENT_CLOSE} \<and> ao \<and> out_ready env i")
  case False
  then show ?thesis using adds_refl [OF assms(1)] by (auto simp: client_output_def Let_def)
next
  case True
  let ?c = "sclients s ! i"
  note len = srv_okD(1) [OF assms(1)] and g = gen_ok [OF assms(1,2)]
  have after: "only_memory (let s = upd_sclient i (\<lambda>c. c\<lparr>c_output := q\<rparr>) s in
          if c_state ?c = TCP_CLIENT_CLOSE then
            if \<not> ok \<or> byte_queue_used_space q = 0
            then Inr ((upd_sclient i free_client s)\<lparr>srv_closed := srv_closed s @ [c_fd ?c]\<rparr>)
            else Inr s
          else if \<not> ok then push_event si i TCP_EVENT_DISCONNECT (upd_sclient i (\<lambda>c. c\<lparr>c_state := TCP_CLIENT_HANGUP\<rparr>) s)
          else Inr s) (adds si 1 s)" for ok q
  proof -
    let ?s = "upd_sclient i (\<lambda>c. c\<lparr>c_output := q\<rparr>) s"
    have c: "sclients ?s ! i = ?c\<lparr>c_output := q\<rparr>" using assms(2) len by (simp add: upd_sclient_def)
    have ok: "srv_ok si ?s" by (rule upd_sclient_ok [OF assms(1,2)]) (use g in auto)
    have f: "srv_ok si (upd_sclient i free_client ?s)"
      by (rule upd_sclient_ok [OF ok]) (use assms(2) g next_gen_less in \<open>auto simp: c free_client_def\<close>)
    then have "srv_ok si ((upd_sclient i free_client ?s)\<lparr>srv_closed := x\<rparr>)" for x by (simp add: srv_ok_def in_use_def)
    moreover have "only_memory (push_event si i TCP_EVENT_DISCONNECT (upd_sclient i (\<lambda>c. c\<lparr>c_state := TCP_CLIENT_HANGUP\<rparr>) ?s)) (adds si 1 s)"
      using hangup_adds [OF ok, of i TCP_EVENT_DISCONNECT] assms(2,3) True c by (auto simp: adds_def elim!: only_memory_mono)
    ultimately show ?thesis using ok by (auto simp: Let_def adds_def)
  qed
  have "only_memory (rbind (move_bytes_from_queue_to_socket (sends env i) (c_output ?c)) (\<lambda>(ok, _, q).
      let s = upd_sclient i (\<lambda>c. c\<lparr>c_output := q\<rparr>) s in
          if c_state ?c = TCP_CLIENT_CLOSE then
            if \<not> ok \<or> byte_queue_used_space q = 0
            then Inr ((upd_sclient i free_client s)\<lparr>srv_closed := srv_closed s @ [c_fd ?c]\<rparr>)
            else Inr s
          else if \<not> ok then push_event si i TCP_EVENT_DISCONNECT (upd_sclient i (\<lambda>c. c\<lparr>c_state := TCP_CLIENT_HANGUP\<rparr>) s)
          else Inr s)) (adds si 1 s)"
    unfolding move_bytes_from_queue_to_socket_def
    by (rule only_memory_bind [OF send_loop_only]) (use after in \<open>auto simp del: only_memory_Inr\<close>)
  then show ?thesis using True unfolding client_output_def prod.case Let_def by auto
qed

lemma each_entry_adds:
  assumes "\<And>e s. e \<in> set es \<Longrightarrow> srv_ok si s \<Longrightarrow> max_clients s = m \<Longrightarrow> events_count s + k \<le> m * 3 \<Longrightarrow> only_memory (f e s) (adds si k s)"
    "srv_ok si s" "max_clients s = m" "events_count s + k * length es \<le> m * 3"
  shows "only_memory (each_entry f es s) (adds si (k * length es) s)"
  using assms
proof (induction es arbitrary: s)
  case (Cons e es)
  show ?case unfolding each_entry.simps
  proof (rule only_memory_bind)
    show "only_memory (f e s) (adds si k s)" using Cons.prems(1) [of e s] Cons.prems(2-4) by simp
    fix s1 assume s1: "adds si k s s1"
    have "only_memory (each_entry f es s1) (adds si (k * length es) s1)"
    proof (rule Cons.IH)
      show "srv_ok si s1" "max_clients s1 = m" "events_count s1 + k * length es \<le> m * 3" using s1 Cons.prems(3,4) by (auto simp: adds_def)
      show "only_memory (f e' s') (adds si k s')" if "e' \<in> set es" "srv_ok si s'" "max_clients s' = m" "events_count s' + k \<le> m * 3" for e' s'
        using Cons.prems(1) [of e' s'] that by simp
    qed
    then show "only_memory (each_entry f es s1) (adds si (k * length (e # es)) s)" using s1 by (auto simp: adds_def elim!: only_memory_mono)
  qed
qed (simp add: adds_refl)

lemma length_filter_weaken: "(\<And>x. P x \<Longrightarrow> Q x) \<Longrightarrow> length (filter P xs) \<le> length (filter Q xs)"
  by (induction xs) auto

lemma poll_list_le: "length (sclients s) = max_clients s \<Longrightarrow> length (poll_list s) \<le> in_use s"
proof -
  assume len: "length (sclients s) = max_clients s"
  have "length (concat (map (\<lambda>i. case g i of None \<Rightarrow> [] | Some e \<Rightarrow> [(i, e)]) is)) = length (filter (\<lambda>i. g i \<noteq> None) is)"
    for g :: "nat \<Rightarrow> (bool \<times> bool) option" and "is" by (induction "is") (auto split: option.split)
  then have "length (poll_list s) = length (filter (\<lambda>c. poll_entry c \<noteq> None) (map ((!) (sclients s)) [0..<max_clients s]))"
    unfolding poll_list_def by (simp add: filter_map comp_def)
  also have "map ((!) (sclients s)) [0..<max_clients s] = sclients s" using len by (metis map_nth)
  also have "length (filter (\<lambda>c. poll_entry c \<noteq> None) (sclients s)) \<le> in_use s"
    unfolding in_use_def by (rule length_filter_weaken) (auto simp: poll_entry_def)
  finally show ?thesis .
qed

lemma poll_list_index: "e \<in> set (poll_list s) \<Longrightarrow> fst e < max_clients s"
  by (auto simp: poll_list_def split: option.splits)

text \<open>A poll of a server whose events were all taken: no assertion fails, \<^verbatim>\<open>abort\<close> is not called.\<close>

lemma poll_server_ok:
  assumes "srv_ok si s" "events_count s = 0" "count s < 128"
  shows "only_memory (poll_server malloc env si s) (\<lambda>s'. srv_ok si s' \<and> max_clients s' = max_clients s \<and> count s \<le> count s')"
proof -
  note ok = srv_okD [OF assms(1)]
  define m where "m = max_clients s"
  define es where "es = poll_list s"
  have es: "length es \<le> count s" using poll_list_le [OF ok(1)] ok(4) by (simp add: es_def)
  have "\<exists>s1. (if conn_ready env then accept_loop si (conns env) s else Inr s) = Inr s1 \<and> srv_ok si s1 \<and> max_clients s1 = m \<and> count s \<le> count s1
      \<and> events_count s1 = count s1 - count s"
    using tcp_accept_loop_ok [OF assms(1), of "conns env"] assms(1,2) by (auto simp: m_def)
  then obtain s1 where s1: "(if conn_ready env then accept_loop si (conns env) s else Inr s) = Inr s1" "srv_ok si s1" "max_clients s1 = m"
      "count s \<le> count s1" "events_count s1 = count s1 - count s" by blast
  have c1: "count s1 \<le> m" using srv_okD(5) [OF s1(2)] s1(3) by simp
  have e1: "events_count s1 + 2 * length es + length es \<le> m * 3" using es s1(4,5) c1 by linarith
  have ix: "fst e < m" if "e \<in> set es" for e using poll_list_index that by (simp add: es_def m_def)
  have "only_memory (each_entry (client_input malloc env si) es s1) (adds si (2 * length es) s1)"
  proof (rule each_entry_adds [OF _ s1(2,3)])
    show "only_memory (client_input malloc env si e s') (adds si 2 s')" if "e \<in> set es" "srv_ok si s'" "max_clients s' = m" "events_count s' + 2 \<le> m * 3" for e s'
      using client_input_adds [OF that(2), of "fst e" malloc env "fst (snd e)" "snd (snd e)"] ix [OF that(1)] that(3,4) by simp
  qed (use e1 in simp)
  then have "only_memory (rbind (each_entry (client_input malloc env si) es s1) (\<lambda>s. each_entry (client_output env si) es s))
      (\<lambda>s'. srv_ok si s' \<and> max_clients s' = max_clients s \<and> count s \<le> count s')"
  proof (rule only_memory_bind)
    fix s2 assume s2: "adds si (2 * length es) s1 s2"
    have "only_memory (each_entry (client_output env si) es s2) (adds si (1 * length es) s2)"
    proof (rule each_entry_adds)
      show "srv_ok si s2" "max_clients s2 = m" "events_count s2 + 1 * length es \<le> m * 3" using s2 s1(3) e1 by (auto simp: adds_def)
      show "only_memory (client_output env si e s') (adds si 1 s')" if "e \<in> set es" "srv_ok si s'" "max_clients s' = m" "events_count s' + 1 \<le> m * 3" for e s'
        using client_output_adds [OF that(2), of "fst e" env "fst (snd e)" "snd (snd e)"] ix [OF that(1)] that(3,4) by simp
    qed
    then show "only_memory (each_entry (client_output env si) es s2) (\<lambda>s'. srv_ok si s' \<and> max_clients s' = max_clients s \<and> count s \<le> count s')"
      using s2 s1(3,4) by (auto simp: adds_def m_def elim!: only_memory_mono)
  qed
  moreover have "length es < 128" using es assms(3) by simp
  ultimately show ?thesis
    using assms s1(1) ok(1) unfolding poll_server_def MAX_POLL_def Let_def es_def [symmetric] by auto
qed

text \<open>When no socket of a client is ready, only connections are accepted, and that cannot fault.\<close>

definition clients_quiet :: "tcp_env \<Rightarrow> bool" where
  "clients_quiet env \<longleftrightarrow> (\<forall>i. \<not> in_ready env i \<and> \<not> hup env i \<and> \<not> out_ready env i)"

lemma poll_server_quiet:
  assumes "srv_ok si s" "events_count s = 0" "count s < 128" "clients_quiet env"
  shows "\<exists>s'. poll_server malloc env si s = Inr s'"
proof -
  note ok = srv_okD [OF assms(1)]
  have es: "length (poll_list s) < 128" using poll_list_le [OF ok(1)] ok(4) assms(3) by simp
  have "each_entry (client_input malloc env si) es s' = Inr s'" "each_entry (client_output env si) es s' = Inr s'" for es s'
    using assms(4) by (induction es) (auto simp: client_input_def client_output_def clients_quiet_def Let_def)
  moreover have "\<exists>s1. (if conn_ready env then accept_loop si (conns env) s else Inr s) = Inr s1"
  proof -
    have "events_count s + (max_clients s - count s) \<le> max_clients s * 3" using assms(2) by linarith
    from tcp_accept_loop_ok [OF assms(1) this, of "conns env"] show ?thesis by auto
  qed
  ultimately show ?thesis
    using assms(2,3) es ok(1) by (auto simp: poll_server_def MAX_POLL_def Let_def)
qed

end
