(* ===== verification/TcpSystem.thy ===== *)
theory TcpSystem
  imports TcpServer
begin

section \<open>The TCP wrapper as a whole\<close>

text \<open>
  The servers and clients from the start on, with the calls of the library in any order; and the properties of the wrapper.
\<close>

subsection \<open>The invariant\<close>

definition server_slot_ok :: "nat \<Rightarrow> tcp_server \<Rightarrow> bool" where
  "server_slot_ok si s \<longleftrightarrow> srv_ok si s \<or> \<not> srv_used s \<and> sclients s = []"

definition tcp_inv :: "tcp \<Rightarrow> bool" where
  "tcp_inv t \<longleftrightarrow> length (servers t) \<le> 15 \<and> (\<forall>si < length (servers t). server_slot_ok si (servers t ! si))"

lemma tcp_inv_server: "tcp_inv t \<Longrightarrow> si < length (servers t) \<Longrightarrow> srv_used (servers t ! si) \<Longrightarrow> srv_ok si (servers t ! si)"
  by (auto simp: tcp_inv_def server_slot_ok_def)

lemma tcp_inv_put: "tcp_inv t \<Longrightarrow> server_slot_ok si s \<Longrightarrow> servers t' = (servers t)[si := s] \<Longrightarrow> tcp_inv t'"
  unfolding tcp_inv_def by (metis length_list_update nth_list_update_eq nth_list_update_neq)

lemma tcp_inv_same: "tcp_inv t \<Longrightarrow> servers t' = servers t \<Longrightarrow> tcp_inv t'"
  by (simp add: tcp_inv_def)

lemma tcp_inv_rest [simp]: "tcp_inv (t\<lparr>clients := cl\<rparr>) = tcp_inv t" "tcp_inv (t\<lparr>tcp_closed := ds\<rparr>) = tcp_inv t"
  by (simp_all add: tcp_inv_def)

lemma server_from_handle_Some:
  "server_from_handle t h = Inr (Some si) \<Longrightarrow> si < length (servers t) \<and> srv_used (servers t ! si)"
  by (auto simp: server_from_handle_def Let_def rbind_eq_Inr split: if_splits prod.splits)

text \<open>A client that was found is in its array and in use.\<close>

lemma client_from_handle_Child:
  assumes "tcp_inv t" "client_from_handle t h = Inr (Some (Child si i))"
  shows "si < length (servers t)" "srv_ok si (servers t ! si)" "i < max_clients (servers t ! si)" "c_state (sclients (servers t ! si) ! i) \<noteq> TCP_CLIENT_FREE"
proof -
  have a: "si < length (servers t) \<and> i < length (sclients (servers t ! si)) \<and> c_state (sclients (servers t ! si) ! i) \<noteq> TCP_CLIENT_FREE"
    using assms(2) by (auto simp: client_from_handle_def Let_def rbind_eq_Inr rd_def split: if_splits prod.splits)
  then show "si < length (servers t)" "c_state (sclients (servers t ! si) ! i) \<noteq> TCP_CLIENT_FREE" by auto
  have "server_slot_ok si (servers t ! si)" using assms(1) a by (simp add: tcp_inv_def)
  with a show ok: "srv_ok si (servers t ! si)" by (auto simp: server_slot_ok_def)
  show "i < max_clients (servers t ! si)" using a srv_okD(1) [OF ok] by simp
qed

lemma need_client_from: "need_client t h = Inr r \<Longrightarrow> client_from_handle t h = Inr (Some r)"
  by (auto simp: need_client_def rbind_eq_Inr split: option.splits)

text \<open>Changing a client that was found, without giving it an invalid generation.\<close>

lemma upd_tclient_inv:
  assumes "tcp_inv t" "need_client t h = Inr r" "\<And>c. c_gen c < 0x1000 \<Longrightarrow> c_gen (f c) < 0x1000"
  shows "tcp_inv (upd_tclient r f t)"
proof (cases r)
  case (Alone i)
  then show ?thesis using assms(1) by (auto intro: tcp_inv_same simp: upd_tclient_def)
next
  case (Child si i)
  note c = client_from_handle_Child [OF assms(1) need_client_from [OF assms(2), unfolded Child]]
  have "srv_ok si (upd_sclient i f (servers t ! si))"
    by (rule upd_sclient_ok [OF c(2,3)]) (use assms(3) gen_ok [OF c(2,3)] c(4) in auto)
  then have "server_slot_ok si (upd_sclient i f (servers t ! si))" by (simp add: server_slot_ok_def)
  then show ?thesis using tcp_inv_put [OF assms(1)] Child by (auto simp: upd_tclient_def)
qed

subsection \<open>The calls\<close>

text \<open>What a call leaves of the invariant, for every call.\<close>

lemma create_inv:
  assumes "tcp_server_create fd mem mx t = Inr (h, t')" "tcp_inv t" "mx \<le> 2 ^ 14"
    "\<And>cls evs. mem = Some (cls, evs) \<Longrightarrow> length cls = mx \<and> length evs = mx * 3"
  shows "tcp_inv t'"
proof -
  obtain si where si: "get_server_struct t = Inr si" using assms(1) by (auto simp: tcp_server_create_def rbind_eq_Inr)
  then have lt: "si < length (servers t)" by (auto simp: get_server_struct_def Let_def split: if_splits)
  show ?thesis
  proof (cases "fd = None \<or> mem = None")
    case True
    then show ?thesis using assms(1,2) si by (auto simp: tcp_server_create_def intro: tcp_inv_same split: option.splits)
  next
    case False
    then obtain d cls evs where m: "fd = Some d" "mem = Some (cls, evs)" by auto
    define server where "server = (servers t ! si)\<lparr>srv_used := True, srv_fd := d, count := 0, max_clients := mx,
       sclients := map (\<lambda>c. c\<lparr>c_state := TCP_CLIENT_FREE, c_gen := 1, c_fd := - 1\<rparr>) cls,
       events_head := 0, events_count := 0, events := evs\<rparr>"
    have "srv_ok si server"
      using assms(2,3) assms(4) [OF m(2)] lt by (auto simp: srv_ok_def server_def in_use_def tcp_inv_def filter_map comp_def)
    then have "server_slot_ok si server" by (simp add: server_slot_ok_def)
    moreover have "servers t' = (servers t)[si := server]"
      using assms(1) si m by (auto simp: tcp_server_create_def rbind_eq_Inr server_def Let_def)
    ultimately show ?thesis by (rule tcp_inv_put [OF assms(2)])
  qed
qed

lemma delete_inv:
  assumes "tcp_server_delete h t = Inr t'" "tcp_inv t"
  shows "tcp_inv t'"
proof -
  obtain si where si: "server_from_handle t h = Inr (Some si)" using assms(1) by (auto simp: tcp_server_delete_def rbind_eq_Inr split: option.splits)
  define s where "s = (servers t ! si)\<lparr>sclients := [], srv_used := False, srv_gen := next_gen (srv_gen (servers t ! si))\<rparr>"
  have "servers t' = (servers t)[si := s]" using assms(1) si by (auto simp: tcp_server_delete_def Let_def s_def split: if_splits)
  moreover have "server_slot_ok si s" by (simp add: server_slot_ok_def s_def)
  ultimately show ?thesis using tcp_inv_put [OF assms(2)] by simp
qed

lemma poll_inv:
  assumes "tcp_server_poll malloc env h t = Inr t'" "tcp_inv t"
  shows "tcp_inv t'"
proof -
  obtain si s where s: "server_from_handle t h = Inr (Some si)" "poll_server malloc env si (servers t ! si) = Inr s" "t' = t\<lparr>servers := (servers t)[si := s]\<rparr>"
    using assms(1) by (auto simp: tcp_server_poll_def rbind_eq_Inr split: option.splits)
  note si = server_from_handle_Some [OF s(1)]
  have ok: "srv_ok si (servers t ! si)" using tcp_inv_server [OF assms(2)] si by simp
  have "events_count (servers t ! si) = 0" "count (servers t ! si) < 128"
    using s(2) by (auto simp: poll_server_def rbind_eq_Inr MAX_POLL_def c_assert_def split: if_splits)
  then have "srv_ok si s" using poll_server_ok [OF ok, of malloc env] s(2) by simp
  then have "server_slot_ok si s" by (simp add: server_slot_ok_def)
  then show ?thesis using tcp_inv_put [OF assms(2)] s(3) by simp
qed

lemma event_inv:
  assumes "tcp_server_event h t = Inr (e, t')" "tcp_inv t"
  shows "tcp_inv t'"
proof -
  obtain si s where s: "server_from_handle t h = Inr (Some si)" "pop_event (servers t ! si) = Inr (e, s)" "t' = t\<lparr>servers := (servers t)[si := s]\<rparr>"
    using assms(1) by (auto simp: tcp_server_event_def rbind_eq_Inr split: option.splits)
  have ok: "srv_ok si (servers t ! si)" using tcp_inv_server [OF assms(2)] server_from_handle_Some [OF s(1)] by simp
  have "srv_ok si s"
  proof (cases "events_count (servers t ! si) = 0")
    case True
    then show ?thesis using s(2) ok by (simp add: pop_event_def)
  next
    case False
    then show ?thesis using pop_event_ok [OF ok] s(2) by auto
  qed
  then have "server_slot_ok si s" by (simp add: server_slot_ok_def)
  then show ?thesis using tcp_inv_put [OF assms(2)] s(3) by simp
qed

lemma free_client_gen: "c_gen c < 0x1000 \<Longrightarrow> c_gen (free_client c) < 0x1000"
  by (simp add: free_client_def next_gen_less)

lemma release_inv: "tcp_inv t \<Longrightarrow> need_client t h = Inr r \<Longrightarrow> tcp_inv (release_client r t)"
  by (rule tcp_inv_same [OF upd_tclient_inv [of t h r free_client]]) (auto simp: release_client_def free_client_gen)

lemma close_inv: "tcp_client_close h t = Inr t' \<Longrightarrow> tcp_inv t \<Longrightarrow> tcp_inv t'"
  by (auto simp: tcp_client_close_def rbind_eq_Inr Let_def intro!: release_inv upd_tclient_inv split: if_splits client_ref.splits)

lemma read_inv: "tcp_client_read h n t = Inr t' \<Longrightarrow> tcp_inv t \<Longrightarrow> tcp_inv t'"
  by (auto simp: tcp_client_read_def rbind_eq_Inr intro!: upd_tclient_inv)

lemma set_user_ptr_inv: "tcp_client_set_user_ptr h p t = Inr t' \<Longrightarrow> tcp_inv t \<Longrightarrow> tcp_inv t'"
  by (auto simp: tcp_client_set_user_ptr_def rbind_eq_Inr intro!: upd_tclient_inv)

lemma write_inv: "tcp_client_write malloc h bs t = Inr t' \<Longrightarrow> tcp_inv t \<Longrightarrow> tcp_inv t'"
  by (auto simp: tcp_client_write_def rbind_eq_Inr Let_def intro!: upd_tclient_inv split: if_splits)

lemma client_create_inv: "tcp_client_create fd t = Inr (h, t') \<Longrightarrow> tcp_inv t \<Longrightarrow> tcp_inv t'"
  by (auto simp: tcp_client_create_def rbind_eq_Inr Let_def upd_tclient_def intro: tcp_inv_same split: option.splits)

lemma client_poll_inv: "tcp_client_poll malloc env h t = Inr t' \<Longrightarrow> tcp_inv t \<Longrightarrow> tcp_inv t'"
  by (auto simp: tcp_client_poll_def rbind_eq_Inr Let_def intro: tcp_inv_same split: if_splits)

lemma client_event_inv: "tcp_client_event h t = Inr (e, t') \<Longrightarrow> tcp_inv t \<Longrightarrow> tcp_inv t'"
  by (auto simp: tcp_client_event_def rbind_eq_Inr Let_def upd_tclient_def intro: tcp_inv_same split: if_splits)

subsection \<open>The system\<close>

text \<open>The static arrays at the start: all zero.\<close>

definition tcp_init :: "tcp \<Rightarrow> bool" where
  "tcp_init t \<longleftrightarrow> length (servers t) \<le> 15 \<and> (\<forall>s \<in> set (servers t). \<not> srv_used s \<and> sclients s = [])"

inductive tcp_step :: "tcp \<Rightarrow> tcp \<Rightarrow> bool" where
  do_create: "tcp_server_create fd mem mx t = Inr (h, t') \<Longrightarrow> mx \<le> 2 ^ 14 \<Longrightarrow>
     (\<And>cls evs. mem = Some (cls, evs) \<Longrightarrow> length cls = mx \<and> length evs = mx * 3) \<Longrightarrow> tcp_step t t'"
| do_delete: "tcp_server_delete h t = Inr t' \<Longrightarrow> tcp_step t t'"
| do_poll: "tcp_server_poll malloc env h t = Inr t' \<Longrightarrow> tcp_step t t'"
| do_event: "tcp_server_event h t = Inr (e, t') \<Longrightarrow> tcp_step t t'"
| do_close: "tcp_client_close h t = Inr t' \<Longrightarrow> tcp_step t t'"
| do_read: "tcp_client_read h n t = Inr t' \<Longrightarrow> tcp_step t t'"
| do_write: "tcp_client_write malloc h bs t = Inr t' \<Longrightarrow> tcp_step t t'"
| do_set_user_ptr: "tcp_client_set_user_ptr h p t = Inr t' \<Longrightarrow> tcp_step t t'"
| do_client_create: "tcp_client_create fd t = Inr (h, t') \<Longrightarrow> tcp_step t t'"
| do_client_poll: "tcp_client_poll malloc env h t = Inr t' \<Longrightarrow> tcp_step t t'"
| do_client_event: "tcp_client_event h t = Inr (e, t') \<Longrightarrow> tcp_step t t'"

lemma tcp_step_inv: "tcp_step t t' \<Longrightarrow> tcp_inv t \<Longrightarrow> tcp_inv t'"
  by (induction rule: tcp_step.induct)
    (auto intro: create_inv delete_inv poll_inv event_inv close_inv read_inv write_inv set_user_ptr_inv client_create_inv client_poll_inv client_event_inv)

lemma tcp_init_inv: "tcp_init t \<Longrightarrow> tcp_inv t"
  by (auto simp: tcp_init_def tcp_inv_def server_slot_ok_def)

interpretation tcp: invariant_system tcp_init tcp_step tcp_inv
  by unfold_locales (auto intro: tcp_init_inv tcp_step_inv)

subsection \<open>Small instances\<close>

definition zero_client :: tcp_client where
  "zero_client = \<lparr>c_state = TCP_CLIENT_FREE, event_data = False, event_disconnect = False, c_gen = 0, c_fd = 0, user_ptr = 0,
     c_input = byte_queue_init, c_output = byte_queue_init\<rparr>"

definition zero_server :: tcp_server where
  "zero_server = \<lparr>srv_used = False, srv_gen = 0, srv_fd = 0, count = 0, max_clients = 0, sclients = [], events_head = 0, events_count = 0,
     events = [], srv_closed = []\<rparr>"

definition zero_tcp :: tcp where
  "zero_tcp = \<lparr>servers = [zero_server], clients = [zero_client], tcp_closed = []\<rparr>"

definition zero_memory :: "nat \<Rightarrow> (tcp_client list \<times> tcp_event list) option" where
  "zero_memory n = Some (replicate n zero_client, replicate (n * 3) \<lparr>e_type = TCP_EVENT_NONE, e_handle = 0\<rparr>)"

definition zeros :: bmalloc where
  "zeros n = Some (replicate n 0)"

definition quiet :: tcp_env where
  "quiet = \<lparr>poll_error = False, any_ready = True, conn_ready = False, in_ready = (\<lambda>_. False), out_ready = (\<lambda>_. False), hup = (\<lambda>_. False),
     conns = [], recvs = (\<lambda>_. []), sends = (\<lambda>_. []), junk = (\<lambda>_. 0)\<rparr>"

text \<open>A server for \<open>n\<close> clients, and a poll in which a connection waits.\<close>

definition started :: "nat \<Rightarrow> (u32 \<times> tcp) res" where
  "started n = tcp_server_create (Some 3) (zero_memory n) n zero_tcp"

definition connecting :: tcp_env where
  "connecting = quiet\<lparr>conn_ready := True, conns := [Conn 5 True, Conn 6 True]\<rparr>"

lemma started_two: "\<exists>t. started 2 = Inr (0x80000000, t) \<and> reachable tcp_init tcp_step t \<and> server_from_handle t 0x80000000 = Inr (Some 0)
    \<and> events_count (servers t ! 0) = 0 \<and> count (servers t ! 0) = 0"
proof -
  have "case started 2 of Inr (h, t) \<Rightarrow> h = 0x80000000 \<and> server_from_handle t 0x80000000 = Inr (Some 0)
      \<and> events_count (servers t ! 0) = 0 \<and> count (servers t ! 0) = 0 | Inl _ \<Rightarrow> False" by code_simp
  then obtain t where t: "started 2 = Inr (0x80000000, t)" "server_from_handle t 0x80000000 = Inr (Some 0)" "events_count (servers t ! 0) = 0"
    "count (servers t ! 0) = 0" by (auto split: sum.splits)
  have "tcp_init zero_tcp" by (simp add: tcp_init_def zero_tcp_def zero_server_def)
  moreover have "tcp_step zero_tcp t"
    by (rule do_create [OF t(1) [unfolded started_def]]) (auto simp: zero_memory_def)
  ultimately have "reachable tcp_init tcp_step t" by (meson reachable.intros)
  with t show ?thesis by blast
qed

subsection \<open>Properties\<close>



text \<open>The events of a server come out in the order in which they were put in: \<^verbatim>\<open>tcp_server_event\<close> gives the oldest of those that wait
  and keeps the others, and says that there is none exactly when none waits.\<close>

theorem tcp_events_in_order:
  assumes "reachable tcp_init tcp_step t" "server_from_handle t h = Inr (Some si)"
  shows "\<exists>e t'. tcp_server_event h t = Inr (e, t') \<and>
    (if waiting (servers t ! si) = [] then e = \<lparr>e_type = TCP_EVENT_NONE, e_handle = TCP_INVALID\<rparr> \<and> waiting (servers t' ! si) = []
     else waiting (servers t ! si) = e # waiting (servers t' ! si))"
proof -
  have si: "si < length (servers t)" "srv_ok si (servers t ! si)"
    using server_from_handle_Some [OF assms(2)] tcp_inv_server [OF tcp.reachable_inv [OF assms(1)]] by auto
  have w: "waiting (servers t ! si) = [] \<longleftrightarrow> events_count (servers t ! si) = 0" by (metis length_0_conv length_waiting)
  show ?thesis
  proof (cases "events_count (servers t ! si) = 0")
    case True
    then show ?thesis using assms(2) si(1) w by (simp add: tcp_server_event_def pop_event_def)
  next
    case False
    then show ?thesis using pop_event_ok [OF si(2)] assms(2) si(1) w by (auto simp: tcp_server_event_def)
  qed
qed

theorem tcp_events_in_order_witness: "\<exists>t e t'. started 2 = Inr (0x80000000, t) \<and> tcp_server_event 0x80000000 t = Inr (e, t')"
  using started_two tcp_events_in_order by metis

text \<open>A handle keeps the index and the generation packed into it exactly if the lowest bit of the index equals the highest bit
  of the generation, because the two are put into the same bit.\<close>

theorem tcp_handle_roundtrip:
  assumes "pack_handle sdx idx gen typ = Inr h"
  shows "unpack_handle h = (idx, sdx, gen, typ) \<longleftrightarrow> bit idx 0 = bit gen 11"
proof -
  have "idx < 2 ^ 14" "gen < 2 ^ 12" using assms by (simp_all add: pack_handle_Inr)
  then have bi: "bit idx n \<Longrightarrow> n < 14" and bg: "bit gen n \<Longrightarrow> n < 12" for n using bit_less by fastforce+
  have "idx OR drop_bit 11 gen = idx \<longleftrightarrow> (bit gen 11 \<longrightarrow> bit idx 0)"
  proof
    assume "idx OR drop_bit 11 gen = idx"
    then have "bit (idx OR drop_bit 11 gen) 0 = bit idx 0" by simp
    then show "bit gen 11 \<longrightarrow> bit idx 0" by (auto simp: bit_or_iff bit_drop_bit_eq)
  next
    assume a: "bit gen 11 \<longrightarrow> bit idx 0"
    have "bit gen (11 + n) \<longleftrightarrow> n = 0 \<and> bit gen 11" for n using bg [of "11 + n"] by auto
    then show "idx OR drop_bit 11 gen = idx" using a by (intro bit_word_eqI) (auto simp: bit_or_iff bit_drop_bit_eq)
  qed
  moreover have "gen OR push_bit 11 (take_bit 1 idx) = gen \<longleftrightarrow> (bit idx 0 \<longrightarrow> bit gen 11)"
  proof
    assume "gen OR push_bit 11 (take_bit 1 idx) = gen"
    then have "bit (gen OR push_bit 11 (take_bit 1 idx)) 11 = bit gen 11" by simp
    then show "bit idx 0 \<longrightarrow> bit gen 11" by (auto simp: bit_or_iff bit_push_bit_iff bit_take_bit_iff bit_0)
  next
    assume a: "bit idx 0 \<longrightarrow> bit gen 11"
    show "gen OR push_bit 11 (take_bit 1 idx) = gen"
      using a by (intro bit_word_eqI) (auto simp: bit_or_iff bit_push_bit_iff bit_take_bit_iff bit_0)
  qed
  ultimately show ?thesis using handle_fields_overlap [OF assms] by auto
qed

theorem tcp_handle_roundtrip_witness: "pack_handle 1 1 1 0 = Inr 0x8001002 \<and> unpack_handle 0x8001002 \<noteq> (1, 1, 1, 0)"
proof -
  have p: "pack_handle 1 1 1 0 = Inr 0x8001002" by code_simp
  have "\<not> (bit (1 :: u32) 0 = bit (1 :: u32) 11)" by simp
  with tcp_handle_roundtrip [OF p] p show ?thesis by blast
qed

subsection \<open>Bytes\<close>

lemma move_out_ok:
  assumes "bq_inv q"
  shows "\<exists>ok sent q'. move_bytes_from_queue_to_socket rs q = Inr (ok, sent, q') \<and> bq_inv q' \<and> sent @ bq_contents q' = bq_contents q"
proof -
  have "\<exists>ok sent q'. send_loop rs z q = Inr (ok, sent, q') \<and> bq_inv q' \<and> sent @ bq_contents q' = bq_contents q" if "bq_inv q" for z q
    using that
  proof (induction rs arbitrary: z q)
    case (Cons r rs)
    show ?case
    proof (cases "size q = 0")
      case True
      then show ?thesis using Cons.prems by (auto simp: byte_queue_used_space_def)
    next
      case False
      then obtain d where d: "data q = Some d" "length d = capacity q" "head q + size q \<le> capacity q"
        using Cons.prems by (auto simp: bq_inv_def split: option.splits)
      show ?thesis
      proof (cases r)
        case (Put m)
        define n where "n = min m (size q)"
        define z' where "z' = (if n = 0 then z + 1 else 0)"
        let ?q = "byte_queue_end_read q n"
        have n: "n \<le> size q" by (simp add: n_def)
        then have q': "bq_inv ?q \<and> bq_contents ?q = drop n (bq_contents q) \<and> chunk d (head q) n = take n (bq_contents q)"
          using bq_read_ok [OF Cons.prems n] d
          by (auto simp: bq_read_def byte_queue_used_space_def byte_queue_start_read_def simp del: append_take_drop_id)
        obtain ok sent q2 where q2: "send_loop rs z' ?q = Inr (ok, sent, q2)" "bq_inv q2" "sent @ bq_contents q2 = bq_contents ?q"
          using Cons.IH [of ?q z'] q' by blast
        have "send_loop (r # rs) z q = (if n = 0 \<and> z' = 10 then Inr (False, [], q) else Inr (ok, chunk d (head q) n @ sent, q2))"
          using False d Put q2(1) by (cases "m = 0") (auto simp: byte_queue_used_space_def byte_queue_start_read_def Let_def n_def z'_def)
        then show ?thesis using q2 q' Cons.prems by (cases "n = 0 \<and> z' = 10") auto
      qed (use False d Cons.prems in \<open>auto simp: byte_queue_used_space_def byte_queue_start_read_def Let_def\<close>)
    qed
  qed auto
  from this [OF assms] show ?thesis by (simp add: move_bytes_from_queue_to_socket_def)
qed

text \<open>What goes out through a socket, followed by what stays in the output queue, is what was in the queue: whatever \<^verbatim>\<open>send\<close> takes
  at a time, no byte is lost, repeated or moved, and the queue stays in order.\<close>

theorem tcp_output_in_order:
  assumes "bq_inv q"
  shows "\<exists>ok sent q'. move_bytes_from_queue_to_socket rs q = Inr (ok, sent, q') \<and> bq_inv q' \<and> sent @ bq_contents q' = bq_contents q"
  by (rule move_out_ok [OF assms])

theorem tcp_output_in_order_witness:
  "\<exists>ok sent q'. move_bytes_from_queue_to_socket [Put 2, Put_again] \<lparr>data = Some [0, 1, 2, 3], head = 1, size = 3, capacity = 4\<rparr> = Inr (ok, sent, q')
     \<and> sent @ bq_contents q' = [1, 2, 3]"
proof -
  let ?q = "\<lparr>data = Some [0, 1, 2, 3], head = 1, size = 3, capacity = 4\<rparr>"
  have "bq_inv ?q" "bq_contents ?q = [1, 2, 3]" by (simp_all add: bq_inv_def bq_contents_def chunk_def)
  then show ?thesis using tcp_output_in_order [of ?q "[Put 2, Put_again]"] by metis
qed

text \<open>Making room in a queue that was not read from keeps its contents, also when the queue grows.\<close>

lemma ensure_unread:
  assumes "bq_inv q" "head q = 0" "size q + n < 2 ^ 62" "0 < n" "capacity q < 2 ^ 62" "\<And>k. \<exists>d. malloc k = Some d \<and> length d = k"
  shows "\<exists>q'. byte_queue_ensure_min_free_space malloc q n = Inr (True, q') \<and> bq_inv q' \<and> head q' = 0 \<and> size q' = size q \<and> bq_contents q' = bq_contents q
    \<and> size q' + n \<le> capacity q' \<and> capacity q' \<le> max (capacity q) (2 * (size q + n))"
proof (cases "size q + n \<le> capacity q")
  case True
  have "data q \<noteq> None" using assms(1,4) True by (auto simp: bq_inv_def split: option.splits)
  moreover have "\<not> size_sub (size_sub (capacity q) (size q)) (head q) < n" using True assms(2) by simp
  then have "byte_queue_ensure_min_free_space malloc q n = Inr (True, q)" by (simp add: byte_queue_ensure_min_free_space_def Let_def)
  ultimately show ?thesis using assms(1,2) True by auto
next
  case False
  define cap where "cap = (if size_sub (2 * capacity q) (size q) < n then size q + n else 2 * capacity q)"
  have sz: "size q \<le> capacity q" using assms(1) by (simp add: bq_inv_def)
  have cap: "size q + n \<le> cap" "cap \<le> 2 * (size q + n)" "cap < 2 ^ 63"
    using sz assms(3,5) False by (auto simp: cap_def size_sub_def)
  have eq: "byte_queue_ensure_min_free_space malloc q n = (case malloc cap of None \<Rightarrow> Inr (False, q)
      | Some new \<Rightarrow> rbind (if size q > 0 then (case data q of None \<Rightarrow> Inl Null_pointer
            | Some d \<Rightarrow> if head q + size q \<le> length d then memcpy new 0 (chunk d (head q) (size q)) else Inl Out_of_bounds) else Inr new)
         (\<lambda>new. Inr (True, q\<lparr>data := Some new, capacity := cap\<rparr>)))"
  proof -
    have a: "size_sub (size_sub (capacity q) (size q)) (head q) < n" "size_sub (capacity q) (size q) < n" using False sz assms(2) by simp_all
    have c: "2 * capacity q mod 2 ^ 64 = 2 * capacity q" "(size q + n) mod 2 ^ 64 = size q + n" using assms(3,5) by simp_all
    show ?thesis
      unfolding byte_queue_ensure_min_free_space_def Let_def if_P [OF a(1)] if_P [OF a(2)] c cap_def [symmetric] ..
  qed
  obtain new where Some: "malloc cap = Some new" and len: "length new = cap" using assms(6) [of cap] by auto
  have r: "(if size q > 0 then (case data q of None \<Rightarrow> Inl Null_pointer
        | Some d \<Rightarrow> if head q + size q \<le> length d then memcpy new 0 (chunk d (head q) (size q)) else Inl Out_of_bounds) else Inr new)
      = Inr (blit new 0 (bq_contents q))"
    using assms(1) sz len cap(1) by (cases "data q") (auto simp: bq_inv_def bq_contents_def)
  let ?q = "q\<lparr>data := Some (blit new 0 (bq_contents q)), capacity := cap\<rparr>"
  have l: "length (bq_contents q) = size q" using assms(1) by simp
  have "bq_inv ?q" using assms(2) len cap l by (auto simp: bq_inv_def)
  moreover have "bq_contents ?q = bq_contents q" using assms(2) l by (simp add: bq_contents_def [of "q\<lparr>data := Some d, capacity := k\<rparr>" for d k] chunk_def blit_def)
  moreover have "byte_queue_ensure_min_free_space malloc q n = Inr (True, ?q)" using eq Some r by simp
  ultimately show ?thesis using assms(2) cap by auto
qed

fun got_bytes :: "recv_outcome list \<Rightarrow> u8 list" where
  "got_bytes (Got bs # rs) = bs @ got_bytes rs"
| "got_bytes _ = []"

lemma recv_loop_stop:
  assumes "\<And>k. \<exists>d. malloc k = Some d \<and> length d = k" "bq_inv q" "head q = 0" "capacity q < 2 ^ 61" "size q < 2 ^ 59" "\<nexists>bs rs'. rs = Got bs # rs'"
  shows "\<exists>ret q'. recv_loop malloc rs q = Inr (ret, q') \<and> bq_contents q' = bq_contents q \<and> bq_inv q' \<and> head q' = 0"
proof -
  have "size q + 256 < 2 ^ 62" "capacity q < 2 ^ 62" using assms(4,5) by simp_all
  then obtain q1 where q1: "byte_queue_ensure_min_free_space malloc q 256 = Inr (True, q1)" "bq_inv q1" "head q1 = 0" "bq_contents q1 = bq_contents q"
    using ensure_unread [OF assms(2,3) _ _ _ assms(1), of 256] by auto
  then show ?thesis using assms(6) by (subst recv_loop.simps) (auto split: list.split recv_outcome.split)
qed

lemma recv_loop_result:
  assumes "\<And>k. \<exists>d. malloc k = Some d \<and> length d = k" "\<forall>bs. Got bs \<in> set rs \<longrightarrow> 0 < length bs \<and> length bs \<le> 256"
    "bq_inv q" "head q = 0" "capacity q < 2 ^ 61" "size q + length (got_bytes rs) < 2 ^ 59"
  shows "\<exists>ret q'. recv_loop malloc rs q = Inr (ret, q') \<and> bq_contents q' = bq_contents q @ got_bytes rs \<and> bq_inv q' \<and> head q' = 0"
  using assms(2-6)
proof (induction rs arbitrary: q rule: got_bytes.induct)
  case (1 bs rs)
  have "size q + 256 < 2 ^ 62" "capacity q < 2 ^ 62" using "1.prems" by simp_all
  then obtain q1 where q1: "byte_queue_ensure_min_free_space malloc q 256 = Inr (True, q1)" "bq_inv q1" "head q1 = 0" "size q1 = size q"
      "bq_contents q1 = bq_contents q" "size q1 + 256 \<le> capacity q1" "capacity q1 \<le> max (capacity q) (2 * (size q + 256))"
    using ensure_unread [OF "1.prems"(2,3) _ _ _ assms(1), of 256] by auto
  have bs: "0 < length bs" "length bs \<le> 256" using "1.prems"(1) by auto
  then obtain d where d: "data q1 = Some d" "length d = capacity q1" using q1(2,6) by (auto simp: bq_inv_def split: option.splits)
  define q2 where "q2 = byte_queue_end_write (q1\<lparr>data := Some (blit d (size q1) bs)\<rparr>) (length bs)"
  have q2: "bq_inv q2" "head q2 = 0" "capacity q2 = capacity q1" "size q2 = size q + length bs"
    using q1 bs d by (auto simp: q2_def byte_queue_end_write_def bq_inv_def)
  have "take (size q1 + length bs) (blit d (size q1) bs) = take (size q1) d @ bs" using q1(6) d(2) by (simp add: take_blit_end)
  then have c2: "bq_contents q2 = bq_contents q @ bs"
    using q1(3,5) d by (simp add: bq_contents_def q2_def byte_queue_end_write_def chunk_def)
  have fs: "byte_queue_free_space q1 = capacity q1 - size q1" using bq_free_space [OF q1(2)] q1(3) by simp
  have step: "recv_loop malloc (Got bs # rs) q = recv_loop malloc rs q2"
    using q1 bs d fs by (subst recv_loop.simps) (auto simp: q2_def byte_queue_start_write_def Let_def)
  have "\<exists>ret q'. recv_loop malloc rs q2 = Inr (ret, q') \<and> bq_contents q' = bq_contents q2 @ got_bytes rs \<and> bq_inv q' \<and> head q' = 0"
    using "1.IH" [OF _ q2(1,2)] "1.prems" q2(3,4) q1(7) by (auto simp: max_def split: if_splits)
  then show ?case using step c2 by simp
qed (use recv_loop_stop [OF assms(1)] in auto)

text \<open>What arrives at a socket goes to the end of the input queue: when nothing was read from the queue yet and memory suffices, the
  bytes of the calls of \<^verbatim>\<open>recv\<close> up to the first that brings none are appended in order, and their
  number is reported, also when the queue grows on the way.\<close>

theorem tcp_input_in_order:
  assumes "\<And>k. \<exists>d. malloc k = Some d \<and> length d = k" "\<forall>bs. Got bs \<in> set rs \<longrightarrow> 0 < length bs \<and> length bs \<le> 256"
    "bq_inv q" "head q = 0" "capacity q < 2 ^ 61" "size q + length (got_bytes rs) < 2 ^ 59"
  shows "\<exists>ret moved q'. move_bytes_from_socket_to_queue malloc rs q = Inr (ret, moved, q') \<and> bq_contents q' = bq_contents q @ got_bytes rs
    \<and> (ret \<noteq> - 1 \<longrightarrow> moved = Some (length (got_bytes rs)))"
proof -
  obtain ret q' where q': "recv_loop malloc rs q = Inr (ret, q')" "bq_contents q' = bq_contents q @ got_bytes rs" "bq_inv q'"
    using recv_loop_result [OF assms] by blast
  have "size q' = size q + length (got_bytes rs)" using arg_cong [OF q'(2), of length] q'(3) assms(3) by simp
  then show ?thesis using q' by (auto simp: move_bytes_from_socket_to_queue_def byte_queue_used_space_def)
qed

theorem tcp_input_in_order_witness:
  "\<exists>ret moved q'. move_bytes_from_socket_to_queue zeros [Got [1, 2], Got [3], Got_eof] byte_queue_init = Inr (ret, moved, q') \<and> bq_contents q' = [1, 2, 3]"
proof -
  have q: "bq_inv byte_queue_init" "head byte_queue_init = 0" "capacity byte_queue_init = 0" "size byte_queue_init = 0" "bq_contents byte_queue_init = []"
    by (simp_all add: bq_inv_def byte_queue_init_def bq_contents_def)
  have "\<exists>d. zeros k = Some d \<and> length d = k" for k by (simp add: zeros_def)
  moreover have "\<forall>bs. Got bs \<in> set [Got [1, 2], Got [3], Got_eof] \<longrightarrow> 0 < length bs \<and> length bs \<le> 256" by simp
  ultimately show ?thesis using tcp_input_in_order [of zeros "[Got [1, 2], Got [3], Got_eof]" byte_queue_init] q by auto
qed

subsection \<open>Failures\<close>

text \<open>A server for one client: a client connects, is closed, and another waits.\<close>

definition second_connection :: "tcp_event res" where
  "second_connection =
     rbind (started 1) (\<lambda>(h, t).
     rbind (tcp_server_poll zeros connecting h t) (\<lambda>t.
     rbind (tcp_server_event h t) (\<lambda>(e, t).
     rbind (tcp_client_close (e_handle e) t) (\<lambda>t.
     rbind (tcp_server_poll zeros connecting h t) (\<lambda>t.
     rbind (tcp_server_event h t) (\<lambda>(e, t). Inr e))))))"

text \<open>The place of a client that was closed is never used again: with a server for one client, after the first client has
  connected and was closed, a poll with a connection waiting reports nothing, because the number of clients is not lowered when one is freed.\<close>

theorem tcp_place_not_reused: "second_connection = Inr \<lparr>e_type = TCP_EVENT_NONE, e_handle = TCP_INVALID\<rparr>"
  by code_simp

text \<open>The handle that the second of two clients is reported with, and what it names.\<close>

definition second_client :: "client_ref option res" where
  "second_client =
     rbind (started 2) (\<lambda>(h, t).
     rbind (tcp_server_poll zeros connecting h t) (\<lambda>t.
     rbind (tcp_server_event h t) (\<lambda>(e, t).
     rbind (tcp_server_event h t) (\<lambda>(e, t). client_from_handle t (e_handle e)))))"

text \<open>The second client that connects to a server cannot be used: the handle in its event names no client, so that every call with it
  aborts.\<close>

theorem tcp_second_client_lost: "second_client = Inr None"
  by code_simp

text \<open>A stand-alone client that is closed, and another created in its place.\<close>

definition old_handle :: "client_ref res" where
  "old_handle =
     rbind (tcp_client_create (Some 4) zero_tcp) (\<lambda>(h, t).
     rbind (tcp_client_close h t) (\<lambda>t.
     rbind (tcp_client_create (Some 9) t) (\<lambda>(h2, t). rbind (c_assert (h2 \<noteq> h)) (\<lambda>_. need_client t h))))"

text \<open>The handle of a stand-alone client that was closed names the next client created in its place, although that one has
  another handle: the generation is not compared.\<close>

theorem tcp_old_handle_alive: "old_handle = Inr (Alone 0)"
  by code_simp

text \<open>A stand-alone client that has bytes to send when its peer disconnects fails an assertion: the input has put it into the
  state of a peer that hung up, and the output expects it to be in use.\<close>

theorem tcp_hangup_fails_assertion:
  assumes "need_alone t h = Inr i" "c_state (clients t ! i) = TCP_CLIENT_USED" "\<not> event_data (clients t ! i)" "\<not> event_disconnect (clients t ! i)"
    "0 < byte_queue_used_space (c_output (clients t ! i))" "\<not> poll_error env" "in_ready env i" "out_ready env i"
    "move_bytes_from_socket_to_queue malloc (recvs env i) (c_input (clients t ! i)) = Inr (0, moved, q)" "bq_inv (c_output (clients t ! i))"
  shows "tcp_client_poll malloc env h t = Inl Assert_failed"
proof -
  obtain ok sent q2 where "move_bytes_from_queue_to_socket (sends env i) (c_output (clients t ! i)) = Inr (ok, sent, q2)"
    using move_out_ok [OF assms(10)] by blast
  then show ?thesis using assms(1-9) by (simp add: tcp_client_poll_def alone_input_def alone_output_def Let_def)
qed

definition leaving :: tcp where
  "leaving = zero_tcp\<lparr>clients := [zero_client\<lparr>c_state := TCP_CLIENT_USED, c_output := \<lparr>data = Some [7], head = 0, size = 1, capacity = 1\<rparr>\<rparr>]\<rparr>"

theorem tcp_hangup_fails_assertion_witness:
  "tcp_client_poll zeros (quiet\<lparr>in_ready := (\<lambda>_. True), out_ready := (\<lambda>_. True), recvs := (\<lambda>_. [Got_eof])\<rparr>) 0 leaving = Inl Assert_failed"
proof (rule tcp_hangup_fails_assertion)
  show "need_alone leaving 0 = Inr 0" by code_simp
  have "recv_loop zeros [Got_eof] byte_queue_init = Inr (0, \<lparr>data = Some (replicate 256 0), head = 0, size = 0, capacity = 256\<rparr>)"
    by (subst recv_loop.simps) (simp add: byte_queue_ensure_min_free_space_def byte_queue_init_def zeros_def size_sub_def Let_def)
  then show "move_bytes_from_socket_to_queue zeros (recvs (quiet\<lparr>in_ready := (\<lambda>_. True), out_ready := (\<lambda>_. True), recvs := (\<lambda>_. [Got_eof])\<rparr>) 0)
      (c_input (clients leaving ! 0)) = Inr (0, Some 0, \<lparr>data = Some (replicate 256 0), head = 0, size = 0, capacity = 256\<rparr>)"
    by (simp add: move_bytes_from_socket_to_queue_def leaving_def zero_client_def zero_tcp_def byte_queue_used_space_def byte_queue_init_def)
qed (simp_all add: leaving_def zero_client_def zero_tcp_def quiet_def byte_queue_used_space_def bq_inv_def)

end
