(* ===== verification/Log.thy ===== *)
theory Log
  imports Spsc
begin

section \<open>The logger (\<^verbatim>\<open>misc/log.c\<close>)\<close>

text \<open>
  Any number of threads append text to buffers of their own, rings of \<open>2 ^ LOG_BUFFER_LOG2\<close> bytes with a semaphore that counts
  the free bytes; one thread takes the text out of all buffers and appends it to a file. Threads are numbered, and a thread's number also names its
  buffer. The rings are the queues of the theory \<open>Spsc\<close>; waiting for a semaphore takes its units in one step, once they are there, and signalling adds them
  in one step (the theory \<open>Semaphore\<close> has these operations in detail). A thread is at one of the points of the code between which others
  can run; in particular the flushing thread looks at the two parts of a ring one after the other.

  The result of system calls and of \<^verbatim>\<open>malloc\<close> is part of an event. What was written is recorded in \<open>written\<close>: the file, the buffer
  and the bytes; \<open>logged\<close> records what each thread pushed. A failed assertion, an \<^verbatim>\<open>abort\<close> or an access to memory that was given back stops the
  program. Mutexes are left out where the code they protect is one step. The \<^verbatim>\<open>PROFILE\<close> macros are left out.
\<close>

subsection \<open>Writing to a file\<close>

datatype write_result = Wrote nat | Write_eintr | Write_error

text \<open>The loop over \<^verbatim>\<open>write\<close>: the result of \<^verbatim>\<open>os_write\<close> and how many bytes went out; \<open>None\<close> while it is in a call.\<close>

fun os_write_loop :: "write_result list \<Rightarrow> nat \<Rightarrow> nat \<Rightarrow> (int \<times> nat) option" where
  "os_write_loop [] len written = None"
| "os_write_loop (r # rs) len written =
     (case r of
        Write_error \<Rightarrow> Some (- 1, written)
      | Write_eintr \<Rightarrow> if written < len then os_write_loop rs len written else Some (int written, written)
      | Wrote n \<Rightarrow>
          let written = written + min n (len - written) in
          if written < len then os_write_loop rs len written else Some (int written, written))"

definition os_write :: "write_result list \<Rightarrow> u8 list \<Rightarrow> (int \<times> u8 list) option" where
  "os_write rs data = map_option (\<lambda>(r, n). (r, take n data)) (os_write_loop rs (nat (min (int (length data)) (2 ^ 31 - 1))) 0)"

subsection \<open>State\<close>

record thread_buffer =
  tb_sem :: int
  tb_queue :: spsc_queue

datatype writer_pc =
    W_idle
  | W_list "u8 list"               \<comment> \<open>before loading the head of the list of buffers\<close>
  | W_cas "u8 list" "nat list"     \<comment> \<open>before the compare-and-exchange\<close>
  | W_check "u8 list"              \<comment> \<open>before looking at the free space\<close>
  | W_wait "u8 list"               \<comment> \<open>in \<^verbatim>\<open>semaphore_wait\<close>\<close>
  | W_push "u8 list"               \<comment> \<open>before \<^verbatim>\<open>spsc_queue_multi_push\<close>\<close>

type_synonym peek = "nat option \<times> int"

datatype flush_pc =
    F_start
  | F_test                         \<comment> \<open>at the test of the loop\<close>
  | F_asleep                       \<comment> \<open>in \<^verbatim>\<open>os_condvar_wait\<close>\<close>
  | F_config
  | F_open bool                    \<comment> \<open>before \<^verbatim>\<open>os_open\<close>; true after the loop\<close>
  | F_buffer bool "nat list"       \<comment> \<open>at the test of the inner loop, with the buffers left\<close>
  | F_peek1 bool "nat list" peek   \<comment> \<open>between the two peeks\<close>
  | F_write bool "nat list" peek peek
  | F_pop bool "nat list" int
  | F_signal bool "nat list" int
  | F_done

record log_state =
  lbits :: nat
  bufs :: "nat \<rightharpoonup> thread_buffer"
  tls :: "nat \<Rightarrow> bool"              \<comment> \<open>\<^verbatim>\<open>thread_local_buffer\<close> is not NULL\<close>
  blist :: "nat list"              \<comment> \<open>\<^verbatim>\<open>global_thread_local_buffer_list\<close>\<close>
  writer :: "nat \<Rightarrow> writer_pc"
  flusher :: flush_pc
  can_terminate :: bool
  config_changed :: bool
  config_timeout_ms :: int
  config_dest_file :: string
  timeout_ms :: int                \<comment> \<open>the variables of \<^verbatim>\<open>flush_routine\<close>\<close>
  dest_file :: string
  crashed :: "fault option"
  written :: "(string \<times> nat \<times> u8 list) list"
  logged :: "nat \<Rightarrow> u8 list"

definition crash :: "fault \<Rightarrow> log_state \<Rightarrow> log_state" where
  "crash e s = s\<lparr>crashed := Some e\<rparr>"

definition goto_w :: "nat \<Rightarrow> writer_pc \<Rightarrow> log_state \<Rightarrow> log_state" where
  "goto_w i pc s = s\<lparr>writer := (writer s)(i := pc)\<rparr>"

definition DEST_FILE_NAME_MAX :: nat where "DEST_FILE_NAME_MAX = 4096"

text \<open>\<^verbatim>\<open>log_init\<close> with a file name that is not NULL; the logger of a program that has no buffers.\<close>

definition log_init :: "nat \<Rightarrow> string \<Rightarrow> log_state res" where
  "log_init k dest =
     (if DEST_FILE_NAME_MAX \<le> length dest then Inl Aborted
      else Inr \<lparr>lbits = k, bufs = Map.empty, tls = (\<lambda>_. False), blist = [], writer = (\<lambda>_. W_idle), flusher = F_start,
        can_terminate = False, config_changed = False, config_timeout_ms = 1000, config_dest_file = dest,
        timeout_ms = 0, dest_file = [], crashed = None, written = [], logged = (\<lambda>_. [])\<rparr>)"

subsection \<open>Configuration\<close>

definition log_set_flush_timeout :: "int \<Rightarrow> log_state \<Rightarrow> log_state" where
  "log_set_flush_timeout t s = s\<lparr>config_timeout_ms := t, config_changed := True\<rparr>"

definition log_set_dest_file :: "string \<Rightarrow> log_state \<Rightarrow> log_state" where
  "log_set_dest_file dest s =
     (if DEST_FILE_NAME_MAX \<le> length dest then crash Aborted s
      else s\<lparr>config_dest_file := dest, config_changed := True\<rparr>)"

definition wakeup_flush_routine :: "log_state \<Rightarrow> log_state" where
  "wakeup_flush_routine s = (if flusher s = F_asleep then s\<lparr>flusher := F_config\<rparr> else s)"

subsection \<open>Logging\<close>

text \<open>The start of \<^verbatim>\<open>log_write2\<close>, with the memory that \<^verbatim>\<open>malloc\<close> would give for a buffer.\<close>

definition log_write2 :: "nat \<Rightarrow> u8 list \<Rightarrow> u8 list option \<Rightarrow> log_state \<Rightarrow> log_state" where
  "log_write2 i data mem s =
     (if 2 ^ lbits s < length data then crash Aborted s
      else if \<not> tls s i then
        case mem of
          None \<Rightarrow> crash Aborted s
        | Some d \<Rightarrow> goto_w i (W_list data)
            (s\<lparr>bufs := (bufs s)(i \<mapsto> \<lparr>tb_sem = 2 ^ lbits s, tb_queue = spsc_queue_init d (lbits s) 1\<rparr>)\<rparr>)
      else goto_w i (W_check data) s)"

text \<open>\<^verbatim>\<open>log_writefv\<close> with the text that the format expands to, if it can be expanded.\<close>

definition log_writefv :: "nat \<Rightarrow> u8 list option \<Rightarrow> u8 list option \<Rightarrow> log_state \<Rightarrow> log_state" where
  "log_writefv i expanded mem s =
     (case expanded of
        None \<Rightarrow> crash Aborted s
      | Some data \<Rightarrow> if 4096 \<le> length data then crash Aborted s else log_write2 i data mem s)"

text \<open>What follows in \<^verbatim>\<open>log_write2\<close>, from one point to the next; \<open>None\<close> when the thread cannot go on. The compare-and-exchange
  can also fail for no reason.\<close>

definition link_buffer :: "nat \<Rightarrow> u8 list \<Rightarrow> nat list \<Rightarrow> bool \<Rightarrow> log_state \<Rightarrow> log_state" where
  "link_buffer i data old_head spurious s =
     (if blist s = old_head \<and> \<not> spurious
      then goto_w i (W_check data) (s\<lparr>blist := i # old_head, tls := (tls s)(i := True)\<rparr>)
      else goto_w i (W_list data) s)"

definition check_space :: "nat \<Rightarrow> u8 list \<Rightarrow> log_state \<Rightarrow> log_state" where
  "check_space i data s =
     (case bufs s i of
        None \<Rightarrow> crash Out_of_bounds s
      | Some b \<Rightarrow>
          let space = spsc_queue_capacity (tb_queue b) - spsc_queue_size (tb_queue b);
              s = (if unat (word_of_int space :: u64) < length data then wakeup_flush_routine s else s)
          in goto_w i (W_wait data) s)"

definition wait_space :: "nat \<Rightarrow> u8 list \<Rightarrow> log_state \<Rightarrow> log_state option" where
  "wait_space i data s =
     (case bufs s i of
        None \<Rightarrow> Some (crash Out_of_bounds s)
      | Some b \<Rightarrow>
          if data = [] then Some (crash Assert_failed s)
          else if int (length data) \<le> tb_sem b then
            Some (goto_w i (W_push data) (s\<lparr>bufs := (bufs s)(i \<mapsto> b\<lparr>tb_sem := tb_sem b - int (length data)\<rparr>)\<rparr>))
          else None)"

definition push_text :: "nat \<Rightarrow> u8 list \<Rightarrow> log_state \<Rightarrow> log_state" where
  "push_text i data s =
     (case bufs s i of
        None \<Rightarrow> crash Out_of_bounds s
      | Some b \<Rightarrow>
          (case spsc_queue_multi_push (tb_queue b) (Some data) (int (length data)) of
             Inl e \<Rightarrow> crash e s
           | Inr (_, q) \<Rightarrow> goto_w i W_idle
               (s\<lparr>bufs := (bufs s)(i \<mapsto> b\<lparr>tb_queue := q\<rparr>), logged := (logged s)(i := logged s i @ data)\<rparr>)))"

definition writer_next :: "nat \<Rightarrow> bool \<Rightarrow> log_state \<Rightarrow> log_state option" where
  "writer_next i spurious s =
     (case writer s i of
        W_idle \<Rightarrow> None
      | W_list data \<Rightarrow> Some (goto_w i (W_cas data (blist s)) s)
      | W_cas data old_head \<Rightarrow> Some (link_buffer i data old_head spurious s)
      | W_check data \<Rightarrow> Some (check_space i data s)
      | W_wait data \<Rightarrow> wait_space i data s
      | W_push data \<Rightarrow> Some (push_text i data s))"

subsection \<open>Flushing\<close>

abbreviation goto_f :: "flush_pc \<Rightarrow> log_state \<Rightarrow> log_state" where
  "goto_f pc s \<equiv> s\<lparr>flusher := pc\<rparr>"

text \<open>The bytes that a peek shows.\<close>

definition peek_bytes :: "spsc_queue \<Rightarrow> peek \<Rightarrow> u8 list res" where
  "peek_bytes q p =
     (case fst p of
        None \<Rightarrow> Inr []
      | Some off \<Rightarrow> if off + nat (snd p) \<le> length (items q) then Inr (chunk (items q) off (nat (snd p))) else Inl Out_of_bounds)"

definition flush_write :: "write_result list \<Rightarrow> write_result list \<Rightarrow> bool \<Rightarrow> nat list \<Rightarrow> peek \<Rightarrow> peek \<Rightarrow> nat \<Rightarrow> thread_buffer \<Rightarrow> log_state \<Rightarrow> log_state option" where
  "flush_write rs1 rs2 final cursor p1 p2 i b s =
     (case peek_bytes (tb_queue b) p1 of
        Inl e \<Rightarrow> Some (crash e s)
      | Inr d1 \<Rightarrow>
          (case peek_bytes (tb_queue b) p2 of
             Inl e \<Rightarrow> Some (crash e s)
           | Inr d2 \<Rightarrow>
               (case os_write rs1 d1 of
                  None \<Rightarrow> None
                | Some (r1, out1) \<Rightarrow>
                    if r1 \<noteq> snd p1 then Some (crash Aborted s)
                    else
                      (case os_write rs2 d2 of
                         None \<Rightarrow> None
                       | Some (r2, out2) \<Rightarrow>
                           if r2 \<noteq> snd p2 then Some (crash Aborted s)
                           else Some (goto_f (F_pop final cursor (snd p1 + snd p2))
                                  (s\<lparr>written := written s @ [(dest_file s, i, out1 @ out2)]\<rparr>))))))"

definition flush_pop :: "bool \<Rightarrow> nat list \<Rightarrow> int \<Rightarrow> nat \<Rightarrow> thread_buffer \<Rightarrow> log_state \<Rightarrow> log_state" where
  "flush_pop final cursor n i b s =
     (case spsc_queue_multi_pop (tb_queue b) False n of
        Inl e \<Rightarrow> crash e s
      | Inr (_, _, q) \<Rightarrow> goto_f (F_signal final cursor n) (s\<lparr>bufs := (bufs s)(i \<mapsto> b\<lparr>tb_queue := q\<rparr>)\<rparr>))"

definition flush_signal :: "bool \<Rightarrow> nat list \<Rightarrow> int \<Rightarrow> nat \<Rightarrow> thread_buffer \<Rightarrow> log_state \<Rightarrow> log_state" where
  "flush_signal final cursor n i b s =
     (if n \<le> 0 then crash Assert_failed s
      else goto_f (F_buffer final (tl cursor)) (s\<lparr>bufs := (bufs s)(i \<mapsto> b\<lparr>tb_sem := tb_sem b + n\<rparr>)\<rparr>))"

text \<open>The buffer at the cursor.\<close>

definition at_cursor :: "nat list \<Rightarrow> (nat \<Rightarrow> thread_buffer \<Rightarrow> log_state \<Rightarrow> log_state option) \<Rightarrow> log_state \<Rightarrow> log_state option" where
  "at_cursor cursor f s =
     (case cursor of
        [] \<Rightarrow> Some (crash Null_pointer s)
      | i # _ \<Rightarrow> (case bufs s i of None \<Rightarrow> Some (crash Out_of_bounds s) | Some b \<Rightarrow> f i b s))"

text \<open>The flushing thread from one point to the next; \<open>opened\<close> says whether \<^verbatim>\<open>os_open\<close> succeeds, the lists are the results of
  the calls of \<^verbatim>\<open>write\<close> for the two parts.\<close>

definition flush_next :: "bool \<Rightarrow> write_result list \<Rightarrow> write_result list \<Rightarrow> log_state \<Rightarrow> log_state option" where
  "flush_next opened rs1 rs2 s =
     (case flusher s of
        F_start \<Rightarrow> Some (goto_f F_test (s\<lparr>timeout_ms := config_timeout_ms s, dest_file := config_dest_file s\<rparr>))
      | F_test \<Rightarrow> Some (goto_f (if can_terminate s then F_open True else F_asleep) s)
      | F_asleep \<Rightarrow> Some (goto_f F_config s)
      | F_config \<Rightarrow> Some (goto_f (F_open False)
          (if config_changed s
           then s\<lparr>timeout_ms := config_timeout_ms s, dest_file := config_dest_file s, config_changed := False\<rparr> else s))
      | F_open final \<Rightarrow> Some (if opened then goto_f (F_buffer final (blist s)) s else crash Aborted s)
      | F_buffer final cursor \<Rightarrow>
          if cursor = [] then Some (goto_f (if final then F_done else F_test) s)
          else at_cursor cursor (\<lambda>i b s. Some (goto_f (F_peek1 final cursor (spsc_queue_peek_0 (tb_queue b))) s)) s
      | F_peek1 final cursor p1 \<Rightarrow>
          at_cursor cursor (\<lambda>i b s.
            let p2 = spsc_queue_peek_1 (tb_queue b) in
            Some (goto_f (if snd p1 + snd p2 > 0 then F_write final cursor p1 p2 else F_buffer final (tl cursor)) s)) s
      | F_write final cursor p1 p2 \<Rightarrow> at_cursor cursor (flush_write rs1 rs2 final cursor p1 p2) s
      | F_pop final cursor n \<Rightarrow> at_cursor cursor (\<lambda>i b s. Some (flush_pop final cursor n i b s)) s
      | F_signal final cursor n \<Rightarrow> at_cursor cursor (\<lambda>i b s. Some (flush_signal final cursor n i b s)) s
      | F_done \<Rightarrow> None)"

subsection \<open>The end\<close>

text \<open>\<^verbatim>\<open>log_quit\<close>: the flushing thread is told to stop; when it has, the buffers are given back. The threads keep
  their pointers to them.\<close>

definition log_quit_begin :: "log_state \<Rightarrow> log_state" where
  "log_quit_begin s = wakeup_flush_routine (s\<lparr>can_terminate := True\<rparr>)"

definition log_quit_end :: "log_state \<Rightarrow> log_state option" where
  "log_quit_end s = (if can_terminate s \<and> flusher s = F_done then Some (s\<lparr>bufs := Map.empty, blist := []\<rparr>) else None)"

subsection \<open>Interleaving\<close>

datatype log_event =
    Write_call nat "u8 list" "u8 list option"
  | Writef_call nat "u8 list option" "u8 list option"
  | Writer nat bool
  | Flusher bool "write_result list" "write_result list"
  | Set_timeout int
  | Set_dest string
  | Quit_begin
  | Quit_end

definition log_next :: "log_event \<Rightarrow> log_state \<Rightarrow> log_state option" where
  "log_next e s =
     (if crashed s \<noteq> None then None
      else case e of
        Write_call i data mem \<Rightarrow> if writer s i = W_idle then Some (log_write2 i data mem s) else None
      | Writef_call i expanded mem \<Rightarrow> if writer s i = W_idle then Some (log_writefv i expanded mem s) else None
      | Writer i spurious \<Rightarrow> writer_next i spurious s
      | Flusher opened rs1 rs2 \<Rightarrow> flush_next opened rs1 rs2 s
      | Set_timeout t \<Rightarrow> Some (log_set_flush_timeout t s)
      | Set_dest dest \<Rightarrow> Some (log_set_dest_file dest s)
      | Quit_begin \<Rightarrow> Some (log_quit_begin s)
      | Quit_end \<Rightarrow> log_quit_end s)"

end
