(* ===== verification/LogRing.thy ===== *)
theory LogRing
  imports Log
begin

section \<open>The rings of the logger\<close>

text \<open>
  What the two peeks show when the ring is looked at with \<open>n\<close> of its items, and the queue operations on bytes.
\<close>

definition peek0_at :: "spsc_queue \<Rightarrow> nat \<Rightarrow> peek" where
  "peek0_at q n =
     (let h = unat (head q) mod ring_cap q
      in if n = 0 then (None, 0) else (Some (h * unat (item_size q)), int (min n (ring_cap q - h))))"

definition peek1_at :: "spsc_queue \<Rightarrow> nat \<Rightarrow> peek" where
  "peek1_at q n =
     (let h = unat (head q) mod ring_cap q
      in if n = 0 \<or> n < ring_cap q - h then (None, 0) else (Some 0, int (n - (ring_cap q - h))))"

abbreviation used :: "spsc_queue \<Rightarrow> nat" where
  "used q \<equiv> length (spsc_contents q)"

lemma used_eq: "used q = unat (tail q) - unat (head q)"
  by (simp add: spsc_contents_def)

lemma used_le: "spsc_inv q \<Longrightarrow> used q \<le> ring_cap q"
  by (simp add: used_eq spsc_inv_def)

text \<open>Where the end of a range of at most one capacity falls.\<close>

lemma mod_range:
  assumes "H < T" "T - H \<le> (c :: nat)"
  defines "h \<equiv> H mod c"
  shows "T mod c = (if T - H < c - h then h + (T - H) else T - H - (c - h))"
proof -
  have "0 < c" using assms by auto
  then have h: "h < c" by (simp add: h_def)
  have eq: "T mod c = (h + (T - H)) mod c"
  proof -
    have "(h + (T - H)) mod c = (H + (T - H)) mod c" unfolding h_def by (rule mod_add_left_eq)
    then show ?thesis using assms(1) by simp
  qed
  show ?thesis
  proof (cases "T - H < c - h")
    case True
    then show ?thesis using eq by simp
  next
    case False
    then have "h + (T - H) = (T - H - (c - h)) + c" using h by simp
    then have "(h + (T - H)) mod c = (T - H - (c - h)) mod c" by (simp only: mod_add_self2)
    moreover have "T - H - (c - h) < c" using assms(2) h by simp
    ultimately show ?thesis using eq False by simp
  qed
qed

lemma peek_eq:
  assumes "spsc_inv q"
  shows "spsc_queue_peek_0 q = peek0_at q (used q)" "spsc_queue_peek_1 q = peek1_at q (used q)"
proof -
  from assms have c: "cap_log2 q \<le> 30" "unat (head q) \<le> unat (tail q)" "unat (tail q) - unat (head q) \<le> ring_cap q"
    by (auto simp: spsc_inv_def)
  define h where "h = unat (head q) mod ring_cap q"
  define t where "t = unat (tail q) mod ring_cap q"
  define n where "n = used q"
  have n: "n = unat (tail q) - unat (head q)" by (simp add: n_def used_eq)
  have ht: "h < ring_cap q" "t < ring_cap q" by (simp_all add: h_def t_def)
  note mh = masked_u32 [OF c(1), of "head q", folded h_def] and mt = masked_u32 [OF c(1), of "tail q", folded t_def]
  let ?mh = "ucast (head q AND mask_word q) :: u32" and ?mt = "ucast (tail q AND mask_word q) :: u32"
  have less: "?mh < ?mt \<longleftrightarrow> h < t" by (simp add: word_less_nat_alt mh mt)
  have addr: "item_addr q (sint ?mh) = h * unat (item_size q)" "item_addr q 0 = 0"
    using item_addr_eq(1) [OF assms ht(1)] by (simp_all add: mh item_addr_def)
  have "spsc_queue_peek_0 q = peek0_at q n \<and> spsc_queue_peek_1 q = peek1_at q n"
  proof (cases "head q = tail q")
    case True
    then show ?thesis using n by (simp add: spsc_queue_peek_0_def spsc_queue_peek_1_def peek0_at_def peek1_at_def)
  next
    case False
    with c(2) have lt: "unat (head q) < unat (tail q)" by (metis le_neq_implies_less word_unat_eq_iff)
    then have pos: "0 < n" by (simp add: n)
    have t: "t = (if n < ring_cap q - h then h + n else n - (ring_cap q - h))"
      using mod_range [OF lt c(3)] unfolding t_def h_def n by simp
    show ?thesis
    proof (cases "n < ring_cap q - h")
      case True
      then have hl: "h < t" using t pos by simp
      have "unat (?mt - ?mh) = t - h" using hl less by (simp add: unat_sub mh mt)
      then have "sint (?mt - ?mh) = int (t - h)" using ht cap_bounds(2) [OF c(1)] by (subst sint_small) auto
      then show ?thesis
        using False True hl less addr pos t
        by (simp add: spsc_queue_peek_0_def spsc_queue_peek_1_def Let_def peek0_at_def peek1_at_def h_def [symmetric])
    next
      case nl: False
      then have hl: "\<not> h < t" using t c(3) n ht by simp
      have "?mh \<le> cap_word q" using ht by (simp add: word_le_nat_alt mh unat_cap_word [OF c(1)])
      then have "unat (cap_word q - ?mh) = ring_cap q - h" by (simp add: unat_sub mh unat_cap_word [OF c(1)])
      then have "sint (cap_word q - ?mh) = int (ring_cap q - h)" using cap_bounds(2) [OF c(1)] by (subst sint_small) auto
      then show ?thesis
        using False nl hl less addr pos t mt
        by (simp add: spsc_queue_peek_0_def spsc_queue_peek_1_def Let_def peek0_at_def peek1_at_def h_def [symmetric])
    qed
  qed
  then show "spsc_queue_peek_0 q = peek0_at q (used q)" "spsc_queue_peek_1 q = peek1_at q (used q)" by (simp_all add: n_def)
qed

subsection \<open>Bytes\<close>

text \<open>A ring of bytes of the capacity \<open>2 ^ k\<close>.\<close>

definition byte_ring :: "nat \<Rightarrow> spsc_queue \<Rightarrow> bool" where
  "byte_ring k q \<longleftrightarrow> spsc_inv q \<and> item_size q = 1 \<and> ring_cap q = 2 ^ k"

definition text_of :: "spsc_queue \<Rightarrow> u8 list" where
  "text_of q = concat (spsc_contents q)"

lemma span_item_length: "spsc_inv q \<Longrightarrow> x \<in> set (span q h t) \<Longrightarrow> length x = unat (item_size q)"
  by (auto simp: span_def length_item_at)

lemma concat_singles: "\<forall>x \<in> set xs. length x = 1 \<Longrightarrow> concat (take n xs) = take n (concat xs) \<and> length (concat xs) = length xs"
proof (induction xs arbitrary: n)
  case (Cons x xs)
  then obtain y where "x = [y]" by (auto simp: length_Suc_conv)
  then show ?case using Cons by (cases n) auto
qed simp

lemma concat_drop_singles: "\<forall>x \<in> set xs. length x = 1 \<Longrightarrow> concat (drop n xs) = drop n (concat xs)"
proof (induction xs arbitrary: n)
  case (Cons x xs)
  then obtain y where "x = [y]" by (auto simp: length_Suc_conv)
  then show ?case using Cons by (cases n) auto
qed simp

lemma concat_map_single: "concat (map (\<lambda>x. [x]) xs) = xs"
  by (induction xs) auto

lemma text_length: "byte_ring k q \<Longrightarrow> length (text_of q) = used q"
  using concat_singles [of "spsc_contents q"] span_item_length [of q]
  by (auto simp: byte_ring_def text_of_def spsc_contents_def)

lemma ring_push:
  assumes "byte_ring k q" "used q + length data \<le> 2 ^ k" "unat (tail q) + length data < 2 ^ 64 - 1"
  shows "\<exists>q'. spsc_queue_multi_push q (Some data) (int (length data)) = Inr (True, q') \<and> byte_ring k q'
    \<and> text_of q' = text_of q @ data \<and> used q' = used q + length data \<and> unat (tail q') = unat (tail q) + length data \<and> head q' = head q"
proof -
  let ?xs = "map (\<lambda>x. [x]) data"
  obtain q' where q': "spsc_queue_multi_push q (Some data) (int (length data)) = Inr (True, q')" "spsc_inv q'" "item_size q' = item_size q"
      "ring_cap q' = ring_cap q" "spsc_contents q' = spsc_contents q @ ?xs" "unat (tail q') = unat (tail q) + length data"
    using multi_push_ok [of q ?xs] assms by (auto simp: byte_ring_def concat_map_single)
  have "used q' = used q + length data" using q'(5) by simp
  moreover have "unat (head q) \<le> unat (tail q)" "unat (head q') \<le> unat (tail q')" using assms(1) q'(2) by (auto simp: byte_ring_def spsc_inv_def)
  ultimately have "unat (head q') = unat (head q)" using q'(6) unfolding used_eq by linarith
  then have "head q' = head q" by (simp only: word_unat_eq_iff)
  then show ?thesis using q' assms(1) by (auto simp: byte_ring_def text_of_def concat_map_single)
qed

lemma ring_pop:
  assumes "byte_ring k q" "n \<le> used q"
  shows "\<exists>q'. spsc_queue_multi_pop q False (int n) = Inr (True, None, q') \<and> byte_ring k q' \<and> text_of q' = drop n (text_of q)
    \<and> used q' = used q - n \<and> tail q' = tail q"
proof -
  have inv: "spsc_inv q" using assms(1) by (simp add: byte_ring_def)
  obtain q' where q': "spsc_queue_multi_pop q True (int n) = Inr (True, Some (take n (spsc_contents q)), q')" "spsc_inv q'"
      "item_size q' = item_size q" "ring_cap q' = ring_cap q" "spsc_contents q' = drop n (spsc_contents q)" "tail q' = tail q"
    using multi_pop_ok [OF inv assms(2)] by blast
  have "spsc_queue_multi_pop q False (int n) = Inr (True, None, q')"
    using q'(1) by (auto simp: spsc_queue_multi_pop_def rbind_eq_Inr split: if_splits)
  moreover have "text_of q' = drop n (text_of q)"
    unfolding text_of_def q'(5) using span_item_length [OF inv] assms(1) by (intro concat_drop_singles) (auto simp: byte_ring_def spsc_contents_def)
  ultimately show ?thesis using q' assms(1) by (auto simp: byte_ring_def)
qed

subsection \<open>What the flushing thread reads\<close>

lemma peek0_at_le: "snd (peek0_at q n) \<le> int n" "0 \<le> snd (peek0_at q n)"
  by (auto simp: peek0_at_def Let_def)

lemma peek_at_sum:
  assumes "m \<le> n"
  shows "snd (peek0_at q m) + snd (peek1_at q n) \<le> int n" "0 \<le> snd (peek1_at q n)"
proof -
  define h where "h = unat (head q) mod ring_cap q"
  have "h < ring_cap q" by (simp add: h_def)
  then show "snd (peek0_at q m) + snd (peek1_at q n) \<le> int n" "0 \<le> snd (peek1_at q n)"
    using assms unfolding peek0_at_def peek1_at_def Let_def h_def [symmetric] by (auto simp: min_def)
qed

lemma peek_at_same: "snd (peek0_at q n) + snd (peek1_at q n) = int n"
  by (auto simp: peek0_at_def peek1_at_def Let_def min_def)

text \<open>The memory a peek points to is inside the ring.\<close>

lemma peek_bytes_ok:
  assumes "byte_ring k q" "n \<le> 2 ^ k"
  shows "\<exists>d. peek_bytes q (peek0_at q n) = Inr d \<and> int (length d) = snd (peek0_at q n)"
    "\<exists>d. peek_bytes q (peek1_at q n) = Inr d \<and> int (length d) = snd (peek1_at q n)"
proof -
  define h where "h = unat (head q) mod ring_cap q"
  have h: "h < 2 ^ k" using assms(1) mod_less_divisor [OF ring_cap_pos, of "unat (head q)" q] by (simp add: h_def byte_ring_def)
  have len: "length (items q) = 2 ^ k" using assms(1) by (simp add: byte_ring_def spsc_inv_def)
  have c: "ring_cap q = 2 ^ k" "item_size q = 1" using assms(1) by (simp_all add: byte_ring_def)
  show "\<exists>d. peek_bytes q (peek0_at q n) = Inr d \<and> int (length d) = snd (peek0_at q n)"
    using h len unfolding peek_bytes_def peek0_at_def Let_def h_def [symmetric] by (auto simp: c)
  show "\<exists>d. peek_bytes q (peek1_at q n) = Inr d \<and> int (length d) = snd (peek1_at q n)"
    using h len assms(2) unfolding peek_bytes_def peek1_at_def Let_def h_def [symmetric] by (auto simp: c)
qed

text \<open>When both peeks see the same number of items, they show the first items of the queue.\<close>

lemma peek_bytes_run:
  assumes "byte_ring k q" "m + n \<le> 2 ^ k"
  shows "peek_bytes q (Some m, int n) = Inr (concat (map (item_at q) [m..<m + n]))"
proof -
  have len: "length (items q) = 2 ^ k" and i: "item_size q = 1" using assms(1) by (simp_all add: byte_ring_def spsc_inv_def)
  have "chunk (items q) m n = concat (map (item_at q) [m..<m + n])" if "m + n \<le> length (items q)" for n
    using that
  proof (induction n)
    case (Suc n)
    have "item_at q (m + n) = [items q ! (m + n)]" using Suc.prems by (simp add: item_at_def i chunk_def take_Suc_conv_app_nth)
    moreover have "chunk (items q) m (Suc n) = chunk (items q) m n @ [items q ! (m + n)]"
      using Suc.prems by (simp add: chunk_def take_Suc_conv_app_nth)
    ultimately show ?case using Suc by simp
  qed (simp add: chunk_def)
  then show ?thesis using assms(2) len by (simp add: peek_bytes_def)
qed

lemma peek_text:
  assumes "byte_ring k q" "n \<le> used q"
  shows "\<exists>d1 d2. peek_bytes q (peek0_at q n) = Inr d1 \<and> peek_bytes q (peek1_at q n) = Inr d2 \<and> d1 @ d2 = take n (text_of q)"
proof (cases "n = 0")
  case True
  then show ?thesis by (simp add: peek0_at_def peek1_at_def peek_bytes_def)
next
  case False
  define h where "h = unat (head q) mod ring_cap q"
  define H where "H = unat (head q)"
  have inv: "spsc_inv q" and c: "ring_cap q = 2 ^ k" "item_size q = 1" using assms(1) by (simp_all add: byte_ring_def)
  have h: "h < 2 ^ k" using mod_less_divisor [OF ring_cap_pos, of "unat (head q)" q] by (simp add: h_def c)
  have n: "n \<le> 2 ^ k" using used_le [OF inv] assms(2) c by simp
  have take_text: "take n (text_of q) = concat (span q H (H + n))"
  proof -
    have "take n (spsc_contents q) = span q H (H + n)"
    proof -
      have "H + n \<le> unat (tail q)" using assms(2) False unfolding used_eq H_def by simp
      then show ?thesis
        using span_split [of H "H + n" "unat (tail q)" q] unfolding spsc_contents_def H_def [symmetric] by simp
    qed
    moreover have "\<forall>x \<in> set (spsc_contents q). length x = 1" using span_item_length [OF inv] c by (simp add: spsc_contents_def)
    ultimately show ?thesis using concat_singles [of "spsc_contents q" n] by (simp add: text_of_def)
  qed
  have t: "(H + n) mod ring_cap q = (if n < 2 ^ k - h then h + n else n - (2 ^ k - h))"
    using mod_range [of H "H + n" "2 ^ k"] False n by (simp add: c H_def h_def)
  have run: "span q H (H + n) = (if n < 2 ^ k - h then map (item_at q) [h..<h + n]
      else map (item_at q) [h..<2 ^ k] @ map (item_at q) [0..<n - (2 ^ k - h)])"
    using span_runs [of H "H + n" q] False n h unfolding t by (auto simp: c h_def H_def)
  have at: "peek0_at q n = (Some h, int (min n (2 ^ k - h)))"
      "peek1_at q n = (if n < 2 ^ k - h then (None, 0) else (Some 0, int (n - (2 ^ k - h))))"
    using False unfolding peek0_at_def peek1_at_def Let_def h_def [symmetric] by (simp_all add: c)
  show ?thesis
  proof (cases "n < 2 ^ k - h")
    case True
    have "peek_bytes q (None, 0) = Inr []" by (simp add: peek_bytes_def)
    then show ?thesis using True peek_bytes_run [OF assms(1), of h n] unfolding take_text run at by simp
  next
    case nl: False
    then have m: "min n (2 ^ k - h) = 2 ^ k - h" "h + (2 ^ k - h) = 2 ^ k" using h by simp_all
    then show ?thesis
      using nl n peek_bytes_run [OF assms(1), of h "2 ^ k - h"] peek_bytes_run [OF assms(1), of 0 "n - (2 ^ k - h)"]
      unfolding take_text run at m by simp
  qed
qed

end
