(* ===== verification/LogSystem.thy ===== *)
theory LogSystem
  imports LogRing
begin

section \<open>The logger as a whole\<close>

text \<open>
  Threads that log, the thread that flushes and the calls that configure and end the logger, in any order. The bytes of a buffer that are
  free, granted to its writer, in the ring or taken out but not signalled yet always add up to its capacity. With \<open>quiet\<close> no thread
  pushes text while the flushing thread is between its two looks at that thread's ring.
\<close>

subsection \<open>Steps\<close>

text \<open>What \<^verbatim>\<open>malloc\<close> returns has the size that was asked for.\<close>

fun event_ok :: "log_state \<Rightarrow> log_event \<Rightarrow> bool" where
  "event_ok s (Write_call i data (Some d)) = (length d = 2 ^ lbits s)"
| "event_ok s (Writef_call i expanded (Some d)) = (length d = 2 ^ lbits s)"
| "event_ok s _ = True"

definition races :: "log_event \<Rightarrow> log_state \<Rightarrow> bool" where
  "races e s \<longleftrightarrow>
     (case e of
        Writer i _ \<Rightarrow>
          (case flusher s of F_peek1 _ (j # _) _ \<Rightarrow> i = j \<and> (case writer s i of W_push _ \<Rightarrow> True | _ \<Rightarrow> False) | _ \<Rightarrow> False)
      | _ \<Rightarrow> False)"

definition log_step :: "bool \<Rightarrow> log_state \<Rightarrow> log_state \<Rightarrow> bool" where
  "log_step quiet s s' \<longleftrightarrow> (\<exists>e. event_ok s e \<and> (quiet \<longrightarrow> \<not> races e s) \<and> log_next e s = Some s')"

definition log_start :: "log_state \<Rightarrow> bool" where
  "log_start s \<longleftrightarrow> (\<exists>k dest. k \<le> 30 \<and> log_init k dest = Inr s)"

subsection \<open>Invariant\<close>

text \<open>The text of a buffer that was written to files, in order.\<close>

definition flushed :: "log_state \<Rightarrow> nat \<Rightarrow> u8 list" where
  "flushed s i = concat (map (\<lambda>(f, j, d). d) (filter (\<lambda>(f, j, d). j = i) (written s)))"

fun granted :: "writer_pc \<Rightarrow> int" where
  "granted (W_push data) = int (length data)"
| "granted _ = 0"

fun linking :: "writer_pc \<Rightarrow> bool" where
  "linking (W_list _) = True"
| "linking (W_cas _ _) = True"
| "linking _ = False"

fun linked :: "writer_pc \<Rightarrow> bool" where
  "linked (W_check _) = True"
| "linked (W_wait _) = True"
| "linked (W_push _) = True"
| "linked _ = False"

fun cursor :: "flush_pc \<Rightarrow> nat list" where
  "cursor (F_buffer _ c) = c"
| "cursor (F_peek1 _ c _) = c"
| "cursor (F_write _ c _ _) = c"
| "cursor (F_pop _ c _) = c"
| "cursor (F_signal _ c _) = c"
| "cursor _ = []"

definition unsignalled :: "flush_pc \<Rightarrow> nat \<Rightarrow> int" where
  "unsignalled pc i = (case pc of F_signal _ (j # _) n \<Rightarrow> if i = j then n else 0 | _ \<Rightarrow> 0)"

definition unpopped :: "flush_pc \<Rightarrow> nat \<Rightarrow> nat" where
  "unpopped pc i = (case pc of F_pop _ (j # _) n \<Rightarrow> if i = j then nat n else 0 | _ \<Rightarrow> 0)"

definition threads_ok :: "log_state \<Rightarrow> bool" where
  "threads_ok s \<longleftrightarrow>
     (\<forall>i. (linking (writer s i) \<longrightarrow> \<not> tls s i) \<and> (linked (writer s i) \<longrightarrow> tls s i)
        \<and> (\<not> tls s i \<longrightarrow> logged s i = [] \<and> flushed s i = [])
        \<and> ((tls s i \<or> linking (writer s i)) \<and> flusher s \<noteq> F_done \<longrightarrow> bufs s i \<noteq> None))
     \<and> (\<forall>i \<in> set (blist s) \<union> set (cursor (flusher s)). tls s i)"

text \<open>What the flushing thread has found out about the buffer at its cursor.\<close>

definition flush_ok :: "bool \<Rightarrow> flush_pc \<Rightarrow> nat \<Rightarrow> spsc_queue \<Rightarrow> bool" where
  "flush_ok quiet pc i q \<longleftrightarrow>
     (case pc of
        F_peek1 _ (j # _) p1 \<Rightarrow> i = j \<longrightarrow> (\<exists>n \<le> used q. p1 = peek0_at q n \<and> (quiet \<longrightarrow> n = used q))
      | F_write _ (j # _) p1 p2 \<Rightarrow> i = j \<longrightarrow> 0 < snd p1 + snd p2 \<and>
          (\<exists>m n. m \<le> n \<and> n \<le> used q \<and> p1 = peek0_at q m \<and> p2 = peek1_at q n \<and> (quiet \<longrightarrow> m = n))
      | F_pop _ (j # _) n \<Rightarrow> i = j \<longrightarrow> 0 < n \<and> n \<le> int (used q)
      | F_signal _ (j # _) n \<Rightarrow> i = j \<longrightarrow> 0 < n
      | _ \<Rightarrow> True)"

fun at_buffer :: "flush_pc \<Rightarrow> bool" where
  "at_buffer (F_peek1 _ c _) = (c \<noteq> [])"
| "at_buffer (F_write _ c _ _) = (c \<noteq> [])"
| "at_buffer (F_pop _ c _) = (c \<noteq> [])"
| "at_buffer (F_signal _ c _) = (c \<noteq> [])"
| "at_buffer _ = True"

definition buffer_ok :: "bool \<Rightarrow> log_state \<Rightarrow> nat \<Rightarrow> thread_buffer \<Rightarrow> bool" where
  "buffer_ok quiet s i b \<longleftrightarrow> byte_ring (lbits s) (tb_queue b) \<and> 0 \<le> tb_sem b
     \<and> tb_sem b + granted (writer s i) + int (used (tb_queue b)) + unsignalled (flusher s) i = 2 ^ lbits s
     \<and> unat (tail (tb_queue b)) = length (logged s i) \<and> flush_ok quiet (flusher s) i (tb_queue b)
     \<and> (quiet \<longrightarrow> logged s i = flushed s i @ drop (unpopped (flusher s) i) (text_of (tb_queue b)))"

definition log_ok :: "bool \<Rightarrow> log_state \<Rightarrow> bool" where
  "log_ok quiet s \<longleftrightarrow> lbits s \<le> 30 \<and> threads_ok s \<and> at_buffer (flusher s) \<and> (\<forall>i b. bufs s i = Some b \<longrightarrow> buffer_ok quiet s i b)"

definition log_inv :: "bool \<Rightarrow> log_state \<Rightarrow> bool" where
  "log_inv quiet s \<longleftrightarrow> crashed s \<noteq> None \<or> log_ok quiet s"

lemma crash_inv [simp]: "log_inv quiet (crash e s)"
  by (simp add: log_inv_def crash_def)

lemma log_ok_inv: "log_ok quiet s \<Longrightarrow> log_inv quiet s"
  by (simp add: log_inv_def)

lemma log_okD:
  assumes "log_ok quiet s"
  shows "lbits s \<le> 30" "threads_ok s" "at_buffer (flusher s)" "bufs s i = Some b \<Longrightarrow> buffer_ok quiet s i b"
  using assms by (simp_all add: log_ok_def)

lemma flushed_simps [simp]:
  "flushed (s\<lparr>flusher := pc\<rparr>) i = flushed s i" "flushed (s\<lparr>writer := w\<rparr>) i = flushed s i" "flushed (s\<lparr>bufs := bs\<rparr>) i = flushed s i"
  "flushed (s\<lparr>logged := l\<rparr>) i = flushed s i" "flushed (s\<lparr>blist := c\<rparr>) i = flushed s i" "flushed (s\<lparr>tls := t\<rparr>) i = flushed s i"
  "flushed (s\<lparr>timeout_ms := n\<rparr>) i = flushed s i" "flushed (s\<lparr>dest_file := d\<rparr>) i = flushed s i"
  "flushed (s\<lparr>config_changed := ch\<rparr>) i = flushed s i" "flushed (s\<lparr>config_timeout_ms := n\<rparr>) i = flushed s i"
  "flushed (s\<lparr>config_dest_file := d\<rparr>) i = flushed s i" "flushed (s\<lparr>can_terminate := t2\<rparr>) i = flushed s i"
  "flushed (s\<lparr>written := written s @ [(f, j, d2)]\<rparr>) i = flushed s i @ (if j = i then d2 else [])"
  by (simp_all add: flushed_def)

subsection \<open>The writers\<close>

text \<open>A pc of the flushing thread that has nothing to do with a buffer.\<close>

fun away :: "flush_pc \<Rightarrow> bool" where
  "away (F_peek1 _ _ _) = False"
| "away (F_write _ _ _ _) = False"
| "away (F_pop _ _ _) = False"
| "away (F_signal _ _ _) = False"
| "away _ = True"

lemma away_simps:
  "away pc \<Longrightarrow> unsignalled pc i = 0" "away pc \<Longrightarrow> unpopped pc i = 0" "away pc \<Longrightarrow> flush_ok quiet pc i q" "away pc \<Longrightarrow> at_buffer pc"
  by (cases pc; simp add: unsignalled_def unpopped_def flush_ok_def)+

lemma elsewhere_simps:
  assumes "i \<notin> set (cursor pc)"
  shows "unsignalled pc i = 0" "unpopped pc i = 0" "flush_ok quiet pc i q"
  using assms by (cases pc; auto simp: unsignalled_def unpopped_def flush_ok_def split: list.splits)+

text \<open>Moving between points at which neither a buffer nor the space granted changes.\<close>

lemma goto_f_ok:
  assumes "log_ok quiet s" "away (flusher s)" "away pc" "set (cursor pc) \<subseteq> set (blist s) \<union> set (cursor (flusher s))" "flusher s \<noteq> F_done"
  shows "log_ok quiet (goto_f pc s)"
  using assms by (auto simp: log_ok_def threads_ok_def buffer_ok_def away_simps)

lemma log_ok_frame:
  assumes "log_ok quiet s" "threads_ok s'" "lbits s' = lbits s" "flusher s' = flusher s" "logged s' = logged s" "written s' = written s"
    "bufs s' = bufs s" "\<And>j. granted (writer s' j) = granted (writer s j)"
  shows "log_ok quiet s'"
  using assms by (simp add: log_ok_def buffer_ok_def flushed_def)

lemma goto_w_ok:
  assumes "log_ok quiet s" "granted pc = granted (writer s i)" "linking pc = linking (writer s i)" "linked pc = linked (writer s i)"
  shows "log_ok quiet (goto_w i pc s)"
  using assms by (auto simp: log_ok_def threads_ok_def buffer_ok_def goto_w_def)

lemma wakeup_ok:
  assumes "log_ok quiet s"
  shows "log_ok quiet (wakeup_flush_routine s)" "writer (wakeup_flush_routine s) = writer s"
  using goto_f_ok [OF assms, of F_config] assms by (auto simp: wakeup_flush_routine_def)

lemma not_tls_cursor: "log_ok quiet s \<Longrightarrow> \<not> tls s i \<Longrightarrow> i \<notin> set (cursor (flusher s))"
  by (auto simp: log_ok_def threads_ok_def)

lemma log_write2_inv:
  assumes "log_ok quiet s" "writer s i = W_idle" "\<And>d. mem = Some d \<Longrightarrow> length d = 2 ^ lbits s"
  shows "log_inv quiet (log_write2 i data mem s)"
proof -
  consider "2 ^ lbits s < length data \<or> \<not> tls s i \<and> mem = None" | "tls s i" "length data \<le> 2 ^ lbits s"
    | d where "\<not> tls s i" "mem = Some d" "length data \<le> 2 ^ lbits s" by (metis linorder_not_le option.exhaust)
  then show ?thesis
  proof cases
    case 1
    then show ?thesis by (auto simp: log_write2_def)
  next
    case 2
    then have "threads_ok (goto_w i (W_check data) s)"
      using log_okD(2) [OF assms(1)] by (auto simp: threads_ok_def goto_w_def)
    then have "log_ok quiet (goto_w i (W_check data) s)"
      using assms(2) by (intro log_ok_frame [OF assms(1)]) (auto simp: goto_w_def)
    then show ?thesis using 2 by (simp add: log_write2_def log_ok_inv)
  next
    case 3
    have k: "lbits s \<le> 30" by (rule log_okD(1) [OF assms(1)])
    then have "(2 :: nat) ^ lbits s \<le> 2 ^ 30" by (rule power_increasing) simp
    then have init: "spsc_inv (spsc_queue_init d (lbits s) 1)" "spsc_contents (spsc_queue_init d (lbits s) 1) = []"
        "ring_cap (spsc_queue_init d (lbits s) 1) = 2 ^ lbits s"
      using spsc_init_inv [OF k, of d 1] assms(3) 3(2) by auto
    let ?b = "\<lparr>tb_sem = 2 ^ lbits s, tb_queue = spsc_queue_init d (lbits s) 1\<rparr>"
    let ?s = "goto_w i (W_list data) (s\<lparr>bufs := (bufs s)(i \<mapsto> ?b)\<rparr>)"
    have empty: "logged s i = []" "flushed s i = []" using log_okD(2) [OF assms(1)] 3(1) by (auto simp: threads_ok_def)
    have "buffer_ok quiet ?s i ?b"
      using init elsewhere_simps [OF not_tls_cursor [OF assms(1) 3(1)]] empty
      by (simp add: buffer_ok_def goto_w_def byte_ring_def text_of_def) (simp add: spsc_queue_init_def)
    moreover have "buffer_ok quiet ?s j b" if "j \<noteq> i" "bufs s j = Some b" for j b
      using log_okD(4) [OF assms(1) that(2)] that(1) by (simp add: buffer_ok_def goto_w_def)
    moreover have "threads_ok ?s" using log_okD(2) [OF assms(1)] 3(1) by (auto simp: threads_ok_def goto_w_def)
    ultimately have "log_ok quiet ?s" using assms(1) by (auto simp: log_ok_def goto_w_def)
    then show ?thesis using 3 by (simp add: log_write2_def log_ok_inv)
  qed
qed

lemma link_buffer_ok:
  assumes "log_ok quiet s" "writer s i = W_cas data old_head"
  shows "log_ok quiet (link_buffer i data old_head spurious s)"
proof (cases "blist s = old_head \<and> \<not> spurious")
  case True
  let ?s = "goto_w i (W_check data) (s\<lparr>blist := i # old_head, tls := (tls s)(i := True)\<rparr>)"
  have "linking (writer s i)" using assms(2) by simp
  then have "threads_ok ?s" using log_okD(2) [OF assms(1)] True by (auto simp: threads_ok_def goto_w_def)
  then have "log_ok quiet ?s" using assms(2) by (intro log_ok_frame [OF assms(1)]) (auto simp: goto_w_def)
  then show ?thesis using True by (simp add: link_buffer_def)
next
  case False
  then show ?thesis using goto_w_ok [OF assms(1), of "W_list data" i] assms(2) by (auto simp: link_buffer_def)
qed

lemma check_space_inv:
  assumes "log_ok quiet s" "writer s i = W_check data"
  shows "log_inv quiet (check_space i data s)"
proof (cases "bufs s i")
  case None
  then show ?thesis by (simp add: check_space_def)
next
  case (Some b)
  have "log_ok quiet (goto_w i (W_wait data) s)" using goto_w_ok [OF assms(1)] assms(2) by simp
  moreover have "log_ok quiet (goto_w i (W_wait data) (wakeup_flush_routine s))"
    using goto_w_ok [OF wakeup_ok(1) [OF assms(1)], of "W_wait data" i] assms wakeup_ok(2) [OF assms(1)] by simp
  ultimately show ?thesis using Some by (simp add: check_space_def Let_def log_ok_inv)
qed

lemma wait_space_inv:
  assumes "log_ok quiet s" "writer s i = W_wait data" "wait_space i data s = Some s'"
  shows "log_inv quiet s'"
proof (cases "bufs s i")
  case None
  then show ?thesis using assms(3) by (auto simp: wait_space_def)
next
  case (Some b)
  show ?thesis
  proof (cases "data \<noteq> [] \<and> int (length data) \<le> tb_sem b")
    case True
    let ?b = "b\<lparr>tb_sem := tb_sem b - int (length data)\<rparr>"
    let ?s = "goto_w i (W_push data) (s\<lparr>bufs := (bufs s)(i \<mapsto> ?b)\<rparr>)"
    have "buffer_ok quiet ?s i ?b" using log_okD(4) [OF assms(1) Some] assms(2) True by (simp add: buffer_ok_def goto_w_def)
    moreover have "buffer_ok quiet ?s j c" if "j \<noteq> i" "bufs s j = Some c" for j c
      using log_okD(4) [OF assms(1) that(2)] that(1) by (simp add: buffer_ok_def goto_w_def)
    moreover have "linked (writer s i)" using assms(2) by simp
    then have "threads_ok ?s" using log_okD(2) [OF assms(1)] by (auto simp: threads_ok_def goto_w_def)
    ultimately have "log_ok quiet ?s" using assms(1) by (auto simp: log_ok_def goto_w_def)
    then show ?thesis using assms(3) Some True by (auto simp: wait_space_def log_ok_inv)
  next
    case False
    then show ?thesis using assms(3) Some by (auto simp: wait_space_def split: if_splits)
  qed
qed

text \<open>A push changes neither the head of a ring nor what is in it already.\<close>

lemma flush_ok_push:
  assumes "flush_ok quiet pc i q" "byte_ring k q" "byte_ring k q'" "head q' = head q" "used q \<le> used q'" "\<And>f c p. quiet \<Longrightarrow> pc \<noteq> F_peek1 f (i # c) p"
  shows "flush_ok quiet pc i q'"
proof -
  have "peek0_at q' n = peek0_at q n" "peek1_at q' n = peek1_at q n" for n
    using assms(2-4) by (simp_all add: peek0_at_def peek1_at_def byte_ring_def Let_def)
  note eq = this and le = order_trans [OF _ assms(5)]
  show ?thesis
  proof (cases pc)
    case (F_peek1 f c p)
    show ?thesis
    proof (cases "c = [] \<or> hd c \<noteq> i")
      case True
      then show ?thesis using F_peek1 by (cases c) (auto simp: flush_ok_def)
    next
      case False
      then obtain c' where c: "c = i # c'" by (cases c) auto
      then have "\<not> quiet" using assms(6) F_peek1 by blast
      then show ?thesis using assms(1) F_peek1 eq le unfolding flush_ok_def c by auto
    qed
  next
    case (F_write f c p p2)
    then show ?thesis using assms(1) eq le unfolding flush_ok_def by (cases c) (simp, simp, blast)
  next
    case (F_pop f c n)
    then show ?thesis using assms(1,5) by (cases c) (auto simp: flush_ok_def)
  next
    case (F_signal f c n)
    then show ?thesis using assms(1) by (cases c) (auto simp: flush_ok_def)
  qed (simp_all add: flush_ok_def)
qed

lemma push_fails:
  assumes "byte_ring k q" "used q + length data \<le> 2 ^ k" "\<not> unat (tail q) + length data < 2 ^ 64 - 1"
  shows "spsc_queue_multi_push q (Some data) (int (length data)) = Inl Assert_failed"
proof -
  have inv: "spsc_inv q" and c: "cap_log2 q \<le> 30" "ring_cap q = 2 ^ k" using assms(1) by (auto simp: byte_ring_def spsc_inv_def)
  have n: "used q + length data \<le> 2 ^ 30" using assms(2) cap_bounds(1) [OF c(1)] c(2) by simp
  then have n31: "length data < 2 ^ 31" by simp
  have "unat (used_word q + word_of_int (int (length data))) = used q + length data"
    using n n31 word_of_int_count(1) [OF n31] by (subst unat_word_ariths(1)) (simp add: unat_used_word [OF inv] used_eq [symmetric])
  then have "\<not> used_word q + word_of_int (int (length data)) > cap_word q"
    using assms(2) c(2) by (simp add: word_less_nat_alt unat_cap_word [OF c(1)])
  moreover have "\<not> tail q < - 1 - word_of_int (int (length data))"
    using assms(3) n31 unat_max_minus [OF n31] by (simp add: word_less_nat_alt)
  ultimately show ?thesis by (simp add: spsc_queue_multi_push_def c_assert_def)
qed

lemma push_text_result:
  assumes "log_ok quiet s" "writer s i = W_push data" "bufs s i = Some b" "length (logged s i) + length data < 2 ^ 64 - 1"
  shows "\<exists>q. spsc_queue_multi_push (tb_queue b) (Some data) (int (length data)) = Inr (True, q) \<and> byte_ring (lbits s) q
    \<and> text_of q = text_of (tb_queue b) @ data \<and> used q = used (tb_queue b) + length data
    \<and> unat (tail q) = unat (tail (tb_queue b)) + length data \<and> head q = head (tb_queue b)"
proof -
  note b = log_okD(4) [OF assms(1,3), unfolded buffer_ok_def]
  have "0 \<le> unsignalled (flusher s) i" using b by (auto simp: unsignalled_def flush_ok_def split: flush_pc.splits list.splits)
  then have "int (used (tb_queue b)) + int (length data) \<le> 2 ^ lbits s" using b assms(2) by auto
  then have "used (tb_queue b) + length data \<le> 2 ^ lbits s" by (metis of_nat_add of_nat_le_iff of_nat_numeral of_nat_power)
  then show ?thesis using ring_push [of "lbits s" "tb_queue b" data] b assms(4) by simp
qed

lemma push_text_inv:
  assumes "log_ok quiet s" "writer s i = W_push data" "\<And>f c p. quiet \<Longrightarrow> flusher s \<noteq> F_peek1 f (i # c) p"
  shows "log_inv quiet (push_text i data s)"
proof (cases "bufs s i")
  case None
  then show ?thesis by (simp add: push_text_def)
next
  case (Some b)
  note b = log_okD(4) [OF assms(1) Some, unfolded buffer_ok_def]
  show ?thesis
  proof (cases "length (logged s i) + length data < 2 ^ 64 - 1")
    case False
    have "0 \<le> unsignalled (flusher s) i" using b by (auto simp: unsignalled_def flush_ok_def split: flush_pc.splits list.splits)
    then have "int (used (tb_queue b)) + int (length data) \<le> 2 ^ lbits s" using b assms(2) by auto
    then have "used (tb_queue b) + length data \<le> 2 ^ lbits s" by (metis of_nat_add of_nat_le_iff of_nat_numeral of_nat_power)
    then show ?thesis using push_fails [of "lbits s" "tb_queue b" data] b False Some by (simp add: push_text_def)
  next
    case True
    obtain q where q: "spsc_queue_multi_push (tb_queue b) (Some data) (int (length data)) = Inr (True, q)" "byte_ring (lbits s) q"
        "text_of q = text_of (tb_queue b) @ data" "used q = used (tb_queue b) + length data"
        "unat (tail q) = unat (tail (tb_queue b)) + length data" "head q = head (tb_queue b)"
      using push_text_result [OF assms(1,2) Some True] by blast
    let ?s = "goto_w i W_idle (s\<lparr>bufs := (bufs s)(i \<mapsto> b\<lparr>tb_queue := q\<rparr>), logged := (logged s)(i := logged s i @ data)\<rparr>)"
    have fl: "flush_ok quiet (flusher s) i q" using flush_ok_push [of quiet "flusher s" i "tb_queue b" "lbits s" q] b q assms(3) by simp
    have "unpopped (flusher s) i \<le> used (tb_queue b)"
      using b by (auto simp: unpopped_def flush_ok_def split: flush_pc.splits list.splits)
    then have "unpopped (flusher s) i \<le> length (text_of (tb_queue b))" using text_length b by metis
    then have "buffer_ok quiet ?s i (b\<lparr>tb_queue := q\<rparr>)" using b q fl assms(2) by (simp add: buffer_ok_def goto_w_def)
    moreover have "buffer_ok quiet ?s j c" if "j \<noteq> i" "bufs s j = Some c" for j c
      using log_okD(4) [OF assms(1) that(2)] that(1) by (simp add: buffer_ok_def goto_w_def)
    moreover have "tls s i" using log_okD(2) [OF assms(1)] assms(2) by (auto simp: threads_ok_def dest: spec [of _ i])
    then have "threads_ok ?s" using log_okD(2) [OF assms(1)] assms(2) Some by (auto simp: threads_ok_def goto_w_def)
    ultimately have "log_ok quiet ?s" using assms(1) by (auto simp: log_ok_def goto_w_def)
    then show ?thesis using Some q(1) by (simp add: push_text_def log_ok_inv)
  qed
qed

lemma writer_next_inv:
  assumes "log_ok quiet s" "writer_next i spurious s = Some s'" "quiet \<longrightarrow> \<not> races (Writer i spurious) s"
  shows "log_inv quiet s'"
proof (cases "writer s i")
  case W_idle
  then show ?thesis using assms(2) by (simp add: writer_next_def)
next
  case (W_list data)
  then show ?thesis using assms(2) goto_w_ok [OF assms(1), of "W_cas data (blist s)" i] by (auto simp: writer_next_def log_ok_inv)
next
  case (W_cas data old_head)
  then show ?thesis using assms(2) link_buffer_ok [OF assms(1) W_cas] by (auto simp: writer_next_def log_ok_inv)
next
  case (W_check data)
  then show ?thesis using assms(2) check_space_inv [OF assms(1)] by (auto simp: writer_next_def)
next
  case (W_wait data)
  then show ?thesis using assms(2) wait_space_inv [OF assms(1)] by (auto simp: writer_next_def)
next
  case (W_push data)
  then have "flusher s \<noteq> F_peek1 f (i # c) p" if quiet for f c p using assms(3) that by (auto simp: races_def)
  then show ?thesis using assms(2) push_text_inv [OF assms(1) W_push] W_push by (auto simp: writer_next_def)
qed

subsection \<open>The flushing thread\<close>

lemma os_write_loop_result: "os_write_loop rs len w = Some (r, n) \<Longrightarrow> r = - 1 \<or> r = int n"
  by (induction rs len w rule: os_write_loop.induct) (auto simp: Let_def split: write_result.splits if_splits)

lemma os_write_full: "os_write rs d = Some (int (length d), out) \<Longrightarrow> out = d"
  by (auto simp: os_write_def dest!: os_write_loop_result)

text \<open>The flushing thread at a buffer: its next point keeps the invariant if it does for that buffer.\<close>

lemma at_cursor_ok:
  assumes "log_ok quiet s" "cursor (flusher s) = i # c" "cursor pc \<in> {i # c, c}" "at_buffer pc" "pc \<noteq> F_done"
    and s': "lbits s' = lbits s" "tls s' = tls s" "blist s' = blist s" "writer s' = writer s" "logged s' = logged s" "flusher s' = pc"
      "bufs s' = (bufs s)(i \<mapsto> b)" "\<And>j. j \<noteq> i \<Longrightarrow> flushed s' j = flushed s j" "away pc \<or> cursor pc = i # c"
    and b: "buffer_ok quiet s' i b"
  shows "log_ok quiet s'"
proof -
  have tls: "tls s i" "flusher s \<noteq> F_done" using log_okD(2) [OF assms(1)] assms(2) by (auto simp: threads_ok_def)
  have other: "unsignalled pc j = unsignalled (flusher s) j" "unpopped pc j = unpopped (flusher s) j" "flush_ok quiet pc j q"
    if "j \<noteq> i" for j q
    using that assms(2) s'(9) away_simps [of pc] by (cases pc; cases "flusher s"; auto simp: unsignalled_def unpopped_def flush_ok_def)+
  have "buffer_ok quiet s' j d" if "j \<noteq> i" "bufs s j = Some d" for j d
    using log_okD(4) [OF assms(1) that(2)] other [OF that(1)] s'(8) [OF that(1)] by (simp add: buffer_ok_def s'(1-6))
  moreover have "threads_ok s'"
  proof -
    have "flushed s' j = flushed s j" if "\<not> tls s j" for j using that tls(1) s'(8) by metis
    moreover have "set (cursor pc) \<subseteq> set (cursor (flusher s))" using assms(2,3) by auto
    ultimately show ?thesis
      using log_okD(2) [OF assms(1)] tls(2) unfolding threads_ok_def s'(1-7) by (auto dest: spec [of _ i])
  qed
  ultimately show ?thesis using b log_okD(1) [OF assms(1)] assms(4) by (auto simp: log_ok_def s'(1,6,7))
qed

lemma cursor_buffer:
  assumes "log_ok quiet s" "cursor (flusher s) = i # c"
  obtains b where "bufs s i = Some b" "buffer_ok quiet s i b"
proof -
  have "tls s i" "flusher s \<noteq> F_done" using log_okD(2) [OF assms(1)] assms(2) by (auto simp: threads_ok_def)
  then have "bufs s i \<noteq> None" using log_okD(2) [OF assms(1)] by (auto simp: threads_ok_def)
  then show thesis using that log_okD(4) [OF assms(1)] by auto
qed

lemma at_cursor_eq: "bufs s i = Some b \<Longrightarrow> at_cursor (i # c) f s = f i b s"
  by (simp add: at_cursor_def)

lemma same_buffer: "bufs s i = Some b \<Longrightarrow> bufs s = (bufs s)(i \<mapsto> b)"
  by auto

lemmas flush_pc_simps = unsignalled_def unpopped_def flush_ok_def buffer_ok_def

lemma flush_peek0_ok:
  assumes "log_ok quiet s" "flusher s = F_buffer final (i # c)"
  shows "\<exists>s'. flush_next opened rs1 rs2 s = Some s' \<and> log_ok quiet s' \<and> crashed s' = crashed s"
proof -
  obtain b where b: "bufs s i = Some b" "buffer_ok quiet s i b" using cursor_buffer [OF assms(1)] assms(2) by auto
  let ?pc = "F_peek1 final (i # c) (spsc_queue_peek_0 (tb_queue b))"
  have "spsc_inv (tb_queue b)" using b(2) by (simp add: buffer_ok_def byte_ring_def)
  then have "buffer_ok quiet (goto_f ?pc s) i b" using b(2) assms(2) peek_eq(1) by (auto simp: flush_pc_simps)
  then have "log_ok quiet (goto_f ?pc s)"
    using assms(2) same_buffer [OF b(1)] by (intro at_cursor_ok [OF assms(1), of i c ?pc _ b]) auto
  then show ?thesis using assms(2) b(1) by (simp add: flush_next_def at_cursor_eq)
qed

lemma flush_peek1_ok:
  assumes "log_ok quiet s" "flusher s = F_peek1 final (i # c) p1"
  shows "\<exists>s'. flush_next opened rs1 rs2 s = Some s' \<and> log_ok quiet s' \<and> crashed s' = crashed s"
proof -
  obtain b where b: "bufs s i = Some b" "buffer_ok quiet s i b" using cursor_buffer [OF assms(1)] assms(2) by auto
  define p2 where "p2 = spsc_queue_peek_1 (tb_queue b)"
  let ?pc = "if snd p1 + snd p2 > 0 then F_write final (i # c) p1 p2 else F_buffer final c"
  have inv: "spsc_inv (tb_queue b)" using b(2) by (simp add: buffer_ok_def byte_ring_def)
  obtain n where n: "n \<le> used (tb_queue b)" "p1 = peek0_at (tb_queue b) n" "quiet \<longrightarrow> n = used (tb_queue b)"
    using b(2) assms(2) by (auto simp: buffer_ok_def flush_ok_def)
  have p2: "p2 = peek1_at (tb_queue b) (used (tb_queue b))" using peek_eq(2) [OF inv] by (simp add: p2_def)
  have "buffer_ok quiet (goto_f ?pc s) i b"
  proof (cases "snd p1 + snd p2 > 0")
    case True
    have "\<exists>m n. m \<le> n \<and> n \<le> used (tb_queue b) \<and> p1 = peek0_at (tb_queue b) m \<and> p2 = peek1_at (tb_queue b) n \<and> (quiet \<longrightarrow> m = n)"
      using n p2 by blast
    then show ?thesis using b(2) assms(2) True by (simp add: flush_pc_simps)
  next
    case False
    then show ?thesis using b(2) assms(2) by (simp add: flush_pc_simps)
  qed
  then have "log_ok quiet (goto_f ?pc s)"
    using assms(2) same_buffer [OF b(1)] by (intro at_cursor_ok [OF assms(1), of i c ?pc _ b]) auto
  moreover have "flush_next opened rs1 rs2 s = Some (goto_f ?pc s)" using assms(2) b(1) by (simp add: flush_next_def at_cursor_eq p2_def Let_def)
  ultimately show ?thesis by simp
qed

text \<open>What is written when both calls of \<^verbatim>\<open>os_write\<close> succeed.\<close>

lemma flush_write_result:
  assumes "log_ok quiet s" "flusher s = F_write final (i # c) p1 p2"
  obtains b d1 d2 where "bufs s i = Some b" "buffer_ok quiet s i b" "peek_bytes (tb_queue b) p1 = Inr d1" "peek_bytes (tb_queue b) p2 = Inr d2"
    "int (length d1) = snd p1" "int (length d2) = snd p2" "0 < snd p1 + snd p2" "snd p1 + snd p2 \<le> int (used (tb_queue b))"
    "quiet \<Longrightarrow> d1 @ d2 = take (nat (snd p1 + snd p2)) (text_of (tb_queue b))"
proof -
  obtain b where b: "bufs s i = Some b" "buffer_ok quiet s i b" using cursor_buffer [OF assms(1)] assms(2) by auto
  let ?q = "tb_queue b"
  obtain m n where mn: "m \<le> n" "n \<le> used ?q" "p1 = peek0_at ?q m" "p2 = peek1_at ?q n" "quiet \<longrightarrow> m = n" "0 < snd p1 + snd p2"
    using b(2) assms(2) by (auto simp: buffer_ok_def flush_ok_def)
  have ring: "byte_ring (lbits s) ?q" using b(2) by (simp add: buffer_ok_def)
  then have le: "used ?q \<le> 2 ^ lbits s" using used_le [of ?q] by (simp add: byte_ring_def)
  obtain d1 where d1: "peek_bytes ?q p1 = Inr d1" "int (length d1) = snd p1" using peek_bytes_ok(1) [OF ring, of m] mn(1-3) le by auto
  obtain d2 where d2: "peek_bytes ?q p2 = Inr d2" "int (length d2) = snd p2" using peek_bytes_ok(2) [OF ring, of n] mn(2,4) le by auto
  have "snd p1 + snd p2 \<le> int (used ?q)" using peek_at_sum(1) [OF mn(1), of ?q] mn(2-4) by simp
  moreover have "d1 @ d2 = take (nat (snd p1 + snd p2)) (text_of ?q)" if quiet
    using peek_text [OF ring mn(2)] peek_at_same [of ?q n] mn(3-5) d1(1) d2(1) that by auto
  ultimately show thesis using that b d1 d2 mn(6) by blast
qed

lemma flush_write_inv:
  assumes "log_ok quiet s" "flusher s = F_write final (i # c) p1 p2" "flush_next opened rs1 rs2 s = Some s'"
  shows "log_inv quiet s'"
proof -
  obtain b d1 d2 where b: "bufs s i = Some b" "buffer_ok quiet s i b" and d: "peek_bytes (tb_queue b) p1 = Inr d1"
      "peek_bytes (tb_queue b) p2 = Inr d2" "int (length d1) = snd p1" "int (length d2) = snd p2"
    and n: "0 < snd p1 + snd p2" "snd p1 + snd p2 \<le> int (used (tb_queue b))"
      "quiet \<Longrightarrow> d1 @ d2 = take (nat (snd p1 + snd p2)) (text_of (tb_queue b))"
    using flush_write_result [OF assms(1,2)] by blast
  let ?n = "snd p1 + snd p2"
  let ?s = "goto_f (F_pop final (i # c) ?n) (s\<lparr>written := written s @ [(dest_file s, i, d1 @ d2)]\<rparr>)"
  have "s' = ?s \<or> s' = crash Aborted s"
    using assms(2,3) b(1) d os_write_full [of rs1 d1] os_write_full [of rs2 d2]
    by (auto simp: flush_next_def at_cursor_eq flush_write_def split: option.splits if_splits)
  moreover have "log_ok quiet ?s"
  proof (rule at_cursor_ok [OF assms(1), of i c "F_pop final (i # c) ?n" _ b])
    show "buffer_ok quiet ?s i b" using b(2) n assms(2) by (auto simp: flush_pc_simps)
    show "bufs ?s = (bufs s)(i \<mapsto> b)" using same_buffer [OF b(1)] by simp
  qed (use assms(2) in auto)
  ultimately show ?thesis by (auto simp: log_ok_inv)
qed

lemma flush_pop_ok:
  assumes "log_ok quiet s" "flusher s = F_pop final (i # c) n"
  shows "\<exists>s'. flush_next opened rs1 rs2 s = Some s' \<and> log_ok quiet s' \<and> crashed s' = crashed s"
proof -
  obtain b where b: "bufs s i = Some b" "buffer_ok quiet s i b" using cursor_buffer [OF assms(1)] assms(2) by auto
  have n: "0 < n" "nat n \<le> used (tb_queue b)" "int (nat n) = n" using b(2) assms(2) by (auto simp: buffer_ok_def flush_ok_def)
  have ring: "byte_ring (lbits s) (tb_queue b)" using b(2) by (simp add: buffer_ok_def)
  obtain q where q: "spsc_queue_multi_pop (tb_queue b) False n = Inr (True, None, q)" "byte_ring (lbits s) q"
      "text_of q = drop (nat n) (text_of (tb_queue b))" "used q = used (tb_queue b) - nat n" "tail q = tail (tb_queue b)"
    using ring_pop [OF ring n(2)] n(3) by auto
  let ?b = "b\<lparr>tb_queue := q\<rparr>"
  let ?s = "goto_f (F_signal final (i # c) n) (s\<lparr>bufs := (bufs s)(i \<mapsto> ?b)\<rparr>)"
  have "buffer_ok quiet ?s i ?b" using b(2) q n assms(2) by (auto simp: flush_pc_simps)
  then have "log_ok quiet ?s" using assms(2) by (intro at_cursor_ok [OF assms(1), of i c "F_signal final (i # c) n" _ ?b]) auto
  then show ?thesis using assms(2) b(1) q(1) by (simp add: flush_next_def at_cursor_eq flush_pop_def)
qed

lemma flush_signal_ok:
  assumes "log_ok quiet s" "flusher s = F_signal final (i # c) n"
  shows "\<exists>s'. flush_next opened rs1 rs2 s = Some s' \<and> log_ok quiet s' \<and> crashed s' = crashed s"
proof -
  obtain b where b: "bufs s i = Some b" "buffer_ok quiet s i b" using cursor_buffer [OF assms(1)] assms(2) by auto
  have n: "0 < n" using b(2) assms(2) by (auto simp: buffer_ok_def flush_ok_def)
  let ?b = "b\<lparr>tb_sem := tb_sem b + n\<rparr>"
  let ?s = "goto_f (F_buffer final c) (s\<lparr>bufs := (bufs s)(i \<mapsto> ?b)\<rparr>)"
  have "buffer_ok quiet ?s i ?b" using b(2) n assms(2) by (auto simp: flush_pc_simps)
  then have "log_ok quiet ?s" using assms(2) by (intro at_cursor_ok [OF assms(1), of i c "F_buffer final c" _ ?b]) auto
  then show ?thesis using assms(2) b(1) n by (simp add: flush_next_def at_cursor_eq flush_signal_def)
qed

text \<open>Between the buffers only the configuration and the position in the code change.\<close>

lemma flush_away_inv:
  assumes "log_ok quiet s" "away (flusher s)" "\<And>final i c. flusher s \<noteq> F_buffer final (i # c)" "flush_next opened rs1 rs2 s = Some s'"
  shows "log_inv quiet s' \<and> (opened \<longrightarrow> crashed s' = crashed s)"
proof -
  have frame: "log_ok quiet (s\<lparr>timeout_ms := t, dest_file := d, config_changed := ch\<rparr>)" for t d ch
    using assms(1) by (intro log_ok_frame [OF assms(1)]) (auto simp: log_ok_def threads_ok_def)
  have frame2: "log_ok quiet (s\<lparr>timeout_ms := t, dest_file := d\<rparr>)" for t d
    using assms(1) by (intro log_ok_frame [OF assms(1)]) (auto simp: log_ok_def threads_ok_def)
  show ?thesis
  proof (cases "flusher s")
    case F_start
    then show ?thesis using assms(4) goto_f_ok [OF frame2, where pc = F_test] by (auto simp: flush_next_def log_ok_inv)
  next
    case F_test
    then show ?thesis using assms(4) goto_f_ok [OF assms(1), of "F_open True"] goto_f_ok [OF assms(1), of F_asleep]
      by (auto simp: flush_next_def log_ok_inv)
  next
    case F_asleep
    then show ?thesis using assms(4) goto_f_ok [OF assms(1), of F_config] by (auto simp: flush_next_def log_ok_inv)
  next
    case F_config
    then show ?thesis using assms(4) goto_f_ok [OF frame, where pc = "F_open False"] goto_f_ok [OF assms(1), of "F_open False"]
      by (auto simp: flush_next_def log_ok_inv)
  next
    case (F_open final)
    then show ?thesis using assms(4) goto_f_ok [OF assms(1), of "F_buffer final (blist s)"]
      by (auto simp: flush_next_def log_ok_inv)
  next
    case (F_buffer final c)
    then have "c = []" using assms(3) by (cases c) auto
    moreover have "log_ok quiet (goto_f F_done s)"
      using assms(1) F_buffer \<open>c = []\<close> by (auto simp: log_ok_def threads_ok_def buffer_ok_def away_simps unsignalled_def unpopped_def)
    ultimately show ?thesis using F_buffer assms(4) goto_f_ok [OF assms(1), of F_test]
      by (auto simp: flush_next_def log_ok_inv)
  next
    case F_done
    then show ?thesis using assms(4) by (simp add: flush_next_def)
  qed (use assms(2) in auto)
qed

lemma flush_next_inv:
  assumes "log_ok quiet s" "flush_next opened rs1 rs2 s = Some s'"
  shows "log_inv quiet s'"
proof (cases "away (flusher s)")
  case True
  then show ?thesis
    using flush_away_inv [OF assms(1) True _ assms(2)] flush_peek0_ok [OF assms(1), of _ _ _ opened rs1 rs2] assms(2) log_ok_inv
    by (metis option.inject)
next
  case False
  then obtain i c where c: "cursor (flusher s) = i # c"
    using log_okD(3) [OF assms(1)] by (cases "flusher s"; cases "cursor (flusher s)") auto
  show ?thesis
  proof (cases "flusher s")
    case (F_peek1 f c' p)
    then show ?thesis using c flush_peek1_ok [OF assms(1), of f i c p opened rs1 rs2] assms(2) by (auto simp: log_ok_inv)
  next
    case (F_write f c' p p2)
    then show ?thesis using c flush_write_inv [OF assms(1) _ assms(2)] by auto
  next
    case (F_pop f c' n)
    then show ?thesis using c flush_pop_ok [OF assms(1), of f i c n opened rs1 rs2] assms(2) by (auto simp: log_ok_inv)
  next
    case (F_signal f c' n)
    then show ?thesis using c flush_signal_ok [OF assms(1), of f i c n opened rs1 rs2] assms(2) by (auto simp: log_ok_inv)
  qed (use False in auto)
qed

subsection \<open>The system\<close>

lemma config_ok:
  assumes "log_ok quiet s"
  shows "log_ok quiet (log_set_flush_timeout t s)" "log_inv quiet (log_set_dest_file d s)" "log_ok quiet (log_quit_begin s)"
proof -
  show "log_ok quiet (log_set_flush_timeout t s)"
    using assms by (intro log_ok_frame [OF assms]) (auto simp: log_set_flush_timeout_def log_ok_def threads_ok_def)
  have "log_ok quiet (s\<lparr>config_dest_file := d, config_changed := True\<rparr>)"
    using assms by (intro log_ok_frame [OF assms]) (auto simp: log_ok_def threads_ok_def)
  then show "log_inv quiet (log_set_dest_file d s)" by (simp add: log_set_dest_file_def log_ok_inv)
  have "log_ok quiet (s\<lparr>can_terminate := True\<rparr>)"
    using assms by (intro log_ok_frame [OF assms]) (auto simp: log_ok_def threads_ok_def)
  then show "log_ok quiet (log_quit_begin s)" unfolding log_quit_begin_def by (rule wakeup_ok(1))
qed

lemma quit_end_ok:
  assumes "log_ok quiet s" "log_quit_end s = Some s'"
  shows "log_ok quiet s'"
  using assms by (auto simp: log_quit_end_def log_ok_def threads_ok_def split: if_splits)

lemma log_next_inv:
  assumes "log_ok quiet s" "event_ok s e" "quiet \<longrightarrow> \<not> races e s" "log_next e s = Some s'" "crashed s = None"
  shows "log_inv quiet s'"
proof (cases e)
  case (Write_call i data mem)
  then show ?thesis using assms log_write2_inv [OF assms(1), of i mem data] by (cases mem) (auto simp: log_next_def split: if_splits)
next
  case (Writef_call i expanded mem)
  have "log_inv quiet (log_write2 i data mem s)" if "writer s i = W_idle" for data
    using log_write2_inv [OF assms(1) that, of mem] assms(2) Writef_call by (cases mem) auto
  then show ?thesis using assms(4) Writef_call by (auto simp: log_next_def log_writefv_def split: if_splits option.splits)
next
  case (Writer i spurious)
  then show ?thesis using assms writer_next_inv [OF assms(1)] by (auto simp: log_next_def)
next
  case (Flusher opened rs1 rs2)
  then show ?thesis using assms flush_next_inv [OF assms(1)] by (auto simp: log_next_def)
qed (use assms config_ok quit_end_ok log_ok_inv in \<open>auto simp: log_next_def\<close>)

lemma log_start_inv: "log_start s \<Longrightarrow> log_inv quiet s"
  by (auto simp: log_start_def log_init_def log_inv_def log_ok_def threads_ok_def flushed_def split: if_splits)

interpretation logger: invariant_system log_start "log_step quiet" "log_inv quiet" for quiet
proof
  show "log_inv quiet s" if "log_start s" for s using that by (rule log_start_inv)
  show "log_inv quiet s'" if inv: "log_inv quiet s" and st: "log_step quiet s s'" for s s'
  proof -
    obtain e where e: "event_ok s e" "quiet \<longrightarrow> \<not> races e s" "log_next e s = Some s'" using st by (auto simp: log_step_def)
    then have "crashed s = None" by (auto simp: log_next_def split: if_splits)
    then show ?thesis using log_next_inv [OF _ e] inv by (simp add: log_inv_def)
  qed
qed

end
