(* ===== verification/LogClaims.thy ===== *)
theory LogClaims
  imports LogSystem
begin

section \<open>The logger: what it promises and where it fails\<close>

text \<open>
  Properties of every interleaving of the logger, with a logger of small buffers on which they are tried.
\<close>

subsection \<open>Running the logger\<close>

fun run_log :: "log_event list \<Rightarrow> log_state \<Rightarrow> log_state option" where
  "run_log [] s = Some s"
| "run_log (e # es) s =
     (if event_ok s e then case log_next e s of None \<Rightarrow> None | Some s \<Rightarrow> run_log es s else None)"

lemma run_log_reachable:
  "run_log es s = Some s' \<Longrightarrow> reachable log_start (log_step False) s \<Longrightarrow> reachable log_start (log_step False) s'"
proof (induction es arbitrary: s)
  case (Cons e es)
  then obtain s1 where "event_ok s e" "log_next e s = Some s1" "run_log es s1 = Some s'" by (auto split: if_splits option.splits)
  moreover from this have "log_step False s s1" by (auto simp: log_step_def)
  ultimately show ?case using Cons.IH reachable.more [OF Cons.prems(2)] by simp
qed simp

text \<open>Without pushes between the two peeks.\<close>

fun run_quiet :: "log_event list \<Rightarrow> log_state \<Rightarrow> log_state option" where
  "run_quiet [] s = Some s"
| "run_quiet (e # es) s =
     (if event_ok s e \<and> \<not> races e s then case log_next e s of None \<Rightarrow> None | Some s \<Rightarrow> run_quiet es s else None)"

lemma run_quiet_reachable:
  "run_quiet es s = Some s' \<Longrightarrow> reachable log_start (log_step True) s \<Longrightarrow> reachable log_start (log_step True) s'"
proof (induction es arbitrary: s)
  case (Cons e es)
  then obtain s1 where "event_ok s e" "\<not> races e s" "log_next e s = Some s1" "run_quiet es s1 = Some s'" by (auto split: if_splits option.splits)
  moreover from this have "log_step True s s1" by (auto simp: log_step_def)
  ultimately show ?case using Cons.IH reachable.more [OF Cons.prems(2)] by simp
qed simp

text \<open>A logger with buffers of four bytes.\<close>

definition small_log :: log_state where
  "small_log = (case log_init 2 ''a.log'' of Inr s \<Rightarrow> s | Inl _ \<Rightarrow> undefined)"

lemma small_log_start: "reachable log_start (log_step quiet) small_log"
  by (rule reachable.start) (auto simp: log_start_def small_log_def log_init_def DEST_FILE_NAME_MAX_def intro!: exI [of _ 2] exI [of _ "''a.log''"])

definition mem4 :: "u8 list option" where "mem4 = Some [0, 0, 0, 0]"

text \<open>A thread that logs one piece of text, and a step of the flushing thread for which all calls succeed.\<close>

definition logs :: "nat \<Rightarrow> u8 list \<Rightarrow> log_event list" where
  "logs i data = [Write_call i data mem4, Writer i False, Writer i False, Writer i False, Writer i False, Writer i False]"

definition logs_again :: "nat \<Rightarrow> u8 list \<Rightarrow> log_event list" where
  "logs_again i data = [Write_call i data mem4, Writer i False, Writer i False, Writer i False]"

abbreviation fl :: log_event where
  "fl \<equiv> Flusher True [Wrote 9] [Wrote 9]"

definition pushing :: log_state where
  "pushing = (case run_log (take 5 (logs 0 [7, 8])) small_log of Some s \<Rightarrow> s | None \<Rightarrow> small_log)"

definition at_push :: "log_state \<Rightarrow> bool" where
  "at_push s \<longleftrightarrow> crashed s = None \<and> writer s 0 = W_push [7, 8] \<and> bufs s 0 \<noteq> None \<and> logged s 0 = []"

lemma pushing_at: "at_push pushing"
  by code_simp

lemma pushing_reachable: "reachable log_start (log_step False) pushing"
proof (cases "run_log (take 5 (logs 0 [7, 8])) small_log")
  case None
  then show ?thesis using small_log_start by (simp add: pushing_def)
next
  case (Some s)
  then show ?thesis using run_log_reachable [OF Some small_log_start] by (simp add: pushing_def)
qed

subsection \<open>Space\<close>

text \<open>C12: In every interleaving the free bytes that the semaphore of a buffer counts, the bytes granted to its thread, those in the ring and those taken out but
  not signalled add up to the capacity. Therefore text that was granted space always fits: the push, whose result
  nobody looks at, succeeds and appends the text to the ring (as long as a thread logs fewer than 2 ^ 64 - 1 bytes).\<close>

theorem log_space_conserved:
  assumes "reachable log_start (log_step False) s" "crashed s = None" "bufs s i = Some b"
  shows "0 \<le> tb_sem b \<and> tb_sem b + granted (writer s i) + int (used (tb_queue b)) + unsignalled (flusher s) i = 2 ^ lbits s
    \<and> (\<forall>data. writer s i = W_push data \<longrightarrow> length (logged s i) + length data < 2 ^ 64 - 1 \<longrightarrow>
         (\<exists>q. spsc_queue_multi_push (tb_queue b) (Some data) (int (length data)) = Inr (True, q) \<and> text_of q = text_of (tb_queue b) @ data))"
proof -
  have ok: "log_ok False s" using logger.reachable_inv [OF assms(1)] assms(2) by (simp add: log_inv_def)
  show ?thesis using log_okD(4) [OF ok assms(3)] push_text_result [OF ok _ assms(3)] by (auto simp: buffer_ok_def)
qed

theorem log_space_conserved_witness:
  "\<exists>b q. bufs pushing 0 = Some b \<and> spsc_queue_multi_push (tb_queue b) (Some [7, 8]) 2 = Inr (True, q) \<and> text_of q = text_of (tb_queue b) @ [7, 8]"
proof -
  have p: "crashed pushing = None" "writer pushing 0 = W_push [7, 8]" "bufs pushing 0 \<noteq> None" "logged pushing 0 = []"
    using pushing_at by (simp_all add: at_push_def)
  then obtain b where b: "bufs pushing 0 = Some b" by auto
  then show ?thesis using log_space_conserved [OF pushing_reachable p(1) b] p(2,4) by auto
qed

subsection \<open>Safety\<close>

lemma os_write_loop_ok: "Write_error \<notin> set rs \<Longrightarrow> w \<le> len \<Longrightarrow> os_write_loop rs len w = Some (r, n) \<Longrightarrow> r = int len"
  by (induction rs len w rule: os_write_loop.induct) (auto simp: Let_def split: write_result.splits if_splits)

lemma os_write_ok: "Write_error \<notin> set rs \<Longrightarrow> length d < 2 ^ 31 \<Longrightarrow> os_write rs d = Some (r, out) \<Longrightarrow> r = int (length d)"
  using os_write_loop_ok [of rs 0 "length d" r] by (auto simp: os_write_def min_def split: if_splits)

lemma flush_next_safe:
  assumes "log_ok quiet s" "crashed s = None" "flush_next True rs1 rs2 s = Some s'" "Write_error \<notin> set (rs1 @ rs2)"
  shows "crashed s' = None"
proof (cases "away (flusher s)")
  case True
  then show ?thesis
    using flush_away_inv [OF assms(1) True _ assms(3)] flush_peek0_ok [OF assms(1), of _ _ _ True rs1 rs2] assms(2,3) by (metis option.inject)
next
  case False
  then obtain i c where c: "cursor (flusher s) = i # c"
    using log_okD(3) [OF assms(1)] by (cases "flusher s"; cases "cursor (flusher s)") auto
  show ?thesis
  proof (cases "flusher s")
    case (F_peek1 f c' p)
    then show ?thesis using c flush_peek1_ok [OF assms(1), of f i c p True rs1 rs2] assms(2,3) by auto
  next
    case (F_write f c' p p2)
    then have fl: "flusher s = F_write f (i # c) p p2" using c by simp
    obtain b d1 d2 where d: "bufs s i = Some b" "buffer_ok quiet s i b" "peek_bytes (tb_queue b) p = Inr d1" "peek_bytes (tb_queue b) p2 = Inr d2"
        "int (length d1) = snd p" "int (length d2) = snd p2" "snd p + snd p2 \<le> int (used (tb_queue b))"
      using flush_write_result [OF assms(1) fl] by metis
    have "used (tb_queue b) \<le> 2 ^ lbits s" using d(2) used_le [of "tb_queue b"] by (simp add: buffer_ok_def byte_ring_def)
    also have "\<dots> \<le> 2 ^ 30" using log_okD(1) [OF assms(1)] by (intro power_increasing) auto
    finally have len: "length d1 < 2 ^ 31" "length d2 < 2 ^ 31" using d(5-7) by auto
    have "r = snd p" if "os_write rs1 d1 = Some (r, out)" for r out using os_write_ok [of rs1 d1] that assms(4) d(5) len(1) by auto
    moreover have "r = snd p2" if "os_write rs2 d2 = Some (r, out)" for r out
      using os_write_ok [of rs2 d2] that assms(4) d(6) len(2) by auto
    ultimately show ?thesis
      using assms(2,3) fl d(1,3,4) by (auto simp: flush_next_def at_cursor_eq flush_write_def split: option.splits if_splits)
  next
    case (F_pop f c' n)
    then show ?thesis using c flush_pop_ok [OF assms(1), of f i c n True rs1 rs2] assms(2,3) by auto
  next
    case (F_signal f c' n)
    then show ?thesis using c flush_signal_ok [OF assms(1), of f i c n True rs1 rs2] assms(2,3) by auto
  qed (use False in auto)
qed

lemma writer_next_safe:
  assumes "log_ok quiet s" "crashed s = None" "writer_next i spurious s = Some s'" "flusher s \<noteq> F_done" "writer s i \<noteq> W_wait []"
    "\<And>data. writer s i = W_push data \<Longrightarrow> length (logged s i) + length data < 2 ^ 64 - 1"
  shows "crashed s' = None"
proof -
  have "linked (writer s i) \<Longrightarrow> bufs s i \<noteq> None" using log_okD(2) [OF assms(1)] assms(4) by (auto simp: threads_ok_def)
  then have "(\<exists>b. bufs s i = Some b) \<or> \<not> linked (writer s i)" by auto
  then show ?thesis
  proof
    assume "\<exists>b. bufs s i = Some b"
    then obtain b where b: "bufs s i = Some b" ..
    show ?thesis
    proof (cases "writer s i")
      case (W_push data)
      then obtain q where "spsc_queue_multi_push (tb_queue b) (Some data) (int (length data)) = Inr (True, q)"
        using push_text_result [OF assms(1) W_push b assms(6)] by blast
      then show ?thesis using assms(2,3) W_push b by (auto simp: writer_next_def push_text_def goto_w_def)
    qed (use assms(2,3,5) b in \<open>auto simp: writer_next_def link_buffer_def goto_w_def check_space_def wait_space_def Let_def wakeup_flush_routine_def split: if_splits\<close>)
  next
    assume "\<not> linked (writer s i)"
    then show ?thesis using assms(2,3) by (cases "writer s i") (auto simp: writer_next_def link_buffer_def goto_w_def)
  qed
qed

text \<open>What a step must not meet: text that is longer than a buffer (or, formatted, than 4095 bytes) or empty, a format that cannot be expanded, a name that is too long, memory, a file or a write that
  is refused, more than \<open>2 ^ 64\<close> logged bytes, and logging on when the flushing thread has ended.\<close>

definition benign :: "log_state \<Rightarrow> log_event \<Rightarrow> bool" where
  "benign s e \<longleftrightarrow> (case e of
     Write_call i data mem \<Rightarrow> length data \<le> 2 ^ lbits s \<and> (tls s i \<or> mem \<noteq> None)
   | Writef_call i expanded mem \<Rightarrow> (case expanded of None \<Rightarrow> False | Some data \<Rightarrow> length data < 4096 \<and> length data \<le> 2 ^ lbits s \<and> (tls s i \<or> mem \<noteq> None))
   | Writer i spurious \<Rightarrow> flusher s \<noteq> F_done \<and> writer s i \<noteq> W_wait [] \<and> (\<forall>data. writer s i = W_push data \<longrightarrow> length (logged s i) + length data < 2 ^ 64 - 1)
   | Flusher opened rs1 rs2 \<Rightarrow> opened \<and> Write_error \<notin> set (rs1 @ rs2)
   | Set_dest dest \<Rightarrow> length dest < DEST_FILE_NAME_MAX
   | _ \<Rightarrow> True)"

text \<open>C28: No step of the logger that meets none of these conditions fails an assertion, aborts, or reads outside a ring or in memory that is not there, in any interleaving: neither the calls that
  start to log, configure or end the logger, nor a thread that goes on logging, nor the flushing thread. The calls that start to log or set the file abort exactly
  when they meet one of them.\<close>

theorem log_steps_safe:
  assumes "reachable log_start (log_step False) s" "log_next e s = Some s'"
  shows "(benign s e \<longrightarrow> crashed s' = None)
    \<and> (\<not> benign s e \<longrightarrow> (\<exists>i data mem. e = Write_call i data mem) \<or> (\<exists>i text mem. e = Writef_call i text mem) \<or> (\<exists>dest. e = Set_dest dest) \<longrightarrow> crashed s' = Some Aborted)"
proof -
  have c: "crashed s = None" using assms(2) by (auto simp: log_next_def split: if_splits)
  then have ok: "log_ok False s" using logger.reachable_inv [OF assms(1)] by (simp add: log_inv_def)
  show ?thesis
  proof (cases e)
    case (Flusher opened rs1 rs2)
    then show ?thesis using flush_next_safe [OF ok c] assms(2) c by (auto simp: log_next_def benign_def)
  next
    case (Writer i spurious)
    then show ?thesis using writer_next_safe [OF ok c, of i spurious s'] assms(2) c by (auto simp: log_next_def benign_def)
  qed (use assms(2) c in \<open>auto simp: log_next_def benign_def log_write2_def log_writefv_def log_set_dest_file_def log_set_flush_timeout_def log_quit_begin_def wakeup_flush_routine_def
      log_quit_end_def crash_def goto_w_def split: if_splits option.splits\<close>)
qed

theorem log_steps_safe_witness: "\<exists>s'. benign pushing (Writer 0 False) \<and> log_next (Writer 0 False) pushing = Some s' \<and> crashed s' = None"
proof -
  have p: "crashed pushing = None" "writer pushing 0 = W_push [7, 8]" "logged pushing 0 = []" using pushing_at by (simp_all add: at_push_def)
  then obtain s' where s': "log_next (Writer 0 False) pushing = Some s'" by (simp add: log_next_def writer_next_def)
  have "flusher pushing \<noteq> F_done" by code_simp
  then have "benign pushing (Writer 0 False)" using p by (simp add: benign_def)
  then show ?thesis using log_steps_safe [OF pushing_reachable s'] s' by blast
qed

subsection \<open>Order\<close>

text \<open>C26: As long as no thread pushes between the two peeks at its own ring, every byte that a thread logs is written exactly once and in order: at any time what it
  has logged is what was written from its buffer, followed by what is still in the ring.\<close>

theorem log_text_in_order:
  assumes "reachable log_start (log_step True) s" "crashed s = None" "bufs s i = Some b"
  shows "logged s i = flushed s i @ drop (unpopped (flusher s) i) (text_of (tb_queue b))"
proof -
  have "log_ok True s" using logger.reachable_inv [OF assms(1)] assms(2) by (simp add: log_inv_def)
  from log_okD(4) [OF this assms(3)] show ?thesis by (simp add: buffer_ok_def)
qed

definition two_rounds :: "log_event list" where
  "two_rounds = logs 0 [1, 2] @ replicate 11 fl @ logs_again 0 [3, 4, 5] @ replicate 7 fl"

definition in_order :: log_state where
  "in_order = (case run_quiet two_rounds small_log of Some s \<Rightarrow> s | None \<Rightarrow> small_log)"

lemma in_order_reachable: "reachable log_start (log_step True) in_order"
proof (cases "run_quiet two_rounds small_log")
  case None
  then show ?thesis using small_log_start by (simp add: in_order_def)
next
  case (Some s)
  then show ?thesis using run_quiet_reachable [OF Some small_log_start] by (simp add: in_order_def)
qed

definition in_order_facts :: "log_state \<Rightarrow> bool" where
  "in_order_facts s \<longleftrightarrow> crashed s = None \<and> bufs s 0 \<noteq> None \<and> logged s 0 = [1, 2, 3, 4, 5] \<and> flushed s 0 = [1, 2, 3, 4, 5]"

lemma in_order_facts: "in_order_facts in_order"
  by code_simp

theorem log_text_in_order_witness:
  "\<exists>b. bufs in_order 0 = Some b \<and> [1, 2, 3, 4, 5] = flushed in_order 0 @ drop (unpopped (flusher in_order) 0) (text_of (tb_queue b))"
proof -
  have p: "crashed in_order = None" "bufs in_order 0 \<noteq> None" "logged in_order 0 = [1, 2, 3, 4, 5]"
    using in_order_facts by (simp_all add: in_order_facts_def)
  then obtain b where b: "bufs in_order 0 = Some b" by auto
  show ?thesis using log_text_in_order [OF in_order_reachable p(1) b] b p(3) by auto
qed

subsection \<open>Flushing\<close>

text \<open>Steps of the flushing thread alone, with calls of \<^verbatim>\<open>write\<close> that write everything.\<close>

definition flush_step :: "log_state \<Rightarrow> log_state option" where
  "flush_step s = log_next (Flusher True [Wrote (2 ^ 31)] [Wrote (2 ^ 31)]) s"

fun flush_steps :: "nat \<Rightarrow> log_state \<Rightarrow> log_state option" where
  "flush_steps 0 s = Some s"
| "flush_steps (Suc n) s = (case flush_step s of None \<Rightarrow> None | Some s \<Rightarrow> flush_steps n s)"

lemma flush_steps_add: "flush_steps m s = Some s1 \<Longrightarrow> flush_steps (m + n) s = flush_steps n s1"
  by (induction m arbitrary: s) (auto split: option.splits)

lemma flush_step_ok:
  assumes "log_ok True s" "crashed s = None" "flush_step s = Some s'"
  shows "log_ok True s' \<and> crashed s' = None"
proof -
  have f: "flush_next True [Wrote (2 ^ 31)] [Wrote (2 ^ 31)] s = Some s'" using assms(2,3) by (simp add: flush_step_def log_next_def)
  then show ?thesis using flush_next_inv [OF assms(1) f] flush_next_safe [OF assms(1,2) f] by (auto simp: log_inv_def)
qed

lemma flush_steps_ok: "flush_steps n s = Some s' \<Longrightarrow> log_ok True s \<Longrightarrow> crashed s = None \<Longrightarrow> log_ok True s' \<and> crashed s' = None"
  by (induction n arbitrary: s) (auto dest: flush_step_ok split: option.splits)

lemma os_write_all: "length d < 2 ^ 31 \<Longrightarrow> os_write [Wrote (2 ^ 31)] d = Some (int (length d), d)"
  by (simp add: os_write_def min_def Let_def)

text \<open>The ring of a buffer is empty.\<close>

definition ring_empty :: "log_state \<Rightarrow> nat \<Rightarrow> bool" where
  "ring_empty s i \<longleftrightarrow> (\<exists>b. bufs s i = Some b \<and> used (tb_queue b) = 0)"

lemma flush_one:
  assumes "log_ok True s" "crashed s = None" "flusher s = F_buffer final (i # c)"
  shows "\<exists>n s'. flush_steps n s = Some s' \<and> flusher s' = F_buffer final c \<and> logged s' = logged s \<and> ring_empty s' i
    \<and> (\<forall>j. ring_empty s j \<longrightarrow> ring_empty s' j)"
proof -
  obtain b where b: "bufs s i = Some b" "buffer_ok True s i b" using cursor_buffer [OF assms(1)] assms(3) by auto
  define q where "q = tb_queue b"
  have ring: "byte_ring (lbits s) q" and inv: "spsc_inv q" using b(2) by (simp_all add: buffer_ok_def byte_ring_def q_def)
  let ?p1 = "peek0_at q (used q)" and ?p2 = "peek1_at q (used q)"
  have sum: "snd ?p1 + snd ?p2 = int (used q)" by (rule peek_at_same)
  define s1 where "s1 = goto_f (F_peek1 final (i # c) ?p1) s"
  have s1: "flush_step s = Some s1"
    using assms(2,3) b(1) peek_eq(1) [OF inv] by (simp add: flush_step_def log_next_def flush_next_def at_cursor_eq s1_def q_def)
  show ?thesis
  proof (cases "used q = 0")
    case True
    then have "flush_step s1 = Some (goto_f (F_buffer final c) s1)"
      using assms(2) b(1) peek_eq(2) [OF inv] sum by (simp add: flush_step_def log_next_def flush_next_def at_cursor_eq s1_def q_def Let_def)
    then have "flush_steps (Suc (Suc 0)) s = Some (goto_f (F_buffer final c) s1)" using s1 by simp
    then show ?thesis using True b(1) by (intro exI [of _ "Suc (Suc 0)"] exI) (auto simp: s1_def ring_empty_def q_def)
  next
    case False
    define s2 where "s2 = goto_f (F_write final (i # c) ?p1 ?p2) s1"
    have s2: "flush_step s1 = Some s2"
      using assms(2) b(1) peek_eq(2) [OF inv] sum False
      by (simp add: flush_step_def log_next_def flush_next_def at_cursor_eq s1_def s2_def q_def Let_def)
    obtain d1 d2 where d: "peek_bytes q ?p1 = Inr d1" "peek_bytes q ?p2 = Inr d2" "int (length d1) = snd ?p1" "int (length d2) = snd ?p2"
      using peek_bytes_ok [OF ring, of "used q"] used_le [OF inv] ring by (auto simp: byte_ring_def)
    have "used q \<le> 2 ^ lbits s" using ring used_le [OF inv] by (simp add: byte_ring_def)
    also have "\<dots> \<le> 2 ^ 30" using log_okD(1) [OF assms(1)] by (intro power_increasing) auto
    finally have len: "length d1 < 2 ^ 31" "length d2 < 2 ^ 31" using d(3,4) sum by auto
    define s3 where "s3 = goto_f (F_pop final (i # c) (int (used q))) (s2\<lparr>written := written s2 @ [(dest_file s2, i, d1 @ d2)]\<rparr>)"
    have s3: "flush_step s2 = Some s3"
      using assms(2) b(1) d os_write_all [OF len(1)] os_write_all [OF len(2)] sum
      by (simp add: flush_step_def log_next_def flush_next_def at_cursor_eq flush_write_def s1_def s2_def s3_def q_def)
    obtain q' where q': "spsc_queue_multi_pop q False (int (used q)) = Inr (True, None, q')" "used q' = 0" using ring_pop [OF ring, of "used q"] by auto
    define s4 where "s4 = goto_f (F_signal final (i # c) (int (used q))) (s3\<lparr>bufs := (bufs s3)(i \<mapsto> b\<lparr>tb_queue := q'\<rparr>)\<rparr>)"
    have s4: "flush_step s3 = Some s4"
      using assms(2) b(1) q'(1) by (simp add: flush_step_def log_next_def flush_next_def at_cursor_eq flush_pop_def s1_def s2_def s3_def s4_def q_def)
    define s5 where "s5 = goto_f (F_buffer final c) (s4\<lparr>bufs := (bufs s4)(i \<mapsto> b\<lparr>tb_queue := q', tb_sem := tb_sem b + int (used q)\<rparr>)\<rparr>)"
    have s5: "flush_step s4 = Some s5"
      using assms(2) False by (simp add: flush_step_def log_next_def flush_next_def at_cursor_def flush_signal_def s1_def s2_def s3_def s4_def s5_def)
    have "flush_steps (Suc (Suc (Suc (Suc (Suc 0))))) s = Some s5" using s1 s2 s3 s4 s5 by simp
    then show ?thesis
      using q'(2) by (intro exI [of _ "Suc (Suc (Suc (Suc (Suc 0))))"] exI) (auto simp: s1_def s2_def s3_def s4_def s5_def ring_empty_def)
  qed
qed

lemma flush_all:
  assumes "log_ok True s" "crashed s = None" "flusher s = F_buffer final c"
  shows "\<exists>n s'. flush_steps n s = Some s' \<and> flusher s' = F_buffer final [] \<and> logged s' = logged s \<and> (\<forall>i \<in> set c. ring_empty s' i)
    \<and> (\<forall>j. ring_empty s j \<longrightarrow> ring_empty s' j)"
  using assms
proof (induction c arbitrary: s)
  case Nil
  then show ?case by (intro exI [of _ 0]) simp
next
  case (Cons i c)
  obtain m s1 where m: "flush_steps m s = Some s1" "flusher s1 = F_buffer final c" "logged s1 = logged s" "ring_empty s1 i"
      "\<forall>j. ring_empty s j \<longrightarrow> ring_empty s1 j"
    using flush_one [OF Cons.prems] by blast
  have "log_ok True s1" "crashed s1 = None" using flush_steps_ok [OF m(1) Cons.prems(1,2)] by simp_all
  then obtain n s' where "flush_steps n s1 = Some s'" "flusher s' = F_buffer final []" "logged s' = logged s1" "\<forall>i \<in> set c. ring_empty s' i"
      "\<forall>j. ring_empty s1 j \<longrightarrow> ring_empty s' j"
    using Cons.IH m(2) by blast
  then show ?case using m flush_steps_add [OF m(1), of n] by (intro exI [of _ "m + n"] exI [of _ s']) auto
qed

text \<open>C27: A flush finishes and leaves nothing behind, in every state reached by a run in which no thread pushed text between the two looks of the flushing thread at its ring. When the flushing thread has
  opened its file, no other thread runs and every call of \<^verbatim>\<open>write\<close> takes all it is given, it comes to the end of the list of
  buffers in finitely many steps, and then all text that was logged through these buffers has been written, in order.\<close>

theorem log_flush_complete:
  assumes "reachable log_start (log_step True) s" "crashed s = None" "flusher s = F_buffer final c"
  shows "\<exists>n s'. flush_steps n s = Some s' \<and> flusher s' = F_buffer final [] \<and> (\<forall>i \<in> set c. flushed s' i = logged s i)"
proof -
  have ok: "log_ok True s" using logger.reachable_inv [OF assms(1)] assms(2) by (simp add: log_inv_def)
  obtain n s' where n: "flush_steps n s = Some s'" "flusher s' = F_buffer final []" "logged s' = logged s" "\<forall>i \<in> set c. ring_empty s' i"
    using flush_all [OF ok assms(2,3)] by blast
  have ok': "log_ok True s'" using flush_steps_ok [OF n(1) ok assms(2)] by simp
  have "flushed s' i = logged s i" if i: "i \<in> set c" for i
  proof -
    obtain b where b: "bufs s' i = Some b" "used (tb_queue b) = 0" using n(4) i by (auto simp: ring_empty_def)
    then have "text_of (tb_queue b) = []" by (simp add: text_of_def)
    then show ?thesis using log_okD(4) [OF ok' b(1)] n(2,3) by (simp add: buffer_ok_def)
  qed
  then show ?thesis using n(1,2) by blast
qed

definition opened_log :: log_state where
  "opened_log = (case run_quiet (logs 0 [1, 2] @ logs 1 [3] @ replicate 5 fl) small_log of Some s \<Rightarrow> s | None \<Rightarrow> small_log)"

lemma opened_log_reachable: "reachable log_start (log_step True) opened_log"
proof (cases "run_quiet (logs 0 [1, 2] @ logs 1 [3] @ replicate 5 fl) small_log")
  case None
  then show ?thesis using small_log_start by (simp add: opened_log_def)
next
  case (Some s)
  then show ?thesis using run_quiet_reachable [OF Some small_log_start] by (simp add: opened_log_def)
qed

definition opened_facts :: "log_state \<Rightarrow> bool" where
  "opened_facts s \<longleftrightarrow> crashed s = None \<and> flusher s = F_buffer False [1, 0] \<and> logged s 0 = [1, 2] \<and> logged s 1 = [3]"

lemma opened_log_facts: "opened_facts opened_log"
  by code_simp

theorem log_flush_complete_witness:
  "\<exists>n s'. flush_steps n opened_log = Some s' \<and> flusher s' = F_buffer False [] \<and> flushed s' 0 = [1, 2] \<and> flushed s' 1 = [3]"
  using log_flush_complete [OF opened_log_reachable, of False "[1, 0]"] opened_log_facts unfolding opened_facts_def by auto

subsection \<open>Failures\<close>

definition race :: "log_event list" where
  "race = logs 0 [1, 2] @ replicate 11 fl @ logs_again 0 [3] @ replicate 5 fl @ logs_again 0 [4, 5, 6] @ replicate 14 fl"

definition race_outcome :: "log_state \<Rightarrow> bool" where
  "race_outcome s \<longleftrightarrow> crashed s = None \<and> logged s 0 = [1, 2, 3, 4, 5, 6] \<and> flushed s 0 = [1, 2, 3, 5, 6, 6]"

definition raced :: log_state where
  "raced = (case run_log race small_log of Some s \<Rightarrow> s | None \<Rightarrow> small_log)"

lemma raced_outcome: "race_outcome raced"
  by code_simp

lemma raced_reachable: "reachable log_start (log_step False) raced"
proof (cases "run_log race small_log")
  case None
  then show ?thesis using small_log_start by (simp add: raced_def)
next
  case (Some s)
  then show ?thesis using run_log_reachable [OF Some small_log_start] by (simp add: raced_def)
qed

text \<open>Text is lost and repeated when a thread logs while the flushing thread is between its two peeks: the first peek sees a ring that does not wrap around, the
  second one that does, and the bytes up to the end of the ring are skipped, while as many bytes from its start are
  written and kept in the ring.\<close>

theorem log_race_loses_text:
  "\<exists>s. reachable log_start (log_step False) s \<and> crashed s = None \<and> logged s 0 = [1, 2, 3, 4, 5, 6] \<and> flushed s 0 = [1, 2, 3, 5, 6, 6]"
  using raced_reachable raced_outcome by (intro exI [of _ raced]) (simp add: race_outcome_def)

text \<open>A thread that logs an empty text stops the program: waiting for no units fails an assertion of the semaphore.\<close>

theorem log_empty_text_fails:
  assumes "crashed s = None" "writer s i = W_wait []" "bufs s i \<noteq> None"
  shows "\<exists>s'. log_next (Writer i spurious) s = Some s' \<and> crashed s' = Some Assert_failed"
  using assms by (auto simp: log_next_def writer_next_def wait_space_def crash_def)

definition logs_nothing :: log_state where
  "logs_nothing = (case run_log (take 4 (logs 0 [])) small_log of Some s \<Rightarrow> s | None \<Rightarrow> small_log)"

definition waits_for_nothing :: "log_state \<Rightarrow> bool" where
  "waits_for_nothing s \<longleftrightarrow> crashed s = None \<and> writer s 0 = W_wait [] \<and> bufs s 0 \<noteq> None"

lemma logs_nothing_waits: "waits_for_nothing logs_nothing"
  by code_simp

theorem log_empty_text_fails_witness: "\<exists>s'. log_next (Writer 0 False) logs_nothing = Some s' \<and> crashed s' = Some Assert_failed"
  using log_empty_text_fails [of logs_nothing 0 False] logs_nothing_waits unfolding waits_for_nothing_def by simp

definition after_quit :: "log_event list" where
  "after_quit = logs 0 [1, 2] @ [Quit_begin] @ replicate 9 fl @ [Quit_end, Write_call 0 [3] mem4, Writer 0 False]"

text \<open>A thread that logged before the logger was ended and logs again uses memory that was given back, since its pointer to its buffer
  is not reset.\<close>

theorem log_after_quit_dangles: "case run_log after_quit small_log of Some s \<Rightarrow> crashed s = Some Out_of_bounds | None \<Rightarrow> False"
  by code_simp

end
