(* ===== verification/Io.thy ===== *)
theory Io
  imports Prelude
begin

section \<open>Asynchronous input and output (\<^verbatim>\<open>asyncio/io.c\<close>), on Linux\<close>

text \<open>
  Files and sockets are resources named by handles; an operation on a resource is given to the kernel through the submission ring of an
  io_uring, and its result comes back through the completion ring. The record \<open>io_context\<close> is the struct with the arrays and the two rings behind its
  pointers. Pointers to resources and operations are indices; \<^verbatim>\<open>max_res\<close> and \<^verbatim>\<open>max_ops\<close> are the lengths of the arrays. Callbacks are numbers, and what a
  callback does is an argument. The kernel is modelled as far as its documentation describes it: \<^verbatim>\<open>io_uring_enter\<close> takes one entry out of the submission ring, and
  at any time an operation that was taken can be completed, in any order, if the completion ring has room. The operations the
  kernel holds are in \<open>inflight\<close>, the descriptors that were closed in \<open>shut\<close>. The results of system calls are arguments.
\<close>

subsection \<open>State\<close>

datatype io_optype = IO_VOID | IO_RECV | IO_SEND | IO_ACCEPT
datatype io_evtype = IO_ERROR | IO_ABORT | IO_COMPLETE
datatype io_restype = IO_RES_VOID | IO_RES_FILE | IO_RES_SOCKET

record io_operation =
  otype :: io_optype
  ores :: "nat option"
  ouser :: u64

record io_resource =
  rtype :: io_restype
  ros_handle :: int
  pending :: u16
  rgen :: u16
  callback :: "nat option"

text \<open>The two variants of the union have the same size and place: \<open>evalue\<close> is \<^verbatim>\<open>num\<close> or \<^verbatim>\<open>accepted\<close>.\<close>

record io_event =
  evtype :: io_evtype
  optype :: io_optype
  ehandle :: u32
  euser :: u64
  evalue :: u32

datatype io_opcode = IORING_OP_READ | IORING_OP_WRITE | IORING_OP_ACCEPT

record io_uring_sqe =
  opcode :: io_opcode
  sqe_fd :: int
  sqe_addr :: u64
  sqe_len :: u32
  sqe_user_data :: nat

record io_uring_cqe =
  cqe_user_data :: nat
  cqe_res :: int

record io_context =
  ioc_os_handle :: int
  res :: "io_resource list"
  ops :: "io_operation list"
  sq_head :: u32
  sq_tail :: u32
  sq_mask :: u32
  sq_limit :: u32
  sq_array :: "u32 list"
  sq_entries :: "io_uring_sqe list"
  cq_head :: u32
  cq_tail :: u32
  cq_mask :: u32
  cq_entries :: "io_uring_cqe list"
  inflight :: "io_uring_sqe list"
  shut :: "int list"

abbreviation IO_INVALID :: u32 where "IO_INVALID \<equiv> - 1"

definition upd_res :: "nat \<Rightarrow> (io_resource \<Rightarrow> io_resource) \<Rightarrow> io_context \<Rightarrow> io_context" where
  "upd_res r f ioc = ioc\<lparr>res := (res ioc)[r := f (res ioc ! r)]\<rparr>"

definition upd_op :: "nat \<Rightarrow> (io_operation \<Rightarrow> io_operation) \<Rightarrow> io_context \<Rightarrow> io_context" where
  "upd_op i f ioc = ioc\<lparr>ops := (ops ioc)[i := f (ops ioc ! i)]\<rparr>"

subsection \<open>The rings\<close>

text \<open>\<^verbatim>\<open>io_uring_enter(fd, 1, 0, 0)\<close>: unless it fails, the kernel takes the first entry.\<close>

definition io_uring_enter :: "int \<Rightarrow> io_context \<Rightarrow> io_context res" where
  "io_uring_enter ret ioc =
     (if ret < 0 \<or> sq_head ioc = sq_tail ioc then Inr ioc
      else
        rbind (rd (sq_array ioc) (unat (sq_head ioc AND sq_mask ioc))) (\<lambda>index.
        rbind (rd (sq_entries ioc) (unat index)) (\<lambda>sqe.
          Inr (ioc\<lparr>sq_head := sq_head ioc + 1, inflight := inflight ioc @ [sqe]\<rparr>))))"

definition start_uring_op :: "int \<Rightarrow> io_uring_sqe \<Rightarrow> io_context \<Rightarrow> (bool \<times> io_context) res" where
  "start_uring_op ret sqe ioc =
     (let tail = sq_tail ioc; head = sq_head ioc in
      if tail \<ge> head + sq_limit ioc then Inr (False, ioc)
      else
        let index = tail AND sq_mask ioc in
        rbind (wr (sq_entries ioc) (unat index) sqe) (\<lambda>entries.
        rbind (wr (sq_array ioc) (unat index) index) (\<lambda>array.
        rbind (io_uring_enter ret (ioc\<lparr>sq_entries := entries, sq_array := array, sq_tail := tail + 1\<rparr>)) (\<lambda>ioc.
          Inr (ret \<ge> 0, ioc)))))"

text \<open>What the kernel does: it completes the operation at position \<open>k\<close> of those it holds.\<close>

definition kernel_complete :: "nat \<Rightarrow> int \<Rightarrow> io_context \<Rightarrow> io_context option" where
  "kernel_complete k result ioc =
     (if k < length (inflight ioc) \<and> unat (cq_tail ioc - cq_head ioc) < length (cq_entries ioc) then
        Some (ioc\<lparr>inflight := take k (inflight ioc) @ drop (Suc k) (inflight ioc),
                cq_entries := (cq_entries ioc)[unat (cq_tail ioc AND cq_mask ioc) :=
                  \<lparr>cqe_user_data = sqe_user_data (inflight ioc ! k), cqe_res = result\<rparr>],
                cq_tail := cq_tail ioc + 1\<rparr>)
      else None)"

subsection \<open>Resources and handles\<close>

definition clear_res :: "io_resource \<Rightarrow> io_resource" where
  "clear_res r = r\<lparr>rtype := IO_RES_VOID, pending := 0, callback := None, ros_handle := - 1\<rparr>"

text \<open>
  What the kernel answers when the ring is set up: the descriptor, whether one mapping holds both rings, which mappings succeed, and the memory behind
  them. The masks and limits are those the kernel reports for that memory; both rings are empty and the kernel holds no operation.
\<close>

record uring_env =
  setup_fd :: int
  single_mmap :: bool
  map_sq :: bool
  map_cq :: bool
  map_sqes :: bool
  env_array :: "u32 list"
  env_sqes :: "io_uring_sqe list"
  env_cqes :: "io_uring_cqe list"

definition io_init_linux :: "uring_env \<Rightarrow> io_context \<Rightarrow> bool \<times> io_context" where
  "io_init_linux env ioc =
     (if setup_fd env < 0 then (False, ioc)
      else
        let ioc = ioc\<lparr>ioc_os_handle := setup_fd env, inflight := []\<rparr> in
        if \<not> map_sq env then (False, ioc)
        else if \<not> single_mmap env \<and> \<not> map_cq env then (False, ioc)
        else
          let ioc = ioc\<lparr>sq_head := 0, sq_tail := 0, sq_mask := of_nat (length (env_sqes env) - 1), sq_array := env_array env,
                sq_limit := of_nat (length (env_sqes env)), sq_entries := env_sqes env\<rparr>
          in if \<not> map_sqes env then (False, ioc)
             else (True, ioc\<lparr>cq_head := 0, cq_tail := 0, cq_mask := of_nat (length (env_cqes env) - 1), cq_entries := env_cqes env\<rparr>))"

text \<open>\<^verbatim>\<open>io_init\<close> on a context and arrays that hold anything.\<close>

definition io_init :: "uring_env \<Rightarrow> io_resource list \<Rightarrow> io_operation list \<Rightarrow> io_context \<Rightarrow> bool \<times> io_context" where
  "io_init env rs os ioc =
     io_init_linux env (ioc\<lparr>res := map (\<lambda>r. clear_res (r\<lparr>rgen := 0\<rparr>)) rs, ops := map (\<lambda>op. op\<lparr>otype := IO_VOID\<rparr>) os\<rparr>)"

text \<open>The loop that releases the operations of a resource; it ends after as many as the resource counts.\<close>

function mark_loop :: "nat \<Rightarrow> nat \<Rightarrow> nat \<Rightarrow> io_operation list \<Rightarrow> io_operation list res" where
  "mark_loop r left i os =
     (if left = 0 then Inr os
      else if i < length os then
        if otype (os ! i) \<noteq> IO_VOID \<and> ores (os ! i) = Some r
        then mark_loop r (left - 1) (i + 1) (os[i := (os ! i)\<lparr>otype := IO_VOID, ores := None\<rparr>])
        else mark_loop r left (i + 1) os
      else Inl Out_of_bounds)"
  by pat_completeness auto
termination
  by (relation "measure (\<lambda>(r, left, i, os). length os - i)") auto

declare mark_loop.simps [simp del]

definition next_rgen :: "io_resource \<Rightarrow> io_resource" where
  "next_rgen r = (let r = r\<lparr>rgen := rgen r + 1\<rparr> in if rgen r = - 1 then r\<lparr>rgen := 0\<rparr> else r)"

definition close_internal :: "nat \<Rightarrow> io_context \<Rightarrow> io_context res" where
  "close_internal r ioc =
     (let ioc = ioc\<lparr>shut := shut ioc @ [ros_handle (res ioc ! r)]\<rparr> in
      rbind (mark_loop r (unat (pending (res ioc ! r))) 0 (ops ioc)) (\<lambda>os.
        Inr (upd_res r (\<lambda>r. next_rgen (clear_res r)) (ioc\<lparr>ops := os\<rparr>))))"

definition res_from_handle :: "io_context \<Rightarrow> u32 \<Rightarrow> nat option" where
  "res_from_handle ioc handle =
     (if handle = IO_INVALID then None
      else
        let idx = ucast (handle AND 0xFFFF) :: u16;
            gen = ucast (drop_bit 16 handle) :: u16
        in if length (res ioc) \<le> unat idx then None
           else if rgen (res ioc ! unat idx) \<noteq> gen then None
           else Some (unat idx))"

definition handle_from_res :: "io_context \<Rightarrow> nat option \<Rightarrow> u32 res" where
  "handle_from_res ioc r =
     (case r of
        None \<Rightarrow> Inl Null_pointer
      | Some r \<Rightarrow>
          rbind (rd (res ioc) r) (\<lambda>resource.
            let gen = ucast (rgen resource) :: u32;
                handle = of_nat r OR push_bit 16 gen
            in rbind (c_assert (gen \<noteq> 0xFFFF)) (\<lambda>_.
               rbind (c_assert (handle \<noteq> IO_INVALID)) (\<lambda>_. Inr handle))))"

definition io_close :: "u32 \<Rightarrow> io_context \<Rightarrow> io_context res" where
  "io_close handle ioc = (case res_from_handle ioc handle of None \<Rightarrow> Inr ioc | Some r \<Rightarrow> close_internal r ioc)"

text \<open>The loop of \<^verbatim>\<open>io_free\<close> over the first \<open>n\<close> of the resources, then the ring is closed.\<close>

fun free_res_loop :: "nat \<Rightarrow> io_context \<Rightarrow> io_context res" where
  "free_res_loop 0 ioc = Inr ioc"
| "free_res_loop (Suc n) ioc =
     rbind (free_res_loop n ioc) (\<lambda>ioc.
       if rtype (res ioc ! n) \<noteq> IO_RES_VOID then close_internal n ioc else Inr ioc)"

definition io_free_linux :: "io_context \<Rightarrow> io_context" where
  "io_free_linux ioc = ioc\<lparr>shut := shut ioc @ [ioc_os_handle ioc]\<rparr>"

definition io_free :: "io_context \<Rightarrow> io_context res" where
  "io_free ioc = rbind (free_res_loop (length (res ioc)) ioc) (\<lambda>ioc. Inr (io_free_linux ioc))"

fun find_from :: "('a \<Rightarrow> bool) \<Rightarrow> nat \<Rightarrow> 'a list \<Rightarrow> nat option" where
  "find_from p i [] = None"
| "find_from p i (x # xs) = (if p x then Some i else find_from p (i + 1) xs)"

definition find_unused_op :: "io_context \<Rightarrow> nat option" where
  "find_unused_op ioc = find_from (\<lambda>op. otype op = IO_VOID) 0 (ops ioc)"

definition find_unused_res :: "io_context \<Rightarrow> nat option" where
  "find_unused_res ioc = find_from (\<lambda>r. rtype r = IO_RES_VOID) 0 (res ioc)"

subsection \<open>Starting operations\<close>

definition io_recv_linux :: "int \<Rightarrow> io_resource \<Rightarrow> nat \<Rightarrow> u64 \<Rightarrow> u32 \<Rightarrow> io_context \<Rightarrow> (bool \<times> io_context) res" where
  "io_recv_linux ret r op dst maxlen ioc = start_uring_op ret
     \<lparr>opcode = IORING_OP_READ, sqe_fd = ros_handle r, sqe_addr = dst, sqe_len = maxlen, sqe_user_data = op\<rparr> ioc"

definition io_send_linux :: "int \<Rightarrow> io_resource \<Rightarrow> nat \<Rightarrow> u64 \<Rightarrow> u32 \<Rightarrow> io_context \<Rightarrow> (bool \<times> io_context) res" where
  "io_send_linux ret r op src num ioc = start_uring_op ret
     \<lparr>opcode = IORING_OP_WRITE, sqe_fd = ros_handle r, sqe_addr = src, sqe_len = num, sqe_user_data = op\<rparr> ioc"

definition io_accept_linux :: "int \<Rightarrow> nat \<Rightarrow> int \<Rightarrow> io_context \<Rightarrow> (bool \<times> io_context) res" where
  "io_accept_linux ret op os_handle ioc = start_uring_op ret
     \<lparr>opcode = IORING_OP_ACCEPT, sqe_fd = os_handle, sqe_addr = 0, sqe_len = 0, sqe_user_data = op\<rparr> ioc"

text \<open>What the three functions that start an operation do alike.\<close>

definition record_op :: "io_optype \<Rightarrow> u64 \<Rightarrow> nat \<Rightarrow> nat \<Rightarrow> io_context \<Rightarrow> io_context" where
  "record_op type user r op ioc =
     upd_op op (\<lambda>_. \<lparr>otype = type, ores = Some r, ouser = user\<rparr>) (upd_res r (\<lambda>r. r\<lparr>pending := pending r + 1\<rparr>) ioc)"

definition io_recv :: "int \<Rightarrow> u64 \<Rightarrow> u32 \<Rightarrow> u64 \<Rightarrow> u32 \<Rightarrow> io_context \<Rightarrow> (bool \<times> io_context) res" where
  "io_recv ret user handle dst maxlen ioc =
     (case res_from_handle ioc handle of
        None \<Rightarrow> Inr (False, ioc)
      | Some r \<Rightarrow>
          (case find_unused_op ioc of
             None \<Rightarrow> Inr (False, ioc)
           | Some op \<Rightarrow>
               rbind (io_recv_linux ret (res ioc ! r) op dst maxlen ioc) (\<lambda>(ok, ioc).
                 if \<not> ok then Inr (False, ioc) else Inr (True, record_op IO_RECV user r op ioc))))"

definition io_send :: "int \<Rightarrow> u64 \<Rightarrow> u32 \<Rightarrow> u64 \<Rightarrow> u32 \<Rightarrow> io_context \<Rightarrow> (bool \<times> io_context) res" where
  "io_send ret user handle src num ioc =
     (case res_from_handle ioc handle of
        None \<Rightarrow> Inr (False, ioc)
      | Some r \<Rightarrow>
          (case find_unused_op ioc of
             None \<Rightarrow> Inr (False, ioc)
           | Some op \<Rightarrow>
               rbind (io_send_linux ret (res ioc ! r) op src num ioc) (\<lambda>(ok, ioc).
                 if \<not> ok then Inr (False, ioc) else Inr (True, record_op IO_SEND user r op ioc))))"

definition io_accept :: "int \<Rightarrow> u64 \<Rightarrow> u32 \<Rightarrow> io_context \<Rightarrow> (bool \<times> io_context) res" where
  "io_accept ret user handle ioc =
     (case res_from_handle ioc handle of
        None \<Rightarrow> Inr (False, ioc)
      | Some r \<Rightarrow>
          (case find_unused_op ioc of
             None \<Rightarrow> Inr (False, ioc)
           | Some op \<Rightarrow>
               rbind (io_accept_linux ret op (ros_handle (res ioc ! r)) ioc) (\<lambda>(ok, ioc).
                 if \<not> ok then Inr (False, ioc) else Inr (True, record_op IO_ACCEPT user r op ioc))))"

subsection \<open>Opening\<close>

definition IO_ACCESS_RD :: u32 where "IO_ACCESS_RD = 1"
definition IO_ACCESS_WR :: u32 where "IO_ACCESS_WR = 2"
definition IO_CREATE_OVERWRITE :: u32 where "IO_CREATE_OVERWRITE = 4"
definition IO_CREATE_CANTEXIST :: u32 where "IO_CREATE_CANTEXIST = 8"

definition O_RDONLY :: u32 where "O_RDONLY = 0"
definition O_WRONLY :: u32 where "O_WRONLY = 1"
definition O_CREAT :: u32 where "O_CREAT = 64"
definition O_EXCL :: u32 where "O_EXCL = 128"
definition O_TRUNC :: u32 where "O_TRUNC = 512"

definition io_open_file_linux :: "u32 \<Rightarrow> u32" where
  "io_open_file_linux flags =
     (let flags2 = 0;
          flags2 = (if flags AND IO_ACCESS_RD \<noteq> 0 then flags2 OR O_RDONLY else flags2)
      in if flags AND IO_ACCESS_WR \<noteq> 0 then flags2 OR O_WRONLY else flags2)"

definition io_create_file_linux :: "u32 \<Rightarrow> u32" where
  "io_create_file_linux flags =
     (let flags2 = O_CREAT OR O_WRONLY in
      if flags AND IO_CREATE_CANTEXIST \<noteq> 0 then flags2 OR O_EXCL
      else if flags AND IO_CREATE_OVERWRITE \<noteq> 0 then flags2 OR O_TRUNC else flags2)"

text \<open>Giving a resource that is not in use to a descriptor.\<close>

definition take_res :: "io_restype \<Rightarrow> int \<Rightarrow> nat \<Rightarrow> io_context \<Rightarrow> (u32 \<times> io_context) res" where
  "take_res type fd r ioc =
     (let ioc = upd_res r (\<lambda>r. r\<lparr>rtype := type, pending := 0, ros_handle := fd\<rparr>) ioc in
      rbind (handle_from_res ioc (Some r)) (\<lambda>handle. Inr (handle, ioc)))"

text \<open>The argument \<open>open_os\<close> is what \<^verbatim>\<open>open\<close> returns for a file and flags.\<close>

definition io_open_file :: "(string \<Rightarrow> u32 \<Rightarrow> int) \<Rightarrow> string \<Rightarrow> u32 \<Rightarrow> io_context \<Rightarrow> (u32 \<times> io_context) res" where
  "io_open_file open_os name flags ioc =
     (case find_unused_res ioc of
        None \<Rightarrow> Inr (IO_INVALID, ioc)
      | Some r \<Rightarrow>
          let os_handle = open_os name (io_open_file_linux flags) in
          if os_handle < 0 then Inr (IO_INVALID, ioc) else take_res IO_RES_FILE os_handle r ioc)"

definition io_create_file :: "(string \<Rightarrow> u32 \<Rightarrow> int) \<Rightarrow> string \<Rightarrow> u32 \<Rightarrow> io_context \<Rightarrow> (u32 \<times> io_context) res" where
  "io_create_file open_os name flags ioc =
     (case find_unused_res ioc of
        None \<Rightarrow> Inr (IO_INVALID, ioc)
      | Some r \<Rightarrow>
          let os_handle = open_os name (io_create_file_linux flags) in
          if os_handle < 0 then Inr (IO_INVALID, ioc) else take_res IO_RES_FILE os_handle r ioc)"

record server_env =
  pton_ok :: bool
  socket_fd :: int
  bind_ok :: bool
  listen_ok :: bool

definition io_start_server :: "server_env \<Rightarrow> string option \<Rightarrow> int \<Rightarrow> io_context \<Rightarrow> (u32 \<times> io_context) res" where
  "io_start_server env addr port ioc =
     (if port < 1 \<or> port > 65535 then Inr (IO_INVALID, ioc)
      else if addr \<noteq> None \<and> \<not> pton_ok env then Inr (IO_INVALID, ioc)
      else case find_unused_res ioc of
        None \<Rightarrow> Inr (IO_INVALID, ioc)
      | Some r \<Rightarrow>
          let fd = socket_fd env in
          if fd < 0 then Inr (IO_INVALID, ioc)
          else if \<not> bind_ok env \<or> \<not> listen_ok env then Inr (IO_INVALID, ioc\<lparr>shut := shut ioc @ [fd]\<rparr>)
          else take_res IO_RES_SOCKET fd r ioc)"

subsection \<open>Waiting\<close>

text \<open>The call that waits for a completion when there is none: it fails, or the kernel completes operations meanwhile.\<close>

datatype enter_result = Enter_fails | Enter_completes "(nat \<times> int) list"

fun complete_all :: "(nat \<times> int) list \<Rightarrow> io_context \<Rightarrow> io_context" where
  "complete_all [] ioc = ioc"
| "complete_all ((k, result) # cs) ioc = complete_all cs (case kernel_complete k result ioc of None \<Rightarrow> ioc | Some ioc \<Rightarrow> ioc)"

text \<open>Taking the completion at the head of the ring.\<close>

definition take_completion :: "io_event \<Rightarrow> io_context \<Rightarrow> (io_event \<times> io_context) res" where
  "take_completion ev ioc =
     rbind (rd (cq_entries ioc) (unat (cq_head ioc AND cq_mask ioc))) (\<lambda>cqe.
     rbind (rd (ops ioc) (cqe_user_data cqe)) (\<lambda>op.
     rbind (handle_from_res ioc (ores op)) (\<lambda>handle.
       let r = the (ores op);
           ev = ev\<lparr>euser := ouser op, ehandle := handle, optype := otype op\<rparr>;
           ev = (if cqe_res cqe < 0 then ev\<lparr>evtype := IO_ABORT\<rparr>
                 else if otype op = IO_VOID then ev\<lparr>evtype := IO_COMPLETE\<rparr>
                 else ev\<lparr>evtype := IO_COMPLETE, evalue := word_of_int (cqe_res cqe)\<rparr>)
       in rbind (c_assert (0 < pending (res ioc ! r))) (\<lambda>_.
            let ioc = upd_res r (\<lambda>r. r\<lparr>pending := pending r - 1\<rparr>) ioc;
                ioc = upd_op (cqe_user_data cqe) (\<lambda>op. op\<lparr>otype := IO_VOID\<rparr>) ioc
            in Inr (ev, ioc\<lparr>cq_head := cq_head ioc + 1\<rparr>)))))"

definition io_wait_internal :: "enter_result \<Rightarrow> io_event \<Rightarrow> io_context \<Rightarrow> (io_event \<times> io_context) res" where
  "io_wait_internal enter ev ioc =
     (if cq_head ioc = cq_tail ioc then
        case enter of
          Enter_fails \<Rightarrow> Inr (ev\<lparr>evtype := IO_ERROR, optype := IO_VOID, ehandle := IO_INVALID, euser := 0\<rparr>, ioc)
        | Enter_completes cs \<Rightarrow> take_completion ev (complete_all cs ioc)
      else take_completion ev ioc)"

text \<open>The loop of \<^verbatim>\<open>io_wait\<close>: \<open>None\<close> while it is waiting, when no more results of the calls are given.\<close>

fun io_wait :: "(nat \<Rightarrow> io_event \<Rightarrow> io_context \<Rightarrow> io_context res) \<Rightarrow> enter_result list \<Rightarrow> io_event \<Rightarrow> io_context \<Rightarrow> (io_event option \<times> io_context) res" where
  "io_wait cb [] ev ioc = Inr (None, ioc)"
| "io_wait cb (enter # es) ev ioc =
     rbind (io_wait_internal enter ev ioc) (\<lambda>(ev, ioc).
       if ehandle ev = IO_INVALID then Inr (Some ev, ioc)
       else
         case res_from_handle ioc (ehandle ev) of
           None \<Rightarrow> Inl Assert_failed
         | Some r \<Rightarrow>
             (case callback (res ioc ! r) of
                None \<Rightarrow> Inr (Some ev, ioc)
              | Some f \<Rightarrow> rbind (cb f ev ioc) (\<lambda>ioc. io_wait cb es ev ioc)))"

definition io_set_callback :: "u32 \<Rightarrow> nat option \<Rightarrow> io_context \<Rightarrow> io_context" where
  "io_set_callback handle f ioc =
     (case res_from_handle ioc handle of None \<Rightarrow> ioc | Some r \<Rightarrow> upd_res r (\<lambda>r. r\<lparr>callback := f\<rparr>) ioc)"

end
