(* ===== verification/IoSystem.thy ===== *)
theory IoSystem
  imports Io
begin

section \<open>Asynchronous input and output: the system\<close>

text \<open>
  The program and the kernel at work on one context, in any order: the operations in progress, the resources that count them and the two rings always agree.
  The program uses handles of resources that are in use and closes a resource only when nothing is pending on it, and entering the kernel to submit an operation does not fail;
  what happens otherwise is shown at the end of the theory \<open>IoClaims\<close>.
\<close>

subsection \<open>Invariant\<close>

definition cq_len :: "io_context \<Rightarrow> nat" where
  "cq_len s = unat (cq_tail s - cq_head s)"

text \<open>The operations whose completions are in the ring, oldest first, and all operations that the kernel knows of.\<close>

definition cq_at :: "io_context \<Rightarrow> nat \<Rightarrow> io_uring_cqe" where
  "cq_at s i = cq_entries s ! ((unat (cq_head s) + i) mod length (cq_entries s))"

definition cq_users :: "io_context \<Rightarrow> nat list" where
  "cq_users s = map (\<lambda>i. cqe_user_data (cq_at s i)) [0..<cq_len s]"

definition outstanding :: "io_context \<Rightarrow> nat list" where
  "outstanding s = map sqe_user_data (inflight s) @ cq_users s"

definition in_progress :: "io_operation \<Rightarrow> bool" where
  "in_progress op \<longleftrightarrow> otype op \<noteq> IO_VOID"

definition op_count :: "io_context \<Rightarrow> nat \<Rightarrow> nat" where
  "op_count s r = length (filter (\<lambda>op. in_progress op \<and> ores op = Some r) (ops s))"

definition ring_size :: "nat \<Rightarrow> u32 \<Rightarrow> bool" where
  "ring_size n m \<longleftrightarrow> (\<exists>j < 32. n = 2 ^ j) \<and> m = of_nat (n - 1)"

definition rings_ok :: "io_context \<Rightarrow> bool" where
  "rings_ok s \<longleftrightarrow> ring_size (length (sq_entries s)) (sq_mask s) \<and> length (sq_array s) = length (sq_entries s) \<and> sq_head s = sq_tail s
     \<and> ring_size (length (cq_entries s)) (cq_mask s) \<and> cq_len s \<le> length (cq_entries s)"

definition ops_ok :: "io_context \<Rightarrow> bool" where
  "ops_ok s \<longleftrightarrow> (\<forall>i < length (ops s). in_progress (ops s ! i) \<longrightarrow>
     (\<exists>r < length (res s). ores (ops s ! i) = Some r \<and> rtype (res s ! r) \<noteq> IO_RES_VOID))"

definition counts_ok :: "io_context \<Rightarrow> bool" where
  "counts_ok s \<longleftrightarrow> (\<forall>r < length (res s). unat (pending (res s ! r)) = op_count s r \<and> rgen (res s ! r) \<noteq> - 1)"

definition outstanding_ok :: "io_context \<Rightarrow> bool" where
  "outstanding_ok s \<longleftrightarrow> distinct (outstanding s) \<and> set (outstanding s) = {i. i < length (ops s) \<and> in_progress (ops s ! i)}"

definition io_inv :: "io_context \<Rightarrow> bool" where
  "io_inv s \<longleftrightarrow> length (res s) < 2 ^ 16 \<and> length (ops s) < 2 ^ 16 \<and> rings_ok s \<and> ops_ok s \<and> counts_ok s \<and> outstanding_ok s"

lemma rtype_pending: "rtype (rs[r := (rs ! r)\<lparr>pending := p\<rparr>] ! q) = rtype (rs ! q)"
  by (cases "r < length rs") (auto simp: nth_list_update list_update_beyond)

lemma io_invD:
  assumes "io_inv s"
  shows "length (res s) < 2 ^ 16" "length (ops s) < 2 ^ 16" "rings_ok s" "ops_ok s" "counts_ok s" "outstanding_ok s"
  using assms by (auto simp: io_inv_def)

subsection \<open>Positions in the rings\<close>

lemma ring_index:
  assumes "ring_size n m"
  shows "unat ((h + of_nat i) AND m) = (unat (h :: u32) + i) mod n" "0 < n" "n < 2 ^ 32"
proof -
  obtain j where j: "j < 32" "n = 2 ^ j" "m = of_nat (n - 1)" using assms by (auto simp: ring_size_def)
  show "0 < n" using j by simp
  have "(2 :: nat) ^ j < 2 ^ 32" using j(1) by (intro power_strict_increasing) auto
  then show "n < 2 ^ 32" using j by simp
  have "m = mask j" using j by (simp add: mask_eq_exp_minus_1 of_nat_diff)
  then have "unat ((h + of_nat i) AND m) = unat (h + of_nat i) mod n" using j by (simp add: unat_and_mask)
  also have "unat (h + of_nat i) = (unat h + i) mod 2 ^ 32" by (simp add: unat_word_ariths(1) unat_of_nat mod_simps)
  also have "(unat h + i) mod 2 ^ 32 mod n = (unat h + i) mod n" by (rule mod_mod_cancel) (use j in \<open>auto intro: le_imp_power_dvd simp del: power_numeral\<close>)
  finally show "unat ((h + of_nat i) AND m) = (unat h + i) mod n" .
qed

lemmas ring_index0 = ring_index(1) [where i = 0, simplified]

lemma cq_index:
  assumes "rings_ok s"
  shows "unat (cq_tail s AND cq_mask s) = (unat (cq_head s) + cq_len s) mod length (cq_entries s)"
proof -
  have "cq_tail s = cq_head s + of_nat (cq_len s)" by (simp add: cq_len_def)
  then show ?thesis using ring_index(1) [of "length (cq_entries s)" "cq_mask s" "cq_head s" "cq_len s"] assms by (simp add: rings_ok_def)
qed

subsection \<open>Single operations\<close>

text \<open>The parts of the state that an operation may leave alone.\<close>

lemma io_inv_frame:
  assumes "io_inv s" "ops s' = ops s" "cq_head s' = cq_head s" "cq_tail s' = cq_tail s" "cq_entries s' = cq_entries s" "inflight s' = inflight s"
    "rings_ok s'" "length (res s') = length (res s)"
    "\<And>r. r < length (res s) \<Longrightarrow> pending (res s' ! r) = pending (res s ! r) \<and> rgen (res s' ! r) \<noteq> - 1
       \<and> (rtype (res s ! r) \<noteq> IO_RES_VOID \<longrightarrow> rtype (res s' ! r) \<noteq> IO_RES_VOID \<or> op_count s r = 0)"
  shows "io_inv s'"
proof -
  have out: "outstanding s' = outstanding s" using assms(3-6) by (simp add: outstanding_def cq_users_def cq_at_def cq_len_def)
  have count: "op_count s' r = op_count s r" for r by (simp add: op_count_def assms(2))
  have "\<exists>r < length (res s'). ores (ops s' ! i) = Some r \<and> rtype (res s' ! r) \<noteq> IO_RES_VOID"
    if i: "i < length (ops s')" "in_progress (ops s' ! i)" for i
  proof -
    obtain r where r: "r < length (res s)" "ores (ops s ! i) = Some r" "rtype (res s ! r) \<noteq> IO_RES_VOID"
      using io_invD(4) [OF assms(1)] i by (auto simp: ops_ok_def assms(2))
    have "ops s ! i \<in> set (filter (\<lambda>op. in_progress op \<and> ores op = Some r) (ops s))" using i r(2) by (simp add: assms(2))
    then have "op_count s r \<noteq> 0" by (auto simp: op_count_def filter_empty_conv)
    then show ?thesis using assms(8,9) r by (auto simp: assms(2))
  qed
  then show ?thesis
    using io_invD [OF assms(1)] assms(7-9) count out by (auto simp: io_inv_def ops_ok_def counts_ok_def outstanding_ok_def assms(2))
qed

lemma find_from_Some: "find_from p i xs = Some j \<Longrightarrow> i \<le> j \<and> j - i < length xs \<and> p (xs ! (j - i))"
proof (induction p i xs rule: find_from.induct)
  case (2 p i x xs)
  show ?case
  proof (cases "p x")
    case False
    then have "i + 1 \<le> j \<and> j - (i + 1) < length xs \<and> p (xs ! (j - (i + 1)))" using 2 by simp
    moreover from this have "j - i = Suc (j - (i + 1))" by arith
    ultimately show ?thesis by simp
  qed (use 2 in auto)
qed simp

lemma unused_op: "find_unused_op s = Some i \<Longrightarrow> i < length (ops s) \<and> \<not> in_progress (ops s ! i)"
  by (auto simp: find_unused_op_def in_progress_def dest!: find_from_Some)

lemma unused_res: "find_unused_res s = Some r \<Longrightarrow> r < length (res s) \<and> rtype (res s ! r) = IO_RES_VOID"
  by (auto simp: find_unused_res_def dest!: find_from_Some)

lemma res_from_handle_Some: "res_from_handle s h = Some r \<Longrightarrow> r < length (res s)"
  by (auto simp: res_from_handle_def Let_def split: if_splits)

lemma void_no_ops:
  assumes "io_inv s" "r < length (res s)" "rtype (res s ! r) = IO_RES_VOID"
  shows "op_count s r = 0" "pending (res s ! r) = 0"
proof -
  have "\<not> (in_progress op \<and> ores op = Some r)" if "op \<in> set (ops s)" for op
    using io_invD(4) [OF assms(1)] assms(3) that unfolding ops_ok_def in_set_conv_nth by (metis option.inject)
  then show "op_count s r = 0" by (auto simp: op_count_def filter_empty_conv)
  then show "pending (res s ! r) = 0" using io_invD(5) [OF assms(1)] assms(2) by (auto simp: counts_ok_def unat_eq_zero)
qed

subsection \<open>Handles\<close>

lemma handle_roundtrip:
  assumes "r < length (res s)" "length (res s) < 2 ^ 16" "rgen (res s ! r) \<noteq> - 1"
  shows "\<exists>h. handle_from_res s (Some r) = Inr h \<and> res_from_handle s h = Some r \<and> h \<noteq> IO_INVALID
    \<and> ucast (drop_bit 16 h) = rgen (res s ! r) \<and> unat (ucast (h AND 0xFFFF) :: u16) = r"
proof -
  define g where "g = rgen (res s ! r)"
  define h :: u32 where "h = of_nat r OR push_bit 16 (ucast g)"
  have m: "(0xFFFF :: u32) = mask 16" by (simp add: mask_eq_exp_minus_1)
  have r16: "r < 2 ^ 16" using assms(1,2) by simp
  have high: "\<not> bit r (16 + n)" for n
  proof -
    have "(2 :: nat) ^ 16 \<le> 2 ^ (16 + n)" by (intro power_increasing) auto
    then have "r < 2 ^ (16 + n)" using r16 by linarith
    then show ?thesis by (simp add: bit_iff_odd)
  qed
  have idx: "(ucast (h AND 0xFFFF) :: u16) = of_nat r"
    unfolding m by (rule bit_word_eqI) (auto simp: h_def bit_simps)
  have gen: "(ucast (drop_bit 16 h) :: u16) = g"
    by (rule bit_word_eqI) (auto simp: h_def bit_simps high dest: bit_imp_le_length)
  have g: "(ucast g :: u32) \<noteq> 0xFFFF"
  proof
    assume "(ucast g :: u32) = 0xFFFF"
    then have "(ucast (ucast g :: u32) :: u16) = 0xFFFF" by simp
    moreover have "(ucast (ucast g :: u32) :: u16) = g" by (rule bit_word_eqI) (auto simp: bit_simps)
    moreover have "(0xFFFF :: u16) = - 1" by simp
    ultimately show False using assms(3) by (simp only: g_def)
  qed
  have h: "h \<noteq> IO_INVALID"
  proof
    assume "h = IO_INVALID"
    then have "g = ucast (drop_bit 16 IO_INVALID :: u32)" using gen by simp
    also have "\<dots> = - 1" by (rule bit_word_eqI) (auto simp: bit_simps)
    finally show False using assms(3) by (simp add: g_def)
  qed
  have u: "unat (of_nat r :: u16) = r" using r16 by (simp add: unat_of_nat)
  have "handle_from_res s (Some r) = Inr h"
    using assms(1) g h by (simp add: handle_from_res_def Let_def g_def [symmetric] h_def [symmetric])
  moreover have "res_from_handle s h = Some r" using h idx gen u assms(1) by (simp add: res_from_handle_def Let_def g_def)
  ultimately show ?thesis using h gen idx u by (auto simp: g_def)
qed

subsection \<open>Starting an operation\<close>

text \<open>The three functions that start an operation differ in its kind and in the entry they submit.\<close>

definition start_op :: "int \<Rightarrow> io_optype \<Rightarrow> u64 \<Rightarrow> u32 \<Rightarrow> (nat \<Rightarrow> nat \<Rightarrow> io_uring_sqe) \<Rightarrow> io_context \<Rightarrow> (bool \<times> io_context) res" where
  "start_op ret type user handle mk s =
     (case res_from_handle s handle of
        None \<Rightarrow> Inr (False, s)
      | Some r \<Rightarrow>
          (case find_unused_op s of
             None \<Rightarrow> Inr (False, s)
           | Some i \<Rightarrow>
               rbind (start_uring_op ret (mk r i) s) (\<lambda>(ok, s).
                 if \<not> ok then Inr (False, s) else Inr (True, record_op type user r i s))))"

lemma start_op_eqs:
  "io_recv ret user h dst n s = start_op ret IO_RECV user h (\<lambda>r i. \<lparr>opcode = IORING_OP_READ, sqe_fd = ros_handle (res s ! r),
     sqe_addr = dst, sqe_len = n, sqe_user_data = i\<rparr>) s"
  "io_send ret user h src n s = start_op ret IO_SEND user h (\<lambda>r i. \<lparr>opcode = IORING_OP_WRITE, sqe_fd = ros_handle (res s ! r),
     sqe_addr = src, sqe_len = n, sqe_user_data = i\<rparr>) s"
  "io_accept ret user h s = start_op ret IO_ACCEPT user h (\<lambda>r i. \<lparr>opcode = IORING_OP_ACCEPT, sqe_fd = ros_handle (res s ! r),
     sqe_addr = 0, sqe_len = 0, sqe_user_data = i\<rparr>) s"
  by (simp_all add: start_op_def io_recv_def io_send_def io_accept_def io_recv_linux_def io_send_linux_def io_accept_linux_def split: option.split)

text \<open>A submission that is accepted goes straight to the kernel.\<close>

definition submitted :: "io_uring_sqe \<Rightarrow> io_context \<Rightarrow> io_context" where
  "submitted sqe s = (let i = unat (sq_tail s AND sq_mask s) in
     s\<lparr>sq_entries := (sq_entries s)[i := sqe], sq_array := (sq_array s)[i := sq_tail s AND sq_mask s],
       sq_tail := sq_tail s + 1, sq_head := sq_head s + 1, inflight := inflight s @ [sqe]\<rparr>)"

lemma start_uring_result:
  assumes "rings_ok s" "0 \<le> ret"
  shows "start_uring_op ret sqe s = Inr (if sq_tail s \<ge> sq_tail s + sq_limit s then (False, s) else (True, submitted sqe s))"
proof -
  let ?i = "unat (sq_tail s AND sq_mask s)"
  have r: "ring_size (length (sq_entries s)) (sq_mask s)" "length (sq_array s) = length (sq_entries s)" "sq_head s = sq_tail s"
    using assms(1) by (simp_all add: rings_ok_def)
  have i: "?i < length (sq_entries s)" using ring_index0 [OF r(1), of "sq_tail s"] ring_index(2) [OF r(1)] by simp
  then show ?thesis using r(2,3) assms(2) by (simp add: start_uring_op_def io_uring_enter_def submitted_def Let_def)
qed

lemma record_op_inv:
  assumes "io_inv s" "i < length (ops s)" "\<not> in_progress (ops s ! i)" "r < length (res s)" "rtype (res s ! r) \<noteq> IO_RES_VOID"
    "type \<noteq> IO_VOID" "sqe_user_data sqe = i"
  shows "io_inv (record_op type user r i (submitted sqe s))"
proof -
  let ?op = "\<lparr>otype = type, ores = Some r, ouser = user\<rparr>"
  define s' where "s' = record_op type user r i (submitted sqe s)"
  have s': "ops s' = (ops s)[i := ?op]" "res s' = (res s)[r := (res s ! r)\<lparr>pending := pending (res s ! r) + 1\<rparr>]"
      "inflight s' = inflight s @ [sqe]" "cq_users s' = cq_users s" "cq_len s' = cq_len s" "cq_entries s' = cq_entries s" "cq_mask s' = cq_mask s"
      "sq_head s' = sq_tail s'" "length (sq_entries s') = length (sq_entries s)" "length (sq_array s') = length (sq_array s)" "sq_mask s' = sq_mask s"
    using io_invD(3) [OF assms(1)]
    by (simp_all add: s'_def record_op_def submitted_def upd_op_def upd_res_def Let_def cq_users_def cq_len_def cq_at_def rings_ok_def)
  have new: "in_progress ?op" using assms(6) by (simp add: in_progress_def)
  have count: "op_count s' q = op_count s q + (if q = r then 1 else 0)" for q
    using length_filter_update [OF assms(2), of "\<lambda>op. in_progress op \<and> ores op = Some q" ?op] assms(3) new by (auto simp: op_count_def s'(1))
  have "op_count s r \<le> length (ops s)" unfolding op_count_def by (rule length_filter_le)
  then have "op_count s' r < 2 ^ 16"
    using length_filter_le [of "\<lambda>op. in_progress op \<and> ores op = Some r" "ops s'"] io_invD(2) [OF assms(1)] by (simp add: op_count_def s'(1))
  moreover have p: "unat (pending (res s ! r)) = op_count s r" using io_invD(5) [OF assms(1)] assms(4) by (simp add: counts_ok_def)
  ultimately have "unat (pending (res s ! r) + 1) = op_count s r + 1" using count [of r] by (simp add: unat_word_ariths(1))
  then have "counts_ok s'" using io_invD(5) [OF assms(1)] count by (auto simp: counts_ok_def s'(2) nth_list_update)
  moreover have "ops_ok s'"
    unfolding ops_ok_def
  proof (intro allI impI)
    fix j assume j: "j < length (ops s')" "in_progress (ops s' ! j)"
    have "\<exists>q < length (res s). ores (ops s' ! j) = Some q \<and> rtype (res s ! q) \<noteq> IO_RES_VOID"
      using io_invD(4) [OF assms(1)] assms(4,5) j by (cases "j = i") (auto simp: ops_ok_def s'(1))
    then show "\<exists>q < length (res s'). ores (ops s' ! j) = Some q \<and> rtype (res s' ! q) \<noteq> IO_RES_VOID"
      by (simp add: s'(2) rtype_pending)
  qed
  moreover have "outstanding_ok s'"
  proof -
    have o: "distinct (outstanding s)" "set (outstanding s) = {j. j < length (ops s) \<and> in_progress (ops s ! j)}"
      using io_invD(6) [OF assms(1)] by (simp_all add: outstanding_ok_def)
    have "i \<notin> set (outstanding s)" using o(2) assms(3) by simp
    then have "distinct (outstanding s')" "set (outstanding s') = insert i (set (outstanding s))"
      using o(1) assms(7) by (auto simp: outstanding_def s'(3,4))
    moreover have "insert i {j. j < length (ops s) \<and> in_progress (ops s ! j)} = {j. j < length (ops s') \<and> in_progress (ops s' ! j)}"
      using assms(2) new by (auto simp: s'(1) nth_list_update)
    ultimately show ?thesis using o(2) by (simp add: outstanding_ok_def)
  qed
  moreover have "rings_ok s'" using io_invD(3) [OF assms(1)] by (simp add: rings_ok_def s'(5-11))
  ultimately show ?thesis
    using io_invD(1,2) [OF assms(1)] unfolding s'_def [symmetric] by (simp add: io_inv_def s'(1,2))
qed

text \<open>The program uses the handles of resources that are in use.\<close>

definition live_handle :: "io_context \<Rightarrow> u32 \<Rightarrow> bool" where
  "live_handle s h \<longleftrightarrow> (\<forall>r. res_from_handle s h = Some r \<longrightarrow> rtype (res s ! r) \<noteq> IO_RES_VOID)"

lemma start_op_ok:
  assumes "io_inv s" "live_handle s h" "0 \<le> ret" "type \<noteq> IO_VOID" "\<And>r i. sqe_user_data (mk r i) = i"
  shows "\<exists>ok s'. start_op ret type user h mk s = Inr (ok, s') \<and> io_inv s'"
proof (cases "res_from_handle s h = None \<or> find_unused_op s = None")
  case True
  then show ?thesis using assms(1) by (auto simp: start_op_def split: option.splits)
next
  case False
  then obtain r i where r: "res_from_handle s h = Some r" "find_unused_op s = Some i" by auto
  show ?thesis
    using record_op_inv [OF assms(1) conjunct1 [OF unused_op [OF r(2)]] conjunct2 [OF unused_op [OF r(2)]] res_from_handle_Some [OF r(1)] _ assms(4), of "mk r i" user]
      r assms start_uring_result [OF io_invD(3) [OF assms(1)] assms(3), of "mk r i"]
    by (auto simp: start_op_def live_handle_def)
qed

subsection \<open>Resources\<close>

lemma upd_res_inv:
  assumes "io_inv s" "r < length (res s)" "pending (f (res s ! r)) = pending (res s ! r)" "rgen (f (res s ! r)) \<noteq> - 1"
    "rtype (res s ! r) \<noteq> IO_RES_VOID \<longrightarrow> rtype (f (res s ! r)) \<noteq> IO_RES_VOID \<or> op_count s r = 0"
  shows "io_inv (upd_res r f s)"
proof (rule io_inv_frame [OF assms(1)])
  show "rings_ok (upd_res r f s)" using io_invD(3) [OF assms(1)] by (simp add: rings_ok_def upd_res_def cq_len_def)
  show "pending (res (upd_res r f s) ! q) = pending (res s ! q) \<and> rgen (res (upd_res r f s) ! q) \<noteq> - 1
      \<and> (rtype (res s ! q) \<noteq> IO_RES_VOID \<longrightarrow> rtype (res (upd_res r f s) ! q) \<noteq> IO_RES_VOID \<or> op_count s q = 0)"
    if "q < length (res s)" for q
    using that assms(2-5) io_invD(5) [OF assms(1)] by (auto simp: upd_res_def nth_list_update counts_ok_def)
qed (simp_all add: upd_res_def)

lemma take_res_ok:
  assumes "io_inv s" "find_unused_res s = Some r" "type \<noteq> IO_RES_VOID"
  shows "\<exists>h s'. take_res type fd r s = Inr (h, s') \<and> io_inv s' \<and> res_from_handle s' h = Some r \<and> live_handle s' h"
proof -
  note r = unused_res [OF assms(2)]
  let ?s = "upd_res r (\<lambda>r. r\<lparr>rtype := type, pending := 0, ros_handle := fd\<rparr>) s"
  have g: "rgen (res s ! r) \<noteq> - 1" using io_invD(5) [OF assms(1)] r by (simp add: counts_ok_def)
  have inv: "io_inv ?s" using upd_res_inv [OF assms(1), of r] void_no_ops [OF assms(1), of r] r g by simp
  have at: "res ?s ! r = (res s ! r)\<lparr>rtype := type, pending := 0, ros_handle := fd\<rparr>" "length (res ?s) = length (res s)" using r by (simp_all add: upd_res_def)
  obtain h where h: "handle_from_res ?s (Some r) = Inr h" "res_from_handle ?s h = Some r"
    using handle_roundtrip [of r ?s] r g at io_invD(1) [OF assms(1)] by auto
  then show ?thesis using inv at assms(3) by (auto simp: take_res_def live_handle_def)
qed

lemma shut_inv: "io_inv s \<Longrightarrow> io_inv (s\<lparr>shut := fds\<rparr>)"
  by (rule io_inv_frame) (auto simp: io_inv_def rings_ok_def counts_ok_def cq_len_def)

lemma open_ok:
  assumes "io_inv s"
  shows "\<exists>h s'. io_open_file open_os name flags s = Inr (h, s') \<and> io_inv s'"
    "\<exists>h s'. io_create_file open_os name flags s = Inr (h, s') \<and> io_inv s'"
    "\<exists>h s'. io_start_server env addr port s = Inr (h, s') \<and> io_inv s'"
proof -
  show "\<exists>h s'. io_open_file open_os name flags s = Inr (h, s') \<and> io_inv s'"
    using assms take_res_ok [OF assms, of _ IO_RES_FILE] by (auto simp: io_open_file_def Let_def split: option.splits) metis
  show "\<exists>h s'. io_create_file open_os name flags s = Inr (h, s') \<and> io_inv s'"
    using assms take_res_ok [OF assms, of _ IO_RES_FILE] by (auto simp: io_create_file_def Let_def split: option.splits) metis
  show "\<exists>h s'. io_start_server env addr port s = Inr (h, s') \<and> io_inv s'"
    using assms shut_inv [OF assms] take_res_ok [OF assms, of _ IO_RES_SOCKET] by (auto simp: io_start_server_def Let_def split: option.splits) metis+
qed

text \<open>Releasing the operations of a resource: exactly those that are in progress on it.\<close>

definition release :: "nat \<Rightarrow> io_operation \<Rightarrow> io_operation" where
  "release r op = (if in_progress op \<and> ores op = Some r then op\<lparr>otype := IO_VOID, ores := None\<rparr> else op)"

lemma map_release_rest: "filter (\<lambda>op. in_progress op \<and> ores op = Some r) xs = [] \<Longrightarrow> map (release r) xs = xs"
  by (induction xs) (auto simp: release_def split: if_splits)

lemma mark_loop_ok:
  "i \<le> length os \<Longrightarrow> left = length (filter (\<lambda>op. in_progress op \<and> ores op = Some r) (drop i os)) \<Longrightarrow>
     mark_loop r left i os = Inr (take i os @ map (release r) (drop i os))"
proof (induction r left i os rule: mark_loop.induct)
  case (1 r left i os)
  show ?case
  proof (cases "left = 0")
    case True
    then have "map (release r) (drop i os) = drop i os" using 1(4) map_release_rest by (metis length_0_conv)
    then show ?thesis using True by (simp add: mark_loop.simps)
  next
    case False
    then have i: "i < length os" using "1.prems" by (cases "i = length os") auto
    then have d: "drop i os = os ! i # drop (Suc i) os" by (simp add: Cons_nth_drop_Suc)
    show ?thesis
    proof (cases "in_progress (os ! i) \<and> ores (os ! i) = Some r")
      case True
      let ?os = "os[i := (os ! i)\<lparr>otype := IO_VOID, ores := None\<rparr>]"
      have "mark_loop r left i os = mark_loop r (left - 1) (i + 1) ?os"
        using False i True by (subst mark_loop.simps) (simp add: in_progress_def)
      also have "\<dots> = Inr (take (i + 1) ?os @ map (release r) (drop (i + 1) ?os))"
        using "1.IH"(1) [OF False i] True "1.prems"(2) i d by (simp add: in_progress_def)
      finally show ?thesis using i d True by (simp add: take_Suc_conv_app_nth release_def)
    next
      case no: False
      have "mark_loop r left i os = mark_loop r left (i + 1) os"
        using False i no by (subst mark_loop.simps) (auto simp: in_progress_def)
      also have "\<dots> = Inr (take (i + 1) os @ map (release r) (drop (i + 1) os))"
        using "1.IH"(2) [OF False i] no "1.prems"(2) i d by (auto simp: in_progress_def)
      finally show ?thesis using i d no by (auto simp: take_Suc_conv_app_nth release_def)
    qed
  qed
qed

definition closed_res :: "nat \<Rightarrow> io_context \<Rightarrow> io_context" where
  "closed_res r s = upd_res r (\<lambda>r. next_rgen (clear_res r)) (s\<lparr>shut := shut s @ [ros_handle (res s ! r)], ops := map (release r) (ops s)\<rparr>)"

lemma close_internal_counts:
  assumes "counts_ok s" "r < length (res s)"
  shows "close_internal r s = Inr (closed_res r s)"
  using mark_loop_ok [of 0 "ops s" "unat (pending (res s ! r))" r] assms
  by (simp add: close_internal_def Let_def counts_ok_def op_count_def closed_res_def)

lemma close_internal_ok:
  assumes "io_inv s" "r < length (res s)"
  shows "close_internal r s = Inr (upd_res r (\<lambda>r. next_rgen (clear_res r)) (s\<lparr>shut := shut s @ [ros_handle (res s ! r)], ops := map (release r) (ops s)\<rparr>))"
  using close_internal_counts [OF io_invD(5) [OF assms(1)] assms(2)] by (simp add: closed_res_def)

lemma next_rgen_facts: "rgen (next_rgen r) \<noteq> - 1" "rgen r \<noteq> - 1 \<Longrightarrow> rgen (next_rgen r) \<noteq> rgen r" "pending (next_rgen r) = pending r"
    "rtype (next_rgen r) = rtype r"
proof -
  show "rgen r \<noteq> - 1 \<Longrightarrow> rgen (next_rgen r) \<noteq> rgen r"
  proof (cases "rgen r + 1 = - 1")
    case True
    then have "rgen r = - 2" by (simp add: eq_diff_eq [symmetric])
    then show ?thesis by (simp add: next_rgen_def Let_def)
  next
    case False
    then show ?thesis by (simp add: next_rgen_def Let_def)
  qed
qed (simp_all add: next_rgen_def Let_def)

text \<open>Closing a resource, also under operations in progress: they are released, and what the resources count stays right.\<close>

lemma release_count:
  "length (filter (\<lambda>op. in_progress op \<and> ores op = Some q) (map (release r) os)) = (if q = r then 0 else length (filter (\<lambda>op. in_progress op \<and> ores op = Some q) os))"
  by (induction os) (auto simp: release_def in_progress_def simp del: length_filter_map)

lemma closed_res_ok:
  assumes "counts_ok s" "ops_ok s" "r < length (res s)"
  shows "counts_ok (closed_res r s)" "ops_ok (closed_res r s)" "length (res (closed_res r s)) = length (res s)" "ops (closed_res r s) = map (release r) (ops s)"
    "rtype (res (closed_res r s) ! r) = IO_RES_VOID" "pending (res (closed_res r s) ! r) = 0"
    "q \<noteq> r \<Longrightarrow> res (closed_res r s) ! q = res s ! q"
proof -
  let ?s = "closed_res r s"
  show len: "length (res ?s) = length (res s)" and o: "ops ?s = map (release r) (ops s)" by (simp_all add: closed_res_def upd_res_def)
  have at: "res ?s ! r = next_rgen (clear_res (res s ! r))" and other: "q \<noteq> r \<Longrightarrow> res ?s ! q = res s ! q" for q
    using assms(3) by (simp_all add: closed_res_def upd_res_def)
  show "rtype (res ?s ! r) = IO_RES_VOID" "pending (res ?s ! r) = 0" using at next_rgen_facts(3,4) by (simp_all add: clear_res_def)
  show "q \<noteq> r \<Longrightarrow> res ?s ! q = res s ! q" by (rule other)
  have "unat (pending (res ?s ! q)) = op_count ?s q \<and> rgen (res ?s ! q) \<noteq> - 1" if "q < length (res s)" for q
    using assms(1) that at other [of q] next_rgen_facts(1,3) by (cases "q = r") (simp_all add: counts_ok_def op_count_def o release_count clear_res_def del: length_filter_map)
  then show "counts_ok ?s" by (simp add: counts_ok_def len)
  show "ops_ok ?s"
    unfolding ops_ok_def
  proof (intro allI impI)
    fix i assume i: "i < length (ops ?s)" "in_progress (ops ?s ! i)"
    then have e: "ops ?s ! i = ops s ! i" "in_progress (ops s ! i)" "ores (ops s ! i) \<noteq> Some r" by (auto simp: o release_def in_progress_def split: if_splits)
    then obtain q where "q < length (res s)" "ores (ops s ! i) = Some q" "rtype (res s ! q) \<noteq> IO_RES_VOID" using assms(2) i(1) by (auto simp: ops_ok_def o)
    then show "\<exists>q < length (res ?s). ores (ops ?s ! i) = Some q \<and> rtype (res ?s ! q) \<noteq> IO_RES_VOID" using e other [of q] by (auto simp: len)
  qed
qed

lemma free_res_loop_ok:
  assumes "counts_ok s" "ops_ok s" "n \<le> length (res s)"
  shows "\<exists>s'. free_res_loop n s = Inr s' \<and> counts_ok s' \<and> ops_ok s' \<and> length (res s') = length (res s) \<and> (\<forall>r < n. rtype (res s' ! r) = IO_RES_VOID)"
  using assms(3)
proof (induction n)
  case (Suc n)
  then obtain s1 where s1: "free_res_loop n s = Inr s1" "counts_ok s1" "ops_ok s1" "length (res s1) = length (res s)" "\<forall>r < n. rtype (res s1 ! r) = IO_RES_VOID" by auto
  show ?case
  proof (cases "rtype (res s1 ! n) = IO_RES_VOID")
    case True
    then show ?thesis using s1 less_Suc_eq by auto
  next
    case False
    have n: "n < length (res s1)" using Suc.prems s1(4) by simp
    note c = closed_res_ok [OF s1(2,3) n]
    have "free_res_loop (Suc n) s = Inr (closed_res n s1)" using s1(1) False close_internal_counts [OF s1(2) n] by simp
    moreover have "\<forall>r < Suc n. rtype (res (closed_res n s1) ! r) = IO_RES_VOID" using c(5,7) s1(5) less_Suc_eq by metis
    ultimately show ?thesis using c(1-3) s1(4) by auto
  qed
qed (use assms in auto)

lemma close_idle_ok:
  assumes "io_inv s" "\<And>r. res_from_handle s h = Some r \<Longrightarrow> pending (res s ! r) = 0"
  shows "\<exists>s'. io_close h s = Inr s' \<and> io_inv s'"
proof (cases "res_from_handle s h")
  case None
  then show ?thesis using assms(1) by (simp add: io_close_def)
next
  case (Some r)
  have r: "r < length (res s)" by (rule res_from_handle_Some [OF Some])
  have p: "pending (res s ! r) = 0" by (rule assms(2) [OF Some])
  then have none: "op_count s r = 0" using io_invD(5) [OF assms(1)] r by (auto simp: counts_ok_def)
  then have "map (release r) (ops s) = ops s" by (intro map_release_rest) (simp add: op_count_def)
  then have eq: "io_close h s = Inr (upd_res r (\<lambda>r. next_rgen (clear_res r)) (s\<lparr>shut := shut s @ [ros_handle (res s ! r)]\<rparr>))"
    using Some close_internal_ok [OF assms(1) r] by (simp add: io_close_def)
  let ?s = "s\<lparr>shut := shut s @ [ros_handle (res s ! r)]\<rparr>"
  have "op_count ?s r = 0" using none by (simp add: op_count_def)
  then have "io_inv (upd_res r (\<lambda>r. next_rgen (clear_res r)) ?s)"
    using r p next_rgen_facts [of "clear_res (res s ! r)"] by (intro upd_res_inv [OF shut_inv [OF assms(1)]]) (auto simp: clear_res_def)
  then show ?thesis using eq by simp
qed

lemma callback_ok: "io_inv s \<Longrightarrow> io_inv (io_set_callback h f s)"
  using upd_res_inv [of s _ "\<lambda>r. r\<lparr>callback := f\<rparr>"] io_invD(5) [of s]
  by (auto simp: io_set_callback_def counts_ok_def dest: res_from_handle_Some split: option.split)

subsection \<open>Completions\<close>

lemma unat_diff_Suc:
  fixes a b :: u32
  assumes "unat (a - b) + 1 < 2 ^ 32"
  shows "unat (a + 1 - b) = Suc (unat (a - b))"
proof -
  have "a + 1 - b = (a - b) + 1" by simp
  then have "unat (a + 1 - b) = unat ((a - b) + 1)" by (rule arg_cong)
  also have "\<dots> = Suc (unat (a - b))" using assms unat_word_ariths(1) [of "a - b" 1] by simp
  finally show ?thesis .
qed

lemma kernel_complete_inv:
  assumes "io_inv s" "kernel_complete k result s = Some s'"
  shows "io_inv s'" "cq_len s' = Suc (cq_len s)" "cq_head s' = cq_head s"
proof -
  have k: "k < length (inflight s)" and room: "cq_len s < length (cq_entries s)"
    and s': "s' = s\<lparr>inflight := take k (inflight s) @ drop (Suc k) (inflight s),
        cq_entries := (cq_entries s)[unat (cq_tail s AND cq_mask s) := \<lparr>cqe_user_data = sqe_user_data (inflight s ! k), cqe_res = result\<rparr>],
        cq_tail := cq_tail s + 1\<rparr>"
    using assms(2) by (auto simp: kernel_complete_def cq_len_def split: if_splits)
  note rings = io_invD(3) [OF assms(1)]
  define n where "n = length (cq_entries s)"
  have n: "0 < n" "n < 2 ^ 32" using rings ring_index(2,3) by (auto simp: rings_ok_def n_def)
  have "cq_len s + 1 < 2 ^ 32" using room n by (simp add: n_def)
  then show len: "cq_len s' = Suc (cq_len s)"
    by (simp add: cq_len_def s' unat_diff_Suc)
  show "cq_head s' = cq_head s" by (simp add: s')
  have at: "cq_at s' i = (if i = cq_len s then \<lparr>cqe_user_data = sqe_user_data (inflight s ! k), cqe_res = result\<rparr> else cq_at s i)"
    if "i \<le> cq_len s" for i
  proof -
    have "(unat (cq_head s) + i) mod n \<noteq> (unat (cq_head s) + cq_len s) mod n" if "i \<noteq> cq_len s"
      using that \<open>i \<le> cq_len s\<close> room by (intro mod_neq) (auto simp: n_def)
    moreover have "(unat (cq_head s) + cq_len s) mod n < n" using n by simp
    ultimately show ?thesis
      using cq_index [OF rings] unfolding cq_at_def s' n_def by (auto simp: nth_list_update)
  qed
  have "cq_users s' = cq_users s @ [sqe_user_data (inflight s ! k)]"
    unfolding cq_users_def len using at by (auto intro!: map_cong)
  moreover have "map sqe_user_data (inflight s) =
      map sqe_user_data (take k (inflight s)) @ sqe_user_data (inflight s ! k) # map sqe_user_data (drop (Suc k) (inflight s))"
    by (subst id_take_nth_drop [OF k]) simp
  ultimately have "distinct (outstanding s') = distinct (outstanding s)" "set (outstanding s') = set (outstanding s)"
    unfolding outstanding_def s' by auto
  moreover have "rings_ok s'" using rings len room by (auto simp: rings_ok_def s')
  ultimately show "io_inv s'"
    using io_invD [OF assms(1)] by (simp add: io_inv_def outstanding_ok_def ops_ok_def counts_ok_def op_count_def s')
qed

lemma complete_all_inv: "io_inv s \<Longrightarrow> io_inv (complete_all cs s)"
  by (induction cs s rule: complete_all.induct) (auto split: option.split dest: kernel_complete_inv(1))

text \<open>The oldest completion belongs to an operation in progress.\<close>

lemma head_completion:
  assumes "io_inv s" "cq_head s \<noteq> cq_tail s"
  obtains i r where "cq_users s = i # tl (cq_users s)" "i < length (ops s)" "in_progress (ops s ! i)" "ores (ops s ! i) = Some r" "r < length (res s)"
    "rtype (res s ! r) \<noteq> IO_RES_VOID" "rd (cq_entries s) (unat (cq_head s AND cq_mask s)) = Inr (cq_at s 0)" "cqe_user_data (cq_at s 0) = i"
    "0 < unat (pending (res s ! r))" "rgen (res s ! r) \<noteq> - 1"
proof -
  note rings = io_invD(3) [OF assms(1)]
  have "cq_tail s - cq_head s \<noteq> 0" using assms(2) by auto
  then have len: "0 < cq_len s" unfolding cq_len_def by (metis unat_eq_zero neq0_conv)
  define i where "i = cqe_user_data (cq_at s 0)"
  have users: "cq_users s = i # tl (cq_users s)" using len by (simp add: cq_users_def i_def upt_conv_Cons)
  then have "i \<in> set (cq_users s)" by (metis list.set_intros(1))
  then have "i \<in> set (outstanding s)" by (simp add: outstanding_def)
  then have i: "i < length (ops s)" "in_progress (ops s ! i)" using io_invD(6) [OF assms(1)] by (auto simp: outstanding_ok_def)
  then obtain r where r: "r < length (res s)" "ores (ops s ! i) = Some r" "rtype (res s ! r) \<noteq> IO_RES_VOID"
    using io_invD(4) [OF assms(1)] by (auto simp: ops_ok_def)
  have "ops s ! i \<in> set (filter (\<lambda>op. in_progress op \<and> ores op = Some r) (ops s))" using i r by simp
  then have "0 < op_count s r" unfolding op_count_def by (auto simp del: set_filter dest: length_pos_if_in_set)
  then have p: "0 < unat (pending (res s ! r))" "rgen (res s ! r) \<noteq> - 1" using io_invD(5) [OF assms(1)] r by (auto simp: counts_ok_def)
  have size: "ring_size (length (cq_entries s)) (cq_mask s)" using rings by (simp add: rings_ok_def)
  have "rd (cq_entries s) (unat (cq_head s AND cq_mask s)) = Inr (cq_at s 0)"
    using ring_index0 [OF size, of "cq_head s"] ring_index(2) [OF size] by (simp add: cq_at_def)
  then show thesis using that users i r p i_def by blast
qed

text \<open>What is left when the oldest completion was taken.\<close>

definition completed :: "nat \<Rightarrow> nat \<Rightarrow> io_context \<Rightarrow> io_context" where
  "completed i r s = (upd_op i (\<lambda>op. op\<lparr>otype := IO_VOID\<rparr>) (upd_res r (\<lambda>r. r\<lparr>pending := pending r - 1\<rparr>) s))\<lparr>cq_head := cq_head s + 1\<rparr>"

lemma completed_inv:
  assumes "io_inv s" "cq_users s = i # us" "i < length (ops s)" "in_progress (ops s ! i)" "ores (ops s ! i) = Some r" "r < length (res s)"
    "0 < unat (pending (res s ! r))"
  shows "io_inv (completed i r s)" "cq_users (completed i r s) = us"
proof -
  define s' where "s' = completed i r s"
  let ?op = "(ops s ! i)\<lparr>otype := IO_VOID\<rparr>"
  have s': "ops s' = (ops s)[i := ?op]" "res s' = (res s)[r := (res s ! r)\<lparr>pending := pending (res s ! r) - 1\<rparr>]" "inflight s' = inflight s"
      "cq_entries s' = cq_entries s" "cq_tail s' = cq_tail s" "cq_head s' = cq_head s + 1" "cq_mask s' = cq_mask s" "sq_head s' = sq_head s" "sq_tail s' = sq_tail s"
      "sq_entries s' = sq_entries s" "sq_array s' = sq_array s" "sq_mask s' = sq_mask s"
    by (simp_all add: s'_def completed_def upd_op_def upd_res_def)
  have len: "cq_len s = Suc (cq_len s')"
  proof -
    have "0 < cq_len s" using assms(2) by (cases "cq_len s") (auto simp: cq_users_def)
    then have "cq_tail s - cq_head s \<noteq> 0" by (auto simp: cq_len_def)
    then have "unat (cq_tail s - cq_head s - 1) = unat (cq_tail s - cq_head s) - 1" by (rule unat_minus_one)
    then show ?thesis using \<open>0 < cq_len s\<close> by (simp add: cq_len_def s'(5,6) diff_diff_eq)
  qed
  have at: "cq_at s' j = cq_at s (Suc j)" for j
  proof -
    obtain e where "length (cq_entries s) = 2 ^ e" "e < 32" using io_invD(3) [OF assms(1)] by (auto simp: rings_ok_def ring_size_def)
    then have "length (cq_entries s) dvd 2 ^ 32" by (simp add: le_imp_power_dvd del: power_numeral)
    then have "unat (cq_head s + 1) mod length (cq_entries s) = (unat (cq_head s) + 1) mod length (cq_entries s)"
      by (simp add: unat_word_ariths(1) mod_mod_cancel)
    from mod_add_cong [OF this refl, of j]
    have "(unat (cq_head s + 1) + j) mod length (cq_entries s) = (unat (cq_head s) + Suc j) mod length (cq_entries s)" by simp
    then show ?thesis by (simp add: cq_at_def s'(4,6))
  qed
  show us: "cq_users (completed i r s) = us"
    using assms(2) unfolding s'_def [symmetric] cq_users_def len by (simp add: at upt_conv_Cons map_Suc_upt [symmetric] comp_def del: upt_Suc)
  have count: "op_count s' q + (if q = r then 1 else 0) = op_count s q" for q
    using length_filter_update [OF assms(3), of "\<lambda>op. in_progress op \<and> ores op = Some q" ?op] assms(4,5)
    by (auto simp: op_count_def s'(1) in_progress_def split: if_splits)
  have "unat (pending (res s ! r) - 1) = unat (pending (res s ! r)) - 1" using assms(7) by (intro unat_minus_one) auto
  then have r: "unat (pending (res s ! r) - 1) = op_count s' r" using io_invD(5) [OF assms(1)] count [of r] assms(6) by (simp add: counts_ok_def)
  have "counts_ok s'"
    unfolding counts_ok_def
  proof (intro allI impI)
    fix q assume "q < length (res s')"
    then show "unat (pending (res s' ! q)) = op_count s' q \<and> rgen (res s' ! q) \<noteq> - 1"
      using io_invD(5) [OF assms(1)] count [of q] assms(6) r by (cases "q = r") (simp_all add: counts_ok_def s'(2))
  qed
  moreover have "ops_ok s'"
    unfolding ops_ok_def
  proof (intro allI impI)
    fix j assume j: "j < length (ops s')" "in_progress (ops s' ! j)"
    then have "j \<noteq> i" using assms(3) by (auto simp: s'(1) in_progress_def)
    then have "\<exists>q < length (res s). ores (ops s' ! j) = Some q \<and> rtype (res s ! q) \<noteq> IO_RES_VOID"
      using io_invD(4) [OF assms(1)] j by (auto simp: ops_ok_def s'(1))
    then show "\<exists>q < length (res s'). ores (ops s' ! j) = Some q \<and> rtype (res s' ! q) \<noteq> IO_RES_VOID"
      by (simp add: s'(2) rtype_pending)
  qed
  moreover have "outstanding_ok s'"
  proof -
    have o: "distinct (outstanding s)" "set (outstanding s) = {j. j < length (ops s) \<and> in_progress (ops s ! j)}"
      using io_invD(6) [OF assms(1)] by (simp_all add: outstanding_ok_def)
    have "distinct (outstanding s')" "set (outstanding s') = set (outstanding s) - {i}"
      using o(1) us assms(2) unfolding s'_def [symmetric] by (auto simp: outstanding_def s'(3))
    moreover have "{j. j < length (ops s) \<and> in_progress (ops s ! j)} - {i} = {j. j < length (ops s') \<and> in_progress (ops s' ! j)}"
      using assms(3) by (auto simp: s'(1) nth_list_update in_progress_def)
    ultimately show ?thesis using o(2) by (simp add: outstanding_ok_def)
  qed
  moreover have "rings_ok s'" using io_invD(3) [OF assms(1)] len by (simp add: rings_ok_def s'(4,7-12))
  ultimately show "io_inv (completed i r s)"
    using io_invD(1,2) [OF assms(1)] unfolding s'_def [symmetric] by (simp add: io_inv_def s'(1,2))
qed

text \<open>The event of a completion: the kind and user pointer of the operation, and the handle of its resource.\<close>

definition event_of :: "io_operation \<Rightarrow> u32 \<Rightarrow> int \<Rightarrow> io_event \<Rightarrow> io_event" where
  "event_of op h result ev =
     (if result < 0 then ev\<lparr>evtype := IO_ABORT, optype := otype op, ehandle := h, euser := ouser op\<rparr>
      else ev\<lparr>evtype := IO_COMPLETE, optype := otype op, ehandle := h, euser := ouser op, evalue := word_of_int result\<rparr>)"

lemma take_completion_ok:
  assumes "io_inv s" "cq_head s \<noteq> cq_tail s"
  obtains i r h where "take_completion ev s = Inr (event_of (ops s ! i) h (cqe_res (cq_at s 0)) ev, completed i r s)" "cq_users s = i # tl (cq_users s)"
    "i < length (ops s)" "in_progress (ops s ! i)" "ores (ops s ! i) = Some r" "r < length (res s)" "rtype (res s ! r) \<noteq> IO_RES_VOID"
    "res_from_handle s h = Some r" "h \<noteq> IO_INVALID" "io_inv (completed i r s)" "cq_users (completed i r s) = tl (cq_users s)"
proof -
  obtain i r where c: "cq_users s = i # tl (cq_users s)" "i < length (ops s)" "in_progress (ops s ! i)" "ores (ops s ! i) = Some r" "r < length (res s)"
    "rtype (res s ! r) \<noteq> IO_RES_VOID" "rd (cq_entries s) (unat (cq_head s AND cq_mask s)) = Inr (cq_at s 0)" "cqe_user_data (cq_at s 0) = i"
    "0 < unat (pending (res s ! r))" "rgen (res s ! r) \<noteq> - 1"
    using head_completion [OF assms] by blast
  obtain h where h: "handle_from_res s (Some r) = Inr h" "res_from_handle s h = Some r" "h \<noteq> IO_INVALID"
    using handle_roundtrip [OF c(5) io_invD(1) [OF assms(1)] c(10)] by blast
  have p: "0 < pending (res s ! r)" using c(9) by (simp add: word_less_nat_alt)
  have "take_completion ev s = Inr (event_of (ops s ! i) h (cqe_res (cq_at s 0)) ev, completed i r s)"
    using c(2,3,4,8) h(1) p by (simp add: take_completion_def c(7) event_of_def completed_def Let_def in_progress_def upd_op_def upd_res_def)
  then show thesis using that c(1-6) h(2,3) completed_inv [OF assms(1) c(1-5,9)] by blast
qed

subsection \<open>The program and the kernel\<close>

text \<open>A call that waits is answered when the kernel has completed at least one operation, as its documentation says.\<close>

definition answered :: "enter_result \<Rightarrow> io_context \<Rightarrow> bool" where
  "answered enter s \<longleftrightarrow> cq_head s \<noteq> cq_tail s \<or>
     (case enter of Enter_fails \<Rightarrow> True | Enter_completes answers \<Rightarrow> cq_head (complete_all answers s) \<noteq> cq_tail (complete_all answers s))"

definition idle_handle :: "io_context \<Rightarrow> u32 \<Rightarrow> bool" where
  "idle_handle s h \<longleftrightarrow> (\<forall>r. res_from_handle s h = Some r \<longrightarrow> pending (res s ! r) = 0)"

lemma wait_internal_ok:
  assumes "io_inv s" "answered enter s"
  shows "\<exists>ev' s'. io_wait_internal enter ev s = Inr (ev', s') \<and> io_inv s'"
proof -
  have take: "\<exists>ev' s'. take_completion ev t = Inr (ev', s') \<and> io_inv s'" if t: "io_inv t" "cq_head t \<noteq> cq_tail t" for t
    by (rule take_completion_ok [OF t]) blast
  show ?thesis
    using assms take [OF assms(1)] take [OF complete_all_inv [OF assms(1)]]
    by (cases enter) (auto simp: io_wait_internal_def answered_def)
qed

inductive io_step :: "io_context \<Rightarrow> io_context \<Rightarrow> bool" where
  step_recv: "live_handle s h \<Longrightarrow> 0 \<le> ret \<Longrightarrow> io_recv ret user h dst n s = Inr (ok, s') \<Longrightarrow> io_step s s'"
| step_send: "live_handle s h \<Longrightarrow> 0 \<le> ret \<Longrightarrow> io_send ret user h src n s = Inr (ok, s') \<Longrightarrow> io_step s s'"
| step_accept: "live_handle s h \<Longrightarrow> 0 \<le> ret \<Longrightarrow> io_accept ret user h s = Inr (ok, s') \<Longrightarrow> io_step s s'"
| step_open: "io_open_file open_os name flags s = Inr (h, s') \<Longrightarrow> io_step s s'"
| step_create: "io_create_file open_os name flags s = Inr (h, s') \<Longrightarrow> io_step s s'"
| step_server: "io_start_server env addr port s = Inr (h, s') \<Longrightarrow> io_step s s'"
| step_close: "idle_handle s h \<Longrightarrow> io_close h s = Inr s' \<Longrightarrow> io_step s s'"
| step_callback: "s' = io_set_callback h f s \<Longrightarrow> io_step s s'"
| step_kernel: "kernel_complete k result s = Some s' \<Longrightarrow> io_step s s'"
| step_wait: "answered enter s \<Longrightarrow> io_wait_internal enter ev s = Inr (ev', s') \<Longrightarrow> io_step s s'"

definition io_start :: "io_context \<Rightarrow> bool" where
  "io_start s \<longleftrightarrow> (\<exists>env rs os ioc. io_init env rs os ioc = (True, s) \<and> length rs < 2 ^ 16 \<and> length os < 2 ^ 16
     \<and> (\<exists>j < 32. length (env_sqes env) = 2 ^ j) \<and> length (env_array env) = length (env_sqes env) \<and> (\<exists>j < 32. length (env_cqes env) = 2 ^ j))"

lemma io_startI:
  assumes "io_init env rs os ioc = (True, s)" "length rs < 2 ^ 16" "length os < 2 ^ 16" "length (env_sqes env) = 2 ^ j" "j < 32"
    "length (env_array env) = length (env_sqes env)" "length (env_cqes env) = 2 ^ k" "k < 32"
  shows "io_start s"
  using assms unfolding io_start_def by blast

lemma io_start_inv: "io_start s \<Longrightarrow> io_inv s"
  by (auto simp: io_start_def io_init_def io_init_linux_def Let_def io_inv_def rings_ok_def ring_size_def cq_len_def ops_ok_def in_progress_def
    counts_ok_def op_count_def clear_res_def filter_empty_conv outstanding_ok_def outstanding_def cq_users_def split: if_splits)

text \<open>Every operation of the program succeeds in every state that satisfies the invariant, and keeps it.\<close>

lemma io_ops_ok:
  assumes "io_inv s"
  shows "live_handle s h \<Longrightarrow> 0 \<le> ret \<Longrightarrow> \<exists>ok s'. io_recv ret user h addr n s = Inr (ok, s') \<and> io_inv s'"
    "live_handle s h \<Longrightarrow> 0 \<le> ret \<Longrightarrow> \<exists>ok s'. io_send ret user h addr n s = Inr (ok, s') \<and> io_inv s'"
    "live_handle s h \<Longrightarrow> 0 \<le> ret \<Longrightarrow> \<exists>ok s'. io_accept ret user h s = Inr (ok, s') \<and> io_inv s'"
    "idle_handle s h \<Longrightarrow> \<exists>s'. io_close h s = Inr s' \<and> io_inv s'"
  using assms start_op_ok [of s h ret] close_idle_ok [of s h] by (simp_all add: start_op_eqs idle_handle_def)

lemma io_step_inv:
  assumes "io_inv s" "io_step s s'"
  shows "io_inv s'"
  using assms(2)
proof cases
  case (step_recv h ret user dst n ok)
  then show ?thesis using io_ops_ok(1) [OF assms(1), of h ret user dst n] by auto
next
  case (step_send h ret user src n ok)
  then show ?thesis using io_ops_ok(2) [OF assms(1), of h ret user src n] by auto
next
  case (step_accept h ret user ok)
  then show ?thesis using io_ops_ok(3) [OF assms(1), of h ret user] by auto
next
  case (step_open open_os name flags h)
  then show ?thesis using open_ok(1) [OF assms(1), of open_os name flags] by auto
next
  case (step_create open_os name flags h)
  then show ?thesis using open_ok(2) [OF assms(1), of open_os name flags] by auto
next
  case (step_server env addr port h)
  then show ?thesis using open_ok(3) [OF assms(1), of env addr port] by auto
next
  case (step_close h)
  then show ?thesis using io_ops_ok(4) [OF assms(1), of h] by auto
next
  case (step_callback h f)
  then show ?thesis using callback_ok [OF assms(1)] by simp
next
  case (step_kernel k result)
  then show ?thesis using kernel_complete_inv(1) [OF assms(1)] by blast
next
  case (step_wait enter ev ev')
  then show ?thesis using wait_internal_ok [OF assms(1), of enter ev] by auto
qed

interpretation io: invariant_system io_start io_step io_inv
  by unfold_locales (rule io_start_inv io_step_inv; assumption)+

end
