(* ===== verification/IoClaims.thy ===== *)
theory IoClaims
  imports IoSystem
begin

section \<open>Asynchronous input and output: properties\<close>

text \<open>
  What the invariant says of the context in every state the program and the kernel can reach, what a wait delivers, and what handles name. The last part leaves the
  discipline that the step relation assumes: it shows the submission ring after four billion operations, a resource that is closed under a pending operation, and a
  submission that the kernel refuses.
\<close>

subsection \<open>Reachable contexts\<close>

text \<open>A context with two resources, two operations and rings of two entries, and the run that opens a file and starts to read from it.\<close>

definition demo_env :: uring_env where
  "demo_env = \<lparr>setup_fd = 3, single_mmap = True, map_sq = True, map_cq = True, map_sqes = True, env_array = [0, 0],
     env_sqes = replicate 2 \<lparr>opcode = IORING_OP_READ, sqe_fd = 0, sqe_addr = 0, sqe_len = 0, sqe_user_data = 0\<rparr>,
     env_cqes = replicate 2 \<lparr>cqe_user_data = 0, cqe_res = 0\<rparr>\<rparr>"

definition blank_context :: io_context where
  "blank_context = \<lparr>ioc_os_handle = 0, res = [], ops = [], sq_head = 0, sq_tail = 0, sq_mask = 0, sq_limit = 0, sq_array = [], sq_entries = [],
     cq_head = 0, cq_tail = 0, cq_mask = 0, cq_entries = [], inflight = [], shut = []\<rparr>"

definition demo_init :: "bool \<times> io_context" where
  "demo_init = io_init demo_env (replicate 2 \<lparr>rtype = IO_RES_FILE, ros_handle = 9, pending = 5, rgen = 7, callback = Some 1\<rparr>)
     (replicate 2 \<lparr>otype = IO_SEND, ores = None, ouser = 0\<rparr>) blank_context"

definition demo_context :: io_context where
  "demo_context = snd demo_init"

definition demo_open :: "(u32 \<times> io_context) res" where
  "demo_open = io_open_file (\<lambda>_ _. 4) ''data'' IO_ACCESS_RD demo_context"

definition demo_reading :: "(bool \<times> io_context) res" where
  "demo_reading = rbind demo_open (\<lambda>(h, s). io_recv 1 77 h 4096 16 s)"

definition demo_state :: io_context where
  "demo_state = snd (projr demo_reading)"

lemma demo_start: "io_start demo_context"
proof -
  have "demo_init = (True, demo_context)" by (simp add: demo_context_def demo_init_def io_init_def io_init_linux_def demo_env_def Let_def)
  moreover have "length (env_sqes demo_env) = 2 ^ 1" "length (env_cqes demo_env) = 2 ^ 1" "length (env_array demo_env) = length (env_sqes demo_env)"
    by (simp_all add: demo_env_def)
  ultimately show ?thesis unfolding demo_init_def by (intro io_startI [where j = 1 and k = 1]) auto
qed

lemma demo_runs: "demo_open = Inr (0, snd (projr demo_open))" "demo_reading = Inr (True, demo_state)"
    "io_recv 1 77 0 4096 16 (snd (projr demo_open)) = Inr (True, demo_state)" "live_handle (snd (projr demo_open)) 0"
  subgoal by code_simp
  subgoal by code_simp
  subgoal by code_simp
  subgoal unfolding live_handle_def by (intro allI impI) (code_simp, simp)
  done

definition demo_done :: io_context where
  "demo_done = the (kernel_complete 0 5 demo_state)"

definition blank_event :: io_event where
  "blank_event = \<lparr>evtype = IO_ERROR, optype = IO_VOID, ehandle = 0, euser = 0, evalue = 0\<rparr>"

lemma demo_opens: "io_open_file (\<lambda>_ _. 4) ''data'' IO_ACCESS_RD demo_context = Inr (0, snd (projr demo_open))"
  using demo_runs(1) by (simp only: demo_open_def)

lemma demo_reachable: "reachable io_start io_step demo_context" "reachable io_start io_step (snd (projr demo_open))" "reachable io_start io_step demo_state"
proof -
  show c: "reachable io_start io_step demo_context" by (rule reachable.start) (rule demo_start)
  show o: "reachable io_start io_step (snd (projr demo_open))"
    by (rule reachable.more [OF c]) (rule step_open, fact demo_opens)
  show "reachable io_start io_step demo_state"
    by (rule reachable.more [OF o]) (rule step_recv [OF demo_runs(4) _ demo_runs(3)], simp)
qed

lemma demo_done_reachable: "reachable io_start io_step demo_done"
proof -
  have "kernel_complete 0 5 demo_state = Some demo_done" by code_simp
  then show ?thesis using reachable.more [OF demo_reachable(3)] step_kernel by blast
qed

text \<open>The agreement between resources and operations.\<close>

definition structures_agree :: "io_context \<Rightarrow> bool" where
  "structures_agree s \<longleftrightarrow>
     (\<forall>r < length (res s). unat (pending (res s ! r)) = length (filter (\<lambda>op. otype op \<noteq> IO_VOID \<and> ores op = Some r) (ops s)) \<and> rgen (res s ! r) \<noteq> 65535)
     \<and> (\<forall>op \<in> set (ops s). otype op \<noteq> IO_VOID \<longrightarrow> (\<exists>r < length (res s). ores op = Some r \<and> rtype (res s ! r) \<noteq> IO_RES_VOID))"

lemma structures_agree_eq: "structures_agree s \<longleftrightarrow> counts_ok s \<and> ops_ok s"
proof -
  have m: "(65535 :: u16) = - 1" by simp
  show ?thesis unfolding structures_agree_def m ops_ok_def counts_ok_def op_count_def in_progress_def all_set_conv_all_nth by blast
qed

text \<open>C15: Consider any run of the program and the kernel in which the program starts operations on resources in use, closes a resource only when nothing is pending on it, and no submission is
refused. In every context it reaches, a resource counts in \<^verbatim>\<open>pending\<close> exactly the operations in progress on it and its generation is never the one that is reserved; an operation in progress belongs
to a resource of the array that is in use; and the operations in progress are exactly those that the kernel holds or whose completion lies in the ring, each of them once. From such a context any
resource can be closed, also with operations pending: exactly its operations are released, nothing else is touched, and resources and operations agree again.\<close>

theorem io_wellformed:
  assumes "reachable io_start io_step s"
  shows "structures_agree s
    \<and> distinct (map sqe_user_data (inflight s) @ cq_users s)
    \<and> set (map sqe_user_data (inflight s) @ cq_users s) = {i. i < length (ops s) \<and> otype (ops s ! i) \<noteq> IO_VOID}
    \<and> (\<forall>h r. res_from_handle s h = Some r \<longrightarrow> (\<exists>s'. io_close h s = Inr s' \<and> structures_agree s' \<and> rtype (res s' ! r) = IO_RES_VOID
         \<and> (\<forall>i < length (ops s). ops s' ! i = (if otype (ops s ! i) \<noteq> IO_VOID \<and> ores (ops s ! i) = Some r then (ops s ! i)\<lparr>otype := IO_VOID, ores := None\<rparr> else ops s ! i))
         \<and> (\<forall>q. q \<noteq> r \<longrightarrow> res s' ! q = res s ! q)))"
proof -
  have inv: "io_inv s" using assms by (rule io.reachable_inv)
  note c = io_invD(5) [OF inv] and o = io_invD(4) [OF inv]
  have "\<exists>s'. io_close h s = Inr s' \<and> structures_agree s' \<and> rtype (res s' ! r) = IO_RES_VOID
      \<and> (\<forall>i < length (ops s). ops s' ! i = (if otype (ops s ! i) \<noteq> IO_VOID \<and> ores (ops s ! i) = Some r then (ops s ! i)\<lparr>otype := IO_VOID, ores := None\<rparr> else ops s ! i))
      \<and> (\<forall>q. q \<noteq> r \<longrightarrow> res s' ! q = res s ! q)"
    if h: "res_from_handle s h = Some r" for h r
  proof (intro exI conjI)
    note r = res_from_handle_Some [OF h]
    show "io_close h s = Inr (closed_res r s)" using h close_internal_counts [OF c r] by (simp add: io_close_def)
    show "structures_agree (closed_res r s)" using closed_res_ok(1,2) [OF c o r] by (simp add: structures_agree_eq)
    show "rtype (res (closed_res r s) ! r) = IO_RES_VOID" by (rule closed_res_ok(5) [OF c o r])
    show "\<forall>q. q \<noteq> r \<longrightarrow> res (closed_res r s) ! q = res s ! q" using closed_res_ok(7) [OF c o r] by blast
    show "\<forall>i < length (ops s). ops (closed_res r s) ! i = (if otype (ops s ! i) \<noteq> IO_VOID \<and> ores (ops s ! i) = Some r then (ops s ! i)\<lparr>otype := IO_VOID, ores := None\<rparr> else ops s ! i)"
      by (simp add: closed_res_ok(4) [OF c o r] release_def in_progress_def)
  qed
  moreover have "structures_agree s" using c o by (simp add: structures_agree_eq)
  moreover have "distinct (map sqe_user_data (inflight s) @ cq_users s)" "set (map sqe_user_data (inflight s) @ cq_users s) = {i. i < length (ops s) \<and> otype (ops s ! i) \<noteq> IO_VOID}"
    using io_invD(6) [OF inv] by (auto simp: outstanding_ok_def outstanding_def in_progress_def)
  ultimately show ?thesis by blast
qed

theorem io_wellformed_witness:
  "reachable io_start io_step demo_state \<and> map pending (res demo_state) = [1, 0] \<and> structures_agree demo_state
   \<and> (\<exists>s'. io_close 0 demo_state = Inr s' \<and> structures_agree s' \<and> otype (ops s' ! 0) = IO_VOID)"
proof -
  have p: "map pending (res demo_state) = [1, 0]" "res_from_handle demo_state 0 = Some 0" "otype (ops demo_state ! 0) = IO_RECV" "ores (ops demo_state ! 0) = Some 0" "0 < length (ops demo_state)"
    subgoal by code_simp
    subgoal by code_simp
    subgoal by code_simp
    subgoal by code_simp
    subgoal by code_simp
    done
  then obtain s' where s': "io_close 0 demo_state = Inr s'" "structures_agree s'" "ops s' ! 0 = (ops demo_state ! 0)\<lparr>otype := IO_VOID, ores := None\<rparr>"
    using io_wellformed [OF demo_reachable(3), THEN conjunct2, THEN conjunct2, THEN conjunct2, rule_format, OF p(2)] by auto
  then show ?thesis using io_wellformed [OF demo_reachable(3)] demo_reachable(3) p(1) by auto
qed

text \<open>The callbacks of a wait, which use the same operations under the same rules, and a kernel that answers each of its calls.\<close>

definition callbacks_ok :: "(nat \<Rightarrow> io_event \<Rightarrow> io_context \<Rightarrow> io_context res) \<Rightarrow> bool" where
  "callbacks_ok cb \<longleftrightarrow> (\<forall>f ev s. \<exists>s'. cb f ev s = Inr s' \<and> io_step\<^sup>*\<^sup>* s s')"

fun all_answered :: "(nat \<Rightarrow> io_event \<Rightarrow> io_context \<Rightarrow> io_context res) \<Rightarrow> enter_result list \<Rightarrow> io_event \<Rightarrow> io_context \<Rightarrow> bool" where
  "all_answered cb [] ev s = True"
| "all_answered cb (enter # es) ev s =
     (answered enter s \<and>
      (case io_wait_internal enter ev s of
         Inl _ \<Rightarrow> True
       | Inr (ev', s1) \<Rightarrow>
           (case res_from_handle s1 (ehandle ev') of
              None \<Rightarrow> True
            | Some r \<Rightarrow>
                (case callback (res s1 ! r) of
                   None \<Rightarrow> True
                 | Some f \<Rightarrow> (case cb f ev' s1 of Inl _ \<Rightarrow> True | Inr s2 \<Rightarrow> all_answered cb es ev' s2)))))"

lemma steps_inv: "io_step\<^sup>*\<^sup>* s s' \<Longrightarrow> io_inv s \<Longrightarrow> io_inv s'"
  by (induction rule: rtranclp_induct) (auto intro: io_step_inv)

lemma wait_handle:
  assumes "io_inv s" "answered enter s" "io_wait_internal enter ev s = Inr (ev', s')" "ehandle ev' \<noteq> IO_INVALID"
  shows "res_from_handle s' (ehandle ev') \<noteq> None"
proof -
  have take: "res_from_handle s' (ehandle ev') \<noteq> None" if t: "io_inv t" "cq_head t \<noteq> cq_tail t" "take_completion ev t = Inr (ev', s')" for t
  proof -
    obtain i r h where c: "take_completion ev t = Inr (event_of (ops t ! i) h (cqe_res (cq_at t 0)) ev, completed i r t)" "r < length (res t)" "res_from_handle t h = Some r"
      by (rule take_completion_ok [OF t(1,2), where ev = ev]) blast
    then have "ehandle ev' = h" "s' = completed i r t" using t(3) by (auto simp: event_of_def)
    then show ?thesis using c(2,3) by (auto simp: completed_def upd_op_def upd_res_def res_from_handle_def Let_def nth_list_update split: if_splits)
  qed
  show ?thesis
    using assms take [OF assms(1)] take [OF complete_all_inv [OF assms(1)]]
    by (cases enter) (auto simp: io_wait_internal_def answered_def split: if_splits)
qed

lemma io_wait_ok:
  "io_inv s \<Longrightarrow> callbacks_ok cb \<Longrightarrow> all_answered cb es ev s \<Longrightarrow> \<not> isl (io_wait cb es ev s)"
proof (induction cb es ev s rule: io_wait.induct)
  case (2 cb enter es ev s)
  obtain ev' s1 where w: "io_wait_internal enter ev s = Inr (ev', s1)" "io_inv s1" using wait_internal_ok [OF "2.prems"(1), of enter ev] "2.prems"(3) by auto
  show ?case
  proof (cases "ehandle ev' = IO_INVALID")
    case False
    then obtain r where r: "res_from_handle s1 (ehandle ev') = Some r" using wait_handle [OF "2.prems"(1) _ w(1)] "2.prems"(3) by auto
    show ?thesis
    proof (cases "callback (res s1 ! r)")
      case (Some f)
      obtain s2 where s2: "cb f ev' s1 = Inr s2" "io_step\<^sup>*\<^sup>* s1 s2" using "2.prems"(2) unfolding callbacks_ok_def by blast
      have "\<not> isl (io_wait cb es ev' s2)"
        using "2.IH" w r Some s2 False steps_inv [OF s2(2) w(2)] "2.prems"(2,3) by auto
      then show ?thesis using w r Some s2 False by simp
    qed (use w r False in simp)
  qed (use w in simp)
qed simp

text \<open>C31: In every context that such a run reaches, no operation of the program crashes: no assertion on handles and pending counts fails, no index leaves an array, no null pointer is followed. This covers
starting an operation with a handle of a resource in use that the kernel does not refuse, opening and serving, closing any resource and freeing the whole context, and a wait whose calls the
kernel answers and whose callbacks keep to the same rules. (What follows after a resource was closed under a pending operation is not covered.)\<close>

theorem io_never_crashes:
  assumes "reachable io_start io_step s"
  shows "(live_handle s h \<longrightarrow> 0 \<le> ret \<longrightarrow> \<not> isl (io_recv ret user h addr n s) \<and> \<not> isl (io_send ret user h addr n s) \<and> \<not> isl (io_accept ret user h s))
    \<and> \<not> isl (io_open_file open_os name flags s) \<and> \<not> isl (io_create_file open_os name flags s) \<and> \<not> isl (io_start_server env address port s)
    \<and> \<not> isl (io_close h s) \<and> \<not> isl (io_free s)
    \<and> (callbacks_ok cb \<longrightarrow> all_answered cb es ev s \<longrightarrow> \<not> isl (io_wait cb es ev s))"
proof -
  have inv: "io_inv s" using assms by (rule io.reachable_inv)
  have "\<not> isl (io_close h s)"
    using close_internal_counts [OF io_invD(5) [OF inv]] by (auto simp: io_close_def dest: res_from_handle_Some split: option.split)
  moreover have "\<not> isl (io_free s)" using free_res_loop_ok [OF io_invD(5,4) [OF inv], of "length (res s)"] by (auto simp: io_free_def)
  ultimately show ?thesis
    using io_ops_ok(1,2) [OF inv, of h ret user addr n] io_ops_ok(3) [OF inv, of h ret user] open_ok(1,2) [OF inv, of open_os name flags] open_ok(3) [OF inv, of env address port]
      io_wait_ok [OF inv, of cb es ev]
    by auto
qed

theorem io_never_crashes_witness:
  "reachable io_start io_step demo_done \<and> live_handle demo_done 0 \<and> \<not> isl (io_send 1 5 0 4096 8 demo_done) \<and> \<not> isl (io_free demo_done)
   \<and> \<not> isl (io_wait (\<lambda>_ _. Inr) [Enter_fails] blank_event demo_done)"
proof -
  have "live_handle demo_done 0" unfolding live_handle_def by (intro allI impI) (code_simp, simp)
  moreover have "callbacks_ok (\<lambda>_ _. Inr)" by (simp add: callbacks_ok_def)
  moreover have "all_answered (\<lambda>_ _. Inr) [Enter_fails] blank_event demo_done" by code_simp
  ultimately show ?thesis
    using io_never_crashes [OF demo_done_reachable, of 0 1 5 4096 8 _ _ _ _ _ _ "\<lambda>_ _. Inr" "[Enter_fails]" blank_event] demo_done_reachable by simp
qed

text \<open>C16: A wait takes the oldest completion of the ring. The event it makes carries the kind and the user pointer of the operation that was completed, its result, and a handle
that names the resource of the operation; the operation is free again and the resource counts one less. Without a callback the event is returned to the program, else the callback is run
on it and the wait goes on.\<close>

theorem io_wait_delivers:
  assumes "reachable io_start io_step s" "cq_users s = i # us"
  shows "\<exists>r h s'. let op = ops s ! i; event = event_of op h (cqe_res (cq_at s 0)) ev in
    ores op = Some r \<and> res_from_handle s h = Some r \<and> res_from_handle s' h = Some r \<and> otype op \<noteq> IO_VOID
    \<and> cq_users s' = us \<and> ops s' = (ops s)[i := op\<lparr>otype := IO_VOID\<rparr>] \<and> res s' = (res s)[r := (res s ! r)\<lparr>pending := pending (res s ! r) - 1\<rparr>]
    \<and> io_wait cb (enter # es) ev s =
       (case callback (res s ! r) of None \<Rightarrow> Inr (Some event, s') | Some f \<Rightarrow> rbind (cb f event s') (io_wait cb es event))"
proof -
  have inv: "io_inv s" using assms(1) by (rule io.reachable_inv)
  have ne: "cq_head s \<noteq> cq_tail s" using assms(2) by (auto simp: cq_users_def cq_len_def)
  obtain j r h where c: "take_completion ev s = Inr (event_of (ops s ! j) h (cqe_res (cq_at s 0)) ev, completed j r s)" "cq_users s = j # tl (cq_users s)"
    "in_progress (ops s ! j)" "ores (ops s ! j) = Some r" "r < length (res s)" "res_from_handle s h = Some r" "h \<noteq> IO_INVALID"
    "cq_users (completed j r s) = tl (cq_users s)"
    by (rule take_completion_ok [OF inv ne, where ev = ev]) blast
  have ji: "j = i" using c(2) assms(2) by simp
  have s': "ops (completed j r s) = (ops s)[j := (ops s ! j)\<lparr>otype := IO_VOID\<rparr>]" "res (completed j r s) = (res s)[r := (res s ! r)\<lparr>pending := pending (res s ! r) - 1\<rparr>]"
    by (simp_all add: completed_def upd_op_def upd_res_def)
  have h': "res_from_handle (completed j r s) h = Some r" "callback (res (completed j r s) ! r) = callback (res s ! r)"
    using c(5,6) by (auto simp: s'(2) res_from_handle_def Let_def nth_list_update split: if_splits)
  have "io_wait cb (enter # es) ev s = (case callback (res s ! r) of None \<Rightarrow> Inr (Some (event_of (ops s ! j) h (cqe_res (cq_at s 0)) ev), completed j r s)
      | Some f \<Rightarrow> rbind (cb f (event_of (ops s ! j) h (cqe_res (cq_at s 0)) ev) (completed j r s)) (io_wait cb es (event_of (ops s ! j) h (cqe_res (cq_at s 0)) ev)))"
    using ne c(1,7) h' by (simp add: io_wait_internal_def event_of_def split: option.split)
  then show ?thesis
    using c(3-6,8) s' h' assms(2) unfolding ji Let_def in_progress_def by (intro exI [of _ r] exI [of _ h] exI [of _ "completed i r s"]) simp
qed

theorem io_wait_delivers_witness:
  "cq_users demo_done = [0] \<and> (\<exists>r h s'. io_wait (\<lambda>_ _. Inr) [Enter_fails] blank_event demo_done =
     Inr (Some \<lparr>evtype = IO_COMPLETE, optype = IO_RECV, ehandle = h, euser = 77, evalue = 5\<rparr>, s') \<and> cq_users s' = [] \<and> res_from_handle s' h = Some r)"
proof -
  have u: "cq_users demo_done = [0]" by code_simp
  have e: "event_of (ops demo_done ! 0) h (cqe_res (cq_at demo_done 0)) blank_event =
      \<lparr>evtype = IO_COMPLETE, optype = IO_RECV, ehandle = h, euser = 77, evalue = 5\<rparr>" for h
  proof -
    have "otype (ops demo_done ! 0) = IO_RECV" "ouser (ops demo_done ! 0) = 77" "cqe_res (cq_at demo_done 0) = 5"
      subgoal by code_simp
      subgoal by code_simp
      subgoal by code_simp
      done
    then show ?thesis by (simp add: event_of_def blank_event_def)
  qed
  have o: "ores (ops demo_done ! 0) = Some 0" "callback (res demo_done ! 0) = None"
    subgoal by code_simp
    subgoal by code_simp
    done
  show ?thesis
    using io_wait_delivers [OF demo_done_reachable u, of blank_event "\<lambda>_ _. Inr" Enter_fails "[]"] o u unfolding Let_def e by auto
qed

subsection \<open>Handles\<close>

text \<open>C32: A handle that opening a file returns names the resource that was free and now holds the descriptor the system gave. Closing it gives exactly that
descriptor back and frees the resource, and the handle names nothing afterwards, though the resource can be given out again.\<close>

theorem io_handle_names_file:
  assumes "reachable io_start io_step s" "io_open_file open_os name flags s = Inr (h, s')" "h \<noteq> IO_INVALID"
  shows "\<exists>r s''. let fd = open_os name (io_open_file_linux flags) in
    find_unused_res s = Some r \<and> 0 \<le> fd \<and> res_from_handle s' h = Some r \<and> rtype (res s' ! r) = IO_RES_FILE \<and> ros_handle (res s' ! r) = fd
    \<and> io_close h s' = Inr s'' \<and> shut s'' = shut s @ [fd] \<and> rtype (res s'' ! r) = IO_RES_VOID \<and> res_from_handle s'' h = None"
proof -
  have inv: "io_inv s" using assms(1) by (rule io.reachable_inv)
  let ?fd = "open_os name (io_open_file_linux flags)"
  obtain r where r: "find_unused_res s = Some r" "0 \<le> ?fd" "take_res IO_RES_FILE ?fd r s = Inr (h, s')"
    using assms(2,3) by (auto simp: io_open_file_def Let_def split: option.splits if_splits)
  have ok: "io_inv s'" "res_from_handle s' h = Some r" using take_res_ok [OF inv r(1), of IO_RES_FILE ?fd] r(3) by auto
  have s': "s' = upd_res r (\<lambda>r. r\<lparr>rtype := IO_RES_FILE, pending := 0, ros_handle := ?fd\<rparr>) s"
    using r(3) by (auto simp: take_res_def Let_def rbind_eq_Inr)
  have at: "r < length (res s)" using unused_res [OF r(1)] by simp
  then have at': "res s' ! r = (res s ! r)\<lparr>rtype := IO_RES_FILE, pending := 0, ros_handle := ?fd\<rparr>" "r < length (res s')" "shut s' = shut s"
    by (simp_all add: s' upd_res_def)
  define s'' where "s'' = upd_res r (\<lambda>r. next_rgen (clear_res r)) (s'\<lparr>shut := shut s' @ [ros_handle (res s' ! r)], ops := map (release r) (ops s')\<rparr>)"
  have c: "io_close h s' = Inr s''" using close_internal_ok [OF ok(1) at'(2)] ok(2) by (simp add: io_close_def s''_def)
  have g: "rgen (res s' ! r) \<noteq> - 1" using io_invD(5) [OF ok(1)] at'(2) by (simp add: counts_ok_def)
  have new: "res s'' ! r = next_rgen (clear_res (res s' ! r))" "length (res s'') = length (res s')" "shut s'' = shut s @ [?fd]"
    using at' by (simp_all add: s''_def upd_res_def)
  have "rgen (res s'' ! r) \<noteq> rgen (res s' ! r)" using next_rgen_facts(2) [of "clear_res (res s' ! r)"] g new(1) by (simp add: clear_res_def)
  then have "res_from_handle s'' h = None" using ok(2) new(2) by (auto simp: res_from_handle_def Let_def split: if_splits)
  then show ?thesis
    using r(1,2) ok(2) at' c new next_rgen_facts(4) by (intro exI [of _ r] exI [of _ s'']) (simp add: Let_def clear_res_def)
qed

theorem io_handle_names_file_witness:
  "0 \<noteq> IO_INVALID \<and> (\<exists>r s''. res_from_handle (snd (projr demo_open)) 0 = Some r \<and> io_close 0 (snd (projr demo_open)) = Inr s'' \<and> shut s'' = [4]
     \<and> res_from_handle s'' 0 = None)"
proof -
  have "shut demo_context = []" by code_simp
  then show ?thesis using io_handle_names_file [OF demo_reachable(1) demo_opens] by (auto simp: Let_def)
qed

text \<open>The event of a completed accept holds the descriptor of the connection where a handle belongs. If the descriptor is not below the number of resources, it names nothing: the program
cannot use the connection, and closing it does nothing.\<close>

theorem io_accepted_unusable:
  assumes "reachable io_start io_step s" "cq_users s = i # us" "otype (ops s ! i) = IO_ACCEPT"
    "int (length (res s)) \<le> cqe_res (cq_at s 0)" "cqe_res (cq_at s 0) < 2 ^ 16"
  shows "\<exists>ev' s'. io_wait_internal enter ev s = Inr (ev', s') \<and> evtype ev' = IO_COMPLETE \<and> optype ev' = IO_ACCEPT
    \<and> res_from_handle s' (evalue ev') = None \<and> io_close (evalue ev') s' = Inr s'"
proof -
  have inv: "io_inv s" using assms(1) by (rule io.reachable_inv)
  have ne: "cq_head s \<noteq> cq_tail s" using assms(2) by (auto simp: cq_users_def cq_len_def)
  let ?fd = "cqe_res (cq_at s 0)"
  obtain j r h where c: "take_completion ev s = Inr (event_of (ops s ! j) h ?fd ev, completed j r s)" "cq_users s = j # tl (cq_users s)"
    by (rule take_completion_ok [OF inv ne, where ev = ev]) blast
  have ji: "j = i" using c(2) assms(2) by simp
  have m: "(0xFFFF :: u32) = mask 16" by (simp add: mask_eq_exp_minus_1)
  have "unat (ucast (word_of_int ?fd AND 0xFFFF :: u32) :: u16) = nat ?fd"
  proof -
    have "(ucast (word_of_int ?fd AND 0xFFFF :: u32) :: u16) = word_of_int ?fd"
      unfolding m by (rule bit_word_eqI) (auto simp: bit_simps)
    then show ?thesis using assms(4,5) by (simp add: unsigned_of_int take_bit_int_eq_self)
  qed
  then have "res_from_handle (completed j r s) (word_of_int ?fd) = None"
    using assms(4) by (simp add: res_from_handle_def Let_def completed_def upd_op_def upd_res_def le_nat_iff)
  then show ?thesis using ne c(1) assms(3,4) by (simp add: io_wait_internal_def event_of_def ji io_close_def)
qed

definition demo_accepting :: io_context where
  "demo_accepting = snd (projr (io_accept 1 88 0 (snd (projr demo_open))))"

definition demo_accepted :: io_context where
  "demo_accepted = the (kernel_complete 0 5 demo_accepting)"

theorem io_accepted_unusable_witness:
  "cq_users demo_accepted = [0] \<and> (\<exists>ev' s'. io_wait_internal Enter_fails blank_event demo_accepted = Inr (ev', s') \<and> res_from_handle s' (evalue ev') = None)"
proof -
  have a: "io_accept 1 88 0 (snd (projr demo_open)) = Inr (True, demo_accepting)" by code_simp
  have c: "reachable io_start io_step demo_accepting" by (rule reachable.more [OF demo_reachable(2)]) (rule step_accept [OF demo_runs(4) _ a], simp)
  have k: "kernel_complete 0 5 demo_accepting = Some demo_accepted" by code_simp
  have r: "reachable io_start io_step demo_accepted" by (rule reachable.more [OF c]) (rule step_kernel [OF k])
  have u: "cq_users demo_accepted = [0]" "otype (ops demo_accepted ! 0) = IO_ACCEPT" "length (res demo_accepted) = 2" "cqe_res (cq_at demo_accepted 0) = 5"
    subgoal by code_simp
    subgoal by code_simp
    subgoal by code_simp
    subgoal by code_simp
    done
  then show ?thesis using io_accepted_unusable [OF r u(1,2), of Enter_fails blank_event] by auto
qed

subsection \<open>The submission ring after many operations\<close>

definition sq_state :: "io_context \<Rightarrow> u32 \<times> u32 \<times> u32" where
  "sq_state s = (sq_head s, sq_tail s, sq_limit s)"

lemma sq_state_frame [simp]:
  "sq_state (upd_res r f s) = sq_state s" "sq_state (upd_op i g s) = sq_state s" "sq_state (s\<lparr>shut := fds\<rparr>) = sq_state s" "sq_state (s\<lparr>ops := os\<rparr>) = sq_state s"
  "sq_state (s\<lparr>cq_head := n\<rparr>) = sq_state s"
  by (simp_all add: sq_state_def upd_res_def upd_op_def)

lemma complete_all_sq: "sq_state (complete_all answers s) = sq_state s"
proof (induction answers s rule: complete_all.induct)
  case (2 k result rest s)
  have "sq_state s' = sq_state s" if "kernel_complete k result s = Some s'" for s'
    using that by (auto simp: kernel_complete_def sq_state_def split: if_splits)
  then show ?case using 2 by (auto split: option.split)
qed simp

lemma take_completion_sq: "take_completion ev s = Inr (ev', s') \<Longrightarrow> sq_state s' = sq_state s"
  by (auto simp: take_completion_def rbind_eq_Inr Let_def)

definition stalled :: "io_context \<Rightarrow> bool" where
  "stalled s \<longleftrightarrow> sq_head s + sq_limit s \<le> sq_tail s"

lemma start_op_stalled: "stalled s \<Longrightarrow> start_op ret type user h mk s = Inr (False, s)"
  by (simp add: start_op_def start_uring_op_def stalled_def split: option.split)

lemma stalled_step:
  assumes "stalled s" "io_step s s'"
  shows "stalled s'"
proof -
  have "sq_state s' = sq_state s"
    using assms(2)
  proof cases
    case (step_wait enter ev ev')
    then show ?thesis
      using take_completion_sq complete_all_sq by (auto simp: io_wait_internal_def split: if_splits enter_result.splits)
  next
    case (step_kernel k result)
    then show ?thesis using complete_all_sq [of "[(k, result)]" s] by simp
  qed (use start_op_stalled [OF assms(1)] in \<open>auto simp: start_op_eqs io_open_file_def io_create_file_def io_start_server_def take_res_def io_close_def close_internal_def
      io_set_callback_def rbind_eq_Inr Let_def split: option.splits if_splits\<close>)
  then show ?thesis using assms(1) by (simp add: stalled_def sq_state_def)
qed

text \<open>C39: The check for a full submission ring compares positions that wrap around. When the tail has come so close to \<^verbatim>\<open>2^32\<close> that adding the size of the ring overflows, the
ring is taken for full though the kernel has emptied it, and since the kernel cannot move a position of an empty ring, no operation can be started any more, whatever the program does.\<close>

theorem io_submission_stalls:
  assumes "io_inv s" "2 ^ 32 \<le> unat (sq_tail s) + unat (sq_limit s)" "io_step\<^sup>*\<^sup>* s s'"
  shows "sq_head s = sq_tail s \<and> io_recv ret user h addr n s' = Inr (False, s') \<and> io_send ret user h addr n s' = Inr (False, s') \<and> io_accept ret user h s' = Inr (False, s')"
proof -
  have e: "sq_head s = sq_tail s" using io_invD(3) [OF assms(1)] by (simp add: rings_ok_def)
  have "unat (sq_tail s + sq_limit s) = unat (sq_tail s) + unat (sq_limit s) - 2 ^ 32"
    using assms(2) unsigned_less [of "sq_tail s", where 'a = nat] unsigned_less [of "sq_limit s", where 'a = nat] by (simp add: unat_word_ariths(1) le_mod_geq)
  then have "stalled s" using e unsigned_less [of "sq_limit s", where 'a = nat] by (simp add: stalled_def word_le_nat_alt)
  with assms(3) have "stalled s'" by (induction rule: rtranclp_induct) (auto intro: stalled_step)
  then show ?thesis using e start_op_stalled by (simp add: start_op_eqs)
qed

definition demo_stalled :: io_context where
  "demo_stalled = demo_context\<lparr>sq_head := - 2, sq_tail := - 2\<rparr>"

theorem io_submission_stalls_witness:
  "2 ^ 32 \<le> unat (sq_tail demo_stalled) + unat (sq_limit demo_stalled) \<and> io_recv 1 77 0 4096 16 demo_stalled = Inr (False, demo_stalled)"
proof -
  have "io_inv demo_context" by (rule io_start_inv [OF demo_start])
  then have "io_inv demo_stalled"
    by (rule io_inv_frame) (use \<open>io_inv demo_context\<close> in \<open>auto simp: demo_stalled_def io_inv_def rings_ok_def counts_ok_def cq_len_def\<close>)
  moreover have "sq_limit demo_context = 2" by code_simp
  then have "2 ^ 32 \<le> unat (sq_tail demo_stalled) + unat (sq_limit demo_stalled)" by (simp add: demo_stalled_def)
  ultimately show ?thesis using io_submission_stalls [of demo_stalled demo_stalled] by blast
qed

subsection \<open>Closing under a pending operation\<close>

text \<open>C40: Closing a resource frees the operations in progress on it, but the kernel still holds them. When the first of them is completed, the wait follows the pointer to the resource that
closing has cleared, whatever the result of the operation is: the program crashes.\<close>

theorem io_close_pending_crashes:
  assumes "reachable io_start io_step s" "res_from_handle s h = Some r" "cq_users s = []" "k < length (inflight s)"
    "ores (ops s ! sqe_user_data (inflight s ! k)) = Some r"
  shows "\<exists>s'. io_close h s = Inr s' \<and> pending (res s' ! r) = 0 \<and> io_wait cb (Enter_completes [(k, result)] # es) ev s' = Inl Null_pointer"
proof -
  have inv: "io_inv s" using assms(1) by (rule io.reachable_inv)
  note r = res_from_handle_Some [OF assms(2)]
  let ?i = "sqe_user_data (inflight s ! k)"
  have "?i \<in> set (outstanding s)" using assms(4) by (simp add: outstanding_def)
  then have i: "?i < length (ops s)" "in_progress (ops s ! ?i)" using io_invD(6) [OF inv] by (auto simp: outstanding_ok_def)
  define s' where "s' = upd_res r (\<lambda>r. next_rgen (clear_res r)) (s\<lparr>shut := shut s @ [ros_handle (res s ! r)], ops := map (release r) (ops s)\<rparr>)"
  have c: "io_close h s = Inr s'" using close_internal_ok [OF inv r] assms(2) by (simp add: io_close_def s'_def)
  have s': "inflight s' = inflight s" "cq_head s' = cq_head s" "cq_tail s' = cq_tail s" "cq_mask s' = cq_mask s" "cq_entries s' = cq_entries s"
      "ops s' = map (release r) (ops s)"
    by (simp_all add: s'_def upd_res_def)
  have e: "cq_head s = cq_tail s" using assms(3) by (simp add: cq_users_def cq_len_def unat_eq_zero)
  have size: "ring_size (length (cq_entries s)) (cq_mask s)" using io_invD(3) [OF inv] by (simp add: rings_ok_def)
  have at: "unat (cq_tail s AND cq_mask s) < length (cq_entries s)" using ring_index0 [OF size] ring_index(2) [OF size] by simp
  have n: "0 < length (cq_entries s)" by (rule ring_index(2) [OF size])
  have "ores (release r (ops s ! ?i)) = None" using i(2) assms(5) by (simp add: release_def)
  then have "take_completion ev (complete_all [(k, result)] s') = Inl Null_pointer"
    using assms(4) at i(1) n e by (simp add: kernel_complete_def s' take_completion_def handle_from_res_def)
  then have "io_wait cb (Enter_completes [(k, result)] # es) ev s' = Inl Null_pointer" using e by (simp add: io_wait_internal_def s')
  moreover have "pending (res s' ! r) = 0" using r by (simp add: s'_def upd_res_def next_rgen_facts(3) clear_res_def)
  ultimately show ?thesis using c by blast
qed

theorem io_close_pending_crashes_witness:
  "res_from_handle demo_state 0 = Some 0 \<and> (\<exists>s'. io_close 0 demo_state = Inr s' \<and>
     io_wait (\<lambda>_ _. Inr) [Enter_completes [(0, - 125)]] blank_event s' = Inl Null_pointer)"
proof -
  have "res_from_handle demo_state 0 = Some 0" "cq_users demo_state = []" "0 < length (inflight demo_state)"
    "ores (ops demo_state ! sqe_user_data (inflight demo_state ! 0)) = Some 0"
    subgoal by code_simp
    subgoal by code_simp
    subgoal by code_simp
    subgoal by code_simp
    done
  then show ?thesis using io_close_pending_crashes [OF demo_reachable(3), of 0 0 0] by blast
qed

subsection \<open>Submissions that the kernel refuses\<close>

text \<open>When entering the kernel fails, the caller is told that the operation was not started, but its entry stays in the submission ring: the next operation that is started
successfully hands the kernel this old entry and leaves its own in the ring, one behind.\<close>

theorem io_refused_submission_lags:
  assumes "rings_ok s" "2 \<le> length (sq_entries s)" "sq_tail s + 1 < sq_tail s + sq_limit s" "sq_tail s < sq_tail s + 1" "ret < 0" "0 \<le> ret'"
  shows "\<exists>s1 s2. start_uring_op ret old s = Inr (False, s1) \<and> start_uring_op ret' new s1 = Inr (True, s2)
    \<and> inflight s1 = inflight s \<and> inflight s2 = inflight s @ [old] \<and> sq_tail s2 = sq_head s2 + 1"
proof -
  let ?n = "length (sq_entries s)"
  let ?i = "unat (sq_tail s AND sq_mask s)" and ?j = "unat ((sq_tail s + 1) AND sq_mask s)"
  have size: "ring_size ?n (sq_mask s)" "length (sq_array s) = ?n" "sq_head s = sq_tail s" using assms(1) by (simp_all add: rings_ok_def)
  have i: "?i = unat (sq_tail s) mod ?n" by (rule ring_index0 [OF size(1)])
  have j: "?j = (unat (sq_tail s) + 1) mod ?n" using ring_index(1) [OF size(1), of "sq_tail s" 1] by simp
  have b: "?i < ?n" "?j < ?n" using i j ring_index(2) [OF size(1)] by simp_all
  have "?i \<noteq> ?j" using mod_neq [of "unat (sq_tail s)" "unat (sq_tail s) + 1" ?n] assms(2) unfolding i j by simp
  moreover have "\<not> sq_tail s + sq_limit s \<le> sq_tail s" "\<not> sq_tail s + sq_limit s \<le> sq_tail s + 1" using assms(3,4) by auto
  ultimately show ?thesis
    using b size(2,3) assms(5,6) by (simp add: start_uring_op_def io_uring_enter_def Let_def)
qed

theorem io_refused_submission_lags_witness:
  "\<exists>s1 s2. start_uring_op (- 1) \<lparr>opcode = IORING_OP_READ, sqe_fd = 4, sqe_addr = 0, sqe_len = 1, sqe_user_data = 0\<rparr> demo_context = Inr (False, s1)
    \<and> start_uring_op 1 \<lparr>opcode = IORING_OP_WRITE, sqe_fd = 5, sqe_addr = 0, sqe_len = 1, sqe_user_data = 0\<rparr> s1 = Inr (True, s2)
    \<and> inflight s2 = [\<lparr>opcode = IORING_OP_READ, sqe_fd = 4, sqe_addr = 0, sqe_len = 1, sqe_user_data = 0\<rparr>]"
proof -
  have "length (sq_entries demo_context) = 2" "sq_tail demo_context = 0" "sq_limit demo_context = 2" "inflight demo_context = []"
    subgoal by code_simp
    subgoal by code_simp
    subgoal by code_simp
    subgoal by code_simp
    done
  then show ?thesis
    using io_refused_submission_lags [OF io_invD(3) [OF io_start_inv [OF demo_start]], of "- 1" 1] by simp blast
qed

end
