(* ===== verification/SqlUtils.thy ===== *)
theory SqlUtils
  imports Prelude
begin

section \<open>Prepared SQL statements (\<^verbatim>\<open>misc/sqlite3_utils.c\<close>)\<close>

text \<open>
  A statement is written as a format in which \<^verbatim>\<open>:i\<close>, \<^verbatim>\<open>:s\<close> and \<^verbatim>\<open>:x\<close> stand for an integer, a string and a blob that follow as arguments. The format is
  turned into the text of a statement with question marks, which the SQLite library prepares; then the arguments are bound. The library is an argument of the model: the record \<open>sqlite\<close>
  holds what preparing, binding and stepping answer. A string is a list of characters without the null character that ends it, and \<^verbatim>\<open>va_arg\<close> takes the next
  argument; taking one that is not there or has another type has no meaning in C and is a fault. How many statements were made and finalized is kept in \<open>sql_log\<close>, the messages are left out.
\<close>

declare rbind_cong [fundef_cong]

subsection \<open>The library\<close>

datatype sql_value = SQL_int int | SQL_text "string option" | SQL_blob "nat option" u64

datatype sql_code = SQLITE_OK | SQLITE_ROW | SQLITE_DONE | SQLITE_FAILS

text \<open>Preparing fails (\<open>None\<close>) or gives a statement, which is \<^verbatim>\<open>NULL\<close> for a text without a command. A \<^verbatim>\<open>NULL\<close> statement cannot be bound or stepped.\<close>

record 'st sqlite =
  sqlite3_prepare :: "string \<Rightarrow> 'st option option"
  sqlite3_bind :: "'st \<Rightarrow> nat \<Rightarrow> sql_value \<Rightarrow> 'st option"
  sqlite3_step :: "'st \<Rightarrow> sql_code"
  sqlite3_column :: "'st \<Rightarrow> char \<Rightarrow> nat \<Rightarrow> sql_value"

record sql_log =
  prepared :: nat
  finalized :: nat

definition bind_stmt :: "'st sqlite \<Rightarrow> 'st option \<Rightarrow> nat \<Rightarrow> sql_value \<Rightarrow> 'st option option" where
  "bind_stmt db stmt i v = (case stmt of None \<Rightarrow> None | Some st \<Rightarrow> map_option Some (sqlite3_bind db st i v))"

text \<open>\<^verbatim>\<open>sqlite3_finalize\<close> does nothing to a \<^verbatim>\<open>NULL\<close> statement, and \<^verbatim>\<open>sqlite3_prepare_v2\<close> makes none then.\<close>

definition count_prepared :: "'st option \<Rightarrow> sql_log \<Rightarrow> sql_log" where
  "count_prepared stmt log = (case stmt of None \<Rightarrow> log | Some _ \<Rightarrow> log\<lparr>prepared := prepared log + 1\<rparr>)"

definition finalize_stmt :: "'st option \<Rightarrow> sql_log \<Rightarrow> sql_log" where
  "finalize_stmt stmt log = (case stmt of None \<Rightarrow> log | Some _ \<Rightarrow> log\<lparr>finalized := finalized log + 1\<rparr>)"

subsection \<open>The text of a statement\<close>

definition is_type :: "char \<Rightarrow> bool" where
  "is_type t \<longleftrightarrow> t = CHR ''i'' \<or> t = CHR ''s'' \<or> t = CHR ''x''"

text \<open>The loop over the parameters. The two arrays are the local buffers \<^verbatim>\<open>buffer\<close> and \<^verbatim>\<open>params\<close>; \<open>None\<close> is the return of \<^verbatim>\<open>NULL\<close>.\<close>

function param_loop :: "string \<Rightarrow> nat \<Rightarrow> string \<Rightarrow> nat \<Rightarrow> string \<Rightarrow> nat \<Rightarrow> (string \<times> nat \<times> string \<times> nat) option res" where
  "param_loop fmt cur buffer copied params num_params =
     rbind (rd fmt cur) (\<lambda>c.
     rbind (c_assert (c = CHR '':'')) (\<lambda>_.
       if cur + 1 = length fmt then Inr None
       else
         rbind (rd fmt (cur + 1)) (\<lambda>t.
           if \<not> is_type t then Inr None
           else if num_params = length params then Inr None
           else
             rbind (wr params num_params t) (\<lambda>params.
               if copied + 1 \<ge> length buffer then Inr None
               else
                 rbind (wr buffer copied (CHR ''?'')) (\<lambda>buffer.
                   let save = cur + 2;
                       copied = copied + 1;
                       cur = skip_while (\<lambda>c. c \<noteq> CHR '':'') fmt save;
                       copying = cur - save
                   in if copied + copying \<ge> length buffer then Inr None
                      else
                        rbind (memcpy buffer copied (chunk fmt save copying)) (\<lambda>buffer.
                          if cur < length fmt then param_loop fmt cur buffer (copied + copying) params (num_params + 1)
                          else Inr (Some (buffer, copied + copying, params, num_params + 1))))))))"
  by pat_completeness auto
termination
proof (relation "measure (\<lambda>(fmt, cur, _). length fmt - cur)", goal_cases)
  case (2 fmt cur)
  have "cur < skip_while (\<lambda>c. c \<noteq> CHR '':'') fmt (cur + 2)" by (rule less_le_trans [OF _ skip_while_ge]) simp
  then show ?case using 2 by (auto intro: diff_less_mono2 simp: rd_eq_Inr)
qed simp

declare param_loop.simps [simp del]

definition SQL_TEXT_MAX :: nat where "SQL_TEXT_MAX = 1024"
definition SQL_PARAMS_MAX :: nat where "SQL_PARAMS_MAX = 8"

text \<open>The first half of \<^verbatim>\<open>vprep\<close>: the text to prepare and the types of the parameters. The arrays hold anything at the start.\<close>

definition prep_text :: "string \<Rightarrow> string \<Rightarrow> string \<Rightarrow> (string \<times> string) option res" where
  "prep_text buffer params fmt =
     (let cur = skip_while (\<lambda>c. c \<noteq> CHR '':'') fmt 0 in
      if cur = length fmt then Inr (Some (fmt, []))
      else if cur \<ge> length buffer then Inr None
      else
        rbind (memcpy buffer 0 (chunk fmt 0 cur)) (\<lambda>buffer.
        rbind (param_loop fmt cur buffer cur params 0) (\<lambda>r.
          case r of
            None \<Rightarrow> Inr None
          | Some (buffer, copied, params, num_params) \<Rightarrow>
              rbind (c_assert (copied < length buffer)) (\<lambda>_.
              rbind (wr buffer copied (CHR 0x00)) (\<lambda>buffer.
                Inr (Some (take copied buffer, take num_params params)))))))"

subsection \<open>Binding\<close>

fun type_of_value :: "sql_value \<Rightarrow> char" where
  "type_of_value (SQL_int _) = CHR ''i''"
| "type_of_value (SQL_text _) = CHR ''s''"
| "type_of_value (SQL_blob _ _) = CHR ''x''"

definition va_next :: "char \<Rightarrow> sql_value list \<Rightarrow> (sql_value \<times> sql_value list) res" where
  "va_next t args =
     (case args of
        [] \<Rightarrow> Inl Out_of_bounds
      | v # vs \<Rightarrow>
          if t = type_of_value v then Inr (v, vs) else Inl Out_of_bounds)"

fun bind_loop :: "'st sqlite \<Rightarrow> string \<Rightarrow> nat \<Rightarrow> sql_value list \<Rightarrow> 'st option \<Rightarrow> 'st option option res" where
  "bind_loop db [] i args stmt = Inr (Some stmt)"
| "bind_loop db (t # ts) i args stmt =
     rbind (va_next t args) (\<lambda>(v, args).
       case bind_stmt db stmt (i + 1) v of
         None \<Rightarrow> Inr None
       | Some stmt \<Rightarrow> bind_loop db ts (i + 1) args stmt)"

definition vprep :: "string \<Rightarrow> string \<Rightarrow> 'st sqlite \<Rightarrow> string \<Rightarrow> sql_value list \<Rightarrow> sql_log \<Rightarrow> ('st option \<times> sql_log) res" where
  "vprep buffer params db fmt args log =
     rbind (prep_text buffer params fmt) (\<lambda>r.
       case r of
         None \<Rightarrow> Inr (None, log)
       | Some (stmt_str, types) \<Rightarrow>
           (case sqlite3_prepare db stmt_str of
              None \<Rightarrow> Inr (None, log)
            | Some stmt \<Rightarrow>
                let log = count_prepared stmt log in
                rbind (bind_loop db types 0 args stmt) (\<lambda>r.
                  case r of
                    None \<Rightarrow> Inr (None, finalize_stmt stmt log)
                  | Some stmt \<Rightarrow> Inr (stmt, log))))"

subsection \<open>The functions of the interface\<close>

definition sqlite3UtilsPrepare :: "string \<Rightarrow> string \<Rightarrow> 'st sqlite \<Rightarrow> string \<Rightarrow> sql_value list \<Rightarrow> sql_log \<Rightarrow> ('st option \<times> sql_log) res" where
  "sqlite3UtilsPrepare = vprep"

definition sqlite3UtilsExec :: "string \<Rightarrow> string \<Rightarrow> 'st sqlite \<Rightarrow> string \<Rightarrow> sql_value list \<Rightarrow> sql_log \<Rightarrow> (bool \<times> sql_log) res" where
  "sqlite3UtilsExec buffer params db fmt args log =
     rbind (vprep buffer params db fmt args log) (\<lambda>(stmt, log).
       case stmt of
         None \<Rightarrow> Inr (False, log)
       | Some st \<Rightarrow>
           if sqlite3_step db st \<noteq> SQLITE_DONE then Inr (False, finalize_stmt stmt log)
           else Inr (True, finalize_stmt stmt log))"

definition sqlite3UtilsRowsExist :: "string \<Rightarrow> string \<Rightarrow> 'st sqlite \<Rightarrow> string \<Rightarrow> sql_value list \<Rightarrow> sql_log \<Rightarrow> (int \<times> sql_log) res" where
  "sqlite3UtilsRowsExist buffer params db fmt args log =
     rbind (vprep buffer params db fmt args log) (\<lambda>(stmt, log).
       case stmt of
         None \<Rightarrow> Inr (- 1, log)
       | Some st \<Rightarrow>
           let step = sqlite3_step db st in
           if step = SQLITE_DONE then Inr (1, finalize_stmt stmt log)
           else if step = SQLITE_ROW then Inr (0, finalize_stmt stmt log)
           else Inr (- 1, finalize_stmt stmt log))"

text \<open>\<^verbatim>\<open>sqlite3UtilsFetch\<close>: the result and what was stored through the pointers that were passed, in order.\<close>

fun fetch_loop :: "(char \<Rightarrow> nat \<Rightarrow> sql_value) \<Rightarrow> string \<Rightarrow> nat \<Rightarrow> sql_value list \<Rightarrow> int \<times> sql_value list" where
  "fetch_loop column [] i stored = (0, stored)"
| "fetch_loop column (t # ts) i stored =
     (if is_type t then fetch_loop column ts (i + 1) (stored @ [column t i]) else (- 1, stored))"

definition sqlite3UtilsFetch :: "'st sqlite \<Rightarrow> 'st \<Rightarrow> string \<Rightarrow> int \<times> sql_value list" where
  "sqlite3UtilsFetch db st types =
     (let step = sqlite3_step db st in
      if step = SQLITE_DONE then (1, [])
      else if step \<noteq> SQLITE_ROW then (- 1, [])
      else fetch_loop (sqlite3_column db st) types 0 [])"

subsection \<open>The text, character by character\<close>

text \<open>What the two scanning loops compute, without buffers and limits.\<close>

fun subst_params :: "string \<Rightarrow> (string \<times> string) option" where
  "subst_params [] = Some ([], [])"
| "subst_params (c # rest) =
     (if c = CHR '':'' then
        case rest of
          [] \<Rightarrow> None
        | t # rest' \<Rightarrow> if is_type t then map_option (\<lambda>(text, types). (CHR ''?'' # text, t # types)) (subst_params rest') else None
      else map_option (\<lambda>(text, types). (c # text, types)) (subst_params rest))"

lemma subst_plain:
  "\<forall>c \<in> set xs. c \<noteq> CHR '':'' \<Longrightarrow> subst_params (xs @ ys) = map_option (\<lambda>(text, types). (xs @ text, types)) (subst_params ys)"
  by (induction xs) (auto simp: option.map_comp comp_def case_prod_unfold option.map_ident)

lemma blit_blit: "off \<le> length dst \<Longrightarrow> off + length xs + length ys \<le> length dst \<Longrightarrow> blit (blit dst off xs) (off + length xs) ys = blit dst off (xs @ ys)"
  by (simp add: blit_def ac_simps)

lemma list_update_blit: "i < length xs \<Longrightarrow> xs[i := x] = blit xs i [x]"
  by (simp add: blit_def upd_conv_take_nth_drop)

lemma next_colon:
  assumes "n \<le> length fmt"
  defines "m \<equiv> skip_while (\<lambda>c. c \<noteq> CHR '':'') fmt n"
  shows "drop n fmt = chunk fmt n (m - n) @ drop m fmt" "\<forall>c \<in> set (chunk fmt n (m - n)). c \<noteq> CHR '':''" "n \<le> m" "m \<le> length fmt" "m < length fmt \<Longrightarrow> fmt ! m = CHR '':''"
proof -
  have m: "m = n + length (takeWhile (\<lambda>c. c \<noteq> CHR '':'') (drop n fmt))" unfolding m_def by (rule skip_while_eq [OF assms(1)])
  have c: "chunk fmt n (m - n) = takeWhile (\<lambda>c. c \<noteq> CHR '':'') (drop n fmt)" by (simp add: chunk_def m flip: takeWhile_eq_take)
  have "drop m fmt = dropWhile (\<lambda>c. c \<noteq> CHR '':'') (drop n fmt)" by (simp add: m dropWhile_eq_drop add.commute)
  then show "drop n fmt = chunk fmt n (m - n) @ drop m fmt" using c by simp
  show "\<forall>c \<in> set (chunk fmt n (m - n)). c \<noteq> CHR '':''" using c by (auto dest: set_takeWhileD)
  show "n \<le> m" "m \<le> length fmt" using assms(1) by (simp_all add: m_def)
  show "m < length fmt \<Longrightarrow> fmt ! m = CHR '':''" unfolding m_def using skip_while_stop by fastforce
qed

definition within :: "string \<Rightarrow> nat \<Rightarrow> string \<Rightarrow> nat \<Rightarrow> (string \<times> string) option \<Rightarrow> (string \<times> nat \<times> string \<times> nat) option" where
  "within buffer copied params num r =
     (case r of
        None \<Rightarrow> None
      | Some (text, types) \<Rightarrow>
          if num + length types \<le> length params \<and> copied + length text < length buffer
          then Some (blit buffer copied text, copied + length text, blit params num types, num + length types) else None)"

lemma within_after:
  assumes "num < length params" "copied + 1 + length seg < length buffer"
  shows "within (blit (buffer[copied := x]) (copied + 1) seg) (copied + 1 + length seg) (params[num := t]) (num + 1) r
    = within buffer copied params num (map_option (\<lambda>(text, types). (x # seg @ text, t # types)) r)"
proof -
  have b: "blit (blit (buffer[copied := x]) (copied + 1) seg) (copied + 1 + length seg) body = blit buffer copied (x # seg @ body)"
    if "copied + 1 + length seg + length body \<le> length buffer" for body
    using that blit_blit [of copied buffer "[x]" seg] blit_blit [of copied buffer "x # seg" body] by (simp add: list_update_blit)
  have p: "blit (params[num := t]) (num + 1) types = blit params num (t # types)" if "num + 1 + length types \<le> length params" for types
    using that blit_blit [of num params "[t]" types] by (simp add: list_update_blit)
  show ?thesis
  proof (cases r)
    case (Some tt)
    obtain body types where tt: "tt = (body, types)" by fastforce
    show ?thesis using b [of body] p [of types] assms unfolding within_def Some tt by (auto simp: ac_simps)
  qed (simp add: within_def)
qed

lemma param_loop_eq:
  "cur < length fmt \<Longrightarrow> fmt ! cur = CHR '':'' \<Longrightarrow> copied < length buffer \<Longrightarrow> num \<le> length params \<Longrightarrow>
     param_loop fmt cur buffer copied params num = Inr (within buffer copied params num (subst_params (drop cur fmt)))"
proof (induction "length fmt - cur" arbitrary: cur buffer copied params num rule: less_induct)
  case less
  note prems = less(2-5)
  show ?case
  proof (cases "cur + 1 = length fmt")
    case True
    then have "drop cur fmt = [CHR '':'']" using prems(1,2) Cons_nth_drop_Suc [OF prems(1)] by simp
    then show ?thesis using True prems by (subst param_loop.simps) (simp add: within_def)
  next
    case False
    then have n: "cur + 1 < length fmt" using prems(1) by simp
    define t where "t = fmt ! Suc cur"
    have d: "drop cur fmt = CHR '':'' # t # drop (Suc (Suc cur)) fmt"
      using Cons_nth_drop_Suc [OF prems(1)] Cons_nth_drop_Suc [OF n] prems(2) by (simp add: t_def)
    define m where "m = skip_while (\<lambda>c. c \<noteq> CHR '':'') fmt (Suc (Suc cur))"
    define seg where "seg = chunk fmt (Suc (Suc cur)) (m - (Suc (Suc cur)))"
    have le: "Suc (Suc cur) \<le> length fmt" using n by simp
    note m = next_colon [OF le, folded m_def, folded seg_def]
    have len: "length seg = m - (Suc (Suc cur))" using m(3,4) by (simp add: seg_def)
    have seg: "chunk fmt (Suc (Suc cur)) (length seg) = seg" "copied + m - Suc cur = Suc (copied + length seg)" using m(3) by (simp_all add: len, simp add: seg_def)
    have s: "subst_params (drop cur fmt) = (if is_type t then map_option (\<lambda>(text, types). (CHR ''?'' # seg @ text, t # types)) (subst_params (drop m fmt)) else None)"
      unfolding d m(1) using subst_plain [OF m(2), of "drop m fmt"] by (simp add: option.map_comp comp_def case_prod_unfold)
    show ?thesis
    proof (cases "is_type t \<and> num < length params \<and> Suc copied + length seg < length buffer")
      case True
      let ?b = "blit (buffer[copied := CHR ''?'']) (Suc copied) seg" and ?p = "params[num := t]"
      have c: "memcpy (buffer[copied := CHR ''?'']) (Suc copied) seg = Inr ?b" using True by (simp add: memcpy_def)
      have "param_loop fmt cur buffer copied params num =
          (if m < length fmt then param_loop fmt m ?b (Suc copied + length seg) ?p (num + 1) else Inr (Some (?b, Suc copied + length seg, ?p, num + 1)))"
        using True prems n c by (subst param_loop.simps) (simp add: t_def [symmetric] m_def [symmetric] len [symmetric] seg Let_def)
      also have "\<dots> = Inr (within ?b (Suc copied + length seg) ?p (num + 1) (subst_params (drop m fmt)))"
        using less(1) [of m "Suc copied + length seg" ?b "num + 1" ?p] m(3-5) True prems(1) by (auto simp: within_def)
      finally show ?thesis using within_after [of num params copied seg buffer "CHR ''?''" t] True s by simp
    next
      case False
      then have "within buffer copied params num (subst_params (drop cur fmt)) = None"
        unfolding s within_def by (auto split: option.splits)
      moreover have "param_loop fmt cur buffer copied params num = Inr None"
        using False prems n by (subst param_loop.simps) (auto simp: t_def [symmetric] m_def [symmetric] len [symmetric] seg Let_def)
      ultimately show ?thesis by simp
    qed
  qed
qed

subsection \<open>Properties\<close>

lemma plain_subst: "CHR '':'' \<notin> set fmt \<Longrightarrow> subst_params fmt = Some (fmt, [])"
  using subst_plain [of fmt "[]"] by (auto simp: case_prod_unfold)

lemma sql_text:
  assumes "length buffer = SQL_TEXT_MAX" "length params = SQL_PARAMS_MAX"
  shows "prep_text buffer params fmt =
    Inr (if CHR '':'' \<notin> set fmt then Some (fmt, [])
         else case subst_params fmt of
             None \<Rightarrow> None
           | Some (stmt, types) \<Rightarrow> if length types \<le> SQL_PARAMS_MAX \<and> length stmt < SQL_TEXT_MAX then Some (stmt, types) else None)"
proof -
  define m where "m = skip_while (\<lambda>c. c \<noteq> CHR '':'') fmt 0"
  define seg where "seg = chunk fmt 0 m"
  have m: "fmt = seg @ drop m fmt" "\<forall>c \<in> set seg. c \<noteq> CHR '':''" "m \<le> length fmt" "m < length fmt \<Longrightarrow> fmt ! m = CHR '':''" "length seg = m"
    using next_colon [of 0 fmt, folded m_def] by (simp_all add: seg_def)
  show ?thesis
  proof (cases "m = length fmt")
    case True
    then have "fmt = seg" using m(1) by simp
    then have "CHR '':'' \<notin> set fmt" using m(2) by auto
    then show ?thesis using True by (simp add: prep_text_def m_def)
  next
    case False
    then have lt: "m < length fmt" using m(3) by simp
    then have colon: "CHR '':'' \<in> set fmt" using m(4) nth_mem by fastforce
    have s: "subst_params fmt = map_option (\<lambda>(text, types). (seg @ text, types)) (subst_params (drop m fmt))"
      using subst_plain [OF m(2), of "drop m fmt"] m(1) by simp
    show ?thesis
    proof (cases "m < length buffer")
      case True
      let ?b = "blit buffer 0 seg"
      have c: "memcpy buffer 0 seg = Inr ?b" "length ?b = length buffer" using True m(5) by (simp_all add: memcpy_def)
      have loop: "param_loop fmt m ?b m params 0 = Inr (within ?b m params 0 (subst_params (drop m fmt)))"
        using param_loop_eq [OF lt m(4) [OF lt], of m ?b 0 params] True c(2) by simp
      have body: "take (m + length body) ((blit ?b m body)[m + length body := z]) = seg @ body" if "m + length body < length buffer" for body z
        using that take_blit_end [of m ?b body] take_blit_end [of 0 buffer seg] m(5) True c(2) by simp
      have types: "take (length ts) (blit params 0 ts) = ts" if "length ts \<le> length params" for ts
        using that take_blit_end [of 0 params ts] by simp
      show ?thesis
        using False True colon c loop body types m(5) assms
        by (auto simp: prep_text_def m_def [symmetric] seg_def [symmetric] Let_def s within_def split: option.splits)
    next
      case no: False
      then show ?thesis using False colon m(5) assms(1) by (auto simp: prep_text_def m_def [symmetric] s split: option.splits)
    qed
  qed
qed

text \<open>C13: For every format, of any length and shape, the two scanning loops touch nothing outside the two fixed arrays, fail no assertion, and compute what replacing the parameters
character by character gives: the same text and the same types in the same order. The limits on the text and the parameters apply only to formats that have a parameter, and a
format is refused exactly if it breaks one of them or a colon is not followed by a type.\<close>

theorem sql_text_substitution:
  assumes "length buffer = SQL_TEXT_MAX" "length params = SQL_PARAMS_MAX"
  shows "prep_text buffer params fmt =
    Inr (if CHR '':'' \<notin> set fmt then Some (fmt, [])
         else case subst_params fmt of
             None \<Rightarrow> None
           | Some (stmt, types) \<Rightarrow> if length types \<le> SQL_PARAMS_MAX \<and> length stmt < SQL_TEXT_MAX then Some (stmt, types) else None)"
  using assms by (rule sql_text)

theorem sql_text_substitution_witness:
  "length (replicate 1024 CHR ''a'') = SQL_TEXT_MAX \<and>
   prep_text (replicate 1024 CHR ''a'') (replicate 8 CHR ''b'') ''name = :s AND id=:i'' = Inr (Some (''name = ? AND id=?'', ''si''))"
  using sql_text_substitution [of "replicate 1024 CHR ''a''" "replicate 8 CHR ''b''" "''name = :s AND id=:i''"]
  by (simp add: SQL_TEXT_MAX_def SQL_PARAMS_MAX_def is_type_def)

text \<open>Arguments that fit the format, and binding them one after the other.\<close>

definition args_fit :: "string \<Rightarrow> sql_value list \<Rightarrow> bool" where
  "args_fit fmt args \<longleftrightarrow> (case subst_params fmt of None \<Rightarrow> True | Some (_, types) \<Rightarrow> map type_of_value args = types)"

fun bind_all :: "'st sqlite \<Rightarrow> nat \<Rightarrow> sql_value list \<Rightarrow> 'st option \<Rightarrow> 'st option option" where
  "bind_all db i [] stmt = Some stmt"
| "bind_all db i (v # vs) stmt = (case bind_stmt db stmt i v of None \<Rightarrow> None | Some stmt \<Rightarrow> bind_all db (i + 1) vs stmt)"

lemma bind_loop_eq: "bind_loop db (map type_of_value args) i args stmt = Inr (bind_all db (i + 1) args stmt)"
  by (induction args arbitrary: i stmt) (auto simp: va_next_def split: option.split)

lemma bind_all_null: "bind_all db i args stmt = Some stmt' \<Longrightarrow> (stmt' = None) = (stmt = None)"
  by (induction db i args stmt rule: bind_all.induct) (auto simp: bind_stmt_def split: option.splits)

lemma prep_text_types:
  assumes "length buffer = SQL_TEXT_MAX" "length params = SQL_PARAMS_MAX" "args_fit fmt args"
  shows "prep_text buffer params fmt = Inr None \<or> (\<exists>stmt. subst_params fmt = Some (stmt, map type_of_value args)
    \<and> prep_text buffer params fmt = Inr (Some (stmt, map type_of_value args)))"
  using sql_text [OF assms(1,2), of fmt] assms(3) plain_subst [of fmt] by (auto simp: args_fit_def split: option.splits if_splits)

text \<open>When the arguments fit the format, preparing a statement gives the statement of the substituted text with the first argument bound to parameter 1, the second to
parameter 2 and so on, or nothing when the text is refused or one of them cannot be bound. No statement is lost: one that cannot be bound completely is finalized, and executing a
statement or asking for its rows finalizes it on every path.\<close>

theorem sql_statements_balanced:
  assumes "length buffer = SQL_TEXT_MAX" "length params = SQL_PARAMS_MAX" "args_fit fmt args"
  shows "(\<exists>stmt log'. sqlite3UtilsPrepare buffer params db fmt args log = Inr (stmt, log')
      \<and> prepared log' + finalized log = prepared log + finalized log' + (if stmt = None then 0 else 1)
      \<and> (stmt \<noteq> None \<longrightarrow> (\<exists>body types st. subst_params fmt = Some (body, types) \<and> sqlite3_prepare db body = Some st \<and> bind_all db 1 args st = Some stmt)))
    \<and> (\<exists>ok log'. sqlite3UtilsExec buffer params db fmt args log = Inr (ok, log') \<and> prepared log' + finalized log = prepared log + finalized log')
    \<and> (\<exists>ret log'. sqlite3UtilsRowsExist buffer params db fmt args log = Inr (ret, log') \<and> prepared log' + finalized log = prepared log + finalized log')"
proof -
  have "\<exists>stmt log'. vprep buffer params db fmt args log = Inr (stmt, log')
      \<and> prepared log' + finalized log = prepared log + finalized log' + (if stmt = None then 0 else 1)
      \<and> (stmt \<noteq> None \<longrightarrow> (\<exists>body types st. subst_params fmt = Some (body, types) \<and> sqlite3_prepare db body = Some st \<and> bind_all db 1 args st = Some stmt))"
  proof (cases "prep_text buffer params fmt = Inr None")
    case False
    then obtain stmt where s: "subst_params fmt = Some (stmt, map type_of_value args)" "prep_text buffer params fmt = Inr (Some (stmt, map type_of_value args))"
      using prep_text_types [OF assms] by blast
    show ?thesis
    proof (cases "sqlite3_prepare db stmt")
      case (Some st)
      show ?thesis
      proof (cases "bind_all db 1 args st")
        case None
        then show ?thesis
          using s Some bind_loop_eq [of db args 0 st] by (simp add: vprep_def count_prepared_def finalize_stmt_def split: option.split)
      next
        case b: (Some st')
        then show ?thesis
          using s Some bind_loop_eq [of db args 0 st] bind_all_null [OF b] by (auto simp: vprep_def count_prepared_def split: option.splits)
      qed
    qed (use s in \<open>simp add: vprep_def\<close>)
  qed (simp add: vprep_def)
  then obtain stmt log' where v: "vprep buffer params db fmt args log = Inr (stmt, log')"
      "prepared log' + finalized log = prepared log + finalized log' + (if stmt = None then 0 else 1)"
      "stmt \<noteq> None \<longrightarrow> (\<exists>body types st. subst_params fmt = Some (body, types) \<and> sqlite3_prepare db body = Some st \<and> bind_all db 1 args st = Some stmt)"
    by blast
  then show ?thesis
    by (cases stmt) (auto simp: sqlite3UtilsPrepare_def sqlite3UtilsExec_def sqlite3UtilsRowsExist_def Let_def finalize_stmt_def)
qed

text \<open>A database that remembers what was bound to a text.\<close>

definition demo_db :: "(string \<times> sql_value list) sqlite" where
  "demo_db = \<lparr>sqlite3_prepare = (\<lambda>body. Some (Some (body, []))), sqlite3_bind = (\<lambda>(body, vs) i v. if i = length vs + 1 then Some (body, vs @ [v]) else None),
     sqlite3_step = (\<lambda>_. SQLITE_DONE), sqlite3_column = (\<lambda>_ _ _. SQL_int 0)\<rparr>"

theorem sql_statements_balanced_witness:
  "args_fit ''id=:i'' [SQL_int 7] \<and> (\<exists>ok log'. sqlite3UtilsExec (replicate 1024 CHR ''a'') (replicate 8 CHR ''b'') demo_db ''id=:i'' [SQL_int 7]
     \<lparr>prepared = 3, finalized = 3\<rparr> = Inr (ok, log') \<and> prepared log' = finalized log')"
proof -
  have "args_fit ''id=:i'' [SQL_int 7]" by (simp add: args_fit_def is_type_def)
  then show ?thesis
    using sql_statements_balanced [of "replicate 1024 CHR ''a''" "replicate 8 CHR ''b''" "''id=:i''" "[SQL_int 7]" demo_db "\<lparr>prepared = 3, finalized = 3\<rparr>"]
    by (auto simp: SQL_TEXT_MAX_def SQL_PARAMS_MAX_def)
qed

lemma fetch_loop_types:
  "list_all is_type types \<Longrightarrow>
     fetch_loop column (types @ rest) k stored = fetch_loop column rest (k + length types) (stored @ map (\<lambda>i. column (types ! i) (k + i)) [0..<length types])"
proof (induction types arbitrary: k stored)
  case (Cons t ts)
  have "[0..<length (t # ts)] = 0 # map Suc [0..<length ts]" by (simp add: upt_conv_Cons map_Suc_upt del: upt_Suc)
  then show ?case using Cons by (simp add: comp_def del: upt_Suc)
qed simp

text \<open>Fetching a row stores the columns in order, each as its type says; a type that is not known ends it with an error after the columns before it were stored.\<close>

theorem sql_fetch_columns:
  assumes "sqlite3_step db st = SQLITE_ROW" "list_all is_type types"
  shows "sqlite3UtilsFetch db st types = (0, map (\<lambda>i. sqlite3_column db st (types ! i) i) [0..<length types])
    \<and> (\<not> is_type t \<longrightarrow> sqlite3UtilsFetch db st (types @ t # rest) = (- 1, map (\<lambda>i. sqlite3_column db st (types ! i) i) [0..<length types]))"
  using assms fetch_loop_types [OF assms(2), of _ "[]" 0 "[]"] fetch_loop_types [OF assms(2), of _ "t # rest" 0 "[]"]
  by (simp add: sqlite3UtilsFetch_def)

theorem sql_fetch_columns_witness:
  "sqlite3UtilsFetch (demo_db\<lparr>sqlite3_step := \<lambda>_. SQLITE_ROW, sqlite3_column := \<lambda>_ c i. SQL_int (int i)\<rparr>) (''t'', []) ''ii'' = (0, [SQL_int 0, SQL_int 1])"
  using sql_fetch_columns [of "demo_db\<lparr>sqlite3_step := \<lambda>_. SQLITE_ROW, sqlite3_column := \<lambda>_ c i. SQL_int (int i)\<rparr>" "(''t'', [])" "''ii''"]
  by (simp add: is_type_def upt_rec)

end
