(* ===== verification/FileList.thy ===== *)
theory FileList
  imports Prelude
begin

section \<open>Listing files (\<^verbatim>\<open>misc/file.c\<close>)\<close>

text \<open>
  Listing a directory and, up to a depth, the tree below it, for both platforms the source supports. The operating system is an argument: what a path, a pattern or an
  open directory answers is in the record \<open>file_env\<close>. The struct \<^verbatim>\<open>File\<close> points into the path buffer of the directory or into the pool of the list, which \<^verbatim>\<open>realloc\<close>
  may move: pointers are addresses, each piece of memory has the address it starts at, reading through a pointer that lies outside of it is a fault, and \<open>None\<close> is \<^verbatim>\<open>NULL\<close>. The
  contents of fresh memory and the answers of the allocator are arguments too (\<open>allocs\<close>: for each allocation from now on its address, or \<open>None\<close> when it fails). Error messages are left out, and sizes and counts stay below the limits of their types.
\<close>

declare rbind_cong [fundef_cong]

datatype platform = Windows | Linux

abbreviation NUL :: char where "NUL \<equiv> CHR 0x00"
abbreviation PATH_SEP :: char where "PATH_SEP \<equiv> CHR ''/''"

subsection \<open>Memory\<close>

record block =
  b_at :: nat
  b_bytes :: string

type_synonym allocations = "nat \<Rightarrow> nat option"

definition next_alloc :: "allocations \<Rightarrow> nat option \<times> allocations" where
  "next_alloc allocs = (allocs 0, \<lambda>k. allocs (Suc k))"

text \<open>The string at an address, read in the memory it points into.\<close>

definition cstr :: "block \<Rightarrow> nat \<Rightarrow> string res" where
  "cstr b p =
     (if p < b_at b then Inl Out_of_bounds
      else let s = takeWhile (\<lambda>c. c \<noteq> NUL) (drop (p - b_at b) (b_bytes b)) in
        if p - b_at b + length s < length (b_bytes b) then Inr s else Inl Out_of_bounds)"

subsection \<open>Files\<close>

record File =
  f_dir :: bool
  f_path :: "nat option"
  f_name :: "nat option"
  f_size :: u64
  time_create :: u64
  time_modify :: u64
  time_access :: u64

text \<open>\<^verbatim>\<open>WIN32_FIND_DATA\<close> and \<^verbatim>\<open>struct stat\<close>, as far as they are used.\<close>

record find_data =
  attr_directory :: bool
  nFileSizeHigh :: u32
  nFileSizeLow :: u32
  ftCreationTime :: u64
  ftLastWriteTime :: u64
  ftLastAccessTime :: u64

record stat_data =
  S_ISDIR :: bool
  st_size :: u64
  st_ctime :: u64
  st_mtime :: u64
  st_atime :: u64

record file_env =
  stat_os :: "string \<Rightarrow> stat_data option"
  opendir :: "string \<Rightarrow> string list option"
  find_first :: "string \<Rightarrow> (string \<times> find_data) list option"

definition filetime_to_timet :: "u64 \<Rightarrow> u64" where
  "filetime_to_timet ft = ft div 10000000 - 11644473600"

definition MAXDWORD :: u32 where "MAXDWORD = 0xFFFFFFFF"

definition compileFileStructFromWindowsData :: "find_data \<Rightarrow> File \<Rightarrow> File" where
  "compileFileStructFromWindowsData d f =
     f\<lparr>f_dir := attr_directory d, f_size := ucast (nFileSizeHigh d * (MAXDWORD + 1) + nFileSizeLow d),
       time_create := filetime_to_timet (ftCreationTime d), time_modify := filetime_to_timet (ftLastWriteTime d),
       time_access := filetime_to_timet (ftLastAccessTime d)\<rparr>"

definition queryFile :: "platform \<Rightarrow> file_env \<Rightarrow> string \<Rightarrow> File \<Rightarrow> bool \<times> File" where
  "queryFile platform env path f =
     (let f = f\<lparr>f_path := None, f_name := None\<rparr> in
      case platform of
        Windows \<Rightarrow>
          (case find_first env path of
             None \<Rightarrow> (False, f)
           | Some [] \<Rightarrow> (False, f)
           | Some ((_, d) # _) \<Rightarrow> (True, compileFileStructFromWindowsData d f))
      | Linux \<Rightarrow>
          (case stat_os env path of
             None \<Rightarrow> (False, f)
           | Some s \<Rightarrow> (True, f\<lparr>f_dir := S_ISDIR s, f_size := st_size s, time_create := st_ctime s, time_modify := st_mtime s, time_access := st_atime s\<rparr>)))"

subsection \<open>Directories\<close>

text \<open>The entries that reading the directory has still to give, with the data that comes with them on Windows.\<close>

record directory =
  d_entries :: "(string \<times> find_data option) list"
  d_plen :: nat
  d_buffer :: block

text \<open>\<open>mem\<close> is the memory of the field \<^verbatim>\<open>buffer\<close>, with what it holds before.\<close>

definition openDirectory :: "platform \<Rightarrow> file_env \<Rightarrow> block \<Rightarrow> string \<Rightarrow> directory option res" where
  "openDirectory platform env mem path =
     (let plen = length path; buffer = b_bytes mem in
      if plen = 0 then Inr None
      else if plen \<ge> length buffer then Inr None
      else
        rbind (memcpy buffer 0 path) (\<lambda>buffer.
          if path ! (plen - 1) \<noteq> PATH_SEP \<and> plen + 1 \<ge> length buffer then Inr None
          else
            rbind (if path ! (plen - 1) \<noteq> PATH_SEP then wr buffer plen PATH_SEP else Inr buffer) (\<lambda>buffer.
              let plen = (if path ! (plen - 1) \<noteq> PATH_SEP then plen + 1 else plen) in
              case platform of
                Windows \<Rightarrow>
                  if plen + 1 \<ge> length buffer then Inr None
                  else
                    rbind (wr buffer plen (CHR ''*'')) (\<lambda>buffer.
                    rbind (wr buffer (plen + 1) NUL) (\<lambda>buffer.
                      case find_first env (take (plen + 1) buffer) of
                        None \<Rightarrow> Inr None
                      | Some es \<Rightarrow> Inr (Some \<lparr>d_entries = map (\<lambda>(n, d). (n, Some d)) es, d_plen = plen, d_buffer = mem\<lparr>b_bytes := buffer\<rparr>\<rparr>)))
              | Linux \<Rightarrow>
                  (case opendir env path of
                     None \<Rightarrow> Inr None
                   | Some ns \<Rightarrow> Inr (Some \<lparr>d_entries = map (\<lambda>n. (n, None)) ns, d_plen = plen, d_buffer = mem\<lparr>b_bytes := buffer\<rparr>\<rparr>)))))"

definition visible :: "string \<Rightarrow> bool" where
  "visible name \<longleftrightarrow> (case name of [] \<Rightarrow> True | c # _ \<Rightarrow> c \<noteq> CHR ''.'')"

fun next_visible :: "(string \<times> find_data option) list \<Rightarrow> ((string \<times> find_data option) \<times> (string \<times> find_data option) list) option" where
  "next_visible [] = None"
| "next_visible (e # es) = (if visible (fst e) then Some (e, es) else next_visible es)"

definition nextFile :: "file_env \<Rightarrow> directory \<Rightarrow> File \<Rightarrow> (bool \<times> directory \<times> File) res" where
  "nextFile env d f =
     (case next_visible (d_entries d) of
        None \<Rightarrow> Inr (False, d\<lparr>d_entries := []\<rparr>, f)
      | Some ((name, data), es) \<Rightarrow>
          let d = d\<lparr>d_entries := es\<rparr>;
              nlen = length name
          in if d_plen d + nlen \<ge> length (b_bytes (d_buffer d)) then Inr (False, d, f)
             else
               rbind (memcpy (b_bytes (d_buffer d)) (d_plen d) name) (\<lambda>buffer.
               rbind (wr buffer (d_plen d + nlen) NUL) (\<lambda>buffer.
                 let d = d\<lparr>d_buffer := (d_buffer d)\<lparr>b_bytes := buffer\<rparr>\<rparr>;
                     f = f\<lparr>f_path := Some (b_at (d_buffer d)), f_name := Some (b_at (d_buffer d) + d_plen d)\<rparr>
                 in case data of
                      Some data \<Rightarrow> Inr (True, d, compileFileStructFromWindowsData data f)
                    | None \<Rightarrow> rbind (cstr (d_buffer d) (b_at (d_buffer d))) (\<lambda>path. let r = queryFile Linux env path f in Inr (fst r, d, snd r)))))"

subsection \<open>Lists\<close>

record file_list =
  items :: "File list"
  list_capacity :: nat

text \<open>Making room for one more item, and for \<open>n\<close> more bytes of the pool: whether there is room then. When the pool moves, the pointers of all items into it are updated.\<close>

definition grow_items :: "file_list \<Rightarrow> allocations \<Rightarrow> bool \<times> file_list \<times> allocations" where
  "grow_items fl allocs =
     (if length (items fl) = list_capacity fl then
        let (tmp, allocs) = next_alloc allocs in
        case tmp of
          None \<Rightarrow> (False, fl, allocs)
        | Some _ \<Rightarrow> (True, fl\<lparr>list_capacity := max 8 (2 * list_capacity fl)\<rparr>, allocs)
      else (True, fl, allocs))"

definition relocate :: "nat \<Rightarrow> nat \<Rightarrow> File \<Rightarrow> File" where
  "relocate pool tmp f = f\<lparr>f_path := map_option (\<lambda>p. p + tmp - pool) (f_path f), f_name := map_option (\<lambda>p. p + tmp - pool) (f_name f)\<rparr>"

definition grow_pool :: "char \<Rightarrow> block \<Rightarrow> nat \<Rightarrow> nat \<Rightarrow> file_list \<Rightarrow> allocations \<Rightarrow> bool \<times> block \<times> file_list \<times> allocations" where
  "grow_pool junk pool pool_count n fl allocs =
     (if pool_count + n > length (b_bytes pool) then
        let cap = max (pool_count + n) (2 * length (b_bytes pool));
            (tmp, allocs) = next_alloc allocs
        in case tmp of
             None \<Rightarrow> (False, pool, fl, allocs)
           | Some tmp \<Rightarrow>
               (True, \<lparr>b_at = tmp, b_bytes = b_bytes pool @ replicate (cap - length (b_bytes pool)) junk\<rparr>,
                fl\<lparr>items := map (relocate (b_at pool) tmp) (items fl)\<rparr>, allocs)
      else (True, pool, fl, allocs))"

definition push_item :: "File \<Rightarrow> file_list \<Rightarrow> file_list res" where
  "push_item f fl = (if length (items fl) < list_capacity fl then Inr (fl\<lparr>items := items fl @ [f]\<rparr>) else Inl Out_of_bounds)"

lemma next_visible_shorter: "next_visible es = Some (e, es') \<Longrightarrow> length es' < length es"
  by (induction es) (auto split: if_splits)

lemma nextFile_shorter: "nextFile env d f = Inr (True, d', f') \<Longrightarrow> length (d_entries d') < length (d_entries d)"
  by (auto simp: nextFile_def Let_def rbind_eq_Inr split: option.splits prod.splits if_splits dest!: next_visible_shorter)

function list_loop :: "file_env \<Rightarrow> char \<Rightarrow> directory \<Rightarrow> File \<Rightarrow> file_list \<Rightarrow> block \<Rightarrow> nat \<Rightarrow> allocations \<Rightarrow> (file_list \<times> block \<times> allocations) res" where
  "list_loop env junk d f fl pool pool_count allocs =
     rbind (nextFile env d f) (\<lambda>(status, d, f).
       if \<not> status then Inr (fl, pool, allocs)
       else
         let (ok, fl, allocs) = grow_items fl allocs in
         if \<not> ok then list_loop env junk d f fl pool pool_count allocs
         else
           case (f_path f, f_name f) of
             (Some p, Some n) \<Rightarrow>
               rbind (cstr (d_buffer d) p) (\<lambda>path.
                 let plen = length path;
                     (ok, pool, fl, allocs) = grow_pool junk pool pool_count (plen + 1) fl allocs
                 in if \<not> ok then list_loop env junk d f fl pool pool_count allocs
                    else
                      rbind (memcpy (b_bytes pool) pool_count path) (\<lambda>bytes.
                      rbind (wr bytes (pool_count + plen) NUL) (\<lambda>bytes.
                        let at = b_at pool + pool_count;
                            f = f\<lparr>f_path := Some at, f_name := Some (at + (n - p))\<rparr> in
                        rbind (push_item f fl) (\<lambda>fl.
                          list_loop env junk d f fl (pool\<lparr>b_bytes := bytes\<rparr>) (pool_count + plen + 1) allocs))))
           | _ \<Rightarrow> Inl Null_pointer)"
  by pat_completeness auto
termination
  by (relation "measure (\<lambda>(env, junk, d, _). length (d_entries d))") (auto dest: nextFile_shorter)

declare list_loop.simps [simp del]

text \<open>\<^verbatim>\<open>listFiles\<close>: \<open>None\<close> when it returns \<^verbatim>\<open>false\<close>. The variable \<^verbatim>\<open>status\<close> is never negative at the end of the loop. The pool starts as the null pointer.\<close>

definition listFiles :: "platform \<Rightarrow> file_env \<Rightarrow> char \<Rightarrow> block \<Rightarrow> File \<Rightarrow> string \<Rightarrow> allocations \<Rightarrow> ((file_list \<times> block) option \<times> allocations) res" where
  "listFiles platform env junk mem f path allocs =
     rbind (openDirectory platform env mem path) (\<lambda>r.
       case r of
         None \<Rightarrow> Inr (None, allocs)
       | Some d \<Rightarrow>
           rbind (list_loop env junk d f \<lparr>items = [], list_capacity = 0\<rparr> \<lparr>b_at = 0, b_bytes = []\<rparr> 0 allocs) (\<lambda>(fl, pool, allocs).
             Inr (Some (fl, pool), allocs)))"

text \<open>\<^verbatim>\<open>free\<close> accepts the address of the pool only.\<close>

definition freeFileList :: "block \<Rightarrow> file_list \<Rightarrow> unit res" where
  "freeFileList pool fl =
     (case items fl of
        [] \<Rightarrow> Inr ()
      | f # _ \<Rightarrow> if f_path f = Some (b_at pool) then Inr () else Inl Out_of_bounds)"

definition countDirs :: "file_list \<Rightarrow> nat" where
  "countDirs fl = length (filter f_dir (items fl))"

subsection \<open>Trees\<close>

text \<open>The struct \<^verbatim>\<open>FileTree\<close> with the pool its files point into. The field \<^verbatim>\<open>head\<close> is \<open>None\<close> while it has not been written.\<close>

datatype file_tree = File_tree (t_info: File) (t_head: "File option") (t_dirs: "file_tree list") (t_files: "File list")
  (dirs_count: nat) (files_count: nat) (t_loaded: bool) (t_error: bool) (t_pool: block)

abbreviation empty_tree :: "File \<Rightarrow> bool \<Rightarrow> file_tree" where
  "empty_tree info error \<equiv> File_tree info None [] [] 0 0 False error \<lparr>b_at = 0, b_bytes = []\<rparr>"

text \<open>\<^verbatim>\<open>listSubtree\<close>, with the depth as a natural number (it asserts that it is not negative), and its loop over the list.\<close>

function (sequential) listSubtree :: "platform \<Rightarrow> file_env \<Rightarrow> char \<Rightarrow> block \<Rightarrow> File \<Rightarrow> nat \<Rightarrow> string \<Rightarrow> File \<Rightarrow> allocations \<Rightarrow> (file_tree \<times> allocations) res"
  and subtree_loop :: "platform \<Rightarrow> file_env \<Rightarrow> char \<Rightarrow> block \<Rightarrow> File \<Rightarrow> nat \<Rightarrow> block \<Rightarrow> File list \<Rightarrow> allocations \<Rightarrow> (file_tree list \<times> File list \<times> allocations) res" where
  "listSubtree platform env junk mem f 0 dir info allocs = Inr (empty_tree info False, allocs)"
| "listSubtree platform env junk mem f (Suc depth) dir info allocs =
     rbind (listFiles platform env junk mem f dir allocs) (\<lambda>(r, allocs).
       case r of
         None \<Rightarrow> Inr (empty_tree info True, allocs)
       | Some (fl, pool) \<Rightarrow>
           let (dirs_at, allocs) = next_alloc allocs in
           if dirs_at = None then rbind (freeFileList pool fl) (\<lambda>_. Inr (empty_tree info True, allocs))
           else
             let (files_at, allocs) = next_alloc allocs in
             if files_at = None then rbind (freeFileList pool fl) (\<lambda>_. Inr (empty_tree info True, allocs))
             else
               rbind (subtree_loop platform env junk mem f depth pool (items fl) allocs) (\<lambda>(dirs, files, allocs).
                 Inr (File_tree info (case items fl of [] \<Rightarrow> None | g # _ \<Rightarrow> Some g) dirs files
                       (countDirs fl) (length (items fl) - countDirs fl) True False pool, allocs)))"
| "subtree_loop platform env junk mem f depth pool [] allocs = Inr ([], [], allocs)"
| "subtree_loop platform env junk mem f depth pool (g # gs) allocs =
     (if f_dir g then
        case f_path g of
          None \<Rightarrow> Inl Null_pointer
        | Some p \<Rightarrow>
            rbind (cstr pool p) (\<lambda>dir.
            rbind (listSubtree platform env junk mem f depth dir g allocs) (\<lambda>(t, allocs).
            rbind (subtree_loop platform env junk mem f depth pool gs allocs) (\<lambda>(dirs, files, allocs).
              Inr (t # dirs, files, allocs))))
      else
        rbind (subtree_loop platform env junk mem f depth pool gs allocs) (\<lambda>(dirs, files, allocs).
          Inr (dirs, g # files, allocs)))"
  by pat_completeness auto
termination
  by (relation "measures [\<lambda>x. case x of Inl (_, _, _, _, _, depth, _) \<Rightarrow> 2 * depth | Inr (_, _, _, _, _, depth, _) \<Rightarrow> 2 * depth + 1,
       \<lambda>x. case x of Inl _ \<Rightarrow> 0 | Inr (_, _, _, _, _, _, _, gs, _) \<Rightarrow> length gs]") auto

text \<open>The loop of \<^verbatim>\<open>listTree\<close> that looks for the last separator, from the end of the copied path.\<close>

fun last_sep :: "string \<Rightarrow> nat \<Rightarrow> nat res" where
  "last_sep copy 0 = Inr 0"
| "last_sep copy (Suc n) = rbind (rd copy (Suc n)) (\<lambda>c. if c \<noteq> PATH_SEP then last_sep copy n else Inr (Suc n))"

definition listTree :: "platform \<Rightarrow> file_env \<Rightarrow> char \<Rightarrow> block \<Rightarrow> File \<Rightarrow> string option \<Rightarrow> nat \<Rightarrow> allocations \<Rightarrow> (file_tree option \<times> allocations) res" where
  "listTree platform env junk mem f dir depth allocs =
     (case dir of
        None \<Rightarrow> Inr (None, allocs)
      | Some dir \<Rightarrow>
          if dir = [] then Inr (None, allocs)
          else
          let (ok, file) = queryFile platform env dir f in
          if \<not> ok then Inr (None, allocs)
          else if \<not> f_dir file then Inr (None, allocs)
          else
            let len = (if last dir = PATH_SEP then length dir - 1 else length dir);
                (dir_copy, allocs) = next_alloc allocs
            in case dir_copy of
                 None \<Rightarrow> Inr (None, allocs)
               | Some dir_copy \<Rightarrow>
                 rbind (memcpy (replicate (len + 1) junk) 0 (take len dir)) (\<lambda>copy.
                 rbind (last_sep copy len) (\<lambda>sep.
                   let file = file\<lparr>f_path := Some dir_copy, f_name := Some (dir_copy + sep + 1)\<rparr> in
                   rbind (cstr \<lparr>b_at = dir_copy, b_bytes = copy\<rparr> dir_copy) (\<lambda>path.
                   rbind (listSubtree platform env junk mem f depth path file allocs) (\<lambda>(t, allocs).
                     Inr (Some t, allocs))))))"

text \<open>\<^verbatim>\<open>freeFileTree\<close>: freeing a pointer that was never written is a fault.\<close>

fun freeFileTree :: "file_tree \<Rightarrow> unit res" and free_dirs :: "file_tree list \<Rightarrow> unit res" where
  "freeFileTree (File_tree info head dirs files nd nf loaded error pool) =
     rbind (free_dirs dirs) (\<lambda>_.
       case head of
         None \<Rightarrow> Inl Out_of_bounds
       | Some g \<Rightarrow> if f_path g = Some (b_at pool) then Inr () else Inl Out_of_bounds)"
| "free_dirs [] = Inr ()"
| "free_dirs (t # ts) = rbind (freeFileTree t) (\<lambda>_. free_dirs ts)"

end
