(* ===== verification/FileClaims.thy ===== *)
theory FileClaims
  imports FileList
begin

section \<open>Listing files: properties\<close>

text \<open>
  What a listing contains on Windows, where it works as written, what the trees below it contain, and why the same functions stop the program on Linux.
\<close>

subsection \<open>The loop over a directory\<close>

definition base_path :: "string \<Rightarrow> string" where
  "base_path path = (if last path = PATH_SEP then path else path @ [PATH_SEP])"

definition fits :: "string \<Rightarrow> nat \<Rightarrow> string \<times> 'a \<Rightarrow> bool" where
  "fits base n e \<longleftrightarrow> length base + length (fst e) < n"

definition listed :: "string \<Rightarrow> nat \<Rightarrow> (string \<times> 'a) list \<Rightarrow> (string \<times> 'a) list" where
  "listed base n es = takeWhile (fits base n) (filter (\<lambda>e. visible (fst e)) es)"

text \<open>An allocator that never fails, wherever it puts the memory.\<close>

definition plenty :: "allocations \<Rightarrow> bool" where
  "plenty allocs \<longleftrightarrow> (\<forall>k. allocs k \<noteq> None)"

lemma next_alloc_plenty: "plenty allocs \<Longrightarrow> \<exists>a allocs'. next_alloc allocs = (Some a, allocs') \<and> plenty allocs'"
  by (auto simp: plenty_def next_alloc_def)

text \<open>A file of a list describes an entry, with its strings below a limit in the pool.\<close>

definition describes :: "block \<Rightarrow> string \<Rightarrow> nat \<Rightarrow> File \<Rightarrow> string \<times> find_data option \<Rightarrow> bool" where
  "describes pool base lim f e \<longleftrightarrow> (\<exists>p. f_path f = Some (b_at pool + p) \<and> f_name f = Some (b_at pool + p + length base) \<and> p + length base + length (fst e) < lim
     \<and> chunk (b_bytes pool) p (length base + length (fst e) + 1) = base @ fst e @ [NUL]
     \<and> f_dir f = attr_directory (the (snd e)) \<and> f_size f = ucast (nFileSizeLow (the (snd e))))"

text \<open>The first item has the address of the pool.\<close>

definition starts :: "block \<Rightarrow> nat \<Rightarrow> file_list \<Rightarrow> bool" where
  "starts pool pc fl \<longleftrightarrow> (case items fl of [] \<Rightarrow> pc = 0 | f # _ \<Rightarrow> f_path f = Some (b_at pool))"

lemma MAXDWORD_minus: "MAXDWORD = - 1"
  by (simp add: MAXDWORD_def)

lemma next_visible_filter:
  "case next_visible es of
     None \<Rightarrow> filter (\<lambda>e. visible (fst e)) es = []
   | Some (e, es') \<Rightarrow> filter (\<lambda>e. visible (fst e)) es = e # filter (\<lambda>e. visible (fst e)) es' \<and> e \<in> set es \<and> set es' \<subseteq> set es"
proof (induction es)
  case (Cons e es)
  then show ?case by (cases "visible (fst e)") (auto split: option.splits)
qed simp

lemma cstr_at: "NUL \<notin> set s \<Longrightarrow> drop off (b_bytes b) = s @ NUL # rest \<Longrightarrow> cstr b (b_at b + off) = Inr s"
proof -
  assume s: "NUL \<notin> set s" and d: "drop off (b_bytes b) = s @ NUL # rest"
  have "takeWhile (\<lambda>c. c \<noteq> NUL) (s @ NUL # rest) = s" using s by (induction s) auto
  moreover have "length (b_bytes b) - off = length s + 1 + length rest" using arg_cong [OF d, of length] by simp
  ultimately show ?thesis by (simp add: cstr_def d Let_def)
qed

lemma cstr_chunk:
  assumes "NUL \<notin> set s" "chunk (b_bytes b) off (length s + 1) = s @ [NUL]"
  shows "cstr b (b_at b + off) = Inr s"
proof (rule cstr_at [OF assms(1)])
  show "drop off (b_bytes b) = s @ NUL # drop (length s + 1) (drop off (b_bytes b))"
    using assms(2) append_take_drop_id [of "length s + 1" "drop off (b_bytes b)"] by (simp add: chunk_def del: append_take_drop_id drop_drop)
qed

text \<open>One entry: what reading it and making room for it give.\<close>

lemma nextFile_windows:
  assumes "next_visible (d_entries d) = Some ((name, Some data), es)" "take (d_plen d) (b_bytes (d_buffer d)) = base" "d_plen d = length base" "NUL \<notin> set base" "NUL \<notin> set name"
    "length base + length name < length (b_bytes (d_buffer d))"
  shows "\<exists>d'. nextFile env d f = Inr (True, d', compileFileStructFromWindowsData data (f\<lparr>f_path := Some (b_at (d_buffer d)), f_name := Some (b_at (d_buffer d) + length base)\<rparr>))
    \<and> d_entries d' = es \<and> d_plen d' = length base \<and> take (length base) (b_bytes (d_buffer d')) = base \<and> length (b_bytes (d_buffer d')) = length (b_bytes (d_buffer d))
    \<and> cstr (d_buffer d') (b_at (d_buffer d)) = Inr (base @ name)"
proof -
  let ?m = "b_bytes (d_buffer d)"
  let ?b = "(blit ?m (length base) name)[length base + length name := NUL]"
  let ?d = "d\<lparr>d_entries := es, d_buffer := (d_buffer d)\<lparr>b_bytes := ?b\<rparr>\<rparr>"
  have le: "length base + length name \<le> length ?m" using assms(6) by simp
  have n: "nextFile env d f = Inr (True, ?d, compileFileStructFromWindowsData data (f\<lparr>f_path := Some (b_at (d_buffer d)), f_name := Some (b_at (d_buffer d) + length base)\<rparr>))"
    using assms(1,3,6) le by (simp add: nextFile_def)
  have t: "take (length base + length name) (blit ?m (length base) name) = base @ name"
    using take_blit_end [of "length base" ?m name] assms(2,3) le by simp
  have d: "drop 0 ?b = (base @ name) @ NUL # drop (length base + length name + 1) (blit ?m (length base) name)"
    using t le assms(6) by (simp add: upd_conv_take_nth_drop)
  have "NUL \<notin> set (base @ name)" using assms(4,5) by simp
  then have "cstr (d_buffer ?d) (b_at (d_buffer ?d) + 0) = Inr (base @ name)" by (rule cstr_at) (use d in simp)
  moreover have "take (length base) ?b = base" using d by (metis append.assoc append_eq_conv_conj drop0)
  ultimately show ?thesis using n assms(3) le by (intro exI [of _ ?d]) simp
qed

lemma grow_items_ok:
  assumes "plenty allocs" "length (items fl) \<le> list_capacity fl"
  shows "\<exists>fl' allocs'. grow_items fl allocs = (True, fl', allocs') \<and> plenty allocs' \<and> items fl' = items fl \<and> length (items fl) < list_capacity fl'"
  using assms next_alloc_plenty [OF assms(1)] by (auto simp: grow_items_def)

text \<open>Moving the pool: what an item describes stays, at the new addresses.\<close>

lemma describes_relocate:
  "describes pool base lim f e \<Longrightarrow> take lim (b_bytes pool') = take lim (b_bytes pool) \<Longrightarrow> describes pool' base lim (relocate (b_at pool) (b_at pool') f) e"
proof -
  assume d: "describes pool base lim f e" and t: "take lim (b_bytes pool') = take lim (b_bytes pool)"
  have "chunk (b_bytes pool') p n = chunk (b_bytes pool) p n" if "p + n \<le> lim" for p n
    using that arg_cong [OF t, of "\<lambda>xs. take n (drop p xs)"] by (simp add: chunk_def drop_take min_absorb1)
  then show ?thesis using d by (fastforce simp: describes_def relocate_def)
qed

lemma grow_pool_ok:
  assumes "plenty allocs" "pc \<le> length (b_bytes pool)" "list_all2 (describes pool base pc) (items fl) es" "starts pool pc fl"
  shows "\<exists>pool' fl' allocs'. grow_pool junk pool pc n fl allocs = (True, pool', fl', allocs') \<and> plenty allocs' \<and> pc + n \<le> length (b_bytes pool')
    \<and> list_all2 (describes pool' base pc) (items fl') es \<and> starts pool' pc fl' \<and> list_capacity fl' = list_capacity fl"
proof (cases "pc + n > length (b_bytes pool)")
  case True
  obtain a allocs' where a: "next_alloc allocs = (Some a, allocs')" "plenty allocs'" using next_alloc_plenty [OF assms(1)] by blast
  define pool' where "pool' = \<lparr>b_at = a, b_bytes = b_bytes pool @ replicate (max (pc + n) (2 * length (b_bytes pool)) - length (b_bytes pool)) junk\<rparr>"
  let ?fl = "fl\<lparr>items := map (relocate (b_at pool) a) (items fl)\<rparr>"
  have "take pc (b_bytes pool') = take pc (b_bytes pool)" "b_at pool' = a" using assms(2) by (simp_all add: pool'_def)
  then have "list_all2 (describes pool' base pc) (items ?fl) es"
    using assms(3) describes_relocate [of pool base pc _ _ pool'] by (auto simp: list_all2_map1 intro: list_all2_mono)
  moreover have "starts pool' pc ?fl" using assms(4) by (auto simp: starts_def relocate_def pool'_def split: list.splits)
  moreover have "grow_pool junk pool pc n fl allocs = (True, pool', ?fl, allocs')" using True a(1) by (simp add: grow_pool_def pool'_def)
  moreover have "pc + n \<le> length (b_bytes pool')" by (simp add: pool'_def)
  ultimately show ?thesis using a(2) by auto
qed (use assms in \<open>auto simp: grow_pool_def\<close>)

lemma stored_text:
  assumes "pc + length s + 1 \<le> length pool"
  defines "pool' \<equiv> (blit pool pc s)[pc + length s := NUL]"
  shows "take pc pool' = take pc pool" "chunk pool' pc (length s + 1) = s @ [NUL]" "length pool' = length pool"
proof -
  have le: "pc + length s \<le> length pool" using assms(1) by simp
  show "length pool' = length pool" using le by (simp add: pool'_def)
  show "take pc pool' = take pc pool" using le by (simp add: pool'_def take_blit)
  have "drop pc (blit pool pc s) = s @ drop (pc + length s) pool" by (rule drop_blit_start) (use le in simp)
  then have "drop pc pool' = (s @ drop (pc + length s) pool)[length s := NUL]" by (simp add: pool'_def drop_update_swap)
  then show "chunk pool' pc (length s + 1) = s @ [NUL]" using assms(1)
    by (cases "drop (pc + length s) pool") (auto simp: chunk_def list_update_append)
qed

lemma describes_mono:
  assumes "describes pool base pc f e" "take pc bytes = take pc (b_bytes pool)" "pc \<le> pc'"
  shows "describes (pool\<lparr>b_bytes := bytes\<rparr>) base pc' f e"
proof -
  have "chunk bytes p n = chunk (b_bytes pool) p n" if "p + n \<le> pc" for p n
    using that arg_cong [OF assms(2), of "\<lambda>xs. take n (drop p xs)"] by (simp add: chunk_def drop_take min_absorb1)
  then show ?thesis using assms(1,3) by (fastforce simp: describes_def)
qed

text \<open>One round of the loop, for an entry that fits.\<close>

lemma list_round:
  assumes "next_visible (d_entries d) = Some ((name, Some data), es)" "take (d_plen d) (b_bytes (d_buffer d)) = base" "d_plen d = length base" "NUL \<notin> set base" "NUL \<notin> set name"
    "length base + length name < length (b_bytes (d_buffer d))" "length (items fl) \<le> list_capacity fl" "pc \<le> length (b_bytes pool)"
    "list_all2 (describes pool base pc) (items fl) seen" "starts pool pc fl" "plenty allocs"
  shows "\<exists>d' g fl' pool' pc' allocs'. list_loop env junk d f fl pool pc allocs = list_loop env junk d' g fl' pool' pc' allocs'
    \<and> d_entries d' = es \<and> d_plen d' = length base \<and> take (length base) (b_bytes (d_buffer d')) = base \<and> length (b_bytes (d_buffer d')) = length (b_bytes (d_buffer d))
    \<and> length (items fl') \<le> list_capacity fl' \<and> pc' \<le> length (b_bytes pool') \<and> list_all2 (describes pool' base pc') (items fl') (seen @ [(name, Some data)])
    \<and> starts pool' pc' fl' \<and> plenty allocs'"
proof -
  let ?s = "base @ name" and ?at = "b_at (d_buffer d)"
  let ?f = "compileFileStructFromWindowsData data (f\<lparr>f_path := Some ?at, f_name := Some (?at + length base)\<rparr>)"
  obtain d' where d': "nextFile env d f = Inr (True, d', ?f)" "d_entries d' = es" "d_plen d' = length base" "take (length base) (b_bytes (d_buffer d')) = base"
      "length (b_bytes (d_buffer d')) = length (b_bytes (d_buffer d))" "cstr (d_buffer d') ?at = Inr ?s"
    using nextFile_windows [OF assms(1-6)] by blast
  obtain fl1 as1 where fl1: "grow_items fl allocs = (True, fl1, as1)" "plenty as1" "items fl1 = items fl" "length (items fl) < list_capacity fl1" using grow_items_ok [OF assms(11,7)] by blast
  obtain pool1 fl2 as2 where pool1: "grow_pool junk pool pc (length ?s + 1) fl1 as1 = (True, pool1, fl2, as2)" "plenty as2" "pc + (length ?s + 1) \<le> length (b_bytes pool1)"
      "list_all2 (describes pool1 base pc) (items fl2) seen" "starts pool1 pc fl2" "list_capacity fl2 = list_capacity fl1"
    using grow_pool_ok [OF fl1(2) assms(8), of base fl1 seen junk "length ?s + 1"] assms(9,10) fl1(3) by (auto simp: starts_def)
  have len: "length (items fl2) < list_capacity fl2" using list_all2_lengthD [OF pool1(4)] list_all2_lengthD [OF assms(9)] fl1(4) pool1(6) by simp
  define bytes where "bytes = (blit (b_bytes pool1) pc ?s)[pc + length ?s := NUL]"
  have bytes: "take pc bytes = take pc (b_bytes pool1)" "chunk bytes pc (length ?s + 1) = ?s @ [NUL]" "length bytes = length (b_bytes pool1)"
    using stored_text [of pc ?s "b_bytes pool1"] pool1(3) by (simp_all add: bytes_def)
  define g where "g = ?f\<lparr>f_path := Some (b_at pool1 + pc), f_name := Some (b_at pool1 + pc + length base)\<rparr>"
  let ?fl = "fl2\<lparr>items := items fl2 @ [g]\<rparr>" and ?pc = "pc + length ?s + 1" and ?pool = "pool1\<lparr>b_bytes := bytes\<rparr>"
  have step: "list_loop env junk d f fl pool pc allocs = list_loop env junk d' g ?fl ?pool ?pc as2"
    using d'(1,6) fl1(1) pool1(1,3) len
    by (subst list_loop.simps) (simp add: compileFileStructFromWindowsData_def push_item_def bytes_def g_def Let_def)
  have "describes ?pool base ?pc g (name, Some data)"
    using bytes(2) unfolding describes_def by (intro exI [of _ pc]) (simp add: g_def compileFileStructFromWindowsData_def MAXDWORD_minus)
  moreover have "list_all2 (describes ?pool base ?pc) (items fl2) seen"
    using pool1(4) describes_mono [OF _ bytes(1), of base _ _ ?pc] by (auto intro: list_all2_mono)
  ultimately have "list_all2 (describes ?pool base ?pc) (items ?fl) (seen @ [(name, Some data)])" by (simp add: list_all2_appendI)
  moreover have "starts ?pool ?pc ?fl" using pool1(5) by (auto simp: starts_def g_def split: list.splits)
  ultimately show ?thesis
    using step d'(2-5) len pool1(2,3) bytes(3)
    by (intro exI [of _ d'] exI [of _ g] exI [of _ ?fl] exI [of _ ?pool] exI [of _ ?pc] exI [of _ as2]) simp
qed

lemma list_loop_windows:
  assumes "take (d_plen d) (b_bytes (d_buffer d)) = base" "d_plen d = length base" "NUL \<notin> set base" "\<forall>e \<in> set (d_entries d). NUL \<notin> set (fst e) \<and> snd e \<noteq> None"
    "length (items fl) \<le> list_capacity fl" "pc \<le> length (b_bytes pool)" "list_all2 (describes pool base pc) (items fl) seen" "starts pool pc fl" "plenty allocs"
  shows "\<exists>fl' pool' pc' allocs'. list_loop env junk d f fl pool pc allocs = Inr (fl', pool', allocs')
    \<and> list_all2 (describes pool' base pc') (items fl') (seen @ listed base (length (b_bytes (d_buffer d))) (d_entries d))
    \<and> starts pool' pc' fl' \<and> plenty allocs'"
  using assms
proof (induction "length (d_entries d)" arbitrary: d f fl pool pc seen allocs rule: less_induct)
  case less
  let ?n = "length (b_bytes (d_buffer d))"
  have stop: ?case if "listed base ?n (d_entries d) = []" "list_loop env junk d f fl pool pc allocs = Inr (fl, pool, allocs)"
    using that less.prems(7-9) by auto
  show ?case
  proof (cases "next_visible (d_entries d)")
    case None
    show ?thesis by (rule stop) (use None next_visible_filter [of "d_entries d"] in \<open>simp_all add: listed_def list_loop.simps nextFile_def\<close>)
  next
    case (Some r)
    obtain name odata es where r: "r = ((name, odata), es)" by (cases r) auto
    note nv = Some [unfolded r]
    have vis: "filter (\<lambda>e. visible (fst e)) (d_entries d) = (name, odata) # filter (\<lambda>e. visible (fst e)) es" "(name, odata) \<in> set (d_entries d)" "set es \<subseteq> set (d_entries d)"
      using next_visible_filter [of "d_entries d"] nv by auto
    obtain data where data: "odata = Some data" using less.prems(4) vis(2) by fastforce
    have nn: "NUL \<notin> set name" using less.prems(4) vis(2) by fastforce
    show ?thesis
    proof (cases "length base + length name < ?n")
      case False
      show ?thesis by (rule stop) (use nv False less.prems(2) in \<open>simp_all add: listed_def vis(1) fits_def list_loop.simps nextFile_def\<close>)
    next
      case True
      obtain d' g fl1 pool1 pc1 as1 where rd: "list_loop env junk d f fl pool pc allocs = list_loop env junk d' g fl1 pool1 pc1 as1" "d_entries d' = es" "d_plen d' = length base"
          "take (length base) (b_bytes (d_buffer d')) = base" "length (b_bytes (d_buffer d')) = ?n" "length (items fl1) \<le> list_capacity fl1" "pc1 \<le> length (b_bytes pool1)"
          "list_all2 (describes pool1 base pc1) (items fl1) (seen @ [(name, odata)])" "starts pool1 pc1 fl1" "plenty as1"
        using list_round [OF nv [unfolded data] less.prems(1-3) nn True less.prems(5-9), of env junk f] unfolding data by blast
      have shorter: "length (d_entries d') < length (d_entries d)" using next_visible_shorter [OF nv] rd(2) by simp
      have hyps: "take (d_plen d') (b_bytes (d_buffer d')) = base" "\<forall>e \<in> set (d_entries d'). NUL \<notin> set (fst e) \<and> snd e \<noteq> None" using rd(2-4) less.prems(4) vis(3) by auto
      have "listed base ?n (d_entries d) = (name, odata) # listed base (length (b_bytes (d_buffer d'))) (d_entries d')"
        using True rd(2,5) by (simp add: listed_def vis(1) fits_def)
      then show ?thesis using less.hyps [OF shorter hyps(1) rd(3) less.prems(3) hyps(2) rd(6-10), of g] rd(1) by simp
    qed
  qed
qed

subsection \<open>Listing a directory\<close>

lemma base_buffer:
  assumes "path \<noteq> []" "length (base_path path) < length buffer"
  defines "b \<equiv> (if path ! (length path - 1) \<noteq> PATH_SEP then (blit buffer 0 path)[length path := PATH_SEP] else blit buffer 0 path)"
  shows "take (length (base_path path)) b = base_path path" "length b = length buffer"
proof -
  have l: "last path = path ! (length path - 1)" by (rule last_conv_nth [OF assms(1)])
  have le: "length path \<le> length buffer" using assms(2) by (auto simp: base_path_def split: if_splits)
  then show "length b = length buffer" by (simp add: b_def)
  have "take (length path) (blit buffer 0 path) = path" using take_blit_end [of 0 buffer path] by simp
  then show "take (length (base_path path)) b = base_path path"
    using assms(2) le by (auto simp: b_def base_path_def l take_Suc_conv_app_nth)
qed

lemma open_windows:
  assumes "path \<noteq> []" "length (base_path path) + 1 < length (b_bytes mem)" "find_first env (base_path path @ ''*'') = Some es"
  shows "\<exists>d. openDirectory Windows env mem path = Inr (Some d) \<and> d_entries d = map (\<lambda>(n, x). (n, Some x)) es \<and> d_plen d = length (base_path path)
    \<and> take (d_plen d) (b_bytes (d_buffer d)) = base_path path \<and> length (b_bytes (d_buffer d)) = length (b_bytes mem)"
proof -
  define buffer where "buffer = b_bytes mem"
  define b where "b = (if path ! (length path - 1) \<noteq> PATH_SEP then (blit buffer 0 path)[length path := PATH_SEP] else blit buffer 0 path)"
  have b: "take (length (base_path path)) b = base_path path" "length b = length buffer" using base_buffer [OF assms(1), of buffer] assms(2) by (simp_all add: b_def buffer_def)
  let ?n = "length (base_path path)"
  let ?b = "b[?n := CHR ''*'', ?n + 1 := NUL]"
  have l: "last path = path ! (length path - 1)" by (rule last_conv_nth [OF assms(1)])
  have n: "?n = (if path ! (length path - 1) \<noteq> PATH_SEP then length path + 1 else length path)" by (simp add: base_path_def l)
  have t: "take (?n + 1) ?b = base_path path @ ''*''" using b assms(2) by (simp add: take_Suc_conv_app_nth buffer_def)
  have "openDirectory Windows env mem path = Inr (Some \<lparr>d_entries = map (\<lambda>(n, d). (n, Some d)) es, d_plen = ?n, d_buffer = mem\<lparr>b_bytes := ?b\<rparr>\<rparr>)"
    using assms t b(2) n unfolding b_def openDirectory_def buffer_def by (auto simp: Let_def split: if_splits)
  then show ?thesis using b by (auto simp: buffer_def)
qed

lemma list_windows:
  assumes "plenty allocs" "path \<noteq> []" "NUL \<notin> set path" "length (base_path path) + 1 < length (b_bytes mem)" "find_first env (base_path path @ ''*'') = Some es" "\<forall>e \<in> set es. NUL \<notin> set (fst e)"
  shows "\<exists>fl pool allocs'. listFiles Windows env junk mem f path allocs = Inr (Some (fl, pool), allocs') \<and> plenty allocs'
    \<and> list_all2 (\<lambda>g e. (\<exists>p q. f_path g = Some p \<and> cstr pool p = Inr (base_path path @ fst e) \<and> f_name g = Some q \<and> cstr pool q = Inr (fst e)) \<and> f_dir g = attr_directory (snd e))
        (items fl) (listed (base_path path) (length (b_bytes mem)) es)
    \<and> freeFileList pool fl = Inr ()"
proof -
  let ?base = "base_path path" and ?n = "length (b_bytes mem)"
  obtain d where d: "openDirectory Windows env mem path = Inr (Some d)" "d_entries d = map (\<lambda>(n, x). (n, Some x)) es" "d_plen d = length ?base"
      "take (d_plen d) (b_bytes (d_buffer d)) = ?base" "length (b_bytes (d_buffer d)) = ?n"
    using open_windows [OF assms(2,4,5)] by blast
  have base: "NUL \<notin> set ?base" using assms(3) by (simp add: base_path_def)
  have e: "\<forall>e \<in> set (d_entries d). NUL \<notin> set (fst e) \<and> snd e \<noteq> None" using assms(6) by (auto simp: d(2))
  let ?fl = "\<lparr>items = [], list_capacity = 0\<rparr> :: file_list" and ?pool = "\<lparr>b_at = 0, b_bytes = []\<rparr> :: block"
  obtain fl pool pc as where l: "list_loop env junk d f ?fl ?pool 0 allocs = Inr (fl, pool, as)"
      "list_all2 (describes pool ?base pc) (items fl) (listed ?base ?n (d_entries d))" "starts pool pc fl" "plenty as"
    using list_loop_windows [OF d(4,3) base e, of ?fl 0 ?pool "[]" allocs env junk f] assms(1) d(5) by (auto simp: starts_def)
  have m: "listed ?base n (map (\<lambda>(n, x). (n, Some x)) xs) = map (\<lambda>(n, x). (n, Some x)) (listed ?base n xs)" for n and xs :: "(string \<times> find_data) list"
    by (simp add: listed_def filter_map takeWhile_map comp_def fits_def [abs_def] case_prod_unfold)
  have entry: "(\<exists>p q. f_path g = Some p \<and> cstr pool p = Inr (?base @ n) \<and> f_name g = Some q \<and> cstr pool q = Inr n) \<and> f_dir g = attr_directory x"
    if desc: "describes pool ?base pc g (n, Some x)" and mem: "(n, x) \<in> set es" for g n x
  proof -
    obtain p where p: "f_path g = Some (b_at pool + p)" "f_name g = Some (b_at pool + (p + length ?base))" "chunk (b_bytes pool) p (length ?base + length n + 1) = ?base @ n @ [NUL]" "f_dir g = attr_directory x"
      using desc by (auto simp: describes_def add.assoc)
    have n: "NUL \<notin> set n" using assms(6) mem by fastforce
    have "cstr pool (b_at pool + p) = Inr (?base @ n)" by (rule cstr_chunk) (use base n p(3) in \<open>auto simp: add.assoc\<close>)
    moreover have "cstr pool (b_at pool + (p + length ?base)) = Inr n"
    proof (rule cstr_chunk [OF n])
      show "chunk (b_bytes pool) (p + length ?base) (length n + 1) = n @ [NUL]"
        using arg_cong [OF p(3), of "drop (length ?base)"] by (simp add: chunk_def drop_take add.commute)
    qed
    ultimately show ?thesis using p by auto
  qed
  have sub: "set (listed ?base (?n) es) \<subseteq> set es" by (auto simp: listed_def dest: set_takeWhileD)
  have "list_all2 (\<lambda>g e. describes pool ?base pc g (fst e, Some (snd e))) (items fl) (listed ?base (?n) es)"
    using l(2) unfolding d(2) m by (simp add: list_all2_map2 case_prod_unfold)
  then have "list_all2 (\<lambda>g e. (\<exists>p q. f_path g = Some p \<and> cstr pool p = Inr (?base @ fst e) \<and> f_name g = Some q \<and> cstr pool q = Inr (fst e)) \<and> f_dir g = attr_directory (snd e))
        (items fl) (listed ?base (?n) es)"
    by (rule list.rel_mono_strong) (rule entry, assumption, use sub in auto)
  moreover have "freeFileList pool fl = Inr ()" using l(3) by (cases "items fl") (auto simp: freeFileList_def starts_def)
  ultimately show ?thesis using d(1) l(1,4) by (simp add: listFiles_def)
qed

text \<open>C30: On Windows, as long as memory can be had, listing a directory gives one file for each entry that does not start with a dot, in the order of the directory, up to the first one
whose path does not fit in the buffer: later entries are left out without an error. The path and name of every file are complete strings in the memory of the list, wherever the allocator has
moved it while it grew, and the list can be given back.\<close>

theorem file_list_windows:
  assumes "plenty allocs" "path \<noteq> []" "NUL \<notin> set path" "length (base_path path) + 1 < length (b_bytes mem)" "find_first env (base_path path @ ''*'') = Some es" "\<forall>e \<in> set es. NUL \<notin> set (fst e)"
  shows "\<exists>fl pool allocs'. listFiles Windows env junk mem f path allocs = Inr (Some (fl, pool), allocs') \<and> plenty allocs'
    \<and> list_all2 (\<lambda>g e. (\<exists>p q. f_path g = Some p \<and> cstr pool p = Inr (base_path path @ fst e) \<and> f_name g = Some q \<and> cstr pool q = Inr (fst e)) \<and> f_dir g = attr_directory (snd e))
        (items fl) (listed (base_path path) (length (b_bytes mem)) es)
    \<and> freeFileList pool fl = Inr ()"
  using assms by (rule list_windows)

definition demo_entry :: "bool \<Rightarrow> find_data" where
  "demo_entry is_dir = \<lparr>attr_directory = is_dir, nFileSizeHigh = 1, nFileSizeLow = 5, ftCreationTime = 0, ftLastWriteTime = 0, ftLastAccessTime = 0\<rparr>"

definition demo_files :: file_env where
  "demo_files = \<lparr>stat_os = (\<lambda>_. Some \<lparr>S_ISDIR = True, st_size = 0, st_ctime = 0, st_mtime = 0, st_atime = 0\<rparr>),
     opendir = (\<lambda>_. Some [''..'', ''b'']), find_first = (\<lambda>_. Some [(''..'', demo_entry True), (''b'', demo_entry True), (''c'', demo_entry False)])\<rparr>"

definition blank_file :: File where
  "blank_file = \<lparr>f_dir = False, f_path = None, f_name = None, f_size = 0, time_create = 0, time_modify = 0, time_access = 0\<rparr>"

text \<open>A path buffer, and an allocator that moves the memory at every call.\<close>

definition demo_mem :: block where
  "demo_mem = \<lparr>b_at = 1, b_bytes = replicate 32 CHR ''z''\<rparr>"

definition demo_allocs :: allocations where
  "demo_allocs k = Some (8 * k + 40)"

lemma demo_plenty: "plenty demo_allocs"
  by (simp add: plenty_def demo_allocs_def)

lemma demo_mem_length: "length (b_bytes demo_mem) = 32"
  by (simp add: demo_mem_def)

theorem file_list_windows_witness:
  "length (base_path ''a'') + 1 < length (b_bytes demo_mem) \<and>
   (\<exists>fl pool allocs'. listFiles Windows demo_files CHR ''j'' demo_mem blank_file ''a'' demo_allocs = Inr (Some (fl, pool), allocs') \<and> length (items fl) = 2)"
proof -
  have e: "find_first demo_files (base_path ''a'' @ ''*'') = Some [(''..'', demo_entry True), (''b'', demo_entry True), (''c'', demo_entry False)]" by (simp add: demo_files_def)
  have n: "length (listed (base_path ''a'') (length (b_bytes demo_mem)) [(''..'', demo_entry True), (''b'', demo_entry True), (''c'', demo_entry False)]) = 2" by code_simp
  show ?thesis
    using file_list_windows [OF demo_plenty _ _ _ e, where mem = demo_mem and junk = "CHR ''j''" and f = blank_file] n
    by (auto simp: base_path_def demo_mem_length dest: list_all2_lengthD)
qed

text \<open>On Linux the query that follows the name of an entry clears the pointers to its path, and the list is built from these pointers: listing a directory whose first entry that does not
start with a dot has a path that fits and can be queried follows a null pointer, whatever else the directory holds.\<close>

theorem file_list_linux_crashes:
  assumes "allocs 0 \<noteq> None" "path \<noteq> []" "NUL \<notin> set path" "length (base_path path) < length (b_bytes mem)" "opendir env path = Some ns" "filter visible ns = n # rest" "NUL \<notin> set n"
    "length (base_path path) + length n < length (b_bytes mem)" "stat_os env (base_path path @ n) = Some s"
  shows "listFiles Linux env junk mem f path allocs = Inl Null_pointer"
proof -
  let ?base = "base_path path"
  define buffer where "buffer = b_bytes mem"
  define b where "b = (if path ! (length path - 1) \<noteq> PATH_SEP then (blit buffer 0 path)[length path := PATH_SEP] else blit buffer 0 path)"
  have b: "take (length ?base) b = ?base" "length b = length buffer" using base_buffer [OF assms(2), of buffer] assms(4) by (simp_all add: b_def buffer_def)
  have l: "last path = path ! (length path - 1)" by (rule last_conv_nth [OF assms(2)])
  have len: "length ?base = (if path ! (length path - 1) \<noteq> PATH_SEP then length path + 1 else length path)" by (simp add: base_path_def l)
  define d where "d = \<lparr>d_entries = map (\<lambda>n. (n, None)) ns, d_plen = length ?base, d_buffer = mem\<lparr>b_bytes := b\<rparr>\<rparr>"
  have op: "openDirectory Linux env mem path = Inr (Some d)"
    using assms(2,4,5) len unfolding openDirectory_def d_def b_def buffer_def by (auto simp: Let_def split: if_splits)
  obtain es where nv: "next_visible (d_entries d) = Some ((n, None), es)"
  proof -
    have "filter (\<lambda>e. visible (fst e)) (d_entries d) = map (\<lambda>n. (n, None)) (filter visible ns)" by (simp add: d_def filter_map comp_def)
    then show thesis using next_visible_filter [of "d_entries d"] assms(6) that by (auto split: option.splits)
  qed
  let ?b = "(blit b (length ?base) n)[length ?base + length n := NUL]"
  have le: "length ?base + length n \<le> length b" using assms(8) b(2) by (simp add: buffer_def)
  have "take (length ?base + length n) (blit b (length ?base) n) = ?base @ n"
    using take_blit_end [of "length ?base" b n] b(1) le by simp
  then have "drop 0 ?b = (?base @ n) @ NUL # drop (length ?base + length n + 1) (blit b (length ?base) n)"
    using le assms(8) b(2) by (simp add: upd_conv_take_nth_drop buffer_def)
  then have "cstr (mem\<lparr>b_bytes := ?b\<rparr>) (b_at (mem\<lparr>b_bytes := ?b\<rparr>) + 0) = Inr (?base @ n)" by (intro cstr_at [rotated]) (use assms(3,7) in \<open>auto simp: base_path_def\<close>)
  then have "\<exists>d' g. nextFile env d f = Inr (True, d', g) \<and> f_path g = None"
    using nv assms(8,9) b(2) le by (simp add: nextFile_def d_def queryFile_def buffer_def)
  then obtain d' g where g: "nextFile env d f = Inr (True, d', g)" "f_path g = None" by blast
  have "list_loop env junk d f \<lparr>items = [], list_capacity = 0\<rparr> \<lparr>b_at = 0, b_bytes = []\<rparr> 0 allocs = Inl Null_pointer"
    using g assms(1) by (subst list_loop.simps) (auto simp: grow_items_def next_alloc_def)
  then show ?thesis using op by (simp add: listFiles_def)
qed

theorem file_list_linux_crashes_witness:
  "filter visible [''..'', ''b''] = [''b''] \<and> listFiles Linux demo_files CHR ''j'' demo_mem blank_file ''a'' demo_allocs = Inl Null_pointer"
proof -
  have v: "filter visible [''..'', ''b''] = [''b'']" by (simp add: visible_def)
  show ?thesis
    using file_list_linux_crashes [of demo_allocs "''a''" demo_mem demo_files "[''..'', ''b'']" "''b''" "[]"] v by (simp add: demo_files_def base_path_def demo_mem_length demo_allocs_def)
qed

subsection \<open>Trees\<close>

lemma subtree_loop_counts:
  "subtree_loop platform env junk mem f depth pool gs allocs = Inr (dirs, files, allocs') \<Longrightarrow>
     length dirs = length (filter f_dir gs) \<and> length files + length (filter f_dir gs) = length gs"
proof (induction gs arbitrary: allocs dirs files allocs')
  case (Cons g gs)
  show ?case
  proof (cases "f_dir g")
    case True
    then obtain as ts where "subtree_loop platform env junk mem f depth pool gs as = Inr (ts, files, allocs')" "length dirs = Suc (length ts)"
      using Cons.prems by (auto simp: rbind_eq_Inr split: option.splits)
    then show ?thesis using Cons.IH True by fastforce
  next
    case False
    then obtain fs where "subtree_loop platform env junk mem f depth pool gs allocs = Inr (dirs, fs, allocs')" "files = g # fs"
      using Cons.prems by (auto simp: rbind_eq_Inr)
    then show ?thesis using Cons.IH False by fastforce
  qed
qed simp

text \<open>The two arrays of a tree have room for exactly the directories and files that are stored in them, on both platforms and whatever allocations fail.\<close>

theorem file_tree_counts:
  assumes "listSubtree platform env junk mem f depth dir info allocs = Inr (t, allocs')"
  shows "length (t_dirs t) = dirs_count t \<and> length (t_files t) = files_count t"
proof (cases depth)
  case (Suc d)
  then obtain r as where l: "listFiles platform env junk mem f dir allocs = Inr (r, as)" using assms by (auto simp: rbind_eq_Inr)
  show ?thesis
  proof (cases r)
    case (Some flp)
    obtain fl pool where flp: "flp = (fl, pool)" by (cases flp)
    obtain at1 as1 where a1: "next_alloc as = (at1, as1)" by fastforce
    obtain at2 as2 where a2: "next_alloc as1 = (at2, as2)" by fastforce
    show ?thesis using assms l Some flp a1 a2 Suc by (auto simp: rbind_eq_Inr countDirs_def split: if_splits dest!: subtree_loop_counts)
  qed (use assms l Suc in auto)
qed (use assms in auto)

theorem file_tree_counts_witness:
  "\<exists>t allocs'. listSubtree Windows demo_files CHR ''j'' demo_mem blank_file 1 ''a'' blank_file demo_allocs = Inr (t, allocs') \<and> length (t_dirs t) = dirs_count t"
proof -
  let ?r = "listSubtree Windows demo_files CHR ''j'' demo_mem blank_file 1 ''a'' blank_file demo_allocs"
  have "\<not> isl ?r" by code_simp
  then have "?r = Inr (fst (projr ?r), snd (projr ?r))" by (simp add: sum.expand)
  from file_tree_counts [OF this] this show ?thesis by blast
qed

text \<open>The names in a tree, and the names that the directories hold down to a depth, listed as the list does.\<close>

datatype names = Names "string list" "(string \<times> names) list"

definition text_at :: "block \<Rightarrow> nat option \<Rightarrow> string" where
  "text_at pool p = (case p of None \<Rightarrow> [] | Some p \<Rightarrow> (case cstr pool p of Inl _ \<Rightarrow> [] | Inr s \<Rightarrow> s))"

fun tree_names :: "file_tree \<Rightarrow> names" where
  "tree_names (File_tree info head dirs files nd nf loaded error pool) =
     Names (map (\<lambda>f. text_at pool (f_name f)) files) (map (\<lambda>t. (text_at pool (f_name (t_info t)), tree_names t)) dirs)"

fun names_below :: "file_env \<Rightarrow> nat \<Rightarrow> nat \<Rightarrow> string \<Rightarrow> names" where
  "names_below env n 0 path = Names [] []"
| "names_below env n (Suc depth) path =
     (if length (base_path path) + 1 < n then
        case find_first env (base_path path @ ''*'') of
          None \<Rightarrow> Names [] []
        | Some es \<Rightarrow>
            let l = listed (base_path path) n es in
            Names (map fst (filter (\<lambda>e. \<not> attr_directory (snd e)) l))
              (map (\<lambda>e. (fst e, names_below env n depth (base_path path @ fst e))) (filter (\<lambda>e. attr_directory (snd e)) l))
      else Names [] [])"

lemma open_windows_fails:
  assumes "path \<noteq> []" "\<not> (length (base_path path) + 1 < length (b_bytes mem)) \<or> find_first env (base_path path @ ''*'') = None"
  shows "openDirectory Windows env mem path = Inr None"
proof (cases "length (base_path path) + 1 < length (b_bytes mem)")
  case True
  define buffer where "buffer = b_bytes mem"
  define b where "b = (if path ! (length path - 1) \<noteq> PATH_SEP then (blit buffer 0 path)[length path := PATH_SEP] else blit buffer 0 path)"
  have b: "take (length (base_path path)) b = base_path path" "length b = length buffer" using base_buffer [OF assms(1), of buffer] True by (simp_all add: b_def buffer_def)
  let ?n = "length (base_path path)"
  have l: "last path = path ! (length path - 1)" by (rule last_conv_nth [OF assms(1)])
  have n: "?n = (if path ! (length path - 1) \<noteq> PATH_SEP then length path + 1 else length path)" by (simp add: base_path_def l)
  have t: "take (?n + 1) (b[?n := CHR ''*'', ?n + 1 := NUL]) = base_path path @ ''*''" using b True by (simp add: take_Suc_conv_app_nth buffer_def)
  show ?thesis using assms t b(2) n True unfolding b_def openDirectory_def buffer_def by (auto simp: Let_def split: if_splits)
next
  case False
  then show ?thesis using last_conv_nth [OF assms(1)] by (auto simp: openDirectory_def base_path_def Let_def split: if_splits)
qed

lemma subtree_windows_loop:
  assumes "list_all2 (\<lambda>g e. (\<exists>p q. f_path g = Some p \<and> cstr pool p = Inr (base @ fst e) \<and> f_name g = Some q \<and> cstr pool q = Inr (fst e)) \<and> f_dir g = attr_directory (snd e)) gs es"
    "\<And>e info allocs. plenty allocs \<Longrightarrow> e \<in> set es \<Longrightarrow> attr_directory (snd e) \<Longrightarrow>
       \<exists>t allocs'. listSubtree Windows env junk mem f depth (base @ fst e) info allocs = Inr (t, allocs') \<and> plenty allocs' \<and> t_info t = info \<and> tree_names t = sub (fst e)"
    "plenty allocs"
  shows "\<exists>dirs files allocs'. subtree_loop Windows env junk mem f depth pool gs allocs = Inr (dirs, files, allocs') \<and> plenty allocs'
    \<and> map (\<lambda>f. text_at pool (f_name f)) files = map fst (filter (\<lambda>e. \<not> attr_directory (snd e)) es)
    \<and> map (\<lambda>t. (text_at pool (f_name (t_info t)), tree_names t)) dirs = map (\<lambda>e. (fst e, sub (fst e))) (filter (\<lambda>e. attr_directory (snd e)) es)"
  using assms
proof (induction arbitrary: allocs rule: list_all2_induct)
  case (Cons g gs e es)
  have ih: "\<exists>dirs files allocs'. subtree_loop Windows env junk mem f depth pool gs as = Inr (dirs, files, allocs') \<and> plenty allocs'
      \<and> map (\<lambda>f. text_at pool (f_name f)) files = map fst (filter (\<lambda>e. \<not> attr_directory (snd e)) es)
      \<and> map (\<lambda>t. (text_at pool (f_name (t_info t)), tree_names t)) dirs = map (\<lambda>e. (fst e, sub (fst e))) (filter (\<lambda>e. attr_directory (snd e)) es)" if "plenty as" for as
    by (rule Cons.IH [OF _ that]) (use Cons.prems(1) in simp)
  obtain p q where g: "f_path g = Some p" "cstr pool p = Inr (base @ fst e)" "f_name g = Some q" "cstr pool q = Inr (fst e)" "f_dir g = attr_directory (snd e)"
    using Cons.hyps(1) by blast
  show ?case
  proof (cases "f_dir g")
    case True
    then obtain t as where t: "listSubtree Windows env junk mem f depth (base @ fst e) g allocs = Inr (t, as)" "plenty as" "t_info t = g" "tree_names t = sub (fst e)"
      using Cons.prems(1) [OF Cons.prems(2), of e g] g(5) by auto
    show ?thesis using ih [OF t(2)] t g True by (auto simp: text_at_def)
  next
    case False
    then show ?thesis using ih [OF Cons.prems(2)] g by (auto simp: text_at_def)
  qed
qed simp

text \<open>C14: On Windows, as long as memory can be had, and wherever the allocator puts it, the tree that is built holds exactly the names of the directories, to the given depth: at each level the
directories and the other files in the order of the list, and below each directory what listing it gives.\<close>

theorem file_tree_windows:
  assumes "plenty allocs" "path \<noteq> []" "NUL \<notin> set path" "\<And>p es. find_first env p = Some es \<Longrightarrow> \<forall>e \<in> set es. NUL \<notin> set (fst e)"
  shows "\<exists>t allocs'. listSubtree Windows env junk mem f depth path info allocs = Inr (t, allocs') \<and> plenty allocs' \<and> t_info t = info
    \<and> tree_names t = names_below env (length (b_bytes mem)) depth path"
  using assms(1-3)
proof (induction depth arbitrary: path info allocs)
  case (Suc depth)
  let ?base = "base_path path" and ?n = "length (b_bytes mem)"
  show ?case
  proof (cases "length ?base + 1 < ?n \<and> find_first env (?base @ ''*'') \<noteq> None")
    case False
    then have "listFiles Windows env junk mem f path allocs = Inr (None, allocs)" using open_windows_fails [OF Suc.prems(2), of mem env] by (auto simp: listFiles_def)
    then show ?thesis using False Suc.prems(1) by (auto split: option.splits)
  next
    case True
    then obtain es where es: "length ?base + 1 < ?n" "find_first env (?base @ ''*'') = Some es" by auto
    have nul: "\<forall>e \<in> set es. NUL \<notin> set (fst e)" by (rule assms(4) [OF es(2)])
    let ?l = "listed ?base ?n es"
    obtain fl pool as where fl: "listFiles Windows env junk mem f path allocs = Inr (Some (fl, pool), as)" "plenty as"
        "list_all2 (\<lambda>g e. (\<exists>p q. f_path g = Some p \<and> cstr pool p = Inr (?base @ fst e) \<and> f_name g = Some q \<and> cstr pool q = Inr (fst e)) \<and> f_dir g = attr_directory (snd e)) (items fl) ?l"
      using list_windows [OF Suc.prems es nul] by blast
    obtain a1 as1 a2 as2 where a: "next_alloc as = (Some a1, as1)" "next_alloc as1 = (Some a2, as2)" "plenty as2"
      using next_alloc_plenty [OF fl(2)] next_alloc_plenty by metis
    have sub: "\<exists>t allocs'. listSubtree Windows env junk mem f depth (?base @ fst e) info as = Inr (t, allocs') \<and> plenty allocs' \<and> t_info t = info
        \<and> tree_names t = names_below env ?n depth (?base @ fst e)" if "plenty as" "e \<in> set ?l" for e info as
    proof (rule Suc.IH [OF that(1)])
      have "e \<in> set es" using that(2) by (auto simp: listed_def dest: set_takeWhileD)
      then show "NUL \<notin> set (?base @ fst e)" using Suc.prems(3) nul by (auto simp: base_path_def)
      show "?base @ fst e \<noteq> []" using Suc.prems(2) by (simp add: base_path_def)
    qed
    obtain dirs files as3 where loop: "subtree_loop Windows env junk mem f depth pool (items fl) as2 = Inr (dirs, files, as3)" "plenty as3"
        "map (\<lambda>f. text_at pool (f_name f)) files = map fst (filter (\<lambda>e. \<not> attr_directory (snd e)) ?l)"
        "map (\<lambda>t. (text_at pool (f_name (t_info t)), tree_names t)) dirs
          = map (\<lambda>e. (fst e, names_below env ?n depth (?base @ fst e))) (filter (\<lambda>e. attr_directory (snd e)) ?l)"
      using subtree_windows_loop [OF fl(3), of env junk mem f depth "\<lambda>n. names_below env ?n depth (?base @ n)" as2] sub a(3) by blast
    show ?thesis using fl(1) loop es a by (simp add: Let_def)
  qed
qed simp

theorem file_tree_windows_witness:
  "names_below demo_files 32 1 ''a'' = Names [''c''] [(''b'', Names [] [])]
   \<and> (\<exists>t allocs'. listSubtree Windows demo_files CHR ''j'' demo_mem blank_file 1 ''a'' blank_file demo_allocs = Inr (t, allocs') \<and> tree_names t = Names [''c''] [(''b'', Names [] [])])"
proof -
  have n: "names_below demo_files 32 1 ''a'' = Names [''c''] [(''b'', Names [] [])]" by code_simp
  have "\<forall>e \<in> set es. NUL \<notin> set (fst e)" if "find_first demo_files p = Some es" for p es using that by (auto simp: demo_files_def)
  then show ?thesis
    using file_tree_windows [OF demo_plenty, of "''a''" demo_files "CHR ''j''" demo_mem blank_file 1 blank_file] n by (auto simp: demo_mem_length)
qed

text \<open>Giving back a tree frees a pointer that was never written wherever the tree holds a directory without files in its list, in particular at every directory on its last level.\<close>

theorem file_tree_free_fails:
  assumes "listSubtree platform env junk mem f 1 dir info allocs = Inr (t, allocs')" "t_dirs t \<noteq> []"
  shows "freeFileTree t = Inl Out_of_bounds"
proof -
  have loop: "d = empty_tree (t_info d) False" if "subtree_loop platform env junk mem f 0 pool gs as = Inr (dirs, files, as')" "d \<in> set dirs" for pool gs as dirs files as' d
    using that by (induction gs arbitrary: as dirs files as') (auto simp: rbind_eq_Inr split: if_splits option.splits)
  obtain r as where l: "listFiles platform env junk mem f dir allocs = Inr (r, as)" using assms(1) by (auto simp: rbind_eq_Inr)
  obtain at1 as1 where a1: "next_alloc as = (at1, as1)" by fastforce
  obtain at2 as2 where a2: "next_alloc as1 = (at2, as2)" by fastforce
  have all: "\<forall>d \<in> set (t_dirs t). d = empty_tree (t_info d) False"
    using assms(1) l a1 a2 by (cases r) (auto simp: rbind_eq_Inr split: if_splits prod.splits dest: loop)
  obtain d ds where ds: "t_dirs t = d # ds" using assms(2) by (cases "t_dirs t") auto
  then have "d = empty_tree (t_info d) False" using all by simp
  then have "freeFileTree d = Inl Out_of_bounds" by (metis freeFileTree.simps free_dirs.simps(1) option.simps(4) rbind_Inr)
  then show ?thesis using ds by (cases t) simp
qed

theorem file_tree_free_fails_witness:
  "\<exists>t allocs'. listSubtree Windows demo_files CHR ''j'' demo_mem blank_file 1 ''a'' blank_file demo_allocs = Inr (t, allocs') \<and> freeFileTree t = Inl Out_of_bounds"
proof -
  let ?r = "listSubtree Windows demo_files CHR ''j'' demo_mem blank_file 1 ''a'' blank_file demo_allocs"
  have "\<not> isl ?r" by code_simp
  then have r: "?r = Inr (fst (projr ?r), snd (projr ?r))" by (simp add: sum.expand)
  have "t_dirs (fst (projr ?r)) \<noteq> []" by code_simp
  from file_tree_free_fails [OF r this] r show ?thesis by blast
qed

text \<open>The copy of the path that a tree is built from is not terminated: unless the byte after it happens to be zero, listing the tree of a directory that exists reads past the copy.\<close>

theorem file_tree_path_unterminated:
  assumes "dir \<noteq> []" "NUL \<notin> set dir" "queryFile platform env dir f = (True, g)" "f_dir g" "junk \<noteq> NUL" "allocs 0 = Some at"
  shows "listTree platform env junk mem f (Some dir) depth allocs = Inl Out_of_bounds"
proof -
  define len where "len = (if last dir = PATH_SEP then length dir - 1 else length dir)"
  let ?copy = "take len dir @ [junk]"
  have len: "len \<le> length dir" by (simp add: len_def)
  have copy: "memcpy (replicate (len + 1) junk) 0 (take len dir) = Inr ?copy"
    using len by (simp add: memcpy_def blit_def replicate_append_same [symmetric] min_absorb2)
  have "\<exists>sep. last_sep ?copy n = Inr sep" if "n \<le> len" for n
    using that len by (induction n) (auto simp: rd_def)
  then obtain sep where sep: "last_sep ?copy len = Inr sep" by blast
  have "NUL \<notin> set ?copy" using assms(2,5) by (auto dest: in_set_takeD)
  then have "takeWhile (\<lambda>c. c \<noteq> NUL) (drop 0 ?copy) = ?copy" by (simp only: drop0) (rule takeWhile_eq_all_conv [THEN iffD2], metis)
  then have "cstr \<lparr>b_at = at, b_bytes = ?copy\<rparr> at = Inl Out_of_bounds" unfolding cstr_def Let_def by simp
  then show ?thesis
    using assms(1,3,4,6) copy sep by (simp add: listTree_def len_def [symmetric] next_alloc_def)
qed

theorem file_tree_path_unterminated_witness:
  "listTree Linux demo_files CHR ''j'' demo_mem blank_file (Some ''a'') 1 demo_allocs = Inl Out_of_bounds"
proof -
  let ?q = "queryFile Linux demo_files ''a'' blank_file"
  have "?q = (True, snd ?q)" "f_dir (snd ?q)" by (simp_all add: queryFile_def demo_files_def)
  then show ?thesis using file_tree_path_unterminated [of "''a''" Linux demo_files blank_file "snd ?q" "CHR ''j''" demo_allocs] by (simp add: demo_allocs_def)
qed

end
