(* ===== verification/Spec2Isabelle.thy ===== *)
theory Spec2Isabelle
  imports GapIter Bits ByteQueue Spsc SpscConc Mpmc Spmc HashMapRef BuddySystem HttpPath Cookie QueryString Semaphore Pool StaticClaims TcpSystem LogClaims IoClaims SqlUtils FileClaims
begin

section \<open>Verification of the snippet collection\<close>

section \<open>Verification of the snippet collection\<close>

text \<open>
  This library verifies the components of a collection of C programs and libraries. Each directory under \<^verbatim>\<open>src/\<close> holds a component or a group of them; they share little code, and the
  dependencies there are (the server on the parser, the static files on server and paths, the logger on queue and semaphore, the TCP wrapper on the byte queue) are the imports
  of the theories. Definitions have the names of the C functions; a name that two files use is told apart by its theory.

  \<^bigskip>\<^bold>\<open>Conventions.\<close> A function that can fail an assertion, abort, leave an array or follow a null pointer returns a value of the type \<open>res\<close>: \<open>Inl\<close> with the fault or \<open>Inr\<close>
  with the result (\<open>Prelude\<close>). Machine integers are words where wrap-around can matter, and naturals or integers with a check elsewhere. Pointers into a structure are indices;
  where addresses themselves matter (buddy allocator, pool allocator, file lists) they are addresses. What the operating system, the allocator or a foreign library answers is an
  argument. Loops that may not end take a number of iterations and return \<open>None\<close> when it is used up; a result that is shown for one number holds for all larger ones.

  \<^bigskip>\<^bold>\<open>Interfaces.\<close> The locales state what the components promise. \<open>simulation\<close> (\<open>Prelude\<close>): running operations on an implementation gives the answers of a specification; the gap buffer
  is an instance over lists of symbols (\<open>gap\<close>). \<open>invariant_system\<close> (\<open>Prelude\<close>): what every reachable state of a step relation satisfies; instances are the buddy allocator (\<open>buddy\<close>), the
  pool allocator (\<open>single\<close>), the interleaved queues (\<open>spsc_conc\<close>, \<open>mpmc\<close>), the semaphore (\<open>sem\<close>), the HTTP server (\<open>http\<close>), the TCP wrapper (\<open>tcp\<close>), the logger (\<open>logger\<close>) and the io_uring library (\<open>io\<close>).
  \<open>bounded_fifo\<close> (\<open>Fifo\<close>): a bounded first-in first-out queue; instances are the byte queue (\<open>bq\<close>) and the ring (\<open>spsc\<close>). \<open>word_map\<close> (\<open>WordMap\<close>): a finite map of words; instances are the hash map
  (\<open>hm\<close>) and the reference map (\<open>refm\<close>), and \<open>two_maps\<close>, which extends it to a pair of implementations (\<open>both\<close>).

  \<^bigskip>\<^bold>\<open>The parts.\<close>

  \<^item> \<^verbatim>\<open>bits/bits.c\<close>, \<^verbatim>\<open>bits/endian.c\<close>: \<open>Bits\<close>. The scan for the lowest set bit, the test for powers of two and the byte order conversions, with their results and round trips.

  \<^item> \<^verbatim>\<open>gap_buffer/gap_buffer.c\<close>: \<open>Utf8\<close> (decoding and validation), \<open>GapBuffer\<close> (the struct and every operation that edits or moves), \<open>GapIter\<close> (the line iterator, cloning, relocating). The state is the
  struct with its flexible array; the abstraction is two lists of symbols. Lemmas: what each operation does to the two lists, the invariant, the lines that the iterator yields, and the two
  places where the code loses text or overruns an array.

  \<^item> \<^verbatim>\<open>tcp/byte_queue.c\<close>: \<open>ByteQueue\<close>; \<^verbatim>\<open>lockfree/spsc_queue.c\<close>: \<open>Spsc\<close> at machine width and \<open>SpscConc\<close> with producer and consumer interleaved at every atomic access; \<^verbatim>\<open>lockfree/mpmc_queue.c\<close>: \<open>Mpmc\<close>, any
  number of threads; \<^verbatim>\<open>lockfree/spmc_queue.c\<close>: \<open>Spmc\<close>, one operation at a time. The interleaved models have natural numbers as positions. Up to \<open>2 ^ 31\<close> items the narrowing of
  a position to \<open>int\<close> in the MPMC queue is harmless; one theorem shows that it is not afterwards.

  \<^item> \<^verbatim>\<open>hashmap/hash_map.c\<close>: \<open>HashProbe\<close> (the probe sequence meets every slot within \<open>13 + 2 ^ k\<close> probes, which bounds the fuel of the search loops) and \<open>HashMap\<close> (create, insert with resize, remove, select);
  \<^verbatim>\<open>hashmap/hash_map_ref.c\<close>: \<open>HashMapRef\<close>. The mutex kind and the memory are a parameter. The hash map refines a finite map when the mutex is recursive and removals are rare enough
  that a never-used slot is always left; two theorems show what happens otherwise.

  \<^item> \<^verbatim>\<open>alloc/buddy.c\<close>: \<open>BuddyTree\<close> (tilings of the pool by blocks, without machine words), \<open>Buddy\<close> (every function, on 64-bit addresses), \<open>BuddyBits\<close>, \<open>BuddyMarks\<close>, \<open>BuddyLists\<close>, \<open>BuddySteps\<close>, \<open>BuddyCalls\<close> and
  \<open>BuddyStartup\<close> (that the functions act on tilings: addresses, mark bits, linked lists, the loops, whole calls, start-up), \<open>BuddySystem\<close> (a client that allocates, writes and
  frees; the properties). \<^verbatim>\<open>alloc/pool.c\<close>: \<open>Pool\<close>, with the page size and the choice of pages as parameters; the safety property is about items so large that a page has one slot,
  since the code links the slots of a page wrongly: with more of them the second request follows a null pointer, which another theorem shows.

  \<^item> \<^verbatim>\<open>http/parse.c\<close>: \<open>Parse\<close>; \<^verbatim>\<open>http/path.c\<close>: \<open>HttpPath\<close>; \<^verbatim>\<open>http/cookie.c\<close>: \<open>Cookie\<close>; \<^verbatim>\<open>http/query_string.c\<close>: \<open>QueryString\<close>. Scanners over strings with reads past the end as faults: round trips
  with printers, absence of faults on the inputs that the server passes, and exact characterisations of what is accepted.

  \<^item> \<^verbatim>\<open>http/server.c\<close>: \<open>HttpBuffer\<close> (\<^verbatim>\<open>struct iobuf\<close>), \<open>HttpServer\<close> (the state and every operation), \<open>HttpSlots\<close> (the invariant of the client structures, the poll array, the stack of free structures and the
  queue; accepting, closing and a round of input and output), \<open>HttpCalls\<close> (every call keeps it), \<open>HttpRoom\<close> (the queue cannot overflow), \<open>HttpReply\<close> (the bytes of a
  response), \<open>HttpSystem\<close> (reachable states), \<open>HttpClaims\<close> (the properties). \<^verbatim>\<open>http/send_static.c\<close>: \<open>SendStatic\<close> (every function), \<open>StaticPaths\<close> (which paths are opened), \<open>StaticSafe\<close> and \<open>StaticClaims\<close>.

  \<^item> \<^verbatim>\<open>tcp/tcp.c\<close>: \<open>Tcp\<close> (servers, clients, handles and events), \<open>TcpServer\<close> (the invariant of a server), \<open>TcpSystem\<close> (the calls in any order; the properties).

  \<^item> \<^verbatim>\<open>thread/sync.c\<close>: \<open>Semaphore\<close>, the counting semaphore built from a mutex and a condition variable, with threads interleaved at each of their operations, spurious wake-ups and timeouts.

  \<^item> \<^verbatim>\<open>misc/log.c\<close>: \<open>Log\<close> (the threads that log and the one that flushes, as programs whose points can interleave, on the ring of \<open>Spsc\<close>), \<open>LogRing\<close>, \<open>LogSystem\<close> (the invariant), \<open>LogClaims\<close>. The flag \<open>quiet\<close> excludes one
  interleaving, in which text is lost; the properties that need it say so.

  \<^item> \<^verbatim>\<open>asyncio/io.c\<close>: \<open>Io\<close> (the Linux build), \<open>IoSystem\<close> (program and kernel at work on a context), \<open>IoClaims\<close>. The step relation lets the program use live handles, close idle resources and never
  be refused by the kernel; the end of \<open>IoClaims\<close> shows what happens without this discipline.

  \<^item> \<^verbatim>\<open>misc/sqlite3_utils.c\<close>: \<open>SqlUtils\<close>, with the SQLite library as an argument. \<^verbatim>\<open>misc/file.c\<close>: \<open>FileList\<close> (both platforms) and \<open>FileClaims\<close>, with addresses for the memory of lists, so that moving it
  shows.

  \<^bigskip>\<^bold>\<open>Bounds.\<close> The hash map theorems bound the initial size and the insertions by \<open>2 ^ 26\<close>, so that no size wraps, and give fuel for a full round of probes. Insertion and resize
  call each other at most once. Sizes of buffers are below \<open>2 ^ 63\<close>. Numbers of printed digits, of headers (32), of path components (64) and of events (three for each client) are those of the code.

  \<^bigskip>\<^bold>\<open>Not modelled.\<close> The thread pool (\<^verbatim>\<open>thread/thread_pool.c\<close>), whose struct and semaphore type are not among the sources; threads, mutexes and condition variables themselves (\<^verbatim>\<open>thread/thread.c\<close> and the rest of
  \<^verbatim>\<open>thread/sync.c\<close>), clocks and profiling (\<^verbatim>\<open>time/\<close>), page allocation (\<^verbatim>\<open>alloc/os_alloc.c\<close>) and graphics (\<^verbatim>\<open>graphics/\<close>), which only call the system or a foreign library; tests, examples and benchmarks; the code
  of \<^verbatim>\<open>asyncio/io.c\<close> for Windows; log and error messages. Weak memory is not modelled: the atomic accesses of the sources are sequentially consistent.
\<close>

end
